(* ===== verification/Prelude.thy ===== *)
theory Prelude
  imports Main "HOL-Library.Word"
begin

text \<open>
  Types, memory primitives and shared lemmas of the development.

  Machine integers are words of the width the C code uses.  Raw memory is a list of
  bytes; a \<open>memcpy\<close> into it is \<open>mem_write\<close>.  The 32-bit loads and stores of the wire
  format are little-endian (the code stores host words; the supported hosts are
  little-endian).  Failures of the C functions are values of the type \<open>errno\<close>.
\<close>

unbundle bit_operations_syntax

section \<open>Machine types\<close>

type_synonym u8 = "8 word"
type_synonym u16 = "16 word"
type_synonym u32 = "32 word"
type_synonym u64 = "64 word"

text \<open>File descriptors are C \<open>int\<close>s, kept as the 32-bit pattern the ring buffers carry.\<close>

type_synonym fd = "32 word"

abbreviation fd_none :: fd where "fd_none \<equiv> - 1"

text \<open>
  The \<open>errno\<close> values that the modelled code sets or tests.  \<open>ABORT\<close> stands for
  \<open>wl_abort\<close> (the process stops), \<open>UB\<close> for an access outside an array, which the C code
  leaves undefined, and \<open>UNSET\<close> for a failure that is returned without setting \<open>errno\<close>.
\<close>

datatype errno =
    EAGAIN | EINTR | EINVAL | ENOMEM | E2BIG | EOVERFLOW | ERANGE | EPIPE | EMFILE
  | ENOENT | ENAMETOOLONG | EEXIST | EADDRINUSE | EIO | ESRCH | ENOSYS | EBADF
  | ABORT | UB | UNSET

named_theorems ring_simps "facts about the circular buffers"
named_theorems wire_simps "facts about the wire format"
named_theorems map_simps "facts about the object id maps"
named_theorems heap_simps "facts about the timer heap"

section \<open>Lists\<close>

lemma length_filter_le_Suc: "length (filter P xs) \<le> length xs"
  by (rule length_filter_le)

lemma distinct_map_filter_nth:
  "distinct xs \<Longrightarrow> i < length xs \<Longrightarrow> j < length xs \<Longrightarrow> xs ! i = xs ! j \<Longrightarrow> i = j"
  by (simp add: nth_eq_iff_index_eq)

lemma takeWhile_id: "(\<And>x. x \<in> set xs \<Longrightarrow> P x) \<Longrightarrow> takeWhile P xs = xs"
  by (simp add: takeWhile_eq_all_conv)

lemma zip_take_length: "zip xs (take (length xs) ys) = zip xs ys"
  by (induction xs ys rule: list_induct2') auto

section \<open>Raw memory\<close>

definition mem_write :: "'a list \<Rightarrow> nat \<Rightarrow> 'a list \<Rightarrow> 'a list" where
  "mem_write xs off ys = take off xs @ ys @ drop (off + length ys) xs"

definition mem_read :: "'a list \<Rightarrow> nat \<Rightarrow> nat \<Rightarrow> 'a list" where
  "mem_read xs off n = take n (drop off xs)"

lemma length_mem_write [simp]:
  "off + length ys \<le> length xs \<Longrightarrow> length (mem_write xs off ys) = length xs"
  by (simp add: mem_write_def)

lemma length_mem_read [simp]: "length (mem_read xs off n) = min n (length xs - off)"
  by (simp add: mem_read_def)

lemma nth_mem_write:
  "off + length ys \<le> length xs \<Longrightarrow> j < length xs \<Longrightarrow>
   mem_write xs off ys ! j = (if off \<le> j \<and> j < off + length ys then ys ! (j - off) else xs ! j)"
  by (auto simp: mem_write_def nth_append)

lemma nth_mem_read: "off + n \<le> length xs \<Longrightarrow> i < n \<Longrightarrow> mem_read xs off n ! i = xs ! (off + i)"
  by (simp add: mem_read_def)

lemma mem_write_Nil [simp]: "off \<le> length xs \<Longrightarrow> mem_write xs off [] = xs"
  by (simp add: mem_write_def)

lemma mem_read_write_same [simp]:
  "off + length ys \<le> length xs \<Longrightarrow> mem_read (mem_write xs off ys) off (length ys) = ys"
  by (simp add: mem_read_def mem_write_def)

lemma take_mem_write_before [simp]:
  "n \<le> off \<Longrightarrow> off + length ys \<le> length xs \<Longrightarrow> take n (mem_write xs off ys) = take n xs"
  by (simp add: mem_write_def min_def)

lemma take_mem_write_end:
  "off + length ys \<le> length xs \<Longrightarrow>
   take (off + length ys) (mem_write xs off ys) = take off xs @ ys"
  by (simp add: mem_write_def)

section \<open>Little-endian words\<close>

definition u32_bytes :: "u32 \<Rightarrow> u8 list" where
  "u32_bytes w = [ucast w, ucast (drop_bit 8 w), ucast (drop_bit 16 w), ucast (drop_bit 24 w)]"

definition bytes_u32 :: "u8 \<Rightarrow> u8 \<Rightarrow> u8 \<Rightarrow> u8 \<Rightarrow> u32" where
  "bytes_u32 a b c d =
     ucast a OR push_bit 8 (ucast b) OR push_bit 16 (ucast c) OR push_bit 24 (ucast d)"

lemma length_u32_bytes [simp]: "length (u32_bytes w) = 4"
  by (simp add: u32_bytes_def)

lemma bytes_u32_inverse [simp]:
  "bytes_u32 (ucast w) (ucast (drop_bit 8 w)) (ucast (drop_bit 16 w)) (ucast (drop_bit 24 w)) = w"
proof (rule bit_word_eqI)
  fix n assume "n < LENGTH(32)"
  then consider "n < 8" | "8 \<le> n" "n < 16" | "16 \<le> n" "n < 24" | "24 \<le> n" "n < 32"
    by fastforce
  then show "bit (bytes_u32 (ucast w) (ucast (drop_bit 8 w)) (ucast (drop_bit 16 w))
                 (ucast (drop_bit 24 w))) n = bit w n"
    by cases (auto simp: bytes_u32_def bit_simps)
qed

fun words_of :: "u8 list \<Rightarrow> u32 list" where
  "words_of (a # b # c # d # r) = bytes_u32 a b c d # words_of r"
| "words_of _ = []"

definition bytes_of :: "u32 list \<Rightarrow> u8 list" where
  "bytes_of ws = concat (map u32_bytes ws)"

lemma bytes_of_Nil [simp]: "bytes_of [] = []"
  by (simp add: bytes_of_def)

lemma bytes_of_Cons [simp]: "bytes_of (w # ws) = u32_bytes w @ bytes_of ws"
  by (simp add: bytes_of_def)

lemma bytes_of_append [simp]: "bytes_of (xs @ ys) = bytes_of xs @ bytes_of ys"
  by (simp add: bytes_of_def)

lemma length_bytes_of [simp]: "length (bytes_of ws) = 4 * length ws"
  by (induction ws) auto

lemma words_of_u32_bytes_append [simp]: "words_of (u32_bytes w @ r) = w # words_of r"
  by (simp add: u32_bytes_def)

lemma words_of_bytes_of [simp]: "words_of (bytes_of ws) = ws"
  by (induction ws) auto

lemma words_of_bytes_of_append [simp]: "words_of (bytes_of ws @ r) = ws @ words_of r"
  by (induction ws) auto

lemma length_words_of [simp]: "length (words_of bs) = length bs div 4"
  by (induction bs rule: words_of.induct) auto

lemma bytes_u32_bytes: "u32_bytes (bytes_u32 a b c d) = [a, b, c, d]"
proof -
  have "ucast (bytes_u32 a b c d) = a"
    by (rule bit_word_eqI) (auto simp: bytes_u32_def bit_simps dest: bit_imp_le_length)
  moreover have "ucast (drop_bit 8 (bytes_u32 a b c d)) = b"
    by (rule bit_word_eqI) (auto simp: bytes_u32_def bit_simps dest: bit_imp_le_length)
  moreover have "ucast (drop_bit 16 (bytes_u32 a b c d)) = c"
    by (rule bit_word_eqI) (auto simp: bytes_u32_def bit_simps dest: bit_imp_le_length)
  moreover have "ucast (drop_bit 24 (bytes_u32 a b c d)) = d"
    by (rule bit_word_eqI) (auto simp: bytes_u32_def bit_simps dest: bit_imp_le_length)
  ultimately show ?thesis by (simp add: u32_bytes_def)
qed

lemma bytes_of_words_of: "4 dvd length bs \<Longrightarrow> bytes_of (words_of bs) = bs"
proof (induction bs rule: words_of.induct)
  case (1 a b c d r)
  then have "4 dvd length r" by (simp add: dvd_def) presburger
  with 1 show ?case by (simp add: bytes_u32_bytes)
qed (auto simp: dvd_def, presburger+)

lemma words_of_append:
  "4 dvd length xs \<Longrightarrow> words_of (xs @ ys) = words_of xs @ words_of ys"
  by (metis bytes_of_words_of words_of_bytes_of_append)

lemma four_Suc: "4 + n = Suc (Suc (Suc (Suc n)))"
  by simp

lemma words_of_short: "length bs < 4 \<Longrightarrow> words_of bs = []"
  by (cases bs rule: words_of.cases) auto

lemma take_words_of: "words_of (take (4 * n) bs) = take n (words_of bs)"
proof (induction bs arbitrary: n rule: words_of.induct)
  case (1 a b c d r)
  then show ?case by (cases n) (simp_all add: four_Suc)
qed (simp_all add: words_of_short)

lemma drop_words_of: "words_of (drop (4 * n) bs) = drop n (words_of bs)"
proof (induction bs arbitrary: n rule: words_of.induct)
  case (1 a b c d r)
  then show ?case by (cases n) (simp_all add: four_Suc)
qed (simp_all add: words_of_short)

section \<open>Word arithmetic\<close>

lemma unat_of_nat_u32: "n < 2 ^ 32 \<Longrightarrow> unat (of_nat n :: u32) = n"
  by (simp add: unat_of_nat take_bit_eq_mod)

lemma unat_u32_bound: "unat (w :: u32) < 2 ^ 32"
  using unsigned_less [of w] by simp

text \<open>\<open>div_roundup\<close> of connection.c: the addition is done in 64 bits.\<close>

definition div_roundup :: "u32 \<Rightarrow> nat \<Rightarrow> u32" where
  "div_roundup n a = of_nat ((unat n + (a - 1)) div a)"

lemma unat_div_roundup: "unat (div_roundup n 4) = (unat n + 3) div 4"
proof -
  have "(unat n + 3) div 4 < 2 ^ 32"
    using unat_u32_bound [of n] by simp
  then show ?thesis by (simp add: div_roundup_def unat_of_nat_u32)
qed

end
