(* ===== verification/WlArray.thy ===== *)
theory WlArray
  imports Prelude
begin

text \<open>
  \<open>struct wl_array\<close> of wayland-util.c: a growing byte array.  Sizes are \<open>size_t\<close>, 64-bit
  words.  The loop that doubles the allocation may not end, so it is a partial function:
  \<open>None\<close> is a call that does not return.  Bytes that malloc or realloc hand out are
  unspecified: they are read from \<open>junk\<close>, an argument of the operations.
\<close>

section \<open>State and operations\<close>

text \<open>\<open>arr_data = None\<close> is the poison pointer of a released array.\<close>

record wl_array =
  arr_size :: u64
  arr_alloc :: u64
  arr_data :: "u8 list option"

definition wl_array_init :: wl_array where
  "wl_array_init = \<lparr>arr_size = 0, arr_alloc = 0, arr_data = Some []\<rparr>"

definition wl_array_release :: "wl_array \<Rightarrow> wl_array" where
  "wl_array_release a = a\<lparr>arr_data := None\<rparr>"

text \<open>\<open>while (alloc < array->size + size) alloc *= 2;\<close>\<close>

partial_function (option) wl_array_grow :: "u64 \<Rightarrow> u64 \<Rightarrow> u64 option" where
  "wl_array_grow alloc need = (if alloc < need then wl_array_grow (alloc * 2) need else Some alloc)"

text \<open>
  The result is the offset of the new element, or nothing when the allocation fails.
  \<open>mem\<close> is the outcome of the malloc or realloc.
\<close>

definition wl_array_add ::
  "wl_array \<Rightarrow> u64 \<Rightarrow> bool \<Rightarrow> (nat \<Rightarrow> u8) \<Rightarrow> ((errno + u64) \<times> wl_array) option" where
  "wl_array_add a n mem junk =
     (let start = (if arr_alloc a > 0 then arr_alloc a else 16) in
      case wl_array_grow start (arr_size a + n) of
        None \<Rightarrow> None
      | Some alloc \<Rightarrow>
          if arr_alloc a < alloc then
            if \<not> mem then Some (Inl ENOMEM, a)
            else (case arr_data a of
                    None \<Rightarrow> Some (Inl UB, a)
                  | Some d \<Rightarrow>
                      let old = (if arr_alloc a > 0 then d else []) in
                      Some (Inr (arr_size a),
                            a\<lparr>arr_data := Some (old @ map junk [length old..<unat alloc]),
                              arr_alloc := alloc, arr_size := arr_size a + n\<rparr>))
          else Some (Inr (arr_size a), a\<lparr>arr_size := arr_size a + n\<rparr>))"

text \<open>\<open>memcpy(array->data, source->data, source->size)\<close>\<close>

definition array_fill :: "wl_array \<Rightarrow> wl_array \<Rightarrow> errno + wl_array" where
  "array_fill a src =
     (if arr_size src > 0 then
        (case (arr_data a, arr_data src) of
           (Some d, Some e) \<Rightarrow>
             if unat (arr_size src) \<le> length d \<and> unat (arr_size src) \<le> length e
             then Inr (a\<lparr>arr_data := Some (mem_write d 0 (take (unat (arr_size src)) e))\<rparr>)
             else Inl UB
         | _ \<Rightarrow> Inl UB)
      else Inr a)"

definition wl_array_copy ::
  "wl_array \<Rightarrow> wl_array \<Rightarrow> bool \<Rightarrow> (nat \<Rightarrow> u8) \<Rightarrow> ((errno + int) \<times> wl_array) option" where
  "wl_array_copy a src mem junk =
     (let fill = (\<lambda>a. case array_fill a src of Inl e \<Rightarrow> (Inl e, a) | Inr a' \<Rightarrow> (Inr 0, a')) in
      if arr_size a < arr_size src then
        (case wl_array_add a (arr_size src - arr_size a) mem junk of
           None \<Rightarrow> None
         | Some (Inl ENOMEM, a') \<Rightarrow> Some (Inr (- 1), a')
         | Some (Inl e, a') \<Rightarrow> Some (Inl e, a')
         | Some (Inr _, a') \<Rightarrow> Some (fill a'))
      else Some (fill (a\<lparr>arr_size := arr_size src\<rparr>)))"

section \<open>Invariant and growth\<close>

definition array_bytes :: "wl_array \<Rightarrow> u8 list" where
  "array_bytes a = (case arr_data a of None \<Rightarrow> [] | Some d \<Rightarrow> take (unat (arr_size a)) d)"

definition pow2_alloc :: "u64 \<Rightarrow> bool" where
  "pow2_alloc w \<longleftrightarrow> (\<exists>k. 4 \<le> k \<and> k < 64 \<and> w = 2 ^ k)"

definition array_ok :: "wl_array \<Rightarrow> bool" where
  "array_ok a \<longleftrightarrow>
     (arr_alloc a = 0 \<or> pow2_alloc (arr_alloc a)) \<and> arr_size a \<le> arr_alloc a \<and>
     (\<exists>d. arr_data a = Some d \<and> length d = unat (arr_alloc a))"

lemma unat_pow2: "k < 64 \<Longrightarrow> unat ((2 :: u64) ^ k) = 2 ^ k"
proof -
  assume "k < 64"
  then have "(2 :: nat) ^ k < 2 ^ 64" by (intro power_strict_increasing) auto
  moreover have "unat ((2 :: u64) ^ k) = unat (of_nat (2 ^ k) :: u64)" by simp
  ultimately show ?thesis by (simp only: unat_of_nat take_bit_eq_mod) simp
qed

lemma pow2_zero: "64 \<le> k \<Longrightarrow> (2 :: u64) ^ k = 0"
  by (simp add: exp_eq_zero_iff)

lemma unat_pow2_le: "unat ((2 :: u64) ^ k) \<le> 2 ^ 63"
proof (cases "k < 64")
  case True
  then have "(2 :: nat) ^ k \<le> 2 ^ 63" by (intro power_increasing) auto
  with True show ?thesis by (simp add: unat_pow2 del: power_increasing_iff)
qed (simp add: pow2_zero)

text \<open>The value the loop leaves is the first doubling that is large enough.\<close>

lemma wl_array_grow_value:
  "wl_array_grow alloc need = Some r \<Longrightarrow> \<not> r < need \<and> (\<exists>j. r = alloc * 2 ^ j)"
proof (rule wl_array_grow.raw_induct [where P = "\<lambda>alloc need r. \<not> r < need \<and> (\<exists>j. r = alloc * 2 ^ j)"])
  fix grow and alloc need y :: u64
  assume IH: "\<And>alloc need r. grow alloc need = Some r \<Longrightarrow> \<not> r < need \<and> (\<exists>j. r = alloc * 2 ^ j)"
    and step: "(if alloc < need then grow (alloc * 2) need else Some alloc) = Some y"
  show "\<not> y < need \<and> (\<exists>j. y = alloc * 2 ^ j)"
  proof (cases "alloc < need")
    case True
    with IH [of "alloc * 2" need y] step obtain j where "\<not> y < need" "y = alloc * 2 * 2 ^ j" by auto
    then show ?thesis by (metis mult.assoc power_Suc)
  next
    case False
    with step show ?thesis by (auto intro!: exI [of _ 0])
  qed
qed

lemma wl_array_grow_diverges:
  assumes "2 ^ 63 < unat need"
  shows "wl_array_grow (2 ^ k) need = None"
proof (cases "wl_array_grow (2 ^ k) need")
  case (Some r)
  from wl_array_grow_value [OF this] obtain j where r: "\<not> r < need" "r = 2 ^ (k + j)"
    by (auto simp: power_add)
  have "unat r \<le> 2 ^ 63" unfolding r(2) by (rule unat_pow2_le)
  with r(1) assms show ?thesis by (simp add: word_less_nat_alt)
qed

lemma wl_array_grow_returns:
  assumes "unat need \<le> 2 ^ 63" "k < 64"
  shows "\<exists>j. k \<le> j \<and> j < 64 \<and> wl_array_grow (2 ^ k) need = Some (2 ^ j) \<and> unat need \<le> 2 ^ j \<and>
     (\<forall>i. k \<le> i \<longrightarrow> i < j \<longrightarrow> 2 ^ i < unat need)"
  using assms(2)
proof (induction "63 - k" arbitrary: k)
  case 0
  then have "k = 63" by simp
  with assms(1) show ?case
    by (subst wl_array_grow.simps) (auto simp: word_less_nat_alt)
next
  case (Suc d)
  show ?case
  proof (cases "2 ^ k < need")
    case False
    then have "unat need \<le> 2 ^ k" using Suc.prems by (simp add: word_less_nat_alt unat_pow2)
    with False Suc.prems show ?thesis
      by (subst wl_array_grow.simps) (auto intro!: exI [of _ k])
  next
    case True
    then have lt: "2 ^ k < unat need" using Suc.prems by (simp add: word_less_nat_alt unat_pow2)
    have "d = 63 - Suc k" "Suc k < 64" using Suc.hyps(2) by auto
    from Suc.hyps(1) [OF this] obtain j where j: "Suc k \<le> j" "j < 64"
      "wl_array_grow (2 ^ Suc k) need = Some (2 ^ j)" "unat need \<le> 2 ^ j"
      "\<forall>i. Suc k \<le> i \<longrightarrow> i < j \<longrightarrow> 2 ^ i < unat need" by blast
    have "wl_array_grow (2 ^ k) need = Some (2 ^ j)"
      using True j(3) by (subst wl_array_grow.simps) (simp add: mult.commute)
    moreover have "\<forall>i. k \<le> i \<longrightarrow> i < j \<longrightarrow> 2 ^ i < unat need"
      using j(5) lt by (metis le_eq_less_or_eq Suc_leI)
    ultimately show ?thesis using j by (intro exI [of _ j]) auto
  qed
qed

lemma array_okD:
  assumes "array_ok a"
  obtains k d where "4 \<le> k" "k < 64" "(if arr_alloc a > 0 then arr_alloc a else 16) = 2 ^ k"
    "arr_alloc a = 0 \<or> arr_alloc a = 2 ^ k" "arr_data a = Some d" "length d = unat (arr_alloc a)"
    "arr_size a \<le> arr_alloc a"
proof -
  have 16: "(16 :: u64) = 2 ^ 4" by simp
  from assms obtain d where d: "arr_data a = Some d" "length d = unat (arr_alloc a)"
    "arr_size a \<le> arr_alloc a" by (auto simp: array_ok_def)
  consider "arr_alloc a = 0" | k where "4 \<le> k" "k < 64" "arr_alloc a = 2 ^ k"
    using assms by (auto simp: array_ok_def pow2_alloc_def)
  then show thesis
  proof cases
    case 1
    with d 16 show ?thesis by (intro that [of 4 d]) auto
  next
    case (2 k)
    then have "unat (arr_alloc a) = 2 ^ k" by (simp add: unat_pow2)
    then have "arr_alloc a > 0" by (simp add: word_less_nat_alt)
    with 2 d show ?thesis by (intro that [of k d]) auto
  qed
qed

lemma array_ok_init [simp]: "array_ok wl_array_init" and array_bytes_init [simp]: "array_bytes wl_array_init = []"
  by (simp_all add: array_ok_def wl_array_init_def array_bytes_def)

lemma unat_add_small: "unat a + unat b < 2 ^ 64 \<Longrightarrow> unat (a + b :: u64) = unat a + unat b"
  by (simp add: unat_word_ariths)

lemma wl_array_add_cases:
  assumes ok: "array_ok a" and sum: "unat (arr_size a) + unat n \<le> 2 ^ 63"
  obtains (fits) a' where "wl_array_add a n mem junk = Some (Inr (arr_size a), a')"
      "array_ok a'" "unat (arr_size a') = unat (arr_size a) + unat n"
      "take (unat (arr_size a)) (array_bytes a') = array_bytes a"
      "mem \<or> arr_alloc a' = arr_alloc a"
  | (no_memory) "wl_array_add a n mem junk = Some (Inl ENOMEM, a)" "\<not> mem"
      "unat (arr_alloc a) < unat (arr_size a) + unat n \<or> arr_alloc a = 0"
proof -
  let ?need = "arr_size a + n"
  have need: "unat ?need = unat (arr_size a) + unat n" by (rule unat_add_small) (use sum in simp)
  obtain k d where k: "4 \<le> k" "k < 64" "(if arr_alloc a > 0 then arr_alloc a else 16) = 2 ^ k"
    "arr_alloc a = 0 \<or> arr_alloc a = 2 ^ k" and d: "arr_data a = Some d" "length d = unat (arr_alloc a)"
    "arr_size a \<le> arr_alloc a" using array_okD [OF ok] by metis
  obtain j where j: "k \<le> j" "j < 64" "wl_array_grow (2 ^ k) ?need = Some (2 ^ j)" "unat ?need \<le> 2 ^ j"
    using wl_array_grow_returns [of ?need k] need sum k(2) by auto
  have uj: "unat ((2 :: u64) ^ j) = 2 ^ j" by (rule unat_pow2 [OF j(2)])
  have size: "unat (arr_size a) \<le> length d" using d by (simp add: word_le_nat_alt)
  have ge: "length d \<le> 2 ^ j"
    using k j d(2) by (auto simp: unat_pow2 power_increasing)
  show thesis
  proof (cases "arr_alloc a < 2 ^ j")
    case False
    then have ge2: "2 ^ j \<le> length d" using d(2) uj by (simp add: word_less_nat_alt)
    let ?a = "a\<lparr>arr_size := ?need\<rparr>"
    show thesis
    proof (rule fits)
      show "wl_array_add a n mem junk = Some (Inr (arr_size a), ?a)"
        using k(3) j(3) False by (simp add: wl_array_add_def)
      show "array_ok ?a"
        using ok d j(4) ge2 by (auto simp: array_ok_def word_le_nat_alt)
      show "take (unat (arr_size a)) (array_bytes ?a) = array_bytes a"
        using need d by (simp add: array_bytes_def)
    qed (use need in simp_all)
  next
    case True
    show thesis
    proof (cases mem)
      case False
      have "unat (arr_alloc a) < unat (arr_size a) + unat n \<or> arr_alloc a = 0"
      proof (rule ccontr)
        assume "\<not> ?thesis"
        then have nz: "arr_alloc a \<noteq> 0" and "unat ?need \<le> unat (arr_alloc a)" using need by auto
        then have "wl_array_grow (arr_alloc a) ?need = Some (arr_alloc a)"
          by (subst wl_array_grow.simps) (simp add: word_less_nat_alt)
        with k(4) nz j(3) True show False by auto
      qed
      with k(3) j(3) True False show thesis by (intro no_memory) (simp_all add: wl_array_add_def)
    next
      case mem: True
      let ?old = "if arr_alloc a > 0 then d else []"
      let ?d = "?old @ map junk [length ?old..<unat ((2 :: u64) ^ j)]"
      let ?a = "a\<lparr>arr_data := Some ?d, arr_alloc := 2 ^ j, arr_size := ?need\<rparr>"
      have old: "?old = d" using d(2) by (auto simp: word_gt_0)
      have len: "length ?d = 2 ^ j" using ge uj by (simp add: old)
      show thesis
      proof (rule fits)
        show "wl_array_add a n mem junk = Some (Inr (arr_size a), ?a)"
          using k(3) j(3) True mem d(1) by (simp add: wl_array_add_def Let_def)
        have "pow2_alloc (2 ^ j)" using j k unfolding pow2_alloc_def by (intro exI [of _ j]) simp
        moreover have "?need \<le> 2 ^ j" using j(4) uj by (simp add: word_le_nat_alt)
        ultimately show "array_ok ?a" using len uj by (simp add: array_ok_def)
        have "array_bytes ?a = take (unat ?need) ?d" by (simp add: array_bytes_def)
        then have "take (unat (arr_size a)) (array_bytes ?a) = take (unat (arr_size a)) ?d"
          using need by (simp only: take_take min_absorb1 le_add1)
        also have "\<dots> = array_bytes a" using size d(1) by (simp add: old array_bytes_def)
        finally show "take (unat (arr_size a)) (array_bytes ?a) = array_bytes a" .
      qed (use need mem in simp_all)
    qed
  qed
qed

lemma wl_array_copy_spec:
  assumes ok: "array_ok a" "array_ok src" and small: "unat (arr_size src) \<le> 2 ^ 63"
  obtains a' where "wl_array_copy a src True junk = Some (Inr 0, a')" "array_ok a'"
    "arr_size a' = arr_size src" "array_bytes a' = array_bytes src"
proof -
  note out = that
  let ?s = "unat (arr_size src)"
  obtain e where e: "arr_data src = Some e" "?s \<le> length e"
    using ok(2) by (auto simp: array_ok_def word_le_nat_alt)
  have fill: thesis
    if b: "array_ok b" "arr_size b = arr_size src"
      "wl_array_copy a src True junk = Some (case array_fill b src of Inl e \<Rightarrow> (Inl e, b) | Inr a' \<Rightarrow> (Inr 0, a'))" for b
  proof (cases "arr_size src > 0")
    case True
    obtain d where d: "arr_data b = Some d" "?s \<le> length d" "length d = unat (arr_alloc b)"
      using b by (auto simp: array_ok_def word_le_nat_alt)
    let ?b = "b\<lparr>arr_data := Some (mem_write d 0 (take ?s e))\<rparr>"
    have "take ?s (mem_write d 0 (take ?s e)) = take ?s e"
      using e(2) by (simp add: mem_write_def)
    moreover have "length (mem_write d 0 (take ?s e)) = unat (arr_alloc b)"
      using d e(2) by simp
    ultimately show thesis
      using b True d e by (intro out [of ?b]) (auto simp: array_fill_def array_ok_def array_bytes_def)
  next
    case False
    then have "arr_size src = 0" by (simp add: word_gt_0)
    with b False e show thesis
      by (intro out [of b]) (auto simp: array_fill_def array_bytes_def split: option.splits)
  qed
  show thesis
  proof (cases "arr_size a < arr_size src")
    case False
    let ?b = "a\<lparr>arr_size := arr_size src\<rparr>"
    have "arr_size src \<le> arr_size a" "arr_size a \<le> arr_alloc a"
      using False ok(1) by (simp_all add: array_ok_def)
    then have "arr_size src \<le> arr_alloc a" by (rule order_trans)
    then have "array_ok ?b" using ok(1) by (simp add: array_ok_def)
    with False show thesis by (intro fill [of ?b]) (simp_all add: wl_array_copy_def Let_def)
  next
    case True
    let ?n = "arr_size src - arr_size a"
    have n: "unat ?n = ?s - unat (arr_size a)" by (rule unat_sub) (use True in simp)
    have "unat (arr_size a) + unat ?n \<le> 2 ^ 63" using n True small by (simp add: word_less_nat_alt)
    from wl_array_add_cases [OF ok(1) this, of True junk] obtain b where
      b: "wl_array_add a ?n True junk = Some (Inr (arr_size a), b)" "array_ok b"
        "unat (arr_size b) = unat (arr_size a) + unat ?n" by metis
    have "arr_size b = arr_size src"
      using b(3) n True by (intro unsigned_word_eqI) (simp add: word_less_nat_alt)
    with b True show thesis by (intro fill [of b]) (simp_all add: wl_array_copy_def Let_def)
  qed
qed

section \<open>Properties\<close>

text \<open>\<open>wl_array_add\<close> of at most \<open>2 ^ 63\<close> bytes in total returns: with memory, or when the
  allocation is already large enough, the offset of the new element is the old size, the
  size grows by exactly the request, the bytes before it are kept and the invariant (power
  of two allocation, size within it) holds; without memory it reports NULL and the array
  is unchanged.\<close>

lemma wl_array_add_correct:
  assumes "array_ok a" "unat (arr_size a) + unat n \<le> 2 ^ 63"
  shows "\<exists>r a'. wl_array_add a n mem junk = Some (r, a') \<and> array_ok a' \<and>
     (case r of
        Inl e \<Rightarrow> e = ENOMEM \<and> \<not> mem \<and> a' = a
      | Inr off \<Rightarrow> off = arr_size a \<and> unat (arr_size a') = unat (arr_size a) + unat n \<and>
                   take (unat off) (array_bytes a') = array_bytes a)"
proof (rule wl_array_add_cases [OF assms, of mem junk])
  fix a' assume "wl_array_add a n mem junk = Some (Inr (arr_size a), a')"
      "array_ok a'" "unat (arr_size a') = unat (arr_size a) + unat n"
      "take (unat (arr_size a)) (array_bytes a') = array_bytes a"
  then show ?thesis by auto
next
  assume "wl_array_add a n mem junk = Some (Inl ENOMEM, a)" "\<not> mem"
  with assms show ?thesis by auto
qed

lemma wl_array_add_correct_witness:
  "\<exists>r a'. wl_array_add wl_array_init 40 True (\<lambda>_. 7) = Some (r, a') \<and> unat (arr_size a') = 40"
proof -
  have "unat (arr_size wl_array_init) + unat (40 :: u64) \<le> 2 ^ 63" by (simp add: wl_array_init_def)
  from wl_array_add_correct [OF array_ok_init this, of True "\<lambda>_. 7"]
  obtain r a' where r: "wl_array_add wl_array_init 40 True (\<lambda>_. 7) = Some (r, a')"
    "case r of Inl e \<Rightarrow> e = ENOMEM \<and> \<not> True \<and> a' = wl_array_init
      | Inr off \<Rightarrow> off = arr_size wl_array_init \<and>
          unat (arr_size a') = unat (arr_size wl_array_init) + unat (40 :: u64) \<and>
          take (unat off) (array_bytes a') = array_bytes wl_array_init" by blast
  then have "unat (arr_size a') = 40" by (cases r) (simp_all add: wl_array_init_def)
  with r(1) show ?thesis by blast
qed

text \<open>\<open>wl_array_add\<close> does not return when the size it needs exceeds \<open>2 ^ 63\<close>: the doubling
  reaches \<open>2 ^ 63\<close>, wraps around to 0 and stays there.\<close>

lemma wl_array_add_no_return:
  assumes "array_ok a" "2 ^ 63 < unat (arr_size a + n)"
  shows "wl_array_add a n mem junk = None"
proof -
  obtain k where "(if arr_alloc a > 0 then arr_alloc a else 16) = 2 ^ k"
    using array_okD [OF assms(1)] by metis
  with wl_array_grow_diverges [OF assms(2), of k] show ?thesis by (simp add: wl_array_add_def)
qed

lemma wl_array_add_no_return_witness: "wl_array_add wl_array_init 0xf000000000000000 True (\<lambda>_. 0) = None"
proof -
  have "2 ^ 63 < unat (arr_size wl_array_init + 0xf000000000000000)" by (simp add: wl_array_init_def)
  from wl_array_add_no_return [OF array_ok_init this] show ?thesis .
qed

text \<open>\<open>wl_array_copy\<close> with memory available makes the bytes of the destination those of the
  source, whatever it held and however large it was, and keeps the invariant.\<close>

lemma wl_array_copy_correct:
  assumes "array_ok a" "array_ok src" "unat (arr_size src) \<le> 2 ^ 63"
  shows "\<exists>a'. wl_array_copy a src True junk = Some (Inr 0, a') \<and> array_ok a' \<and>
     arr_size a' = arr_size src \<and> array_bytes a' = array_bytes src"
  using wl_array_copy_spec [OF assms, of junk] by metis

definition sample_array :: wl_array where
  "sample_array = \<lparr>arr_size = 2, arr_alloc = 16, arr_data = Some ([5, 6] @ replicate 14 0)\<rparr>"

lemma sample_array_ok: "array_ok sample_array"
  unfolding array_ok_def pow2_alloc_def sample_array_def
  by (simp add: word_le_nat_alt, rule exI [of _ 4]) simp

lemma wl_array_copy_correct_witness:
  "\<exists>a'. wl_array_copy wl_array_init sample_array True (\<lambda>_. 9) = Some (Inr 0, a') \<and> array_bytes a' = [5, 6]"
proof -
  have "unat (arr_size sample_array) \<le> 2 ^ 63" by (simp add: sample_array_def)
  from wl_array_copy_correct [OF array_ok_init sample_array_ok this, of "\<lambda>_. 9"]
  show ?thesis by (auto simp: sample_array_def array_bytes_def)
qed

end
