(* ===== verification/WlList.thy ===== *)
theory WlList
  imports Prelude
begin

text \<open>
  The intrusive doubly-linked list \<open>struct wl_list\<close> of wayland-util.c, on an explicit store:
  an address is a number, NULL is 0, and the store gives each link its \<open>next\<close> and \<open>prev\<close>.
  The operations are the assignments of the code in their order; following a NULL pointer
  is \<open>UB\<close>.  \<open>is_list h l xs\<close> says that the list with head \<open>l\<close> holds the links \<open>xs\<close>, and
  each operation is shown to do on \<open>xs\<close> what its name says.
\<close>

section \<open>Store and operations\<close>

record links =
  nxt :: "nat \<Rightarrow> nat"
  prv :: "nat \<Rightarrow> nat"

definition set_nxt :: "nat \<Rightarrow> nat \<Rightarrow> links \<Rightarrow> links" where
  "set_nxt a v h = h\<lparr>nxt := (nxt h)(a := v)\<rparr>"

definition set_prv :: "nat \<Rightarrow> nat \<Rightarrow> links \<Rightarrow> links" where
  "set_prv a v h = h\<lparr>prv := (prv h)(a := v)\<rparr>"

lemma set_links_simps [simp]:
  "nxt (set_nxt a v h) = (nxt h)(a := v)" "prv (set_nxt a v h) = prv h"
  "nxt (set_prv a v h) = nxt h" "prv (set_prv a v h) = (prv h)(a := v)"
  by (simp_all add: set_nxt_def set_prv_def)

definition wl_list_init :: "nat \<Rightarrow> links \<Rightarrow> links" where
  "wl_list_init l h = set_nxt l l (set_prv l l h)"

definition wl_list_insert :: "nat \<Rightarrow> nat \<Rightarrow> links \<Rightarrow> errno + links" where
  "wl_list_insert l elm h =
     (let h = set_prv elm l h;
          h = set_nxt elm (nxt h l) h;
          h = set_nxt l elm h
      in if l = 0 \<or> elm = 0 \<or> nxt h elm = 0 then Inl UB
         else Inr (set_prv (nxt h elm) elm h))"

definition wl_list_remove :: "nat \<Rightarrow> links \<Rightarrow> errno + links" where
  "wl_list_remove elm h =
     (if elm = 0 \<or> prv h elm = 0 \<or> nxt h elm = 0 then Inl UB
      else
        let h = set_nxt (prv h elm) (nxt h elm) h;
            h = set_prv (nxt h elm) (prv h elm) h;
            h = set_nxt elm 0 h
        in Inr (set_prv elm 0 h))"

text \<open>\<open>None\<close> is a walk that does not return.\<close>

partial_function (option) list_length_from :: "links \<Rightarrow> nat \<Rightarrow> nat \<Rightarrow> int \<Rightarrow> (errno + int) option" where
  "list_length_from h l e count =
     (if e = l then Some (Inr count)
      else if e = 0 then Some (Inl UB)
      else list_length_from h l (nxt h e) (count + 1))"

definition wl_list_length :: "links \<Rightarrow> nat \<Rightarrow> (errno + int) option" where
  "wl_list_length h l = list_length_from h l (nxt h l) 0"

definition wl_list_empty :: "links \<Rightarrow> nat \<Rightarrow> bool" where
  "wl_list_empty h l \<longleftrightarrow> nxt h l = l"

definition wl_list_insert_list :: "nat \<Rightarrow> nat \<Rightarrow> links \<Rightarrow> errno + links" where
  "wl_list_insert_list l other h =
     (if wl_list_empty h other then Inr h
      else if l = 0 \<or> other = 0 \<or> nxt h other = 0 \<or> prv h other = 0 \<or> nxt h l = 0 then Inl UB
      else
        let h = set_prv (nxt h other) l h;
            h = set_nxt (prv h other) (nxt h l) h;
            h = set_prv (nxt h l) (prv h other) h
        in Inr (set_nxt l (nxt h other) h))"

section \<open>Abstraction to sequences\<close>

fun linked :: "links \<Rightarrow> nat list \<Rightarrow> bool" where
  "linked h (a # b # r) = (nxt h a = b \<and> prv h b = a \<and> linked h (b # r))"
| "linked h _ = True"

definition is_list :: "links \<Rightarrow> nat \<Rightarrow> nat list \<Rightarrow> bool" where
  "is_list h l xs \<longleftrightarrow> linked h (l # xs @ [l]) \<and> distinct (l # xs) \<and> 0 \<notin> set (l # xs)"

lemma linked_append: "linked h (xs @ a # ys) \<longleftrightarrow> linked h (xs @ [a]) \<and> linked h (a # ys)"
proof (induction xs)
  case (Cons x xs)
  then show ?case by (cases xs) auto
qed (cases ys; simp)

lemma linked_frame:
  "(\<And>x. x \<in> set (butlast xs) \<Longrightarrow> nxt h' x = nxt h x) \<Longrightarrow>
   (\<And>x. x \<in> set (tl xs) \<Longrightarrow> prv h' x = prv h x) \<Longrightarrow> linked h' xs = linked h xs"
proof (induction xs rule: induct_list012)
  case (3 a b r)
  have "linked h' (b # r) = linked h (b # r)"
    by (rule "3.IH"(2)) (use "3.prems" in \<open>auto simp: list.set_sel(2)\<close>)
  moreover have "nxt h' a = nxt h a" "prv h' b = prv h b" using "3.prems" by auto
  ultimately show ?case by simp
qed auto

lemma linked_next: "linked h (xs @ a # b # ys) \<Longrightarrow> nxt h a = b \<and> prv h b = a"
  using linked_append [of h xs a "b # ys"] by simp

lemma is_list_init: "l \<noteq> 0 \<Longrightarrow> is_list (wl_list_init l h) l []"
  by (simp add: is_list_def wl_list_init_def)

lemma is_list_empty: "is_list h l xs \<Longrightarrow> wl_list_empty h l \<longleftrightarrow> xs = []"
  by (cases xs) (auto simp: is_list_def wl_list_empty_def)

lemma is_list_first: "is_list h l (x # xs) \<Longrightarrow> nxt h l = x"
  by (simp add: is_list_def)

text \<open>The ring of a list cut after \<open>xs\<close>.\<close>

lemma ring_split:
  obtains us p q vs where "l # xs = us @ [p]" "ys @ [l] = q # vs"
    "p = last (l # xs)" "q = hd (ys @ [l])"
    "l # (xs @ ys) @ [l] = us @ p # q # vs"
    "set us \<union> {p} = set (l # xs)" "insert q (set vs) = set (l # ys)"
    "tl (us @ [p]) = xs" "butlast (q # vs) = ys"
proof -
  define us p where "us = butlast (l # xs)" and "p = last (l # xs)"
  define q vs where "q = hd (ys @ [l])" and "vs = tl (ys @ [l])"
  have lx: "l # xs = us @ [p]" unfolding us_def p_def by (rule append_butlast_last_id [symmetric]) simp
  have ly: "ys @ [l] = q # vs" unfolding q_def vs_def by simp
  have "l # (xs @ ys) @ [l] = (l # xs) @ (ys @ [l])" by simp
  also have "\<dots> = us @ p # q # vs" unfolding lx ly by simp
  finally have "l # (xs @ ys) @ [l] = us @ p # q # vs" .
  moreover have "set us \<union> {p} = set (l # xs)" unfolding lx by simp
  moreover have "set (ys @ [l]) = insert q (set vs)" unfolding ly by simp
  then have "insert q (set vs) = set (l # ys)" by simp
  moreover have "tl (us @ [p]) = xs" unfolding lx [symmetric] by simp
  moreover have "butlast (q # vs) = ys" unfolding ly [symmetric] by simp
  ultimately show thesis using lx ly p_def q_def by (intro that [of us p q vs]) assumption+
qed

lemma is_list_last: "is_list h l xs \<Longrightarrow> prv h l = last (l # xs)"
proof -
  assume l: "is_list h l xs"
  obtain us p q vs where "[] @ [l] = q # vs" and p: "p = last (l # xs)"
    and eq: "l # (xs @ []) @ [l] = us @ p # q # vs" using ring_split [of l xs "[]"] by metis
  then have "q = l" by simp
  moreover have "linked h (us @ p # q # vs)" using l eq by (simp add: is_list_def)
  from linked_next [OF this] have "prv h q = p" by simp
  ultimately show ?thesis using p by simp
qed

lemma is_list_length: "is_list h l xs \<Longrightarrow> wl_list_length h l = Some (Inr (int (length xs)))"
proof -
  have walk: "linked h (x # ys @ [l]) \<Longrightarrow> l \<notin> set (x # ys) \<Longrightarrow> 0 \<notin> set (x # ys) \<Longrightarrow>
      list_length_from h l x c = Some (Inr (c + int (length (x # ys))))" for x ys c
  proof (induction ys arbitrary: x c)
    case Nil
    then show ?case
      by (subst list_length_from.simps, subst list_length_from.simps) simp
  next
    case (Cons y ys)
    then show ?case by (subst list_length_from.simps) simp
  qed
  assume l: "is_list h l xs"
  show ?thesis
  proof (cases xs)
    case Nil
    with l show ?thesis
      by (simp add: wl_list_length_def is_list_def list_length_from.simps)
  next
    case (Cons x ys)
    with l walk [of x ys 0] show ?thesis by (simp add: wl_list_length_def is_list_def)
  qed
qed

text \<open>Inserting after the last element of \<open>xs\<close>, or after the head when \<open>xs\<close> is empty.\<close>

lemma distinct_tail: "distinct (l # xs @ ys) \<Longrightarrow> ys @ [l] = q # vs \<Longrightarrow> distinct (q # vs)"
proof -
  assume d: "distinct (l # xs @ ys)" and eq: "ys @ [l] = q # vs"
  from d have "distinct (ys @ [l])" by auto
  then show ?thesis by (simp only: eq)
qed

lemma is_list_insert:
  assumes l: "is_list h l (xs @ ys)" and e: "e \<noteq> 0" "e \<notin> set (l # xs @ ys)"
  obtains h' where "wl_list_insert (last (l # xs)) e h = Inr h'" "is_list h' l (xs @ e # ys)"
    "\<And>a. a \<notin> set (e # l # xs @ ys) \<Longrightarrow> nxt h' a = nxt h a \<and> prv h' a = prv h a"
proof -
  obtain us p q vs where lx: "l # xs = us @ [p]" and ly: "ys @ [l] = q # vs"
    and p: "p = last (l # xs)" and "q = hd (ys @ [l])"
    and all: "l # (xs @ ys) @ [l] = us @ p # q # vs"
    and su: "set us \<union> {p} = set (l # xs)" and sv: "insert q (set vs) = set (l # ys)"
    and tus: "tl (us @ [p]) = xs" and bvs: "butlast (q # vs) = ys"
    by (rule ring_split [of l xs ys])
  have lk: "linked h (us @ p # q # vs)" and d: "distinct (l # xs @ ys)" and z: "0 \<notin> set (l # xs @ ys)"
    using l all by (auto simp: is_list_def)
  have pq: "nxt h p = q" using linked_next [OF lk] by simp
  have pin: "p \<in> set (l # xs)" and qin: "q \<in> set (l # ys)" using su sv by auto
  then have "p \<in> set (l # xs @ ys)" "q \<in> set (l # xs @ ys)" by auto
  then have pz: "p \<noteq> 0" "q \<noteq> 0" "p \<noteq> e" "q \<noteq> e" using z e by metis+
  have dus: "distinct (us @ [p])" using d lx by (metis append_Cons distinct_append)
  have dvs: "distinct (q # vs)" by (rule distinct_tail [OF d ly])
  have enot: "e \<notin> set us" "e \<notin> set vs" using su sv e by auto
  have etl: "e \<notin> set (tl (us @ [p]))" unfolding tus using e by simp
  have qus: "q \<notin> set (tl (us @ [p]))" using tus qin d by auto
  have pvs: "p \<notin> set (butlast (q # vs))" using bvs pin d by auto
  let ?h = "set_prv q e (set_nxt p e (set_nxt e q (set_prv e p h)))"
  have run: "wl_list_insert p e h = Inr ?h"
    using pz e pq by (simp add: wl_list_insert_def Let_def)
  have "linked ?h (us @ [p]) = linked h (us @ [p])"
    by (rule linked_frame) (use enot etl pz qus dus in auto)
  then have A: "linked ?h (us @ [p])" using lk linked_append [of h us p] by blast
  have "linked ?h (q # vs) = linked h (q # vs)"
    by (rule linked_frame) (use enot pz pvs dvs in \<open>auto dest: in_set_butlastD split: if_splits\<close>)
  then have B: "linked ?h (q # vs)" using lk linked_append [of h "us @ [p]" q vs] by simp
  have C: "linked ?h (us @ p # e # q # vs)"
    using A B pz by (subst linked_append) auto
  have "l # (xs @ e # ys) @ [l] = (l # xs) @ e # (ys @ [l])" by simp
  also have "\<dots> = us @ p # e # q # vs" unfolding lx ly by simp
  finally have eq: "l # (xs @ e # ys) @ [l] = us @ p # e # q # vs" .
  show thesis
  proof (rule that)
    show "wl_list_insert (last (l # xs)) e h = Inr ?h" using run by (simp only: p)
    show "is_list ?h l (xs @ e # ys)"
      using C d z e eq by (auto simp: is_list_def)
    show "nxt ?h a = nxt h a \<and> prv ?h a = prv h a" if "a \<notin> set (e # l # xs @ ys)" for a
      using that pin qin by auto
  qed
qed

lemma is_list_frame:
  assumes "is_list h l xs" "\<And>a. a \<in> set (l # xs) \<Longrightarrow> nxt h' a = nxt h a \<and> prv h' a = prv h a"
  shows "is_list h' l xs"
proof -
  have "linked h' (l # xs @ [l]) = linked h (l # xs @ [l])"
    by (rule linked_frame) (use assms(2) in \<open>auto dest: in_set_butlastD split: if_splits\<close>)
  with assms(1) show ?thesis by (simp add: is_list_def)
qed

lemma is_list_remove:
  assumes l: "is_list h l (xs @ e # ys)"
  obtains h' where "wl_list_remove e h = Inr h'" "is_list h' l (xs @ ys)" "nxt h' e = 0" "prv h' e = 0"
    "\<And>a. a \<notin> set (e # l # xs @ ys) \<Longrightarrow> nxt h' a = nxt h a \<and> prv h' a = prv h a"
proof -
  obtain us p q vs where lx: "l # xs = us @ [p]" and ly: "ys @ [l] = q # vs"
    and p: "p = last (l # xs)" and "q = hd (ys @ [l])"
    and all: "l # (xs @ ys) @ [l] = us @ p # q # vs"
    and su: "set us \<union> {p} = set (l # xs)" and sv: "insert q (set vs) = set (l # ys)"
    and tus: "tl (us @ [p]) = xs" and bvs: "butlast (q # vs) = ys"
    by (rule ring_split [of l xs ys])
  have "l # (xs @ e # ys) @ [l] = (l # xs) @ e # (ys @ [l])" by simp
  also have "\<dots> = us @ p # e # q # vs" unfolding lx ly by simp
  finally have eq: "l # (xs @ e # ys) @ [l] = us @ p # e # q # vs" .
  have lk: "linked h (us @ p # e # q # vs)" and d: "distinct (l # xs @ e # ys)"
    and z: "0 \<notin> set (l # xs @ e # ys)"
    using l eq by (auto simp: is_list_def)
  have pe: "nxt h p = e" "prv h e = p" using linked_next [OF lk] by simp_all
  have "linked h ((us @ [p]) @ e # q # vs)" using lk by simp
  from linked_next [OF this] have eq': "nxt h e = q" "prv h q = e" by simp_all
  have pin: "p \<in> set (l # xs)" and qin: "q \<in> set (l # ys)" using su sv by auto
  then have "p \<in> set (l # xs @ ys)" "q \<in> set (l # xs @ ys)" by auto
  moreover have "e \<notin> set (l # xs @ ys)" using d by auto
  moreover have "0 \<notin> set (l # xs @ ys)" "e \<noteq> 0" using z by auto
  ultimately have pz: "p \<noteq> 0" "q \<noteq> 0" "e \<noteq> 0" "p \<noteq> e" "q \<noteq> e" by metis+
  have d': "distinct (l # xs @ ys)" using d by auto
  have dus: "distinct (us @ [p])" using d' lx by (metis append_Cons distinct_append)
  have dvs: "distinct (q # vs)" by (rule distinct_tail [OF d' ly])
  have enot: "e \<notin> set us" "e \<notin> set vs" using su sv d by auto
  have etl: "e \<notin> set (tl (us @ [p]))" unfolding tus using d by simp
  have qus: "q \<notin> set (tl (us @ [p]))" using tus qin d by auto
  have pvs: "p \<notin> set (butlast (q # vs))" using bvs pin d by auto
  let ?h = "set_prv e 0 (set_nxt e 0 (set_prv q p (set_nxt p q h)))"
  have run: "wl_list_remove e h = Inr ?h"
    using pz pe eq' by (simp add: wl_list_remove_def Let_def)
  have "linked ?h (us @ [p]) = linked h (us @ [p])"
    by (rule linked_frame) (use enot etl pz qus dus in auto)
  then have A: "linked ?h (us @ [p])" using lk linked_append [of h us p] by blast
  have "linked ?h (q # vs) = linked h (q # vs)"
    by (rule linked_frame) (use enot pz pvs dvs in \<open>auto dest: in_set_butlastD split: if_splits\<close>)
  then have B: "linked ?h (q # vs)" using lk linked_append [of h "us @ [p, e]" q vs] by simp
  have C: "linked ?h (us @ p # q # vs)"
    using A B pz by (subst linked_append) auto
  show thesis
  proof (rule that [OF run])
    show "is_list ?h l (xs @ ys)"
      using C d z all by (auto simp: is_list_def)
    show "nxt ?h a = nxt h a \<and> prv ?h a = prv h a" if "a \<notin> set (e # l # xs @ ys)" for a
      using that pin qin by auto
  qed simp_all
qed

text \<open>Removing an unlinked element again follows the NULL pointer that the first removal left.\<close>

lemma wl_list_remove_twice: "nxt h e = 0 \<Longrightarrow> wl_list_remove e h = Inl UB"
  by (simp add: wl_list_remove_def)

lemma is_list_insert_list:
  assumes l: "is_list h l xs" and o: "is_list h other ys" and dj: "set (l # xs) \<inter> set (other # ys) = {}"
  obtains h' where "wl_list_insert_list l other h = Inr h'" "is_list h' l (ys @ xs)"
    "\<And>a. a \<notin> set (l # xs @ ys) \<Longrightarrow> nxt h' a = nxt h a \<and> prv h' a = prv h a"
proof (cases "ys = []")
  case True
  with l is_list_empty [OF o] show thesis
    by (intro that [of h]) (simp_all add: wl_list_insert_list_def)
next
  case False
  obtain y z where y_def: "y = hd ys" and z_def: "z = last ys" by blast
  have ne: "\<not> wl_list_empty h other" using False is_list_empty [OF o] by simp
  obtain q vs where qv: "xs @ [l] = q # vs" by (cases xs) auto
  have bvs: "butlast (q # vs) = xs" unfolding qv [symmetric] by simp
  have "set (xs @ [l]) = insert q (set vs)" unfolding qv by simp
  then have sv: "insert q (set vs) = set (l # xs)" by simp
  obtain ys' where y: "ys = y # ys'" using False by (cases ys) (simp_all add: y_def)
  obtain ys'' where z: "ys = ys'' @ [z]" using False by (metis append_butlast_last_id z_def)
  have lo: "linked h (other # ys @ [other])" and od: "distinct (other # ys)" "0 \<notin> set (other # ys)"
    using o by (auto simp: is_list_def)
  have oy: "nxt h other = y" using lo y by simp
  have oz: "prv h other = z"
    using linked_next [of h "other # ys''" z other "[]"] lo z by simp
  have ll: "linked h (l # q # vs)" and ld: "distinct (l # xs)" "0 \<notin> set (l # xs)"
    using l \<open>xs @ [l] = q # vs\<close> by (auto simp: is_list_def)
  have lq: "nxt h l = q" using ll by simp
  have yin: "y \<in> set ys" "z \<in> set ys" using False by (simp_all add: y_def z_def)
  have qin: "q \<in> set (l # xs)" using sv by auto
  have nz: "l \<noteq> 0" "other \<noteq> 0" "y \<noteq> 0" "z \<noteq> 0" "q \<noteq> 0" "z \<noteq> l" "q \<noteq> y"
    using yin qin ld od dj by (auto simp del: z_def y_def; blast)+
  let ?h = "set_nxt l y (set_prv q z (set_nxt z q (set_prv y l h)))"
  have od2: "other \<noteq> z" "other \<noteq> y" "other \<noteq> l" "other \<noteq> q" using yin qin od dj by auto
  have run: "wl_list_insert_list l other h = Inr ?h"
    using ne nz oy oz lq od2 by (simp add: wl_list_insert_list_def Let_def)
  have "linked h ys"
    using lo linked_append [of h "[other] @ ys''" z "[other]"] z
    by (cases ys'') (auto simp: y)
  moreover have "linked ?h ys = linked h ys"
  proof (rule linked_frame)
    fix x assume x: "x \<in> set (butlast ys)"
    then have "x \<noteq> z" using od(1) unfolding z by auto
    moreover have "x \<noteq> l" using x dj by (auto dest: in_set_butlastD)
    ultimately show "nxt ?h x = nxt h x" by simp
  next
    fix x assume x: "x \<in> set (tl ys)"
    then have "x \<noteq> y" using od(1) unfolding y by auto
    moreover have "x \<in> set ys" using x y by auto
    then have "x \<noteq> q" using qin dj by auto
    ultimately show "prv ?h x = prv h x" by simp
  qed
  ultimately have A: "linked ?h ys" by simp
  have "distinct (q # vs)"
    using ld(1) \<open>xs @ [l] = q # vs\<close> distinct_tail [of l "[]" xs q vs] by simp
  have "linked ?h (q # vs) = linked h (q # vs)"
  proof (rule linked_frame)
    fix x assume "x \<in> set (butlast (q # vs))"
    then have "x \<in> set xs" using bvs by simp
    then have "x \<noteq> z" "x \<noteq> l" using yin dj ld by auto
    then show "nxt ?h x = nxt h x" by simp
  next
    fix x assume x: "x \<in> set (tl (q # vs))"
    then have "x \<noteq> q" "x \<in> set (l # xs)" using \<open>distinct (q # vs)\<close> sv by auto
    then have "x \<noteq> y" using yin dj by auto
    with \<open>x \<noteq> q\<close> show "prv ?h x = prv h x" by simp
  qed
  with ll have B: "linked ?h (q # vs)" by simp
  have "linked ?h (ys'' @ z # q # vs)"
    using A B nz z by (subst linked_append) auto
  then have "linked ?h (ys @ q # vs)" using z by simp
  then have "linked ?h (l # ys @ q # vs)" using nz y by simp
  moreover have "l # (ys @ xs) @ [l] = l # ys @ q # vs" using \<open>xs @ [l] = q # vs\<close> by simp
  ultimately have "is_list ?h l (ys @ xs)"
    using ld od dj by (auto simp: is_list_def)
  then show thesis using run yin qin by (intro that [of ?h]) auto
qed

end
