(* ===== verification/WlSignal.thy ===== *)
theory WlSignal
  imports WlList "HOL-Library.Sublist"
begin

text \<open>
  Signals: \<open>struct wl_signal\<close> of wayland-server-core.h and \<open>struct wl_priv_signal\<close> of
  wayland-server.c, lists of listeners on the store of theory WlList.  A notify function is
  an argument: it maps the store and the rest of the state to new ones, so it may add and
  remove listeners.  An emission that does not return is \<open>None\<close>.  The addresses \<open>ll\<close> and
  \<open>el\<close> are those of the signal's \<open>listener_list\<close> and \<open>emit_list\<close>.
\<close>

section \<open>Operations\<close>

definition wl_signal_init :: "nat \<Rightarrow> links \<Rightarrow> links" where
  "wl_signal_init sl h = wl_list_init sl h"

definition wl_signal_add :: "nat \<Rightarrow> nat \<Rightarrow> links \<Rightarrow> errno + links" where
  "wl_signal_add sl l h = wl_list_insert (prv h sl) l h"

text \<open>The \<open>wl_list_for_each\<close> that looks for a listener with a given notify function.\<close>

partial_function (option) find_listener ::
  "(nat \<Rightarrow> nat) \<Rightarrow> nat \<Rightarrow> nat \<Rightarrow> nat \<Rightarrow> links \<Rightarrow> (errno + nat option) option" where
  "find_listener fn sl notify e h =
     (if e = sl then Some (Inr None)
      else if e = 0 then Some (Inl UB)
      else if fn e = notify then Some (Inr (Some e))
      else find_listener fn sl notify (nxt h e) h)"

definition wl_signal_get :: "(nat \<Rightarrow> nat) \<Rightarrow> nat \<Rightarrow> nat \<Rightarrow> links \<Rightarrow> (errno + nat option) option" where
  "wl_signal_get fn sl notify h = find_listener fn sl notify (nxt h sl) h"

text \<open>\<open>wl_list_for_each_safe\<close>: the successor is read before the call.\<close>

partial_function (option) signal_emit_loop ::
  "(nat \<Rightarrow> links \<times> 's \<Rightarrow> links \<times> 's) \<Rightarrow> nat \<Rightarrow> nat \<Rightarrow> nat \<Rightarrow> links \<times> 's \<Rightarrow> (errno + links \<times> 's) option"
where
  "signal_emit_loop notify sl pos tmp st =
     (if pos = sl then Some (Inr st)
      else if pos = 0 then Some (Inl UB)
      else
        let st' = notify pos st in
        if tmp = 0 then Some (Inl UB)
        else signal_emit_loop notify sl tmp (nxt (fst st') tmp) st')"

definition wl_signal_emit ::
  "(nat \<Rightarrow> links \<times> 's \<Rightarrow> links \<times> 's) \<Rightarrow> nat \<Rightarrow> links \<times> 's \<Rightarrow> (errno + links \<times> 's) option" where
  "wl_signal_emit notify sl st =
     (let pos = nxt (fst st) sl in
      if pos = 0 then Some (Inl UB)
      else signal_emit_loop notify sl pos (nxt (fst st) pos) st)"

definition wl_priv_signal_init :: "nat \<Rightarrow> nat \<Rightarrow> links \<Rightarrow> links" where
  "wl_priv_signal_init ll el h = wl_list_init el (wl_list_init ll h)"

definition wl_priv_signal_add :: "nat \<Rightarrow> nat \<Rightarrow> links \<Rightarrow> errno + links" where
  "wl_priv_signal_add ll l h = wl_list_insert (prv h ll) l h"

definition wl_priv_signal_get ::
  "(nat \<Rightarrow> nat) \<Rightarrow> nat \<Rightarrow> nat \<Rightarrow> nat \<Rightarrow> links \<Rightarrow> (errno + nat option) option" where
  "wl_priv_signal_get fn ll el notify h =
     (case find_listener fn ll notify (nxt h ll) h of
        Some (Inr None) \<Rightarrow> find_listener fn el notify (nxt h el) h
      | r \<Rightarrow> r)"

partial_function (option) priv_emit_loop ::
  "(nat \<Rightarrow> links \<times> 's \<Rightarrow> links \<times> 's) \<Rightarrow> nat \<Rightarrow> nat \<Rightarrow> links \<times> 's \<Rightarrow> (errno + links \<times> 's) option"
where
  "priv_emit_loop notify ll el st =
     (if wl_list_empty (fst st) el then Some (Inr st)
      else
        let pos = nxt (fst st) el in
        case wl_list_remove pos (fst st) of
          Inl e \<Rightarrow> Some (Inl e)
        | Inr h1 \<Rightarrow>
            (case wl_list_insert ll pos h1 of
               Inl e \<Rightarrow> Some (Inl e)
             | Inr h2 \<Rightarrow> priv_emit_loop notify ll el (notify pos (h2, snd st))))"

definition wl_priv_signal_emit ::
  "(nat \<Rightarrow> links \<times> 's \<Rightarrow> links \<times> 's) \<Rightarrow> nat \<Rightarrow> nat \<Rightarrow> links \<times> 's \<Rightarrow> (errno + links \<times> 's) option" where
  "wl_priv_signal_emit notify ll el st =
     (case wl_list_insert_list el ll (fst st) of
        Inl e \<Rightarrow> Some (Inl e)
      | Inr h \<Rightarrow> priv_emit_loop notify ll el (wl_list_init ll h, snd st))"

partial_function (option) wl_priv_signal_final_emit ::
  "(nat \<Rightarrow> links \<times> 's \<Rightarrow> links \<times> 's) \<Rightarrow> nat \<Rightarrow> links \<times> 's \<Rightarrow> (errno + links \<times> 's) option"
where
  "wl_priv_signal_final_emit notify ll st =
     (if wl_list_empty (fst st) ll then Some (Inr st)
      else
        let pos = nxt (fst st) ll in
        case wl_list_remove pos (fst st) of
          Inl e \<Rightarrow> Some (Inl e)
        | Inr h \<Rightarrow> wl_priv_signal_final_emit notify ll (notify pos (wl_list_init pos h, snd st)))"

section \<open>Adding and finding listeners\<close>

lemma wl_signal_add_spec:
  assumes "is_list h l xs" "e \<noteq> 0" "e \<notin> set (l # xs)"
  obtains h' where "wl_list_insert (prv h l) e h = Inr h'" "is_list h' l (xs @ [e])"
    "\<And>a. a \<notin> set (e # l # xs) \<Longrightarrow> nxt h' a = nxt h a \<and> prv h' a = prv h a"
proof -
  have "is_list h l (xs @ [])" using assms(1) by simp
  from is_list_insert [OF this assms(2)] assms(3) obtain h' where
    "wl_list_insert (last (l # xs)) e h = Inr h'" "is_list h' l (xs @ [e])"
    "\<And>a. a \<notin> set (e # l # xs @ []) \<Longrightarrow> nxt h' a = nxt h a \<and> prv h' a = prv h a" by auto
  with is_list_last [OF assms(1)] show thesis by (intro that [of h']) simp_all
qed

lemma find_listener_walk:
  "linked h (xs @ [sl]) \<Longrightarrow> 0 \<notin> set xs \<Longrightarrow> sl \<notin> set xs \<Longrightarrow>
   find_listener fn sl notify (hd (xs @ [sl])) h = Some (Inr (find (\<lambda>l. fn l = notify) xs))"
proof (induction xs)
  case Nil
  then show ?case by (simp add: find_listener.simps)
next
  case (Cons x xs)
  have "nxt h x = hd (xs @ [sl])" "linked h (xs @ [sl])"
    using Cons.prems(1) by (cases xs; simp)+
  with Cons show ?case by (subst find_listener.simps) auto
qed

lemma find_listener_spec:
  assumes "is_list h sl xs"
  shows "find_listener fn sl notify (nxt h sl) h = Some (Inr (find (\<lambda>l. fn l = notify) xs))"
proof -
  have "nxt h sl = hd (xs @ [sl])" "linked h (xs @ [sl])"
    using assms by (cases xs; simp add: is_list_def)+
  with assms find_listener_walk [of h xs sl] show ?thesis by (simp add: is_list_def)
qed

section \<open>Two lists of one store\<close>

definition two_lists :: "links \<Rightarrow> nat \<Rightarrow> nat list \<Rightarrow> nat \<Rightarrow> nat list \<Rightarrow> bool" where
  "two_lists h a xs b ys \<longleftrightarrow> is_list h a xs \<and> is_list h b ys \<and> set (a # xs) \<inter> set (b # ys) = {}"

lemma two_lists_sym: "two_lists h a xs b ys \<Longrightarrow> two_lists h b ys a xs"
  by (auto simp: two_lists_def)

lemma two_lists_remove:
  assumes "two_lists h a (xs @ e # xs') b ys"
  obtains h' where "wl_list_remove e h = Inr h'" "two_lists h' a (xs @ xs') b ys"
    "e \<noteq> 0" "e \<notin> set (a # xs @ xs')" "e \<notin> set (b # ys)"
proof -
  have l: "is_list h a (xs @ e # xs')" "is_list h b ys" "set (a # xs @ e # xs') \<inter> set (b # ys) = {}"
    using assms by (auto simp: two_lists_def)
  obtain h' where h': "wl_list_remove e h = Inr h'" "is_list h' a (xs @ xs')" "nxt h' e = 0" "prv h' e = 0"
    "\<And>c. c \<notin> set (e # a # xs @ xs') \<Longrightarrow> nxt h' c = nxt h c \<and> prv h' c = prv h c"
    using is_list_remove [OF l(1)] by metis
  have "is_list h' b ys"
    by (rule is_list_frame [OF l(2)]) (rule h'(5), use l(3) in auto)
  with h' l show thesis by (intro that [of h']) (auto simp: two_lists_def is_list_def)
qed

lemma two_lists_insert_front:
  assumes "two_lists h a xs b ys" "e \<noteq> 0" "e \<notin> set (a # xs)" "e \<notin> set (b # ys)"
  obtains h' where "wl_list_insert a e h = Inr h'" "two_lists h' a (e # xs) b ys"
proof -
  have l: "is_list h a ([] @ xs)" "is_list h b ys" "set (a # xs) \<inter> set (b # ys) = {}"
    using assms by (auto simp: two_lists_def)
  obtain h' where h': "wl_list_insert (last [a]) e h = Inr h'" "is_list h' a ([] @ e # xs)"
    "\<And>c. c \<notin> set (e # a # [] @ xs) \<Longrightarrow> nxt h' c = nxt h c \<and> prv h' c = prv h c"
    using is_list_insert [OF l(1) assms(2)] assms(3) by auto
  have "is_list h' b ys"
    by (rule is_list_frame [OF l(2)]) (rule h'(3), use l(3) assms in auto)
  with h' l assms show thesis by (intro that [of h']) (auto simp: two_lists_def)
qed

section \<open>Emission\<close>

text \<open>
  What an emission relies on: a listener that is called may add listeners and remove
  itself or others, but it leaves both lists well-formed and does not put anything on the
  list of those still to be called.  \<open>calls\<close> reads the log of the calls from the state.
\<close>

locale listeners =
  fixes notify :: "nat \<Rightarrow> links \<times> 's \<Rightarrow> links \<times> 's"
    and calls :: "'s \<Rightarrow> nat list"
    and ll :: nat and el :: nat
  assumes notify_ok:
    "two_lists h ll (pos # ls) el es \<Longrightarrow>
     \<exists>h' s' ls' es'. notify pos (h, s) = (h', s') \<and> two_lists h' ll ls' el es' \<and>
        subseq es' es \<and> calls s' = calls s @ [pos]"
begin

lemma priv_emit_loop_spec:
  "two_lists h ll ls el es \<Longrightarrow>
   \<exists>h' s' ls' cs. priv_emit_loop notify ll el (h, s) = Some (Inr (h', s')) \<and>
     two_lists h' ll ls' el [] \<and> calls s' = calls s @ cs \<and> subseq cs es"
proof (induction "length es" arbitrary: h s ls es rule: less_induct)
  case less
  have e: "is_list h el es" using less.prems by (simp add: two_lists_def)
  show ?case
  proof (cases es)
    case Nil
    with less.prems is_list_empty [OF e] show ?thesis
      by (subst priv_emit_loop.simps) auto
  next
    case (Cons pos es1)
    have "two_lists h el ([] @ pos # es1) ll ls"
      using less.prems Cons by (simp add: two_lists_sym)
    then obtain h1 where h1: "wl_list_remove pos h = Inr h1" "two_lists h1 el es1 ll ls" "pos \<noteq> 0"
      "pos \<notin> set (el # es1)" "pos \<notin> set (ll # ls)"
      by (rule two_lists_remove) simp
    then obtain h2 where h2: "wl_list_insert ll pos h1 = Inr h2" "two_lists h2 ll (pos # ls) el es1"
      using two_lists_insert_front [OF two_lists_sym [OF h1(2)]] by metis
    from notify_ok [OF h2(2), of s] obtain h3 s3 ls3 es3 where n: "notify pos (h2, s) = (h3, s3)"
      "two_lists h3 ll ls3 el es3" "subseq es3 es1" "calls s3 = calls s @ [pos]" by blast
    have "length es3 < length es" using list_emb_length [OF n(3)] Cons by simp
    from less.hyps [OF this n(2), of s3] obtain h' s' ls' cs where
      r: "priv_emit_loop notify ll el (h3, s3) = Some (Inr (h', s'))"
      "two_lists h' ll ls' el []" "calls s' = calls s3 @ cs" "subseq cs es3" by blast
    have "priv_emit_loop notify ll el (h, s) = Some (Inr (h', s'))"
      using h1 h2 n r Cons is_list_empty [OF e] is_list_first [of h el pos es1] e
      by (subst priv_emit_loop.simps) simp
    moreover have "subseq (pos # cs) es"
      using r(4) n(3) Cons by (auto intro: subseq_order.order_trans)
    ultimately show ?thesis using r n by (intro exI [of _ h'] exI [of _ s'] exI [of _ ls'] exI [of _ "pos # cs"]) simp
  qed
qed

lemma wl_priv_signal_emit_spec:
  assumes "two_lists h ll ls el []"
  shows "\<exists>h' s' ls' cs. wl_priv_signal_emit notify ll el (h, s) = Some (Inr (h', s')) \<and>
     two_lists h' ll ls' el [] \<and> calls s' = calls s @ cs \<and> subseq cs ls"
proof -
  have l: "is_list h ll ls" "is_list h el []" "set (ll # ls) \<inter> set [el] = {}"
    using assms by (auto simp: two_lists_def)
  have dj: "set [el] \<inter> set (ll # ls) = {}" using l(3) by auto
  obtain h1 where h1: "wl_list_insert_list el ll h = Inr h1" "is_list h1 el (ls @ [])"
    using is_list_insert_list [OF l(2,1) dj] by metis
  have z: "ll \<noteq> 0" "ll \<notin> set (el # ls)" using l by (auto simp: is_list_def)
  let ?h = "wl_list_init ll h1"
  have "is_list ?h el ls"
    by (rule is_list_frame [of h1]) (use h1(2) z in \<open>auto simp: wl_list_init_def\<close>)
  then have "two_lists ?h ll [] el ls"
    using z is_list_init [OF z(1)] by (auto simp: two_lists_def)
  from priv_emit_loop_spec [OF this, of s] h1(1) show ?thesis
    by (simp add: wl_priv_signal_emit_def)
qed

end

text \<open>Listeners that remove no other listener that is still to be called.\<close>

locale keeping_listeners = listeners +
  assumes notify_keeps:
    "two_lists h ll (pos # ls) el es \<Longrightarrow> notify pos (h, s) = (h', s') \<Longrightarrow> is_list h' el es"
begin

lemma is_list_unique: "is_list h l xs \<Longrightarrow> is_list h l ys \<Longrightarrow> xs = ys"
proof -
  have "linked h (p # xs @ [l]) \<Longrightarrow> linked h (p # ys @ [l]) \<Longrightarrow> l \<notin> set xs \<Longrightarrow> l \<notin> set ys \<Longrightarrow> xs = ys" for p xs ys
  proof (induction xs arbitrary: p ys)
    case Nil
    then show ?case by (cases ys) auto
  next
    case (Cons x xs)
    then show ?case by (cases ys) auto
  qed
  then show "is_list h l xs \<Longrightarrow> is_list h l ys \<Longrightarrow> xs = ys" by (auto simp: is_list_def)
qed

lemma priv_emit_loop_all:
  "two_lists h ll ls el es \<Longrightarrow> priv_emit_loop notify ll el (h, s) = Some (Inr (h', s')) \<Longrightarrow>
   calls s' = calls s @ es"
proof (induction es arbitrary: h s ls)
  case Nil
  then have "is_list h el []" by (simp add: two_lists_def)
  with Nil.prems(2) is_list_empty [OF this] show ?case by (subst (asm) priv_emit_loop.simps) auto
next
  case (Cons pos es)
  have e: "is_list h el (pos # es)" using Cons.prems by (simp add: two_lists_def)
  have "two_lists h el ([] @ pos # es) ll ls" using Cons.prems by (simp add: two_lists_sym)
  then obtain h1 where h1: "wl_list_remove pos h = Inr h1" "two_lists h1 el es ll ls" "pos \<noteq> 0"
    "pos \<notin> set (el # es)" "pos \<notin> set (ll # ls)"
    by (rule two_lists_remove) simp
  then obtain h2 where h2: "wl_list_insert ll pos h1 = Inr h2" "two_lists h2 ll (pos # ls) el es"
    using two_lists_insert_front [OF two_lists_sym [OF h1(2)]] by metis
  from notify_ok [OF h2(2), of s] obtain h3 s3 ls3 es3 where n: "notify pos (h2, s) = (h3, s3)"
    "two_lists h3 ll ls3 el es3" "subseq es3 es" "calls s3 = calls s @ [pos]" by blast
  have "is_list h3 el es" by (rule notify_keeps [OF h2(2) n(1)])
  then have "es3 = es" using n(2) is_list_unique [of h3 el es3 es] by (simp add: two_lists_def)
  have "priv_emit_loop notify ll el (h3, s3) = Some (Inr (h', s'))"
    using Cons.prems(2) h1 h2 n is_list_empty [OF e] is_list_first [OF e]
    by (subst (asm) priv_emit_loop.simps) simp
  from Cons.IH [OF _ this] n \<open>es3 = es\<close> show ?case by simp
qed

end

text \<open>
  The contract of destroy listeners: called while isolated from the signal's list, a
  listener may unlink itself or not, as long as the list of the others stays as it is.
\<close>

locale final_listeners =
  fixes notify :: "nat \<Rightarrow> links \<times> 's \<Rightarrow> links \<times> 's"
    and calls :: "'s \<Rightarrow> nat list"
    and ll :: nat
  assumes notify_isolated:
    "two_lists h ll ls pos [] \<Longrightarrow>
     \<exists>h' s'. notify pos (h, s) = (h', s') \<and> is_list h' ll ls \<and> calls s' = calls s @ [pos]"
begin

lemma final_emit_spec:
  "is_list h ll ls \<Longrightarrow>
   \<exists>h' s'. wl_priv_signal_final_emit notify ll (h, s) = Some (Inr (h', s')) \<and>
     is_list h' ll [] \<and> calls s' = calls s @ ls"
proof (induction ls arbitrary: h s)
  case Nil
  with is_list_empty [OF Nil] show ?case by (subst wl_priv_signal_final_emit.simps) auto
next
  case (Cons pos ls)
  have "is_list h ll ([] @ pos # ls)" using Cons.prems by simp
  then obtain h1 where h1: "wl_list_remove pos h = Inr h1" "is_list h1 ll ls"
    by (rule is_list_remove) simp
  have z: "pos \<noteq> 0" "pos \<notin> set (ll # ls)" using Cons.prems by (auto simp: is_list_def)
  have "is_list (wl_list_init pos h1) ll ls"
    by (rule is_list_frame [OF h1(2)]) (use z in \<open>auto simp: wl_list_init_def\<close>)
  then have "two_lists (wl_list_init pos h1) ll ls pos []"
    using z is_list_init [OF z(1)] by (auto simp: two_lists_def)
  from notify_isolated [OF this, of s] obtain h2 s2 where n: "notify pos (wl_list_init pos h1, s) = (h2, s2)"
    "is_list h2 ll ls" "calls s2 = calls s @ [pos]" by blast
  from Cons.IH [OF n(2), of s2] obtain h' s' where
    r: "wl_priv_signal_final_emit notify ll (h2, s2) = Some (Inr (h', s'))" "is_list h' ll []"
      "calls s' = calls s2 @ ls" by blast
  have "wl_priv_signal_final_emit notify ll (h, s) = Some (Inr (h', s'))"
    using h1 n r is_list_empty [OF Cons.prems] is_list_first [OF Cons.prems]
    by (subst wl_priv_signal_final_emit.simps) simp
  with r n show ?case by simp
qed

end

section \<open>The listeners of the program\<close>

text \<open>
  On the store, the program's listeners are of two kinds: those of the buffer globals
  (\<open>handle_display_destroy\<close> of wlr_drm.c and wlr_linux_dmabuf_v1.c) unlink themselves with
  \<open>wl_list_remove (&display_destroy.link)\<close>, those of the addon leave the list alone.  Which
  listener is of which kind is an argument; the log records the calls.
\<close>

definition listener_notify :: "(nat \<Rightarrow> bool) \<Rightarrow> nat \<Rightarrow> links \<times> nat list \<Rightarrow> links \<times> nat list" where
  "listener_notify unlinks pos st =
     (case st of (h, log) \<Rightarrow>
        if unlinks pos then
          (case wl_list_remove pos h of Inl _ \<Rightarrow> (h, log @ [pos]) | Inr h' \<Rightarrow> (h', log @ [pos]))
        else (h, log @ [pos]))"

lemma listener_notify_front:
  assumes "two_lists h ll (pos # ls) el es"
  shows "\<exists>h' ls'. listener_notify unlinks pos (h, s) = (h', s @ [pos]) \<and> two_lists h' ll ls' el es"
proof (cases "unlinks pos")
  case True
  have "two_lists h ll ([] @ pos # ls) el es" using assms by simp
  then obtain h' where "wl_list_remove pos h = Inr h'" "two_lists h' ll ls el es"
    by (rule two_lists_remove) simp
  with True show ?thesis by (auto simp: listener_notify_def)
qed (use assms in \<open>auto simp: listener_notify_def\<close>)

interpretation program_listeners: keeping_listeners "listener_notify unlinks" "\<lambda>log. log" ll el
  for unlinks ll el
proof unfold_locales
  fix h pos ls es and s :: "nat list"
  assume "two_lists h ll (pos # ls) el es"
  from listener_notify_front [OF this, of unlinks s]
  show "\<exists>h' s' ls' es'. listener_notify unlinks pos (h, s) = (h', s') \<and> two_lists h' ll ls' el es' \<and>
        subseq es' es \<and> s' = s @ [pos]" by blast
next
  fix h pos ls es s h' s'
  assume "two_lists h ll (pos # ls) el es" "listener_notify unlinks pos (h, s) = (h', s')"
  with listener_notify_front [of h ll pos ls el es unlinks s] show "is_list h' el es"
    by (auto simp: two_lists_def)
qed

interpretation program_destroy: final_listeners "listener_notify unlinks" "\<lambda>log. log" ll
  for unlinks ll
proof unfold_locales
  fix h ls pos and s :: "nat list"
  assume t: "two_lists h ll ls pos []"
  have l: "is_list h ll ls" "pos \<noteq> 0" "pos \<notin> set (ll # ls)" "nxt h pos = pos" "prv h pos = pos"
    using t by (auto simp: two_lists_def is_list_def)
  let ?h = "set_prv pos 0 (set_nxt pos 0 (set_prv pos pos (set_nxt pos pos h)))"
  have "is_list ?h ll ls"
    by (rule is_list_frame [OF l(1)]) (use l(3) in auto)
  moreover have "wl_list_remove pos h = Inr ?h" using l by (simp add: wl_list_remove_def Let_def)
  ultimately show "\<exists>h' s'. listener_notify unlinks pos (h, s) = (h', s') \<and> is_list h' ll ls \<and> s' = s @ [pos]"
    using l(1) by (auto simp: listener_notify_def)
qed

section \<open>Properties\<close>

text \<open>C30: the operations of \<open>wl_list\<close> refine those of sequences: on a list holding \<open>xs\<close> followed
  by \<open>ys\<close>, inserting a fresh element after the last element of \<open>xs\<close> (the head when \<open>xs\<close> is
  empty) gives \<open>xs\<close>, the element, \<open>ys\<close>; removing it again restores the sequence, leaves NULL
  links in it, and a second removal dereferences NULL; \<open>wl_list_length\<close> returns the number
  of elements.\<close>

theorem wl_list_refines_sequence:
  assumes "is_list h l (xs @ ys)" "e \<noteq> 0" "e \<notin> set (l # xs @ ys)"
  shows "\<exists>h1 h2. wl_list_insert (last (l # xs)) e h = Inr h1 \<and> is_list h1 l (xs @ e # ys) \<and>
     wl_list_length h1 l = Some (Inr (int (length xs + length ys) + 1)) \<and>
     wl_list_remove e h1 = Inr h2 \<and> is_list h2 l (xs @ ys) \<and>
     nxt h2 e = 0 \<and> wl_list_remove e h2 = Inl UB"
proof -
  obtain h1 where h1: "wl_list_insert (last (l # xs)) e h = Inr h1" "is_list h1 l (xs @ e # ys)"
    using is_list_insert [OF assms] by metis
  obtain h2 where h2: "wl_list_remove e h1 = Inr h2" "is_list h2 l (xs @ ys)" "nxt h2 e = 0"
    using is_list_remove [OF h1(2)] by metis
  show ?thesis
    using h1 h2 is_list_length [OF h1(2)] wl_list_remove_twice [OF h2(3)]
    by (intro exI [of _ h1] exI [of _ h2]) simp
qed

definition empty_store :: links where
  "empty_store = \<lparr>nxt = (\<lambda>_. 0), prv = (\<lambda>_. 0)\<rparr>"

lemma wl_list_refines_sequence_witness:
  "\<exists>h1 h2. wl_list_insert 1 7 (wl_list_init 1 empty_store) = Inr h1 \<and> is_list h1 1 [7] \<and>
     wl_list_remove 7 h1 = Inr h2 \<and> is_list h2 1 []"
proof -
  have "is_list (wl_list_init 1 empty_store) 1 ([] @ [])" by (simp add: is_list_init)
  from wl_list_refines_sequence [OF this, of 7] show ?thesis by auto
qed

text \<open>C29: an emission of a private signal returns and calls each listener that is on the list
  when it starts exactly once, in the order of the list, although listeners may unlink
  themselves while they run; afterwards nothing is left to be called.\<close>

theorem wl_priv_signal_emit_once:
  assumes "two_lists h ll ls el []"
  shows "\<exists>h' ls'. wl_priv_signal_emit (listener_notify unlinks) ll el (h, log) = Some (Inr (h', log @ ls)) \<and>
     two_lists h' ll ls' el []"
proof -
  obtain h' s' ls' cs where
    r: "wl_priv_signal_emit (listener_notify unlinks) ll el (h, log) = Some (Inr (h', s'))"
    "two_lists h' ll ls' el []"
    using program_listeners.wl_priv_signal_emit_spec [OF assms] by blast
  have l: "is_list h ll ls" "is_list h el []" "set (ll # ls) \<inter> set [el] = {}"
    using assms by (auto simp: two_lists_def)
  have dj: "set [el] \<inter> set (ll # ls) = {}" using l(3) by auto
  obtain h1 where h1: "wl_list_insert_list el ll h = Inr h1" "is_list h1 el (ls @ [])"
    using is_list_insert_list [OF l(2,1) dj] by metis
  have z: "ll \<noteq> 0" "ll \<notin> set (el # ls)" using l by (auto simp: is_list_def)
  have "is_list (wl_list_init ll h1) el ls"
    by (rule is_list_frame [of h1]) (use h1(2) z in \<open>auto simp: wl_list_init_def\<close>)
  then have t: "two_lists (wl_list_init ll h1) ll [] el ls"
    using z is_list_init [OF z(1)] by (auto simp: two_lists_def)
  have "priv_emit_loop (listener_notify unlinks) ll el (wl_list_init ll h1, log) = Some (Inr (h', s'))"
    using r(1) h1(1) by (simp add: wl_priv_signal_emit_def)
  from program_listeners.priv_emit_loop_all [OF t this] r show ?thesis by auto
qed

lemma two_lists_sample:
  "\<exists>h. two_lists h 1 [5, 6] 2 []"
proof -
  let ?h = "\<lparr>nxt = (\<lambda>_. 0)(1 := 5, 5 := 6, 6 := 1, 2 := 2), prv = (\<lambda>_. 0)(1 := 6, 5 := 1, 6 := 5, 2 := 2)\<rparr>"
  have "two_lists ?h 1 [5, 6] 2 []" by (simp add: two_lists_def is_list_def)
  then show ?thesis by blast
qed

lemma wl_priv_signal_emit_once_witness:
  "\<exists>h h'. wl_priv_signal_emit (listener_notify (\<lambda>l. l = 5)) 1 2 (h, []) = Some (Inr (h', [5, 6]))"
proof -
  obtain h where "two_lists h 1 [5, 6] 2 []" using two_lists_sample by blast
  from wl_priv_signal_emit_once [OF this, of "\<lambda>l. l = 5" "[]"] show ?thesis by auto
qed

text \<open>The final emission returns, calls every listener exactly once, in order, whether it
  unlinks itself or is left linked, and leaves the signal empty.\<close>

lemma wl_priv_signal_final_emit_once:
  assumes "is_list h ll ls"
  shows "\<exists>h'. wl_priv_signal_final_emit (listener_notify unlinks) ll (h, log) = Some (Inr (h', log @ ls)) \<and>
     is_list h' ll []"
  using program_destroy.final_emit_spec [OF assms, of unlinks log] by auto

lemma wl_priv_signal_final_emit_once_witness:
  "\<exists>h h'. wl_priv_signal_final_emit (listener_notify (\<lambda>l. l = 6)) 1 (h, []) = Some (Inr (h', [5, 6]))"
proof -
  obtain h where "two_lists h 1 [5, 6] 2 []" using two_lists_sample by blast
  then have "is_list h 1 [5, 6]" by (simp add: two_lists_def)
  from wl_priv_signal_final_emit_once [OF this, of "\<lambda>l. l = 6" "[]"] show ?thesis by auto
qed

text \<open>Adding a listener to a signal puts it behind those already there, and looking up a
  notify function finds the first listener that has it, NULL when none has.\<close>

lemma wl_signal_add_get:
  assumes "is_list h sl ls" "l \<noteq> 0" "l \<notin> set (sl # ls)"
  shows "\<exists>h'. wl_signal_add sl l h = Inr h' \<and> is_list h' sl (ls @ [l]) \<and>
     wl_signal_get fn sl notify h' = Some (Inr (find (\<lambda>l. fn l = notify) (ls @ [l])))"
proof -
  obtain h' where h': "wl_list_insert (prv h sl) l h = Inr h'" "is_list h' sl (ls @ [l])"
    using wl_signal_add_spec [OF assms] by metis
  from find_listener_spec [OF h'(2), of fn notify] h' show ?thesis
    by (auto simp: wl_signal_add_def wl_signal_get_def)
qed

lemma wl_signal_add_get_witness:
  "\<exists>h'. wl_signal_add 1 7 (wl_signal_init 1 empty_store) = Inr h' \<and>
     wl_signal_get (\<lambda>_. 3) 1 3 h' = Some (Inr (Some 7))"
proof -
  have "is_list (wl_signal_init 1 empty_store) 1 []"
    by (simp add: wl_signal_init_def is_list_init)
  from wl_signal_add_get [OF this, of 7 "\<lambda>_. 3" 3] show ?thesis by auto
qed

end
