(* ===== verification/Signature.thy ===== *)
theory Signature
  imports Prelude
begin

text \<open>
  Messages, interfaces and objects of the protocol, and the functions of connection.c that
  read a message signature.  Every loop over the arguments of a message steps through its
  signature with \<open>get_next_argument\<close>; \<open>sig_args count sig\<close> is the list of the details such
  a loop sees.
\<close>

section \<open>Messages and objects\<close>

text \<open>Pointers to interfaces and objects are addresses, 0 is NULL.\<close>

record wl_message =
  msg_name :: string
  signature :: string
  types :: "u64 list"

record wl_interface =
  iface_name :: string
  iface_version :: int
  methods :: "wl_message list"
  events :: "wl_message list"

record wl_object =
  interface :: u64
  implementation :: u64
  object_id :: u32

definition wl_interface_equal :: "(u64 \<Rightarrow> wl_interface) \<Rightarrow> u64 \<Rightarrow> u64 \<Rightarrow> bool" where
  "wl_interface_equal ifaces a b \<longleftrightarrow> a = b \<or> iface_name (ifaces a) = iface_name (ifaces b)"

section \<open>Signatures\<close>

text \<open>\<open>CHR 0x00\<close> is the type the code reports at the end of the signature.\<close>

record argument_details =
  arg_type :: char
  nullable :: bool

definition is_arg_type :: "char \<Rightarrow> bool" where
  "is_arg_type c \<longleftrightarrow> c \<in> set ''iufsonah''"

fun next_argument_loop :: "bool \<Rightarrow> string \<Rightarrow> argument_details \<times> string" where
  "next_argument_loop n [] = (\<lparr>arg_type = CHR 0x00, nullable = n\<rparr>, [])"
| "next_argument_loop n (c # cs) =
     (if is_arg_type c then (\<lparr>arg_type = c, nullable = n\<rparr>, cs)
      else if c = CHR ''?'' then next_argument_loop True cs
      else next_argument_loop n cs)"

definition get_next_argument :: "string \<Rightarrow> argument_details \<times> string" where
  "get_next_argument sig = next_argument_loop False sig"

fun arg_count_for_signature :: "string \<Rightarrow> nat" where
  "arg_count_for_signature [] = 0"
| "arg_count_for_signature (c # cs) =
     (if is_arg_type c then Suc (arg_count_for_signature cs) else arg_count_for_signature cs)"

fun count_arrays :: "string \<Rightarrow> nat" where
  "count_arrays [] = 0"
| "count_arrays (c # cs) = (if c = CHR ''a'' then Suc (count_arrays cs) else count_arrays cs)"

definition wl_message_count_arrays :: "wl_message \<Rightarrow> nat" where
  "wl_message_count_arrays message = count_arrays (signature message)"

text \<open>
  \<open>atoi\<close> of the standard library: white space, a sign, digits up to the first other
  character.  The result of a number that does not fit an \<open>int\<close> is undefined in C; the
  signatures hold small versions.
\<close>

definition is_digit :: "char \<Rightarrow> bool" where
  "is_digit c \<longleftrightarrow> (of_char c :: nat) \<in> {48..57}"

definition digit_val :: "char \<Rightarrow> int" where
  "digit_val c = of_char c - 48"

definition atoi_digits :: "string \<Rightarrow> int" where
  "atoi_digits s = fold (\<lambda>c n. 10 * n + digit_val c) (takeWhile is_digit s) 0"

definition atoi :: "string \<Rightarrow> int" where
  "atoi s =
     (let s = dropWhile (\<lambda>c. c = CHR 0x20 \<or> (of_char c :: nat) \<in> {9..13}) s in
      case s of
        c # cs \<Rightarrow> if c = CHR ''-'' then - atoi_digits cs
                   else if c = CHR ''+'' then atoi_digits cs
                   else atoi_digits s
      | [] \<Rightarrow> 0)"

definition wl_message_get_since :: "wl_message \<Rightarrow> int" where
  "wl_message_get_since message =
     (let since = atoi (signature message) in if since = 0 then 1 else since)"

text \<open>The details the turns of a loop \<open>for (i = 0; i < count; i++)\<close> see.\<close>

fun sig_args :: "nat \<Rightarrow> string \<Rightarrow> argument_details list" where
  "sig_args 0 sig = []"
| "sig_args (Suc n) sig = (case get_next_argument sig of (arg, rest) \<Rightarrow> arg # sig_args n rest)"

definition message_args :: "wl_message \<Rightarrow> argument_details list" where
  "message_args message = sig_args (arg_count_for_signature (signature message)) (signature message)"

section \<open>Facts\<close>

lemma length_sig_args [simp]: "length (sig_args n sig) = n"
  by (induction n arbitrary: sig) (auto split: prod.splits)

lemma next_argument_loop_count:
  "arg_count_for_signature sig = Suc n \<Longrightarrow>
   is_arg_type (arg_type (fst (next_argument_loop b sig))) \<and>
   arg_count_for_signature (snd (next_argument_loop b sig)) = n"
  by (induction b sig rule: next_argument_loop.induct) (auto split: if_splits)

text \<open>A loop bounded by the argument count never meets the end of the signature.\<close>

lemma sig_args_types:
  "n \<le> arg_count_for_signature sig \<Longrightarrow> d \<in> set (sig_args n sig) \<Longrightarrow> is_arg_type (arg_type d)"
proof (induction n arbitrary: sig)
  case (Suc n)
  then obtain m where m: "arg_count_for_signature sig = Suc m" "n \<le> m"
    by (cases "arg_count_for_signature sig") auto
  obtain d0 r where g: "next_argument_loop False sig = (d0, r)" by fastforce
  then have "is_arg_type (arg_type d0)" "arg_count_for_signature r = m"
    using next_argument_loop_count [OF m(1), of False] by simp_all
  with Suc.IH [of r] Suc.prems(2) m g show ?case by (auto simp: get_next_argument_def)
qed simp

lemma message_args_types: "d \<in> set (message_args m) \<Longrightarrow> is_arg_type (arg_type d)"
  by (auto simp: message_args_def intro: sig_args_types [OF order_refl])

lemma length_message_args [simp]:
  "length (message_args m) = arg_count_for_signature (signature m)"
  by (simp add: message_args_def)

lemma arg_type_cases:
  assumes "is_arg_type c"
  obtains "c = CHR ''i''" | "c = CHR ''u''" | "c = CHR ''f''" | "c = CHR ''s''"
    | "c = CHR ''o''" | "c = CHR ''n''" | "c = CHR ''a''" | "c = CHR ''h''"
  using assms by (auto simp: is_arg_type_def)

text \<open>All arguments of a signature in one pass.\<close>

fun all_args :: "bool \<Rightarrow> string \<Rightarrow> argument_details list" where
  "all_args n [] = []"
| "all_args n (c # cs) =
     (if is_arg_type c then \<lparr>arg_type = c, nullable = n\<rparr> # all_args False cs
      else if c = CHR ''?'' then all_args True cs
      else all_args n cs)"

lemma all_args_step:
  "all_args b sig =
     (if arg_count_for_signature sig = 0 then []
      else fst (next_argument_loop b sig) # all_args False (snd (next_argument_loop b sig)))"
  by (induction b sig rule: next_argument_loop.induct) auto

lemma sig_args_all: "sig_args (arg_count_for_signature sig) sig = all_args False sig"
proof (induction "arg_count_for_signature sig" arbitrary: sig)
  case 0
  then show ?case using all_args_step [of False sig] by simp
next
  case (Suc n)
  obtain d r where g: "next_argument_loop False sig = (d, r)" by fastforce
  have "arg_count_for_signature r = n"
    using next_argument_loop_count [of sig n False] Suc.hyps(2) g by simp
  then have "sig_args n r = all_args False r" using Suc.hyps(1) [of r] by simp
  with g Suc.hyps(2) all_args_step [of False sig] show ?case
    by (simp add: get_next_argument_def flip: Suc.hyps(2))
qed

lemma count_arrays_args:
  "count_arrays sig =
   length (filter (\<lambda>d. arg_type d = CHR ''a'') (sig_args (arg_count_for_signature sig) sig))"
proof -
  have "count_arrays sig = length (filter (\<lambda>d. arg_type d = CHR ''a'') (all_args b sig))" for b
    by (induction b sig rule: all_args.induct) (auto simp: is_arg_type_def)
  then show ?thesis by (simp only: sig_args_all)
qed

lemma sig_args_sample:
  "sig_args (arg_count_for_signature ''2u?on'') ''2u?on'' =
   [\<lparr>arg_type = CHR ''u'', nullable = False\<rparr>, \<lparr>arg_type = CHR ''o'', nullable = True\<rparr>,
    \<lparr>arg_type = CHR ''n'', nullable = False\<rparr>]"
  by (simp add: get_next_argument_def is_arg_type_def)

lemma wl_message_get_since_sample:
  "wl_message_get_since \<lparr>msg_name = ''m'', signature = ''12u'', types = []\<rparr> = 12"
  "wl_message_get_since \<lparr>msg_name = ''m'', signature = ''u'', types = []\<rparr> = 1"
  by (simp_all add: wl_message_get_since_def atoi_def atoi_digits_def is_digit_def digit_val_def)

end
