(* ===== verification/RingBuffer.thy ===== *)
theory RingBuffer
  imports Prelude
begin

text \<open>
  The circular buffer of connection.c (\<open>struct wl_ring_buffer\<close>): 4096 bytes and two
  free-running 32-bit counters.  The abstraction \<open>rb_content\<close> is the list of bytes
  between \<open>tail\<close> and \<open>head\<close>; the lemmas show that \<open>ring_buffer_put\<close> appends to it,
  that \<open>ring_buffer_copy\<close> reads a prefix of it, that advancing \<open>tail\<close> drops a prefix,
  and that the two io-vectors describe exactly the used and the free part.  All of
  them hold across the wrap-around of the counters at \<open>2 ^ 32\<close>.
\<close>

section \<open>The buffer and its operations\<close>

record wl_ring_buffer =
  rb_data :: "u8 list"
  head :: u32
  tail :: u32

definition rb_capacity :: nat where "rb_capacity = 4096"

definition MASK :: "u32 \<Rightarrow> u32" where
  "MASK i = i AND 4095"

definition rb_init :: wl_ring_buffer where
  "rb_init = \<lparr>rb_data = replicate 4096 0, head = 0, tail = 0\<rparr>"

definition ring_buffer_size :: "wl_ring_buffer \<Rightarrow> u32" where
  "ring_buffer_size b = head b - tail b"

definition ring_buffer_put :: "wl_ring_buffer \<Rightarrow> u8 list \<Rightarrow> errno + wl_ring_buffer" where
  "ring_buffer_put b ys =
     (let count = length ys in
      if count > rb_capacity then Inl E2BIG
      else
        let h = unat (MASK (head b));
            d = (if h + count \<le> rb_capacity then mem_write (rb_data b) h ys
                 else let size = rb_capacity - h in
                   mem_write (mem_write (rb_data b) h (take size ys)) 0 (drop size ys))
        in Inr (b\<lparr>rb_data := d, head := head b + of_nat count\<rparr>))"

text \<open>An io-vector is an offset into the buffer and a length.\<close>

type_synonym iovec = "nat \<times> nat"

definition ring_buffer_put_iov :: "wl_ring_buffer \<Rightarrow> iovec list" where
  "ring_buffer_put_iov b =
     (let h = unat (MASK (head b)); t = unat (MASK (tail b)) in
      if h < t then [(h, t - h)]
      else if t = 0 then [(h, rb_capacity - h)]
      else [(h, rb_capacity - h), (0, t)])"

definition ring_buffer_get_iov :: "wl_ring_buffer \<Rightarrow> iovec list" where
  "ring_buffer_get_iov b =
     (let h = unat (MASK (head b)); t = unat (MASK (tail b)) in
      if t < h then [(t, h - t)]
      else if h = 0 then [(t, rb_capacity - t)]
      else [(t, rb_capacity - t), (0, h)])"

definition ring_buffer_copy :: "wl_ring_buffer \<Rightarrow> nat \<Rightarrow> u8 list" where
  "ring_buffer_copy b count =
     (let t = unat (MASK (tail b)) in
      if t + count \<le> rb_capacity then mem_read (rb_data b) t count
      else let size = rb_capacity - t in
        mem_read (rb_data b) t size @ mem_read (rb_data b) 0 (count - size))"

text \<open>\<open>b.tail += n\<close>, as every consumer of the buffer writes it.\<close>

definition ring_buffer_consume :: "wl_ring_buffer \<Rightarrow> nat \<Rightarrow> wl_ring_buffer" where
  "ring_buffer_consume b n = b\<lparr>tail := tail b + of_nat n\<rparr>"

text \<open>
  What the kernel does with io-vectors: \<open>iov_gather\<close> reads the described bytes in order
  (\<open>sendmsg\<close>), \<open>iov_scatter\<close> stores bytes into them in order (\<open>recvmsg\<close>).
\<close>

definition iov_total :: "iovec list \<Rightarrow> nat" where
  "iov_total iov = sum_list (map snd iov)"

definition iov_gather :: "u8 list \<Rightarrow> iovec list \<Rightarrow> u8 list" where
  "iov_gather d iov = concat (map (\<lambda>(off, n). mem_read d off n) iov)"

fun iov_scatter :: "u8 list \<Rightarrow> iovec list \<Rightarrow> u8 list \<Rightarrow> u8 list" where
  "iov_scatter d [] ys = d"
| "iov_scatter d ((off, n) # iov) ys =
     iov_scatter (mem_write d off (take n ys)) iov (drop n ys)"

section \<open>Abstraction and invariant\<close>

definition rb_count :: "wl_ring_buffer \<Rightarrow> nat" where
  "rb_count b = unat (head b - tail b)"

definition rb_content :: "wl_ring_buffer \<Rightarrow> u8 list" where
  "rb_content b = map (\<lambda>i. rb_data b ! ((unat (tail b) + i) mod 4096)) [0..<rb_count b]"

definition rb_ok :: "wl_ring_buffer \<Rightarrow> bool" where
  "rb_ok b \<longleftrightarrow> length (rb_data b) = 4096 \<and> rb_count b \<le> 4096"

lemma length_rb_content [simp]: "length (rb_content b) = rb_count b"
  by (simp add: rb_content_def)

lemma nth_rb_content:
  "i < rb_count b \<Longrightarrow> rb_content b ! i = rb_data b ! ((unat (tail b) + i) mod 4096)"
  by (simp add: rb_content_def)

lemma wrap_4096: "x < 8192 \<Longrightarrow> x mod 4096 = (if x < 4096 then x else x - 4096)" for x :: nat
  by (simp add: le_mod_geq)

lemma eq_diff_conv: "t + n = k \<Longrightarrow> k - t = n" for t :: nat
  by simp

lemma unat_MASK: "unat (MASK i) = unat i mod 4096"
proof -
  have "MASK i = take_bit 12 i"
    by (simp add: MASK_def take_bit_eq_mask mask_eq_exp_minus_1)
  then have "unat (MASK i) = take_bit 12 (unat i)"
    by (simp only: unsigned_take_bit_eq)
  then show ?thesis by (simp add: take_bit_eq_mod)
qed

lemma unat_ring_buffer_size: "unat (ring_buffer_size b) = rb_count b"
  by (simp add: ring_buffer_size_def rb_count_def)

lemma unat_add_mod_4096: "unat (x + of_nat n :: u32) mod 4096 = (unat x + n) mod 4096"
proof -
  have "(4096 :: nat) dvd 2 ^ 32" by simp
  then have "(unat x + n) mod 2 ^ 32 mod 4096 = (unat x + n) mod 4096"
    by (rule mod_mod_cancel)
  moreover have "unat (x + of_nat n :: u32) = (unat x + n) mod 2 ^ 32"
    by (simp add: unat_word_ariths unat_of_nat take_bit_eq_mod mod_add_right_eq)
  ultimately show ?thesis by simp
qed

lemma head_mod: "unat (head b) mod 4096 = (unat (tail b) + rb_count b) mod 4096"
proof -
  have "head b = tail b + of_nat (rb_count b)"
    by (simp add: rb_count_def)
  then show ?thesis by (metis unat_add_mod_4096)
qed

lemma rb_count_le_u32: "n \<le> 4096 \<Longrightarrow> unat (of_nat n :: u32) = n"
  by (simp add: unat_of_nat_u32)

lemma rb_init_ok [simp]: "rb_ok rb_init" and rb_init_content [simp]: "rb_content rb_init = []"
  by (simp_all add: rb_ok_def rb_init_def rb_count_def rb_content_def)

lemma rb_count_add:
  assumes "rb_count b + n \<le> 4096"
  shows "unat (head b + of_nat n - tail b) = rb_count b + n"
proof -
  have "unat (head b + of_nat n - tail b) = unat ((head b - tail b) + of_nat n)"
    by (simp add: algebra_simps)
  also have "\<dots> = (rb_count b + unat (of_nat n :: u32)) mod 2 ^ 32"
    by (simp only: unat_word_ariths rb_count_def) simp
  finally show ?thesis using assms by (simp add: unat_of_nat_u32)
qed

lemma rb_count_consume:
  assumes "n \<le> rb_count b" "rb_count b \<le> 4096"
  shows "rb_count (ring_buffer_consume b n) = rb_count b - n"
proof -
  have le: "(of_nat n :: u32) \<le> head b - tail b"
    using assms by (simp add: word_le_nat_alt rb_count_def unat_of_nat_u32)
  have "rb_count (ring_buffer_consume b n) = unat (head b - (tail b + of_nat n))"
    by (simp add: rb_count_def ring_buffer_consume_def)
  also have "\<dots> = unat ((head b - tail b) - of_nat n)"
    by (simp only: diff_diff_eq)
  also have "\<dots> = rb_count b - n"
    using assms le by (simp only: unat_sub rb_count_def) (simp add: unat_of_nat_u32)
  finally show ?thesis .
qed

section \<open>Consuming\<close>

lemma rb_ok_consume: "rb_ok b \<Longrightarrow> n \<le> rb_count b \<Longrightarrow> rb_ok (ring_buffer_consume b n)"
  by (auto simp: rb_ok_def rb_count_consume) (simp add: ring_buffer_consume_def)

lemma rb_content_consume:
  assumes "rb_ok b" "n \<le> rb_count b"
  shows "rb_content (ring_buffer_consume b n) = drop n (rb_content b)"
proof (rule nth_equalityI)
  show "length (rb_content (ring_buffer_consume b n)) = length (drop n (rb_content b))"
    using assms by (simp add: rb_count_consume rb_ok_def)
next
  fix i assume "i < length (rb_content (ring_buffer_consume b n))"
  then have i: "n + i < rb_count b" using assms by (simp add: rb_count_consume rb_ok_def)
  have t: "unat (tail (ring_buffer_consume b n)) mod 4096 = (unat (tail b) + n) mod 4096"
    by (simp add: ring_buffer_consume_def unat_add_mod_4096)
  have "(unat (tail (ring_buffer_consume b n)) + i) mod 4096 = (unat (tail b) + (n + i)) mod 4096"
    using mod_add_cong [OF t refl [of "i mod 4096"]] by (simp add: mod_add_eq add.assoc)
  with i assms show "rb_content (ring_buffer_consume b n) ! i = drop n (rb_content b) ! i"
    by (simp add: nth_rb_content rb_count_consume rb_ok_def)
       (simp add: ring_buffer_consume_def)
qed

section \<open>Copying out\<close>

lemma rb_slice:
  assumes "rb_ok b" "n \<le> rb_count b" "t = unat (tail b) mod 4096"
  shows "take n (rb_content b) =
    (if t + n \<le> 4096 then mem_read (rb_data b) t n
     else mem_read (rb_data b) t (4096 - t) @ mem_read (rb_data b) 0 (n - (4096 - t)))"
proof (rule nth_equalityI)
  have L: "length (rb_data b) = 4096" and n: "n \<le> 4096" and t: "t < 4096"
    using assms by (auto simp: rb_ok_def)
  show "length (take n (rb_content b)) = length (if t + n \<le> 4096 then mem_read (rb_data b) t n
     else mem_read (rb_data b) t (4096 - t) @ mem_read (rb_data b) 0 (n - (4096 - t)))"
    using assms(2) L n t by auto
  fix i assume "i < length (take n (rb_content b))"
  then have i: "i < n" using assms(2) by simp
  have m: "(unat (tail b) + i) mod 4096 = (t + i) mod 4096"
    using assms(3) by (simp add: mod_add_left_eq)
  have m': "(t + i) mod 4096 = (if t + i < 4096 then t + i else t + i - 4096)"
    using t i n by (simp add: wrap_4096)
  show "take n (rb_content b) ! i = (if t + n \<le> 4096 then mem_read (rb_data b) t n
     else mem_read (rb_data b) t (4096 - t) @ mem_read (rb_data b) 0 (n - (4096 - t))) ! i"
    using i assms(2) L n t
    by (auto simp: nth_rb_content m m' nth_append nth_mem_read
             intro!: arg_cong [where f = "nth (rb_data b)"])
qed

lemma ring_buffer_copy_content:
  "rb_ok b \<Longrightarrow> n \<le> rb_count b \<Longrightarrow> ring_buffer_copy b n = take n (rb_content b)"
  by (subst rb_slice [where t = "unat (tail b) mod 4096"])
     (auto simp: ring_buffer_copy_def unat_MASK rb_capacity_def Let_def)

lemma ring_buffer_get_iov_content:
  assumes "rb_ok b" "0 < rb_count b"
  shows "iov_gather (rb_data b) (ring_buffer_get_iov b) = rb_content b"
proof -
  define t where "t = unat (tail b) mod 4096"
  define n where "n = rb_count b"
  have t: "t < 4096" and n: "0 < n" "n \<le> 4096"
    using assms by (auto simp: t_def n_def rb_ok_def)
  have h: "unat (head b) mod 4096 = (if t + n < 4096 then t + n else t + n - 4096)"
    using t n head_mod [of b] wrap_4096 [of "t + n"]
    by (simp add: mod_add_left_eq flip: t_def n_def) (simp add: t_def n_def mod_add_left_eq)
  have "rb_content b = take n (rb_content b)" by (simp add: n_def)
  also have "\<dots> = (if t + n \<le> 4096 then mem_read (rb_data b) t n
     else mem_read (rb_data b) t (4096 - t) @ mem_read (rb_data b) 0 (n - (4096 - t)))"
    by (rule rb_slice [OF assms(1) _ t_def]) (simp add: n_def)
  finally have c: "rb_content b = \<dots>" .
  show ?thesis
    unfolding c using t n
    by (auto simp: add.commute [of n t] iov_gather_def ring_buffer_get_iov_def unat_MASK h rb_capacity_def Let_def
          eq_diff_conv simp flip: t_def)
qed

section \<open>Appending\<close>

text \<open>A store that starts at offset \<open>h\<close> and goes round the end of the buffer.\<close>

definition wrap_write :: "u8 list \<Rightarrow> nat \<Rightarrow> u8 list \<Rightarrow> u8 list" where
  "wrap_write d h ys =
     (if h + length ys \<le> 4096 then mem_write d h ys
      else mem_write (mem_write d h (take (4096 - h) ys)) 0 (drop (4096 - h) ys))"

lemma length_wrap_write [simp]:
  "length d = 4096 \<Longrightarrow> h < 4096 \<Longrightarrow> length ys \<le> 4096 \<Longrightarrow> length (wrap_write d h ys) = 4096"
  by (simp add: wrap_write_def)

lemma nth_wrap_write:
  assumes "length d = 4096" "h < 4096" "length ys \<le> 4096" "j < 4096"
  shows "wrap_write d h ys ! j =
    (let k = (if h \<le> j then j - h else j + 4096 - h) in if k < length ys then ys ! k else d ! j)"
  using assms by (auto simp: wrap_write_def nth_mem_write Let_def intro!: arg_cong [where f = "nth ys"])

lemma rb_extend:
  assumes ok: "rb_ok b" and fits: "rb_count b + length ys \<le> 4096"
    and b': "b' = b\<lparr>rb_data := wrap_write (rb_data b) (unat (MASK (head b))) ys,
                     head := head b + of_nat (length ys)\<rparr>"
  shows "rb_ok b'" and "rb_content b' = rb_content b @ ys"
proof -
  define h where "h = unat (head b) mod 4096"
  define t where "t = unat (tail b) mod 4096"
  define n where "n = rb_count b"
  have L: "length (rb_data b) = 4096" using ok by (simp add: rb_ok_def)
  have t: "t < 4096" and h: "h < 4096" and n: "n + length ys \<le> 4096"
    using fits by (simp_all add: t_def h_def n_def)
  have ht: "h = (if t + n < 4096 then t + n else t + n - 4096)"
    using t n head_mod [of b] wrap_4096 [of "t + n"]
    by (simp add: mod_add_left_eq t_def h_def n_def)
  have cnt: "rb_count b' = n + length ys"
    using rb_count_add [OF fits] by (simp add: b' rb_count_def n_def)
  show "rb_ok b'"
    using n L cnt by (simp add: rb_ok_def) (simp add: b' unat_MASK)
  show "rb_content b' = rb_content b @ ys"
  proof (rule nth_equalityI)
    show "length (rb_content b') = length (rb_content b @ ys)" by (simp add: cnt n_def)
    fix i assume "i < length (rb_content b')"
    then have i: "i < n + length ys" by (simp add: cnt)
    have idx: "(unat (tail b) + i) mod 4096 = (if t + i < 4096 then t + i else t + i - 4096)"
      using t i n wrap_4096 [of "t + i"] by (simp add: t_def mod_add_left_eq)
    have old: "rb_content b ! i = rb_data b ! (if t + i < 4096 then t + i else t + i - 4096)"
      if "i < n" using that by (simp only: nth_rb_content n_def idx)
    have "rb_content b' ! i =
        wrap_write (rb_data b) h ys ! (if t + i < 4096 then t + i else t + i - 4096)"
      using i by (simp add: nth_rb_content cnt) (simp only: b' h_def unat_MASK, simp add: idx)
    also have "\<dots> = (rb_content b @ ys) ! i"
      using i n t by (subst nth_wrap_write)
        (auto simp: L h old nth_append Let_def ht simp flip: n_def
           intro!: arg_cong [where f = "nth ys"])
    finally show "rb_content b' ! i = (rb_content b @ ys) ! i" .
  qed
qed

lemma ring_buffer_put_eq:
  "ring_buffer_put b ys =
     (if length ys > 4096 then Inl E2BIG
      else Inr (b\<lparr>rb_data := wrap_write (rb_data b) (unat (MASK (head b))) ys,
                   head := head b + of_nat (length ys)\<rparr>))"
  by (simp add: ring_buffer_put_def wrap_write_def rb_capacity_def Let_def)

lemma ring_buffer_put_ok:
  assumes "rb_ok b" "rb_count b + length ys \<le> 4096"
  shows "\<exists>b'. ring_buffer_put b ys = Inr b' \<and> rb_ok b' \<and> rb_content b' = rb_content b @ ys
              \<and> tail b' = tail b"
  using rb_extend [OF assms refl] assms(2) by (auto simp: ring_buffer_put_eq)

lemma ring_buffer_put_E2BIG: "length ys > 4096 \<Longrightarrow> ring_buffer_put b ys = Inl E2BIG"
  by (simp add: ring_buffer_put_eq)

lemma put_iov_scatter:
  assumes "rb_ok b" "rb_count b < 4096" "length ys \<le> iov_total (ring_buffer_put_iov b)"
  shows "iov_scatter (rb_data b) (ring_buffer_put_iov b) ys =
         wrap_write (rb_data b) (unat (MASK (head b))) ys"
    and "rb_count b + length ys \<le> 4096"
proof -
  define h where "h = unat (head b) mod 4096"
  define t where "t = unat (tail b) mod 4096"
  define n where "n = rb_count b"
  have L: "length (rb_data b) = 4096" using assms by (simp add: rb_ok_def)
  have t: "t < 4096" and h: "h < 4096" and n: "n < 4096"
    using assms by (simp_all add: t_def h_def n_def)
  have ht: "h = (if t + n < 4096 then t + n else t + n - 4096)"
    using t n head_mod [of b] wrap_4096 [of "t + n"]
    by (simp add: mod_add_left_eq t_def h_def n_def)
  have iov: "ring_buffer_put_iov b =
     (if h < t then [(h, t - h)] else if t = 0 then [(h, 4096 - h)] else [(h, 4096 - h), (0, t)])"
    by (simp add: ring_buffer_put_iov_def unat_MASK h_def t_def rb_capacity_def Let_def)
  show "rb_count b + length ys \<le> 4096"
    using assms(3) t n unfolding iov n_def [symmetric]
    by (auto simp: iov_total_def ht split: if_splits)
  show "iov_scatter (rb_data b) (ring_buffer_put_iov b) ys =
         wrap_write (rb_data b) (unat (MASK (head b))) ys"
    using assms(3) t h L unfolding iov unat_MASK h_def [symmetric]
    by (auto simp: iov_total_def wrap_write_def split: if_splits)
qed

lemma iov_total_put_iov:
  assumes "rb_ok b" "rb_count b < 4096"
  shows "iov_total (ring_buffer_put_iov b) = 4096 - rb_count b"
proof -
  define h where "h = unat (head b) mod 4096"
  define t where "t = unat (tail b) mod 4096"
  define n where "n = rb_count b"
  have t: "t < 4096" and h: "h < 4096" and n: "n < 4096"
    using assms by (simp_all add: t_def h_def n_def)
  have ht: "h = (if t + n < 4096 then t + n else t + n - 4096)"
    using t n head_mod [of b] wrap_4096 [of "t + n"]
    by (simp add: mod_add_left_eq t_def h_def n_def)
  show ?thesis
    using t n unfolding ring_buffer_put_iov_def unat_MASK n_def [symmetric] h_def [symmetric] t_def [symmetric]
    by (auto simp: iov_total_def ht rb_capacity_def Let_def)
qed

end
