(* ===== verification/Os.thy ===== *)
theory Os
  imports Prelude
begin

text \<open>
  The operating system as the code sees it: the results of the system calls it makes are
  read from scripts, one entry per call, and what the calls do outside the process is
  recorded (bytes and descriptors accepted by a socket, descriptors closed).  A script
  that is used up stands for a socket that would block (\<open>EAGAIN\<close>: every socket call of
  the code is made with \<open>MSG_DONTWAIT\<close>), for a full descriptor table, and for an
  allocator that succeeds.  The documented behaviour of the calls that the code relies on
  is built into the primitives: \<open>sendmsg\<close> accepts at least one and at most all of the
  offered bytes and passes all attached descriptors with the first of them; \<open>recvmsg\<close>
  stores no more bytes than the io-vectors hold.
\<close>

type_synonym cmsg = "bool \<times> fd list"  \<comment> \<open>is it \<open>SOL_SOCKET/SCM_RIGHTS\<close>, and its descriptors\<close>

record os =
  send_script :: "(errno + nat) list"
  recv_script :: "(errno + u8 list \<times> cmsg list) list"
  dup_script :: "(errno + fd) list"
  alloc_script :: "bool list"
  wire :: "fd \<Rightarrow> u8 list"
  wire_fds :: "fd \<Rightarrow> fd list"
  closed :: "fd list"

definition os_init :: os where
  "os_init = \<lparr>send_script = [], recv_script = [], dup_script = [], alloc_script = [],
              wire = (\<lambda>_. []), wire_fds = (\<lambda>_. []), closed = []\<rparr>"

text \<open>The socket \<open>s\<close> takes the first \<open>m\<close> of the bytes and all the descriptors.\<close>

definition os_sent :: "fd \<Rightarrow> u8 list \<Rightarrow> fd list \<Rightarrow> nat \<Rightarrow> (errno + nat) list \<Rightarrow> os \<Rightarrow> os" where
  "os_sent s bs fds m rs w =
     w\<lparr>send_script := rs,
       wire := (wire w)(s := wire w s @ take m bs),
       wire_fds := (wire_fds w)(s := wire_fds w s @ fds)\<rparr>"

lemma os_sent_simps [simp]:
  "send_script (os_sent s bs fds m rs w) = rs"
  "wire (os_sent s bs fds m rs w) = (wire w)(s := wire w s @ take m bs)"
  "wire_fds (os_sent s bs fds m rs w) = (wire_fds w)(s := wire_fds w s @ fds)"
  "closed (os_sent s bs fds m rs w) = closed w"
  "recv_script (os_sent s bs fds m rs w) = recv_script w"
  "dup_script (os_sent s bs fds m rs w) = dup_script w"
  "alloc_script (os_sent s bs fds m rs w) = alloc_script w"
  by (simp_all add: os_sent_def)

definition sys_sendmsg :: "fd \<Rightarrow> u8 list \<Rightarrow> fd list \<Rightarrow> os \<Rightarrow> (errno + nat) \<times> os" where
  "sys_sendmsg s bs fds w =
     (case send_script w of
        [] \<Rightarrow> (Inl EAGAIN, w)
      | Inl e # r \<Rightarrow> (Inl e, w\<lparr>send_script := r\<rparr>)
      | Inr n # r \<Rightarrow>
          let m = min (max 1 n) (length bs) in
          (Inr m, os_sent s bs fds m r w))"

definition sys_recvmsg :: "nat \<Rightarrow> os \<Rightarrow> (errno + u8 list \<times> cmsg list) \<times> os" where
  "sys_recvmsg room w =
     (case recv_script w of
        [] \<Rightarrow> (Inl EAGAIN, w)
      | Inl e # r \<Rightarrow> (Inl e, w\<lparr>recv_script := r\<rparr>)
      | Inr (bs, cs) # r \<Rightarrow> (Inr (take room bs, cs), w\<lparr>recv_script := r\<rparr>))"

definition sys_close :: "fd \<Rightarrow> os \<Rightarrow> os" where
  "sys_close f w = w\<lparr>closed := closed w @ [f]\<rparr>"

definition sys_close_all :: "fd list \<Rightarrow> os \<Rightarrow> os" where
  "sys_close_all fs w = fold sys_close fs w"

definition sys_dup :: "fd \<Rightarrow> os \<Rightarrow> (errno + fd) \<times> os" where
  "sys_dup f w =
     (case dup_script w of
        [] \<Rightarrow> (Inl EMFILE, w)
      | r # rs \<Rightarrow> (r, w\<lparr>dup_script := rs\<rparr>))"

definition sys_malloc :: "os \<Rightarrow> bool \<times> os" where
  "sys_malloc w =
     (case alloc_script w of
        [] \<Rightarrow> (True, w)
      | b # bs \<Rightarrow> (b, w\<lparr>alloc_script := bs\<rparr>))"

lemma sys_close_all_eq: "sys_close_all fs w = w\<lparr>closed := closed w @ fs\<rparr>"
  by (induction fs arbitrary: w) (simp_all add: sys_close_all_def sys_close_def)

lemma sys_close_all_append: "sys_close_all (xs @ ys) w = sys_close_all ys (sys_close_all xs w)"
  by (simp add: sys_close_all_def)

lemma sys_close_all_Nil [simp]: "sys_close_all [] w = w"
  by (simp add: sys_close_all_def)

text \<open>Retrying a call that a signal interrupted: \<open>do ... while (len == -1 \<and> errno == EINTR)\<close>.\<close>

function sys_sendmsg_retry :: "fd \<Rightarrow> u8 list \<Rightarrow> fd list \<Rightarrow> os \<Rightarrow> (errno + nat) \<times> os" where
  "sys_sendmsg_retry s bs fds w =
     (case send_script w of
        Inl EINTR # r \<Rightarrow> sys_sendmsg_retry s bs fds (w\<lparr>send_script := r\<rparr>)
      | _ \<Rightarrow> sys_sendmsg s bs fds w)"
  by pat_completeness auto
termination
  by (relation "measure (\<lambda>(s, bs, fds, w). length (send_script w))") auto

function sys_recvmsg_retry :: "nat \<Rightarrow> os \<Rightarrow> (errno + u8 list \<times> cmsg list) \<times> os" where
  "sys_recvmsg_retry room w =
     (case recv_script w of
        Inl EINTR # r \<Rightarrow> sys_recvmsg_retry room (w\<lparr>recv_script := r\<rparr>)
      | _ \<Rightarrow> sys_recvmsg room w)"
  by pat_completeness auto
termination
  by (relation "measure (\<lambda>(room, w). length (recv_script w))") auto

declare sys_sendmsg_retry.simps [simp del] sys_recvmsg_retry.simps [simp del]

lemma os_send_script_self: "send_script w = rs \<Longrightarrow> w = w\<lparr>send_script := rs\<rparr>"
  and os_recv_script_self: "recv_script w = rs' \<Longrightarrow> w = w\<lparr>recv_script := rs'\<rparr>"
  by auto

lemma sys_sendmsg_cases:
  "(\<exists>e rs. sys_sendmsg s bs fds w = (Inl e, w\<lparr>send_script := rs\<rparr>)
      \<and> (send_script w = [] \<and> e = EAGAIN \<or> (\<exists>r. send_script w = Inl e # r))
      \<and> length rs \<le> length (send_script w)) \<or>
   (\<exists>m rs. sys_sendmsg s bs fds w =
        (Inr m, os_sent s bs fds m rs w)
      \<and> m \<le> length bs \<and> (bs \<noteq> [] \<longrightarrow> 0 < m) \<and> length rs < length (send_script w))"
proof (cases "send_script w")
  case Nil
  then show ?thesis
    using os_send_script_self [OF Nil] by (auto simp: sys_sendmsg_def intro!: exI [of _ "[]"])
next
  case (Cons x r)
  show ?thesis
  proof (cases x)
    case (Inl e)
    with Cons show ?thesis by (auto simp: sys_sendmsg_def)
  next
    case (Inr n)
    have "bs \<noteq> [] \<longrightarrow> 0 < min (max 1 n) (length bs)" by (cases bs) auto
    with Cons Inr show ?thesis
      by (intro disjI2 exI [of _ "min (max 1 n) (length bs)"] exI [of _ r]) (simp add: sys_sendmsg_def Let_def)
  qed
qed

lemma sys_sendmsg_retry_cases:
  "(\<exists>e rs. sys_sendmsg_retry s bs fds w = (Inl e, w\<lparr>send_script := rs\<rparr>) \<and> e \<noteq> EINTR
      \<and> length rs \<le> length (send_script w)) \<or>
   (\<exists>m rs. sys_sendmsg_retry s bs fds w =
        (Inr m, os_sent s bs fds m rs w)
      \<and> m \<le> length bs \<and> (bs \<noteq> [] \<longrightarrow> 0 < m) \<and> length rs < length (send_script w))"
proof (induction s bs fds w rule: sys_sendmsg_retry.induct)
  case (1 s bs fds w)
  show ?case
  proof (cases "\<exists>r. send_script w = Inl EINTR # r")
    case True
    then obtain r where r: "send_script w = Inl EINTR # r" by blast
    have "sys_sendmsg_retry s bs fds w = sys_sendmsg_retry s bs fds (w\<lparr>send_script := r\<rparr>)"
      by (subst sys_sendmsg_retry.simps) (simp add: r)
    with 1 [OF r refl refl] r show ?thesis by (auto simp: le_Suc_eq less_Suc_eq os_sent_def)
  next
    case False
    then have "sys_sendmsg_retry s bs fds w = sys_sendmsg s bs fds w"
      by (subst sys_sendmsg_retry.simps) (auto split: list.split sum.split errno.split)
    with False sys_sendmsg_cases [of s bs fds w] show ?thesis by auto
  qed
qed

lemma sys_recvmsg_retry_cases:
  "(\<exists>e rs. sys_recvmsg_retry room w = (Inl e, w\<lparr>recv_script := rs\<rparr>) \<and> e \<noteq> EINTR) \<or>
   (\<exists>bs cs rs. sys_recvmsg_retry room w = (Inr (bs, cs), w\<lparr>recv_script := rs\<rparr>) \<and> length bs \<le> room)"
proof (induction room w rule: sys_recvmsg_retry.induct)
  case (1 room w)
  show ?case
  proof (cases "\<exists>r. recv_script w = Inl EINTR # r")
    case True
    then obtain r where r: "recv_script w = Inl EINTR # r" by blast
    have "sys_recvmsg_retry room w = sys_recvmsg_retry room (w\<lparr>recv_script := r\<rparr>)"
      by (subst sys_recvmsg_retry.simps) (simp add: r)
    with 1 [OF r refl refl] show ?thesis by auto
  next
    case False
    then have eq: "sys_recvmsg_retry room w = sys_recvmsg room w"
      by (subst sys_recvmsg_retry.simps) (auto split: list.split sum.split errno.split)
    show ?thesis
    proof (cases "recv_script w")
      case Nil
      then show ?thesis
        using os_recv_script_self [OF Nil] by (auto simp: eq sys_recvmsg_def intro!: exI [of _ "[]"])
    next
      case (Cons x r)
      with False show ?thesis by (cases x) (auto simp: eq sys_recvmsg_def)
    qed
  qed
qed

end
