(* ===== verification/Connection.thy ===== *)
theory Connection
  imports RingBuffer Os "HOL-Library.Sublist"
begin

text \<open>
  \<open>struct wl_connection\<close> of connection.c: two byte buffers and two buffers of file
  descriptors, all circular, on top of a stream socket.  The operations are the code's:
  flush, read, write, queue, put_fd and the copies the event loop and the addon make.
  The theorems show that the byte stream is kept in order and complete through partial
  sends, errors and retries, and that every descriptor handed to the kernel is closed
  exactly once.
\<close>

section \<open>State and operations\<close>

definition MAX_FDS_OUT :: nat where "MAX_FDS_OUT = 28"

record wl_connection =
  in_buf :: wl_ring_buffer
  out_buf :: wl_ring_buffer
  fds_in :: wl_ring_buffer
  fds_out :: wl_ring_buffer
  conn_fd :: fd
  want_flush :: bool

definition wl_connection_create :: "fd \<Rightarrow> os \<Rightarrow> wl_connection option \<times> os" where
  "wl_connection_create f w =
     (case sys_malloc w of (ok, w') \<Rightarrow>
        if \<not> ok then (None, w')
        else (Some \<lparr>in_buf = rb_init, out_buf = rb_init, fds_in = rb_init, fds_out = rb_init,
                    conn_fd = f, want_flush = False\<rparr>, w'))"

text \<open>\<open>mx\<close> is an \<open>int\<close>; a value that is not positive stands for all descriptors.\<close>

definition close_fds :: "wl_ring_buffer \<Rightarrow> int \<Rightarrow> os \<Rightarrow> wl_ring_buffer \<times> os" where
  "close_fds b mx w =
     (let size = unat (ring_buffer_size b) in
      if size = 0 then (b, w)
      else
        let fds = words_of (ring_buffer_copy b size);
            count = size div 4;
            count = (if 0 < mx \<and> mx < int count then nat mx else count);
            size = count * 4
        in (ring_buffer_consume b size, sys_close_all (take count fds) w))"

definition wl_connection_close_fds_in :: "wl_connection \<Rightarrow> int \<Rightarrow> os \<Rightarrow> wl_connection \<times> os" where
  "wl_connection_close_fds_in c mx w =
     (case close_fds (fds_in c) mx w of (b, w') \<Rightarrow> (c\<lparr>fds_in := b\<rparr>, w'))"

definition wl_connection_destroy :: "wl_connection \<Rightarrow> os \<Rightarrow> fd \<times> os" where
  "wl_connection_destroy c w =
     (case close_fds (fds_out c) (- 1) w of (_, w1) \<Rightarrow>
      case close_fds (fds_in c) (- 1) w1 of (_, w2) \<Rightarrow> (conn_fd c, w2))"

definition wl_connection_copy :: "wl_connection \<Rightarrow> nat \<Rightarrow> u8 list" where
  "wl_connection_copy c n = ring_buffer_copy (in_buf c) n"

definition wl_connection_consume :: "wl_connection \<Rightarrow> nat \<Rightarrow> wl_connection" where
  "wl_connection_consume c n = c\<lparr>in_buf := ring_buffer_consume (in_buf c) n\<rparr>"

text \<open>The control message of a \<open>sendmsg\<close>: the descriptors it carries, none when empty.\<close>

definition build_cmsg :: "wl_ring_buffer \<Rightarrow> fd list" where
  "build_cmsg b =
     (let size = unat (ring_buffer_size b);
          size = (if size > MAX_FDS_OUT * 4 then MAX_FDS_OUT * 4 else size)
      in if size > 0 then words_of (ring_buffer_copy b size) else [])"

fun decode_cmsg_loop ::
  "wl_ring_buffer \<Rightarrow> bool \<Rightarrow> cmsg list \<Rightarrow> os \<Rightarrow> (errno + bool) \<times> wl_ring_buffer \<times> os" where
  "decode_cmsg_loop b overflow [] w = (Inr overflow, b, w)"
| "decode_cmsg_loop b overflow ((rights, fds) # cs) w =
     (if \<not> rights then decode_cmsg_loop b overflow cs w
      else
        let size = 4 * length fds;
            room = rb_capacity - unat (ring_buffer_size b)
        in if size > room \<or> overflow then decode_cmsg_loop b True cs (sys_close_all fds w)
           else case ring_buffer_put b (bytes_of fds) of
                  Inl e \<Rightarrow> (Inl e, b, w)
                | Inr b' \<Rightarrow> decode_cmsg_loop b' overflow cs w)"

definition decode_cmsg :: "wl_ring_buffer \<Rightarrow> cmsg list \<Rightarrow> os \<Rightarrow> (errno + unit) \<times> wl_ring_buffer \<times> os" where
  "decode_cmsg b cs w =
     (case decode_cmsg_loop b False cs w of
        (Inl e, b', w') \<Rightarrow> (Inl e, b', w')
      | (Inr overflow, b', w') \<Rightarrow> (if overflow then Inl EOVERFLOW else Inr (), b', w'))"

text \<open>The \<open>while\<close> loop of \<open>wl_connection_flush\<close>; each turn uses up an entry of the send script.\<close>

function flush_loop :: "wl_connection \<Rightarrow> os \<Rightarrow> (errno + unit) \<times> wl_connection \<times> os" where
  "flush_loop c w =
     (if head (out_buf c) - tail (out_buf c) > 0 then
        (let iov = ring_buffer_get_iov (out_buf c);
             cmsg = build_cmsg (fds_out c)
         in case sys_sendmsg_retry (conn_fd c) (iov_gather (rb_data (out_buf c)) iov) cmsg w of
              (Inl e, w') \<Rightarrow> (Inl e, c, w')
            | (Inr len, w') \<Rightarrow>
                (case close_fds (fds_out c) (int MAX_FDS_OUT) w' of (fo, w'') \<Rightarrow>
                   flush_loop (c\<lparr>fds_out := fo, out_buf := ring_buffer_consume (out_buf c) len\<rparr>) w''))
      else (Inr (), c, w))"
  by pat_completeness auto

lemma close_fds_script [simp]:
  "close_fds b m w = (b', w') \<Longrightarrow> send_script w' = send_script w"
  by (auto simp: close_fds_def Let_def sys_close_all_eq split: if_splits)

lemma close_fds_script': "(b', w') = close_fds b m w \<Longrightarrow> send_script w' = send_script w"
  using close_fds_script [of b m w b' w'] by simp

lemma sys_sendmsg_retry_script:
  "(Inr m, w') = sys_sendmsg_retry f bs fds w \<Longrightarrow> length (send_script w') < length (send_script w)"
  using sys_sendmsg_retry_cases [of f bs fds w] by auto

termination flush_loop
  by (relation "measure (\<lambda>(c, w). length (send_script w))")
     (auto dest!: sys_sendmsg_retry_script close_fds_script')

declare flush_loop.simps [simp del]

text \<open>The result is the C return value on success: the number of bytes that left the buffer.\<close>

definition wl_connection_flush :: "wl_connection \<Rightarrow> os \<Rightarrow> (errno + u32) \<times> wl_connection \<times> os" where
  "wl_connection_flush c w =
     (if \<not> want_flush c then (Inr 0, c, w)
      else
        let t = tail (out_buf c) in
        case flush_loop c w of
          (Inl e, c', w') \<Rightarrow> (Inl e, c', w')
        | (Inr _, c', w') \<Rightarrow> (Inr (head (out_buf c') - t), c'\<lparr>want_flush := False\<rparr>, w'))"

definition wl_connection_pending_input :: "wl_connection \<Rightarrow> u32" where
  "wl_connection_pending_input c = ring_buffer_size (in_buf c)"

text \<open>\<open>Inr 0\<close> is the end of the stream.\<close>

definition wl_connection_read :: "wl_connection \<Rightarrow> os \<Rightarrow> (errno + u32) \<times> wl_connection \<times> os" where
  "wl_connection_read c w =
     (if unat (ring_buffer_size (in_buf c)) \<ge> rb_capacity then (Inl EOVERFLOW, c, w)
      else
        let iov = ring_buffer_put_iov (in_buf c) in
        case sys_recvmsg_retry (iov_total iov) w of
          (Inl e, w') \<Rightarrow> (Inl e, c, w')
        | (Inr (bs, cs), w') \<Rightarrow>
            let len = length bs;
                c = c\<lparr>in_buf := (in_buf c)\<lparr>rb_data := iov_scatter (rb_data (in_buf c)) iov bs\<rparr>\<rparr>
            in if len = 0 then (Inr 0, c, w')
               else case decode_cmsg (fds_in c) cs w' of
                      (Inl e, fi, w'') \<Rightarrow> (Inl e, c\<lparr>fds_in := fi\<rparr>, w'')
                    | (Inr _, fi, w'') \<Rightarrow>
                        let ib = in_buf c;
                            c = c\<lparr>fds_in := fi, in_buf := ib\<lparr>head := head ib + of_nat len\<rparr>\<rparr>
                        in (Inr (wl_connection_pending_input c), c, w''))"

text \<open>The flush that \<open>write\<close>, \<open>queue\<close> share: only when the data does not fit.\<close>

definition flush_if_full :: "wl_connection \<Rightarrow> nat \<Rightarrow> os \<Rightarrow> (errno + unit) \<times> wl_connection \<times> os" where
  "flush_if_full c count w =
     (if unat (head (out_buf c) - tail (out_buf c)) + count > rb_capacity then
        case wl_connection_flush (c\<lparr>want_flush := True\<rparr>) w of
          (Inl e, c', w') \<Rightarrow> (Inl e, c', w')
        | (Inr _, c', w') \<Rightarrow> (Inr (), c', w')
      else (Inr (), c, w))"

definition wl_connection_write :: "wl_connection \<Rightarrow> u8 list \<Rightarrow> os \<Rightarrow> (errno + unit) \<times> wl_connection \<times> os" where
  "wl_connection_write c bs w =
     (case flush_if_full c (length bs) w of
        (Inl e, c', w') \<Rightarrow> (Inl e, c', w')
      | (Inr _, c', w') \<Rightarrow>
          (case ring_buffer_put (out_buf c') bs of
             Inl e \<Rightarrow> (Inl e, c', w')
           | Inr b \<Rightarrow> (Inr (), c'\<lparr>out_buf := b, want_flush := True\<rparr>, w')))"

definition wl_connection_queue :: "wl_connection \<Rightarrow> u8 list \<Rightarrow> os \<Rightarrow> (errno + unit) \<times> wl_connection \<times> os" where
  "wl_connection_queue c bs w =
     (case flush_if_full c (length bs) w of
        (Inl e, c', w') \<Rightarrow> (Inl e, c', w')
      | (Inr _, c', w') \<Rightarrow>
          (case ring_buffer_put (out_buf c') bs of
             Inl e \<Rightarrow> (Inl e, c', w')
           | Inr b \<Rightarrow> (Inr (), c'\<lparr>out_buf := b\<rparr>, w')))"

definition wl_connection_put_fd :: "wl_connection \<Rightarrow> fd \<Rightarrow> os \<Rightarrow> (errno + unit) \<times> wl_connection \<times> os" where
  "wl_connection_put_fd c f w =
     (let r = (if unat (ring_buffer_size (fds_out c)) = MAX_FDS_OUT * 4 then
                 case wl_connection_flush (c\<lparr>want_flush := True\<rparr>) w of
                   (Inl e, c', w') \<Rightarrow> (Inl e, c', w')
                 | (Inr _, c', w') \<Rightarrow> (Inr (), c', w')
               else (Inr (), c, w))
      in case r of
           (Inl e, c', w') \<Rightarrow> (Inl e, c', w')
         | (Inr _, c', w') \<Rightarrow>
             (case ring_buffer_put (fds_out c') (u32_bytes f) of
                Inl e \<Rightarrow> (Inl e, c', w')
              | Inr b \<Rightarrow> (Inr (), c'\<lparr>fds_out := b\<rparr>, w')))"

definition wl_connection_get_fd :: "wl_connection \<Rightarrow> fd" where
  "wl_connection_get_fd c = conn_fd c"

definition wl_connection_fds_in_size :: "wl_connection \<Rightarrow> nat" where
  "wl_connection_fds_in_size c = unat (ring_buffer_size (fds_in c))"

definition wl_connection_copy_fds_in :: "wl_connection \<Rightarrow> nat \<Rightarrow> fd list \<times> wl_connection" where
  "wl_connection_copy_fds_in c n =
     (if n = 0 then ([], c)
      else (words_of (ring_buffer_copy (fds_in c) n),
            c\<lparr>fds_in := ring_buffer_consume (fds_in c) n\<rparr>))"

section \<open>Invariant and abstraction\<close>

definition fds_ok :: "wl_ring_buffer \<Rightarrow> bool" where
  "fds_ok b \<longleftrightarrow> rb_ok b \<and> 4 dvd rb_count b"

definition fds_list :: "wl_ring_buffer \<Rightarrow> fd list" where
  "fds_list b = words_of (rb_content b)"

definition conn_ok :: "wl_connection \<Rightarrow> bool" where
  "conn_ok c \<longleftrightarrow> rb_ok (in_buf c) \<and> rb_ok (out_buf c) \<and> fds_ok (fds_in c) \<and> fds_ok (fds_out c)"

lemma length_fds_list: "length (fds_list b) = rb_count b div 4"
  by (simp add: fds_list_def)

lemma rb_content_bytes_of: "fds_ok b \<Longrightarrow> rb_content b = bytes_of (fds_list b)"
  by (simp add: fds_list_def fds_ok_def bytes_of_words_of)

lemma rb_count_fds: "fds_ok b \<Longrightarrow> rb_count b = 4 * length (fds_list b)"
  by (simp add: fds_ok_def length_fds_list)

lemma wl_connection_create_ok:
  "wl_connection_create f w = (Some c, w') \<Longrightarrow>
   conn_ok c \<and> rb_content (in_buf c) = [] \<and> rb_content (out_buf c) = []
   \<and> fds_list (fds_in c) = [] \<and> fds_list (fds_out c) = [] \<and> conn_fd c = f"
  by (auto simp: wl_connection_create_def conn_ok_def fds_ok_def fds_list_def
      split: prod.splits if_splits) (simp_all add: rb_init_def rb_count_def)

lemma close_fds_spec:
  assumes ok: "fds_ok b"
    and k: "k = (if 0 < mx \<and> mx < int (length (fds_list b)) then nat mx else length (fds_list b))"
  shows "\<exists>b'. close_fds b mx w = (b', sys_close_all (take k (fds_list b)) w)
              \<and> fds_ok b' \<and> fds_list b' = drop k (fds_list b)"
proof (cases "rb_count b = 0")
  case True
  then have "fds_list b = []" by (simp add: fds_list_def rb_content_def)
  then show ?thesis
    using True ok by (simp add: close_fds_def Let_def unat_ring_buffer_size)
next
  case False
  have n: "rb_count b = 4 * length (fds_list b)" by (rule rb_count_fds [OF ok])
  have k4: "4 * k \<le> rb_count b" using n by (auto simp: k nat_le_iff)
  have rb: "rb_ok b" using ok by (simp add: fds_ok_def)
  have all: "ring_buffer_copy b (rb_count b) = rb_content b"
    using ring_buffer_copy_content [OF rb, of "rb_count b"] by simp
  have "close_fds b mx w = (ring_buffer_consume b (k * 4), sys_close_all (take k (fds_list b)) w)"
  proof -
    have "rb_count b div 4 = length (fds_list b)" by (simp only: length_fds_list)
    with False show ?thesis
      by (simp add: close_fds_def Let_def unat_ring_buffer_size all k flip: fds_list_def)
  qed
  moreover have "fds_ok (ring_buffer_consume b (k * 4))"
  proof -
    have le: "k * 4 \<le> rb_count b" using k4 by (simp add: mult.commute)
    have "rb_count (ring_buffer_consume b (k * 4)) = rb_count b - k * 4"
      by (rule rb_count_consume [OF le]) (use rb in \<open>simp add: rb_ok_def\<close>)
    moreover have "4 dvd rb_count b - k * 4" using ok by (simp add: fds_ok_def dvd_diff_nat)
    ultimately show ?thesis using rb_ok_consume [OF rb le] by (simp add: fds_ok_def)
  qed
  moreover have "fds_list (ring_buffer_consume b (k * 4)) = drop k (fds_list b)"
    using rb k4 drop_words_of [of k "rb_content b"]
    by (simp add: fds_list_def rb_content_consume mult.commute)
  ultimately show ?thesis by blast
qed

lemma close_fds_all:
  assumes "fds_ok b"
  shows "snd (close_fds b (- 1) w) = sys_close_all (fds_list b) w"
  using close_fds_spec [OF assms refl, of "- 1" w] by auto

lemma build_cmsg_eq: "fds_ok b \<Longrightarrow> build_cmsg b = take MAX_FDS_OUT (fds_list b)"
proof -
  assume ok: "fds_ok b"
  then have rb: "rb_ok b" by (simp add: fds_ok_def)
  have n: "rb_count b = 4 * length (fds_list b)" by (rule rb_count_fds [OF ok])
  define m where "m = (if rb_count b > MAX_FDS_OUT * 4 then MAX_FDS_OUT * 4 else rb_count b)"
  have m: "m = 4 * min MAX_FDS_OUT (length (fds_list b))"
    using n by (auto simp: m_def min_def)
  have "ring_buffer_copy b m = take m (rb_content b)"
    by (rule ring_buffer_copy_content [OF rb]) (simp add: m_def)
  then have "words_of (ring_buffer_copy b m) = take MAX_FDS_OUT (fds_list b)"
    by (simp add: m take_words_of min_def flip: fds_list_def)
  moreover have "m = 0 \<Longrightarrow> take MAX_FDS_OUT (fds_list b) = []"
    using m by (auto simp: min_def MAX_FDS_OUT_def split: if_splits)
  ultimately show ?thesis
    by (simp add: build_cmsg_def Let_def unat_ring_buffer_size flip: m_def)
qed

section \<open>Output\<close>

text \<open>
  What the output side of a connection may do to the world: some bytes and descriptors
  leave its buffers, in order, through its socket; the descriptors are closed.
\<close>

definition out_step :: "wl_connection \<Rightarrow> os \<Rightarrow> wl_connection \<Rightarrow> os \<Rightarrow> bool" where
  "out_step c w c' w' \<longleftrightarrow>
     conn_fd c' = conn_fd c \<and> in_buf c' = in_buf c \<and> fds_in c' = fds_in c \<and>
     recv_script w' = recv_script w \<and> dup_script w' = dup_script w \<and>
     alloc_script w' = alloc_script w \<and>
     (\<exists>bs. wire w' = (wire w)(conn_fd c := wire w (conn_fd c) @ bs) \<and>
           rb_content (out_buf c) = bs @ rb_content (out_buf c')) \<and>
     (\<exists>fs. wire_fds w' = (wire_fds w)(conn_fd c := wire_fds w (conn_fd c) @ fs) \<and>
           fds_list (fds_out c) = fs @ fds_list (fds_out c') \<and>
           closed w' = closed w @ fs)"

lemma out_step_refl: "out_step c w c w"
  by (simp add: out_step_def)

lemma out_step_trans: "out_step c w c1 w1 \<Longrightarrow> out_step c1 w1 c2 w2 \<Longrightarrow> out_step c w c2 w2"
  unfolding out_step_def by (elim conjE exE) simp

lemma out_step_script: "out_step c w c (w\<lparr>send_script := rs\<rparr>)"
  by (simp add: out_step_def)

lemma out_step_want_flush [simp]:
  "out_step (c\<lparr>want_flush := x\<rparr>) w c' w' = out_step c w c' w'"
  "out_step c w (c'\<lparr>want_flush := x\<rparr>) w' = out_step c w c' w'"
  by (simp_all add: out_step_def)

lemma conn_ok_want_flush [simp]: "conn_ok (c\<lparr>want_flush := x\<rparr>) = conn_ok c"
  by (simp add: conn_ok_def)

lemma flush_turn:
  assumes ok: "conn_ok c" and len: "len \<le> rb_count (out_buf c)"
    and w1: "w1 = os_sent (conn_fd c) (rb_content (out_buf c)) (build_cmsg (fds_out c)) len rs w"
    and cf: "close_fds (fds_out c) (int MAX_FDS_OUT) w1 = (fo, w2)"
    and c2: "c2 = c\<lparr>fds_out := fo, out_buf := ring_buffer_consume (out_buf c) len\<rparr>"
  shows "conn_ok c2" and "out_step c w c2 w2"
proof -
  have rb: "rb_ok (out_buf c)" and fo: "fds_ok (fds_out c)" using ok by (simp_all add: conn_ok_def)
  define k where "k = (if 0 < int MAX_FDS_OUT \<and> int MAX_FDS_OUT < int (length (fds_list (fds_out c)))
    then nat (int MAX_FDS_OUT) else length (fds_list (fds_out c)))"
  have tk: "take k (fds_list (fds_out c)) = take MAX_FDS_OUT (fds_list (fds_out c))"
    by (auto simp: k_def MAX_FDS_OUT_def)
  from close_fds_spec [OF fo k_def, of w1] cf
  have fo': "fds_ok fo" and fl: "fds_list fo = drop k (fds_list (fds_out c))"
    and w2: "w2 = sys_close_all (take k (fds_list (fds_out c))) w1" by auto
  show "conn_ok c2"
    using ok fo' len by (simp add: c2 conn_ok_def rb_ok_consume)
  show "out_step c w c2 w2"
    unfolding out_step_def
  proof (intro conjI exI)
    show "rb_content (out_buf c) = take len (rb_content (out_buf c)) @ rb_content (out_buf c2)"
      using rb len by (simp add: c2 rb_content_consume)
    show "fds_list (fds_out c) = take k (fds_list (fds_out c)) @ fds_list (fds_out c2)"
      by (simp add: c2 fl)
  qed (simp_all add: c2 w2 w1 sys_close_all_eq build_cmsg_eq [OF fo] tk)
qed

lemma rb_count_pos: "head b - tail b > 0 \<longleftrightarrow> rb_content b \<noteq> []"
proof -
  have "head b - tail b > 0 \<longleftrightarrow> rb_count b > 0"
    by (simp add: rb_count_def word_less_nat_alt)
  then show ?thesis by (simp flip: length_greater_0_conv)
qed

lemma flush_loop_spec:
  "conn_ok c \<Longrightarrow> flush_loop c w = (r, c', w') \<Longrightarrow>
   conn_ok c' \<and> out_step c w c' w' \<and> want_flush c' = want_flush c \<and>
   head (out_buf c') = head (out_buf c) \<and>
   (case r of Inl e \<Rightarrow> e \<noteq> EINTR \<and> rb_content (out_buf c') \<noteq> []
            | Inr _ \<Rightarrow> rb_content (out_buf c') = [])"
proof (induction c w arbitrary: r c' w' rule: flush_loop.induct)
  case (1 c w)
  show ?case
  proof (cases "head (out_buf c) - tail (out_buf c) > 0")
    case False
    with "1.prems" show ?thesis
      by (subst (asm) flush_loop.simps) (auto simp: out_step_refl rb_count_pos)
  next
    case True
    define fds where "fds = build_cmsg (fds_out c)"
    have ne: "rb_content (out_buf c) \<noteq> []" using True by (simp add: rb_count_pos)
    then have bs: "iov_gather (rb_data (out_buf c)) (ring_buffer_get_iov (out_buf c))
        = rb_content (out_buf c)"
      using "1.prems"(1) by (intro ring_buffer_get_iov_content)
        (auto simp: conn_ok_def simp flip: length_rb_content)
    obtain res w1 where send: "sys_sendmsg_retry (conn_fd c) (rb_content (out_buf c)) fds w = (res, w1)"
      by (metis surj_pair)
    show ?thesis
    proof (cases res)
      case (Inl e)
      have "flush_loop c w = (Inl e, c, w1)"
        using True send Inl by (subst flush_loop.simps) (simp add: bs flip: fds_def)
      moreover have "e \<noteq> EINTR" "out_step c w c w1"
        using sys_sendmsg_retry_cases [of "conn_fd c" "rb_content (out_buf c)" fds w] send Inl
        by (auto simp: out_step_script)
      ultimately show ?thesis using "1.prems" ne by auto
    next
      case (Inr len)
      obtain rs where w1: "w1 = os_sent (conn_fd c) (rb_content (out_buf c)) fds len rs w"
        and len: "len \<le> rb_count (out_buf c)"
        using sys_sendmsg_retry_cases [of "conn_fd c" "rb_content (out_buf c)" fds w] send Inr by auto
      obtain fo w2 where cf: "close_fds (fds_out c) (int MAX_FDS_OUT) w1 = (fo, w2)"
        by (metis surj_pair)
      define c2 where "c2 = c\<lparr>fds_out := fo, out_buf := ring_buffer_consume (out_buf c) len\<rparr>"
      note turn = flush_turn [OF "1.prems"(1) len w1 [unfolded fds_def] cf c2_def]
      have "flush_loop c w = flush_loop c2 w2"
        using True send Inr cf by (subst flush_loop.simps) (simp add: bs c2_def flip: fds_def)
      with "1.prems"(2) have "flush_loop c2 w2 = (r, c', w')" by simp
      from "1.IH" [OF True refl refl, unfolded bs, OF send [symmetric, unfolded fds_def] Inr cf [symmetric],
          folded c2_def, OF turn(1) this] turn(2)
      show ?thesis by (auto intro: out_step_trans simp: c2_def ring_buffer_consume_def)
    qed
  qed
qed

lemma rb_content_Nil: "rb_content b = [] \<longleftrightarrow> head b = tail b"
  using rb_count_pos [of b] by (auto simp: word_gt_0)

lemma wl_connection_flush_spec:
  assumes ok: "conn_ok c" and fl: "wl_connection_flush c w = (r, c', w')"
  shows "conn_ok c' \<and> out_step c w c' w' \<and>
    (case r of
       Inl e \<Rightarrow> e \<noteq> EINTR \<and> want_flush c \<and> want_flush c' \<and> rb_content (out_buf c') \<noteq> []
     | Inr n \<Rightarrow> \<not> want_flush c' \<and>
         (if want_flush c then rb_content (out_buf c') = [] \<and> unat n = length (rb_content (out_buf c))
          else n = 0 \<and> c' = c \<and> w' = w))"
proof (cases "want_flush c")
  case False
  with assms show ?thesis by (auto simp: wl_connection_flush_def out_step_refl)
next
  case True
  obtain r1 c1 w1 where fl1: "flush_loop c w = (r1, c1, w1)" by (metis surj_pair)
  note spec = flush_loop_spec [OF ok fl1]
  show ?thesis
  proof (cases r1)
    case (Inl e)
    with fl True fl1 spec show ?thesis by (auto simp: wl_connection_flush_def)
  next
    case (Inr u)
    with spec have "unat (head (out_buf c1) - tail (out_buf c)) = length (rb_content (out_buf c))"
      by (simp add: rb_count_def)
    with Inr fl True fl1 spec show ?thesis by (auto simp: wl_connection_flush_def)
  qed
qed

text \<open>
  The two streams of a connection: what its socket has taken followed by what is still
  buffered.
\<close>

definition out_stream :: "wl_connection \<Rightarrow> os \<Rightarrow> u8 list" where
  "out_stream c w = wire w (conn_fd c) @ rb_content (out_buf c)"

definition fd_stream :: "wl_connection \<Rightarrow> os \<Rightarrow> fd list" where
  "fd_stream c w = wire_fds w (conn_fd c) @ fds_list (fds_out c)"

lemma out_step_streams:
  assumes "out_step c w c' w'"
  shows "out_stream c' w' = out_stream c w" and "fd_stream c' w' = fd_stream c w"
  using assms by (auto simp: out_step_def out_stream_def fd_stream_def)

lemma flush_if_full_spec:
  assumes ok: "conn_ok c" and fl: "flush_if_full c n w = (r, c', w')"
  shows "conn_ok c' \<and> out_step c w c' w' \<and>
    (case r of Inl e \<Rightarrow> rb_count (out_buf c) + n > 4096 \<and> e \<noteq> EINTR
             | Inr _ \<Rightarrow> rb_count (out_buf c') + n \<le> 4096 \<or> rb_count (out_buf c') = 0)"
proof (cases "rb_count (out_buf c) + n > 4096")
  case False
  with assms show ?thesis
    by (auto simp: flush_if_full_def rb_capacity_def out_step_refl simp flip: rb_count_def)
next
  case True
  obtain r1 c1 w1 where fl1: "wl_connection_flush (c\<lparr>want_flush := True\<rparr>) w = (r1, c1, w1)"
    by (metis surj_pair)
  have ok': "conn_ok (c\<lparr>want_flush := True\<rparr>)" using ok by simp
  from True fl fl1 wl_connection_flush_spec [OF ok' fl1] show ?thesis
    by (auto simp: flush_if_full_def rb_capacity_def simp flip: rb_count_def length_rb_content
        split: sum.splits)
qed

lemma put_out_buf:
  assumes "conn_ok c" "rb_count (out_buf c) + length bs \<le> 4096 \<or> rb_count (out_buf c) = 0"
    and "ring_buffer_put (out_buf c) bs = r"
  shows "(r = Inl E2BIG \<and> length bs > 4096) \<or>
    (\<exists>b. r = Inr b \<and> length bs \<le> 4096 \<and> rb_ok b \<and> rb_content b = rb_content (out_buf c) @ bs)"
proof (cases "length bs > 4096")
  case True
  with assms show ?thesis by (auto simp: ring_buffer_put_E2BIG)
next
  case False
  with assms(2) have "rb_count (out_buf c) + length bs \<le> 4096" by auto
  with ring_buffer_put_ok [of "out_buf c" bs] assms(1,3) False show ?thesis
    by (auto simp: conn_ok_def)
qed

text \<open>
  Writing is all or nothing: on success the message is appended to the stream, on
  failure no byte of it is.  The descriptor stream does not change.
\<close>

lemma write_like:
  assumes ok: "conn_ok c" and fl: "flush_if_full c (length bs) w = (r1, c1, w1)"
    and r: "(r, c', w') = (case r1 of Inl e \<Rightarrow> (Inl e, c1, w1)
       | Inr _ \<Rightarrow> (case ring_buffer_put (out_buf c1) bs of
            Inl e \<Rightarrow> (Inl e, c1, w1)
          | Inr b \<Rightarrow> (Inr (), c1\<lparr>out_buf := b, want_flush := f c1\<rparr>, w1)))"
  shows "conn_ok c' \<and> conn_fd c' = conn_fd c \<and> fd_stream c' w' = fd_stream c w \<and>
     in_buf c' = in_buf c \<and> fds_in c' = fds_in c \<and>
     (case r of Inl e \<Rightarrow> out_stream c' w' = out_stream c w \<and> e \<noteq> EINTR \<and>
                         (length bs > 4096 \<or> rb_count (out_buf c) + length bs > 4096)
              | Inr _ \<Rightarrow> out_stream c' w' = out_stream c w @ bs \<and> length bs \<le> 4096)"
proof -
  from flush_if_full_spec [OF ok fl] have ok1: "conn_ok c1" and st: "out_step c w c1 w1" by simp_all
  note str = out_step_streams [OF st]
  have fd: "conn_fd c1 = conn_fd c" "in_buf c1 = in_buf c" "fds_in c1 = fds_in c"
    using st by (simp_all add: out_step_def)
  show ?thesis
  proof (cases r1)
    case (Inl e)
    with r flush_if_full_spec [OF ok fl] str fd show ?thesis by auto
  next
    case (Inr u)
    with flush_if_full_spec [OF ok fl]
    have "rb_count (out_buf c1) + length bs \<le> 4096 \<or> rb_count (out_buf c1) = 0" by simp
    from put_out_buf [OF ok1 this refl] show ?thesis
    proof (elim disjE exE conjE)
      fix b assume b: "ring_buffer_put (out_buf c1) bs = Inr b" "rb_ok b" "length bs \<le> 4096"
        and cb: "rb_content b = rb_content (out_buf c1) @ bs"
      with r Inr have "r = Inr ()" "c' = c1\<lparr>out_buf := b, want_flush := f c1\<rparr>" "w' = w1" by auto
      with str fd ok1 b cb show ?thesis
        by (simp add: conn_ok_def) (simp add: out_stream_def fd_stream_def)
    qed (use r Inr str fd ok1 in auto)
  qed
qed

lemma wl_connection_write_spec:
  assumes "conn_ok c" "wl_connection_write c bs w = (r, c', w')"
  shows "conn_ok c' \<and> conn_fd c' = conn_fd c \<and> fd_stream c' w' = fd_stream c w \<and>
     in_buf c' = in_buf c \<and> fds_in c' = fds_in c \<and>
     (case r of Inl e \<Rightarrow> out_stream c' w' = out_stream c w \<and> e \<noteq> EINTR \<and>
                         (length bs > 4096 \<or> rb_count (out_buf c) + length bs > 4096)
              | Inr _ \<Rightarrow> out_stream c' w' = out_stream c w @ bs \<and> length bs \<le> 4096)"
proof -
  obtain r1 c1 w1 where fl: "flush_if_full c (length bs) w = (r1, c1, w1)" by (metis surj_pair)
  show ?thesis
    by (rule write_like [OF assms(1) fl, where f = "\<lambda>_. True"])
       (use assms(2) fl in \<open>auto simp: wl_connection_write_def split: sum.splits\<close>)
qed

lemma wl_connection_queue_spec:
  assumes "conn_ok c" "wl_connection_queue c bs w = (r, c', w')"
  shows "conn_ok c' \<and> conn_fd c' = conn_fd c \<and> fd_stream c' w' = fd_stream c w \<and>
     in_buf c' = in_buf c \<and> fds_in c' = fds_in c \<and>
     (case r of Inl e \<Rightarrow> out_stream c' w' = out_stream c w \<and> e \<noteq> EINTR \<and>
                         (length bs > 4096 \<or> rb_count (out_buf c) + length bs > 4096)
              | Inr _ \<Rightarrow> out_stream c' w' = out_stream c w @ bs \<and> length bs \<le> 4096)"
proof -
  obtain r1 c1 w1 where fl: "flush_if_full c (length bs) w = (r1, c1, w1)" by (metis surj_pair)
  show ?thesis
    by (rule write_like [OF assms(1) fl, where f = want_flush])
       (use assms(2) fl in \<open>auto simp: wl_connection_queue_def split: sum.splits\<close>)
qed

lemma fds_put:
  assumes "fds_ok b" "rb_count b + 4 \<le> 4096"
  shows "\<exists>b'. ring_buffer_put b (u32_bytes f) = Inr b' \<and> fds_ok b' \<and> fds_list b' = fds_list b @ [f]"
proof -
  obtain b' where b': "ring_buffer_put b (u32_bytes f) = Inr b'" "rb_ok b'"
      "rb_content b' = rb_content b @ u32_bytes f"
    using ring_buffer_put_ok [of b "u32_bytes f"] assms by (auto simp: fds_ok_def)
  have "rb_count b' = rb_count b + 4"
    using arg_cong [OF b'(3), of length] by simp
  moreover have "4 dvd length (rb_content b)" using assms(1) by (simp add: fds_ok_def)
  from words_of_append [OF this, of "u32_bytes f"]
  have "fds_list b' = fds_list b @ [f]"
    using words_of_u32_bytes_append [of f "[]"] by (simp add: fds_list_def b'(3))
  ultimately show ?thesis using assms b' by (auto simp: fds_ok_def)
qed

text \<open>
  As long as fewer than 1024 descriptors wait, \<open>put_fd\<close> queues the descriptor behind
  those already waiting or leaves them alone and reports the failed flush.
\<close>

lemma wl_connection_put_fd_spec:
  assumes ok: "conn_ok c" and room: "rb_count (fds_out c) < 4096"
    and r: "wl_connection_put_fd c f w = (r, c', w')"
  shows "conn_ok c' \<and> conn_fd c' = conn_fd c \<and> out_stream c' w' = out_stream c w \<and>
     in_buf c' = in_buf c \<and> fds_in c' = fds_in c \<and>
     (case r of Inl e \<Rightarrow> fd_stream c' w' = fd_stream c w \<and> e \<noteq> EINTR \<and> rb_count (fds_out c) = 4 * MAX_FDS_OUT
              | Inr _ \<Rightarrow> fd_stream c' w' = fd_stream c w @ [f])"
proof -
  define full where "full \<longleftrightarrow> rb_count (fds_out c) = MAX_FDS_OUT * 4"
  obtain r1 c1 w1 where fl1: "wl_connection_flush (c\<lparr>want_flush := True\<rparr>) w = (r1, c1, w1)"
    by (metis surj_pair)
  have okf: "conn_ok (c\<lparr>want_flush := True\<rparr>)" using ok by simp
  note spec = wl_connection_flush_spec [OF okf fl1]
  define r2 c2 w2 where "r2 = (if full then (case r1 of Inl e \<Rightarrow> Inl e | Inr _ \<Rightarrow> Inr ()) else Inr ())"
    and "c2 = (if full then c1 else c)" and "w2 = (if full then w1 else w)"
  have eq: "wl_connection_put_fd c f w = (case r2 of Inl e \<Rightarrow> (Inl e, c2, w2)
     | Inr _ \<Rightarrow> (case ring_buffer_put (fds_out c2) (u32_bytes f) of
                Inl e \<Rightarrow> (Inl e, c2, w2)
              | Inr b \<Rightarrow> (Inr (), c2\<lparr>fds_out := b\<rparr>, w2)))"
    by (auto simp: wl_connection_put_fd_def Let_def full_def r2_def c2_def w2_def fl1
        unat_ring_buffer_size split: sum.splits)
  have ok2: "conn_ok c2" and st: "out_step c w c2 w2"
    using spec ok by (auto simp: c2_def w2_def out_step_refl)
  note str = out_step_streams [OF st]
  have keep: "conn_fd c2 = conn_fd c" "in_buf c2 = in_buf c" "fds_in c2 = fds_in c"
    using st by (simp_all add: out_step_def)
  have foc: "fds_ok (fds_out c)" and fo2: "fds_ok (fds_out c2)"
    using ok ok2 by (simp_all add: conn_ok_def)
  have "length (fds_list (fds_out c2)) \<le> length (fds_list (fds_out c))"
    using st unfolding out_step_def by (metis length_append le_add2)
  then have small: "rb_count (fds_out c2) + 4 \<le> 4096"
    using rb_count_fds [OF foc] rb_count_fds [OF fo2] room by presburger
  show ?thesis
  proof (cases r2)
    case (Inl e)
    then have full: "full" and r1: "r1 = Inl e"
      by (auto simp: r2_def split: if_splits sum.splits)
    have "r = Inl e" "c' = c2" "w' = w2" using r eq Inl by simp_all
    moreover have "e \<noteq> EINTR" using spec r1 by simp
    ultimately show ?thesis using str keep ok2 full by (simp add: full_def)
  next
    case (Inr u)
    from fds_put [OF fo2 small, of f] obtain b where
      b: "ring_buffer_put (fds_out c2) (u32_bytes f) = Inr b" "fds_ok b" "fds_list b = fds_list (fds_out c2) @ [f]"
      by blast
    then have "r = Inr ()" "c' = c2\<lparr>fds_out := b\<rparr>" "w' = w2" using r eq Inr by auto
    with b str keep ok2 show ?thesis
      by (simp add: conn_ok_def) (simp add: out_stream_def fd_stream_def)
  qed
qed

section \<open>Input\<close>

text \<open>
  Received descriptors are either queued, in order, or closed: none is lost, and once one
  message did not fit, all later ones are closed.
\<close>

lemma decode_cmsg_loop_spec:
  "fds_ok b \<Longrightarrow> decode_cmsg_loop b ov cs w = (r, b', w') \<Longrightarrow>
   \<exists>xs ys ov'. r = Inr ov' \<and> fds_ok b' \<and> fds_list b' = fds_list b @ xs \<and>
     w' = sys_close_all ys w \<and> xs @ ys = concat (map snd (filter fst cs)) \<and>
     (ov \<longrightarrow> ov' \<and> xs = []) \<and> (\<not> ov \<longrightarrow> ov' = (ys \<noteq> []))"
proof (induction b ov cs w arbitrary: r b' w' rule: decode_cmsg_loop.induct)
  case (1 b overflow w)
  then show ?case by auto
next
  case (2 b ov rights fds cs w)
  have n: "rb_count b = 4 * length (fds_list b)" by (rule rb_count_fds [OF "2.prems"(1)])
  consider (skip) "\<not> rights"
    | (close) "rights" "4 * length fds > 4096 - rb_count b \<or> ov"
    | (put) "rights" "4 * length fds \<le> 4096 - rb_count b" "\<not> ov" by fastforce
  then show ?case
  proof cases
    case skip
    with "2.IH"(1) [OF skip] "2.prems" show ?thesis by simp
  next
    case close
    then have ne: "\<not> ov \<Longrightarrow> fds \<noteq> []" by auto
    have run: "decode_cmsg_loop b True cs (sys_close_all fds w) = (r, b', w')"
      using "2.prems"(2) close by (simp add: rb_capacity_def unat_ring_buffer_size Let_def)
    have "\<exists>xs ys ov'. r = Inr ov' \<and> fds_ok b' \<and> fds_list b' = fds_list b @ xs \<and>
        w' = sys_close_all ys (sys_close_all fds w) \<and> xs @ ys = concat (map snd (filter fst cs)) \<and>
        (True \<longrightarrow> ov' \<and> xs = []) \<and> (\<not> True \<longrightarrow> ov' = (ys \<noteq> []))"
      by (rule "2.IH"(2) [OF _ refl refl _ "2.prems"(1) run])
         (use close in \<open>simp_all add: rb_capacity_def unat_ring_buffer_size\<close>)
    then obtain ys where
      "r = Inr True" "fds_ok b'" "fds_list b' = fds_list b" "w' = sys_close_all ys (sys_close_all fds w)"
        "ys = concat (map snd (filter fst cs))"
      by auto
    then show ?thesis using \<open>rights\<close> ne
      by (intro exI [of _ "[]"] exI [of _ "fds @ ys"] exI [of _ True])
         (simp add: sys_close_all_append)
  next
    case put
    have "rb_count b \<le> 4096" using "2.prems"(1) by (simp add: fds_ok_def rb_ok_def)
    with put have le: "rb_count b + length (bytes_of fds) \<le> 4096" by simp
    obtain b1 where b1: "ring_buffer_put b (bytes_of fds) = Inr b1" "rb_ok b1"
        "rb_content b1 = rb_content b @ bytes_of fds"
      using ring_buffer_put_ok [OF _ le] "2.prems"(1) by (auto simp: fds_ok_def)
    have cnt: "rb_count b1 = rb_count b + 4 * length fds"
      using arg_cong [OF b1(3), of length] by simp
    have ok1: "fds_ok b1" using b1(2) cnt "2.prems"(1) by (simp add: fds_ok_def)
    have l1: "fds_list b1 = fds_list b @ fds"
      using "2.prems"(1) by (simp add: fds_list_def b1(3) words_of_append fds_ok_def)
    have run: "decode_cmsg_loop b1 ov cs w = (r, b', w')"
      using "2.prems"(2) put b1(1) by (simp add: rb_capacity_def unat_ring_buffer_size Let_def)
    have "\<exists>xs ys ov'. r = Inr ov' \<and> fds_ok b' \<and> fds_list b' = fds_list b1 @ xs \<and>
        w' = sys_close_all ys w \<and> xs @ ys = concat (map snd (filter fst cs)) \<and>
        (ov \<longrightarrow> ov' \<and> xs = []) \<and> (\<not> ov \<longrightarrow> ov' = (ys \<noteq> []))"
      by (rule "2.IH"(3) [OF _ refl refl _ b1(1) ok1 run])
         (use put in \<open>simp_all add: rb_capacity_def unat_ring_buffer_size\<close>)
    then obtain xs ys where
      "r = Inr (ys \<noteq> [])" "fds_ok b'" "fds_list b' = fds_list b1 @ xs"
        "w' = sys_close_all ys w" "xs @ ys = concat (map snd (filter fst cs))"
      using put by auto
    then show ?thesis using put l1
      by (intro exI [of _ "fds @ xs"] exI [of _ ys]) auto
  qed
qed

lemma decode_cmsg_spec:
  assumes "fds_ok b" "decode_cmsg b cs w = (r, b', w')"
  shows "\<exists>xs ys. fds_ok b' \<and> fds_list b' = fds_list b @ xs \<and> w' = sys_close_all ys w \<and>
     xs @ ys = concat (map snd (filter fst cs)) \<and> r = (if ys = [] then Inr () else Inl EOVERFLOW)"
proof -
  obtain r1 b1 w1 where l: "decode_cmsg_loop b False cs w = (r1, b1, w1)" by (metis surj_pair)
  from decode_cmsg_loop_spec [OF assms(1) l] assms(2) l show ?thesis
    by (fastforce simp: decode_cmsg_def)
qed

lemma rb_overwrite_free:
  assumes "rb_ok b" "rb_count b + length ys \<le> 4096"
    and b': "b' = b\<lparr>rb_data := wrap_write (rb_data b) (unat (MASK (head b))) ys\<rparr>"
  shows "rb_ok b'" and "rb_content b' = rb_content b"
proof -
  define e where "e = b'\<lparr>head := head b + of_nat (length ys)\<rparr>"
  have e: "rb_content e = rb_content b @ ys"
    by (rule rb_extend [OF assms(1,2)]) (simp add: e_def b')
  have cnt: "rb_count b' = rb_count b" "tail e = tail b'" "rb_data e = rb_data b'"
    by (simp_all add: rb_count_def b' e_def)
  have cle: "rb_count b \<le> rb_count e" using arg_cong [OF e, of length] by simp
  show "rb_ok b'"
    using assms(1,2) cnt by (simp add: rb_ok_def) (simp add: b' unat_MASK)
  show "rb_content b' = rb_content b"
  proof (rule nth_equalityI)
    fix i assume "i < length (rb_content b')"
    then have "i < rb_count b" "i < rb_count e" using cnt cle by simp_all
    then have "rb_content b' ! i = rb_content e ! i" by (simp add: nth_rb_content cnt)
    also have "\<dots> = rb_content b ! i" using \<open>i < rb_count b\<close> by (simp add: e nth_append)
    finally show "rb_content b' ! i = rb_content b ! i" .
  qed (simp add: cnt)
qed

text \<open>
  Reading appends what arrived to the input; on any error, and at the end of the stream,
  the buffered input is as before.
\<close>

lemma wl_connection_read_spec:
  assumes ok: "conn_ok c" and r: "wl_connection_read c w = (r, c', w')"
  shows "conn_ok c' \<and> out_buf c' = out_buf c \<and> fds_out c' = fds_out c \<and> conn_fd c' = conn_fd c \<and>
     want_flush c' = want_flush c \<and> wire w' = wire w \<and> wire_fds w' = wire_fds w \<and>
     (\<exists>xs ys. fds_list (fds_in c') = fds_list (fds_in c) @ xs \<and> closed w' = closed w @ ys \<and>
        (r \<noteq> Inl EOVERFLOW \<longrightarrow> ys = [])) \<and>
     (case r of
        Inl e \<Rightarrow> e \<noteq> EINTR \<and> rb_content (in_buf c') = rb_content (in_buf c)
      | Inr n \<Rightarrow> \<exists>bs. rb_content (in_buf c') = rb_content (in_buf c) @ bs \<and>
                  (if bs = [] then n = 0 else unat n = length (rb_content (in_buf c'))))"
proof (cases "rb_count (in_buf c) \<ge> 4096")
  case True
  with r ok show ?thesis
    by (auto simp: wl_connection_read_def unat_ring_buffer_size rb_capacity_def)
next
  case False
  have rb: "rb_ok (in_buf c)" and fi: "fds_ok (fds_in c)" using ok by (simp_all add: conn_ok_def)
  define iov where "iov = ring_buffer_put_iov (in_buf c)"
  obtain res w1 where recv: "sys_recvmsg_retry (iov_total iov) w = (res, w1)" by (metis surj_pair)
  show ?thesis
  proof (cases res)
    case (Inl e)
    have "r = Inl e" "c' = c" "w' = w1"
      using r False recv Inl
      by (simp_all add: wl_connection_read_def unat_ring_buffer_size rb_capacity_def Let_def flip: iov_def)
    moreover obtain rs where "w1 = w\<lparr>recv_script := rs\<rparr>" "e \<noteq> EINTR"
      using sys_recvmsg_retry_cases [of "iov_total iov" w] recv Inl by auto
    ultimately show ?thesis using ok by auto
  next
    case (Inr p)
    then obtain bs cs rs where w1: "w1 = w\<lparr>recv_script := rs\<rparr>" and p: "p = (bs, cs)"
      and len: "length bs \<le> iov_total iov"
      using sys_recvmsg_retry_cases [of "iov_total iov" w] recv by auto
    have scat: "iov_scatter (rb_data (in_buf c)) iov bs = wrap_write (rb_data (in_buf c)) (unat (MASK (head (in_buf c)))) bs"
      and fits: "rb_count (in_buf c) + length bs \<le> 4096"
      using put_iov_scatter [OF rb _ len [unfolded iov_def]] False by (simp_all add: iov_def)
    define b where "b = (in_buf c)\<lparr>rb_data := iov_scatter (rb_data (in_buf c)) iov bs\<rparr>"
    define b' where "b' = b\<lparr>head := head b + of_nat (length bs)\<rparr>"
    have ext: "rb_ok b'" "rb_content b' = rb_content (in_buf c) @ bs"
      by (rule rb_extend [OF rb fits]; simp add: b'_def b_def scat)+
    obtain r2 fi2 w2 where dc: "decode_cmsg (fds_in c) cs w1 = (r2, fi2, w2)" by (metis surj_pair)
    from decode_cmsg_spec [OF fi dc] obtain xs ys where
      d: "fds_ok fi2" "fds_list fi2 = fds_list (fds_in c) @ xs" "w2 = sys_close_all ys w1"
         "r2 = (if ys = [] then Inr () else Inl EOVERFLOW)" by blast
    have cb: "rb_ok b" "rb_content b = rb_content (in_buf c)"
      by (rule rb_overwrite_free [OF rb fits]; simp add: b_def scat)+
    have run: "(r, c', w') =
      (if bs = [] then (Inr 0, c\<lparr>in_buf := b\<rparr>, w1)
       else if ys = [] then (Inr (ring_buffer_size b'), c\<lparr>fds_in := fi2, in_buf := b'\<rparr>, w2)
       else (Inl EOVERFLOW, c\<lparr>in_buf := b, fds_in := fi2\<rparr>, w2))"
      using r False recv Inr p dc d(4)
      by (cases "bs = []"; cases "ys = []")
        (simp_all add: wl_connection_read_def unat_ring_buffer_size rb_capacity_def Let_def b'_def
           wl_connection_pending_input_def iov_def b_def)
    have w2: "wire w2 = wire w" "wire_fds w2 = wire_fds w" "closed w2 = closed w @ ys"
      by (simp_all add: d(3) w1 sys_close_all_eq)
    have cnt: "unat (ring_buffer_size b') = length (rb_content b')" by (simp add: unat_ring_buffer_size)
    consider "bs = []" | "bs \<noteq> []" "ys = []" | "bs \<noteq> []" "ys \<noteq> []" by blast
    then show ?thesis
    proof cases
      case 1
      with run cb ok w1 show ?thesis by (simp add: conn_ok_def)
    next
      case 2
      with run ext ok w2 d cnt show ?thesis by (simp add: conn_ok_def)
    next
      case 3
      with run cb ok w2 d show ?thesis by (simp add: conn_ok_def)
    qed
  qed
qed

section \<open>Sequences of messages\<close>

text \<open>
  A caller that sends messages one after another and goes on after an error; the messages
  whose write succeeded are collected.
\<close>

fun put_all ::
  "('c \<Rightarrow> 'm \<Rightarrow> 'w \<Rightarrow> ('e + unit) \<times> 'c \<times> 'w) \<Rightarrow> 'c \<Rightarrow> 'm list \<Rightarrow> 'w \<Rightarrow> 'm list \<times> 'c \<times> 'w" where
  "put_all put c [] w = ([], c, w)"
| "put_all put c (m # ms) w =
     (case put c m w of (r, c1, w1) \<Rightarrow>
      case put_all put c1 ms w1 of (acc, c2, w2) \<Rightarrow>
        (case r of Inl _ \<Rightarrow> acc | Inr _ \<Rightarrow> m # acc, c2, w2))"

text \<open>The contract of a buffered writer: a message is appended to the stream or dropped whole.\<close>

locale ordered_writer =
  fixes put :: "'c \<Rightarrow> 'a list \<Rightarrow> 'w \<Rightarrow> ('e + unit) \<times> 'c \<times> 'w"
    and stream :: "'c \<Rightarrow> 'w \<Rightarrow> 'a list"
    and ok :: "'c \<Rightarrow> bool"
  assumes put_ok: "ok c \<Longrightarrow> put c m w = (r, c', w') \<Longrightarrow> ok c'"
    and put_error: "ok c \<Longrightarrow> put c m w = (Inl e, c', w') \<Longrightarrow> stream c' w' = stream c w"
    and put_stream: "ok c \<Longrightarrow> put c m w = (Inr u, c', w') \<Longrightarrow> stream c' w' = stream c w @ m"
begin

lemma put_all_stream:
  "ok c \<Longrightarrow> put_all put c ms w = (acc, c', w') \<Longrightarrow>
   ok c' \<and> stream c' w' = stream c w @ concat acc \<and> subseq acc ms"
proof (induction ms arbitrary: c w acc c' w')
  case (Cons m ms)
  obtain r c1 w1 where p: "put c m w = (r, c1, w1)" by (metis surj_pair)
  obtain acc1 c2 w2 where q: "put_all put c1 ms w1 = (acc1, c2, w2)" by (metis surj_pair)
  have IH: "ok c2 \<and> stream c2 w2 = stream c1 w1 @ concat acc1 \<and> subseq acc1 ms"
    by (rule Cons.IH [OF put_ok [OF Cons.prems(1) p] q])
  show ?case
    using p q Cons.prems IH put_error [OF Cons.prems(1), of m w] put_stream [OF Cons.prems(1), of m w]
    by (cases r) (auto intro: subseq_Cons')
qed simp

end

text \<open>A writer that also keeps its second stream: the descriptors stay with their order.\<close>

locale ordered_writer_with_fds = ordered_writer +
  fixes fds :: "'c \<Rightarrow> 'w \<Rightarrow> 'f list"
  assumes put_fds: "ok c \<Longrightarrow> put c m w = (r, c', w') \<Longrightarrow> fds c' w' = fds c w"
begin

lemma put_all_fds:
  "ok c \<Longrightarrow> put_all put c ms w = (acc, c', w') \<Longrightarrow> fds c' w' = fds c w"
proof (induction ms arbitrary: c w acc c' w')
  case (Cons m ms)
  obtain r c1 w1 where p: "put c m w = (r, c1, w1)" by (metis surj_pair)
  obtain acc1 c2 w2 where q: "put_all put c1 ms w1 = (acc1, c2, w2)" by (metis surj_pair)
  show ?case
    using p q Cons.prems Cons.IH [OF put_ok [OF Cons.prems(1) p] q] put_fds [OF Cons.prems(1) p] by simp
qed simp

end

interpretation conn_write: ordered_writer_with_fds wl_connection_write out_stream conn_ok fd_stream
  by unfold_locales (auto dest: wl_connection_write_spec)

interpretation conn_queue: ordered_writer_with_fds wl_connection_queue out_stream conn_ok fd_stream
  by unfold_locales (auto dest: wl_connection_queue_spec)

lemma close_fds_fd_list:
  assumes "fds_ok b" "close_fds b (- 1) w = (b', w')"
  shows "w' = sys_close_all (fds_list b) w \<and> fds_list b' = [] \<and> fds_ok b'"
  using close_fds_spec [OF assms(1) refl, of "- 1" w] assms(2) by auto

section \<open>Properties\<close>

definition sample_conn :: wl_connection where
  "sample_conn = \<lparr>in_buf = rb_init, out_buf = rb_init, fds_in = rb_init, fds_out = rb_init,
                  conn_fd = 7, want_flush = False\<rparr>"

lemma sample_conn_ok [simp]: "conn_ok sample_conn"
  and sample_conn_sel [simp]: "conn_fd sample_conn = 7"
    "out_buf sample_conn = rb_init" "in_buf sample_conn = rb_init"
    "fds_out sample_conn = rb_init" "fds_in sample_conn = rb_init"
  by (simp_all add: sample_conn_def conn_ok_def fds_ok_def rb_init_def rb_count_def rb_ok_def rb_capacity_def)

lemma rb_count_init [simp]: "rb_count rb_init = 0" and fds_list_init [simp]: "fds_list rb_init = []"
  by (simp_all add: rb_init_def rb_count_def fds_list_def rb_content_def)

text \<open>C26: the ring buffer is a queue: a \<open>ring_buffer_put\<close> that fits appends its bytes, a
  \<open>ring_buffer_copy\<close> reads the oldest bytes and \<open>ring_buffer_consume\<close> removes them, whatever
  the positions of head and tail, wrap-around of the 4096-byte array and of the 32-bit
  counters included.\<close>

theorem ring_buffer_fifo:
  assumes "rb_ok b" "rb_count b + length ys \<le> 4096" "n \<le> rb_count b + length ys"
  shows "\<exists>b'. ring_buffer_put b ys = Inr b' \<and>
     ring_buffer_copy b' n = take n (rb_content b @ ys) \<and>
     rb_ok (ring_buffer_consume b' n) \<and>
     rb_content (ring_buffer_consume b' n) = drop n (rb_content b @ ys)"
proof -
  obtain b' where b': "ring_buffer_put b ys = Inr b'" "rb_ok b'" "rb_content b' = rb_content b @ ys"
    using ring_buffer_put_ok [OF assms(1,2)] by blast
  have n: "n \<le> rb_count b'"
    using assms(3) arg_cong [OF b'(3), of length] by simp
  show ?thesis
    using b' ring_buffer_copy_content [OF b'(2) n] rb_ok_consume [OF b'(2) n]
      rb_content_consume [OF b'(2) n] by auto
qed

text \<open>A buffer whose counters are about to wrap.\<close>

definition wrapping_rb :: wl_ring_buffer where
  "wrapping_rb = \<lparr>rb_data = replicate 4096 0, head = - 1, tail = - 1\<rparr>"

lemma wrapping_rb_facts [simp]: "rb_ok wrapping_rb" "rb_count wrapping_rb = 0" "rb_content wrapping_rb = []"
  by (simp_all add: wrapping_rb_def rb_ok_def rb_count_def rb_capacity_def rb_content_def)

lemma ring_buffer_fifo_witness:
  "\<exists>b'. ring_buffer_put wrapping_rb [1, 2, 3] = Inr b' \<and> ring_buffer_copy b' 2 = [1, 2] \<and>
     rb_content (ring_buffer_consume b' 2) = [3]"
  using ring_buffer_fifo [of wrapping_rb "[1, 2, 3]" 2] by auto

text \<open>C24: however the messages of a connection are sent (\<open>wl_connection_write\<close>, partial sends,
  interrupted calls, full buffers and failing sockets included), what the socket has taken
  followed by what is still buffered is the old stream followed by exactly the messages
  whose write reported success, whole and in order; the queued descriptors keep theirs.\<close>

theorem wl_connection_write_stream:
  assumes "conn_ok c" "put_all wl_connection_write c ms w = (acc, c', w')"
  shows "out_stream c' w' = out_stream c w @ concat acc \<and> subseq acc ms \<and>
     fd_stream c' w' = fd_stream c w \<and> conn_ok c'"
  using conn_write.put_all_stream [OF assms] conn_write.put_all_fds [OF assms] by blast

lemma wl_connection_write_stream_witness:
  "\<exists>acc c' w'. put_all wl_connection_write sample_conn [[1, 2], [3]] os_init = (acc, c', w') \<and>
     out_stream c' w' = concat acc"
proof -
  obtain acc c' w' where p: "put_all wl_connection_write sample_conn [[1, 2], [3]] os_init = (acc, c', w')"
    by (metis surj_pair)
  from wl_connection_write_stream [OF sample_conn_ok p] p show ?thesis
    by (auto simp: out_stream_def os_init_def)
qed

text \<open>\<open>wl_connection_queue\<close>, which does not ask for a flush, keeps the byte stream in the
  same way and never lets a message in half.\<close>

lemma wl_connection_queue_stream:
  assumes "conn_ok c" "put_all wl_connection_queue c ms w = (acc, c', w')"
  shows "out_stream c' w' = out_stream c w @ concat acc \<and> subseq acc ms \<and>
     fd_stream c' w' = fd_stream c w \<and> conn_ok c'"
  using conn_queue.put_all_stream [OF assms] conn_queue.put_all_fds [OF assms] by blast

lemma wl_connection_queue_stream_witness:
  "\<exists>acc c' w'. put_all wl_connection_queue sample_conn [[1, 2], [3]] os_init = (acc, c', w') \<and>
     out_stream c' w' = concat acc"
proof -
  obtain acc c' w' where p: "put_all wl_connection_queue sample_conn [[1, 2], [3]] os_init = (acc, c', w')"
    by (metis surj_pair)
  from wl_connection_queue_stream [OF sample_conn_ok p] p show ?thesis
    by (auto simp: out_stream_def os_init_def)
qed

text \<open>C33: \<open>wl_connection_flush\<close> of a connection that wants it sends the whole output buffer in
  order and returns its length, or stops at a socket error with a non-empty rest still
  buffered; in both cases the descriptors that left the queue are those handed to the
  kernel, in order, and each of them is closed exactly once.\<close>

theorem wl_connection_flush_correct:
  assumes "conn_ok c" "want_flush c" "wl_connection_flush c w = (r, c', w')"
  shows "conn_ok c' \<and>
     (\<exists>bs. wire w' (conn_fd c) = wire w (conn_fd c) @ bs \<and>
           rb_content (out_buf c) = bs @ rb_content (out_buf c')) \<and>
     (\<exists>fs. wire_fds w' (conn_fd c) = wire_fds w (conn_fd c) @ fs \<and> closed w' = closed w @ fs \<and>
           fds_list (fds_out c) = fs @ fds_list (fds_out c')) \<and>
     (case r of
        Inl e \<Rightarrow> e \<noteq> EINTR \<and> want_flush c' \<and> rb_content (out_buf c') \<noteq> []
      | Inr n \<Rightarrow> \<not> want_flush c' \<and> rb_content (out_buf c') = [] \<and>
                 unat n = length (rb_content (out_buf c)))"
proof -
  note s = wl_connection_flush_spec [OF assms(1,3)]
  then have st: "out_step c w c' w'" by blast
  then obtain bs fs where
    "wire w' (conn_fd c) = wire w (conn_fd c) @ bs" "rb_content (out_buf c) = bs @ rb_content (out_buf c')"
    "wire_fds w' (conn_fd c) = wire_fds w (conn_fd c) @ fs" "closed w' = closed w @ fs"
    "fds_list (fds_out c) = fs @ fds_list (fds_out c')"
    unfolding out_step_def by auto
  moreover have "case r of
        Inl e \<Rightarrow> e \<noteq> EINTR \<and> want_flush c' \<and> rb_content (out_buf c') \<noteq> []
      | Inr n \<Rightarrow> \<not> want_flush c' \<and> rb_content (out_buf c') = [] \<and>
                 unat n = length (rb_content (out_buf c))"
    using s assms(2) by (auto split: sum.splits)
  ultimately show ?thesis using s by blast
qed

lemma wl_connection_flush_correct_witness:
  "\<exists>b r c' w'. rb_content b = [1, 2, 3] \<and>
     wl_connection_flush (sample_conn\<lparr>out_buf := b, want_flush := True\<rparr>)
       (os_init\<lparr>send_script := [Inr 1, Inl EINTR, Inr 5]\<rparr>) = (r, c', w') \<and>
     wire w' 7 @ rb_content (out_buf c') = [1, 2, 3]"
proof -
  obtain b where b: "rb_ok b" "rb_content b = [1, 2, 3]"
    using ring_buffer_put_ok [of rb_init "[1, 2, 3]"] by auto
  let ?c = "sample_conn\<lparr>out_buf := b, want_flush := True\<rparr>"
  let ?w = "os_init\<lparr>send_script := [Inr 1, Inl EINTR, Inr 5]\<rparr>"
  have ok: "conn_ok ?c" using b sample_conn_ok unfolding conn_ok_def by simp
  obtain r c' w' where p: "wl_connection_flush ?c ?w = (r, c', w')" by (metis surj_pair)
  have wf: "want_flush ?c" by simp
  from wl_connection_flush_correct [OF ok wf p] b(2)
  have "wire w' 7 @ rb_content (out_buf c') = [1, 2, 3]" by (auto simp: os_init_def)
  with b p show ?thesis by blast
qed

text \<open>\<open>wl_connection_put_fd\<close> queues its descriptor behind the waiting ones; when the queue
  holds the 28 descriptors of one message and the flush fails, it reports the error and the
  caller keeps the descriptor.  No byte of the data stream is lost.\<close>

lemma wl_connection_put_fd_correct:
  assumes "conn_ok c" "rb_count (fds_out c) < 4096" "wl_connection_put_fd c f w = (r, c', w')"
  shows "conn_ok c' \<and> out_stream c' w' = out_stream c w \<and>
     fd_stream c' w' = fd_stream c w @ (case r of Inl _ \<Rightarrow> [] | Inr _ \<Rightarrow> [f]) \<and>
     (r \<noteq> Inr () \<longrightarrow> length (fds_list (fds_out c)) = MAX_FDS_OUT)"
proof -
  note s = wl_connection_put_fd_spec [OF assms]
  have "rb_count (fds_out c) = 4 * MAX_FDS_OUT \<Longrightarrow> length (fds_list (fds_out c)) = MAX_FDS_OUT"
    by (simp add: length_fds_list)
  with s show ?thesis by (auto split: sum.splits)
qed

lemma wl_connection_put_fd_correct_witness:
  "\<exists>r c' w'. wl_connection_put_fd sample_conn 5 os_init = (r, c', w') \<and>
     fd_stream c' w' = [5] \<and> r = Inr ()"
proof -
  obtain r c' w' where p: "wl_connection_put_fd sample_conn 5 os_init = (r, c', w')" by (metis surj_pair)
  have "rb_count (fds_out sample_conn) < 4096" by simp
  from wl_connection_put_fd_correct [OF sample_conn_ok this p] p show ?thesis
    by (auto simp: fd_stream_def os_init_def MAX_FDS_OUT_def split: sum.splits)
qed

text \<open>A \<open>wl_connection_read\<close> appends what arrived to the input in order and returns the
  number of pending bytes; on an error or at the end of the stream the input is unchanged;
  descriptors that do not fit are closed, and only then is the result \<open>EOVERFLOW\<close> with the
  input still unchanged.\<close>

lemma wl_connection_read_correct:
  assumes "conn_ok c" "wl_connection_read c w = (r, c', w')"
  shows "conn_ok c' \<and>
     (\<exists>xs ys. fds_list (fds_in c') = fds_list (fds_in c) @ xs \<and> closed w' = closed w @ ys \<and>
        (r \<noteq> Inl EOVERFLOW \<longrightarrow> ys = [])) \<and>
     (case r of
        Inl e \<Rightarrow> e \<noteq> EINTR \<and> rb_content (in_buf c') = rb_content (in_buf c)
      | Inr n \<Rightarrow> \<exists>bs. rb_content (in_buf c') = rb_content (in_buf c) @ bs \<and>
                  (if bs = [] then n = 0 else unat n = length (rb_content (in_buf c'))))"
  using wl_connection_read_spec [OF assms] by blast

lemma wl_connection_read_correct_witness:
  "\<exists>r c' w'. wl_connection_read sample_conn (os_init\<lparr>recv_script := [Inr ([1, 2], [(True, [9])])]\<rparr>) = (r, c', w')
     \<and> conn_ok c'"
proof -
  obtain r c' w' where
    p: "wl_connection_read sample_conn (os_init\<lparr>recv_script := [Inr ([1, 2], [(True, [9])])]\<rparr>) = (r, c', w')"
    by (metis surj_pair)
  from wl_connection_read_correct [OF sample_conn_ok p] p show ?thesis by blast
qed

text \<open>\<open>wl_connection_destroy\<close> closes every descriptor still queued, first the outgoing, then
  the incoming ones, each exactly once, and returns the socket unclosed.\<close>

lemma wl_connection_destroy_closes:
  assumes "conn_ok c" "wl_connection_destroy c w = (f, w')"
  shows "f = conn_fd c \<and> closed w' = closed w @ fds_list (fds_out c) @ fds_list (fds_in c)"
proof -
  obtain b1 w1 where c1: "close_fds (fds_out c) (- 1) w = (b1, w1)" by fastforce
  obtain b2 w2 where c2: "close_fds (fds_in c) (- 1) w1 = (b2, w2)" by fastforce
  have "fds_ok (fds_out c)" "fds_ok (fds_in c)" using assms(1) by (simp_all add: conn_ok_def)
  from close_fds_fd_list [OF this(1) c1] close_fds_fd_list [OF this(2) c2] assms(2) c1 c2
  show ?thesis by (auto simp: wl_connection_destroy_def sys_close_all_eq)
qed

end
