(* ===== verification/Marshal.thy ===== *)
theory Marshal
  imports Signature Connection
begin

text \<open>
  Closures of connection.c on the sending side: \<open>wl_closure_init\<close>, \<open>marshal\<close>, the size
  computation, \<open>serialize_closure\<close>, \<open>wl_closure_send\<close> and \<open>wl_closure_queue\<close>.

  An argument of the C union is a value of \<open>wl_argument\<close>: a 32-bit word (int, uint, fixed,
  new id, descriptor), a string (its bytes without the final NUL), an object pointer, or an
  array; reading a member that was not stored is \<open>UB\<close>.  What an object pointer points to is
  read from the store \<open>objs\<close>.
\<close>

section \<open>Closures\<close>

definition WL_CLOSURE_MAX_ARGS :: nat where "WL_CLOSURE_MAX_ARGS = 20"

datatype wl_argument =
    Undef
  | W u32
  | Str "u8 list option"
  | Obj u64
  | Arr "u8 list option"

record wl_closure =
  cl_count :: nat
  cl_message :: wl_message
  cl_opcode :: u32
  cl_sender_id :: u32
  cl_args :: "wl_argument list"

text \<open>The arguments a loop bounded by \<open>closure->count\<close> visits, with their details.\<close>

definition closure_args :: "wl_closure \<Rightarrow> (argument_details \<times> wl_argument) list" where
  "closure_args c = zip (sig_args (cl_count c) (signature (cl_message c))) (cl_args c)"

definition is_fd_arg :: "argument_details \<Rightarrow> bool" where
  "is_fd_arg d \<longleftrightarrow> arg_type d = CHR ''h''"

definition wl_closure_clear_fds :: "wl_closure \<Rightarrow> wl_closure" where
  "wl_closure_clear_fds c =
     c\<lparr>cl_args := map (\<lambda>(d, a). if is_fd_arg d then W fd_none else a) (closure_args c)\<rparr>"

text \<open>\<open>wl_closure_close_fds\<close>, the body of \<open>wl_closure_destroy\<close> besides the \<open>free\<close>.\<close>

fun close_arg_fds :: "(argument_details \<times> wl_argument) list \<Rightarrow> os \<Rightarrow> os" where
  "close_arg_fds [] w = w"
| "close_arg_fds ((d, a) # r) w =
     close_arg_fds r
       (case a of W f \<Rightarrow> if is_fd_arg d \<and> f \<noteq> fd_none then sys_close f w else w | _ \<Rightarrow> w)"

definition wl_closure_close_fds :: "wl_closure \<Rightarrow> os \<Rightarrow> os" where
  "wl_closure_close_fds c w = close_arg_fds (closure_args c) w"

definition wl_closure_destroy :: "wl_closure option \<Rightarrow> os \<Rightarrow> os" where
  "wl_closure_destroy oc w = (case oc of None \<Rightarrow> w | Some c \<Rightarrow> wl_closure_close_fds c w)"

text \<open>\<open>args = None\<close> is the NULL of the receiving side; the slots are then uninitialised.\<close>

definition wl_closure_init ::
  "wl_message \<Rightarrow> wl_argument list option \<Rightarrow> os \<Rightarrow> (errno + wl_closure) \<times> os" where
  "wl_closure_init message args w =
     (let count = arg_count_for_signature (signature message) in
      if count > WL_CLOSURE_MAX_ARGS then (Inl EINVAL, w)
      else case sys_malloc w of (ok, w) \<Rightarrow>
        if \<not> ok then (Inl ENOMEM, w)
        else
          (case args of
             Some as \<Rightarrow>
               if length as < count then (Inl UB, w)
               else (Inr (wl_closure_clear_fds
                      \<lparr>cl_count = count, cl_message = message, cl_opcode = 0, cl_sender_id = 0,
                       cl_args = take count as\<rparr>), w)
           | None \<Rightarrow>
               (Inr (wl_closure_clear_fds
                      \<lparr>cl_count = count, cl_message = message, cl_opcode = 0, cl_sender_id = 0,
                       cl_args = replicate count Undef\<rparr>), w)))"

section \<open>Marshalling\<close>

text \<open>
  The loop of \<open>wl_closure_marshal\<close>: \<open>das\<close> are the caller's arguments from index \<open>i\<close> on, \<open>cargs\<close>
  is \<open>closure->args\<close>.  A result \<open>Some e\<close> is the exit through an error.
\<close>

fun marshal_loop ::
  "(u64 \<Rightarrow> wl_object) \<Rightarrow> (argument_details \<times> wl_argument) list \<Rightarrow> nat \<Rightarrow> wl_argument list \<Rightarrow> os \<Rightarrow>
   errno option \<times> wl_argument list \<times> os" where
  "marshal_loop objs [] i cargs w = (None, cargs, w)"
| "marshal_loop objs ((d, a) # das) i cargs w =
     (let t = arg_type d; go = marshal_loop objs das (Suc i) in
      if t \<in> set ''fui'' then go cargs w
      else if t = CHR ''s'' then
        (case a of Str s \<Rightarrow> if \<not> nullable d \<and> s = None then (Some EINVAL, cargs, w) else go cargs w
         | _ \<Rightarrow> (Some UB, cargs, w))
      else if t = CHR ''o'' then
        (case a of Obj p \<Rightarrow> if \<not> nullable d \<and> p = 0 then (Some EINVAL, cargs, w) else go cargs w
         | _ \<Rightarrow> (Some UB, cargs, w))
      else if t = CHR ''n'' then
        (case a of Obj p \<Rightarrow>
           if \<not> nullable d \<and> p = 0 then (Some EINVAL, cargs, w)
           else go (cargs[i := W (if p \<noteq> 0 then object_id (objs p) else 0)]) w
         | _ \<Rightarrow> (Some UB, cargs, w))
      else if t = CHR ''a'' then
        (case a of Arr s \<Rightarrow> if \<not> nullable d \<and> s = None then (Some EINVAL, cargs, w) else go cargs w
         | _ \<Rightarrow> (Some UB, cargs, w))
      else if t = CHR ''h'' then
        (case a of W fd \<Rightarrow>
           (case sys_dup fd w of
              (Inl e, w') \<Rightarrow> (Some e, cargs, w')
            | (Inr dup_fd, w') \<Rightarrow> go (cargs[i := W dup_fd]) w')
         | _ \<Rightarrow> (Some UB, cargs, w))
      else (Some ABORT, cargs, w))"

definition wl_closure_marshal ::
  "(u64 \<Rightarrow> wl_object) \<Rightarrow> u32 \<Rightarrow> u32 \<Rightarrow> wl_argument list \<Rightarrow> wl_message \<Rightarrow> os \<Rightarrow>
   (errno + wl_closure) \<times> os" where
  "wl_closure_marshal objs sender_id opcode as message w =
     (case wl_closure_init message (Some as) w of
        (Inl e, w) \<Rightarrow> (Inl e, w)
      | (Inr c, w) \<Rightarrow>
          (case marshal_loop objs (zip (sig_args (cl_count c) (signature message)) as) 0 (cl_args c) w of
             (Some e, cargs, w) \<Rightarrow> (Inl e, wl_closure_destroy (Some (c\<lparr>cl_args := cargs\<rparr>)) w)
           | (None, cargs, w) \<Rightarrow>
               (Inr (c\<lparr>cl_args := cargs, cl_sender_id := sender_id, cl_opcode := opcode\<rparr>), w)))"

text \<open>
  \<open>wl_argument_from_va_list\<close>: the variable arguments are the list \<open>ap\<close>; taking one more than
  were passed is \<open>UB\<close>.  The loop stops at the end of the signature.
\<close>

fun va_list_loop ::
  "argument_details list \<Rightarrow> wl_argument list \<Rightarrow> errno + wl_argument list" where
  "va_list_loop [] ap = Inr []"
| "va_list_loop (d # ds) ap =
     (if \<not> is_arg_type (arg_type d) then Inr []
      else (case ap of
              [] \<Rightarrow> Inl UB
            | v # ap' \<Rightarrow> (case va_list_loop ds ap' of Inl e \<Rightarrow> Inl e | Inr vs \<Rightarrow> Inr (v # vs))))"

definition wl_argument_from_va_list :: "string \<Rightarrow> nat \<Rightarrow> wl_argument list \<Rightarrow> errno + wl_argument list" where
  "wl_argument_from_va_list sig count ap = va_list_loop (sig_args count sig) ap"

definition wl_closure_vmarshal ::
  "(u64 \<Rightarrow> wl_object) \<Rightarrow> u32 \<Rightarrow> u32 \<Rightarrow> wl_argument list \<Rightarrow> wl_message \<Rightarrow> os \<Rightarrow>
   (errno + wl_closure) \<times> os" where
  "wl_closure_vmarshal objs sender_id opcode ap message w =
     (case wl_argument_from_va_list (signature message) WL_CLOSURE_MAX_ARGS ap of
        Inl e \<Rightarrow> (Inl e, w)
      | Inr as \<Rightarrow>
          wl_closure_marshal objs sender_id opcode
            (as @ replicate (WL_CLOSURE_MAX_ARGS - length as) Undef) message w)"

section \<open>Serialisation\<close>

text \<open>The 32-bit sizes the code computes for a string (with its NUL) and an array.\<close>

definition str_size :: "u8 list \<Rightarrow> u32" where
  "str_size s = of_nat (length s) + 1"

definition arr_size_u32 :: "u8 list \<Rightarrow> u32" where
  "arr_size_u32 a = of_nat (length a)"

fun buffer_size_loop :: "(argument_details \<times> wl_argument) list \<Rightarrow> u32 \<Rightarrow> errno + u32" where
  "buffer_size_loop [] n = Inr n"
| "buffer_size_loop ((d, a) # das) n =
     (let t = arg_type d in
      if t = CHR ''h'' then buffer_size_loop das n
      else if t \<in> set ''uifon'' then buffer_size_loop das (n + 1)
      else if t = CHR ''s'' then
        (case a of
           Str None \<Rightarrow> buffer_size_loop das (n + 1)
         | Str (Some s) \<Rightarrow> buffer_size_loop das (n + (1 + div_roundup (str_size s) 4))
         | _ \<Rightarrow> Inl UB)
      else if t = CHR ''a'' then
        (case a of
           Arr None \<Rightarrow> buffer_size_loop das (n + 1)
         | Arr (Some s) \<Rightarrow> buffer_size_loop das (n + (1 + div_roundup (arr_size_u32 s) 4))
         | _ \<Rightarrow> Inl UB)
      else buffer_size_loop das n)"

definition all_closure_args :: "wl_closure \<Rightarrow> (argument_details \<times> wl_argument) list" where
  "all_closure_args c = zip (message_args (cl_message c)) (cl_args c)"

definition buffer_size_for_closure :: "wl_closure \<Rightarrow> errno + u32" where
  "buffer_size_for_closure c =
     (case buffer_size_loop (all_closure_args c) 0 of Inl e \<Rightarrow> Inl e | Inr n \<Rightarrow> Inr (n + 2))"

text \<open>\<open>*p = v\<close> for a word pointer at index \<open>p\<close> of the buffer.\<close>

definition put_word :: "u8 list \<Rightarrow> nat \<Rightarrow> u32 \<Rightarrow> u8 list" where
  "put_word buf p v = mem_write buf (4 * p) (u32_bytes v)"

text \<open>The length word, the bound check and the \<open>memcpy\<close> of a string or array.\<close>

definition put_block :: "u8 list \<Rightarrow> nat \<Rightarrow> nat \<Rightarrow> u32 \<Rightarrow> u8 list \<Rightarrow> errno + (u8 list \<times> nat)" where
  "put_block buf p endp n bs =
     (let buf = put_word buf p n; p = p + 1 in
      if p + unat (div_roundup n 4) > endp then Inl ERANGE
      else Inr (mem_write buf (4 * p) (take (unat n) bs), p + unat (div_roundup n 4)))"

fun serialize_loop ::
  "(u64 \<Rightarrow> wl_object) \<Rightarrow> (argument_details \<times> wl_argument) list \<Rightarrow> u8 list \<Rightarrow> nat \<Rightarrow> nat \<Rightarrow>
   errno + (u8 list \<times> nat)" where
  "serialize_loop objs [] buf p endp = Inr (buf, p)"
| "serialize_loop objs ((d, a) # das) buf p endp =
     (let t = arg_type d in
      if t = CHR ''h'' then serialize_loop objs das buf p endp
      else if p + 1 > endp then Inl ERANGE
      else if t \<in> set ''uifn'' then
        (case a of W v \<Rightarrow> serialize_loop objs das (put_word buf p v) (p + 1) endp | _ \<Rightarrow> Inl UB)
      else if t = CHR ''o'' then
        (case a of
           Obj q \<Rightarrow> serialize_loop objs das
             (put_word buf p (if q \<noteq> 0 then object_id (objs q) else 0)) (p + 1) endp
         | _ \<Rightarrow> Inl UB)
      else if t = CHR ''s'' then
        (case a of
           Str None \<Rightarrow> serialize_loop objs das (put_word buf p 0) (p + 1) endp
         | Str (Some s) \<Rightarrow>
             (case put_block buf p endp (str_size s) (s @ [0]) of
                Inl e \<Rightarrow> Inl e
              | Inr (buf', p') \<Rightarrow> serialize_loop objs das buf' p' endp)
         | _ \<Rightarrow> Inl UB)
      else if t = CHR ''a'' then
        (case a of
           Arr None \<Rightarrow> serialize_loop objs das (put_word buf p 0) (p + 1) endp
         | Arr (Some s) \<Rightarrow>
             (case put_block buf p endp (arr_size_u32 s) s of
                Inl e \<Rightarrow> Inl e
              | Inr (buf', p') \<Rightarrow> serialize_loop objs das buf' p' endp)
         | _ \<Rightarrow> Inl UB)
      else serialize_loop objs das buf p endp)"

definition header_word :: "u32 \<Rightarrow> u32 \<Rightarrow> u32" where
  "header_word n opcode = push_bit 16 n OR (opcode AND 0x0000ffff)"

text \<open>
  The size is computed as an \<open>unsigned int\<close> and returned as an \<open>int\<close>: from \<open>2 ^ 31\<close> bytes on
  the caller sees a negative number, without \<open>errno\<close>.  \<open>Inl\<close> is the -1 of the failures.
\<close>

definition serialize_closure ::
  "(u64 \<Rightarrow> wl_object) \<Rightarrow> wl_closure \<Rightarrow> u8 list \<Rightarrow> nat \<Rightarrow> errno + (int \<times> u8 list)" where
  "serialize_closure objs c buf buffer_count =
     (if buffer_count < 2 then Inl ERANGE
      else case serialize_loop objs (all_closure_args c) buf 2 buffer_count of
        Inl e \<Rightarrow> Inl e
      | Inr (buf, p) \<Rightarrow>
          let n = of_nat (4 * p) :: u32 in
          Inr (sint n, put_word (put_word buf 0 (cl_sender_id c)) 1 (header_word n (cl_opcode c))))"

section \<open>Sending\<close>

text \<open>The loop of \<open>copy_fds_to_connection\<close>; a descriptor handed over leaves -1 in its slot.\<close>

fun copy_fds_loop ::
  "argument_details list \<Rightarrow> nat \<Rightarrow> wl_argument list \<Rightarrow> wl_connection \<Rightarrow> os \<Rightarrow>
   (errno + unit) \<times> wl_argument list \<times> wl_connection \<times> os" where
  "copy_fds_loop [] i cargs conn w = (Inr (), cargs, conn, w)"
| "copy_fds_loop (d # ds) i cargs conn w =
     (if \<not> is_fd_arg d then copy_fds_loop ds (Suc i) cargs conn w
      else (case cargs ! i of
              W fd \<Rightarrow>
                (case wl_connection_put_fd conn fd w of
                   (Inl e, conn', w') \<Rightarrow> (Inl e, cargs, conn', w')
                 | (Inr _, conn', w') \<Rightarrow> copy_fds_loop ds (Suc i) (cargs[i := W fd_none]) conn' w')
            | _ \<Rightarrow> (Inl UB, cargs, conn, w)))"

definition copy_fds_to_connection ::
  "wl_closure \<Rightarrow> wl_connection \<Rightarrow> os \<Rightarrow> (errno + unit) \<times> wl_closure \<times> wl_connection \<times> os" where
  "copy_fds_to_connection c conn w =
     (case copy_fds_loop (message_args (cl_message c)) 0 (cl_args c) conn w of
        (r, cargs, conn', w') \<Rightarrow> (r, c\<lparr>cl_args := cargs\<rparr>, conn', w'))"

text \<open>
  \<open>wl_closure_send\<close> and \<open>wl_closure_queue\<close> differ in the buffer, zeroed or not (\<open>junk\<close>), and in
  the connection operation that takes it.
\<close>

definition send_with ::
  "(nat \<Rightarrow> u8) \<Rightarrow> (wl_connection \<Rightarrow> u8 list \<Rightarrow> os \<Rightarrow> (errno + unit) \<times> wl_connection \<times> os) \<Rightarrow>
   (u64 \<Rightarrow> wl_object) \<Rightarrow> wl_closure \<Rightarrow> wl_connection \<Rightarrow> os \<Rightarrow>
   (errno + unit) \<times> wl_closure \<times> wl_connection \<times> os" where
  "send_with junk put objs c conn w =
     (case copy_fds_to_connection c conn w of
        (Inl e, c, conn, w) \<Rightarrow> (Inl e, c, conn, w)
      | (Inr _, c, conn, w) \<Rightarrow>
          (case buffer_size_for_closure c of
             Inl e \<Rightarrow> (Inl e, c, conn, w)
           | Inr buffer_size \<Rightarrow>
               (case sys_malloc w of (ok, w) \<Rightarrow>
                  if \<not> ok then (Inl ENOMEM, c, conn, w)
                  else (case serialize_closure objs c (map junk [0..<4 * unat buffer_size]) (unat buffer_size) of
                          Inl e \<Rightarrow> (Inl e, c, conn, w)
                        | Inr (n, buf) \<Rightarrow>
                            if n < 0 then (Inl UNSET, c, conn, w)
                            else (case put conn (take (nat n) buf) w of
                                    (r, conn, w) \<Rightarrow> (r, c, conn, w))))))"

definition wl_closure_send ::
  "(u64 \<Rightarrow> wl_object) \<Rightarrow> wl_closure \<Rightarrow> wl_connection \<Rightarrow> os \<Rightarrow>
   (errno + unit) \<times> wl_closure \<times> wl_connection \<times> os" where
  "wl_closure_send objs c conn w = send_with (\<lambda>_. 0) wl_connection_write objs c conn w"

definition wl_closure_queue ::
  "(nat \<Rightarrow> u8) \<Rightarrow> (u64 \<Rightarrow> wl_object) \<Rightarrow> wl_closure \<Rightarrow> wl_connection \<Rightarrow> os \<Rightarrow>
   (errno + unit) \<times> wl_closure \<times> wl_connection \<times> os" where
  "wl_closure_queue junk objs c conn w = send_with junk wl_connection_queue objs c conn w"

section \<open>Well-typed arguments and their encoding\<close>

text \<open>What a closure ready to be sent holds for an argument.\<close>

definition arg_wt :: "argument_details \<Rightarrow> wl_argument \<Rightarrow> bool" where
  "arg_wt d a \<longleftrightarrow>
     (let t = arg_type d in
      if t \<in> set ''uifn'' then (\<exists>v. a = W v)
      else if t = CHR ''h'' then (\<exists>f. a = W f)
      else if t = CHR ''o'' then (\<exists>q. a = Obj q)
      else if t = CHR ''s'' then a = Str None \<or> (\<exists>s. a = Str (Some s) \<and> 0 \<notin> set s \<and> length s + 1 < 2 ^ 32)
      else if t = CHR ''a'' then a = Arr None \<or> (\<exists>s. a = Arr (Some s) \<and> length s < 2 ^ 32)
      else False)"

definition block_words :: "nat \<Rightarrow> nat" where
  "block_words n = (n + 3) div 4"

fun arg_words :: "argument_details \<Rightarrow> wl_argument \<Rightarrow> nat" where
  "arg_words d (Str (Some s)) = 1 + block_words (length s + 1)"
| "arg_words d (Arr (Some s)) = 1 + block_words (length s)"
| "arg_words d _ = (if is_fd_arg d then 0 else 1)"

text \<open>A block on the wire: its length in bytes, then its words, the last one padded.\<close>

definition block_encodes :: "u8 list \<Rightarrow> u32 list \<Rightarrow> bool" where
  "block_encodes bs ws \<longleftrightarrow>
     (\<exists>ps. ws = of_nat (length bs) # ps \<and> length ps = block_words (length bs) \<and>
           take (length bs) (bytes_of ps) = bs)"

definition wire_id :: "(u64 \<Rightarrow> wl_object) \<Rightarrow> u64 \<Rightarrow> u32" where
  "wire_id objs q = (if q \<noteq> 0 then object_id (objs q) else 0)"

fun arg_encodes :: "(u64 \<Rightarrow> wl_object) \<Rightarrow> argument_details \<Rightarrow> wl_argument \<Rightarrow> u32 list \<Rightarrow> bool" where
  "arg_encodes objs d (W v) ws = (ws = (if is_fd_arg d then [] else [v]))"
| "arg_encodes objs d (Obj q) ws = (ws = [wire_id objs q])"
| "arg_encodes objs d (Str None) ws = (ws = [0])"
| "arg_encodes objs d (Str (Some s)) ws = block_encodes (s @ [0]) ws"
| "arg_encodes objs d (Arr None) ws = (ws = [0])"
| "arg_encodes objs d (Arr (Some s)) ws = block_encodes s ws"
| "arg_encodes objs d Undef ws = False"

fun args_encode :: "(u64 \<Rightarrow> wl_object) \<Rightarrow> (argument_details \<times> wl_argument) list \<Rightarrow> u32 list \<Rightarrow> bool" where
  "args_encode objs [] ws = (ws = [])"
| "args_encode objs ((d, a) # das) ws =
     (\<exists>ws1 ws2. ws = ws1 @ ws2 \<and> arg_encodes objs d a ws1 \<and> args_encode objs das ws2)"

definition args_words :: "(argument_details \<times> wl_argument) list \<Rightarrow> nat" where
  "args_words das = sum_list (map (\<lambda>(d, a). arg_words d a) das)"

definition args_wt :: "(argument_details \<times> wl_argument) list \<Rightarrow> bool" where
  "args_wt das \<longleftrightarrow> list_all (\<lambda>(d, a). arg_wt d a) das"

lemma args_words_simps [simp]:
  "args_words [] = 0" "args_words ((d, a) # das) = arg_words d a + args_words das"
  by (simp_all add: args_words_def)

lemma args_wt_simps [simp]:
  "args_wt []" "args_wt ((d, a) # das) \<longleftrightarrow> arg_wt d a \<and> args_wt das"
  by (simp_all add: args_wt_def)

text \<open>Case analysis of a well-typed argument.\<close>

lemma arg_wt_cases:
  assumes "arg_wt d a"
  obtains (word) v where "arg_type d \<in> set ''uifn''" "a = W v"
  | (fd) f where "arg_type d = CHR ''h''" "a = W f"
  | (obj) q where "arg_type d = CHR ''o''" "a = Obj q"
  | (null_str) "arg_type d = CHR ''s''" "a = Str None"
  | (str) s where "arg_type d = CHR ''s''" "a = Str (Some s)" "0 \<notin> set s" "length s + 1 < 2 ^ 32"
  | (null_arr) "arg_type d = CHR ''a''" "a = Arr None"
  | (arr) s where "arg_type d = CHR ''a''" "a = Arr (Some s)" "length s < 2 ^ 32"
proof -
  let ?t = "arg_type d"
  consider "?t \<in> set ''uifn''" | "?t = CHR ''h''" | "?t = CHR ''o''" | "?t = CHR ''s''" | "?t = CHR ''a''"
    using assms by (auto simp: arg_wt_def Let_def split: if_splits)
  then show thesis
    using assms that by cases (auto simp: arg_wt_def)
qed

lemma str_size_unat: "length s + 1 < 2 ^ 32 \<Longrightarrow> unat (str_size s) = length s + 1"
  using unat_of_nat_u32 [of "length s + 1"] by (simp add: str_size_def add.commute)

lemma str_size_of_nat: "str_size s = of_nat (length (s @ [0]))"
  by (simp add: str_size_def)

lemma arr_size_unat: "length s < 2 ^ 32 \<Longrightarrow> unat (arr_size_u32 s) = length s"
  by (simp add: arr_size_u32_def unat_of_nat_u32)

lemma put_word_spec:
  assumes "4 * p + 4 \<le> length buf"
  shows "length (put_word buf p v) = length buf" "take (4 * p) (put_word buf p v) = take (4 * p) buf"
    "take (4 * (p + 1)) (put_word buf p v) = take (4 * p) buf @ u32_bytes v"
  using assms take_mem_write_end [of "4 * p" "u32_bytes v" buf]
  by (simp_all add: put_word_def add.commute)

text \<open>What a serialisation step leaves: the words \<open>ws\<close> after the \<open>p\<close> words before it.\<close>

definition wrote :: "u8 list \<Rightarrow> nat \<Rightarrow> u32 list \<Rightarrow> u8 list \<Rightarrow> bool" where
  "wrote buf p ws buf' \<longleftrightarrow> length buf' = length buf \<and>
     take (4 * (p + length ws)) buf' = take (4 * p) buf @ bytes_of ws"

lemma wrote_word: "4 * p + 4 \<le> length buf \<Longrightarrow> wrote buf p [v] (put_word buf p v)"
  using put_word_spec [of p buf v] by (simp add: wrote_def)

lemma wrote_trans:
  assumes "wrote buf p ws1 buf1" "wrote buf1 (p + length ws1) ws2 buf2"
  shows "wrote buf p (ws1 @ ws2) buf2"
  using assms by (simp add: wrote_def algebra_simps)

lemma put_block_spec:
  assumes n: "unat n = length bs" and fit: "p + 1 + block_words (length bs) \<le> endp" "4 * endp \<le> length buf"
  obtains buf' ws where "put_block buf p endp n bs = Inr (buf', p + length ws)"
    "wrote buf p ws buf'" "block_encodes bs ws" "length ws = 1 + block_words (length bs)"
proof -
  let ?r = "block_words (length bs)"
  have r: "unat (div_roundup n 4) = ?r" by (simp add: unat_div_roundup n block_words_def)
  have rb: "length bs \<le> 4 * ?r" by (simp add: block_words_def)
  let ?b1 = "put_word buf p n"
  let ?b2 = "mem_write ?b1 (4 * (p + 1)) bs"
  have l1: "length ?b1 = length buf" using fit by (intro put_word_spec(1)) simp
  have room: "4 * (p + 1) + 4 * ?r \<le> length ?b1" using fit l1 by simp
  let ?ps = "words_of (mem_read ?b2 (4 * (p + 1)) (4 * ?r))"
  have l2: "length ?b2 = length buf" using room rb l1 by simp
  have bytes: "bytes_of ?ps = mem_read ?b2 (4 * (p + 1)) (4 * ?r)"
    using room l1 l2 by (intro bytes_of_words_of) simp
  have lps: "length ?ps = ?r" using room l1 l2 by simp
  have "take (length bs) (mem_read ?b2 (4 * (p + 1)) (4 * ?r)) = mem_read ?b2 (4 * (p + 1)) (length bs)"
    using rb by (simp add: mem_read_def min_def)
  also have "\<dots> = bs" using room rb by (intro mem_read_write_same) simp
  finally have "take (length bs) (bytes_of ?ps) = bs" by (simp only: bytes)
  moreover have "n = of_nat (length bs)" by (simp flip: n)
  ultimately have enc: "block_encodes bs (n # ?ps)"
    unfolding block_encodes_def using lps by (intro exI [of _ ?ps]) simp
  have before: "take (4 * (p + 1)) ?b2 = take (4 * p) buf @ u32_bytes n"
    using put_word_spec(3) [of p buf n] fit room rb by simp
  have "take (4 * (p + (1 + ?r))) ?b2 = take (4 * (p + 1)) ?b2 @ mem_read ?b2 (4 * (p + 1)) (4 * ?r)"
    by (simp add: mem_read_def take_add [symmetric] algebra_simps)
  with before bytes have "take (4 * (p + (1 + ?r))) ?b2 = take (4 * p) buf @ bytes_of (n # ?ps)" by simp
  then have w: "wrote buf p (n # ?ps) ?b2" using l2 lps by (simp add: wrote_def)
  have "put_block buf p endp n bs = Inr (?b2, p + length (n # ?ps))"
    using fit n r lps by (simp add: put_block_def Let_def)
  from that [OF this w enc] lps show thesis by simp
qed

lemma serialize_arg:
  assumes wt: "arg_wt d a" and fit: "p + arg_words d a \<le> endp" "4 * endp \<le> length buf"
  obtains buf' ws where
    "serialize_loop objs ((d, a) # das) buf p endp = serialize_loop objs das buf' (p + length ws) endp"
    "wrote buf p ws buf'" "arg_encodes objs d a ws" "length ws = arg_words d a"
  using wt
proof (cases rule: arg_wt_cases)
  case (word v)
  with fit have "4 * p + 4 \<le> length buf" by (auto simp: is_fd_arg_def)
  from wrote_word [OF this, of v] word fit show thesis
    by (intro that [of "put_word buf p v" "[v]"]) (auto simp: is_fd_arg_def)
next
  case (fd f)
  then show thesis by (intro that [of buf "[]"]) (auto simp: is_fd_arg_def wrote_def)
next
  case (obj q)
  with fit have "4 * p + 4 \<le> length buf" by (auto simp: is_fd_arg_def)
  from wrote_word [OF this, of "wire_id objs q"] obj fit show thesis
    by (intro that [of "put_word buf p (wire_id objs q)" "[wire_id objs q]"])
       (auto simp: is_fd_arg_def wire_id_def)
next
  case null_str
  with fit have "4 * p + 4 \<le> length buf" by (auto simp: is_fd_arg_def)
  from wrote_word [OF this, of 0] null_str fit show thesis
    by (intro that [of "put_word buf p 0" "[0]"]) (auto simp: is_fd_arg_def)
next
  case (str s)
  have "unat (str_size s) = length (s @ [0])" using str_size_unat str(4) by simp
  moreover have "p + 1 + block_words (length (s @ [0])) \<le> endp" using fit str by simp
  ultimately obtain buf' ws where
    "put_block buf p endp (str_size s) (s @ [0]) = Inr (buf', p + length ws)"
    "wrote buf p ws buf'" "block_encodes (s @ [0]) ws" "length ws = 1 + block_words (length (s @ [0]))"
    using put_block_spec fit(2) by metis
  with str fit show thesis by (intro that [of buf' ws]) (auto simp: is_fd_arg_def)
next
  case null_arr
  with fit have "4 * p + 4 \<le> length buf" by (auto simp: is_fd_arg_def)
  from wrote_word [OF this, of 0] null_arr fit show thesis
    by (intro that [of "put_word buf p 0" "[0]"]) (auto simp: is_fd_arg_def)
next
  case (arr s)
  have "unat (arr_size_u32 s) = length s" using arr_size_unat arr(3) by simp
  moreover have "p + 1 + block_words (length s) \<le> endp" using fit arr by simp
  ultimately obtain buf' ws where
    "put_block buf p endp (arr_size_u32 s) s = Inr (buf', p + length ws)"
    "wrote buf p ws buf'" "block_encodes s ws" "length ws = 1 + block_words (length s)"
    using put_block_spec fit(2) by metis
  with arr fit show thesis by (intro that [of buf' ws]) (auto simp: is_fd_arg_def)
qed

lemma serialize_loop_spec:
  "args_wt das \<Longrightarrow> p + args_words das \<le> endp \<Longrightarrow> 4 * endp \<le> length buf \<Longrightarrow>
   \<exists>buf' ws. serialize_loop objs das buf p endp = Inr (buf', p + args_words das) \<and>
     wrote buf p ws buf' \<and> args_encode objs das ws \<and> length ws = args_words das"
proof (induction das arbitrary: buf p)
  case Nil
  then show ?case by (intro exI [of _ buf] exI [of _ "[]"]) (simp add: wrote_def)
next
  case (Cons da das)
  obtain d a where da: "da = (d, a)" by fastforce
  have "arg_wt d a" "p + arg_words d a \<le> endp" using Cons.prems da by simp_all
  from serialize_arg [OF this Cons.prems(3), of objs das] obtain buf1 ws1 where
    s1: "serialize_loop objs ((d, a) # das) buf p endp = serialize_loop objs das buf1 (p + length ws1) endp"
    "wrote buf p ws1 buf1" "arg_encodes objs d a ws1" "length ws1 = arg_words d a" by metis
  have "length buf1 = length buf" using s1(2) by (simp add: wrote_def)
  with Cons.IH [of "p + length ws1" buf1] Cons.prems s1(4) da obtain buf' ws2 where
    s2: "serialize_loop objs das buf1 (p + length ws1) endp = Inr (buf', p + length ws1 + args_words das)"
    "wrote buf1 (p + length ws1) ws2 buf'" "args_encode objs das ws2" "length ws2 = args_words das"
    by auto
  show ?case
    using s1 s2 wrote_trans [OF s1(2) s2(2)] da
    by (intro exI [of _ buf'] exI [of _ "ws1 @ ws2"]) auto
qed

text \<open>The exact size.\<close>

lemma word_unat_eq: "w = of_nat (unat w)"
  by simp

lemma buffer_size_arg:
  assumes "arg_wt d a" "k + arg_words d a < 2 ^ 32"
  shows "buffer_size_loop ((d, a) # das) (of_nat k) = buffer_size_loop das (of_nat (k + arg_words d a))"
  using assms(1)
proof (cases rule: arg_wt_cases)
  case (str s)
  have "unat (div_roundup (str_size s) 4) = block_words (length s + 1)"
    using str by (simp only: unat_div_roundup str_size_unat block_words_def)
  then have "div_roundup (str_size s) 4 = of_nat (block_words (length s + 1))" by (metis word_unat_eq)
  with str show ?thesis by (simp add: ac_simps)
next
  case (arr s)
  have "unat (div_roundup (arr_size_u32 s) 4) = block_words (length s)"
    using arr by (simp only: unat_div_roundup arr_size_unat block_words_def)
  then have "div_roundup (arr_size_u32 s) 4 = of_nat (block_words (length s))" by (metis word_unat_eq)
  with arr show ?thesis by (simp add: ac_simps)
qed (auto simp: is_fd_arg_def ac_simps)

lemma buffer_size_loop_spec:
  "args_wt das \<Longrightarrow> k + args_words das < 2 ^ 32 \<Longrightarrow>
   buffer_size_loop das (of_nat k) = Inr (of_nat (k + args_words das))"
proof (induction das arbitrary: k)
  case (Cons da das)
  obtain d a where da: "da = (d, a)" by fastforce
  have "arg_wt d a" "k + arg_words d a < 2 ^ 32" using Cons.prems da by simp_all
  from buffer_size_arg [OF this, of das] Cons.IH [of "k + arg_words d a"] Cons.prems da
  show ?case by (simp add: add.assoc)
qed simp

definition closure_wt :: "wl_closure \<Rightarrow> bool" where
  "closure_wt c \<longleftrightarrow> args_wt (all_closure_args c) \<and>
     length (cl_args c) = arg_count_for_signature (signature (cl_message c)) \<and>
     cl_count c = length (cl_args c)"

definition closure_words :: "wl_closure \<Rightarrow> nat" where
  "closure_words c = 2 + args_words (all_closure_args c)"

lemma buffer_size_for_closure_spec:
  assumes "closure_wt c" "closure_words c < 2 ^ 32"
  shows "buffer_size_for_closure c = Inr (of_nat (closure_words c))"
  using assms buffer_size_loop_spec [of "all_closure_args c" 0]
  by (simp add: buffer_size_for_closure_def closure_wt_def closure_words_def add.commute)

text \<open>A message on the wire: the sender, the size and opcode, the arguments.\<close>

definition msg_bytes :: "wl_closure \<Rightarrow> u32 list \<Rightarrow> u8 list" where
  "msg_bytes c ws = bytes_of (cl_sender_id c # header_word (of_nat (4 * closure_words c)) (cl_opcode c) # ws)"

lemma length_msg_bytes: "length (msg_bytes c ws) = 4 * (length ws + 2)"
  by (simp add: msg_bytes_def)

lemma sint_u32_nat: "n < 2 ^ 31 \<Longrightarrow> sint (of_nat n :: u32) = int n"
  using unat_of_nat_u32 [of n] by (simp add: sint_uint signed_take_bit_int_eq_self uint_nat)

lemma sint_u32_nonneg:
  assumes "n < 2 ^ 32" "0 \<le> sint (of_nat n :: u32)"
  shows "nat (sint (of_nat n :: u32)) = n"
proof -
  have "take_bit 32 (int n) = int n" using assms(1) by (simp add: take_bit_int_eq_self)
  then show ?thesis
    using assms by (auto simp: sint_uint signed_take_bit_eq_take_bit_minus uint_nat unat_of_nat_u32 split: if_splits)
qed

lemma serialize_closure_spec:
  assumes wt: "closure_wt c" and fit: "closure_words c \<le> n" "length buf = 4 * n"
  obtains buf' ws where
    "serialize_closure objs c buf n = Inr (sint (of_nat (4 * closure_words c) :: u32), buf')"
    "take (4 * closure_words c) buf' = msg_bytes c ws"
    "args_encode objs (all_closure_args c) ws" "length ws + 2 = closure_words c" "length buf' = length buf"
proof -
  let ?das = "all_closure_args c"
  have "2 + args_words ?das \<le> n" "4 * n \<le> length buf" "args_wt ?das"
    using fit wt by (simp_all add: closure_words_def closure_wt_def)
  from serialize_loop_spec [OF this(3,1,2), of objs] obtain buf1 ws where
    r: "serialize_loop objs ?das buf 2 n = Inr (buf1, 2 + args_words ?das)"
    "wrote buf 2 ws buf1" "args_encode objs ?das ws" "length ws = args_words ?das" by blast
  let ?h = "header_word (of_nat (4 * closure_words c)) (cl_opcode c)"
  let ?b0 = "put_word buf1 0 (cl_sender_id c)"
  let ?b1 = "put_word ?b0 1 ?h"
  have len: "length buf1 = 4 * n" "2 \<le> n" using r(2) fit by (simp_all add: wrote_def closure_words_def)
  have b0: "length ?b0 = 4 * n" "take 4 ?b0 = u32_bytes (cl_sender_id c)"
    using put_word_spec [of 0 buf1 "cl_sender_id c"] len by simp_all
  have b1: "length ?b1 = 4 * n" "take 8 ?b1 = u32_bytes (cl_sender_id c) @ u32_bytes ?h"
    using put_word_spec [of 1 ?b0 ?h] len b0 by simp_all
  have "drop 8 ?b1 = drop 8 buf1"
    using len by (simp add: put_word_def mem_write_def)
  moreover have cw: "closure_words c = length ws + 2" using r(4) by (simp add: closure_words_def)
  have "take (4 * closure_words c) buf1 = take 8 buf @ bytes_of ws"
    using r(2) by (simp add: wrote_def cw algebra_simps)
  then have "drop 8 (take (4 * closure_words c) buf1) = bytes_of ws"
    using fit len(2) by simp
  ultimately have tail: "drop 8 (take (4 * closure_words c) ?b1) = bytes_of ws"
    by (simp add: drop_take)
  have "take (4 * closure_words c) ?b1 =
      take 8 (take (4 * closure_words c) ?b1) @ drop 8 (take (4 * closure_words c) ?b1)"
    by (simp only: append_take_drop_id)
  also have "take 8 (take (4 * closure_words c) ?b1) = take 8 ?b1" using cw by (simp add: min_def)
  finally have out: "take (4 * closure_words c) ?b1 = msg_bytes c ws"
    using b1 tail by (simp add: msg_bytes_def)
  have "serialize_closure objs c buf n = Inr (sint (of_nat (4 * closure_words c) :: u32), ?b1)"
    using r(1) len(2) by (simp add: serialize_closure_def Let_def closure_words_def)
  from that [OF this out r(3)] cw b1 fit show thesis by simp
qed

section \<open>Sending a closure\<close>

lemma wl_connection_put_fd_count:
  assumes ok: "conn_ok c" and room: "rb_count (fds_out c) < 4096"
    and r: "wl_connection_put_fd c f w = (r, c', w')"
  shows "rb_count (fds_out c') \<le> rb_count (fds_out c) + 4"
proof -
  define full where "full \<longleftrightarrow> unat (ring_buffer_size (fds_out c)) = MAX_FDS_OUT * 4"
  obtain r1 c1 w1 where fl: "wl_connection_flush (c\<lparr>want_flush := True\<rparr>) w = (r1, c1, w1)"
    by (metis surj_pair)
  have "conn_ok (c\<lparr>want_flush := True\<rparr>)" using ok by simp
  note spec = wl_connection_flush_spec [OF this fl]
  define c2 where "c2 = (if full then c1 else c)"
  have ok2: "conn_ok c2" using spec ok by (simp add: c2_def)
  have "\<exists>fs. fds_list (fds_out c) = fs @ fds_list (fds_out c2)"
    using spec by (auto simp: c2_def out_step_def)
  then have "length (fds_list (fds_out c2)) \<le> length (fds_list (fds_out c))" by auto
  then have le: "rb_count (fds_out c2) \<le> rb_count (fds_out c)"
    using ok ok2 rb_count_fds [of "fds_out c"] rb_count_fds [of "fds_out c2"] by (simp add: conn_ok_def)
  then have "rb_count (fds_out c2) + 4 \<le> 4096"
    using room ok2 by (auto simp: conn_ok_def fds_ok_def)
  then obtain b where b: "ring_buffer_put (fds_out c2) (u32_bytes f) = Inr b"
    "rb_content b = rb_content (fds_out c2) @ u32_bytes f"
    using ring_buffer_put_ok [of "fds_out c2" "u32_bytes f"] ok2 by (auto simp: conn_ok_def fds_ok_def)
  have "rb_count b = rb_count (fds_out c2) + 4"
    using arg_cong [OF b(2), of length] by simp
  with r b(1) fl le show ?thesis
    by (auto simp: wl_connection_put_fd_def c2_def full_def Let_def split: sum.splits if_splits)
qed

fun fd_args :: "(argument_details \<times> wl_argument) list \<Rightarrow> fd list" where
  "fd_args [] = []"
| "fd_args ((d, a) # das) = (case a of W f \<Rightarrow> if is_fd_arg d then f # fd_args das else fd_args das | _ \<Rightarrow> fd_args das)"

definition clear_fd :: "argument_details \<times> wl_argument \<Rightarrow> wl_argument" where
  "clear_fd da = (if is_fd_arg (fst da) then W fd_none else snd da)"

text \<open>What sending does to a connection besides its output.\<close>

definition same_input :: "wl_connection \<Rightarrow> wl_connection \<Rightarrow> bool" where
  "same_input c c' \<longleftrightarrow> conn_ok c' \<and> conn_fd c' = conn_fd c \<and> in_buf c' = in_buf c \<and> fds_in c' = fds_in c"

lemma same_input_trans: "same_input a b \<Longrightarrow> same_input b c \<Longrightarrow> same_input a c"
  by (simp add: same_input_def)

lemma copy_fds_loop_spec:
  "conn_ok conn \<Longrightarrow> rb_count (fds_out conn) + 4 * length ds \<le> 4096 \<Longrightarrow>
   i + length ds = length cargs \<Longrightarrow>
   (\<And>j. j < length ds \<Longrightarrow> is_fd_arg (ds ! j) \<Longrightarrow> \<exists>f. cargs ! (i + j) = W f) \<Longrightarrow>
   copy_fds_loop ds i cargs conn w = (r, cargs', conn', w') \<Longrightarrow>
   same_input conn conn' \<and> out_stream conn' w' = out_stream conn w \<and>
   (case r of
      Inl e \<Rightarrow> \<exists>k. fd_stream conn' w' = fd_stream conn w @ take k (fd_args (zip ds (drop i cargs)))
    | Inr _ \<Rightarrow> fd_stream conn' w' = fd_stream conn w @ fd_args (zip ds (drop i cargs)) \<and>
               cargs' = take i cargs @ map clear_fd (zip ds (drop i cargs)))"
proof (induction ds i cargs conn w arbitrary: r cargs' conn' w' rule: copy_fds_loop.induct)
  case (1 i cargs conn w)
  then show ?case by (auto simp: same_input_def)
next
  case (2 d ds i cargs conn w)
  have i: "i < length cargs" using "2.prems"(3) by simp
  have dr: "drop i cargs = cargs ! i # drop (Suc i) cargs" using i by (simp add: Cons_nth_drop_Suc)
  have tk: "take (Suc i) cargs = take i cargs @ [cargs ! i]" using i by (simp add: take_Suc_conv_app_nth)
  have nxt: "\<And>j. j < length ds \<Longrightarrow> is_fd_arg (ds ! j) \<Longrightarrow> \<exists>f. cargs ! (Suc i + j) = W f"
    using "2.prems"(4) [of "Suc _"] by auto
  show ?case
  proof (cases "is_fd_arg d")
    case False
    have IH: "same_input conn conn' \<and> out_stream conn' w' = out_stream conn w \<and>
       (case r of
          Inl e \<Rightarrow> \<exists>k. fd_stream conn' w' = fd_stream conn w @ take k (fd_args (zip ds (drop (Suc i) cargs)))
        | Inr _ \<Rightarrow> fd_stream conn' w' = fd_stream conn w @ fd_args (zip ds (drop (Suc i) cargs)) \<and>
                   cargs' = take (Suc i) cargs @ map clear_fd (zip ds (drop (Suc i) cargs)))"
      using "2.prems" nxt False by (intro "2.IH"(1)) auto
    have "fd_args (zip (d # ds) (drop i cargs)) = fd_args (zip ds (drop (Suc i) cargs))"
      unfolding dr using False by (auto split: wl_argument.splits)
    with IH False show ?thesis by (auto simp: dr tk clear_fd_def split: sum.splits)
  next
    case True
    from "2.prems"(4) [of 0] True obtain f where f: "cargs ! i = W f" by auto
    obtain r1 conn1 w1 where p: "wl_connection_put_fd conn f w = (r1, conn1, w1)" by (metis surj_pair)
    have room: "rb_count (fds_out conn) < 4096" using "2.prems"(2) by simp
    note s = wl_connection_put_fd_spec [OF "2.prems"(1) room p]
    note cnt = wl_connection_put_fd_count [OF "2.prems"(1) room p]
    have si: "same_input conn conn1" using s by (simp add: same_input_def)
    show ?thesis
    proof (cases r1)
      case (Inl e)
      with "2.prems"(5) True f p s si show ?thesis by (auto intro!: exI [of _ 0])
    next
      case (Inr u)
      let ?cargs = "cargs[i := W fd_none]"
      have d1: "drop (Suc i) ?cargs = drop (Suc i) cargs" by simp
      have t1: "take (Suc i) ?cargs = take i cargs @ [W fd_none]"
        using i by (simp add: take_Suc_conv_app_nth)
      have IH: "same_input conn1 conn' \<and> out_stream conn' w' = out_stream conn1 w1 \<and>
         (case r of
            Inl e \<Rightarrow> \<exists>k. fd_stream conn' w' = fd_stream conn1 w1 @ take k (fd_args (zip ds (drop (Suc i) ?cargs)))
          | Inr _ \<Rightarrow> fd_stream conn' w' = fd_stream conn1 w1 @ fd_args (zip ds (drop (Suc i) ?cargs)) \<and>
                     cargs' = take (Suc i) ?cargs @ map clear_fd (zip ds (drop (Suc i) ?cargs)))"
      proof (rule "2.IH"(2) [OF _ f p [symmetric] Inr refl])
        show "\<not> \<not> is_fd_arg d" using True by simp
        show "conn_ok conn1" using s by simp
        show "rb_count (fds_out conn1) + 4 * length ds \<le> 4096" using "2.prems"(2) cnt by simp
        show "Suc i + length ds = length ?cargs" using "2.prems"(3) by simp
        show "\<exists>f. ?cargs ! (Suc i + j) = W f" if "j < length ds" "is_fd_arg (ds ! j)" for j
          using nxt [OF that] by simp
        show "copy_fds_loop ds (Suc i) ?cargs conn1 w1 = (r, cargs', conn', w')"
          using "2.prems"(5) True f p Inr by simp
      qed
      have fa: "fd_args (zip (d # ds) (drop i cargs)) = f # fd_args (zip ds (drop (Suc i) cargs))"
        unfolding dr using True f by simp
      have cl: "map clear_fd (zip (d # ds) (drop i cargs)) = W fd_none # map clear_fd (zip ds (drop (Suc i) cargs))"
        unfolding dr using True by (simp add: clear_fd_def)
      have si2: "same_input conn conn'" using same_input_trans [OF si] IH by blast
      have st: "out_stream conn1 w1 = out_stream conn w" "fd_stream conn1 w1 = fd_stream conn w @ [f]"
        using s Inr by simp_all
      show ?thesis
      proof (cases r)
        case (Inl e)
        with IH obtain k where "fd_stream conn' w' = fd_stream conn1 w1 @ take k (fd_args (zip ds (drop (Suc i) cargs)))"
          by auto
        then have "fd_stream conn' w' = fd_stream conn w @ take (Suc k) (fd_args (zip (d # ds) (drop i cargs)))"
          by (simp add: fa st)
        then have "\<exists>k. fd_stream conn' w' = fd_stream conn w @ take k (fd_args (zip (d # ds) (drop i cargs)))"
          by blast
        with Inl IH st si2 show ?thesis by simp
      next
        case (Inr u)
        with IH st si2 show ?thesis by (simp add: fa cl t1)
      qed
    qed
  qed
qed

text \<open>Clearing the descriptors does not change the message.\<close>

definition cleared :: "wl_closure \<Rightarrow> wl_closure" where
  "cleared c = c\<lparr>cl_args := map clear_fd (all_closure_args c)\<rparr>"

lemma all_closure_args_cleared:
  assumes "closure_wt c"
  shows "all_closure_args (cleared c) = map (\<lambda>da. (fst da, clear_fd da)) (all_closure_args c)"
proof -
  have "length (cl_args c) = length (message_args (cl_message c))"
    using assms by (simp add: closure_wt_def)
  then show ?thesis
    by (intro nth_equalityI) (simp_all add: cleared_def all_closure_args_def)
qed

lemma clear_fd_arg:
  assumes "arg_wt d a"
  shows "arg_wt d (clear_fd (d, a))" "arg_words d (clear_fd (d, a)) = arg_words d a"
    "arg_encodes objs d (clear_fd (d, a)) ws = arg_encodes objs d a ws"
  using assms by (cases rule: arg_wt_cases; auto simp: clear_fd_def is_fd_arg_def arg_wt_def)+

lemma clear_fd_args:
  "args_wt das \<Longrightarrow> args_wt (map (\<lambda>da. (fst da, clear_fd da)) das) \<and>
     args_words (map (\<lambda>da. (fst da, clear_fd da)) das) = args_words das \<and>
     (\<forall>ws. args_encode objs (map (\<lambda>da. (fst da, clear_fd da)) das) ws = args_encode objs das ws)"
proof (induction das)
  case (Cons da das)
  obtain d a where da: "da = (d, a)" by fastforce
  with Cons.prems have "arg_wt d a" by simp
  note c = clear_fd_arg [OF this]
  have "args_encode objs (map (\<lambda>da. (fst da, clear_fd da)) (da # das)) ws = args_encode objs (da # das) ws" for ws
    using Cons c(3) by (simp add: da)
  with Cons c da show ?case by simp
qed simp

lemma cleared_facts:
  assumes "closure_wt c"
  shows "closure_wt (cleared c)" "closure_words (cleared c) = closure_words c"
    "args_encode objs (all_closure_args (cleared c)) ws = args_encode objs (all_closure_args c) ws"
    "cl_sender_id (cleared c) = cl_sender_id c" "cl_opcode (cleared c) = cl_opcode c"
proof -
  have wt: "args_wt (all_closure_args c)" and len: "length (all_closure_args c) = length (cl_args c)"
    using assms by (simp_all add: closure_wt_def all_closure_args_def)
  note f = clear_fd_args [OF wt, of objs] and eq = all_closure_args_cleared [OF assms]
  show "closure_wt (cleared c)"
    using f assms len by (simp add: closure_wt_def eq) (simp add: cleared_def)
  show "closure_words (cleared c) = closure_words c" using f by (simp add: closure_words_def eq)
  show "args_encode objs (all_closure_args (cleared c)) ws = args_encode objs (all_closure_args c) ws"
    using f by (simp add: eq)
qed (simp_all add: cleared_def)

lemma sys_malloc_streams:
  "sys_malloc w = (ok, w') \<Longrightarrow> out_stream c w' = out_stream c w \<and> fd_stream c w' = fd_stream c w"
  by (auto simp: sys_malloc_def out_stream_def fd_stream_def split: list.splits)

lemma copy_fds_to_connection_spec:
  assumes ok: "conn_ok conn" and room: "rb_count (fds_out conn) + 4 * length (cl_args c) \<le> 4096"
    and wt: "closure_wt c" and r: "copy_fds_to_connection c conn w = (r, c', conn', w')"
  shows "same_input conn conn' \<and> out_stream conn' w' = out_stream conn w \<and>
    (r = Inr () \<longrightarrow> fd_stream conn' w' = fd_stream conn w @ fd_args (all_closure_args c) \<and> c' = cleared c)"
proof -
  let ?ds = "message_args (cl_message c)"
  have len: "length ?ds = length (cl_args c)" using wt by (simp add: closure_wt_def)
  obtain cargs where l: "copy_fds_loop ?ds 0 (cl_args c) conn w = (r, cargs, conn', w')"
    and c': "c' = c\<lparr>cl_args := cargs\<rparr>"
    using r by (auto simp: copy_fds_to_connection_def split: prod.splits)
  have fds: "\<exists>f. cl_args c ! (0 + j) = W f" if "j < length ?ds" "is_fd_arg (?ds ! j)" for j
  proof -
    have "(?ds ! j, cl_args c ! j) \<in> set (all_closure_args c)"
      using that len by (auto simp: all_closure_args_def in_set_zip)
    then have "arg_wt (?ds ! j) (cl_args c ! j)"
      using wt by (auto simp: closure_wt_def args_wt_def list_all_iff)
    with that(2) show ?thesis by (auto simp: is_fd_arg_def arg_wt_def)
  qed
  have "rb_count (fds_out conn) + 4 * length ?ds \<le> 4096" "0 + length ?ds = length (cl_args c)"
    using room len by simp_all
  from copy_fds_loop_spec [OF ok this fds l] show ?thesis
    by (auto simp: c' cleared_def all_closure_args_def split: sum.splits)
qed

text \<open>
  Where a closure is sent to: a connection operation that appends a message to the byte
  stream or drops it, and touches nothing else but the output.
\<close>

locale connection_sink = ordered_writer_with_fds put out_stream conn_ok fd_stream
  for put :: "wl_connection \<Rightarrow> u8 list \<Rightarrow> os \<Rightarrow> (errno + unit) \<times> wl_connection \<times> os" +
  assumes put_input: "conn_ok c \<Longrightarrow> put c m w = (r, c', w') \<Longrightarrow> same_input c c'"
    and put_bound: "conn_ok c \<Longrightarrow> put c m w = (Inr u, c', w') \<Longrightarrow> length m \<le> 4096"
begin

lemma send_with_spec:
  assumes ok: "conn_ok conn" and room: "rb_count (fds_out conn) + 4 * length (cl_args c) \<le> 4096"
    and wt: "closure_wt c" and small: "closure_words c < 2 ^ 30"
    and r: "send_with junk put objs c conn w = (r, c', conn', w')"
  shows "same_input conn conn' \<and>
    (case r of
       Inl e \<Rightarrow> out_stream conn' w' = out_stream conn w
     | Inr _ \<Rightarrow> c' = cleared c \<and> 4 * closure_words c \<le> 4096 \<and>
         fd_stream conn' w' = fd_stream conn w @ fd_args (all_closure_args c) \<and>
         (\<exists>ws. out_stream conn' w' = out_stream conn w @ msg_bytes c ws \<and>
               args_encode objs (all_closure_args c) ws \<and> length ws + 2 = closure_words c))"
proof -
  obtain r1 c1 conn1 w1 where cp: "copy_fds_to_connection c conn w = (r1, c1, conn1, w1)" by (metis surj_pair)
  note s1 = copy_fds_to_connection_spec [OF ok room wt cp]
  show ?thesis
  proof (cases r1)
    case (Inl e)
    with r cp s1 show ?thesis by (auto simp: send_with_def)
  next
    case (Inr u)
    have c1: "c1 = cleared c" using s1 Inr by simp
    note cf = cleared_facts [OF wt]
    have n: "unat (of_nat (closure_words c) :: u32) = closure_words c"
      using small by (intro unat_of_nat_u32) simp
    have bs: "buffer_size_for_closure c1 = Inr (of_nat (closure_words c))"
      using buffer_size_for_closure_spec [OF cf(1)] small cf(2) by (simp add: c1)
    obtain mok w2 where m: "sys_malloc w1 = (mok, w2)" by fastforce
    note ms = sys_malloc_streams [OF m]
    show ?thesis
    proof (cases mok)
      case False
      with r cp Inr bs m s1 ms show ?thesis by (auto simp: send_with_def)
    next
      case True
      let ?buf = "map junk [0..<4 * closure_words c]"
      have lb: "closure_words (cleared c) \<le> closure_words c" "length ?buf = 4 * closure_words c"
        by (simp_all add: cf)
      obtain buf' ws where sc0:
        "serialize_closure objs (cleared c) ?buf (closure_words c) =
           Inr (sint (of_nat (4 * closure_words (cleared c)) :: u32), buf')"
        "take (4 * closure_words (cleared c)) buf' = msg_bytes (cleared c) ws"
        "args_encode objs (all_closure_args (cleared c)) ws" "length ws + 2 = closure_words (cleared c)"
        using serialize_closure_spec [OF cf(1) lb, of objs] by metis
      have mb: "msg_bytes (cleared c) ws = msg_bytes c ws" by (simp only: msg_bytes_def cf)
      note sc = sc0 [unfolded cf mb, folded c1]
      let ?size = "sint (of_nat (4 * closure_words c) :: u32)"
      have n4: "0 \<le> ?size \<Longrightarrow> nat ?size = 4 * closure_words c"
        using small by (intro sint_u32_nonneg) simp_all
      show ?thesis
      proof (cases "?size < 0")
        case neg: True
        with r cp Inr bs m True sc(1) n have "r = Inl UNSET" "c' = c1" "conn' = conn1" "w' = w2"
          by (simp_all add: send_with_def del: of_nat_mult)
        with s1 Inr ms show ?thesis by simp
      next
        case False
        then have nonneg: "0 \<le> ?size" by simp
        let ?msg = "take (4 * closure_words c) buf'"
        obtain r3 conn3 w3 where p: "put conn1 ?msg w2 = (r3, conn3, w3)" by (metis surj_pair)
        have ok1: "conn_ok conn1" using s1 by (simp add: same_input_def)
        have si: "same_input conn conn3" using s1 put_input [OF ok1 p] same_input_trans by blast
        have res: "r = r3" "c' = c1" "conn' = conn3" "w' = w3"
          using r cp Inr bs m True sc(1) p n n4 [OF nonneg] nonneg by (simp_all add: send_with_def del: of_nat_mult)
        show ?thesis
        proof (cases r3)
          case (Inl e)
          with put_error [OF ok1, of ?msg w2 e conn3 w3] p s1 ms si res show ?thesis by simp
        next
          case (Inr v)
          with put_stream [OF ok1, of ?msg w2 v conn3 w3] put_fds [OF ok1 p] put_bound [OF ok1, of ?msg w2 v] p
            s1 ms si res sc \<open>r1 = Inr u\<close> c1 length_msg_bytes [of c ws]
          show ?thesis by auto
        qed
      qed
    qed
  qed
qed

end

interpretation send_sink: connection_sink wl_connection_write
  by unfold_locales (auto simp: same_input_def dest: wl_connection_write_spec)

interpretation queue_sink: connection_sink wl_connection_queue
  by unfold_locales (auto simp: same_input_def dest: wl_connection_queue_spec)

section \<open>Marshalling: types and descriptors\<close>

text \<open>What the caller of \<open>wl_closure_marshal\<close> passes: a new id is passed as its object.\<close>

definition marshal_wt :: "argument_details \<times> wl_argument \<Rightarrow> bool" where
  "marshal_wt da = (case da of (d, a) \<Rightarrow>
     if arg_type d = CHR ''n'' then \<exists>q. a = Obj q else arg_wt d a)"

fun open_fds :: "(argument_details \<times> wl_argument) list \<Rightarrow> fd list" where
  "open_fds [] = []"
| "open_fds ((d, a) # das) =
     (case a of W f \<Rightarrow> if is_fd_arg d \<and> f \<noteq> fd_none then f # open_fds das else open_fds das
      | _ \<Rightarrow> open_fds das)"

lemma close_arg_fds_eq: "close_arg_fds das w = sys_close_all (open_fds das) w"
  by (induction das arbitrary: w rule: open_fds.induct)
     (auto simp: sys_close_all_def split: wl_argument.splits)

text \<open>The descriptors a part of the dup script hands out.\<close>

fun dup_oks :: "(errno + fd) list \<Rightarrow> fd list" where
  "dup_oks [] = []"
| "dup_oks (Inl e # rs) = dup_oks rs"
| "dup_oks (Inr f # rs) = f # dup_oks rs"

definition dups_valid :: "os \<Rightarrow> bool" where
  "dups_valid w \<longleftrightarrow> Inr fd_none \<notin> set (dup_script w)"

lemma open_fds_cleared [simp]: "open_fds (zip (map fst das) (map clear_fd das)) = []"
  by (induction das) (auto simp: clear_fd_def split: wl_argument.splits)

lemma open_fds_Cons_other:
  "\<not> is_fd_arg d \<Longrightarrow> open_fds ((d, a) # das) = open_fds das \<and> fd_args ((d, a) # das) = fd_args das"
  by (auto split: wl_argument.splits)

definition marshal_done ::
  "(argument_details \<times> wl_argument) list \<Rightarrow> wl_argument list \<Rightarrow> os \<Rightarrow> os \<Rightarrow> errno option \<Rightarrow> bool" where
  "marshal_done das cs w w' eo \<longleftrightarrow> length cs = length das \<and>
     (\<exists>rs. dup_script w = rs @ dup_script w' \<and> w' = w\<lparr>dup_script := dup_script w'\<rparr> \<and>
        open_fds (zip (map fst das) cs) = dup_oks rs \<and>
        (eo = None \<longrightarrow> args_wt (zip (map fst das) cs) \<and> fd_args (zip (map fst das) cs) = dup_oks rs))"

lemma marshal_done_stop: "marshal_done das (map clear_fd das) w w (Some e)"
  by (auto simp: marshal_done_def intro: exI [of _ "[]"])

lemma marshal_done_other:
  assumes "marshal_done das cs w w' eo" "\<not> is_fd_arg d" "arg_wt d c"
  shows "marshal_done ((d, a) # das) (c # cs) w w' eo"
proof -
  have "open_fds (zip (map fst ((d, a) # das)) (c # cs)) = open_fds (zip (map fst das) cs)"
    "fd_args (zip (map fst ((d, a) # das)) (c # cs)) = fd_args (zip (map fst das) cs)"
    using open_fds_Cons_other [OF assms(2)] by simp_all
  with assms show ?thesis by (simp add: marshal_done_def)
qed

lemma marshal_loop_spec:
  "list_all marshal_wt das \<Longrightarrow> dups_valid w \<Longrightarrow>
   marshal_loop objs das (length c0) (c0 @ map clear_fd das) w = (eo, cargs', w') \<Longrightarrow>
   \<exists>cs. cargs' = c0 @ cs \<and> marshal_done das cs w w' eo \<and> eo \<notin> {Some UB, Some ABORT} - Some ` Inl -` set (dup_script w)"
proof (induction das arbitrary: c0 w eo cargs' w')
  case Nil
  then show ?case by (auto simp: marshal_done_def)
next
  case (Cons da das)
  obtain d a where da: "da = (d, a)" by fastforce
  have wt: "marshal_wt (d, a)" "list_all marshal_wt das" using Cons.prems(1) da by simp_all
  note run = Cons.prems(3) [unfolded da]
  have step: ?case
    if nf: "\<not> is_fd_arg d" "arg_wt d c"
      and go: "marshal_loop objs das (Suc (length c0)) ((c0 @ [c]) @ map clear_fd das) w = (eo, cargs', w')" for c
  proof -
    have "length (c0 @ [c]) = Suc (length c0)" by simp
    with go have "marshal_loop objs das (length (c0 @ [c])) ((c0 @ [c]) @ map clear_fd das) w = (eo, cargs', w')"
      by (simp only:)
    from Cons.IH [OF wt(2) Cons.prems(2) this] obtain cs where
      "cargs' = (c0 @ [c]) @ cs" "marshal_done das cs w w' eo"
      "eo \<notin> {Some UB, Some ABORT} - Some ` Inl -` set (dup_script w)" by blast
    with marshal_done_other [OF _ nf] da show ?thesis by (intro exI [of _ "c # cs"]) simp
  qed
  have stop: ?case if "eo = Some e" "e \<noteq> UB" "e \<noteq> ABORT" "cargs' = c0 @ map clear_fd ((d, a) # das)" "w' = w" for e
    using that marshal_done_stop [of "(d, a) # das" w e] da by auto
  show ?case
  proof (cases "is_fd_arg d")
    case True
    then have h: "arg_type d = CHR ''h''" by (simp add: is_fd_arg_def)
    with wt(1) obtain f where a: "a = W f" by (auto simp: marshal_wt_def arg_wt_def)
    obtain r1 w1 where dp: "sys_dup f w = (r1, w1)" by fastforce
    show ?thesis
    proof (cases r1)
      case (Inl e)
      then have res: "eo = Some e" "cargs' = c0 @ map clear_fd ((d, a) # das)" "w' = w1"
        using run h a dp by (auto simp: Let_def)
      from dp Inl have "(dup_script w = [] \<and> w1 = w \<and> e = EMFILE) \<or>
          (\<exists>rs. dup_script w = Inl e # rs \<and> w1 = w\<lparr>dup_script := rs\<rparr>)"
        by (auto simp: sys_dup_def split: list.splits)
      then show ?thesis
      proof
        assume "dup_script w = [] \<and> w1 = w \<and> e = EMFILE"
        then show ?thesis using stop [of e] res by simp
      next
        assume "\<exists>rs. dup_script w = Inl e # rs \<and> w1 = w\<lparr>dup_script := rs\<rparr>"
        then obtain rs where rs: "dup_script w = Inl e # rs" "w1 = w\<lparr>dup_script := rs\<rparr>" by blast
        have of: "open_fds (zip (map fst ((d, a) # das)) (map clear_fd ((d, a) # das))) = []"
          by (rule open_fds_cleared)
        have "marshal_done ((d, a) # das) (map clear_fd ((d, a) # das)) w w' eo"
          unfolding marshal_done_def using rs res of by (intro conjI exI [of _ "[Inl e]"]) simp_all
        with res rs da show ?thesis by (intro exI [of _ "map clear_fd ((d, a) # das)"]) auto
      qed
    next
      case (Inr g)
      from dp Inr obtain rs where rs: "dup_script w = Inr g # rs" "w1 = w\<lparr>dup_script := rs\<rparr>"
        by (auto simp: sys_dup_def split: list.splits)
      have g: "g \<noteq> fd_none" "dups_valid w1" using Cons.prems(2) rs by (auto simp: dups_valid_def)
      have "marshal_loop objs das (length (c0 @ [W g])) ((c0 @ [W g]) @ map clear_fd das) w1 = (eo, cargs', w')"
        using run h a dp Inr by (simp add: Let_def)
      from Cons.IH [OF wt(2) g(2) this] obtain cs where
        cs: "cargs' = (c0 @ [W g]) @ cs" "marshal_done das cs w1 w' eo"
        "eo \<notin> {Some UB, Some ABORT} - Some ` Inl -` set (dup_script w1)" by blast
      from cs(2) obtain rs' where "length cs = length das" "rs = rs' @ dup_script w'"
        "w' = w1\<lparr>dup_script := dup_script w'\<rparr>" "open_fds (zip (map fst das) cs) = dup_oks rs'"
        "eo = None \<longrightarrow> args_wt (zip (map fst das) cs) \<and> fd_args (zip (map fst das) cs) = dup_oks rs'"
        by (auto simp: marshal_done_def rs)
      moreover have "arg_wt d (W g)" using h by (simp add: arg_wt_def)
      moreover from \<open>w' = w1\<lparr>dup_script := dup_script w'\<rparr>\<close> have "w' = w\<lparr>dup_script := dup_script w'\<rparr>"
        using rs(2) by simp
      ultimately have "marshal_done ((d, a) # das) (W g # cs) w w' eo"
        unfolding marshal_done_def using True g(1) rs
        by (intro conjI exI [of _ "Inr g # rs'"]) simp_all
      with cs rs da show ?thesis by (intro exI [of _ "W g # cs"]) auto
    qed
  next
    case False
    then have cl: "clear_fd (d, a) = a" by (simp add: clear_fd_def)
    show ?thesis
    proof (cases "arg_type d = CHR ''n''")
      case True
      with wt(1) obtain q where a: "a = Obj q" by (auto simp: marshal_wt_def)
      have "arg_wt d (W (if q \<noteq> 0 then object_id (objs q) else 0))" using True by (simp add: arg_wt_def)
      from step [OF False this] stop [of EINVAL] run True a cl show ?thesis
        by (auto simp: Let_def split: if_splits)
    next
      case n: False
      with wt(1) have w': "arg_wt d a" by (simp add: marshal_wt_def)
      from w' step [OF False w'] stop [of EINVAL] run cl n False show ?thesis
        by (cases rule: arg_wt_cases) (auto simp: Let_def is_fd_arg_def split: if_splits)
    qed
  qed
qed

lemma wl_closure_init_spec:
  assumes "arg_count_for_signature (signature m) \<le> length as" "wl_closure_init m (Some as) w = (r, w')"
  obtains (error) e where "r = Inl e" "closed w' = closed w" "dup_script w' = dup_script w"
  | (ok) c where "r = Inr c" "closed w' = closed w" "dup_script w' = dup_script w"
      "cl_count c = arg_count_for_signature (signature m)" "cl_message c = m"
      "cl_args c = map clear_fd (zip (message_args m) as)"
proof -
  let ?n = "arg_count_for_signature (signature m)"
  obtain mok w1 where ml: "sys_malloc w = (mok, w1)" by fastforce
  then have w1: "closed w1 = closed w" "dup_script w1 = dup_script w"
    by (auto simp: sys_malloc_def split: list.splits)
  show thesis
  proof (cases "?n > WL_CLOSURE_MAX_ARGS \<or> \<not> mok")
    case True
    with assms(2) ml w1 show thesis
      by (auto simp: wl_closure_init_def Let_def split: if_splits intro: error)
  next
    case False
    have "zip (sig_args ?n (signature m)) (take ?n as) = zip (message_args m) as"
      using zip_take_length [of "message_args m" as] by (simp add: message_args_def)
    then have "map (\<lambda>(d, a). if is_fd_arg d then W fd_none else a) (zip (sig_args ?n (signature m)) (take ?n as))
        = map clear_fd (zip (message_args m) as)"
      by (auto simp: clear_fd_def)
    with assms False ml w1 show thesis
      by (intro ok [of "wl_closure_clear_fds \<lparr>cl_count = ?n, cl_message = m, cl_opcode = 0,
              cl_sender_id = 0, cl_args = take ?n as\<rparr>"])
         (auto simp: wl_closure_init_def Let_def wl_closure_clear_fds_def closure_args_def)
  qed
qed

section \<open>Properties\<close>

text \<open>\<open>wl_closure_marshal\<close> of well-typed arguments either fails, and then every descriptor
  it duplicated is closed again, or returns a well-typed closure that owns exactly the
  duplicates, in argument order, and has closed none.\<close>

lemma wl_closure_marshal_correct:
  assumes "arg_count_for_signature (signature m) \<le> length as"
    "list_all marshal_wt (zip (message_args m) as)" "dups_valid w"
    "wl_closure_marshal objs sender opcode as m w = (r, w')"
  shows "\<exists>rs. dup_script w = rs @ dup_script w' \<and>
    (case r of
       Inl e \<Rightarrow> closed w' = closed w @ dup_oks rs
     | Inr c \<Rightarrow> closure_wt c \<and> cl_message c = m \<and> cl_sender_id c = sender \<and> cl_opcode c = opcode \<and>
                fd_args (all_closure_args c) = dup_oks rs \<and> closed w' = closed w)"
proof -
  obtain r0 w0 where i: "wl_closure_init m (Some as) w = (r0, w0)" by fastforce
  let ?das = "zip (message_args m) as"
  show ?thesis
  proof (rule wl_closure_init_spec [OF assms(1) i])
    fix e assume "r0 = Inl e" "closed w0 = closed w" "dup_script w0 = dup_script w"
    with assms(4) i show ?thesis by (auto simp: wl_closure_marshal_def intro!: exI [of _ "[]"])
  next
    fix c assume c: "r0 = Inr c" "closed w0 = closed w" "dup_script w0 = dup_script w"
      "cl_count c = arg_count_for_signature (signature m)" "cl_message c = m"
      "cl_args c = map clear_fd ?das"
    have sa: "sig_args (cl_count c) (signature m) = message_args m" by (simp add: c(4) message_args_def)
    obtain eo cargs w1 where l: "marshal_loop objs ?das 0 (cl_args c) w0 = (eo, cargs, w1)" by (metis surj_pair)
    have dv: "dups_valid w0" using assms(3) c(3) by (simp add: dups_valid_def)
    have "marshal_loop objs ?das (length []) ([] @ map clear_fd ?das) w0 = (eo, cargs, w1)"
      using l c(6) by simp
    from marshal_loop_spec [OF assms(2) dv this] have md: "marshal_done ?das cargs w0 w1 eo" by auto
    then obtain rs where rs: "dup_script w = rs @ dup_script w1" "w1 = w0\<lparr>dup_script := dup_script w1\<rparr>"
      "open_fds (zip (map fst ?das) cargs) = dup_oks rs" "length cargs = length ?das"
      "eo = None \<longrightarrow> args_wt (zip (map fst ?das) cargs) \<and> fd_args (zip (map fst ?das) cargs) = dup_oks rs"
      by (auto simp: marshal_done_def c(3))
    have cl1: "closed w1 = closed w" using rs(2) c(2) by (metis os.select_convs(7) os.update_convs(3) os.surjective)
    have mf: "map fst ?das = message_args m" using assms(1) by (simp add: map_fst_zip_take)
    show ?thesis
    proof (cases eo)
      case (Some e)
      have "closure_args (c\<lparr>cl_args := cargs\<rparr>) = zip (message_args m) cargs"
        by (simp add: closure_args_def c(5) sa)
      with Some assms(4) i c l sa rs(1,3) cl1 mf show ?thesis
        by (auto simp: wl_closure_marshal_def wl_closure_destroy_def wl_closure_close_fds_def
            close_arg_fds_eq sys_close_all_eq)
    next
      case None
      with assms(4) i c l sa rs cl1 mf assms(1) show ?thesis
        by (auto simp: wl_closure_marshal_def closure_wt_def all_closure_args_def)
    qed
  qed
qed

definition fd_message :: wl_message where
  "fd_message = \<lparr>msg_name = ''create_pool'', signature = ''nhi'', types = [1, 0, 0]\<rparr>"

lemma fd_message_args:
  "message_args fd_message =
     [\<lparr>arg_type = CHR ''n'', nullable = False\<rparr>, \<lparr>arg_type = CHR ''h'', nullable = False\<rparr>,
      \<lparr>arg_type = CHR ''i'', nullable = False\<rparr>]"
  "arg_count_for_signature (signature fd_message) = 3"
  by (simp_all add: fd_message_def message_args_def get_next_argument_def is_arg_type_def)

lemma wl_closure_marshal_correct_witness:
  "\<exists>r w' rs. wl_closure_marshal (\<lambda>_. \<lparr>interface = 1, implementation = 0, object_id = 5\<rparr>) 3 0
       [Obj 64, W 9, W 4096] fd_message (os_init\<lparr>dup_script := [Inr 12]\<rparr>) = (r, w') \<and>
     [Inr 12] = rs @ dup_script w'"
proof -
  let ?objs = "\<lambda>_ :: u64. \<lparr>interface = 1, implementation = 0, object_id = 5\<rparr>"
  obtain r w' where r: "wl_closure_marshal ?objs 3 0 [Obj 64, W 9, W 4096] fd_message
      (os_init\<lparr>dup_script := [Inr 12]\<rparr>) = (r, w')" by fastforce
  have a: "arg_count_for_signature (signature fd_message) \<le> length [Obj 64, W 9, W 4096]"
    by (simp add: fd_message_args)
  have b: "list_all marshal_wt (zip (message_args fd_message) [Obj 64, W 9, W 4096])"
    by (simp add: fd_message_args marshal_wt_def arg_wt_def)
  have c: "dups_valid (os_init\<lparr>dup_script := [Inr 12]\<rparr>)" by (simp add: dups_valid_def)
  from wl_closure_marshal_correct [OF a b c r] r show ?thesis by auto
qed

text \<open>C27: for a well-typed closure that takes less than \<open>2 ^ 31\<close> bytes, the largest size that
  the \<open>int\<close> result can carry, the buffer size the code computes is exact: with it
  \<open>serialize_closure\<close> does not fail, returns the size in bytes, which is not negative, and the
  buffer holds the header (sender, size and opcode) followed by the encoded arguments.\<close>

theorem serialize_closure_exact:
  assumes "closure_wt c" "closure_words c < 2 ^ 29" "length buf = 4 * closure_words c"
  shows "\<exists>n buf' ws. buffer_size_for_closure c = Inr n \<and> unat n = closure_words c \<and>
     serialize_closure objs c buf (unat n) = Inr (int (4 * closure_words c), buf') \<and>
     length buf' = length buf \<and> buf' = msg_bytes c ws \<and> args_encode objs (all_closure_args c) ws"
proof -
  have small: "closure_words c < 2 ^ 32" using assms(2) by simp
  have n: "unat (of_nat (closure_words c) :: u32) = closure_words c"
    using small by (rule unat_of_nat_u32)
  have "4 * closure_words c < 2 ^ 31" using assms(2) by simp
  note size = sint_u32_nat [OF this]
  obtain buf' ws where s: "serialize_closure objs c buf (closure_words c) = Inr (sint (of_nat (4 * closure_words c) :: u32), buf')"
    "take (4 * closure_words c) buf' = msg_bytes c ws" "args_encode objs (all_closure_args c) ws"
    "length buf' = length buf"
    using serialize_closure_spec [OF assms(1) order_refl assms(3), of objs] by metis
  with n buffer_size_for_closure_spec [OF assms(1) small] assms(3) show ?thesis
    unfolding size by (intro exI [of _ "of_nat (closure_words c)"] exI [of _ buf'] exI [of _ ws]) simp
qed

definition sample_closure :: wl_closure where
  "sample_closure = \<lparr>cl_count = 3, cl_message = fd_message, cl_opcode = 0, cl_sender_id = 3,
                     cl_args = [W 5, W 12, W 4096]\<rparr>"

lemma sample_closure_facts:
  "closure_wt sample_closure" "closure_words sample_closure = 4"
  "all_closure_args sample_closure = zip (message_args fd_message) [W 5, W 12, W 4096]"
  by (simp_all add: sample_closure_def closure_wt_def closure_words_def all_closure_args_def
      fd_message_args arg_wt_def is_fd_arg_def)

lemma serialize_closure_exact_witness:
  "\<exists>buf' ws. serialize_closure (\<lambda>_. undefined) sample_closure (replicate 16 0) 4 = Inr (16, buf') \<and>
     buf' = msg_bytes sample_closure ws"
proof -
  have "closure_words sample_closure < 2 ^ 29" "length (replicate 16 (0 :: u8)) = 4 * closure_words sample_closure"
    by (simp_all add: sample_closure_facts)
  from serialize_closure_exact [OF sample_closure_facts(1) this, of "\<lambda>_. undefined"]
  show ?thesis unfolding sample_closure_facts by auto
qed

end
