(* ===== verification/WlMap.thy ===== *)
theory WlMap
  imports Prelude
begin

text \<open>
  The object id map of wayland-util.c (\<open>struct wl_map\<close>).  An entry is one 64-bit word, as
  the C union: a pointer whose two low bits are free, or, with bit 0 set, a link of the
  free list.  Bit 1 holds the flag of a live entry.  The array of a side is the list of
  its entries; its growth is the array of theory WlArray, so an operation that may grow
  it takes the outcome of the allocation as an argument (\<open>mem\<close>).

  Ids below \<open>WL_SERVER_ID_START\<close> index the client array, the others the server array.
  Only the array of the map's own side has a free list.
\<close>

section \<open>Entries\<close>

definition map_entry_is_free :: "u64 \<Rightarrow> bool" where
  "map_entry_is_free e \<longleftrightarrow> e AND 1 \<noteq> 0"

definition map_entry_get_data :: "u64 \<Rightarrow> u64" where
  "map_entry_get_data e = e AND NOT 3"

definition map_entry_get_flags :: "u64 \<Rightarrow> u32" where
  "map_entry_get_flags e = ucast (drop_bit 1 e AND 1)"

text \<open>\<open>entry->data = data; entry->next |= (flags & 0x1) << 1;\<close>\<close>

definition map_entry_set :: "u64 \<Rightarrow> u32 \<Rightarrow> u64" where
  "map_entry_set d flags = d OR push_bit 1 (ucast (flags AND 1))"

definition ptr_aligned :: "u64 \<Rightarrow> bool" where
  "ptr_aligned d \<longleftrightarrow> d AND 3 = 0"

lemma bit_1_word: "bit (1 :: 'a :: len word) n \<longleftrightarrow> n = 0"
  by (simp add: bit_1_iff)

lemma bit_3_word: "bit (3 :: u64) n \<longleftrightarrow> n = 0 \<or> n = 1"
proof -
  have "(3 :: u64) = mask 2" by (simp add: mask_eq_exp_minus_1)
  then have "bit (3 :: u64) n \<longleftrightarrow> bit (mask 2 :: u64) n" by (simp only:)
  also have "\<dots> \<longleftrightarrow> n = 0 \<or> n = 1" by (simp only: bit_mask_iff possible_bit_word) auto
  finally show ?thesis .
qed

lemma bit_and_3: "bit (d AND (3 :: u64)) n \<longleftrightarrow> bit d n \<and> (n = 0 \<or> n = 1)"
  by (simp only: bit_and_iff bit_3_word)

lemma bit_get_data: "bit (map_entry_get_data d) n \<longleftrightarrow> bit d n \<and> n \<noteq> 0 \<and> n \<noteq> 1"
  by (simp only: map_entry_get_data_def bit_and_iff bit_not_iff bit_3_word possible_bit_word)
     (auto dest: bit_imp_le_length)

lemma entry_free_bit: "map_entry_is_free e \<longleftrightarrow> bit e 0"
proof -
  have "e AND 1 = (if bit e 0 then 1 else 0)"
    by (auto intro!: bit_word_eqI simp: bit_simps bit_1_word)
  then show ?thesis by (simp add: map_entry_is_free_def)
qed

lemma ptr_aligned_bits: "ptr_aligned d \<longleftrightarrow> \<not> bit d 0 \<and> \<not> bit d 1"
proof
  assume "ptr_aligned d"
  then have "bit (d AND 3) n = bit (0 :: u64) n" for n by (simp add: ptr_aligned_def)
  from this [of 0] this [of 1] show "\<not> bit d 0 \<and> \<not> bit d 1"
    by (simp add: bit_and_3)
next
  assume "\<not> bit d 0 \<and> \<not> bit d 1"
  then have "\<And>n. \<not> bit (d AND 3) n" using bit_and_3 [of d] by metis
  then have "d AND 3 = 0" by (intro bit_word_eqI) simp
  then show "ptr_aligned d" by (simp add: ptr_aligned_def)
qed

lemma bit_ucast_flag: "bit (ucast (f AND 1) :: u64) n \<longleftrightarrow> n = 0 \<and> bit (f :: u32) 0"
  by (auto simp: bit_simps bit_1_word)

lemma map_entry_set_bits:
  "bit (map_entry_set d f) n \<longleftrightarrow> bit d n \<or> (n = 1 \<and> bit f 0)"
  unfolding map_entry_set_def bit_or_iff bit_push_bit_iff bit_ucast_flag possible_bit_word
  by auto

lemma entry_set_live [simp]: "ptr_aligned d \<Longrightarrow> \<not> map_entry_is_free (map_entry_set d f)"
  by (simp add: entry_free_bit map_entry_set_bits ptr_aligned_bits)

lemma entry_set_data [simp]: "ptr_aligned d \<Longrightarrow> map_entry_get_data (map_entry_set d f) = d"
proof (rule bit_word_eqI)
  fix n assume "ptr_aligned d" "n < LENGTH(64)"
  then show "bit (map_entry_get_data (map_entry_set d f)) n = bit d n"
    by (cases "n = 0"; cases "n = 1") (auto simp: bit_get_data map_entry_set_bits ptr_aligned_bits)
qed

lemma entry_set_flags [simp]: "ptr_aligned d \<Longrightarrow> map_entry_get_flags (map_entry_set d f) = f AND 1"
  by (rule bit_word_eqI)
     (auto simp: map_entry_get_flags_def map_entry_set_bits bit_simps bit_1_word ptr_aligned_bits)

lemma entry_zero [simp]:
  "\<not> map_entry_is_free 0" "map_entry_get_data 0 = 0" "map_entry_get_flags 0 = 0"
  by (simp_all add: map_entry_is_free_def map_entry_get_data_def map_entry_get_flags_def)

lemma map_entry_set_zero [simp]: "map_entry_set 0 0 = 0"
  by (simp add: map_entry_set_def)

section \<open>The map and its operations\<close>

definition WL_MAP_SERVER_SIDE :: u32 where "WL_MAP_SERVER_SIDE = 0"
definition WL_MAP_CLIENT_SIDE :: u32 where "WL_MAP_CLIENT_SIDE = 1"
definition WL_SERVER_ID_START :: u32 where "WL_SERVER_ID_START = 0xff000000"

record wl_map =
  client_entries :: "u64 list"
  server_entries :: "u64 list"
  side :: u32
  free_list :: u32

definition wl_map_init :: "u32 \<Rightarrow> wl_map" where
  "wl_map_init s = \<lparr>client_entries = [], server_entries = [], side = s, free_list = 0\<rparr>"

text \<open>The array an id belongs to and its index there, as every operation computes them.\<close>

definition id_entries :: "wl_map \<Rightarrow> u32 \<Rightarrow> u64 list" where
  "id_entries m i = (if i < WL_SERVER_ID_START then client_entries m else server_entries m)"

definition id_index :: "u32 \<Rightarrow> nat" where
  "id_index i = unat (if i < WL_SERVER_ID_START then i else i - WL_SERVER_ID_START)"

definition set_id_entries :: "wl_map \<Rightarrow> u32 \<Rightarrow> u64 list \<Rightarrow> wl_map" where
  "set_id_entries m i es =
     (if i < WL_SERVER_ID_START then m\<lparr>client_entries := es\<rparr> else m\<lparr>server_entries := es\<rparr>)"

definition wl_map_insert_new :: "wl_map \<Rightarrow> u32 \<Rightarrow> u64 \<Rightarrow> bool \<Rightarrow> (errno + u32) \<times> wl_map" where
  "wl_map_insert_new m flags d mem =
     (let client = (side m = WL_MAP_CLIENT_SIDE);
          es = (if client then client_entries m else server_entries m);
          base = (if client then 0 else WL_SERVER_ID_START);
          put = (\<lambda>es. if client then m\<lparr>client_entries := es\<rparr> else m\<lparr>server_entries := es\<rparr>)
      in if free_list m \<noteq> 0 then
           let i = unat (drop_bit 1 (free_list m)) in
           if i \<ge> length es then (Inl UB, m)
           else (Inr (of_nat i + base),
                 (put (es[i := map_entry_set d flags]))\<lparr>free_list := ucast (es ! i)\<rparr>)
         else if \<not> mem then (Inr 0, m)
         else (Inr (of_nat (length es) + base), put (es @ [map_entry_set d flags])))"

definition wl_map_insert_at :: "wl_map \<Rightarrow> u32 \<Rightarrow> u32 \<Rightarrow> u64 \<Rightarrow> bool \<Rightarrow> (errno + int) \<times> wl_map" where
  "wl_map_insert_at m flags i d mem =
     (let es = id_entries m i; k = id_index i; count = length es in
      if count < k then (Inr (- 1), m)
      else if count = k then
        (if mem then (Inr 0, set_id_entries m i (es @ [map_entry_set d flags])) else (Inl UB, m))
      else (Inr 0, set_id_entries m i (es[k := map_entry_set d flags])))"

definition wl_map_reserve_new :: "wl_map \<Rightarrow> u32 \<Rightarrow> bool \<Rightarrow> (errno + int) \<times> wl_map" where
  "wl_map_reserve_new m i mem =
     (if i < WL_SERVER_ID_START \<and> side m = WL_MAP_CLIENT_SIDE then (Inr (- 1), m)
      else if \<not> i < WL_SERVER_ID_START \<and> side m = WL_MAP_SERVER_SIDE then (Inr (- 1), m)
      else
        let es = id_entries m i; k = id_index i; count = length es in
        if count < k then (Inr (- 1), m)
        else if count = k then
          (if mem then (Inr 0, set_id_entries m i (es @ [0])) else (Inl UB, m))
        else if es ! k \<noteq> 0 then (Inr (- 1), m)
        else (Inr 0, m))"

definition wl_map_remove :: "wl_map \<Rightarrow> u32 \<Rightarrow> (errno + unit) \<times> wl_map" where
  "wl_map_remove m i =
     (if i < WL_SERVER_ID_START \<and> side m = WL_MAP_SERVER_SIDE then (Inr (), m)
      else if \<not> i < WL_SERVER_ID_START \<and> side m = WL_MAP_CLIENT_SIDE then (Inr (), m)
      else
        let es = id_entries m i; k = id_index i in
        if k \<ge> length es then (Inl UB, m)
        else (Inr (), (set_id_entries m i (es[k := ucast (free_list m)]))
                        \<lparr>free_list := push_bit 1 (of_nat k) OR 1\<rparr>))"

definition wl_map_lookup :: "wl_map \<Rightarrow> u32 \<Rightarrow> u64" where
  "wl_map_lookup m i =
     (let es = id_entries m i; k = id_index i in
      if k < length es \<and> \<not> map_entry_is_free (es ! k) then map_entry_get_data (es ! k) else 0)"

definition wl_map_lookup_flags :: "wl_map \<Rightarrow> u32 \<Rightarrow> u32" where
  "wl_map_lookup_flags m i =
     (let es = id_entries m i; k = id_index i in
      if k < length es \<and> \<not> map_entry_is_free (es ! k) then map_entry_get_flags (es ! k) else 0)"

text \<open>
  The iteration of \<open>wl_map_for_each\<close>: the number of entries is read once, the entries are
  read as the loop reaches them, so the callback sees its own changes.  \<open>get\<close> reads the
  array from the state; the callback returns whether to go on.
\<close>

fun for_each_helper ::
  "('s \<Rightarrow> u64 list) \<Rightarrow> (u64 \<Rightarrow> u32 \<Rightarrow> 's \<Rightarrow> bool \<times> 's) \<Rightarrow> nat list \<Rightarrow> 's \<Rightarrow> bool \<times> 's" where
  "for_each_helper get f [] s = (True, s)"
| "for_each_helper get f (k # ks) s =
     (let e = get s ! k in
      if e \<noteq> 0 \<and> \<not> map_entry_is_free e then
        (case f (map_entry_get_data e) (map_entry_get_flags e) s of
           (go, s') \<Rightarrow> if go then for_each_helper get f ks s' else (False, s'))
      else for_each_helper get f ks s)"

definition wl_map_for_each ::
  "('s \<Rightarrow> wl_map) \<Rightarrow> (u64 \<Rightarrow> u32 \<Rightarrow> 's \<Rightarrow> bool \<times> 's) \<Rightarrow> 's \<Rightarrow> 's" where
  "wl_map_for_each mp f s =
     (case for_each_helper (\<lambda>s. client_entries (mp s)) f [0..<length (client_entries (mp s))] s of
        (go, s') \<Rightarrow>
          if go then
            snd (for_each_helper (\<lambda>s. server_entries (mp s)) f [0..<length (server_entries (mp s'))] s')
          else s')"

text \<open>
  \<open>wl_get_server_object_ids_batch\<close> of wayland-server.c: one \<open>wl_map_insert_new\<close> of NULL per
  requested id; \<open>mems\<close> holds the outcome of each allocation.
\<close>

fun wl_get_server_object_ids_batch :: "wl_map \<Rightarrow> bool list \<Rightarrow> (errno + u32) list \<times> wl_map" where
  "wl_get_server_object_ids_batch m [] = ([], m)"
| "wl_get_server_object_ids_batch m (mem # mems) =
     (case wl_map_insert_new m 0 0 mem of (r, m1) \<Rightarrow>
      case wl_get_server_object_ids_batch m1 mems of (rs, m2) \<Rightarrow> (r # rs, m2))"

section \<open>The free list\<close>

text \<open>
  The code links free entries through their \<open>next\<close> field: \<open>(index << 1) | 1\<close>, and 0 at the
  end of the list.  \<open>free_ids\<close> follows the links.
\<close>

definition free_code :: "nat list \<Rightarrow> u32" where
  "free_code fs = (case fs of [] \<Rightarrow> 0 | k # _ \<Rightarrow> push_bit 1 (of_nat k) OR 1)"

fun free_walk :: "nat \<Rightarrow> u64 list \<Rightarrow> u32 \<Rightarrow> nat list" where
  "free_walk 0 es fl = []"
| "free_walk (Suc n) es fl =
     (if fl = 0 then []
      else let k = unat (drop_bit 1 fl) in
        k # (if k < length es then free_walk n es (ucast (es ! k)) else []))"

definition own_entries :: "wl_map \<Rightarrow> u64 list" where
  "own_entries m = (if side m = WL_MAP_CLIENT_SIDE then client_entries m else server_entries m)"

definition other_entries :: "wl_map \<Rightarrow> u64 list" where
  "other_entries m = (if side m = WL_MAP_CLIENT_SIDE then server_entries m else client_entries m)"

definition own_base :: "wl_map \<Rightarrow> u32" where
  "own_base m = (if side m = WL_MAP_CLIENT_SIDE then 0 else WL_SERVER_ID_START)"

definition free_ids :: "wl_map \<Rightarrow> nat list" where
  "free_ids m = free_walk (length (own_entries m)) (own_entries m) (free_list m)"

text \<open>
  The map's own side holds at most \<open>2 ^ 24\<close> entries, the number of ids from
  \<open>WL_SERVER_ID_START\<close> up; the code never checks this bound.  The other side is bounded by
  the 32-bit ids.
\<close>

definition max_entries :: nat where "max_entries = 2 ^ 24"

fun chained :: "u64 list \<Rightarrow> nat list \<Rightarrow> bool" where
  "chained es [] = True"
| "chained es (k # ks) = (k < length es \<and> es ! k = ucast (free_code ks) \<and> chained es ks)"

definition map_ok :: "wl_map \<Rightarrow> bool" where
  "map_ok m \<longleftrightarrow>
     side m \<in> {WL_MAP_SERVER_SIDE, WL_MAP_CLIENT_SIDE} \<and>
     length (own_entries m) \<le> max_entries \<and> length (other_entries m) < 2 ^ 32 \<and>
     distinct (free_ids m) \<and> free_list m = free_code (free_ids m) \<and>
     chained (own_entries m) (free_ids m) \<and>
     (\<forall>k < length (own_entries m). k \<notin> set (free_ids m) \<longrightarrow> \<not> map_entry_is_free (own_entries m ! k)) \<and>
     (\<forall>k < length (other_entries m). \<not> map_entry_is_free (other_entries m ! k))"

lemma free_code_Nil [simp]: "free_code [] = 0"
  by (simp add: free_code_def)

lemma free_code_bit0: "bit (free_code (k # ks)) 0"
  by (simp add: free_code_def bit_or_iff bit_1_word)

lemma free_code_Cons_neq [simp]: "free_code (k # ks) \<noteq> 0"
  using free_code_bit0 [of k ks] by auto

lemma of_nat_bits: "bit (of_nat k :: u32) n \<longleftrightarrow> n < 32 \<and> bit k n"
  by transfer (simp add: bit_take_bit_iff bit_of_nat_iff_bit)

lemma drop_bit_free_code: "k < 2 ^ 31 \<Longrightarrow> unat (drop_bit 1 (free_code (k # ks))) = k"
proof -
  assume k: "k < 2 ^ 31"
  have "drop_bit 1 (free_code (k # ks)) = (of_nat k :: u32)"
  proof (rule bit_word_eqI)
    fix n assume "n < LENGTH(32)"
    then consider "n < 31" | "n = 31" by fastforce
    then show "bit (drop_bit 1 (free_code (k # ks))) n = bit (of_nat k :: u32) n"
    proof cases
      case 1
      then show ?thesis
        by (simp add: free_code_def bit_drop_bit_eq bit_or_iff bit_push_bit_iff bit_1_word
            del: push_bit_Suc)
    next
      case 2
      have "\<not> bit k 31" using k by (simp add: bit_iff_odd)
      then have "\<not> bit (of_nat k :: u32) 31" by (simp add: of_nat_bits)
      moreover have "\<not> bit (free_code (k # ks)) 32" by (auto dest: bit_imp_le_length)
      ultimately show ?thesis using 2 by (simp add: bit_drop_bit_eq)
    qed
  qed
  with k show ?thesis by (simp add: unat_of_nat_u32)
qed

lemmas drop_bit_free_code_Suc = drop_bit_free_code [unfolded One_nat_def]

lemma ucast_free_code [simp]: "ucast (ucast (free_code ks) :: u64) = (free_code ks :: u32)"
  by (rule bit_word_eqI) (simp add: bit_simps)

lemma free_walk_chained:
  "chained es ks \<Longrightarrow> length es \<le> max_entries \<Longrightarrow> length ks \<le> n \<Longrightarrow> free_walk n es (free_code ks) = ks"
proof (induction ks arbitrary: n)
  case Nil
  then show ?case by (cases n) auto
next
  case (Cons k ks)
  then obtain n' where n: "n = Suc n'" by (cases n) auto
  from Cons.prems have k: "k < length es" "k < 2 ^ 31" by (auto simp: max_entries_def)
  with Cons n show ?case by (simp add: drop_bit_free_code Let_def del: One_nat_def)
qed

lemma chained_bound: "chained es ks \<Longrightarrow> k \<in> set ks \<Longrightarrow> k < length es"
  by (induction ks) auto

lemma chained_length: "chained es ks \<Longrightarrow> distinct ks \<Longrightarrow> length ks \<le> length es"
proof -
  assume c: "chained es ks" "distinct ks"
  then have "set ks \<subseteq> {..<length es}" by (auto dest: chained_bound)
  then have "card (set ks) \<le> card {..<length es}" by (rule card_mono [rotated]) simp
  with c show ?thesis by (simp add: distinct_card)
qed

lemma chained_update: "chained es ks \<Longrightarrow> k \<notin> set ks \<Longrightarrow> chained (es[k := e]) ks"
  by (induction ks) auto

lemma chained_snoc: "chained es ks \<Longrightarrow> chained (es @ [e]) ks"
  by (induction ks) (auto simp: nth_append)

text \<open>Introduction rule of the invariant: exhibit the free list.\<close>

lemma map_okI:
  assumes "side m \<in> {WL_MAP_SERVER_SIDE, WL_MAP_CLIENT_SIDE}"
    "length (own_entries m) \<le> max_entries" "length (other_entries m) < 2 ^ 32"
    "distinct fs" "free_list m = free_code fs" "chained (own_entries m) fs"
    "\<And>k. k < length (own_entries m) \<Longrightarrow> k \<notin> set fs \<Longrightarrow> \<not> map_entry_is_free (own_entries m ! k)"
    "\<And>k. k < length (other_entries m) \<Longrightarrow> \<not> map_entry_is_free (other_entries m ! k)"
  shows "map_ok m" and "free_ids m = fs"
proof -
  show f: "free_ids m = fs"
    using assms by (simp add: free_ids_def free_walk_chained chained_length)
  show "map_ok m" using assms by (simp add: map_ok_def f)
qed

section \<open>Ids\<close>

definition own_id :: "wl_map \<Rightarrow> u32 \<Rightarrow> bool" where
  "own_id m i \<longleftrightarrow> (i < WL_SERVER_ID_START) = (side m = WL_MAP_CLIENT_SIDE)"

text \<open>An id is in use when it has an entry that is not on the free list.\<close>

definition id_live :: "wl_map \<Rightarrow> u32 \<Rightarrow> bool" where
  "id_live m i \<longleftrightarrow> id_index i < length (id_entries m i) \<and>
     (own_id m i \<longrightarrow> id_index i \<notin> set (free_ids m))"

definition id_view :: "wl_map \<Rightarrow> u32 \<Rightarrow> u64 \<times> u32" where
  "id_view m i = (wl_map_lookup m i, wl_map_lookup_flags m i)"

definition new_id :: "wl_map \<Rightarrow> nat \<Rightarrow> u32" where
  "new_id m k = of_nat k + own_base m"

lemma side_consts [simp]: "WL_MAP_SERVER_SIDE \<noteq> WL_MAP_CLIENT_SIDE" "WL_MAP_CLIENT_SIDE \<noteq> WL_MAP_SERVER_SIDE"
  by (simp_all add: WL_MAP_SERVER_SIDE_def WL_MAP_CLIENT_SIDE_def)

lemma unat_server_id: "k < max_entries \<Longrightarrow> unat (of_nat k + WL_SERVER_ID_START) = k + 0xff000000"
  by (subst unat_plus_if_size)
     (simp add: WL_SERVER_ID_START_def max_entries_def unat_of_nat_u32 word_size)

lemma new_id_index: "k < max_entries \<Longrightarrow> id_index (new_id m k) = k"
  using unat_server_id [of k]
  by (auto simp: id_index_def new_id_def own_base_def unat_of_nat_u32 max_entries_def
      word_less_nat_alt WL_SERVER_ID_START_def)

lemma new_id_own: "k < max_entries \<Longrightarrow> own_id m (new_id m k)"
  using unat_server_id [of k]
  by (auto simp: own_id_def new_id_def own_base_def word_less_nat_alt unat_of_nat_u32 max_entries_def
      WL_SERVER_ID_START_def)

lemma id_index_inj:
  "(i < WL_SERVER_ID_START) = (j < WL_SERVER_ID_START) \<Longrightarrow> id_index i = id_index j \<Longrightarrow> i = j"
  by (auto simp: id_index_def split: if_splits dest: unsigned_word_eqI)

lemma own_id_inj: "own_id m i \<Longrightarrow> own_id m j \<Longrightarrow> id_index i = id_index j \<Longrightarrow> i = j"
  by (rule id_index_inj) (auto simp: own_id_def)

lemma id_entries_own: "map_ok m \<Longrightarrow> own_id m i \<Longrightarrow> id_entries m i = own_entries m"
  by (auto simp: id_entries_def own_id_def own_entries_def)

lemma id_entries_other: "\<not> own_id m i \<Longrightarrow> id_entries m i = other_entries m"
  by (auto simp: id_entries_def own_id_def other_entries_def)

text \<open>Replacing the own side, and setting the free list.\<close>

definition with_own :: "wl_map \<Rightarrow> u64 list \<Rightarrow> u32 \<Rightarrow> wl_map" where
  "with_own m es fl =
     (if side m = WL_MAP_CLIENT_SIDE then m\<lparr>client_entries := es, free_list := fl\<rparr>
      else m\<lparr>server_entries := es, free_list := fl\<rparr>)"

lemma with_own_sel [simp]:
  "own_entries (with_own m es fl) = es" "other_entries (with_own m es fl) = other_entries m"
  "side (with_own m es fl) = side m" "free_list (with_own m es fl) = fl"
  "own_id (with_own m es fl) i = own_id m i" "own_base (with_own m es fl) = own_base m"
  by (simp_all add: with_own_def own_entries_def other_entries_def own_id_def own_base_def)

lemma new_id_with_own [simp]: "new_id (with_own m es fl) k = new_id m k"
  by (simp add: new_id_def)

lemma id_entries_with_own:
  "id_entries (with_own m es fl) i = (if own_id m i then es else id_entries m i)"
  by (auto simp: id_entries_def with_own_def own_id_def)

lemma lookup_def2:
  "wl_map_lookup m i =
     (if id_index i < length (id_entries m i) \<and> \<not> map_entry_is_free (id_entries m i ! id_index i)
      then map_entry_get_data (id_entries m i ! id_index i) else 0)"
  by (simp add: wl_map_lookup_def Let_def)

lemma lookup_flags_def2:
  "wl_map_lookup_flags m i =
     (if id_index i < length (id_entries m i) \<and> \<not> map_entry_is_free (id_entries m i ! id_index i)
      then map_entry_get_flags (id_entries m i ! id_index i) else 0)"
  by (simp add: wl_map_lookup_flags_def Let_def)

lemma id_view_same_entry:
  assumes "id_entries m' i = id_entries m i \<or>
     (id_index i < length (id_entries m i) \<and> id_index i < length (id_entries m' i) \<and>
      id_entries m' i ! id_index i = id_entries m i ! id_index i) \<or>
     (length (id_entries m i) \<le> id_index i \<and> length (id_entries m' i) \<le> id_index i)"
  shows "id_view m' i = id_view m i"
  using assms by (auto simp: id_view_def lookup_def2 lookup_flags_def2)

section \<open>Correctness of the operations\<close>

lemma map_okD:
  assumes "map_ok m"
  shows "length (own_entries m) \<le> max_entries" "length (other_entries m) < 2 ^ 32"
    "distinct (free_ids m)" "free_list m = free_code (free_ids m)"
    "chained (own_entries m) (free_ids m)"
    "side m \<in> {WL_MAP_SERVER_SIDE, WL_MAP_CLIENT_SIDE}"
    "k < length (own_entries m) \<Longrightarrow> k \<notin> set (free_ids m) \<Longrightarrow> \<not> map_entry_is_free (own_entries m ! k)"
    "k < length (other_entries m) \<Longrightarrow> \<not> map_entry_is_free (other_entries m ! k)"
  using assms by (auto simp: map_ok_def)

lemma wl_map_init_ok:
  "s \<in> {WL_MAP_SERVER_SIDE, WL_MAP_CLIENT_SIDE} \<Longrightarrow>
   map_ok (wl_map_init s) \<and> (\<forall>i. \<not> id_live (wl_map_init s) i \<and> id_view (wl_map_init s) i = (0, 0))"
  by (auto simp: map_ok_def wl_map_init_def own_entries_def other_entries_def free_ids_def
      id_live_def id_entries_def id_view_def wl_map_lookup_def wl_map_lookup_flags_def)

lemma with_own_ok:
  assumes "map_ok m" "length es \<le> max_entries" "distinct fs" "chained es fs"
    "\<And>k. k < length es \<Longrightarrow> k \<notin> set fs \<Longrightarrow> \<not> map_entry_is_free (es ! k)"
    "fl = free_code fs"
  shows "map_ok (with_own m es fl)" and "free_ids (with_own m es fl) = fs"
proof -
  note ok = map_okD [OF assms(1)]
  have "side (with_own m es fl) \<in> {WL_MAP_SERVER_SIDE, WL_MAP_CLIENT_SIDE}"
    using ok(6) by simp
  note I = map_okI [OF this, of fs]
  show "map_ok (with_own m es fl)" using assms ok(2,8) by (intro I) simp_all
  show "free_ids (with_own m es fl) = fs" using assms ok(2,8) by (intro I) simp_all
qed

lemma insert_new_reuse:
  fixes f :: u32
  assumes "map_ok m" "free_ids m = k # ks" "ptr_aligned d"
  defines "m' \<equiv> with_own m ((own_entries m)[k := map_entry_set d f]) (free_code ks)"
  shows "wl_map_insert_new m f d mem = (Inr (new_id m k), m')" "map_ok m'" "free_ids m' = ks"
proof -
  note ok = map_okD [OF assms(1)]
  have ch: "chained (own_entries m) (k # ks)" using ok(5) assms(2) by simp
  have dist: "distinct (k # ks)" using ok(3) assms(2) by simp
  have k: "k < 2 ^ 31" "k < length (own_entries m)"
    using ch ok(1) by (auto simp: max_entries_def)
  show "wl_map_insert_new m f d mem = (Inr (new_id m k), m')"
    using k ch ok(4) assms(2)
    by (auto simp: wl_map_insert_new_def drop_bit_free_code_Suc own_entries_def m'_def with_own_def
        new_id_def own_base_def Let_def)
  have "chained ((own_entries m)[k := map_entry_set d f]) ks"
    using ch dist by (simp add: chained_update)
  then have I: "map_ok m' \<and> free_ids m' = ks"
    unfolding m'_def
    by (intro conjI with_own_ok [OF assms(1)])
       (use ok(1,7) dist assms(2,3) k in \<open>auto simp: nth_list_update\<close>)
  then show "map_ok m'" "free_ids m' = ks" by auto
qed

lemma insert_new_grow:
  fixes f :: u32
  assumes "map_ok m" "free_ids m = []" "ptr_aligned d" "length (own_entries m) < max_entries"
  defines "m' \<equiv> with_own m (own_entries m @ [map_entry_set d f]) 0"
  shows "wl_map_insert_new m f d True = (Inr (new_id m (length (own_entries m))), m')"
    "map_ok m'" "free_ids m' = []"
proof -
  note ok = map_okD [OF assms(1)]
  show "wl_map_insert_new m f d True = (Inr (new_id m (length (own_entries m))), m')"
    using ok(4) assms(2)
    by (auto simp: wl_map_insert_new_def own_entries_def m'_def with_own_def new_id_def own_base_def Let_def)
  have I: "map_ok m' \<and> free_ids m' = []"
    unfolding m'_def
    by (intro conjI with_own_ok [OF assms(1), where fs = "[]"])
       (use ok(7) assms(2,3,4) in \<open>auto simp: nth_append less_Suc_eq\<close>)
  then show "map_ok m'" "free_ids m' = []" by auto
qed

text \<open>What an operation that makes the entry of \<open>i\<close> hold \<open>d\<close> with flags \<open>f\<close> does to the map.\<close>

definition sets_entry :: "wl_map \<Rightarrow> u32 \<Rightarrow> u64 \<Rightarrow> u32 \<Rightarrow> wl_map \<Rightarrow> bool" where
  "sets_entry m i d f m' \<longleftrightarrow> map_ok m' \<and> side m' = side m \<and>
     id_view m' = (id_view m)(i := (d, f AND 1)) \<and> id_live m' = (id_live m)(i := True)"

lemma sets_entry_withI:
  assumes ok: "map_ok m'" and m': "m' = with_own m es fl" and i: "own_id m i"
    and k: "id_index i < length es" "es ! id_index i = map_entry_set d f" "ptr_aligned d"
    and fs: "id_index i \<notin> set (free_ids m')"
    and others: "\<And>j. j \<noteq> id_index i \<Longrightarrow> j < length es \<longleftrightarrow> j < length (own_entries m)"
      "\<And>j. j \<noteq> id_index i \<Longrightarrow> j < length (own_entries m) \<Longrightarrow> es ! j = own_entries m ! j"
      "\<And>j. j \<noteq> id_index i \<Longrightarrow> j \<in> set (free_ids m') \<longleftrightarrow> j \<in> set (free_ids m)"
    and mok: "map_ok m"
  shows "sets_entry m i d f m'"
proof -
  have v: "id_view m' i = (d, f AND 1)"
    using m' i k by (simp add: id_view_def lookup_def2 lookup_flags_def2 id_entries_with_own)
  have l: "id_live m' i" using m' i k fs by (simp add: id_live_def id_entries_with_own)
  have "id_view m' j = id_view m j \<and> id_live m' j = id_live m j" if "j \<noteq> i" for j
  proof (cases "own_id m j")
    case True
    with i that have "id_index j \<noteq> id_index i" using own_id_inj by blast
    note o = others [OF this]
    from True mok m' have e: "id_entries m' j = es" "id_entries m j = own_entries m"
      by (simp_all add: id_entries_with_own id_entries_own)
    have "id_view m' j = id_view m j"
      by (rule id_view_same_entry) (use e o in auto)
    with e o m' show ?thesis by (simp add: id_live_def)
  next
    case False
    with m' have e: "id_entries m' j = id_entries m j" by (simp add: id_entries_with_own)
    then have "id_view m' j = id_view m j" by (intro id_view_same_entry) simp
    with False e m' show ?thesis by (simp add: id_live_def)
  qed
  with v l have "id_view m' = (id_view m)(i := (d, f AND 1))" "id_live m' = (id_live m)(i := True)"
    by (auto simp: fun_eq_iff)
  with ok m' show ?thesis by (simp add: sets_entry_def)
qed

lemma ptr_aligned_zero: "ptr_aligned 0"
  by (simp add: ptr_aligned_def)

lemma insert_new_spec:
  assumes ok: "map_ok m" and d: "ptr_aligned d"
    and room: "free_ids m \<noteq> [] \<or> length (own_entries m) < max_entries"
  obtains i m' where "wl_map_insert_new m f d True = (Inr i, m')"
    "own_id m i" "\<not> id_live m i" "sets_entry m i d f m'"
    "length (own_entries m') - length (free_ids m') = Suc (length (own_entries m) - length (free_ids m))"
proof (cases "free_ids m")
  case Nil
  then have len: "length (own_entries m) < max_entries" using room by simp
  note g = insert_new_grow [OF ok Nil d len, of f]
  let ?k = "length (own_entries m)"
  show thesis
  proof (rule that [OF g(1)])
    show own: "own_id m (new_id m ?k)" by (rule new_id_own [OF len])
    then show "\<not> id_live m (new_id m ?k)"
      by (simp add: id_live_def id_entries_own ok new_id_index len)
    show "sets_entry m (new_id m ?k) d f (with_own m (own_entries m @ [map_entry_set d f]) 0)"
      by (rule sets_entry_withI [OF g(2) refl own])
         (auto simp: new_id_index len d nth_append g(3) Nil ok)
  qed (simp add: g(3) Nil)
next
  case (Cons k ks)
  note g = insert_new_reuse [OF ok Cons d, of f]
  have ch: "chained (own_entries m) (k # ks)" using map_okD(5) [OF ok] Cons by simp
  have dist: "distinct (k # ks)" using map_okD(3) [OF ok] Cons by simp
  have k: "k < length (own_entries m)" "k < max_entries" using ch map_okD(1) [OF ok] by auto
  have len: "length (k # ks) \<le> length (own_entries m)" by (rule chained_length [OF ch dist])
  show thesis
  proof (rule that [OF g(1)])
    show own: "own_id m (new_id m k)" by (rule new_id_own [OF k(2)])
    then show "\<not> id_live m (new_id m k)"
      by (simp add: id_live_def new_id_index k Cons)
    show "sets_entry m (new_id m k) d f (with_own m ((own_entries m)[k := map_entry_set d f]) (free_code ks))"
      by (rule sets_entry_withI [OF g(2) refl own])
         (use dist in \<open>auto simp: new_id_index k d g(3) Cons ok\<close>)
  qed (use len in \<open>simp add: g(3) Cons\<close>)
qed


definition with_other :: "wl_map \<Rightarrow> u64 list \<Rightarrow> wl_map" where
  "with_other m es =
     (if side m = WL_MAP_CLIENT_SIDE then m\<lparr>server_entries := es\<rparr> else m\<lparr>client_entries := es\<rparr>)"

lemma with_other_sel [simp]:
  "own_entries (with_other m es) = own_entries m" "other_entries (with_other m es) = es"
  "side (with_other m es) = side m" "free_list (with_other m es) = free_list m"
  "free_ids (with_other m es) = free_ids m" "own_id (with_other m es) i = own_id m i"
  by (simp_all add: with_other_def own_entries_def other_entries_def own_id_def free_ids_def)

lemma id_entries_with_other:
  "id_entries (with_other m es) i = (if own_id m i then id_entries m i else es)"
  by (auto simp: id_entries_def with_other_def own_id_def)

lemma set_id_entries_eq:
  "set_id_entries m i es = (if own_id m i then with_own m es (free_list m) else with_other m es)"
  by (auto simp: set_id_entries_def with_own_def with_other_def own_id_def)

lemma with_other_ok:
  assumes "map_ok m" "length es < 2 ^ 32" "\<And>k. k < length es \<Longrightarrow> \<not> map_entry_is_free (es ! k)"
  shows "map_ok (with_other m es)"
  using map_okD [OF assms(1)] assms(2,3) by (auto simp: map_ok_def)

lemma other_id_inj: "\<not> own_id m i \<Longrightarrow> \<not> own_id m j \<Longrightarrow> id_index i = id_index j \<Longrightarrow> i = j"
  by (rule id_index_inj) (auto simp: own_id_def)

lemma sets_entry_otherI:
  assumes ok: "map_ok (with_other m es)" and i: "\<not> own_id m i"
    and k: "id_index i < length es" "es ! id_index i = map_entry_set d f" "ptr_aligned d"
    and others: "\<And>j. j \<noteq> id_index i \<Longrightarrow> j < length es \<longleftrightarrow> j < length (other_entries m)"
      "\<And>j. j \<noteq> id_index i \<Longrightarrow> j < length (other_entries m) \<Longrightarrow> es ! j = other_entries m ! j"
  shows "sets_entry m i d f (with_other m es)"
proof -
  let ?m = "with_other m es"
  have v: "id_view ?m i = (d, f AND 1)"
    using i k by (simp add: id_view_def lookup_def2 lookup_flags_def2 id_entries_with_other)
  have l: "id_live ?m i" using i k by (simp add: id_live_def id_entries_with_other)
  have "id_view ?m j = id_view m j \<and> id_live ?m j = id_live m j" if "j \<noteq> i" for j
  proof (cases "own_id m j")
    case True
    then have e: "id_entries ?m j = id_entries m j" by (simp add: id_entries_with_other)
    then have "id_view ?m j = id_view m j" by (intro id_view_same_entry) simp
    with True e show ?thesis by (simp add: id_live_def)
  next
    case False
    with i that have "id_index j \<noteq> id_index i" using other_id_inj by blast
    note o = others [OF this]
    from False have e: "id_entries ?m j = es" "id_entries m j = other_entries m"
      by (simp_all add: id_entries_with_other id_entries_other)
    have "id_view ?m j = id_view m j"
      by (rule id_view_same_entry) (use e o in auto)
    with e o False show ?thesis by (simp add: id_live_def)
  qed
  with v l have "id_view ?m = (id_view m)(i := (d, f AND 1))" "id_live ?m = (id_live m)(i := True)"
    by (auto simp: fun_eq_iff)
  with ok show ?thesis by (simp add: sets_entry_def)
qed

lemma id_index_bound: "id_index i < 2 ^ 32 - 2 ^ 24"
proof (cases "i < WL_SERVER_ID_START")
  case True
  then show ?thesis by (simp add: id_index_def word_less_nat_alt WL_SERVER_ID_START_def)
next
  case False
  then have "unat (i - WL_SERVER_ID_START) = unat i - unat WL_SERVER_ID_START"
    by (intro unat_sub) (simp add: not_less)
  moreover have "unat i < 2 ^ 32" by (rule unat_u32_bound)
  ultimately show ?thesis using False by (simp add: id_index_def WL_SERVER_ID_START_def)
qed

text \<open>Storing an entry at the next index or at a live one, on either side.\<close>

definition put_entry :: "u64 list \<Rightarrow> nat \<Rightarrow> u64 \<Rightarrow> u64 list" where
  "put_entry es k e = (if k = length es then es @ [e] else es[k := e])"

lemma put_entry_simps:
  assumes "k \<le> length es"
  shows "k < length (put_entry es k e)" "put_entry es k e ! k = e"
    "j \<noteq> k \<Longrightarrow> j < length (put_entry es k e) \<longleftrightarrow> j < length es"
    "j \<noteq> k \<Longrightarrow> j < length es \<Longrightarrow> put_entry es k e ! j = es ! j"
    "length (put_entry es k e) = (if k = length es then Suc (length es) else length es)"
  using assms by (auto simp: put_entry_def nth_append)

definition id_usable :: "wl_map \<Rightarrow> u32 \<Rightarrow> bool" where
  "id_usable m i \<longleftrightarrow> id_index i \<le> length (id_entries m i) \<and>
     (own_id m i \<longrightarrow> id_index i < max_entries \<and> id_index i \<notin> set (free_ids m))"

lemma id_live_usable: "map_ok m \<Longrightarrow> id_live m i \<Longrightarrow> id_usable m i"
  using map_okD(1) [of m] by (auto simp: id_live_def id_usable_def id_entries_own)

lemma put_entry_spec:
  assumes ok: "map_ok m" and d: "ptr_aligned d" and u: "id_usable m i"
  shows "sets_entry m i d f
           (set_id_entries m i (put_entry (id_entries m i) (id_index i) (map_entry_set d f)))"
proof (cases "own_id m i")
  case True
  let ?es = "put_entry (own_entries m) (id_index i) (map_entry_set d f)"
  let ?m = "with_own m ?es (free_list m)"
  note okD = map_okD [OF ok]
  have k: "id_index i \<le> length (own_entries m)" "id_index i < max_entries" "id_index i \<notin> set (free_ids m)"
    using u True by (auto simp: id_usable_def id_entries_own ok)
  note p = put_entry_simps [OF k(1), where e = "map_entry_set d f"]
  have ch: "chained ?es (free_ids m)"
    using okD(5) k by (auto simp: put_entry_def chained_update chained_snoc)
  have live: "\<not> map_entry_is_free (?es ! j)" if "j < length ?es" "j \<notin> set (free_ids m)" for j
    using that p d okD(7) by (cases "j = id_index i") auto
  have len: "length ?es \<le> max_entries" using p(5) k okD(1) by auto
  have I: "map_ok ?m \<and> free_ids ?m = free_ids m"
    by (intro conjI with_own_ok [OF ok len okD(3) ch live okD(4)])
  have "sets_entry m i d f ?m"
    by (rule sets_entry_withI [OF _ refl True])
       (use I k p d ok in auto)
  with True show ?thesis by (simp add: set_id_entries_eq id_entries_own ok)
next
  case False
  let ?es = "put_entry (other_entries m) (id_index i) (map_entry_set d f)"
  note okD = map_okD [OF ok]
  have k: "id_index i \<le> length (other_entries m)"
    using u False by (auto simp: id_usable_def id_entries_other)
  note p = put_entry_simps [OF k, where e = "map_entry_set d f"]
  have len: "length ?es < 2 ^ 32" using p(5) k okD(2) id_index_bound [of i] by auto
  have live: "\<not> map_entry_is_free (?es ! j)" if "j < length ?es" for j
    using that p d okD(8) by (cases "j = id_index i") auto
  have "sets_entry m i d f (with_other m ?es)"
    by (rule sets_entry_otherI [OF with_other_ok [OF ok len live] False])
       (use p d in auto)
  with False show ?thesis by (simp add: set_id_entries_eq id_entries_other)
qed

lemma insert_at_spec:
  assumes "map_ok m" "ptr_aligned d" "id_usable m i"
  obtains m' where "wl_map_insert_at m f i d True = (Inr 0, m')" "sets_entry m i d f m'"
proof (rule that)
  show "wl_map_insert_at m f i d True =
          (Inr 0, set_id_entries m i (put_entry (id_entries m i) (id_index i) (map_entry_set d f)))"
    using assms(3) by (auto simp: wl_map_insert_at_def put_entry_def Let_def id_usable_def)
qed (rule put_entry_spec [OF assms])

lemma wl_map_insert_at_gap:
  "length (id_entries m i) < id_index i \<Longrightarrow> wl_map_insert_at m f i d mem = (Inr (- 1), m)"
  by (simp add: wl_map_insert_at_def Let_def)

lemma reserve_new_own: "map_ok m \<Longrightarrow> own_id m i \<Longrightarrow> wl_map_reserve_new m i mem = (Inr (- 1), m)"
  using map_okD(6) [of m] by (auto simp: wl_map_reserve_new_def own_id_def)

lemma reserve_new_cases:
  assumes ok: "map_ok m"
  obtains (reserved) m' where "wl_map_reserve_new m i True = (Inr 0, m')" "sets_entry m i 0 0 m'"
      "\<not> own_id m i" "wl_map_lookup m i = 0"
  | (refused) "wl_map_reserve_new m i True = (Inr (- 1), m)"
      "own_id m i \<or> length (id_entries m i) < id_index i \<or> id_view m i \<noteq> (0, 0)"
proof -
  let ?es = "id_entries m i" and ?k = "id_index i"
  consider (own) "own_id m i" | (gap) "\<not> own_id m i" "length ?es < ?k"
    | (new) "\<not> own_id m i" "length ?es = ?k" | (used) "\<not> own_id m i" "?k < length ?es" "?es ! ?k \<noteq> 0"
    | (null) "\<not> own_id m i" "?k < length ?es" "?es ! ?k = 0"
    by fastforce
  then show thesis
  proof cases
    case own
    with ok show thesis by (intro refused) (simp_all add: reserve_new_own)
  next
    case gap
    then show thesis
      using map_okD(6) [OF ok]
      by (intro refused) (auto simp: wl_map_reserve_new_def Let_def own_id_def)
  next
    case new
    have "sets_entry m i 0 0 (set_id_entries m i (put_entry ?es ?k (map_entry_set 0 0)))"
      using new by (intro put_entry_spec [OF ok]) (auto simp: ptr_aligned_def id_usable_def)
    with new show thesis
      using map_okD(6) [OF ok]
      by (intro reserved [of "set_id_entries m i (?es @ [0])"])
         (auto simp: wl_map_reserve_new_def Let_def own_id_def put_entry_def lookup_def2)
  next
    case used
    have e: "\<not> map_entry_is_free (?es ! ?k)"
      using used map_okD(8) [OF ok] by (simp add: id_entries_other)
    have "id_view m i \<noteq> (0, 0)"
    proof
      assume "id_view m i = (0, 0)"
      with used e have z: "map_entry_get_data (?es ! ?k) = 0" "map_entry_get_flags (?es ! ?k) = 0"
        by (simp_all add: id_view_def lookup_def2 lookup_flags_def2)
      have "\<not> bit (?es ! ?k) n" for n
      proof -
        have "\<not> bit (map_entry_get_data (?es ! ?k)) n" by (simp add: z(1))
        moreover have "\<not> bit (map_entry_get_flags (?es ! ?k)) 0" by (simp add: z(2))
        then have "\<not> bit (?es ! ?k) 1"
          by (auto simp: map_entry_get_flags_def bit_simps bit_1_word)
        ultimately show ?thesis using e by (auto simp: bit_get_data entry_free_bit)
      qed
      then have "?es ! ?k = 0" by (intro bit_word_eqI) simp
      with used show False by simp
    qed
    with used show thesis
      using map_okD(6) [OF ok]
      by (intro refused) (auto simp: wl_map_reserve_new_def Let_def own_id_def)
  next
    case null
    have "id_usable m i" using null by (auto simp: id_usable_def)
    then have "sets_entry m i 0 0 (set_id_entries m i (put_entry ?es ?k (map_entry_set 0 0)))"
      by (intro put_entry_spec [OF ok]) (auto simp: ptr_aligned_def)
    moreover have "put_entry ?es ?k (map_entry_set 0 0) = ?es"
      using null list_update_id [of ?es ?k] by (simp add: put_entry_def)
    moreover have "set_id_entries m i ?es = m" by (simp add: set_id_entries_def id_entries_def)
    ultimately show thesis
      using null map_okD(6) [OF ok]
      by (intro reserved [of m])
         (auto simp: wl_map_reserve_new_def Let_def own_id_def lookup_def2)
  qed
qed


definition clears_entry :: "wl_map \<Rightarrow> u32 \<Rightarrow> wl_map \<Rightarrow> bool" where
  "clears_entry m i m' \<longleftrightarrow> map_ok m' \<and> side m' = side m \<and>
     id_view m' = (id_view m)(i := (0, 0)) \<and> id_live m' = (id_live m)(i := False)"

lemma free_code_link [simp]: "free_code (k # ks) = push_bit 1 (of_nat k) OR 1"
  by (simp add: free_code_def)

lemma ucast_even_free: "map_entry_is_free (ucast (free_code ks)) \<longleftrightarrow> ks \<noteq> []"
proof (cases ks)
  case (Cons k ks')
  then show ?thesis using free_code_bit0 [of k ks'] by (simp add: entry_free_bit bit_simps del: free_code_link)
qed simp

lemma remove_spec:
  assumes ok: "map_ok m" and live: "id_live m i" and own: "own_id m i"
  obtains m' where "wl_map_remove m i = (Inr (), m')" "clears_entry m i m'"
    "free_ids m' = id_index i # free_ids m" "own_entries m' \<noteq> []"
proof -
  note okD = map_okD [OF ok]
  let ?k = "id_index i"
  let ?es = "(own_entries m)[?k := ucast (free_list m)]"
  let ?fl = "free_code (?k # free_ids m)"
  let ?m = "with_own m ?es ?fl"
  have k: "?k < length (own_entries m)" "?k \<notin> set (free_ids m)"
    using live own by (auto simp: id_live_def id_entries_own ok)
  have ch: "chained ?es (?k # free_ids m)"
    using okD(4,5) k by (simp add: chained_update)
  have I: "map_ok ?m \<and> free_ids ?m = ?k # free_ids m"
    by (intro conjI with_own_ok [OF ok _ _ ch])
       (use okD k in \<open>auto simp: nth_list_update\<close>)
  have run: "wl_map_remove m i = (Inr (), ?m)"
    using own k(1) okD(6)
    by (auto simp: wl_map_remove_def Let_def own_id_def id_entries_def own_entries_def with_own_def
        set_id_entries_def)
  have v: "id_view ?m i = (0, 0)"
    using own k okD(4)
    by (cases "free_ids m")
       (simp_all add: id_view_def lookup_def2 lookup_flags_def2 id_entries_with_own ucast_even_free
         del: free_code_link)
  have l: "\<not> id_live ?m i" using own I by (auto simp: id_live_def)
  have "id_view ?m j = id_view m j \<and> id_live ?m j = id_live m j" if "j \<noteq> i" for j
  proof (cases "own_id m j")
    case True
    with own that have n: "id_index j \<noteq> ?k" using own_id_inj by blast
    from True ok have e: "id_entries ?m j = ?es" "id_entries m j = own_entries m"
      by (simp_all add: id_entries_with_own id_entries_own)
    have "id_view ?m j = id_view m j"
      by (rule id_view_same_entry) (use e n in auto)
    with e n I show ?thesis by (auto simp: id_live_def)
  next
    case False
    then have e: "id_entries ?m j = id_entries m j" by (simp add: id_entries_with_own)
    then have "id_view ?m j = id_view m j" by (intro id_view_same_entry) simp
    with False e show ?thesis by (simp add: id_live_def)
  qed
  with v l have "id_view ?m = (id_view m)(i := (0, 0))" "id_live ?m = (id_live m)(i := False)"
    by (auto simp: fun_eq_iff)
  with I have "clears_entry m i ?m" by (simp add: clears_entry_def)
  with run I k show thesis by (intro that [of ?m]) auto
qed

lemma remove_other: "map_ok m \<Longrightarrow> \<not> own_id m i \<Longrightarrow> wl_map_remove m i = (Inr (), m)"
  using map_okD(6) [of m] by (auto simp: wl_map_remove_def own_id_def)

lemma own_id_new_id: "map_ok m \<Longrightarrow> own_id m i \<Longrightarrow> id_index i < max_entries \<Longrightarrow> new_id m (id_index i) = i"
  by (rule own_id_inj [where m = m]) (auto simp: new_id_own new_id_index)

lemma own_id_clears: "clears_entry m i m' \<Longrightarrow> own_id m' j = own_id m j"
  by (simp add: clears_entry_def own_id_def)

lemma insert_new_after_remove:
  assumes ok: "map_ok m" and live: "id_live m i" and own: "own_id m i" and d: "ptr_aligned d"
    and rm: "wl_map_remove m i = (r, m')"
  shows "\<exists>m''. wl_map_insert_new m' f d mem = (Inr i, m'')"
proof -
  from remove_spec [OF ok live own] rm
  have c: "clears_entry m i m'" and fs: "free_ids m' = id_index i # free_ids m"
    by (metis prod.inject)+
  have m': "map_ok m'" using c by (simp add: clears_entry_def)
  have "id_index i < max_entries"
    using live own map_okD(1) [OF ok] by (auto simp: id_live_def id_entries_own ok)
  then have "new_id m' (id_index i) = i" by (simp add: own_id_new_id m' own_id_clears [OF c] own)
  with insert_new_reuse(1) [OF m' fs d] show ?thesis by metis
qed

section \<open>Allocating ids\<close>

text \<open>\<open>n\<close> successive allocations, whatever the allocator.\<close>

fun alloc_n :: "('m \<Rightarrow> ('e + 'i) \<times> 'm) \<Rightarrow> nat \<Rightarrow> 'm \<Rightarrow> ('e + 'i) list \<times> 'm" where
  "alloc_n alloc 0 m = ([], m)"
| "alloc_n alloc (Suc n) m =
     (case alloc m of (r, m1) \<Rightarrow> case alloc_n alloc n m1 of (rs, m2) \<Rightarrow> (r # rs, m2))"

text \<open>
  The contract of an allocator of ids: as long as there is room it hands out an id that
  is not in use, and nothing else changes.
\<close>

locale id_allocator =
  fixes alloc :: "'m \<Rightarrow> ('e + 'i) \<times> 'm"
    and live :: "'m \<Rightarrow> 'i \<Rightarrow> bool"
    and room :: "'m \<Rightarrow> nat \<Rightarrow> bool"
  assumes alloc_fresh:
    "room m (Suc n) \<Longrightarrow> \<exists>i m'. alloc m = (Inr i, m') \<and> \<not> live m i \<and>
        live m' = (live m)(i := True) \<and> room m' n"
begin

lemma alloc_n_fresh:
  "room m n \<Longrightarrow> \<exists>is m'. alloc_n alloc n m = (map Inr is, m') \<and> length is = n \<and> distinct is \<and>
     (\<forall>i \<in> set is. \<not> live m i) \<and> (\<forall>i. live m' i \<longleftrightarrow> live m i \<or> i \<in> set is)"
proof (induction n arbitrary: m)
  case 0
  then show ?case by auto
next
  case (Suc n)
  from alloc_fresh [OF Suc.prems] obtain i m1
    where i: "alloc m = (Inr i, m1)" "\<not> live m i" "live m1 = (live m)(i := True)" "room m1 n"
    by blast
  from Suc.IH [OF i(4)] obtain "is" m'
    where "is": "alloc_n alloc n m1 = (map Inr is, m')" "length is = n" "distinct is"
      "\<forall>i \<in> set is. \<not> live m1 i" "\<forall>i. live m' i \<longleftrightarrow> live m1 i \<or> i \<in> set is"
    by blast
  have "i \<notin> set is" using "is"(4) i(3) by auto
  moreover have "\<forall>x \<in> set is. \<not> live m x" using "is"(4) i(3) by (metis fun_upd_apply)
  ultimately show ?case
    using i "is" by (intro exI [of _ "i # is"] exI [of _ m']) auto
qed

end

text \<open>The number of ids the map can still hand out.\<close>

definition id_room :: "wl_map \<Rightarrow> nat \<Rightarrow> bool" where
  "id_room m n \<longleftrightarrow> map_ok m \<and> length (own_entries m) - length (free_ids m) + n \<le> max_entries"

lemma free_ids_length: "map_ok m \<Longrightarrow> length (free_ids m) \<le> length (own_entries m)"
  by (rule chained_length) (auto simp: map_ok_def)

interpretation map_ids: id_allocator "\<lambda>m. wl_map_insert_new m 0 0 True" id_live id_room
proof unfold_locales
  fix m n assume room: "id_room m (Suc n)"
  then have ok: "map_ok m" by (simp add: id_room_def)
  have "free_ids m \<noteq> [] \<or> length (own_entries m) < max_entries"
    using room by (auto simp: id_room_def)
  with insert_new_spec [OF ok, of 0 0] obtain i m' where
    "wl_map_insert_new m 0 0 True = (Inr i, m')" "\<not> id_live m i" "sets_entry m i 0 0 m'"
    "length (own_entries m') - length (free_ids m') = Suc (length (own_entries m) - length (free_ids m))"
    using ptr_aligned_zero by metis
  then show "\<exists>i m'. wl_map_insert_new m 0 0 True = (Inr i, m') \<and> \<not> id_live m i \<and>
      id_live m' = (id_live m)(i := True) \<and> id_room m' n"
    using room by (auto simp: sets_entry_def id_room_def)
qed

lemma batch_alloc_n:
  "wl_get_server_object_ids_batch m (replicate n True) = alloc_n (\<lambda>m. wl_map_insert_new m 0 0 True) n m"
  by (induction n arbitrary: m) (auto split: prod.splits)

section \<open>Iteration\<close>

text \<open>The pairs a traversal reports: the non-NULL live entries.\<close>

definition live_pairs :: "u64 list \<Rightarrow> (u64 \<times> u32) list" where
  "live_pairs es = map (\<lambda>e. (map_entry_get_data e, map_entry_get_flags e))
     (filter (\<lambda>e. e \<noteq> 0 \<and> \<not> map_entry_is_free e) es)"

text \<open>Calls of the callback in a row, stopping at the first that answers STOP.\<close>

fun visit :: "(u64 \<Rightarrow> u32 \<Rightarrow> 's \<Rightarrow> bool \<times> 's) \<Rightarrow> (u64 \<times> u32) list \<Rightarrow> 's \<Rightarrow> bool \<times> 's" where
  "visit f [] s = (True, s)"
| "visit f ((d, fl) # r) s = (case f d fl s of (go, s') \<Rightarrow> if go then visit f r s' else (False, s'))"

lemma visit_append:
  "visit f (xs @ ys) s = (case visit f xs s of (go, s') \<Rightarrow> if go then visit f ys s' else (False, s'))"
  by (induction f xs s rule: visit.induct) (auto split: prod.splits)

lemma for_each_helper_visit:
  assumes "\<And>d fl s. get (snd (f d fl s)) = get s" "\<forall>k \<in> set ks. k < length (get s)"
  shows "for_each_helper get f ks s = visit f (live_pairs (map ((!) (get s)) ks)) s \<and>
    get (snd (for_each_helper get f ks s)) = get s"
  using assms(2)
proof (induction ks arbitrary: s)
  case Nil
  then show ?case by (simp add: live_pairs_def)
next
  case (Cons k ks)
  let ?e = "get s ! k"
  obtain go s' where f: "f (map_entry_get_data ?e) (map_entry_get_flags ?e) s = (go, s')" by fastforce
  have g: "get s' = get s" using assms(1) [of "map_entry_get_data ?e" "map_entry_get_flags ?e" s] f by simp
  show ?case using Cons.IH [of s] Cons.IH [of s'] Cons.prems f g by (auto simp: Let_def live_pairs_def)
qed

section \<open>Properties\<close>

text \<open>\<open>wl_map_insert_new\<close> on a well-formed map with room left returns an id of the map's
  own range that was not in use, makes exactly that id denote the given pointer and flag,
  and leaves every other id's lookup, flags and liveness as they were.\<close>

lemma wl_map_insert_new_correct:
  assumes "map_ok m" "ptr_aligned d" "free_ids m \<noteq> [] \<or> length (own_entries m) < max_entries"
  shows "\<exists>i m'. wl_map_insert_new m f d True = (Inr i, m') \<and> own_id m i \<and> \<not> id_live m i \<and>
     map_ok m' \<and>
     (\<forall>j. wl_map_lookup m' j = (if j = i then d else wl_map_lookup m j)) \<and>
     (\<forall>j. wl_map_lookup_flags m' j = (if j = i then f AND 1 else wl_map_lookup_flags m j)) \<and>
     (\<forall>j. id_live m' j \<longleftrightarrow> j = i \<or> id_live m j)"
proof -
  obtain i m' where r: "wl_map_insert_new m f d True = (Inr i, m')" "own_id m i" "\<not> id_live m i"
    "sets_entry m i d f m'"
    using insert_new_spec [OF assms, of f] by metis
  have v: "id_view m' j = (if j = i then (d, f AND 1) else id_view m j)" for j
    using r(4) by (simp add: sets_entry_def)
  have "wl_map_lookup m' j = (if j = i then d else wl_map_lookup m j)"
    "wl_map_lookup_flags m' j = (if j = i then f AND 1 else wl_map_lookup_flags m j)" for j
    using v [of j] by (auto simp: id_view_def split: if_splits)
  with r show ?thesis by (auto simp: sets_entry_def)
qed

lemma map_ok_init_server: "map_ok (wl_map_init WL_MAP_SERVER_SIDE)"
  using wl_map_init_ok by simp

lemma wl_map_insert_new_correct_witness:
  "\<exists>i m'. wl_map_insert_new (wl_map_init WL_MAP_SERVER_SIDE) 1 4096 True = (Inr i, m') \<and>
     wl_map_lookup m' i = 4096 \<and> wl_map_lookup_flags m' i = 1"
proof -
  have "ptr_aligned 4096" by (simp add: ptr_aligned_def)
  moreover have "length (own_entries (wl_map_init WL_MAP_SERVER_SIDE)) < max_entries"
    by (simp add: wl_map_init_def own_entries_def max_entries_def)
  ultimately obtain i m' where
    "wl_map_insert_new (wl_map_init WL_MAP_SERVER_SIDE) 1 4096 True = (Inr i, m')"
    "\<forall>j. wl_map_lookup m' j = (if j = i then 4096 else wl_map_lookup (wl_map_init WL_MAP_SERVER_SIDE) j)"
    "\<forall>j. wl_map_lookup_flags m' j =
       (if j = i then 1 AND 1 else wl_map_lookup_flags (wl_map_init WL_MAP_SERVER_SIDE) j)"
    using wl_map_insert_new_correct [OF map_ok_init_server, of 4096 1] by blast
  then show ?thesis by auto
qed

text \<open>C25: a batch of server ids handed out to a client worker
  (\<open>wl_get_server_object_ids_batch\<close>) consists of pairwise different ids none of which was
  in use, and afterwards exactly these ids are in use besides the old ones.\<close>

theorem server_id_batch_distinct:
  assumes "id_room m n"
  shows "\<exists>is m'. wl_get_server_object_ids_batch m (replicate n True) = (map Inr is, m') \<and>
     length is = n \<and> distinct is \<and> (\<forall>i \<in> set is. \<not> id_live m i) \<and>
     (\<forall>i. id_live m' i \<longleftrightarrow> id_live m i \<or> i \<in> set is)"
  using map_ids.alloc_n_fresh [OF assms] by (simp add: batch_alloc_n)

lemma server_id_batch_distinct_witness:
  "\<exists>is m'. wl_get_server_object_ids_batch (wl_map_init WL_MAP_SERVER_SIDE) (replicate 3 True) = (map Inr is, m') \<and>
     length is = 3 \<and> distinct is"
proof -
  have "id_room (wl_map_init WL_MAP_SERVER_SIDE) 3"
    using map_ok_init_server by (simp add: id_room_def wl_map_init_def own_entries_def max_entries_def)
  from server_id_batch_distinct [OF this] show ?thesis by blast
qed

text \<open>\<open>wl_map_remove\<close> of a used id of the own range makes its lookup NULL and changes
  no other id, and the next \<open>wl_map_insert_new\<close> hands out exactly this id again, even when
  the allocation of a larger array would fail.\<close>

lemma wl_map_remove_reuse:
  assumes "map_ok m" "own_id m i" "id_live m i" "ptr_aligned d"
  shows "\<exists>m1 m2. wl_map_remove m i = (Inr (), m1) \<and> map_ok m1 \<and>
     (\<forall>j. wl_map_lookup m1 j = (if j = i then 0 else wl_map_lookup m j)) \<and>
     (\<forall>j. id_live m1 j \<longleftrightarrow> j \<noteq> i \<and> id_live m j) \<and>
     wl_map_insert_new m1 f d mem = (Inr i, m2)"
proof -
  from remove_spec [OF assms(1,3,2)] obtain m1 where
    r: "wl_map_remove m i = (Inr (), m1)" "clears_entry m i m1" by metis
  have v: "id_view m1 j = (if j = i then (0, 0) else id_view m j)" for j
    using r(2) by (simp add: clears_entry_def)
  have l: "wl_map_lookup m1 j = (if j = i then 0 else wl_map_lookup m j)" for j
    using v [of j] by (auto simp: id_view_def split: if_splits)
  obtain m2 where n: "wl_map_insert_new m1 f d mem = (Inr i, m2)"
    using insert_new_after_remove [OF assms(1,3,2,4) r(1)] by blast
  have ok: "map_ok m1" and live: "\<forall>j. id_live m1 j \<longleftrightarrow> j \<noteq> i \<and> id_live m j"
    using r(2) by (auto simp: clears_entry_def)
  show ?thesis
    by (intro exI conjI) (fact r(1), fact ok, use l in blast, fact live, fact n)
qed

definition sample_map :: wl_map where
  "sample_map = snd (wl_get_server_object_ids_batch (wl_map_init WL_MAP_SERVER_SIDE) [True, True])"

lemma sample_map_eq:
  "sample_map = \<lparr>client_entries = [], server_entries = [0, 0], side = 0, free_list = 0\<rparr>"
  by (simp add: sample_map_def wl_map_insert_new_def wl_map_init_def WL_MAP_SERVER_SIDE_def
      WL_MAP_CLIENT_SIDE_def Let_def)

lemma sample_map_facts:
  "map_ok sample_map" "own_id sample_map 0xff000001" "id_live sample_map 0xff000001"
  "own_id sample_map 0xff000000" "id_live sample_map 0xff000000"
  by (simp_all add: sample_map_eq map_ok_def own_entries_def other_entries_def free_ids_def own_id_def
      id_live_def id_index_def id_entries_def WL_MAP_SERVER_SIDE_def WL_MAP_CLIENT_SIDE_def
      WL_SERVER_ID_START_def max_entries_def less_Suc_eq nth_Cons')

lemma wl_map_remove_reuse_witness:
  "\<exists>m1 m2. wl_map_remove sample_map 0xff000001 = (Inr (), m1) \<and>
     wl_map_insert_new m1 1 4096 False = (Inr 0xff000001, m2)"
proof -
  have "ptr_aligned 4096" by (simp add: ptr_aligned_def)
  from wl_map_remove_reuse [OF sample_map_facts(1-3) this, of 1 False] show ?thesis by blast
qed

text \<open>\<open>wl_map_reserve_new\<close> accepts an id exactly when it belongs to the peer's range and is
  either the next index or denotes a NULL entry without flag; it then makes the id denote
  NULL, and otherwise it refuses with -1 and changes nothing.\<close>

lemma wl_map_reserve_new_exact:
  assumes "map_ok m"
  shows "(case wl_map_reserve_new m i True of (r, m') \<Rightarrow>
     if \<not> own_id m i \<and> id_index i \<le> length (id_entries m i) \<and> id_view m i = (0, 0)
     then r = Inr 0 \<and> map_ok m' \<and> id_live m' i \<and> id_view m' = id_view m
     else r = Inr (- 1) \<and> m' = m)"
proof (rule reserve_new_cases [OF assms, of i])
  fix m' assume reserved: "wl_map_reserve_new m i True = (Inr 0, m')" "sets_entry m i 0 0 m'"
    "\<not> own_id m i" "wl_map_lookup m i = 0"
  have "id_view m i = (0, 0)"
  proof -
    consider "id_index i < length (id_entries m i)" | "length (id_entries m i) \<le> id_index i" by linarith
    then show ?thesis
    proof cases
      case 1
      with reserved(1) have "id_entries m i ! id_index i = 0"
        by (auto simp: wl_map_reserve_new_def Let_def split: if_splits)
      then show ?thesis by (simp add: id_view_def lookup_def2 lookup_flags_def2)
    qed (simp add: id_view_def lookup_def2 lookup_flags_def2)
  qed
  moreover have "id_index i \<le> length (id_entries m i)"
    using reserved(1) by (auto simp: wl_map_reserve_new_def Let_def split: if_splits)
  ultimately show ?thesis using reserved by (auto simp: sets_entry_def fun_eq_iff)
next
  assume "wl_map_reserve_new m i True = (Inr (- 1), m)"
    "own_id m i \<or> length (id_entries m i) < id_index i \<or> id_view m i \<noteq> (0, 0)"
  then show ?thesis by auto
qed

lemma wl_map_reserve_new_exact_witness:
  "fst (wl_map_reserve_new sample_map 0 True) = Inr 0 \<and> fst (wl_map_reserve_new sample_map 1 True) = Inr (- 1)"
  using wl_map_reserve_new_exact [OF sample_map_facts(1), of 0]
    wl_map_reserve_new_exact [OF sample_map_facts(1), of 1]
  by (auto simp: sample_map_eq own_id_def id_index_def id_entries_def id_view_def wl_map_lookup_def
      wl_map_lookup_flags_def WL_MAP_SERVER_SIDE_def WL_MAP_CLIENT_SIDE_def WL_SERVER_ID_START_def
      split: prod.splits)

text \<open>\<open>wl_map_for_each\<close> calls the function on the non-NULL live entries, in index order, the
  client side before the server side, and stops everywhere at the first call that answers
  STOP (the callback leaves the map alone).\<close>

lemma wl_map_for_each_visits:
  assumes "\<And>d fl s. mp (snd (f d fl s)) = mp s"
  shows "wl_map_for_each mp f s =
     snd (visit f (live_pairs (client_entries (mp s)) @ live_pairs (server_entries (mp s))) s)"
proof -
  have nths: "map ((!) xs) [0..<length xs] = xs" for xs :: "u64 list"
    by (simp add: map_nth)
  have c: "for_each_helper (\<lambda>s. client_entries (mp s)) f [0..<length (client_entries (mp s))] s =
      visit f (live_pairs (client_entries (mp s))) s"
    using for_each_helper_visit [of "\<lambda>s. client_entries (mp s)" f "[0..<length (client_entries (mp s))]" s]
    by (simp add: assms nths)
  have keep: "mp (snd (for_each_helper get f ks s)) = mp s" for get ks s
    using assms
  proof (induction ks arbitrary: s)
    case (Cons k ks)
    then show ?case by (auto simp: Let_def split: prod.splits) (metis snd_conv)+
  qed simp
  obtain go s' where v: "visit f (live_pairs (client_entries (mp s))) s = (go, s')" by fastforce
  have "mp s' = mp s" using keep [of "\<lambda>s. client_entries (mp s)"] c v by (metis snd_conv)
  moreover have "for_each_helper (\<lambda>s. server_entries (mp s)) f [0..<length (server_entries (mp s'))] s' =
      visit f (live_pairs (server_entries (mp s'))) s'"
    using for_each_helper_visit [of "\<lambda>s. server_entries (mp s)" f "[0..<length (server_entries (mp s'))]" s']
    by (simp add: assms nths)
  ultimately show ?thesis using c v by (simp add: wl_map_for_each_def visit_append)
qed

text \<open>A run that collects the visited pointers, as \<open>wl_client_for_each_resource\<close> does.\<close>

lemma wl_map_for_each_visits_witness:
  "snd (wl_map_for_each fst (\<lambda>d fl (m, acc). (True, (m, acc @ [d])))
     (\<lparr>client_entries = [4096, 0], server_entries = [1, 8194], side = 0, free_list = 1\<rparr>, []))
   = [4096, 8192]"
  by (subst wl_map_for_each_visits)
     (auto simp: live_pairs_def map_entry_is_free_def map_entry_get_data_def)

text \<open>\<open>wl_map_insert_at\<close> on an id that is on the free list stores the entry but leaves the id
  on the free list: the next \<open>wl_map_insert_new\<close> returns the id that has just been filled and
  overwrites its entry.\<close>

lemma wl_map_insert_at_freed_id_reissued:
  assumes "map_ok m" "own_id m i" "free_ids m = id_index i # ks" "ptr_aligned d" "ptr_aligned e"
    "wl_map_insert_at m f i d mem = (r, m1)"
  shows "r = Inr 0 \<and> wl_map_lookup m1 i = d \<and>
     (\<exists>m2. wl_map_insert_new m1 g e mem = (Inr i, m2) \<and> wl_map_lookup m2 i = e)"
proof -
  note ok = map_okD [OF assms(1)]
  have k: "id_index i < length (own_entries m)" "id_index i < 2 ^ 31" "id_index i < max_entries"
    using ok(1,5) assms(3) by (auto simp: max_entries_def)
  have es: "id_entries m i = own_entries m" by (rule id_entries_own [OF assms(1,2)])
  let ?es = "(own_entries m)[id_index i := map_entry_set d f]"
  have m1: "m1 = with_own m ?es (free_list m)" "r = Inr 0"
    using assms(2,6) k by (auto simp: wl_map_insert_at_def es Let_def set_id_entries_eq)
  have l: "wl_map_lookup m1 i = d"
    using assms(2,4) k by (simp add: m1 lookup_def2 id_entries_with_own)
  have fl: "free_list m1 = free_code (id_index i # ks)" using ok(4) assms(3) m1 by simp
  have db: "unat (drop_bit (Suc 0) (free_list m1)) = id_index i"
    unfolding fl by (rule drop_bit_free_code_Suc) (use k in simp)
  have nz: "free_list m1 \<noteq> 0" unfolding fl by (rule free_code_Cons_neq)
  have "new_id m (id_index i) = i" by (rule own_id_new_id [OF assms(1,2) k(3)])
  then have run: "wl_map_insert_new m1 g e mem =
      (Inr i, with_own m (?es[id_index i := map_entry_set e g]) (ucast (?es ! id_index i)))"
    using nz k db
    by (auto simp: wl_map_insert_new_def m1 Let_def with_own_def own_entries_def new_id_def own_base_def
        simp del: free_code_link list_update_overwrite split: if_splits)
  then show ?thesis using l m1 k assms(2,5) by (auto simp: lookup_def2 id_entries_with_own)
qed

lemma wl_map_insert_at_freed_id_reissued_witness:
  "\<exists>m1 m2 m3. wl_map_remove sample_map 0xff000001 = (Inr (), m1) \<and>
     wl_map_insert_at m1 0 0xff000001 4096 True = (Inr 0, m2) \<and>
     wl_map_insert_new m2 0 8192 True = (Inr 0xff000001, m3) \<and> wl_map_lookup m3 0xff000001 = 8192"
proof -
  obtain m1 where r: "wl_map_remove sample_map 0xff000001 = (Inr (), m1)"
    "clears_entry sample_map 0xff000001 m1" "free_ids m1 = id_index 0xff000001 # free_ids sample_map"
    using remove_spec [OF sample_map_facts(1,3,2)] by metis
  obtain r' m2 where i: "wl_map_insert_at m1 0 0xff000001 4096 True = (r', m2)" by fastforce
  have "map_ok m1" "own_id m1 0xff000001"
    using r(2) sample_map_facts by (auto simp: clears_entry_def own_id_def)
  moreover have "ptr_aligned 4096" "ptr_aligned 8192" by (simp_all add: ptr_aligned_def)
  ultimately have "r' = Inr 0 \<and> (\<exists>m3. wl_map_insert_new m2 0 8192 True = (Inr 0xff000001, m3) \<and>
      wl_map_lookup m3 0xff000001 = 8192)"
    using wl_map_insert_at_freed_id_reissued [OF _ _ r(3) _ _ i, of 8192 0] by blast
  with r(1) i show ?thesis by blast
qed

end
