(* ===== verification/Demarshal.thy ===== *)
theory Demarshal
  imports Marshal WlMap
begin

text \<open>
  Closures of connection.c on the receiving side: \<open>wl_connection_demarshal\<close>, the lookup of
  object arguments and the call of the implementation.

  The code copies the message into the closure and walks it with a word pointer \<open>p\<close> up to
  \<open>end\<close>; here the walk holds the words from \<open>p\<close> to \<open>end\<close>, so \<open>p + 1 > end\<close> is an empty list
  and \<open>end - p\<close> its length.  Every read that the guards do not stop is checked: a word read
  when no word is left, a string or array whose words lie beyond \<open>end\<close>, and a string in which
  a C reader of its pointer would find no NUL before \<open>end\<close> are \<open>UB\<close>.  A string argument is
  what such a reader sees, the bytes before the first NUL.
\<close>

section \<open>Demarshalling\<close>

record dm_state =
  dm_args :: "wl_argument list"
  dm_fds :: wl_ring_buffer
  dm_objects :: wl_map

definition set_arg :: "nat \<Rightarrow> wl_argument \<Rightarrow> dm_state \<Rightarrow> dm_state" where
  "set_arg i a st = st\<lparr>dm_args := (dm_args st)[i := a]\<rparr>"

text \<open>\<open>mem i\<close> is the outcome of the allocation that reserving the id of argument \<open>i\<close> may need.\<close>

text \<open>\<open>*p++\<close>: a word read outside the message is undefined.\<close>

definition read_word :: "u32 list \<Rightarrow> (u32 \<times> u32 list) option" where
  "read_word ws = (case ws of [] \<Rightarrow> None | v # p \<Rightarrow> Some (v, p))"

text \<open>The \<open>n\<close> bytes at \<open>p\<close> and the pointer behind their words, \<open>next\<close> in the code.\<close>

definition read_block :: "u32 \<Rightarrow> u32 list \<Rightarrow> (u8 list \<times> u32 list) option" where
  "read_block n p =
     (if length p < unat (div_roundup n 4) then None
      else Some (take (unat n) (bytes_of p), drop (unat (div_roundup n 4)) p))"

fun demarshal_loop ::
  "(nat \<Rightarrow> bool) \<Rightarrow> argument_details list \<Rightarrow> nat \<Rightarrow> u32 list \<Rightarrow> dm_state \<Rightarrow> errno option \<times> dm_state" where
  "demarshal_loop mem [] i ws st = (None, st)"
| "demarshal_loop mem (d # ds) i ws st =
     (let t = arg_type d in
      if t \<noteq> CHR ''h'' \<and> ws = [] then (Some EINVAL, st)
      else if t \<in> set ''uif'' then
        (case read_word ws of
           None \<Rightarrow> (Some UB, st)
         | Some (v, p) \<Rightarrow> demarshal_loop mem ds (Suc i) p (set_arg i (W v) st))
      else if t = CHR ''s'' then
        (case read_word ws of
           None \<Rightarrow> (Some UB, st)
         | Some (n, p) \<Rightarrow>
             if n = 0 \<and> \<not> nullable d then (Some EINVAL, st)
             else if n = 0 then demarshal_loop mem ds (Suc i) p (set_arg i (Str None) st)
             else if of_nat (length p) < div_roundup n 4 then (Some EINVAL, st)
             else (case read_block n p of
                     None \<Rightarrow> (Some UB, st)
                   | Some (s, p') \<Rightarrow>
                       if n > 0 \<and> s ! (unat n - 1) \<noteq> 0 then (Some EINVAL, st)
                       else if 0 \<notin> set (bytes_of p) then (Some UB, st)
                       else demarshal_loop mem ds (Suc i) p'
                              (set_arg i (Str (Some (takeWhile (\<lambda>b. b \<noteq> 0) (bytes_of p)))) st)))
      else if t = CHR ''o'' then
        (case read_word ws of
           None \<Rightarrow> (Some UB, st)
         | Some (v, p) \<Rightarrow>
             let st = set_arg i (W v) st in
             if v = 0 \<and> \<not> nullable d then (Some EINVAL, st)
             else demarshal_loop mem ds (Suc i) p st)
      else if t = CHR ''n'' then
        (case read_word ws of
           None \<Rightarrow> (Some UB, st)
         | Some (v, p) \<Rightarrow>
             let st = set_arg i (W v) st in
             if v = 0 \<and> \<not> nullable d then (Some EINVAL, st)
             else case wl_map_reserve_new (dm_objects st) v (mem i) of
               (Inl e, m) \<Rightarrow> (Some e, st\<lparr>dm_objects := m\<rparr>)
             | (Inr r, m) \<Rightarrow>
                 if r < 0 then (Some EINVAL, st\<lparr>dm_objects := m\<rparr>)
                 else demarshal_loop mem ds (Suc i) p (st\<lparr>dm_objects := m\<rparr>))
      else if t = CHR ''a'' then
        (case read_word ws of
           None \<Rightarrow> (Some UB, st)
         | Some (n, p) \<Rightarrow>
             if of_nat (length p) < div_roundup n 4 then (Some EINVAL, st)
             else (case read_block n p of
                     None \<Rightarrow> (Some UB, st)
                   | Some (s, p') \<Rightarrow> demarshal_loop mem ds (Suc i) p' (set_arg i (Arr (Some s)) st)))
      else if t = CHR ''h'' then
        (if tail (dm_fds st) = head (dm_fds st) then (Some EINVAL, st)
         else
           let fd = hd (words_of (ring_buffer_copy (dm_fds st) 4));
               st = st\<lparr>dm_fds := ring_buffer_consume (dm_fds st) 4\<rparr>
           in demarshal_loop mem ds (Suc i) ws (set_arg i (W fd) st))
      else (Some ABORT, st))"

text \<open>One equation per argument type.\<close>

lemma read_word_ne: "ws \<noteq> [] \<Longrightarrow> read_word ws = Some (hd ws, tl ws)"
  by (cases ws) (simp_all add: read_word_def)

lemma roundup_bound: "unat n \<le> 4 * unat (div_roundup n 4)"
  by (simp add: unat_div_roundup)

lemma short_block:
  "length p < 2 ^ 32 \<Longrightarrow> (of_nat (length p) < div_roundup n 4) = (length p < unat (div_roundup n 4))"
  by (simp add: word_less_nat_alt unat_of_nat_u32)

lemma string_last:
  assumes "n \<noteq> 0" "unat (div_roundup n 4) \<le> length p"
  shows "take (unat n) (bytes_of p) ! (unat n - 1) = bytes_of p ! (unat n - 1)"
    "unat n - 1 < length (bytes_of p)"
proof -
  have "unat n > 0" using assms(1) by (simp add: unat_gt_0)
  then show "take (unat n) (bytes_of p) ! (unat n - 1) = bytes_of p ! (unat n - 1)"
    "unat n - 1 < length (bytes_of p)"
    using assms(2) roundup_bound [of n] by simp_all
qed

lemma demarshal_short:
  "arg_type d \<noteq> CHR ''h'' \<Longrightarrow> demarshal_loop mem (d # ds) i [] st = (Some EINVAL, st)"
  by simp

lemma demarshal_word:
  "arg_type d \<in> set ''uif'' \<Longrightarrow> ws \<noteq> [] \<Longrightarrow>
   demarshal_loop mem (d # ds) i ws st =
     demarshal_loop mem ds (Suc i) (tl ws) (set_arg i (W (hd ws)) st)"
  by (auto simp: read_word_ne)

lemma demarshal_string:
  assumes "arg_type d = CHR ''s''" "ws \<noteq> []"
  shows "demarshal_loop mem (d # ds) i ws st =
     (if hd ws = 0 \<and> \<not> nullable d then (Some EINVAL, st)
      else if hd ws = 0 then demarshal_loop mem ds (Suc i) (tl ws) (set_arg i (Str None) st)
      else if of_nat (length (tl ws)) < div_roundup (hd ws) 4 then (Some EINVAL, st)
      else if length (tl ws) < unat (div_roundup (hd ws) 4) then (Some UB, st)
      else if bytes_of (tl ws) ! (unat (hd ws) - 1) \<noteq> 0 then (Some EINVAL, st)
      else demarshal_loop mem ds (Suc i) (drop (unat (div_roundup (hd ws) 4)) (tl ws))
             (set_arg i (Str (Some (takeWhile (\<lambda>b. b \<noteq> 0) (bytes_of (tl ws))))) st))"
proof (cases "hd ws = 0 \<or> length (tl ws) < unat (div_roundup (hd ws) 4)")
  case True
  with assms show ?thesis
    by (auto simp: Let_def read_word_ne read_block_def simp del: length_tl)
next
  case False
  then have "hd ws \<noteq> 0" "unat (div_roundup (hd ws) 4) \<le> length (tl ws)" by (auto simp del: length_tl)
  note l = string_last [OF this]
  show ?thesis
  proof (cases "bytes_of (tl ws) ! (unat (hd ws) - 1) = 0")
    case True
    then have "0 \<in> set (bytes_of (tl ws))" using nth_mem [OF l(2)] by simp
    with True False l(1) assms show ?thesis
      by (simp add: Let_def read_word_ne read_block_def del: length_tl One_nat_def)
  next
    case nz: False
    with False l(1) assms show ?thesis
      by (simp add: Let_def read_word_ne read_block_def word_gt_0 del: length_tl One_nat_def)
  qed
qed

lemma demarshal_object:
  "arg_type d = CHR ''o'' \<Longrightarrow> ws \<noteq> [] \<Longrightarrow>
   demarshal_loop mem (d # ds) i ws st =
     (if hd ws = 0 \<and> \<not> nullable d then (Some EINVAL, set_arg i (W (hd ws)) st)
      else demarshal_loop mem ds (Suc i) (tl ws) (set_arg i (W (hd ws)) st))"
  by (simp add: Let_def read_word_ne)

lemma demarshal_new_id:
  "arg_type d = CHR ''n'' \<Longrightarrow> ws \<noteq> [] \<Longrightarrow>
   demarshal_loop mem (d # ds) i ws st =
     (let st = set_arg i (W (hd ws)) st in
      if hd ws = 0 \<and> \<not> nullable d then (Some EINVAL, st)
      else case wl_map_reserve_new (dm_objects st) (hd ws) (mem i) of
        (Inl e, m) \<Rightarrow> (Some e, st\<lparr>dm_objects := m\<rparr>)
      | (Inr r, m) \<Rightarrow>
          if r < 0 then (Some EINVAL, st\<lparr>dm_objects := m\<rparr>)
          else demarshal_loop mem ds (Suc i) (tl ws) (st\<lparr>dm_objects := m\<rparr>))"
  by (simp add: Let_def read_word_ne)

lemma demarshal_array:
  "arg_type d = CHR ''a'' \<Longrightarrow> ws \<noteq> [] \<Longrightarrow>
   demarshal_loop mem (d # ds) i ws st =
     (if of_nat (length (tl ws)) < div_roundup (hd ws) 4 then (Some EINVAL, st)
      else if length (tl ws) < unat (div_roundup (hd ws) 4) then (Some UB, st)
      else demarshal_loop mem ds (Suc i) (drop (unat (div_roundup (hd ws) 4)) (tl ws))
             (set_arg i (Arr (Some (take (unat (hd ws)) (bytes_of (tl ws))))) st))"
  by (simp add: Let_def read_word_ne read_block_def del: length_tl)

lemma demarshal_fd:
  "arg_type d = CHR ''h'' \<Longrightarrow>
   demarshal_loop mem (d # ds) i ws st =
     (if tail (dm_fds st) = head (dm_fds st) then (Some EINVAL, st)
      else demarshal_loop mem ds (Suc i) ws
             (set_arg i (W (hd (words_of (ring_buffer_copy (dm_fds st) 4))))
               (st\<lparr>dm_fds := ring_buffer_consume (dm_fds st) 4\<rparr>)))"
  by (simp add: Let_def)

lemmas demarshal_steps =
  demarshal_short demarshal_word demarshal_string demarshal_object demarshal_new_id demarshal_array demarshal_fd

declare demarshal_loop.simps(2) [simp del]

definition wl_connection_demarshal ::
  "(nat \<Rightarrow> bool) \<Rightarrow> wl_connection \<Rightarrow> u32 \<Rightarrow> wl_map \<Rightarrow> wl_message \<Rightarrow> os \<Rightarrow>
   (errno + wl_closure) \<times> wl_connection \<times> wl_map \<times> os" where
  "wl_connection_demarshal mem conn n objects message w =
     (if unat n < 2 * 4 then (Inl EINVAL, wl_connection_consume conn (unat n), objects, w)
      else case wl_closure_init message None w of
        (Inl e, w) \<Rightarrow> (Inl e, wl_connection_consume conn (unat n), objects, w)
      | (Inr c, w) \<Rightarrow>
          let ws = words_of (wl_connection_copy conn (unat n));
              c = c\<lparr>cl_sender_id := ws ! 0, cl_opcode := ws ! 1 AND 0x0000ffff\<rparr>;
              ds = sig_args (cl_count c) (signature message);
              (eo, st) = demarshal_loop mem ds 0 (drop 2 ws)
                           \<lparr>dm_args = cl_args c, dm_fds = fds_in conn, dm_objects = objects\<rparr>;
              c = c\<lparr>cl_args := dm_args st\<rparr>;
              conn = conn\<lparr>fds_in := dm_fds st\<rparr>
          in case eo of
               None \<Rightarrow> (Inr c, wl_connection_consume conn (unat n), dm_objects st, w)
             | Some e \<Rightarrow> (Inl e, wl_connection_consume conn (unat n), dm_objects st,
                          wl_closure_destroy (Some c) w))"

section \<open>Every input\<close>

text \<open>The slot of an argument before it is received.\<close>

definition blank :: "argument_details \<Rightarrow> wl_argument" where
  "blank d = (if is_fd_arg d then W fd_none else Undef)"

text \<open>What a closure that was received holds for an argument.\<close>

definition recv_wt :: "argument_details \<Rightarrow> wl_argument \<Rightarrow> bool" where
  "recv_wt d a \<longleftrightarrow>
     (let t = arg_type d in
      if t \<in> set ''uifh'' then (\<exists>v. a = W v)
      else if t \<in> set ''on'' then (\<exists>v. a = W v \<and> (v = 0 \<longrightarrow> nullable d))
      else if t = CHR ''s'' then a = Str None \<and> nullable d \<or> (\<exists>s. a = Str (Some s) \<and> 0 \<notin> set s)
      else t = CHR ''a'' \<and> (\<exists>s. a = Arr (Some s)))"

definition recv_done ::
  "argument_details list \<Rightarrow> wl_argument list \<Rightarrow> dm_state \<Rightarrow> dm_state \<Rightarrow> errno option \<Rightarrow> bool" where
  "recv_done ds cs st st' eo \<longleftrightarrow> length cs = length ds \<and> fds_ok (dm_fds st') \<and> map_ok (dm_objects st') \<and>
     eo \<in> {None, Some EINVAL} \<and>
     (\<exists>taken. fds_list (dm_fds st) = taken @ fds_list (dm_fds st') \<and>
        open_fds (zip ds cs) = filter (\<lambda>f. f \<noteq> fd_none) taken \<and>
        (eo = None \<longrightarrow> fd_args (zip ds cs) = taken \<and> list_all2 recv_wt ds cs))"

lemma open_fds_blank [simp]: "open_fds (zip ds (map blank ds)) = []"
  by (induction ds) (auto simp: blank_def split: wl_argument.splits)

lemma recv_done_stop:
  assumes "fds_ok (dm_fds st)" "map_ok (dm_objects st')" "dm_fds st' = dm_fds st"
    "length cs = length ds" "open_fds (zip ds cs) = []"
  shows "recv_done ds cs st st' (Some EINVAL)"
  using assms by (auto simp: recv_done_def)

lemma recv_done_Cons:
  assumes "recv_done ds cs st1 st' eo" "\<not> is_fd_arg d" "recv_wt d c" "dm_fds st1 = dm_fds st"
  shows "recv_done (d # ds) (c # cs) st st' eo"
proof -
  have "open_fds (zip (d # ds) (c # cs)) = open_fds (zip ds cs)"
    "fd_args (zip (d # ds) (c # cs)) = fd_args (zip ds cs)"
    using open_fds_Cons_other [OF assms(2)] by simp_all
  with assms show ?thesis by (simp add: recv_done_def)
qed

lemma fds_take_one:
  assumes "fds_ok b" "tail b \<noteq> head b"
  obtains f fs where "fds_list b = f # fs" "hd (words_of (ring_buffer_copy b 4)) = f"
    "fds_ok (ring_buffer_consume b 4)" "fds_list (ring_buffer_consume b 4) = fs"
proof -
  have rb: "rb_ok b" using assms(1) by (simp add: fds_ok_def)
  have "rb_content b \<noteq> []" using assms(2) rb_content_Nil [of b] by auto
  then have ne: "rb_count b \<noteq> 0" by (metis length_rb_content length_0_conv)
  have "rb_count b = 4 * length (fds_list b)" by (rule rb_count_fds [OF assms(1)])
  with ne obtain f fs where l: "fds_list b = f # fs" by (cases "fds_list b") auto
  have n4: "4 \<le> rb_count b" using rb_count_fds [OF assms(1)] l by simp
  have content: "rb_content b = u32_bytes f @ bytes_of fs"
    using rb_content_bytes_of [OF assms(1)] l by simp
  have "ring_buffer_copy b 4 = u32_bytes f"
    using ring_buffer_copy_content [OF rb n4] content by simp
  then have h: "hd (words_of (ring_buffer_copy b 4)) = f"
    using words_of_u32_bytes_append [of f "[]"] by simp
  have "rb_content (ring_buffer_consume b 4) = bytes_of fs"
    using rb_content_consume [OF rb n4] content by simp
  then have "fds_list (ring_buffer_consume b 4) = fs" by (simp add: fds_list_def)
  moreover have "rb_count (ring_buffer_consume b 4) = rb_count b - 4"
    by (rule rb_count_consume [OF n4]) (use rb in \<open>simp add: rb_ok_def\<close>)
  then have "fds_ok (ring_buffer_consume b 4)"
    using rb_ok_consume [OF rb n4] assms(1) n4 by (auto simp: fds_ok_def)
  ultimately show thesis using l h by (intro that)
qed

lemma recv_done_fd:
  assumes "recv_done ds cs st1 st' eo" "is_fd_arg d" "fds_list (dm_fds st) = f # fds_list (dm_fds st1)"
  shows "recv_done (d # ds) (W f # cs) st st' eo"
proof -
  have "recv_wt d (W f)" using assms(2) by (simp add: recv_wt_def is_fd_arg_def)
  with assms show ?thesis by (auto simp: recv_done_def)
qed

lemma takeWhile_nonzero: "0 \<notin> set (takeWhile (\<lambda>b. b \<noteq> (0 :: u8)) bs)"
  by (auto dest: set_takeWhileD)

lemma reserve_new_ok:
  assumes "map_ok m" "wl_map_reserve_new m i True = (r, m')"
  obtains "r = Inr 0" "map_ok m'" | "r = Inr (- 1)" "map_ok m'"
  using reserve_new_cases [OF assms(1), of i] assms by (metis prod.inject sets_entry_def)

lemma demarshal_loop_safe:
  "fds_ok (dm_fds st) \<Longrightarrow> map_ok (dm_objects st) \<Longrightarrow> length ws < 2 ^ 32 \<Longrightarrow>
   (\<And>d. d \<in> set ds \<Longrightarrow> is_arg_type (arg_type d)) \<Longrightarrow>
   dm_args st = c0 @ map blank ds \<Longrightarrow>
   demarshal_loop (\<lambda>_. True) ds (length c0) ws st = (eo, st') \<Longrightarrow>
   \<exists>cs. dm_args st' = c0 @ cs \<and> recv_done ds cs st st' eo"
proof (induction ds arbitrary: c0 ws st eo st')
  case Nil
  then show ?case by (auto simp: recv_done_def)
next
  case (Cons d ds)
  have len: "length ws < 2 ^ 32" by (rule Cons.prems(3))
  note fo = Cons.prems(1) and mo = Cons.prems(2) and run = Cons.prems(6)
  have dm: "dm_args (set_arg (length c0) a st) = (c0 @ [a]) @ map blank ds" for a
    using Cons.prems(5) by (simp add: set_arg_def)
  have stop: ?case if "eo = Some EINVAL" "st' = st" 
  proof -
    have "recv_done (d # ds) (map blank (d # ds)) st st' eo"
      unfolding that by (rule recv_done_stop) (use fo mo in \<open>simp_all only: length_map open_fds_blank\<close>)
    with that Cons.prems(5) show ?case by auto
  qed
  have go: ?case
    if nf: "\<not> is_fd_arg d" "recv_wt d a" and st1: "dm_args st1 = (c0 @ [a]) @ map blank ds"
      "dm_fds st1 = dm_fds st" "map_ok (dm_objects st1)"
      and l: "demarshal_loop (\<lambda>_. True) ds (Suc (length c0)) ws1 st1 = (eo, st')" "length ws1 \<le> length ws" for a st1 ws1
  proof -
    have "demarshal_loop (\<lambda>_. True) ds (length (c0 @ [a])) ws1 st1 = (eo, st')" using l by simp
    from Cons.IH [OF _ st1(3) _ _ st1(1) this] fo st1 l(2) len Cons.prems(4) obtain cs where
      "dm_args st' = (c0 @ [a]) @ cs" "recv_done ds cs st1 st' eo" by auto
    with recv_done_Cons [OF _ nf st1(2)] show ?case by (intro exI [of _ "a # cs"]) simp
  qed
  have fail: ?case if "eo = Some EINVAL" "\<not> is_fd_arg d" "dm_args st' = (c0 @ [a]) @ map blank ds"
    "dm_fds st' = dm_fds st" "map_ok (dm_objects st')" for a
  proof -
    have "open_fds (zip (d # ds) (a # map blank ds)) = []"
      using open_fds_Cons_other [OF that(2)] by simp
    then have "recv_done (d # ds) (a # map blank ds) st st' eo"
      unfolding that(1) by (intro recv_done_stop) (use fo that in simp_all)
    with that(3) show ?case by auto
  qed
  have word: ?case if t: "arg_type d \<in> set ''uif''"
  proof (cases "ws = []")
    case True
    with run t show ?thesis by (intro stop) (auto simp: demarshal_steps)
  next
    case False
    have nf: "\<not> is_fd_arg d" "recv_wt d (W (hd ws))" using t by (auto simp: is_fd_arg_def recv_wt_def)
    from run have "demarshal_loop (\<lambda>_. True) ds (Suc (length c0)) (tl ws) (set_arg (length c0) (W (hd ws)) st) = (eo, st')"
      by (simp only: demarshal_word [OF t False])
    then show ?thesis
      by (intro go [OF nf dm, of "tl ws"]) (simp_all add: set_arg_def mo)
  qed
  have "is_arg_type (arg_type d)" using Cons.prems(4) by simp
  then show ?case
  proof (cases rule: arg_type_cases)
    case h: 8
    then have fd: "is_fd_arg d" by (simp add: is_fd_arg_def)
    show ?thesis
    proof (cases "tail (dm_fds st) = head (dm_fds st)")
      case True
      with run h show ?thesis by (intro stop) (auto simp: demarshal_steps)
    next
      case False
      obtain f fs where t: "fds_list (dm_fds st) = f # fs" "hd (words_of (ring_buffer_copy (dm_fds st) 4)) = f"
        "fds_ok (ring_buffer_consume (dm_fds st) 4)" "fds_list (ring_buffer_consume (dm_fds st) 4) = fs"
        using fds_take_one [OF fo False] by metis
      let ?st = "set_arg (length c0) (W f) (st\<lparr>dm_fds := ring_buffer_consume (dm_fds st) 4\<rparr>)"
      have s: "dm_args ?st = (c0 @ [W f]) @ map blank ds" "dm_fds ?st = ring_buffer_consume (dm_fds st) 4"
        "dm_objects ?st = dm_objects st"
        using Cons.prems(5) by (simp_all add: set_arg_def)
      have "demarshal_loop (\<lambda>_. True) ds (length (c0 @ [W f])) ws ?st = (eo, st')"
        using run h False t(2) by (simp add: demarshal_steps)
      from Cons.IH [OF _ _ len _ s(1) this] s t mo Cons.prems(4) obtain cs where
        "dm_args st' = (c0 @ [W f]) @ cs" "recv_done ds cs ?st st' eo" by auto
      with recv_done_fd [OF _ fd] s t show ?thesis by (intro exI [of _ "W f # cs"]) simp
    qed
  next
    case o: 5
    then have nf: "\<not> is_fd_arg d" by (simp add: is_fd_arg_def)
    show ?thesis
    proof (cases "ws = []")
      case True
      with run o show ?thesis by (intro stop) (auto simp: demarshal_steps)
    next
      case False
      show ?thesis
      proof (cases "hd ws = 0 \<and> \<not> nullable d")
        case True
        with run o False dm show ?thesis
          by (intro fail [OF _ nf, of "W (hd ws)"]) (auto simp: demarshal_steps Let_def set_arg_def mo)
      next
        case nn: False
        with run o False show ?thesis
          by (intro go [OF nf _ dm, of "W (hd ws)" "tl ws"]) (auto simp: demarshal_steps Let_def recv_wt_def set_arg_def mo)
      qed
    qed
  next
    case n: 6
    then have nf: "\<not> is_fd_arg d" by (simp add: is_fd_arg_def)
    show ?thesis
    proof (cases "ws = []")
      case True
      with run n show ?thesis by (intro stop) (auto simp: demarshal_steps)
    next
      case False
      let ?st = "set_arg (length c0) (W (hd ws)) st"
      show ?thesis
      proof (cases "hd ws = 0 \<and> \<not> nullable d")
        case True
        with run n False dm show ?thesis
          by (intro fail [OF _ nf, of "W (hd ws)"]) (auto simp: demarshal_steps Let_def set_arg_def mo)
      next
        case nn: False
        obtain r m where rs: "wl_map_reserve_new (dm_objects ?st) (hd ws) True = (r, m)" by fastforce
        have "map_ok (dm_objects ?st)" using mo by (simp add: set_arg_def)
        from this rs show ?thesis
        proof (cases rule: reserve_new_ok)
          case 1
          with run n False nn rs dm [of "W (hd ws)"] show ?thesis
            by (intro go [OF nf, of "W (hd ws)" "?st\<lparr>dm_objects := m\<rparr>" "tl ws"])
               (auto simp: demarshal_steps Let_def recv_wt_def set_arg_def)
        next
          case 2
          with run n False nn rs dm [of "W (hd ws)"] show ?thesis
            by (intro fail [OF _ nf, of "W (hd ws)"]) (auto simp: demarshal_steps Let_def set_arg_def)
        qed
      qed
    qed
  next
    case a: 7
    then have nf: "\<not> is_fd_arg d" by (simp add: is_fd_arg_def)
    show ?thesis
    proof (cases "ws = []")
      case True
      with run a show ?thesis by (intro stop) (auto simp: demarshal_steps)
    next
      case ne: False
      show ?thesis
      proof (cases "of_nat (length (tl ws)) < div_roundup (hd ws) 4")
        case True
        with run a ne show ?thesis by (intro stop) (simp_all add: demarshal_array)
      next
        case False
        moreover have "length (tl ws) < 2 ^ 32" using len by simp
        ultimately have inb: "\<not> length (tl ws) < unat (div_roundup (hd ws) 4)"
          using short_block [of "tl ws"] by simp
        with False run a ne show ?thesis
          by (intro go [OF nf _ dm, of "Arr (Some (take (unat (hd ws)) (bytes_of (tl ws))))"
                "drop (unat (div_roundup (hd ws) 4)) (tl ws)"])
             (auto simp: demarshal_array recv_wt_def set_arg_def mo)
      qed
    qed
  next
    case s: 4
    then have nf: "\<not> is_fd_arg d" by (simp add: is_fd_arg_def)
    let ?p = "tl ws" and ?n = "hd ws"
    show ?thesis
    proof (cases "ws = []")
      case True
      with run s show ?thesis by (intro stop) (auto simp: demarshal_steps)
    next
      case ne: False
      have lp: "length ?p < 2 ^ 32" using len by simp
      consider "?n = 0" "\<not> nullable d" | "?n = 0" "nullable d"
        | "?n \<noteq> 0" "of_nat (length ?p) < div_roundup ?n 4"
        | "?n \<noteq> 0" "\<not> of_nat (length ?p) < div_roundup ?n 4" by blast
      then show ?thesis
      proof cases
        case 1
        with run s ne show ?thesis by (intro stop) (auto simp: demarshal_steps Let_def)
      next
        case 2
        with run s ne show ?thesis
          by (intro go [OF nf _ dm, of "Str None" ?p]) (auto simp: demarshal_steps Let_def recv_wt_def set_arg_def mo)
      next
        case 3
        with run s ne show ?thesis by (intro stop) (auto simp: demarshal_steps Let_def)
      next
        case 4
        then have inb: "\<not> length ?p < unat (div_roundup ?n 4)" using short_block [OF lp] by simp
        show ?thesis
        proof (cases "bytes_of ?p ! (unat ?n - 1) = 0")
          case False
          with run s ne 4 inb show ?thesis by (intro stop) (auto simp: demarshal_steps Let_def word_gt_0)
        next
          case True
          with run s ne 4 inb takeWhile_nonzero show ?thesis
            by (intro go [OF nf _ dm, of "Str (Some (takeWhile (\<lambda>b. b \<noteq> 0) (bytes_of ?p)))"
                  "drop (unat (div_roundup ?n 4)) ?p"])
               (auto simp: demarshal_steps Let_def recv_wt_def set_arg_def mo)
        qed
      qed
    qed
  next
    case 1
    then show ?thesis by (intro word) simp
  next
    case 2
    then show ?thesis by (intro word) simp
  next
    case 3
    then show ?thesis by (intro word) simp
  qed
qed

section \<open>Round trip\<close>

text \<open>What the receiver holds for an argument that was sent: ids for objects, and an empty
  array for a NULL one, since both have length 0 on the wire.\<close>

fun received :: "(u64 \<Rightarrow> wl_object) \<Rightarrow> argument_details \<times> wl_argument \<Rightarrow> wl_argument" where
  "received objs (d, Obj q) = W (wire_id objs q)"
| "received objs (d, Arr None) = Arr (Some [])"
| "received objs (d, a) = a"

text \<open>The nullability rules of the receiver, as rules for what is sent.\<close>

definition sendable :: "(u64 \<Rightarrow> wl_object) \<Rightarrow> argument_details \<times> wl_argument \<Rightarrow> bool" where
  "sendable objs da = (case da of (d, a) \<Rightarrow>
     arg_wt d a \<and>
     (\<not> nullable d \<longrightarrow>
        (case a of Obj q \<Rightarrow> wire_id objs q \<noteq> 0 | Str s \<Rightarrow> s \<noteq> None
         | W v \<Rightarrow> arg_type d = CHR ''n'' \<longrightarrow> v \<noteq> 0 | _ \<Rightarrow> True)))"

fun new_ids :: "(argument_details \<times> wl_argument) list \<Rightarrow> u32 list" where
  "new_ids [] = []"
| "new_ids ((d, a) # das) =
     (case a of W v \<Rightarrow> if arg_type d = CHR ''n'' then v # new_ids das else new_ids das | _ \<Rightarrow> new_ids das)"

text \<open>The receiver's map accepts the new ids of a message, one after the other.\<close>

fun reserve_all :: "wl_map \<Rightarrow> u32 list \<Rightarrow> wl_map option" where
  "reserve_all m [] = Some m"
| "reserve_all m (i # is) =
     (case wl_map_reserve_new m i True of
        (Inr r, m') \<Rightarrow> if r < 0 then None else reserve_all m' is
      | (Inl e, m') \<Rightarrow> None)"

lemma block_decode:
  assumes "block_encodes bs ws" "length bs < 2 ^ 32"
  obtains ps where "ws = of_nat (length bs) # ps" "unat (div_roundup (of_nat (length bs)) 4) = length ps"
    "take (length bs) (bytes_of (ps @ qs)) = bs" "length bs \<le> 4 * length ps"
proof -
  from assms(1) obtain ps where ps: "ws = of_nat (length bs) # ps" "length ps = block_words (length bs)"
    "take (length bs) (bytes_of ps) = bs" by (auto simp: block_encodes_def)
  have le: "length bs \<le> 4 * length ps" using ps(2) by (simp add: block_words_def)
  with ps(3) have t: "take (length bs) (bytes_of (ps @ qs)) = bs" by simp
  have "unat (div_roundup (of_nat (length bs)) 4) = length ps"
    using ps(2) assms(2) by (simp add: unat_div_roundup unat_of_nat_u32 block_words_def)
  from that [OF ps(1) this t le] show thesis .
qed

lemma takeWhile_cstring:
  "take (length s + 1) bs = s @ [0] \<Longrightarrow> 0 \<notin> set s \<Longrightarrow> takeWhile (\<lambda>b. b \<noteq> (0 :: u8)) bs = s"
proof -
  assume t: "take (length s + 1) bs = s @ [0]" and z: "0 \<notin> set s"
  have "bs = (s @ [0]) @ drop (length s + 1) bs" by (metis t append_take_drop_id)
  then have "bs = s @ 0 # drop (length s + 1) bs" by simp
  moreover have "takeWhile (\<lambda>b. b \<noteq> 0) (s @ 0 # r) = s" for r
    using z by (subst takeWhile_append2) auto
  ultimately show ?thesis by metis
qed

lemma demarshal_loop_roundtrip:
  "list_all (sendable objs) das \<Longrightarrow> args_encode objs das ws \<Longrightarrow> length ws + length extra < 2 ^ 32 \<Longrightarrow>
   fds_ok (dm_fds st) \<Longrightarrow> fds_list (dm_fds st) = fd_args das @ rest \<Longrightarrow>
   reserve_all (dm_objects st) (new_ids das) = Some m' \<Longrightarrow>
   dm_args st = c0 @ map blank (map fst das) \<Longrightarrow>
   \<exists>st'. demarshal_loop (\<lambda>_. True) (map fst das) (length c0) (ws @ extra) st = (None, st') \<and>
     dm_args st' = c0 @ map (received objs) das \<and> fds_ok (dm_fds st') \<and>
     fds_list (dm_fds st') = rest \<and> dm_objects st' = m'"
proof (induction das arbitrary: c0 ws st)
  case Nil
  then show ?case by auto
next
  case (Cons da das)
  obtain d a where da: "da = (d, a)" by fastforce
  have sd: "sendable objs (d, a)" "list_all (sendable objs) das" using Cons.prems(1) da by simp_all
  then have wt: "arg_wt d a" by (simp add: sendable_def)
  obtain ws1 ws2 where ws: "ws = ws1 @ ws2" "arg_encodes objs d a ws1" "args_encode objs das ws2"
    using Cons.prems(2) da by auto
  have len: "length (ws2 @ extra) < 2 ^ 32" using Cons.prems(3) ws(1) by simp
  have go: ?case
    if step: "demarshal_loop (\<lambda>_. True) (d # map fst das) (length c0) (ws @ extra) st =
                demarshal_loop (\<lambda>_. True) (map fst das) (Suc (length c0)) (ws2 @ extra) st1"
      and st1: "dm_args st1 = (c0 @ [received objs (d, a)]) @ map blank (map fst das)"
        "fds_ok (dm_fds st1)" "fds_list (dm_fds st1) = fd_args das @ rest"
        "reserve_all (dm_objects st1) (new_ids das) = Some m'" for st1
  proof -
    have "length ws2 + length extra < 2 ^ 32" using len by simp
    from Cons.IH [OF sd(2) ws(3) this st1(2,3,4,1)] obtain st' where
      "demarshal_loop (\<lambda>_. True) (map fst das) (length (c0 @ [received objs (d, a)])) (ws2 @ extra) st1 = (None, st')"
      "dm_args st' = (c0 @ [received objs (d, a)]) @ map (received objs) das" "fds_ok (dm_fds st')"
      "fds_list (dm_fds st') = rest" "dm_objects st' = m'" by blast
    with step da show ?case by (intro exI [of _ st']) simp
  qed
  have same: ?case
    if step: "demarshal_loop (\<lambda>_. True) (d # map fst das) (length c0) (ws @ extra) st =
                demarshal_loop (\<lambda>_. True) (map fst das) (Suc (length c0)) (ws2 @ extra)
                  (set_arg (length c0) (received objs (d, a)) st)"
      and nf: "fd_args (da # das) = fd_args das" "new_ids (da # das) = new_ids das"
    using step
  proof (rule go)
    show "dm_args (set_arg (length c0) (received objs (d, a)) st) =
        (c0 @ [received objs (d, a)]) @ map blank (map fst das)"
      using Cons.prems(7) da by (simp add: set_arg_def)
  qed (use Cons.prems nf in \<open>simp_all add: set_arg_def\<close>)
  from wt show ?case
  proof (cases rule: arg_wt_cases)
    case (word v)
    then have nf: "\<not> is_fd_arg d" by (auto simp: is_fd_arg_def)
    then have w1: "ws1 = [v]" using ws(2) word by simp
    show ?thesis
    proof (cases "arg_type d = CHR ''n''")
      case False
      then have t: "arg_type d \<in> set ''uif''" using word(1) by simp
      from word nf False da w1 ws(1) show ?thesis
        by (intro same) (simp_all add: demarshal_word [OF t])
    next
      case True
      have nn: "\<not> (v = 0 \<and> \<not> nullable d)" using sd(1) True word(2) by (auto simp: sendable_def)
      have ra: "reserve_all (dm_objects st) (v # new_ids das) = Some m'"
        using Cons.prems(6) da word(2) True by simp
      then obtain r m where rs: "wl_map_reserve_new (dm_objects st) v True = (Inr r, m)" "\<not> r < 0"
        "reserve_all m (new_ids das) = Some m'"
        by (auto split: prod.splits sum.splits if_splits)
      let ?st = "(set_arg (length c0) (W v) st)\<lparr>dm_objects := m\<rparr>"
      show ?thesis
      proof (rule go [of ?st])
        show "demarshal_loop (\<lambda>_. True) (d # map fst das) (length c0) (ws @ extra) st =
            demarshal_loop (\<lambda>_. True) (map fst das) (Suc (length c0)) (ws2 @ extra) ?st"
          using w1 ws(1) nn rs(1,2) by (auto simp: demarshal_new_id [OF True] set_arg_def Let_def)
      qed (use Cons.prems da word nf rs(3) in \<open>simp_all add: set_arg_def\<close>)
    qed
  next
    case (fd f)
    then have h: "is_fd_arg d" by (simp add: is_fd_arg_def)
    then have w1: "ws1 = []" using ws(2) fd by simp
    have fl: "fds_list (dm_fds st) = f # (fd_args das @ rest)" using Cons.prems(5) da fd h by simp
    then have "rb_content (dm_fds st) \<noteq> []"
      by (auto simp: fds_list_def)
    then have ne: "tail (dm_fds st) \<noteq> head (dm_fds st)" using rb_content_Nil [of "dm_fds st"] by auto
    obtain g gs where t: "fds_list (dm_fds st) = g # gs" "hd (words_of (ring_buffer_copy (dm_fds st) 4)) = g"
      "fds_ok (ring_buffer_consume (dm_fds st) 4)" "fds_list (ring_buffer_consume (dm_fds st) 4) = gs"
      using fds_take_one [OF Cons.prems(4) ne] by metis
    then have g: "g = f" "gs = fd_args das @ rest" using fl by simp_all
    let ?st = "set_arg (length c0) (W f) (st\<lparr>dm_fds := ring_buffer_consume (dm_fds st) 4\<rparr>)"
    have nn: "new_ids (da # das) = new_ids das" using da fd by simp
    show ?thesis
    proof (rule go [of ?st])
      show "demarshal_loop (\<lambda>_. True) (d # map fst das) (length c0) (ws @ extra) st =
          demarshal_loop (\<lambda>_. True) (map fst das) (Suc (length c0)) (ws2 @ extra) ?st"
        using w1 ws(1) ne t(2) g by (simp add: demarshal_fd [OF fd(1)])
    qed (use Cons.prems da fd t g nn in \<open>simp_all add: set_arg_def\<close>)
  next
    case (obj q)
    then have nf: "\<not> is_fd_arg d" by (auto simp: is_fd_arg_def)
    have nn: "\<not> (wire_id objs q = 0 \<and> \<not> nullable d)" using sd(1) obj by (auto simp: sendable_def)
    have w1: "ws1 = [wire_id objs q]" using ws(2) obj by simp
    show ?thesis
      using da obj w1 ws(1) nn by (intro same) (auto simp: demarshal_object [OF obj(1)])
  next
    case null_str
    then have "nullable d" using sd(1) by (auto simp: sendable_def)
    moreover have "ws1 = [0]" using ws(2) null_str by simp
    ultimately show ?thesis
      using da null_str ws(1) by (intro same) (simp_all add: demarshal_string [OF null_str(1)])
  next
    case null_arr
    then have "ws1 = [0]" using ws(2) by simp
    moreover have "div_roundup 0 4 = 0" by (simp add: div_roundup_def)
    ultimately show ?thesis
      using da null_arr ws(1) by (intro same) (simp_all add: demarshal_array [OF null_arr(1)])
  next
    case (str s)
    have be: "block_encodes (s @ [0]) ws1" using ws(2) str by simp
    have "length (s @ [0]) < 2 ^ 32" using str(4) by simp
    then obtain ps where ps: "ws1 = of_nat (length (s @ [0])) # ps"
      "unat (div_roundup (of_nat (length (s @ [0]))) 4) = length ps"
      "take (length (s @ [0])) (bytes_of (ps @ (ws2 @ extra))) = s @ [0]" "length (s @ [0]) \<le> 4 * length ps"
      using block_decode [OF be, of "ws2 @ extra"] by metis
    let ?n = "of_nat (length (s @ [0])) :: u32" and ?p = "ps @ ws2 @ extra"
    have un: "unat ?n = length s + 1" using str(4) unat_of_nat_u32 [of "length (s @ [0])"] by simp
    then have nz: "?n \<noteq> 0" by auto
    have lp: "length ?p < 2 ^ 32" using Cons.prems(3) ws(1) ps(1) by simp
    have fit: "\<not> of_nat (length ?p) < div_roundup ?n 4" unfolding short_block [OF lp] ps(2) by simp
    have inb: "\<not> length ?p < unat (div_roundup ?n 4)" unfolding ps(2) by simp
    have "bytes_of ?p ! length s = take (length (s @ [0])) (bytes_of ?p) ! length s"
      by (rule nth_take [symmetric]) simp
    then have "bytes_of ?p ! length s = (s @ [0]) ! length s" by (simp only: ps(3))
    then have nul: "bytes_of ?p ! (unat ?n - 1) = 0" using un by simp
    have tw: "takeWhile (\<lambda>b. b \<noteq> 0) (bytes_of ?p) = s"
      using ps(3) str(3) by (intro takeWhile_cstring) simp_all
    have "demarshal_loop (\<lambda>_. True) (d # map fst das) (length c0) (?n # ?p) st =
        demarshal_loop (\<lambda>_. True) (map fst das) (Suc (length c0)) (drop (unat (div_roundup ?n 4)) ?p)
          (set_arg (length c0) (Str (Some (takeWhile (\<lambda>b. b \<noteq> 0) (bytes_of ?p)))) st)"
      using nz fit inb nul by (simp only: demarshal_string [OF str(1)] list.sel list.distinct simp_thms if_False not_False_eq_True)
    then have "demarshal_loop (\<lambda>_. True) (d # map fst das) (length c0) (ws @ extra) st =
        demarshal_loop (\<lambda>_. True) (map fst das) (Suc (length c0)) (ws2 @ extra)
          (set_arg (length c0) (Str (Some s)) st)"
      unfolding ps(2) tw ws(1) ps(1) by simp
    then show ?thesis using da str by (intro same) simp_all
  next
    case (arr s)
    have be: "block_encodes s ws1" using ws(2) arr by simp
    obtain ps where ps: "ws1 = of_nat (length s) # ps"
      "unat (div_roundup (of_nat (length s)) 4) = length ps"
      "take (length s) (bytes_of (ps @ (ws2 @ extra))) = s" "length s \<le> 4 * length ps"
      using block_decode [OF be arr(3), of "ws2 @ extra"] by metis
    let ?n = "of_nat (length s) :: u32" and ?p = "ps @ ws2 @ extra"
    have un: "unat ?n = length s" using arr(3) by (rule unat_of_nat_u32)
    have lp: "length ?p < 2 ^ 32" using Cons.prems(3) ws(1) ps(1) by simp
    have fit: "\<not> of_nat (length ?p) < div_roundup ?n 4" unfolding short_block [OF lp] ps(2) by simp
    have inb: "\<not> length ?p < unat (div_roundup ?n 4)" unfolding ps(2) by simp
    have "demarshal_loop (\<lambda>_. True) (d # map fst das) (length c0) (?n # ?p) st =
        demarshal_loop (\<lambda>_. True) (map fst das) (Suc (length c0)) (drop (unat (div_roundup ?n 4)) ?p)
          (set_arg (length c0) (Arr (Some (take (unat ?n) (bytes_of ?p)))) st)"
      using fit inb by (simp only: demarshal_array [OF arr(1)] list.sel list.distinct simp_thms if_False not_False_eq_True)
    then have "demarshal_loop (\<lambda>_. True) (d # map fst das) (length c0) (ws @ extra) st =
        demarshal_loop (\<lambda>_. True) (map fst das) (Suc (length c0)) (ws2 @ extra)
          (set_arg (length c0) (Arr (Some s)) st)"
      unfolding ps(2) un ps(3) ws(1) ps(1) by simp
    then show ?thesis using da arr by (intro same) simp_all
  qed
qed

section \<open>The whole operation\<close>

lemma wl_closure_init_recv:
  assumes "wl_closure_init m None w = (r, w')"
  obtains (error) e where "r = Inl e" "e \<in> {EINVAL, ENOMEM}" "closed w' = closed w"
      "WL_CLOSURE_MAX_ARGS < arg_count_for_signature (signature m) \<or> \<not> fst (sys_malloc w)"
  | (ok) c where "r = Inr c" "closed w' = closed w" "cl_message c = m"
      "cl_count c = arg_count_for_signature (signature m)" "cl_args c = map blank (message_args m)"
proof -
  let ?n = "arg_count_for_signature (signature m)"
  obtain mok w1 where ml: "sys_malloc w = (mok, w1)" by fastforce
  then have w1: "closed w1 = closed w" by (auto simp: sys_malloc_def split: list.splits)
  show thesis
  proof (cases "?n > WL_CLOSURE_MAX_ARGS \<or> \<not> mok")
    case True
    with assms ml w1 show thesis
      by (auto simp: wl_closure_init_def Let_def split: if_splits intro: error)
  next
    case False
    have "map (\<lambda>(d, a). if is_fd_arg d then W fd_none else a) (zip (message_args m) (replicate ?n Undef)) =
        map blank (message_args m)"
      by (intro nth_equalityI) (simp_all add: blank_def)
    with assms False ml w1 show thesis
      by (intro ok [of "wl_closure_clear_fds \<lparr>cl_count = ?n, cl_message = m, cl_opcode = 0,
              cl_sender_id = 0, cl_args = replicate ?n Undef\<rparr>"])
         (auto simp: wl_closure_init_def Let_def wl_closure_clear_fds_def closure_args_def message_args_def)
  qed
qed

lemma connection_consume_spec:
  assumes "conn_ok conn" "n \<le> rb_count (in_buf conn)"
  shows "conn_ok (wl_connection_consume conn n)"
    "rb_content (in_buf (wl_connection_consume conn n)) = drop n (rb_content (in_buf conn))"
    "fds_in (wl_connection_consume conn n) = fds_in conn"
    "out_buf (wl_connection_consume conn n) = out_buf conn"
    "fds_out (wl_connection_consume conn n) = fds_out conn"
proof -
  have rb: "rb_ok (in_buf conn)" using assms(1) by (simp add: conn_ok_def)
  show "rb_content (in_buf (wl_connection_consume conn n)) = drop n (rb_content (in_buf conn))"
    by (simp add: wl_connection_consume_def rb_content_consume [OF rb assms(2)])
  show "conn_ok (wl_connection_consume conn n)"
    using assms rb_ok_consume [OF rb assms(2)] by (simp add: conn_ok_def wl_connection_consume_def)
qed (simp_all add: wl_connection_consume_def)

lemma message_words:
  assumes "conn_ok conn" "unat n \<le> rb_count (in_buf conn)"
  shows "words_of (wl_connection_copy conn (unat n)) = words_of (take (unat n) (rb_content (in_buf conn)))"
    "length (words_of (wl_connection_copy conn (unat n))) = unat n div 4"
  using assms ring_buffer_copy_content [of "in_buf conn" "unat n"]
  by (simp_all add: wl_connection_copy_def conn_ok_def)

text \<open>The shape of a call that gets past the header.\<close>

lemma wl_connection_demarshal_run:
  assumes "\<not> unat n < 8" "wl_closure_init m None w = (Inr c, w0)" "cl_count c = arg_count_for_signature (signature m)"
    and "demarshal_loop mem (message_args m) 0 (drop 2 (words_of (wl_connection_copy conn (unat n))))
           \<lparr>dm_args = cl_args c, dm_fds = fds_in conn, dm_objects = objects\<rparr> = (eo, st)"
  defines "c' \<equiv> c\<lparr>cl_sender_id := words_of (wl_connection_copy conn (unat n)) ! 0,
                 cl_opcode := words_of (wl_connection_copy conn (unat n)) ! 1 AND 0x0000ffff,
                 cl_args := dm_args st\<rparr>"
    and "conn' \<equiv> wl_connection_consume (conn\<lparr>fds_in := dm_fds st\<rparr>) (unat n)"
  shows "wl_connection_demarshal mem conn n objects m w =
    (case eo of None \<Rightarrow> (Inr c', conn', dm_objects st, w0)
     | Some e \<Rightarrow> (Inl e, conn', dm_objects st, wl_closure_destroy (Some c') w0))"
  using assms(1-4) unfolding c'_def conn'_def
  by (simp add: wl_connection_demarshal_def Let_def flip: message_args_def split: option.split)

lemma header_word_opcode: "header_word n op AND 0xffff = op AND 0xffff"
proof (rule bit_word_eqI)
  fix k assume "k < LENGTH(32)"
  have m: "(0xffff :: u32) = mask 16" by (simp add: mask_eq_exp_minus_1)
  show "bit (header_word n op AND 0xffff) k = bit (op AND 0xffff) k"
    unfolding header_word_def m by (auto simp: bit_simps)
qed

lemma conn_ok_fds_in: "conn_ok conn \<Longrightarrow> fds_ok b \<Longrightarrow> conn_ok (conn\<lparr>fds_in := b\<rparr>)"
  by (simp add: conn_ok_def)

section \<open>Properties\<close>

text \<open>C2: \<open>wl_connection_demarshal\<close> is safe on every input, whatever a client sent: it never
  reads outside the message, no string it returns runs on past its end (both are \<open>UB\<close> in the
  model, and not among the results) and it never reaches an abort; it takes exactly the message off
  the input and keeps the connection and the id map well-formed; it succeeds with a
  closure typed as its signature says that owns the descriptors it took, in order, or
  fails with EINVAL or ENOMEM and closes all of them.\<close>

theorem wl_connection_demarshal_safe:
  assumes "conn_ok conn" "unat n \<le> rb_count (in_buf conn)" "map_ok objects"
    "wl_connection_demarshal (\<lambda>_. True) conn n objects m w = (r, conn', objects', w')"
  shows "conn_ok conn' \<and> map_ok objects' \<and>
    rb_content (in_buf conn') = drop (unat n) (rb_content (in_buf conn)) \<and>
    (\<exists>taken. fds_list (fds_in conn) = taken @ fds_list (fds_in conn') \<and>
      (case r of
         Inl e \<Rightarrow> e \<in> {EINVAL, ENOMEM} \<and> closed w' = closed w @ filter (\<lambda>f. f \<noteq> fd_none) taken
       | Inr c \<Rightarrow> cl_message c = m \<and> list_all2 recv_wt (message_args m) (cl_args c) \<and>
                  fd_args (all_closure_args c) = taken \<and> closed w' = closed w))"
proof (cases "unat n < 8")
  case True
  with assms(3,4) connection_consume_spec [OF assms(1,2)] show ?thesis
    by (auto simp: wl_connection_demarshal_def)
next
  case False
  obtain r0 w0 where i: "wl_closure_init m None w = (r0, w0)" by fastforce
  show ?thesis
  proof (rule wl_closure_init_recv [OF i])
    fix e assume "r0 = Inl e" "e \<in> {EINVAL, ENOMEM}" "closed w0 = closed w"
    with assms(3,4) i False connection_consume_spec [OF assms(1,2)] show ?thesis
      by (auto simp: wl_connection_demarshal_def)
  next
    fix c assume c: "r0 = Inr c" "closed w0 = closed w" "cl_message c = m"
      "cl_count c = arg_count_for_signature (signature m)" "cl_args c = map blank (message_args m)"
    let ?ws = "words_of (wl_connection_copy conn (unat n))"
    let ?st = "\<lparr>dm_args = cl_args c, dm_fds = fds_in conn, dm_objects = objects\<rparr>"
    obtain eo st where l: "demarshal_loop (\<lambda>_. True) (message_args m) 0 (drop 2 ?ws) ?st = (eo, st)" by fastforce
    have len: "length (drop 2 ?ws) < 2 ^ 32"
      using message_words(2) [OF assms(1,2)] unat_u32_bound [of n] by simp
    have "fds_ok (dm_fds ?st)" "map_ok (dm_objects ?st)" "dm_args ?st = [] @ map blank (message_args m)"
      "demarshal_loop (\<lambda>_. True) (message_args m) (length []) (drop 2 ?ws) ?st = (eo, st)"
      using assms(1,3) c(5) l by (simp_all add: conn_ok_def)
    from demarshal_loop_safe [OF this(1,2) len message_args_types this(3,4)]
    have rd: "recv_done (message_args m) (dm_args st) ?st st eo" by simp
    then obtain taken where rd2: "fds_list (fds_in conn) = taken @ fds_list (dm_fds st)"
      "open_fds (zip (message_args m) (dm_args st)) = filter (\<lambda>f. f \<noteq> fd_none) taken"
      "eo = None \<longrightarrow> fd_args (zip (message_args m) (dm_args st)) = taken \<and> list_all2 recv_wt (message_args m) (dm_args st)"
      "fds_ok (dm_fds st)" "map_ok (dm_objects st)" "eo \<in> {None, Some EINVAL}"
      by (auto simp: recv_done_def)
    let ?conn = "conn\<lparr>fds_in := dm_fds st\<rparr>"
    have co: "conn_ok ?conn" by (rule conn_ok_fds_in [OF assms(1) rd2(4)])
    have ib: "unat n \<le> rb_count (in_buf ?conn)" using assms(2) by simp
    note run = wl_connection_demarshal_run [OF False, of m w c w0 "\<lambda>_. True" conn objects eo st]
    from run i c(1,4) l assms(4) rd2 connection_consume_spec [OF co ib] c(2,3) show ?thesis
      by (cases eo) (auto simp: wl_closure_destroy_def wl_closure_close_fds_def close_arg_fds_eq
          sys_close_all_eq closure_args_def all_closure_args_def simp flip: message_args_def)
  qed
qed

text \<open>C1: a message survives the trip: when \<open>wl_closure_send\<close> succeeds on a fresh connection
  and a peer has received what the socket and the buffers then hold, with anything behind
  it, the peer's \<open>wl_connection_demarshal\<close> returns a closure with the same sender, opcode and
  arguments (ids in place of objects, the descriptors in order), and leaves exactly the
  rest of the input and of the descriptors.\<close>

theorem send_demarshal_roundtrip:
  assumes "conn_ok sconn" "out_stream sconn w = []" "fd_stream sconn w = []"
    "rb_count (fds_out sconn) + 4 * length (cl_args c) \<le> 4096"
    "closure_wt c" "closure_words c < 2 ^ 30" "list_all (sendable objs) (all_closure_args c)"
    "wl_closure_send objs c sconn w = (Inr u, c', sconn', w')"
    "conn_ok rconn" "rb_content (in_buf rconn) = out_stream sconn' w' @ later"
    "fds_list (fds_in rconn) = fd_stream sconn' w' @ rest"
    "cl_count c \<le> WL_CLOSURE_MAX_ARGS" "fst (sys_malloc v)"
    "reserve_all objects (new_ids (all_closure_args c)) = Some objects'"
  shows "\<exists>d rconn' v'. wl_connection_demarshal (\<lambda>_. True) rconn (of_nat (4 * closure_words c)) objects (cl_message c) v
           = (Inr d, rconn', objects', v') \<and>
     cl_sender_id d = cl_sender_id c \<and> cl_opcode d = cl_opcode c AND 0xffff \<and>
     cl_args d = map (received objs) (all_closure_args c) \<and>
     rb_content (in_buf rconn') = later \<and> fds_list (fds_in rconn') = rest"
proof -
  let ?das = "all_closure_args c" and ?k = "closure_words c" and ?m = "cl_message c"
  have "send_with (\<lambda>_. 0) wl_connection_write objs c sconn w = (Inr u, c', sconn', w')"
    using assms(8) by (simp add: wl_closure_send_def)
  from send_sink.send_with_spec [OF assms(1,4,5,6) this] assms(2,3) obtain ws where
    ws: "out_stream sconn' w' = msg_bytes c ws" "args_encode objs ?das ws" "length ws + 2 = ?k"
    and fds: "fd_stream sconn' w' = fd_args ?das" and k: "4 * ?k \<le> 4096" by auto
  let ?n = "of_nat (4 * ?k) :: u32"
  have n: "unat ?n = 4 * ?k" using k by (intro unat_of_nat_u32) simp
  have n8: "\<not> unat ?n < 8" using ws(3) unfolding n by simp
  have content: "rb_content (in_buf rconn) = msg_bytes c ws @ later" using assms(10) ws(1) by simp
  have len: "length (msg_bytes c ws) = 4 * ?k" using ws(3) by (simp add: length_msg_bytes)
  have cnt: "unat ?n \<le> rb_count (in_buf rconn)"
    using arg_cong [OF content, of length] len n by simp
  have tk: "take (unat ?n) (rb_content (in_buf rconn)) = msg_bytes c ws"
    unfolding content n using len by simp
  have words: "words_of (wl_connection_copy rconn (unat ?n)) = cl_sender_id c # header_word ?n (cl_opcode c) # ws"
    unfolding message_words(1) [OF assms(9) cnt] tk msg_bytes_def words_of_bytes_of by (rule refl)
  obtain r0 v0 where i: "wl_closure_init ?m None v = (r0, v0)" by fastforce
  have nargs: "arg_count_for_signature (signature ?m) \<le> WL_CLOSURE_MAX_ARGS"
    using assms(5,12) by (simp add: closure_wt_def)
  show ?thesis
  proof (rule wl_closure_init_recv [OF i])
    assume "WL_CLOSURE_MAX_ARGS < arg_count_for_signature (signature ?m) \<or> \<not> fst (sys_malloc v)"
    with nargs assms(13) show ?thesis by simp
  next
    fix d assume d: "r0 = Inr d" "cl_count d = arg_count_for_signature (signature ?m)"
      "cl_args d = map blank (message_args ?m)"
    have fst: "map fst ?das = message_args ?m"
      using assms(5) by (simp add: all_closure_args_def closure_wt_def map_fst_zip)
    let ?st = "\<lparr>dm_args = cl_args d, dm_fds = fds_in rconn, dm_objects = objects\<rparr>"
    have l0: "length ws + length ([] :: u32 list) < 2 ^ 32" using ws(3) k by simp
    have s0: "fds_ok (dm_fds ?st)" "fds_list (dm_fds ?st) = fd_args ?das @ rest"
      "reserve_all (dm_objects ?st) (new_ids ?das) = Some objects'"
      "dm_args ?st = [] @ map blank (map fst ?das)"
      using assms(9,11,14) fds d(3) fst by (simp_all add: conn_ok_def)
    from demarshal_loop_roundtrip [OF assms(7) ws(2) l0 s0] obtain st where
      st: "demarshal_loop (\<lambda>_. True) (message_args ?m) 0 ws ?st = (None, st)"
        "dm_args st = map (received objs) ?das" "fds_ok (dm_fds st)" "fds_list (dm_fds st) = rest"
        "dm_objects st = objects'"
      by (auto simp: fst)
    have loop: "demarshal_loop (\<lambda>_. True) (message_args ?m) 0
        (drop 2 (words_of (wl_connection_copy rconn (unat ?n)))) ?st = (None, st)"
      unfolding words using st(1) by simp
    let ?rc = "rconn\<lparr>fds_in := dm_fds st\<rparr>"
    have rc: "conn_ok ?rc" "unat ?n \<le> rb_count (in_buf ?rc)"
      using conn_ok_fds_in [OF assms(9) st(3)] cnt by simp_all
    note cs = connection_consume_spec [OF rc]
    have op: "header_word ?n (cl_opcode c) AND 0xffff = cl_opcode c AND 0xffff"
      by (rule header_word_opcode)
    have i': "wl_closure_init ?m None v = (Inr d, v0)" using i d(1) by simp
    from wl_connection_demarshal_run [OF n8 i' d(2) loop] words op
    show ?thesis using cs st content len unfolding n by (simp del: of_nat_mult)
  qed
qed

text \<open>A concrete trip: a new id, a string and a descriptor.\<close>

definition trip_message :: wl_message where
  "trip_message = \<lparr>msg_name = ''m'', signature = ''nsh'', types = [0, 0, 0]\<rparr>"

definition trip_closure :: wl_closure where
  "trip_closure = \<lparr>cl_count = 3, cl_message = trip_message, cl_opcode = 2, cl_sender_id = 3,
                   cl_args = [W 1, Str (Some [104, 105]), W 12]\<rparr>"

definition trip_map :: wl_map where
  "trip_map = \<lparr>client_entries = [0], server_entries = [], side = 0, free_list = 0\<rparr>"

abbreviation trip_objs :: "u64 \<Rightarrow> wl_object" where
  "trip_objs \<equiv> \<lambda>_. \<lparr>interface = 0, implementation = 0, object_id = 0\<rparr>"

lemma trip_args:
  "message_args trip_message = [\<lparr>arg_type = CHR ''n'', nullable = False\<rparr>,
     \<lparr>arg_type = CHR ''s'', nullable = False\<rparr>, \<lparr>arg_type = CHR ''h'', nullable = False\<rparr>]"
  "arg_count_for_signature (signature trip_message) = 3"
  by (simp_all add: trip_message_def message_args_def get_next_argument_def is_arg_type_def)

lemma trip_facts:
  "cl_message trip_closure = trip_message" "cl_count trip_closure = 3"
  "length (cl_args trip_closure) = 3"
  "all_closure_args trip_closure = zip (message_args trip_message) [W 1, Str (Some [104, 105]), W 12]"
  "closure_words trip_closure = 5" "closure_wt trip_closure"
  "list_all (sendable trip_objs) (all_closure_args trip_closure)"
  "new_ids (all_closure_args trip_closure) = [1]"
  by (simp_all add: trip_closure_def all_closure_args_def closure_words_def closure_wt_def trip_args
      block_words_def is_fd_arg_def arg_wt_def sendable_def)

lemma trip_map_reserve:
  "reserve_all trip_map [1] = Some \<lparr>client_entries = [0, 0], server_entries = [], side = 0, free_list = 0\<rparr>"
  by (simp add: trip_map_def wl_map_reserve_new_def WL_SERVER_ID_START_def WL_MAP_CLIENT_SIDE_def
      WL_MAP_SERVER_SIDE_def id_entries_def id_index_def set_id_entries_def Let_def)

lemma trip_send:
  obtains c' conn' w' where
    "wl_closure_send trip_objs trip_closure sample_conn os_init = (Inr (), c', conn', w')"
proof -
  obtain b where b: "ring_buffer_put rb_init (u32_bytes 12) = Inr b"
    using ring_buffer_put_ok [of rb_init "u32_bytes 12"] by auto
  let ?conn = "sample_conn\<lparr>fds_out := b\<rparr>"
  have pf: "wl_connection_put_fd sample_conn 12 os_init = (Inr (), ?conn, os_init)"
    using b by (simp add: wl_connection_put_fd_def unat_ring_buffer_size MAX_FDS_OUT_def)
  have cp: "copy_fds_to_connection trip_closure sample_conn os_init = (Inr (), cleared trip_closure, ?conn, os_init)"
    using pf by (simp add: copy_fds_to_connection_def trip_facts trip_args is_fd_arg_def cleared_def clear_fd_def)
       (simp add: trip_closure_def)
  note cf = cleared_facts [OF trip_facts(6)]
  have bs: "buffer_size_for_closure (cleared trip_closure) = Inr 5"
    using buffer_size_for_closure_spec [OF cf(1)] by (simp add: cf trip_facts)
  have lb: "closure_words (cleared trip_closure) \<le> 5" "length (map (\<lambda>_. 0) [0..<20] :: u8 list) = 4 * 5"
    by (simp_all add: cf trip_facts)
  obtain buf ws where s: "serialize_closure trip_objs (cleared trip_closure) (map (\<lambda>_. 0) [0..<20]) 5 =
      Inr (sint (of_nat (4 * closure_words (cleared trip_closure)) :: u32), buf)" "length buf = 20"
    using serialize_closure_spec [OF cf(1) lb, of trip_objs] unfolding lb(2) by auto
  have n: "sint (of_nat (4 * closure_words (cleared trip_closure)) :: u32) = 20" by (simp add: cf trip_facts)
  have "length (take 20 buf) \<le> 4096" by simp
  then obtain b2 where b2: "ring_buffer_put rb_init (take 20 buf) = Inr b2"
    using ring_buffer_put_ok [of rb_init "take 20 buf"] by auto
  have ob: "head rb_init = tail rb_init" by (simp add: rb_init_def)
  have wr: "wl_connection_write ?conn (take 20 buf) os_init =
      (Inr (), ?conn\<lparr>out_buf := b2, want_flush := True\<rparr>, os_init)"
    using b2 ob by (simp add: wl_connection_write_def flush_if_full_def rb_capacity_def)
  have m: "sys_malloc os_init = (True, os_init)" by (simp add: sys_malloc_def os_init_def)
  have "wl_closure_send trip_objs trip_closure sample_conn os_init =
      (Inr (), cleared trip_closure, ?conn\<lparr>out_buf := b2, want_flush := True\<rparr>, os_init)"
    using cp bs m s(1) n wr by (simp add: wl_closure_send_def send_with_def)
  then show thesis by (rule that)
qed

lemma send_demarshal_roundtrip_witness:
  "\<exists>rconn d rconn' objects' v'.
     wl_connection_demarshal (\<lambda>_. True) rconn 20 trip_map trip_message os_init = (Inr d, rconn', objects', v') \<and>
     cl_args d = [W 1, Str (Some [104, 105]), W 12]"
proof -
  obtain c' sconn' w' where snd: "wl_closure_send trip_objs trip_closure sample_conn os_init = (Inr (), c', sconn', w')"
    by (rule trip_send)
  have e: "out_stream sample_conn os_init = []" "fd_stream sample_conn os_init = []"
    by (simp_all add: out_stream_def fd_stream_def os_init_def)
  have room: "rb_count (fds_out sample_conn) + 4 * length (cl_args trip_closure) \<le> 4096"
    by (simp add: trip_facts)
  have k: "closure_words trip_closure < 2 ^ 30" "cl_count trip_closure \<le> WL_CLOSURE_MAX_ARGS"
    by (simp_all add: trip_facts WL_CLOSURE_MAX_ARGS_def)
  have "send_with (\<lambda>_. 0) wl_connection_write trip_objs trip_closure sample_conn os_init = (Inr (), c', sconn', w')"
    using snd by (simp add: wl_closure_send_def)
  from send_sink.send_with_spec [OF sample_conn_ok room trip_facts(6) k(1) this] e
  have s: "length (out_stream sconn' w') = 20" "fd_stream sconn' w' = [12]"
    by (auto simp: trip_facts length_msg_bytes trip_args is_fd_arg_def)
  obtain ib where ib: "rb_ok ib" "rb_content ib = out_stream sconn' w'"
    using ring_buffer_put_ok [of rb_init "out_stream sconn' w'"] s(1) by auto
  obtain fb where fb: "fds_ok fb" "fds_list fb = [12]"
    using fds_put [of rb_init 12] by (auto simp: fds_ok_def)
  let ?r = "sample_conn\<lparr>in_buf := ib, fds_in := fb\<rparr>"
  have r: "conn_ok ?r" "rb_content (in_buf ?r) = out_stream sconn' w' @ []" "fds_list (fds_in ?r) = fd_stream sconn' w' @ []"
    using ib fb s sample_conn_ok unfolding conn_ok_def by simp_all
  have m: "fst (sys_malloc os_init)" by (simp add: sys_malloc_def os_init_def)
  have ra: "reserve_all trip_map (new_ids (all_closure_args trip_closure)) =
      Some \<lparr>client_entries = [0, 0], server_entries = [], side = 0, free_list = 0\<rparr>"
    unfolding trip_facts(8) by (rule trip_map_reserve)
  from send_demarshal_roundtrip [OF sample_conn_ok e room trip_facts(6) k(1) trip_facts(7) snd r k(2) m ra]
  obtain d rconn' v' where d: "wl_connection_demarshal (\<lambda>_. True) ?r (of_nat (4 * closure_words trip_closure)) trip_map
      (cl_message trip_closure) os_init = (Inr d, rconn', \<lparr>client_entries = [0, 0], server_entries = [], side = 0, free_list = 0\<rparr>, v')"
    "cl_args d = map (received trip_objs) (all_closure_args trip_closure)" by blast
  have "wl_connection_demarshal (\<lambda>_. True) ?r 20 trip_map trip_message os_init =
      (Inr d, rconn', \<lparr>client_entries = [0, 0], server_entries = [], side = 0, free_list = 0\<rparr>, v')"
    using d(1) by (simp add: trip_facts)
  moreover have "cl_args d = [W 1, Str (Some [104, 105]), W 12]"
    using d(2) by (simp add: trip_facts trip_args)
  ultimately show ?thesis by blast
qed

lemma wl_connection_demarshal_safe_witness:
  "\<exists>conn r conn' objects' w'.
     wl_connection_demarshal (\<lambda>_. True) conn 12 trip_map trip_message os_init = (r, conn', objects', w') \<and>
     conn_ok conn' \<and> rb_content (in_buf conn') = [] \<and> (\<exists>e. r = Inl e \<or> closed w' = [])"
proof -
  obtain ib where ib: "rb_ok ib" "rb_content ib = replicate 12 255"
    using ring_buffer_put_ok [of rb_init "replicate 12 255"] by auto
  let ?c = "sample_conn\<lparr>in_buf := ib\<rparr>"
  have c: "conn_ok ?c" using ib sample_conn_ok unfolding conn_ok_def by simp
  have n: "unat (12 :: u32) \<le> rb_count (in_buf ?c)" using arg_cong [OF ib(2), of length] by simp
  have m: "map_ok trip_map"
    by (simp add: trip_map_def map_ok_def own_entries_def other_entries_def free_ids_def
        WL_MAP_SERVER_SIDE_def WL_MAP_CLIENT_SIDE_def max_entries_def)
  obtain r conn' objects' w' where
    d: "wl_connection_demarshal (\<lambda>_. True) ?c 12 trip_map trip_message os_init = (r, conn', objects', w')"
    by (metis surj_pair)
  from wl_connection_demarshal_safe [OF c n m d] ib(2) d show ?thesis
    by (intro exI [of _ ?c] exI [of _ r] exI [of _ conn'] exI [of _ objects'] exI [of _ w'])
       (auto simp: os_init_def split: sum.splits)
qed

end
