(* ===== verification/Invoke.thy ===== *)
theory Invoke
  imports Demarshal "HOL-Library.Signed_Division"
begin

text \<open>
  What connection.c does with a received closure: resolving its object arguments in the id
  map, calling the implementation through libffi, and printing it for the debug log.  The
  implementation called by libffi is not under src/; the model of the call is what is handed
  to \<open>ffi_call\<close>, the function, the types and the union members read.
\<close>

section \<open>Object arguments\<close>

definition WL_MAP_ENTRY_ZOMBIE :: u32 where "WL_MAP_ENTRY_ZOMBIE = 1"

definition wl_object_is_zombie :: "wl_map \<Rightarrow> u32 \<Rightarrow> bool" where
  "wl_object_is_zombie m i =
     (if side m = WL_MAP_SERVER_SIDE then False
      else if i \<ge> WL_SERVER_ID_START then False
      else wl_map_lookup_flags m i AND WL_MAP_ENTRY_ZOMBIE \<noteq> 0)"

fun lookup_loop ::
  "(u64 \<Rightarrow> wl_interface) \<Rightarrow> (u64 \<Rightarrow> wl_object) \<Rightarrow> wl_map \<Rightarrow> (argument_details \<times> u64) list \<Rightarrow> nat \<Rightarrow>
   wl_argument list \<Rightarrow> (errno + unit) \<times> wl_argument list" where
  "lookup_loop ifaces objs m [] i cargs = (Inr (), cargs)"
| "lookup_loop ifaces objs m ((d, ty) # dts) i cargs =
     (if arg_type d \<noteq> CHR ''o'' then lookup_loop ifaces objs m dts (Suc i) cargs
      else case cargs ! i of
        W n \<Rightarrow>
          let cargs = cargs[i := Obj 0];
              obj = wl_map_lookup m n;
              zombie = wl_object_is_zombie m n;
              obj' = (if zombie then 0 else obj)
          in if \<not> zombie \<and> obj = 0 \<and> n \<noteq> 0 then (Inl EINVAL, cargs)
             else if obj' \<noteq> 0 \<and> ty \<noteq> 0 \<and> \<not> wl_interface_equal ifaces (interface (objs obj')) ty
             then (Inl EINVAL, cargs)
             else lookup_loop ifaces objs m dts (Suc i) (cargs[i := Obj obj'])
      | _ \<Rightarrow> (Inl UB, cargs))"

definition wl_closure_lookup_objects ::
  "(u64 \<Rightarrow> wl_interface) \<Rightarrow> (u64 \<Rightarrow> wl_object) \<Rightarrow> wl_map \<Rightarrow> wl_closure \<Rightarrow> (errno + unit) \<times> wl_closure" where
  "wl_closure_lookup_objects ifaces objs m c =
     (case lookup_loop ifaces objs m (zip (message_args (cl_message c)) (types (cl_message c))) 0 (cl_args c) of
        (r, cargs) \<Rightarrow> (r, c\<lparr>cl_args := cargs\<rparr>))"

section \<open>The call\<close>

definition WL_CLOSURE_INVOKE_CLIENT :: u32 where "WL_CLOSURE_INVOKE_CLIENT = 1"
definition WL_CLOSURE_INVOKE_SERVER :: u32 where "WL_CLOSURE_INVOKE_SERVER = 2"

datatype ffi_type = FFI_SINT32 | FFI_UINT32 | FFI_POINTER

text \<open>The members of \<open>union wl_argument\<close>.\<close>

datatype arg_member = M_i | M_u | M_f | M_s | M_o | M_n | M_a | M_h

fun convert_arguments_to_ffi ::
  "argument_details list \<Rightarrow> u32 \<Rightarrow> errno + (ffi_type \<times> arg_member) list" where
  "convert_arguments_to_ffi [] flags = Inr []"
| "convert_arguments_to_ffi (d # ds) flags =
     (let t = arg_type d;
          add = (\<lambda>x. case convert_arguments_to_ffi ds flags of Inl e \<Rightarrow> Inl e | Inr xs \<Rightarrow> Inr (x # xs))
      in if t = CHR ''i'' then add (FFI_SINT32, M_i)
         else if t = CHR ''u'' then add (FFI_UINT32, M_u)
         else if t = CHR ''f'' then add (FFI_SINT32, M_f)
         else if t = CHR ''s'' then add (FFI_POINTER, M_s)
         else if t = CHR ''o'' then add (FFI_POINTER, M_o)
         else if t = CHR ''n'' then
           (if flags AND WL_CLOSURE_INVOKE_CLIENT \<noteq> 0 then add (FFI_POINTER, M_o) else add (FFI_UINT32, M_n))
         else if t = CHR ''a'' then add (FFI_POINTER, M_a)
         else if t = CHR ''h'' then add (FFI_SINT32, M_h)
         else Inl ABORT)"

record ffi_call =
  fn :: u64
  call_data :: u64
  call_target :: u64
  call_args :: "(ffi_type \<times> arg_member) list"

text \<open>\<open>impl\<close> is the array of function pointers of the target's implementation.\<close>

definition wl_closure_invoke ::
  "(u32 \<Rightarrow> u64) \<Rightarrow> wl_closure \<Rightarrow> u32 \<Rightarrow> u64 \<Rightarrow> u32 \<Rightarrow> u64 \<Rightarrow> errno + (ffi_call \<times> wl_closure)" where
  "wl_closure_invoke impl c flags target opcode data =
     (case convert_arguments_to_ffi (message_args (cl_message c)) flags of
        Inl e \<Rightarrow> Inl e
      | Inr xs \<Rightarrow>
          if impl opcode = 0 then Inl ABORT
          else Inr (\<lparr>fn = impl opcode, call_data = data, call_target = target, call_args = xs\<rparr>,
                    wl_closure_clear_fds c))"

text \<open>\<open>wl_closure_dispatch\<close>: the dispatcher is an argument and may change the state.\<close>

definition wl_closure_dispatch ::
  "(u64 \<Rightarrow> u32 \<Rightarrow> wl_message \<Rightarrow> wl_argument list \<Rightarrow> 's \<Rightarrow> 's) \<Rightarrow> wl_closure \<Rightarrow> u64 \<Rightarrow> u32 \<Rightarrow> 's \<Rightarrow>
   wl_closure \<times> 's" where
  "wl_closure_dispatch dispatcher c target opcode s =
     (wl_closure_clear_fds c, dispatcher target opcode (cl_message c) (cl_args c) s)"

section \<open>Printing\<close>

datatype print_item =
    P_uint u32
  | P_int int
  | P_fixed bool int int      \<comment> \<open>a minus sign, the integer part, eight decimals\<close>
  | P_string "u8 list"
  | P_nil
  | P_object string u32
  | P_new_id "string option" u32
  | P_array nat
  | P_fd int

definition print_fixed :: "u32 \<Rightarrow> print_item" where
  "print_fixed v =
     (let f = sint v in
      if f \<ge> 0 then P_fixed False (f sdiv 256) (390625 * (f smod 256))
      else P_fixed True (f sdiv - 256) (- 390625 * (f smod 256)))"

fun print_arg ::
  "(u64 \<Rightarrow> wl_interface) \<Rightarrow> (u64 \<Rightarrow> wl_object) \<Rightarrow> (wl_argument \<Rightarrow> u32) option \<Rightarrow> u64 \<Rightarrow>
   argument_details \<Rightarrow> wl_argument \<Rightarrow> errno + print_item" where
  "print_arg ifaces objs n_parse ty d a =
     (let t = arg_type d in
      if t = CHR ''u'' then (case a of W v \<Rightarrow> Inr (P_uint v) | _ \<Rightarrow> Inl UB)
      else if t = CHR ''i'' then (case a of W v \<Rightarrow> Inr (P_int (sint v)) | _ \<Rightarrow> Inl UB)
      else if t = CHR ''f'' then (case a of W v \<Rightarrow> Inr (print_fixed v) | _ \<Rightarrow> Inl UB)
      else if t = CHR ''s'' then
        (case a of Str (Some s) \<Rightarrow> Inr (P_string s) | Str None \<Rightarrow> Inr P_nil | _ \<Rightarrow> Inl UB)
      else if t = CHR ''o'' then
        (case a of Obj q \<Rightarrow>
           Inr (if q \<noteq> 0 then P_object (iface_name (ifaces (interface (objs q)))) (object_id (objs q)) else P_nil)
         | _ \<Rightarrow> Inl UB)
      else if t = CHR ''n'' then
        (case (n_parse, a) of
           (Some f, _) \<Rightarrow> Inr (P_new_id (if ty \<noteq> 0 then Some (iface_name (ifaces ty)) else None) (f a))
         | (None, W v) \<Rightarrow> Inr (P_new_id (if ty \<noteq> 0 then Some (iface_name (ifaces ty)) else None) v)
         | _ \<Rightarrow> Inl UB)
      else if t = CHR ''a'' then (case a of Arr (Some s) \<Rightarrow> Inr (P_array (length s)) | _ \<Rightarrow> Inl UB)
      else (case a of W v \<Rightarrow> Inr (P_fd (sint v)) | _ \<Rightarrow> Inl UB))"

fun print_args ::
  "(u64 \<Rightarrow> wl_interface) \<Rightarrow> (u64 \<Rightarrow> wl_object) \<Rightarrow> (wl_argument \<Rightarrow> u32) option \<Rightarrow>
   (u64 \<times> argument_details \<times> wl_argument) list \<Rightarrow> errno + print_item list" where
  "print_args ifaces objs n_parse [] = Inr []"
| "print_args ifaces objs n_parse ((ty, d, a) # r) =
     (case print_arg ifaces objs n_parse ty d a of
        Inl e \<Rightarrow> Inl e
      | Inr p \<Rightarrow> (case print_args ifaces objs n_parse r of Inl e \<Rightarrow> Inl e | Inr ps \<Rightarrow> Inr (p # ps)))"

record printed =
  pr_ms :: u32
  pr_us :: u32
  pr_discarded :: bool
  pr_send :: bool
  pr_interface :: string
  pr_id :: u32
  pr_message :: string
  pr_args :: "print_item list"

text \<open>\<open>sec\<close> and \<open>nsec\<close> are the real-time clock.\<close>

definition wl_closure_print ::
  "(u64 \<Rightarrow> wl_interface) \<Rightarrow> (u64 \<Rightarrow> wl_object) \<Rightarrow> int \<Rightarrow> int \<Rightarrow> wl_closure \<Rightarrow> u64 \<Rightarrow> bool \<Rightarrow> bool \<Rightarrow>
   (wl_argument \<Rightarrow> u32) option \<Rightarrow> errno + printed" where
  "wl_closure_print ifaces objs sec nsec c target send discarded n_parse =
     (let time = (of_int (sec * 1000000 + nsec sdiv 1000) :: u32) in
      case print_args ifaces objs n_parse (zip (types (cl_message c)) (closure_args c)) of
        Inl e \<Rightarrow> Inl e
      | Inr ps \<Rightarrow>
          Inr \<lparr>pr_ms = time div 1000, pr_us = time mod 1000, pr_discarded = discarded, pr_send = send,
               pr_interface = iface_name (ifaces (interface (objs target))), pr_id = object_id (objs target),
               pr_message = msg_name (cl_message c), pr_args = ps\<rparr>)"

section \<open>Facts\<close>

lemma zombie_server [simp]: "side m = WL_MAP_SERVER_SIDE \<Longrightarrow> \<not> wl_object_is_zombie m i"
  by (simp add: wl_object_is_zombie_def)

text \<open>What a resolved object argument may be.\<close>

definition resolved ::
  "(u64 \<Rightarrow> wl_interface) \<Rightarrow> (u64 \<Rightarrow> wl_object) \<Rightarrow> wl_map \<Rightarrow> argument_details \<times> u64 \<Rightarrow> wl_argument \<Rightarrow> wl_argument \<Rightarrow> bool"
where
  "resolved ifaces objs m dt a b \<longleftrightarrow>
     (if arg_type (fst dt) \<noteq> CHR ''o'' then b = a
      else \<exists>n. a = W n \<and> b = Obj (wl_map_lookup m n) \<and>
        (n \<noteq> 0 \<longrightarrow> wl_map_lookup m n \<noteq> 0) \<and>
        (wl_map_lookup m n \<noteq> 0 \<longrightarrow> snd dt \<noteq> 0 \<longrightarrow>
           wl_interface_equal ifaces (interface (objs (wl_map_lookup m n))) (snd dt)))"

lemma lookup_loop_spec:
  "side m = WL_MAP_SERVER_SIDE \<Longrightarrow> length dts = length as \<Longrightarrow>
   list_all2 (\<lambda>dt a. arg_type (fst dt) = CHR ''o'' \<longrightarrow> (\<exists>n. a = W n)) dts as \<Longrightarrow>
   lookup_loop ifaces objs m dts (length c0) (c0 @ as) = (r, cargs) \<Longrightarrow>
   (r = Inr () \<longrightarrow> (\<exists>bs. cargs = c0 @ bs \<and> length bs = length as \<and>
      (\<forall>i < length as. resolved ifaces objs m (dts ! i) (as ! i) (bs ! i)))) \<and>
   (r = Inr () \<longleftrightarrow> (\<forall>i < length as. \<exists>b. resolved ifaces objs m (dts ! i) (as ! i) b)) \<and>
   (r \<noteq> Inr () \<longrightarrow> r = Inl EINVAL)"
proof (induction dts arbitrary: c0 as)
  case Nil
  then show ?case by auto
next
  case (Cons dt dts)
  obtain d ty where dt: "dt = (d, ty)" by fastforce
  obtain a as' where as: "as = a # as'" using Cons.prems(2) by (cases as) auto
  have p: "length dts = length as'"
    "list_all2 (\<lambda>dt a. arg_type (fst dt) = CHR ''o'' \<longrightarrow> (\<exists>n. a = W n)) dts as'"
    using Cons.prems as by simp_all
  have go: ?case
    if l: "lookup_loop ifaces objs m dts (Suc (length c0)) ((c0 @ [b]) @ as') = (r, cargs)"
      and b: "resolved ifaces objs m (d, ty) a b" for b
  proof -
    have "lookup_loop ifaces objs m dts (length (c0 @ [b])) ((c0 @ [b]) @ as') = (r, cargs)" using l by simp
    note IH = Cons.IH [OF Cons.prems(1) p this]
    have all: "(\<forall>i < length as. P i) \<longleftrightarrow> P 0 \<and> (\<forall>i < length as'. P (Suc i))" for P
      by (auto simp: as less_Suc_eq_0_disj)
    show ?thesis
    proof (intro conjI impI)
      assume "r = Inr ()"
      with IH obtain bs where bs: "cargs = (c0 @ [b]) @ bs" "length bs = length as'"
        "\<forall>i < length as'. resolved ifaces objs m (dts ! i) (as' ! i) (bs ! i)" by auto
      have "\<forall>i < length as. resolved ifaces objs m ((dt # dts) ! i) (as ! i) ((b # bs) ! i)"
        unfolding all using bs(3) b dt as by simp
      with bs(1,2) as show "\<exists>bs. cargs = c0 @ bs \<and> length bs = length as \<and>
          (\<forall>i < length as. resolved ifaces objs m ((dt # dts) ! i) (as ! i) (bs ! i))"
        by (intro exI [of _ "b # bs"]) simp
    next
      show "r = Inr () \<longleftrightarrow> (\<forall>i < length as. \<exists>b. resolved ifaces objs m ((dt # dts) ! i) (as ! i) b)"
        unfolding all using IH b dt as by auto
    next
      assume "r \<noteq> Inr ()"
      with IH show "r = Inl EINVAL" by simp
    qed
  qed
  show ?case
  proof (cases "arg_type d = CHR ''o''")
    case False
    have "resolved ifaces objs m (d, ty) a a" using False by (simp add: resolved_def)
    then show ?thesis using Cons.prems(4) False dt as by (intro go) simp_all
  next
    case True
    with Cons.prems(3) dt as obtain n where a: "a = W n" by auto
    let ?o = "wl_map_lookup m n"
    note z = zombie_server [OF Cons.prems(1)]
    define bad where "bad \<longleftrightarrow> (?o = 0 \<and> n \<noteq> 0) \<or>
      (?o \<noteq> 0 \<and> ty \<noteq> 0 \<and> \<not> wl_interface_equal ifaces (interface (objs ?o)) ty)"
    have run: "lookup_loop ifaces objs m ((d, ty) # dts) (length c0) (c0 @ W n # as') =
        (if bad then (Inl EINVAL, c0 @ Obj 0 # as')
         else lookup_loop ifaces objs m dts (Suc (length c0)) (c0 @ Obj ?o # as'))"
      using True z by (auto simp: Let_def bad_def nth_append)
    show ?thesis
    proof (cases bad)
      case True
      have "\<nexists>b. resolved ifaces objs m (d, ty) a b"
        using True \<open>arg_type d = CHR ''o''\<close> a by (auto simp: resolved_def bad_def)
      moreover have "r = Inl EINVAL" using Cons.prems(4) run True dt as a by simp
      moreover have "0 < length as" using as by simp
      ultimately show ?thesis using dt as by (metis nth_Cons_0 sum.distinct(1))
    next
      case False
      have "resolved ifaces objs m (d, ty) a (Obj ?o)"
        using False \<open>arg_type d = CHR ''o''\<close> a by (auto simp: resolved_def bad_def)
      then show ?thesis using Cons.prems(4) run False dt as a by (intro go) simp_all
    qed
  qed
qed

text \<open>The union member that holds what was stored.\<close>

fun stored_in :: "wl_argument \<Rightarrow> arg_member \<Rightarrow> bool" where
  "stored_in (W v) m \<longleftrightarrow> m \<in> {M_i, M_u, M_f, M_n, M_h}"
| "stored_in (Str s) m \<longleftrightarrow> m = M_s"
| "stored_in (Obj q) m \<longleftrightarrow> m = M_o"
| "stored_in (Arr s) m \<longleftrightarrow> m = M_a"
| "stored_in Undef m \<longleftrightarrow> False"

definition invoke_wt :: "argument_details \<Rightarrow> wl_argument \<Rightarrow> bool" where
  "invoke_wt d a \<longleftrightarrow> (if arg_type d = CHR ''o'' then \<exists>q. a = Obj q else recv_wt d a)"

lemma convert_server_spec:
  "flags AND WL_CLOSURE_INVOKE_CLIENT = 0 \<Longrightarrow> (\<And>d. d \<in> set ds \<Longrightarrow> is_arg_type (arg_type d)) \<Longrightarrow>
   list_all2 invoke_wt ds as \<Longrightarrow>
   \<exists>xs. convert_arguments_to_ffi ds flags = Inr xs \<and> list_all2 (\<lambda>a x. stored_in a (snd x)) as xs"
proof (induction ds arbitrary: as)
  case (Cons d ds)
  then obtain a as' where as: "as = a # as'" "invoke_wt d a" "list_all2 invoke_wt ds as'"
    by (cases as) auto
  from Cons.IH [OF Cons.prems(1) _ as(3)] Cons.prems(2) obtain xs where
    xs: "convert_arguments_to_ffi ds flags = Inr xs" "list_all2 (\<lambda>a x. stored_in a (snd x)) as' xs" by auto
  have "is_arg_type (arg_type d)" using Cons.prems(2) by simp
  then show ?case
    using xs as Cons.prems(1)
    by (cases rule: arg_type_cases) (auto simp: invoke_wt_def recv_wt_def)
qed simp

lemma map_fst_clear:
  "length as = length ds \<Longrightarrow> map (\<lambda>(d, a). if is_fd_arg d then W fd_none else a) (zip ds as) = map clear_fd (zip ds as)"
  by (auto simp: clear_fd_def)

lemma fixed_split: "f = 256 * q + r \<Longrightarrow> (q * 10 ^ 8 + 390625 * r) * 256 = f * 10 ^ 8" for f :: int
  by simp

section \<open>Properties\<close>

text \<open>\<open>wl_closure_lookup_objects\<close> on the server accepts a received closure exactly when every
  object argument is NULL or names an object of the map whose interface is the one the
  message asks for, and then each such argument is that object and no other argument
  changed; otherwise the result is EINVAL.\<close>

lemma wl_closure_lookup_objects_exact:
  assumes "side m = WL_MAP_SERVER_SIDE" "list_all2 recv_wt (message_args (cl_message c)) (cl_args c)"
    "length (types (cl_message c)) = length (cl_args c)"
    "wl_closure_lookup_objects ifaces objs m c = (r, c')"
  defines "dts \<equiv> zip (message_args (cl_message c)) (types (cl_message c))"
  shows "(if \<forall>i < length (cl_args c). \<exists>b. resolved ifaces objs m (dts ! i) (cl_args c ! i) b
      then r = Inr () \<and> length (cl_args c') = length (cl_args c) \<and>
        (\<forall>i < length (cl_args c). resolved ifaces objs m (dts ! i) (cl_args c ! i) (cl_args c' ! i))
      else r = Inl EINVAL)"
proof -
  obtain cargs where l: "lookup_loop ifaces objs m dts 0 (cl_args c) = (r, cargs)" and c': "c' = c\<lparr>cl_args := cargs\<rparr>"
    using assms(4) by (auto simp: wl_closure_lookup_objects_def dts_def split: prod.splits)
  have len: "length (message_args (cl_message c)) = length (cl_args c)"
    using assms(2) by (rule list_all2_lengthD)
  have wt: "list_all2 (\<lambda>dt a. arg_type (fst dt) = CHR ''o'' \<longrightarrow> (\<exists>n. a = W n)) dts (cl_args c)"
  proof (rule list_all2_all_nthI)
    fix i assume "i < length dts"
    then have "recv_wt (message_args (cl_message c) ! i) (cl_args c ! i)"
      using list_all2_nthD [OF assms(2), of i] by (simp add: dts_def)
    then show "arg_type (fst (dts ! i)) = CHR ''o'' \<longrightarrow> (\<exists>n. cl_args c ! i = W n)"
      using \<open>i < length dts\<close> by (auto simp: recv_wt_def dts_def)
  qed (use len assms(3) in \<open>simp add: dts_def\<close>)
  have "length dts = length (cl_args c)" using len assms(3) by (simp add: dts_def)
  moreover have "lookup_loop ifaces objs m dts (length ([] :: wl_argument list)) ([] @ cl_args c) = (r, cargs)"
    using l by simp
  ultimately show ?thesis
    using lookup_loop_spec [OF assms(1) _ wt, of ifaces objs "[]" r cargs] by (auto simp: c')
qed

text \<open>C28: calling a received closure on the server hands libffi the function of the opcode with
  one argument per argument of the message, each read from the union member in which it was
  stored, and afterwards the closure owns no descriptor; a missing function is an abort.\<close>

theorem wl_closure_invoke_typed:
  assumes "list_all2 invoke_wt (message_args (cl_message c)) (cl_args c)"
    "cl_count c = length (cl_args c)"
  shows "(case wl_closure_invoke impl c WL_CLOSURE_INVOKE_SERVER target opcode data of
      Inl e \<Rightarrow> e = ABORT \<and> impl opcode = 0
    | Inr (call, c') \<Rightarrow>
        fn call = impl opcode \<and> impl opcode \<noteq> 0 \<and> call_data call = data \<and> call_target call = target \<and>
        list_all2 (\<lambda>a x. stored_in a (snd x)) (cl_args c) (call_args call) \<and>
        open_fds (closure_args c') = [])"
proof -
  have "WL_CLOSURE_INVOKE_SERVER AND WL_CLOSURE_INVOKE_CLIENT = 0"
    by (simp add: WL_CLOSURE_INVOKE_SERVER_def WL_CLOSURE_INVOKE_CLIENT_def)
  with convert_server_spec [OF _ _ assms(1)] message_args_types obtain xs where
    xs: "convert_arguments_to_ffi (message_args (cl_message c)) WL_CLOSURE_INVOKE_SERVER = Inr xs"
    "list_all2 (\<lambda>a x. stored_in a (snd x)) (cl_args c) xs" by blast
  have len: "length (message_args (cl_message c)) = length (cl_args c)"
    using assms(1) by (rule list_all2_lengthD)
  then have ca: "closure_args c = zip (message_args (cl_message c)) (cl_args c)"
    using assms(2) by (simp add: closure_args_def message_args_def)
  have "closure_args (wl_closure_clear_fds c) = zip (map fst (closure_args c)) (map clear_fd (closure_args c))"
  proof -
    have "cl_args (wl_closure_clear_fds c) = map clear_fd (closure_args c)"
      by (auto simp: wl_closure_clear_fds_def clear_fd_def)
    moreover have "map fst (closure_args c) = message_args (cl_message c)"
      using ca len by (simp add: map_fst_zip)
    moreover have "closure_args (wl_closure_clear_fds c) = zip (message_args (cl_message c)) (cl_args (wl_closure_clear_fds c))"
      using len assms(2) by (simp add: closure_args_def wl_closure_clear_fds_def message_args_def)
    ultimately show ?thesis by (simp only:)
  qed
  with xs show ?thesis by (simp add: wl_closure_invoke_def)
qed

lemma wl_closure_invoke_typed_witness:
  "\<exists>call c'. wl_closure_invoke (\<lambda>_. 4096) trip_closure WL_CLOSURE_INVOKE_SERVER 64 2 0 = Inr (call, c') \<and>
     fn call = 4096 \<and> open_fds (closure_args c') = []"
proof -
  have a: "list_all2 invoke_wt (message_args (cl_message trip_closure)) (cl_args trip_closure)"
    by (simp add: trip_facts trip_args) (simp add: trip_closure_def invoke_wt_def recv_wt_def)
  have b: "cl_count trip_closure = length (cl_args trip_closure)" by (simp add: trip_facts)
  from wl_closure_invoke_typed [OF a b, where impl = "\<lambda>_. 4096" and target = 64 and opcode = 2 and data = 0] show ?thesis
    by (auto split: sum.splits)
qed

lemma wl_closure_lookup_objects_exact_witness:
  "fst (wl_closure_lookup_objects (\<lambda>_. \<lparr>iface_name = ''x'', iface_version = 1, methods = [], events = []\<rparr>)
     trip_objs trip_map
     \<lparr>cl_count = 1, cl_message = \<lparr>msg_name = ''m'', signature = ''o'', types = [0]\<rparr>, cl_opcode = 0,
      cl_sender_id = 1, cl_args = [W 7]\<rparr>) = Inl EINVAL"
proof -
  let ?m = "\<lparr>msg_name = ''m'', signature = ''o'', types = [0]\<rparr>"
  let ?c = "\<lparr>cl_count = 1, cl_message = ?m, cl_opcode = 0, cl_sender_id = 1, cl_args = [W 7]\<rparr>"
  let ?i = "\<lambda>_ :: u64. \<lparr>iface_name = ''x'', iface_version = 1, methods = [], events = []\<rparr>"
  have ma: "message_args ?m = [\<lparr>arg_type = CHR ''o'', nullable = False\<rparr>]"
    by (simp add: message_args_def get_next_argument_def is_arg_type_def)
  obtain r c' where l: "wl_closure_lookup_objects ?i trip_objs trip_map ?c = (r, c')" by fastforce
  have s: "side trip_map = WL_MAP_SERVER_SIDE" by (simp add: trip_map_def WL_MAP_SERVER_SIDE_def)
  have w: "list_all2 recv_wt (message_args (cl_message ?c)) (cl_args ?c)" by (simp add: ma recv_wt_def)
  have t: "length (types (cl_message ?c)) = length (cl_args ?c)" by simp
  have z: "wl_map_lookup trip_map 7 = 0"
    by (simp add: trip_map_def wl_map_lookup_def id_entries_def id_index_def WL_SERVER_ID_START_def)
  from wl_closure_lookup_objects_exact [OF s w t l] l z show ?thesis
    by (auto simp: ma resolved_def)
qed

text \<open>The decimal expansion of a fixed-point argument in the debug log is exact: sign, integer
  part and eight decimals denote the 24.8 value with no rounding, negative values and the
  smallest one included.\<close>

lemma print_fixed_exact:
  "\<exists>neg i r. print_fixed v = P_fixed neg i r \<and> 0 \<le> i \<and> 0 \<le> r \<and> r < 10 ^ 8 \<and>
     (if neg then - 1 else 1) * (i * 10 ^ 8 + r) * 256 = sint v * 10 ^ 8 \<and> (neg \<longleftrightarrow> sint v < 0)"
proof -
  let ?f = "sint v"
  show ?thesis
  proof (cases "?f \<ge> 0")
    case True
    have d: "?f sdiv 256 = ?f div 256" "?f smod 256 = ?f mod 256"
      using True by (auto simp: signed_divide_int_def signed_modulo_int_def sgn_if)
    have "?f = 256 * (?f div 256) + ?f mod 256" by simp
    then have "(?f div 256 * 10 ^ 8 + 390625 * (?f mod 256)) * 256 = ?f * 10 ^ 8" by (rule fixed_split)
    moreover have "390625 * (?f mod 256) < 10 ^ 8" "0 \<le> ?f div 256" using True by simp_all
    moreover have "print_fixed v = P_fixed False (?f div 256) (390625 * (?f mod 256))"
      using True by (simp add: print_fixed_def d Let_def)
    ultimately show ?thesis
      using True by (intro exI [of _ False] exI [of _ "?f div 256"] exI [of _ "390625 * (?f mod 256)"] conjI) simp_all
  next
    case False
    let ?g = "- ?f"
    have d: "?f sdiv 256 = - (?g div 256)" "?f smod 256 = - (?g mod 256)"
      using False by (auto simp: signed_divide_int_def signed_modulo_int_def sgn_if)
    have "?g = 256 * (?g div 256) + ?g mod 256" by simp
    then have "(?g div 256 * 10 ^ 8 + 390625 * (?g mod 256)) * 256 = ?g * 10 ^ 8" by (rule fixed_split)
    moreover have "390625 * (?g mod 256) < 10 ^ 8" "0 \<le> ?g div 256" using False by simp_all
    moreover have "print_fixed v = P_fixed True (?g div 256) (390625 * (?g mod 256))"
      using False by (simp add: print_fixed_def d Let_def)
    ultimately show ?thesis
      using False by (intro exI [of _ True] exI [of _ "?g div 256"] exI [of _ "390625 * (?g mod 256)"] conjI) simp_all
  qed
qed

end
