(* ===== verification/HeapOrder.thy ===== *)
theory HeapOrder
  imports Prelude "HOL-Library.Multiset"
begin

text \<open>
  Heap order on arrays given as lists: restoring it by exchanging an element with its parent
  (\<open>heap_up\<close>) or with its smaller child (\<open>heap_down\<close>).  \<open>k\<close> is the key of an element.  The
  timer heap of event-loop.c, which moves a hole instead of exchanging, is shown to compute
  these functions in theory TimerHeap.
\<close>

definition hparent :: "nat \<Rightarrow> nat" where
  "hparent i = (i - 1) div 2"

definition heap_le :: "('a \<Rightarrow> 'k :: linorder) \<Rightarrow> 'a list \<Rightarrow> nat \<Rightarrow> bool" where
  "heap_le k A i \<longleftrightarrow> k (A ! hparent i) \<le> k (A ! i)"

definition is_heap :: "('a \<Rightarrow> 'k :: linorder) \<Rightarrow> 'a list \<Rightarrow> bool" where
  "is_heap k A \<longleftrightarrow> (\<forall>i. 0 < i \<longrightarrow> i < length A \<longrightarrow> heap_le k A i)"

definition exchange :: "'a list \<Rightarrow> nat \<Rightarrow> nat \<Rightarrow> 'a list" where
  "exchange A i j = A[i := A ! j, j := A ! i]"

function heap_up :: "('a \<Rightarrow> 'k :: linorder) \<Rightarrow> 'a list \<Rightarrow> nat \<Rightarrow> 'a list" where
  "heap_up k A cur =
     (if cur > 0 \<and> k (A ! cur) < k (A ! hparent cur)
      then heap_up k (exchange A cur (hparent cur)) (hparent cur) else A)"
  by pat_completeness auto
termination by (relation "measure (\<lambda>(k, A, cur). cur)") (auto simp: hparent_def)

definition least_child :: "('a \<Rightarrow> 'k :: linorder) \<Rightarrow> 'a list \<Rightarrow> nat \<Rightarrow> nat" where
  "least_child k A cur =
     (if 2 * cur + 2 < length A \<and> k (A ! (2 * cur + 2)) < k (A ! (2 * cur + 1))
      then 2 * cur + 2 else 2 * cur + 1)"

function heap_down :: "('a \<Rightarrow> 'k :: linorder) \<Rightarrow> 'a list \<Rightarrow> nat \<Rightarrow> 'a list" where
  "heap_down k A cur =
     (if 2 * cur + 1 < length A \<and> k (A ! least_child k A cur) < k (A ! cur)
      then heap_down k (exchange A cur (least_child k A cur)) (least_child k A cur) else A)"
  by pat_completeness auto
termination
  by (relation "measure (\<lambda>(k, A, cur). length A - cur)")
     (auto simp: least_child_def exchange_def split: if_splits)

declare heap_up.simps [simp del] heap_down.simps [simp del]

lemma heap_up_stop: "\<not> (cur > 0 \<and> k (A ! cur) < k (A ! hparent cur)) \<Longrightarrow> heap_up k A cur = A"
  by (subst heap_up.simps) (rule if_not_P)

lemma heap_up_step:
  "cur > 0 \<Longrightarrow> k (A ! cur) < k (A ! hparent cur) \<Longrightarrow>
   heap_up k A cur = heap_up k (exchange A cur (hparent cur)) (hparent cur)"
  by (subst heap_up.simps) simp

lemma heap_down_stop:
  "\<not> (2 * cur + 1 < length A \<and> k (A ! least_child k A cur) < k (A ! cur)) \<Longrightarrow> heap_down k A cur = A"
  by (subst heap_down.simps) (rule if_not_P)

lemma heap_down_step:
  "2 * cur + 1 < length A \<Longrightarrow> k (A ! least_child k A cur) < k (A ! cur) \<Longrightarrow>
   heap_down k A cur = heap_down k (exchange A cur (least_child k A cur)) (least_child k A cur)"
  by (subst heap_down.simps) simp

lemma length_exchange [simp, heap_simps]: "length (exchange A i j) = length A"
  by (simp add: exchange_def)

lemma nth_exchange [heap_simps]:
  "i < length A \<Longrightarrow> j < length A \<Longrightarrow> m < length A \<Longrightarrow>
   exchange A i j ! m = (if m = i then A ! j else if m = j then A ! i else A ! m)"
  by (auto simp: exchange_def nth_list_update)

lemma mset_exchange: "i < length A \<Longrightarrow> j < length A \<Longrightarrow> mset (exchange A i j) = mset A"
  by (simp add: exchange_def mset_swap)

lemma hparent_less: "0 < i \<Longrightarrow> hparent i < i"
  by (auto simp: hparent_def)

lemma hparent_child: "0 < i \<Longrightarrow> hparent i = c \<longleftrightarrow> i = 2 * c + 1 \<or> i = 2 * c + 2"
  by (auto simp: hparent_def)

lemma least_child_props:
  assumes "2 * cur + 1 < length A"
  shows "least_child k A cur < length A" "hparent (least_child k A cur) = cur" "0 < least_child k A cur"
    "cur < least_child k A cur"
    "0 < i \<Longrightarrow> i < length A \<Longrightarrow> hparent i = cur \<Longrightarrow> k (A ! least_child k A cur) \<le> k (A ! i)"
proof -
  show "least_child k A cur < length A" "hparent (least_child k A cur) = cur" "0 < least_child k A cur"
    "cur < least_child k A cur"
    using assms by (auto simp: least_child_def hparent_def)
  assume "0 < i" "i < length A" "hparent i = cur"
  then show "k (A ! least_child k A cur) \<le> k (A ! i)"
    by (auto simp: least_child_def hparent_child)
qed

lemma mset_heap_up [simp]: "cur < length A \<Longrightarrow> mset (heap_up k A cur) = mset A"
proof (induction k A cur rule: heap_up.induct)
  case (1 k A cur)
  show ?case
  proof (cases "cur > 0 \<and> k (A ! cur) < k (A ! hparent cur)")
    case True
    then have "hparent cur < length A" using 1(2) hparent_less [of cur] by simp
    with 1 True show ?thesis by (simp add: heap_up_step mset_exchange)
  qed (simp add: heap_up_stop)
qed

lemma mset_heap_down [simp]: "cur < length A \<Longrightarrow> mset (heap_down k A cur) = mset A"
proof (induction k A cur rule: heap_down.induct)
  case (1 k A cur)
  show ?case
  proof (cases "2 * cur + 1 < length A \<and> k (A ! least_child k A cur) < k (A ! cur)")
    case True
    then have "least_child k A cur < length A" by (intro least_child_props) simp
    with 1 True show ?thesis by (simp add: heap_down_step mset_exchange)
  qed (simp add: heap_down_stop)
qed

lemma length_heap_up [simp]: "cur < length A \<Longrightarrow> length (heap_up k A cur) = length A"
  by (metis mset_heap_up size_mset)

lemma length_heap_down [simp]: "cur < length A \<Longrightarrow> length (heap_down k A cur) = length A"
  by (metis mset_heap_down size_mset)

section \<open>Restoring the order\<close>

text \<open>
  The order may be broken between \<open>cur\<close> and its parent (\<open>up_inv\<close>) or between \<open>cur\<close> and its
  children (\<open>down_inv\<close>); in both cases the children of \<open>cur\<close> are above the parent of \<open>cur\<close>.
\<close>

definition bridged :: "('a \<Rightarrow> 'k :: linorder) \<Rightarrow> 'a list \<Rightarrow> nat \<Rightarrow> bool" where
  "bridged k A cur \<longleftrightarrow> (0 < cur \<longrightarrow>
     (\<forall>i < length A. 0 < i \<longrightarrow> hparent i = cur \<longrightarrow> k (A ! hparent cur) \<le> k (A ! i)))"

definition up_inv :: "('a \<Rightarrow> 'k :: linorder) \<Rightarrow> 'a list \<Rightarrow> nat \<Rightarrow> bool" where
  "up_inv k A cur \<longleftrightarrow> cur < length A \<and> bridged k A cur \<and>
     (\<forall>i < length A. 0 < i \<longrightarrow> i \<noteq> cur \<longrightarrow> heap_le k A i)"

definition down_inv :: "('a \<Rightarrow> 'k :: linorder) \<Rightarrow> 'a list \<Rightarrow> nat \<Rightarrow> bool" where
  "down_inv k A cur \<longleftrightarrow> cur < length A \<and> bridged k A cur \<and>
     (\<forall>i < length A. 0 < i \<longrightarrow> hparent i \<noteq> cur \<longrightarrow> heap_le k A i)"

lemma heap_up_heap: "up_inv k A cur \<Longrightarrow> is_heap k (heap_up k A cur)"
proof (induction k A cur rule: heap_up.induct)
  case (1 k A cur)
  note inv = 1(2) [unfolded up_inv_def]
  show ?case
  proof (cases "cur > 0 \<and> k (A ! cur) < k (A ! hparent cur)")
    case False
    then have "0 < cur \<Longrightarrow> heap_le k A cur" by (auto simp: heap_le_def)
    with inv have "is_heap k A" unfolding is_heap_def by metis
    with False show ?thesis by (simp add: heap_up_stop)
  next
    case True
    let ?p = "hparent cur" and ?B = "exchange A cur (hparent cur)"
    have p: "?p < cur" "?p < length A" "cur < length A" using True inv hparent_less [of cur] by auto
    have nth: "?B ! m = (if m = cur then A ! ?p else if m = ?p then A ! cur else A ! m)" if "m < length A" for m
      using nth_exchange [of cur A ?p m] p that by simp
    have "up_inv k ?B ?p"
      unfolding up_inv_def
    proof (intro conjI allI impI)
      show "?p < length ?B" using p by simp
      show "bridged k ?B ?p"
        unfolding bridged_def
      proof (intro impI allI)
        fix i assume a: "0 < ?p" "i < length ?B" "0 < i" "hparent i = ?p"
        have pp: "hparent ?p < ?p" "hparent ?p < length A" using hparent_less [OF a(1)] p by auto
        have "heap_le k A ?p" using inv a(1) p by auto
        then have le: "k (A ! hparent ?p) \<le> k (A ! ?p)" by (simp add: heap_le_def)
        show "k (?B ! hparent ?p) \<le> k (?B ! i)"
        proof (cases "i = cur")
          case True
          with le p pp nth show ?thesis by simp
        next
          case False
          then have "heap_le k A i" using inv a by auto
          then have "k (A ! ?p) \<le> k (A ! i)" using a(4) by (simp add: heap_le_def)
          moreover have "i \<noteq> ?p" using hparent_less [OF a(3)] a(4) by auto
          ultimately show ?thesis using False le a pp p nth by simp
        qed
      qed
    next
      fix i assume a: "i < length ?B" "0 < i" "i \<noteq> ?p"
      have pi: "hparent i < i" using hparent_less [OF a(2)] .
      show "heap_le k ?B i"
      proof (cases "i = cur")
        case True
        with \<open>cur > 0 \<and> _\<close> a p nth show ?thesis by (auto simp: heap_le_def)
      next
        case False
        then have hi: "heap_le k A i" using inv a by simp
        consider "hparent i = cur" | "hparent i = ?p" "hparent i \<noteq> cur" | "hparent i \<noteq> cur" "hparent i \<noteq> ?p" by blast
        then show ?thesis
        proof cases
          case 1
          then have "k (A ! ?p) \<le> k (A ! i)" using inv a True by (auto simp: bridged_def)
          then show ?thesis using 1 False a p nth pi by (simp add: heap_le_def)
        next
          case 2
          then have "k (A ! ?p) \<le> k (A ! i)" using hi by (simp add: heap_le_def)
          then have "k (A ! cur) \<le> k (A ! i)" using True by auto
          then show ?thesis using 2 False a p nth pi by (simp add: heap_le_def)
        next
          case 3
          then show ?thesis using hi False a p nth pi by (simp add: heap_le_def)
        qed
      qed
    qed
    with 1(1) True show ?thesis by (simp add: heap_up_step)
  qed
qed

lemma heap_down_heap: "down_inv k A cur \<Longrightarrow> is_heap k (heap_down k A cur)"
proof (induction k A cur rule: heap_down.induct)
  case (1 k A cur)
  note inv = 1(2) [unfolded down_inv_def]
  let ?c = "least_child k A cur"
  show ?case
  proof (cases "2 * cur + 1 < length A \<and> k (A ! ?c) < k (A ! cur)")
    case False
    have "heap_le k A i" if "0 < i" "i < length A" for i
    proof (cases "hparent i = cur")
      case True
      then have l: "2 * cur + 1 < length A" using that hparent_child [of i cur] by auto
      with False have "k (A ! cur) \<le> k (A ! ?c)" by auto
      moreover have "k (A ! ?c) \<le> k (A ! i)" by (rule least_child_props(5) [OF l that True])
      ultimately show ?thesis using True by (auto simp: heap_le_def)
    qed (use inv that in auto)
    then have "is_heap k A" by (simp add: is_heap_def)
    with False show ?thesis by (simp add: heap_down_stop)
  next
    case True
    then have l: "2 * cur + 1 < length A" by simp
    note c = least_child_props [OF l, where k = k]
    let ?B = "exchange A cur ?c"
    have nth: "?B ! m = (if m = cur then A ! ?c else if m = ?c then A ! cur else A ! m)" if "m < length A" for m
      using nth_exchange [of cur A ?c m] c inv that by simp
    have "down_inv k ?B ?c"
      unfolding down_inv_def
    proof (intro conjI allI impI)
      show "?c < length ?B" using c by simp
      show "bridged k ?B ?c"
        unfolding bridged_def
      proof (intro impI allI)
        fix i assume a: "i < length ?B" "0 < i" "hparent i = ?c"
        have pi: "?c < i" using hparent_less [OF a(2)] a(3) by simp
        have "heap_le k A i" using inv a c by auto
        then have "k (A ! ?c) \<le> k (A ! i)" using a(3) by (simp add: heap_le_def)
        then show "k (?B ! hparent ?c) \<le> k (?B ! i)" using a pi c nth by simp
      qed
    next
      fix i assume a: "i < length ?B" "0 < i" "hparent i \<noteq> ?c"
      have pi: "hparent i < i" using hparent_less [OF a(2)] .
      show "heap_le k ?B i"
      proof (cases "hparent i = cur")
        case True
        show ?thesis
        proof (cases "i = ?c")
          case True
          with l
          and \<open>2 * cur + 1 < length A \<and> _\<close> \<open>hparent i = cur\<close> a c nth inv show ?thesis by (auto simp: heap_le_def)
        next
          case False
          have "k (A ! ?c) \<le> k (A ! i)" using c(5) a True by simp
          then show ?thesis using True False a c nth pi by (simp add: heap_le_def)
        qed
      next
        case False
        then have hi: "heap_le k A i" using inv a by simp
        show ?thesis
        proof (cases "i = cur")
          case True
          have "0 < cur" using True a by simp
          then have "k (A ! hparent cur) \<le> k (A ! ?c)" using inv c by (auto simp: bridged_def)
          then show ?thesis using True False a c nth pi by (simp add: heap_le_def)
        next
          case ne: False
          have "i \<noteq> ?c" using False c by auto
          then show ?thesis using hi ne False a c nth pi by (simp add: heap_le_def)
        qed
      qed
    qed
    with 1(1) True show ?thesis by (simp add: heap_down_step)
  qed
qed

text \<open>On a heap neither changes anything.\<close>

lemma heap_up_id: "is_heap k A \<Longrightarrow> cur < length A \<Longrightarrow> heap_up k A cur = A"
  by (rule heap_up_stop) (auto simp: is_heap_def heap_le_def not_less)

lemma heap_root_least: "is_heap k A \<Longrightarrow> i < length A \<Longrightarrow> k (A ! 0) \<le> k (A ! i)"
proof (induction i rule: less_induct)
  case (less i)
  show ?case
  proof (cases "i = 0")
    case False
    then have "hparent i < i" by (simp add: hparent_less)
    with less have "k (A ! 0) \<le> k (A ! hparent i)" by simp
    also have "\<dots> \<le> k (A ! i)" using less.prems False by (simp add: is_heap_def heap_le_def)
    finally show ?thesis .
  qed simp
qed

lemma is_heap_take: "is_heap k A \<Longrightarrow> is_heap k (take n A)"
  by (auto simp: is_heap_def heap_le_def) (metis hparent_less less_trans nth_take)

text \<open>Moving the last element into the place of a removed one breaks the order only there.\<close>

lemma replace_by_last:
  assumes h: "is_heap k A" and len: "length A = Suc n" and i: "i < n"
  defines "B \<equiv> (take n A)[i := A ! n]"
  shows "bridged k B i" "length B = n"
    "\<And>j. j < n \<Longrightarrow> 0 < j \<Longrightarrow> j \<noteq> i \<Longrightarrow> hparent j \<noteq> i \<Longrightarrow> heap_le k B j"
proof -
  show lB: "length B = n" using len by (simp add: B_def)
  have nth: "B ! j = (if j = i then A ! n else A ! j)" if "j < n" for j
    using that len by (simp add: B_def nth_list_update)
  show "bridged k B i"
    unfolding bridged_def
  proof (intro impI allI)
    fix j assume a: "0 < i" "j < length B" "0 < j" "hparent j = i"
    have "hparent i < i" "i < j" using hparent_less a by auto
    moreover have "k (A ! hparent i) \<le> k (A ! i)" "k (A ! i) \<le> k (A ! j)"
      using h a lB len i unfolding is_heap_def heap_le_def by auto
    ultimately show "k (B ! hparent i) \<le> k (B ! j)" using nth a lB i by auto
  qed
  show "heap_le k B j" if "j < n" "0 < j" "j \<noteq> i" "hparent j \<noteq> i" for j
  proof -
    have "heap_le k A j" using h that len by (simp add: is_heap_def)
    moreover have "hparent j < n" using hparent_less [OF that(2)] that(1) by simp
    ultimately show ?thesis using that nth by (simp add: heap_le_def)
  qed
qed

text \<open>Sifting down and then up from where the element went restores the order.\<close>

lemma down_then_up:
  assumes b: "bridged k A i" "i < length A"
    "\<And>j. j < length A \<Longrightarrow> 0 < j \<Longrightarrow> j \<noteq> i \<Longrightarrow> hparent j \<noteq> i \<Longrightarrow> heap_le k A j"
  shows "(is_heap k (heap_down k A i)) \<or> (heap_down k A i = A \<and> up_inv k A i)"
proof (cases "0 < i \<and> k (A ! i) < k (A ! hparent i)")
  case True
  have child: "heap_le k A j" if "j < length A" "0 < j" "hparent j = i" for j
  proof -
    have "k (A ! hparent i) \<le> k (A ! j)" using b(1) True that by (auto simp: bridged_def)
    with True that show ?thesis by (auto simp: heap_le_def)
  qed
  then have "up_inv k A i" using b unfolding up_inv_def by blast
  moreover have "heap_down k A i = A"
  proof -
    have "\<not> (2 * i + 1 < length A \<and> k (A ! least_child k A i) < k (A ! i))"
    proof
      assume a: "2 * i + 1 < length A \<and> k (A ! least_child k A i) < k (A ! i)"
      then have l: "2 * i + 1 < length A" by simp
      have "heap_le k A (least_child k A i)"
        using least_child_props [OF l, where k = k] by (intro child) auto
      with a least_child_props(2) [OF l, where k = k] show False by (auto simp: heap_le_def)
    qed
    then show ?thesis by (rule heap_down_stop)
  qed
  ultimately show ?thesis by simp
next
  case False
  have "heap_le k A j" if "j < length A" "0 < j" "hparent j \<noteq> i" for j
  proof (cases "j = i")
    case True
    with False that show ?thesis by (auto simp: heap_le_def)
  qed (use b(3) that in auto)
  then have "down_inv k A i" using b by (simp add: down_inv_def)
  then show ?thesis using heap_down_heap by blast
qed

end
