(* ===== verification/TimerHeap.thy ===== *)
theory TimerHeap
  imports HeapOrder Os "HOL-Library.Monad_Syntax" "HOL-Library.Sublist"
begin

text \<open>
  The timer heap of wayland-server/event-loop.c.  A timer source is a record at an address
  (0 is \<open>NULL\<close>); the heap is an array of addresses, of which the first \<open>th_active\<close> are armed,
  ordered by deadline.  The array functions return an option: \<open>None\<close> is an access outside the
  array or a loop that does not return, so a \<open>Some\<close> result excludes both.
\<close>

section \<open>Times\<close>

datatype timespec = Timespec (tv_sec: int) (tv_nsec: int)

definition time_lt :: "timespec \<Rightarrow> timespec \<Rightarrow> bool" where
  "time_lt ta tb =
     (if tv_sec ta \<noteq> tv_sec tb then tv_sec ta < tv_sec tb else tv_nsec ta < tv_nsec tb)"

text \<open>\<open>time_lt\<close> is a strict linear order.\<close>

instantiation timespec :: linorder
begin

definition less_timespec :: "timespec \<Rightarrow> timespec \<Rightarrow> bool" where
  "less_timespec ta tb = time_lt ta tb"

definition less_eq_timespec :: "timespec \<Rightarrow> timespec \<Rightarrow> bool" where
  "less_eq_timespec ta tb = (\<not> time_lt tb ta)"

instance
proof
  fix a b c :: timespec
  show "(a < b) = (a \<le> b \<and> \<not> b \<le> a)" "a \<le> a"
    by (auto simp: less_timespec_def less_eq_timespec_def time_lt_def)
  show "a \<le> b \<or> b \<le> a"
    by (auto simp: less_eq_timespec_def time_lt_def split: if_splits)
  show "a \<le> b \<Longrightarrow> b \<le> c \<Longrightarrow> a \<le> c"
    by (auto simp: less_eq_timespec_def time_lt_def split: if_splits)
  show "a \<le> b \<Longrightarrow> b \<le> a \<Longrightarrow> a = b"
    by (cases a; cases b) (auto simp: less_eq_timespec_def time_lt_def split: if_splits)
qed

end

lemma time_lt_less [heap_simps]: "time_lt a b = (a < b)"
  by (simp add: less_timespec_def)

section \<open>State\<close>

type_synonym taddr = nat

record timer =
  base_fd :: int
  deadline :: timespec
  heap_idx :: int
  tm_func :: nat
  tm_data :: nat

definition TIMER_REMOVED :: int where
  "TIMER_REMOVED = - 2"

text \<open>
  \<open>th_armed\<close> is what the kernel's timerfd is set to; the results of \<open>timerfd_settime\<close> are read
  from \<open>settime_script\<close> (success when it is used up).
\<close>

record timer_heap =
  th_fd :: int
  th_data :: "taddr list"
  th_space :: nat
  th_active :: nat
  th_count :: nat
  th_tm :: "taddr \<Rightarrow> timer"
  th_armed :: "timespec option"
  settime_script :: "bool list"

definition set_tm :: "taddr \<Rightarrow> (timer \<Rightarrow> timer) \<Rightarrow> 'z timer_heap_scheme \<Rightarrow> 'z timer_heap_scheme" where
  "set_tm a f h = h\<lparr>th_tm := (th_tm h)(a := f (th_tm h a))\<rparr>"

definition timerfd_settime :: "timespec \<Rightarrow> 'z timer_heap_scheme \<Rightarrow> bool \<times> 'z timer_heap_scheme" where
  "timerfd_settime t h =
     (let armed = (if t = Timespec 0 0 then None else Some t) in
      case settime_script h of
        [] \<Rightarrow> (True, h\<lparr>th_armed := armed\<rparr>)
      | True # r \<Rightarrow> (True, h\<lparr>th_armed := armed, settime_script := r\<rparr>)
      | False # r \<Rightarrow> (False, h\<lparr>settime_script := r\<rparr>))"

definition set_timer :: "timespec \<Rightarrow> 'z timer_heap_scheme \<Rightarrow> bool \<times> 'z timer_heap_scheme" where
  "set_timer dl h = timerfd_settime dl h"

definition clear_timer :: "'z timer_heap_scheme \<Rightarrow> bool \<times> 'z timer_heap_scheme" where
  "clear_timer h = timerfd_settime (Timespec 0 0) h"

definition wl_timer_heap_init :: "'z timer_heap_scheme \<Rightarrow> 'z timer_heap_scheme" where
  "wl_timer_heap_init h =
     h\<lparr>th_fd := - 1, th_data := [], th_active := 0, th_space := 0, th_count := 0\<rparr>"

text \<open>Release closes the timerfd if there is one; the array is gone.\<close>

definition wl_timer_heap_release :: "'z timer_heap_scheme \<Rightarrow> int list \<times> 'z timer_heap_scheme" where
  "wl_timer_heap_release h = ((if th_fd h \<noteq> - 1 then [th_fd h] else []), h\<lparr>th_data := []\<rparr>)"

text \<open>
  \<open>timerfd_create\<close> returns \<open>tfd\<close> (negative: it failed) and \<open>epoll_ok\<close> tells whether \<open>epoll_ctl\<close>
  succeeded; the second result lists what is closed.
\<close>

definition wl_timer_heap_ensure_timerfd ::
  "int \<Rightarrow> bool \<Rightarrow> 'z timer_heap_scheme \<Rightarrow> bool \<times> int list \<times> 'z timer_heap_scheme" where
  "wl_timer_heap_ensure_timerfd tfd epoll_ok h =
     (if th_fd h \<noteq> - 1 then (True, [], h)
      else if tfd < 0 then (False, [], h)
      else if \<not> epoll_ok then (False, [tfd], h)
      else (True, [], h\<lparr>th_fd := tfd\<rparr>))"

text \<open>A grown array holds arbitrary values in the new part; the model puts \<open>NULL\<close> there.\<close>

definition data_realloc :: "nat \<Rightarrow> 'z timer_heap_scheme \<Rightarrow> 'z timer_heap_scheme" where
  "data_realloc n h =
     h\<lparr>th_data := take n (th_data h) @ replicate (n - length (th_data h)) 0, th_space := n\<rparr>"

definition wl_timer_heap_reserve :: "bool \<Rightarrow> 'z timer_heap_scheme \<Rightarrow> bool \<times> 'z timer_heap_scheme" where
  "wl_timer_heap_reserve alloc_ok h =
     (if th_count h + 1 > th_space h then
        let new_space = (if th_space h \<ge> 8 then th_space h * 2 else 8) in
        if \<not> alloc_ok then (False, h)
        else (True, (data_realloc new_space h)\<lparr>th_count := th_count h + 1\<rparr>)
      else (True, h\<lparr>th_count := th_count h + 1\<rparr>))"

definition wl_timer_heap_unreserve :: "bool \<Rightarrow> 'z timer_heap_scheme \<Rightarrow> 'z timer_heap_scheme" where
  "wl_timer_heap_unreserve alloc_ok h =
     (let h1 = h\<lparr>th_count := th_count h - 1\<rparr> in
      if th_space h1 \<ge> 16 \<and> th_space h1 \<ge> 4 * th_count h1 then
        if \<not> alloc_ok then h1 else data_realloc (th_space h1 div 2) h1
      else h1)"

section \<open>Moving timers in the array\<close>

definition data_at :: "'z timer_heap_scheme \<Rightarrow> int \<Rightarrow> taddr option" where
  "data_at h i = (if 0 \<le> i \<and> i < int (length (th_data h)) then Some (th_data h ! nat i) else None)"

definition data_put :: "int \<Rightarrow> taddr \<Rightarrow> 'z timer_heap_scheme \<Rightarrow> 'z timer_heap_scheme option" where
  "data_put i a h =
     (if 0 \<le> i \<and> i < int (length (th_data h))
      then Some (h\<lparr>th_data := (th_data h)[nat i := a]\<rparr>) else None)"

definition heap_set :: "taddr \<Rightarrow> int \<Rightarrow> 'z timer_heap_scheme \<Rightarrow> (int \<times> 'z timer_heap_scheme) option" where
  "heap_set a idx h = do {
     let tmp = heap_idx (th_tm h a);
     h' \<leftarrow> data_put idx a (set_tm a (\<lambda>t. t\<lparr>heap_idx := idx\<rparr>) h);
     Some (tmp, h') }"

partial_function (option) sift_down_loop ::
  "nat \<Rightarrow> timespec \<Rightarrow> int \<Rightarrow> 'z timer_heap_scheme \<Rightarrow> (int \<times> 'z timer_heap_scheme) option" where
  "sift_down_loop num_active key cursor_idx h =
     (let lchild_idx = cursor_idx * 2 + 1 in
      if lchild_idx \<ge> int num_active then Some (cursor_idx, h)
      else do {
        lchild \<leftarrow> data_at h lchild_idx;
        child \<leftarrow> (if lchild_idx + 1 < int num_active then do {
                    other_child \<leftarrow> data_at h (lchild_idx + 1);
                    Some (if time_lt (deadline (th_tm h other_child)) (deadline (th_tm h lchild))
                          then other_child else lchild) }
                  else Some lchild);
        if time_lt (deadline (th_tm h child)) key then do {
          (cursor', h') \<leftarrow> heap_set child cursor_idx h;
          sift_down_loop num_active key cursor' h' }
        else Some (cursor_idx, h) })"

definition heap_sift_down :: "nat \<Rightarrow> taddr \<Rightarrow> 'z timer_heap_scheme \<Rightarrow> 'z timer_heap_scheme option" where
  "heap_sift_down num_active source h = do {
     (cursor_idx, h1) \<leftarrow> sift_down_loop num_active (deadline (th_tm h source))
                           (heap_idx (th_tm h source)) h;
     (_, h2) \<leftarrow> heap_set source cursor_idx h1;
     Some h2 }"

partial_function (option) sift_up_loop ::
  "timespec \<Rightarrow> int \<Rightarrow> 'z timer_heap_scheme \<Rightarrow> (int \<times> 'z timer_heap_scheme) option" where
  "sift_up_loop key cursor_idx h =
     (if cursor_idx > 0 then do {
        parent \<leftarrow> data_at h ((cursor_idx - 1) div 2);
        if time_lt key (deadline (th_tm h parent)) then do {
          (cursor', h') \<leftarrow> heap_set parent cursor_idx h;
          sift_up_loop key cursor' h' }
        else Some (cursor_idx, h) }
      else Some (cursor_idx, h))"

definition heap_sift_up :: "taddr \<Rightarrow> 'z timer_heap_scheme \<Rightarrow> 'z timer_heap_scheme option" where
  "heap_sift_up source h = do {
     (cursor_idx, h1) \<leftarrow> sift_up_loop (deadline (th_tm h source)) (heap_idx (th_tm h source)) h;
     (_, h2) \<leftarrow> heap_set source cursor_idx h1;
     Some h2 }"

section \<open>Arming and disarming\<close>

definition wl_timer_heap_disarm :: "taddr \<Rightarrow> 'z timer_heap_scheme \<Rightarrow> 'z timer_heap_scheme option" where
  "wl_timer_heap_disarm source h =
     (if heap_idx (th_tm h source) < 0 then None
      else do {
        let old_source_idx = heap_idx (th_tm h source);
        let h1 = set_tm source (\<lambda>t. t\<lparr>heap_idx := - 1, deadline := Timespec 0 0\<rparr>) h;
        last_end_evt \<leftarrow> data_at h1 (int (th_active h1) - 1);
        h2 \<leftarrow> data_put (int (th_active h1) - 1) 0 h1;
        let h3 = h2\<lparr>th_active := th_active h2 - 1\<rparr>;
        if old_source_idx = int (th_active h3) then Some h3
        else do {
          h4 \<leftarrow> data_put old_source_idx last_end_evt h3;
          let h5 = set_tm last_end_evt (\<lambda>t. t\<lparr>heap_idx := old_source_idx\<rparr>) h4;
          h6 \<leftarrow> heap_sift_down (th_active h5) last_end_evt h5;
          heap_sift_up last_end_evt h6 } })"

definition wl_timer_heap_arm :: "taddr \<Rightarrow> timespec \<Rightarrow> 'z timer_heap_scheme \<Rightarrow> 'z timer_heap_scheme option" where
  "wl_timer_heap_arm source dl h =
     (if heap_idx (th_tm h source) \<noteq> - 1 then None
      else do {
        let h1 = set_tm source (\<lambda>t. t\<lparr>deadline := dl\<rparr>) h;
        h2 \<leftarrow> data_put (int (th_active h1)) source h1;
        let h3 = set_tm source (\<lambda>t. t\<lparr>heap_idx := int (th_active h2)\<rparr>) h2;
        heap_sift_up source (h3\<lparr>th_active := th_active h3 + 1\<rparr>) })"

section \<open>The array with a hole\<close>

text \<open>
  While an element is being moved its place \<open>cur\<close> in the array is a hole: \<open>heap_hole h A cur\<close>
  says that the armed part of the array is \<open>A\<close> except there, with every other element knowing
  its index.  \<open>moved A\<close> says what a sift may change: the places and indices of the elements \<open>A\<close>.
\<close>

definition heap_hole :: "'z timer_heap_scheme \<Rightarrow> taddr list \<Rightarrow> nat \<Rightarrow> bool" where
  "heap_hole h A cur \<longleftrightarrow> length A \<le> length (th_data h) \<and> distinct A \<and>
     (\<forall>i < length A. i \<noteq> cur \<longrightarrow> th_data h ! i = A ! i \<and> heap_idx (th_tm h (A ! i)) = int i)"

definition heap_rep :: "'z timer_heap_scheme \<Rightarrow> taddr list \<Rightarrow> bool" where
  "heap_rep h A \<longleftrightarrow> length A \<le> length (th_data h) \<and> distinct A \<and>
     (\<forall>i < length A. th_data h ! i = A ! i \<and> heap_idx (th_tm h (A ! i)) = int i)"

definition moved :: "taddr list \<Rightarrow> 'z timer_heap_scheme \<Rightarrow> 'z timer_heap_scheme \<Rightarrow> bool" where
  "moved A h h' \<longleftrightarrow> (\<exists>d t. h' = h\<lparr>th_data := d, th_tm := t\<rparr> \<and> length d = length (th_data h) \<and>
     drop (length A) d = drop (length A) (th_data h) \<and>
     (\<forall>a. a \<notin> set A \<longrightarrow> t a = th_tm h a) \<and>
     (\<forall>a. t a = (th_tm h a)\<lparr>heap_idx := heap_idx (t a)\<rparr>))"

abbreviation dl_of :: "'z timer_heap_scheme \<Rightarrow> taddr \<Rightarrow> timespec" where
  "dl_of h a \<equiv> deadline (th_tm h a)"

lemma moved_refl [simp]: "moved A h h"
  by (auto simp: moved_def intro!: exI [of _ "th_data h"] exI [of _ "th_tm h"])

lemma moved_cong: "set A = set B \<Longrightarrow> length A = length B \<Longrightarrow> moved A h h' = moved B h h'"
  by (simp add: moved_def)

lemma moved_trans: "moved A h h' \<Longrightarrow> moved A h' h'' \<Longrightarrow> moved A h h''"
proof -
  assume "moved A h h'" "moved A h' h''"
  then obtain d t d' t' where a: "h' = h\<lparr>th_data := d, th_tm := t\<rparr>" "length d = length (th_data h)"
    "drop (length A) d = drop (length A) (th_data h)" "\<forall>a. a \<notin> set A \<longrightarrow> t a = th_tm h a"
    "\<forall>a. t a = (th_tm h a)\<lparr>heap_idx := heap_idx (t a)\<rparr>"
    and b: "h'' = h'\<lparr>th_data := d', th_tm := t'\<rparr>" "length d' = length (th_data h')"
    "drop (length A) d' = drop (length A) (th_data h')" "\<forall>a. a \<notin> set A \<longrightarrow> t' a = th_tm h' a"
    "\<forall>a. t' a = (th_tm h' a)\<lparr>heap_idx := heap_idx (t' a)\<rparr>"
    unfolding moved_def by blast
  have "t' a = (th_tm h a)\<lparr>heap_idx := heap_idx (t' a)\<rparr>" for a
  proof -
    have "t' a = (t a)\<lparr>heap_idx := heap_idx (t' a)\<rparr>" using b(5) a(1) by simp
    also have "t a = (th_tm h a)\<lparr>heap_idx := heap_idx (t a)\<rparr>" using a(5) by simp
    finally show ?thesis by simp
  qed
  with a b show ?thesis unfolding moved_def by (intro exI [of _ d'] exI [of _ t']) simp
qed

lemma moved_deadline [simp]: "moved A h h' \<Longrightarrow> dl_of h' a = dl_of h a"
proof -
  assume "moved A h h'"
  then have "th_tm h' a = (th_tm h a)\<lparr>heap_idx := heap_idx (th_tm h' a)\<rparr>" unfolding moved_def by auto
  then have "deadline (th_tm h' a) = deadline ((th_tm h a)\<lparr>heap_idx := heap_idx (th_tm h' a)\<rparr>)" by simp
  then show ?thesis by simp
qed

lemma moved_fields:
  assumes "moved A h h'"
  shows "th_active h' = th_active h" "th_count h' = th_count h" "th_space h' = th_space h"
    "th_fd h' = th_fd h" "th_armed h' = th_armed h" "settime_script h' = settime_script h"
    "length (th_data h') = length (th_data h)"
    "drop (length A) (th_data h') = drop (length A) (th_data h)"
    "a \<notin> set A \<Longrightarrow> th_tm h' a = th_tm h a"
  using assms by (auto simp: moved_def)

lemma moved_timer:
  assumes "moved A h h'"
  shows "base_fd (th_tm h' a) = base_fd (th_tm h a)" "tm_func (th_tm h' a) = tm_func (th_tm h a)"
    "tm_data (th_tm h' a) = tm_data (th_tm h a)"
proof -
  have "th_tm h' a = (th_tm h a)\<lparr>heap_idx := heap_idx (th_tm h' a)\<rparr>"
    using assms unfolding moved_def by auto
  then show "base_fd (th_tm h' a) = base_fd (th_tm h a)" "tm_func (th_tm h' a) = tm_func (th_tm h a)"
    "tm_data (th_tm h' a) = tm_data (th_tm h a)"
    by (metis timer.select_convs timer.surjective timer.update_convs(3))+
qed

lemma distinct_exchange: "i < length A \<Longrightarrow> j < length A \<Longrightarrow> distinct A \<Longrightarrow> distinct (exchange A i j)"
  by (metis mset_exchange mset_eq_imp_distinct_iff)

lemma set_exchange: "i < length A \<Longrightarrow> j < length A \<Longrightarrow> set (exchange A i j) = set A"
  by (metis mset_exchange set_mset_mset)

lemma heap_set_some:
  assumes "cur < length (th_data h)"
  obtains h' where "heap_set a (int cur) h = Some (heap_idx (th_tm h a), h')"
    "th_data h' = (th_data h)[cur := a]"
    "th_tm h' = (th_tm h)(a := (th_tm h a)\<lparr>heap_idx := int cur\<rparr>)"
    "a \<in> set A \<Longrightarrow> cur < length A \<Longrightarrow> moved A h h'"
proof
  let ?h = "h\<lparr>th_tm := (th_tm h)(a := (th_tm h a)\<lparr>heap_idx := int cur\<rparr>), th_data := (th_data h)[cur := a]\<rparr>"
  show "heap_set a (int cur) h = Some (heap_idx (th_tm h a), ?h)"
    using assms by (simp add: heap_set_def data_put_def set_tm_def)
  show "a \<in> set A \<Longrightarrow> cur < length A \<Longrightarrow> moved A h ?h"
    unfolding moved_def
    by (intro exI [of _ "(th_data h)[cur := a]"]
         exI [of _ "(th_tm h)(a := (th_tm h a)\<lparr>heap_idx := int cur\<rparr>)"]) auto
qed simp_all

lemma heap_set_move:
  assumes h: "heap_hole h A cur" and cur: "cur < length A" and j: "j < length A" "j \<noteq> cur"
  obtains h' where "heap_set (A ! j) (int cur) h = Some (int j, h')"
    "heap_hole h' (exchange A cur j) j" "moved A h h'"
proof -
  have hj: "heap_idx (th_tm h (A ! j)) = int j" using h j by (auto simp: heap_hole_def)
  have len: "cur < length (th_data h)" using h cur by (auto simp: heap_hole_def)
  obtain h' where h': "heap_set (A ! j) (int cur) h = Some (int j, h')"
    "th_data h' = (th_data h)[cur := A ! j]" "moved A h h'"
    "th_tm h' = (th_tm h)(A ! j := (th_tm h (A ! j))\<lparr>heap_idx := int cur\<rparr>)"
    using heap_set_some [OF len, of "A ! j" A] hj j cur by (metis nth_mem)
  have "th_data h' ! i = exchange A cur j ! i \<and> heap_idx (th_tm h' (exchange A cur j ! i)) = int i"
    if i: "i < length A" "i \<noteq> j" for i
  proof (cases "i = cur")
    case True
    with h' len cur j show ?thesis by (simp add: nth_exchange)
  next
    case False
    then have "A ! i \<noteq> A ! j" using h i j by (auto simp: heap_hole_def nth_eq_iff_index_eq)
    with False h h' i j cur show ?thesis by (simp add: nth_exchange heap_hole_def)
  qed
  then have "heap_hole h' (exchange A cur j) j"
    using h h' cur j by (simp add: heap_hole_def distinct_exchange)
  with h' that show thesis by blast
qed

lemma heap_set_fill:
  assumes h: "heap_hole h A cur" and cur: "cur < length A"
  obtains tmp h' where "heap_set (A ! cur) (int cur) h = Some (tmp, h')" "heap_rep h' A" "moved A h h'"
proof -
  have len: "cur < length (th_data h)" using h cur by (auto simp: heap_hole_def)
  obtain h' where h': "heap_set (A ! cur) (int cur) h = Some (heap_idx (th_tm h (A ! cur)), h')"
    "th_data h' = (th_data h)[cur := A ! cur]" "moved A h h'"
    "th_tm h' = (th_tm h)(A ! cur := (th_tm h (A ! cur))\<lparr>heap_idx := int cur\<rparr>)"
    using heap_set_some [OF len, of "A ! cur" A] cur by (metis nth_mem)
  have "th_data h' ! i = A ! i \<and> heap_idx (th_tm h' (A ! i)) = int i" if i: "i < length A" for i
  proof (cases "i = cur")
    case False
    then have "A ! i \<noteq> A ! cur" using h i cur by (auto simp: heap_hole_def nth_eq_iff_index_eq)
    with False h h' i show ?thesis by (simp add: heap_hole_def)
  qed (use h' len in simp)
  then have "heap_rep h' A" using h h' by (auto simp: heap_hole_def heap_rep_def)
  with h' that show thesis by blast
qed

lemma heap_rep_hole: "heap_rep h A \<Longrightarrow> heap_hole h A cur"
  by (simp add: heap_rep_def heap_hole_def)

section \<open>The sifts compute the heap functions\<close>

lemma data_at_hole:
  "heap_hole h A cur \<Longrightarrow> j < length A \<Longrightarrow> j \<noteq> cur \<Longrightarrow> data_at h (int j) = Some (A ! j)"
  by (auto simp: data_at_def heap_hole_def)

lemma int_hparent: "0 < cur \<Longrightarrow> (int cur - 1) div 2 = int (hparent cur)"
  by (simp add: hparent_def of_nat_div of_nat_diff)

lemma sift_up_loop_refines:
  "heap_hole h A cur \<Longrightarrow> cur < length A \<Longrightarrow> k = dl_of h \<Longrightarrow> key = k (A ! cur) \<Longrightarrow>
   \<exists>c h'. sift_up_loop key (int cur) h = Some (int c, h') \<and> c < length A \<and>
     heap_hole h' (heap_up k A cur) c \<and> heap_up k A cur ! c = A ! cur \<and> moved A h h'"
proof (induction k A cur arbitrary: h rule: heap_up.induct)
  case (1 k A cur h)
  note hole = "1.prems"(1) and cur = "1.prems"(2) and k = "1.prems"(3) and key = "1.prems"(4)
  show ?case
  proof (cases "cur > 0 \<and> k (A ! cur) < k (A ! hparent cur)")
    case True
    let ?p = "hparent cur"
    have p: "?p < length A" "?p \<noteq> cur" using True cur hparent_less [of cur] by auto
    obtain h1 where h1: "heap_set (A ! ?p) (int cur) h = Some (int ?p, h1)"
      "heap_hole h1 (exchange A cur ?p) ?p" "moved A h h1"
      using heap_set_move [OF hole cur p] .
    have len: "?p < length (exchange A cur ?p)" using p by simp
    have k1: "k = dl_of h1" using k h1(3) by simp
    have key1: "key = k (exchange A cur ?p ! ?p)" using key p cur by (simp add: nth_exchange)
    have set: "set (exchange A cur ?p) = set A" using p cur by (simp add: set_exchange)
    have IH: "\<exists>c h'. sift_up_loop key (int ?p) h1 = Some (int c, h') \<and> c < length (exchange A cur ?p) \<and>
        heap_hole h' (heap_up k (exchange A cur ?p) ?p) c \<and>
        heap_up k (exchange A cur ?p) ?p ! c = exchange A cur ?p ! ?p \<and> moved (exchange A cur ?p) h1 h'"
      by (rule "1.IH" [OF True h1(2) len k1 key1])
    then obtain c h' where c: "sift_up_loop key (int ?p) h1 = Some (int c, h')" "c < length A"
      "heap_hole h' (heap_up k A cur) c" "heap_up k A cur ! c = A ! cur" "moved A h1 h'"
      using True p cur by (auto simp: heap_up_step nth_exchange moved_cong [OF set])
    have "sift_up_loop key (int cur) h = Some (int c, h')"
      using True c(1) h1(1) key k data_at_hole [OF hole p] int_hparent [of cur]
      by (subst sift_up_loop.simps) (simp add: time_lt_less)
    with c moved_trans [OF h1(3) c(5)] show ?thesis by blast
  next
    case False
    have "sift_up_loop key (int cur) h = Some (int cur, h)"
    proof (cases "cur > 0")
      case True
      have p: "hparent cur < length A" "hparent cur \<noteq> cur" using True cur hparent_less [of cur] by auto
      show ?thesis
        using True False key k data_at_hole [OF hole p] int_hparent [of cur]
        by (subst sift_up_loop.simps) (simp add: time_lt_less)
    qed (subst sift_up_loop.simps, simp)
    with False hole cur show ?thesis
      by (intro exI [of _ cur] exI [of _ h]) (simp add: heap_up_stop)
  qed
qed

lemma down_child:
  assumes hole: "heap_hole h A cur" and len: "2 * cur + 1 < length A" and k: "k = dl_of h"
  shows "data_at h (int cur * 2 + 1) \<bind> (\<lambda>lchild.
           (if int cur * 2 + 1 + 1 < int (length A) then data_at h (int cur * 2 + 1 + 1) \<bind>
             (\<lambda>other_child. Some (if time_lt (dl_of h other_child) (dl_of h lchild)
                                  then other_child else lchild))
            else Some lchild) \<bind> f) = f (A ! least_child k A cur)"
proof -
  have l: "data_at h (int cur * 2 + 1) = Some (A ! (2 * cur + 1))"
    using data_at_hole [OF hole len] by (simp add: algebra_simps)
  have r: "data_at h (int cur * 2 + 1 + 1) = Some (A ! (2 * cur + 2))" if "2 * cur + 2 < length A"
    using data_at_hole [OF hole that] by (simp add: algebra_simps)
  have c: "(int cur * 2 + 1 + 1 < int (length A)) = (2 * cur + 2 < length A)" by linarith
  show ?thesis
  proof (cases "2 * cur + 2 < length A")
    case True
    show ?thesis unfolding c l using True r [OF True] k by (simp add: least_child_def time_lt_less)
  next
    case False
    show ?thesis unfolding c l using False by (simp add: least_child_def)
  qed
qed

lemma sift_down_loop_refines:
  "heap_hole h A cur \<Longrightarrow> cur < length A \<Longrightarrow> k = dl_of h \<Longrightarrow> key = k (A ! cur) \<Longrightarrow> n = length A \<Longrightarrow>
   \<exists>c h'. sift_down_loop n key (int cur) h = Some (int c, h') \<and> c < length A \<and>
     heap_hole h' (heap_down k A cur) c \<and> heap_down k A cur ! c = A ! cur \<and> moved A h h'"
proof (induction k A cur arbitrary: h rule: heap_down.induct)
  case (1 k A cur h)
  note hole = "1.prems"(1) and cur = "1.prems"(2) and k = "1.prems"(3) and key = "1.prems"(4)
    and n = "1.prems"(5)
  let ?c = "least_child k A cur"
  show ?case
  proof (cases "2 * cur + 1 < length A")
    case False
    then have "sift_down_loop n key (int cur) h = Some (int cur, h)"
      unfolding n by (subst sift_down_loop.simps) (simp add: Let_def)
    with False hole cur show ?thesis
      by (intro exI [of _ cur] exI [of _ h]) (simp add: heap_down_stop)
  next
    case len: True
    then have nl: "\<not> int (length A) \<le> int cur * 2 + 1" by linarith
    note child = down_child [OF hole len k]
    note lc = least_child_props [OF len, where k = k]
    show ?thesis
    proof (cases "k (A ! ?c) < k (A ! cur)")
      case False
      have "sift_down_loop n key (int cur) h = Some (int cur, h)"
        unfolding n using False k key nl
        by (subst sift_down_loop.simps) (simp only: Let_def if_False child, simp add: time_lt_less)
      with False hole cur show ?thesis
        by (intro exI [of _ cur] exI [of _ h]) (simp add: heap_down_stop)
    next
      case True
      have ne: "?c \<noteq> cur" using lc by auto
      obtain h1 where h1: "heap_set (A ! ?c) (int cur) h = Some (int ?c, h1)"
        "heap_hole h1 (exchange A cur ?c) ?c" "moved A h h1"
        using heap_set_move [OF hole cur lc(1) ne] .
      have len1: "?c < length (exchange A cur ?c)" using lc by simp
      have k1: "k = dl_of h1" using k h1(3) by simp
      have key1: "key = k (exchange A cur ?c ! ?c)" using key lc(1) cur by (simp add: nth_exchange)
      have n1: "n = length (exchange A cur ?c)" using n by simp
      have set: "set (exchange A cur ?c) = set A" using lc(1) cur by (simp add: set_exchange)
      have IH: "\<exists>d h'. sift_down_loop n key (int ?c) h1 = Some (int d, h') \<and> d < length (exchange A cur ?c) \<and>
          heap_hole h' (heap_down k (exchange A cur ?c) ?c) d \<and>
          heap_down k (exchange A cur ?c) ?c ! d = exchange A cur ?c ! ?c \<and> moved (exchange A cur ?c) h1 h'"
        using "1.IH" [OF conjI [OF len True] h1(2) len1 k1 key1 n1] .
      then obtain d h' where d: "sift_down_loop n key (int ?c) h1 = Some (int d, h')" "d < length A"
        "heap_hole h' (heap_down k A cur) d" "heap_down k A cur ! d = A ! cur" "moved A h1 h'"
        using True lc(1) len cur by (auto simp: heap_down_step nth_exchange moved_cong [OF set])
      have "sift_down_loop n key (int cur) h = Some (int d, h')"
        unfolding n using True k key nl h1(1) d(1) n
        by (subst sift_down_loop.simps) (simp only: Let_def if_False child, simp add: time_lt_less)
      with d moved_trans [OF h1(3) d(5)] show ?thesis by blast
    qed
  qed
qed

lemma heap_sift_up_refines:
  assumes h: "heap_hole h A cur" "cur < length A" and s: "heap_idx (th_tm h (A ! cur)) = int cur"
  obtains h' where "heap_sift_up (A ! cur) h = Some h'" "heap_rep h' (heap_up (dl_of h) A cur)" "moved A h h'"
proof -
  let ?B = "heap_up (dl_of h) A cur"
  obtain c h1 where c: "sift_up_loop (dl_of h (A ! cur)) (int cur) h = Some (int c, h1)" "c < length A"
    "heap_hole h1 ?B c" "?B ! c = A ! cur" "moved A h h1"
    using sift_up_loop_refines [OF h refl refl] by blast
  have len: "length ?B = length A" "set ?B = set A"
    using h(2) mset_heap_up [OF h(2), of "dl_of h"] by (simp, metis set_mset_mset)
  then obtain tmp h' where h': "heap_set (A ! cur) (int c) h1 = Some (tmp, h')" "heap_rep h' ?B" "moved A h1 h'"
    using heap_set_fill [OF c(3)] c(2,4) moved_cong [of ?B A h1] by metis
  have "heap_sift_up (A ! cur) h = Some h'" using c(1) h'(1) s by (simp add: heap_sift_up_def)
  with h' that moved_trans [OF c(5) h'(3)] show thesis by blast
qed

lemma heap_sift_down_refines:
  assumes h: "heap_hole h A cur" "cur < length A" and s: "heap_idx (th_tm h (A ! cur)) = int cur"
  obtains h' where "heap_sift_down (length A) (A ! cur) h = Some h'"
    "heap_rep h' (heap_down (dl_of h) A cur)" "moved A h h'"
proof -
  let ?B = "heap_down (dl_of h) A cur"
  obtain c h1 where c: "sift_down_loop (length A) (dl_of h (A ! cur)) (int cur) h = Some (int c, h1)"
    "c < length A" "heap_hole h1 ?B c" "?B ! c = A ! cur" "moved A h h1"
    using sift_down_loop_refines [OF h refl refl refl] by blast
  have len: "length ?B = length A" "set ?B = set A"
    using h(2) mset_heap_down [OF h(2), of "dl_of h"] by (simp, metis set_mset_mset)
  then obtain tmp h' where h': "heap_set (A ! cur) (int c) h1 = Some (tmp, h')" "heap_rep h' ?B" "moved A h1 h'"
    using heap_set_fill [OF c(3)] c(2,4) moved_cong [of ?B A h1] by metis
  have "heap_sift_down (length A) (A ! cur) h = Some h'" using c(1) h'(1) s by (simp add: heap_sift_down_def)
  with h' that moved_trans [OF c(5) h'(3)] show thesis by blast
qed

section \<open>The invariant\<close>

definition armed :: "'z timer_heap_scheme \<Rightarrow> taddr list" where
  "armed h = take (th_active h) (th_data h)"

definition timer_heap_ok :: "'z timer_heap_scheme \<Rightarrow> bool" where
  "timer_heap_ok h \<longleftrightarrow>
     length (th_data h) = th_space h \<and> th_active h \<le> th_count h \<and> th_count h \<le> th_space h \<and>
     heap_rep h (armed h) \<and> is_heap (dl_of h) (armed h) \<and> 0 \<notin> set (armed h) \<and>
     (\<forall>a. a \<notin> set (armed h) \<longrightarrow> heap_idx (th_tm h a) = - 1)"

lemma length_armed: "timer_heap_ok h \<Longrightarrow> length (armed h) = th_active h"
  by (simp add: timer_heap_ok_def armed_def)

lemma armed_idx:
  assumes "timer_heap_ok h"
  shows "heap_idx (th_tm h a) \<ge> 0 \<longleftrightarrow> a \<in> set (armed h)"
    "heap_idx (th_tm h a) = - 1 \<longleftrightarrow> a \<notin> set (armed h)"
proof -
  have "heap_idx (th_tm h a) \<ge> 0" if "a \<in> set (armed h)"
    using assms that by (auto simp: timer_heap_ok_def heap_rep_def in_set_conv_nth)
  moreover have "heap_idx (th_tm h a) = - 1" if "a \<notin> set (armed h)"
    using assms that by (simp add: timer_heap_ok_def)
  ultimately show "heap_idx (th_tm h a) \<ge> 0 \<longleftrightarrow> a \<in> set (armed h)"
    "heap_idx (th_tm h a) = - 1 \<longleftrightarrow> a \<notin> set (armed h)" by fastforce+
qed

lemma armed_nth:
  assumes "timer_heap_ok h" "a \<in> set (armed h)"
  obtains i where "i < th_active h" "armed h ! i = a" "heap_idx (th_tm h a) = int i"
  using assms length_armed [OF assms(1)]
  by (metis heap_rep_def in_set_conv_nth timer_heap_ok_def)

lemma heap_rep_armed: "heap_rep h A \<Longrightarrow> th_active h = length A \<Longrightarrow> armed h = A"
  by (auto simp: heap_rep_def armed_def intro: nth_equalityI)

lemma is_heap_cong: "(\<And>a. a \<in> set A \<Longrightarrow> k a = k' a) \<Longrightarrow> is_heap k A = is_heap k' A"
proof -
  assume eq: "\<And>a. a \<in> set A \<Longrightarrow> k a = k' a"
  have "k (A ! hparent i) = k' (A ! hparent i)" "k (A ! i) = k' (A ! i)" if "0 < i" "i < length A" for i
    using that hparent_less [of i] eq nth_mem [of _ A] by auto
  then show ?thesis by (auto simp: is_heap_def heap_le_def)
qed

lemma heap_le_cong: "(\<And>a. a \<in> set A \<Longrightarrow> k a = k' a) \<Longrightarrow> 0 < i \<Longrightarrow> i < length A \<Longrightarrow> heap_le k A i = heap_le k' A i"
  using hparent_less [of i] nth_mem [of _ A] by (auto simp: heap_le_def)

lemma bridged_cong:
  assumes "\<And>a. a \<in> set A \<Longrightarrow> k a = k' a" "cur < length A"
  shows "bridged k A cur = bridged k' A cur"
proof -
  have "k (A ! hparent cur) = k' (A ! hparent cur)" if "0 < cur"
    using that assms hparent_less [of cur] nth_mem [of _ A] by simp
  with assms show ?thesis by (auto simp: bridged_def)
qed

text \<open>A heap rebuilt by a sift satisfies the invariant again.\<close>

lemma timer_heap_okI:
  assumes "heap_rep h A" "is_heap (dl_of h) A" "th_active h = length A" "0 \<notin> set A"
    "length (th_data h) = th_space h" "th_active h \<le> th_count h" "th_count h \<le> th_space h"
    "\<And>a. a \<notin> set A \<Longrightarrow> heap_idx (th_tm h a) = - 1"
  shows "timer_heap_ok h" "armed h = A"
  using assms heap_rep_armed [OF assms(1,3)] by (simp_all add: timer_heap_ok_def)

lemma wl_timer_heap_arm_ok:
  assumes ok: "timer_heap_ok h" and src: "source \<notin> set (armed h)" "source \<noteq> 0"
    and room: "th_active h < th_count h"
  obtains h' where "wl_timer_heap_arm source dl h = Some h'" "timer_heap_ok h'"
    "mset (armed h') = add_mset source (mset (armed h))" "dl_of h' = (dl_of h)(source := dl)"
    "th_active h' = Suc (th_active h)" "th_count h' = th_count h" "th_fd h' = th_fd h"
    "th_armed h' = th_armed h" "settime_script h' = settime_script h"
    "\<And>a. base_fd (th_tm h' a) = base_fd (th_tm h a)"
proof -
  let ?n = "th_active h" and ?A = "armed h @ [source]"
  let ?h1 = "set_tm source (\<lambda>t. t\<lparr>deadline := dl\<rparr>) h"
  let ?h3 = "set_tm source (\<lambda>t. t\<lparr>heap_idx := int ?n\<rparr>) (?h1\<lparr>th_data := (th_data h)[?n := source]\<rparr>)"
  let ?h4 = "?h3\<lparr>th_active := Suc ?n\<rparr>"
  have len: "length (armed h) = ?n" "length (th_data h) = th_space h" "th_count h \<le> th_space h"
    using ok length_armed by (auto simp: timer_heap_ok_def)
  have idx: "heap_idx (th_tm h source) = - 1" using src armed_idx [OF ok] by simp
  have rep: "heap_rep ?h4 ?A"
    using ok src len room by (auto simp: heap_rep_def timer_heap_ok_def nth_append set_tm_def armed_def less_Suc_eq)
  have k: "dl_of ?h4 = (dl_of h)(source := dl)" by (auto simp: set_tm_def)
  have last: "?A ! ?n = source" using len by (simp add: nth_append)
  have s4: "heap_idx (th_tm ?h4 (?A ! ?n)) = int ?n" unfolding last by (simp add: set_tm_def)
  have "?n < length ?A" using len by simp
  then obtain h' where h': "heap_sift_up source ?h4 = Some h'"
    "heap_rep h' (heap_up (dl_of ?h4) ?A ?n)" "moved ?A ?h4 h'"
    using heap_sift_up_refines [OF heap_rep_hole [OF rep] _ s4] unfolding last by blast
  let ?B = "heap_up (dl_of ?h4) ?A ?n"
  have ms: "mset ?B = mset ?A" using len by (simp del: mset_append)
  then have set: "set ?B = set ?A" and lB: "length ?B = Suc ?n"
    using len mset_eq_length [OF ms] by (metis set_mset_mset, simp)
  have "up_inv (dl_of ?h4) ?A ?n"
    unfolding up_inv_def bridged_def
  proof (intro conjI allI impI)
    fix i assume "i < length ?A" "0 < i" "hparent i = ?n"
    then show "dl_of ?h4 (?A ! hparent ?n) \<le> dl_of ?h4 (?A ! i)" using len hparent_less [of i] by simp
  next
    fix i assume i: "i < length ?A" "0 < i" "i \<noteq> ?n"
    then have il: "i < ?n" "hparent i < ?n" using len hparent_less [of i] by auto
    then have "heap_le (dl_of h) (armed h) i" using ok i len by (simp add: timer_heap_ok_def is_heap_def)
    moreover have "armed h ! i \<noteq> source" "armed h ! hparent i \<noteq> source" using src il len nth_mem by metis+
    ultimately show "heap_le (dl_of ?h4) ?A i" unfolding k heap_le_def using il len by (simp add: nth_append)
  qed (use len in simp)
  then have "is_heap (dl_of ?h4) ?B" by (rule heap_up_heap)
  then have heap: "is_heap (dl_of h') ?B" using h'(3) by simp
  have fld: "th_active h' = length ?B" "0 \<notin> set ?B" "length (th_data h') = th_space h'"
    "th_active h' \<le> th_count h'" "th_count h' \<le> th_space h'"
    using moved_fields [OF h'(3)] set src ok room len lB by (auto simp: timer_heap_ok_def set_tm_def)
  have rest: "heap_idx (th_tm h' a) = - 1" if "a \<notin> set ?B" for a
  proof -
    have a: "a \<notin> set ?A" using that set by simp
    then have "th_tm h' a = th_tm h a" using moved_fields(9) [OF h'(3) a] by (simp add: set_tm_def)
    then show ?thesis using a armed_idx(2) [OF ok] by simp
  qed
  have res: "wl_timer_heap_arm source dl h = Some h'"
    using h'(1) idx len room by (simp add: wl_timer_heap_arm_def data_put_def set_tm_def)
  have okh: "timer_heap_ok h'" "armed h' = ?B"
    by (rule timer_heap_okI [OF h'(2) heap fld(1,2,3,4,5) rest], assumption)+
  show thesis
  proof (rule that [OF res okh(1)])
    show "mset (armed h') = add_mset source (mset (armed h))" using okh(2) ms by simp
    show "dl_of h' = (dl_of h)(source := dl)" unfolding k [symmetric] using moved_deadline [OF h'(3)] by (rule ext)
    show "th_active h' = Suc ?n" using fld(1) lB by simp
    show "base_fd (th_tm h' a) = base_fd (th_tm h a)" for a
      using moved_timer(1) [OF h'(3), of a] by (simp add: set_tm_def)
  qed (use moved_fields [OF h'(3)] in \<open>simp_all add: set_tm_def\<close>)
qed

text \<open>
  Disarming: the last element takes the place of the removed one and is sifted.  The source
  is out of the heap and its deadline is zero; nothing else changes its deadline.
\<close>

lemma disarm_unfold:
  assumes "0 \<le> heap_idx (th_tm h source)" "0 < th_active h" "th_active h \<le> length (th_data h)"
    "i < length (th_data h)" "heap_idx (th_tm h source) = int i"
  shows "wl_timer_heap_disarm source h =
     (let last = th_data h ! (th_active h - 1);
          h3 = (set_tm source (\<lambda>t. t\<lparr>heap_idx := - 1, deadline := Timespec 0 0\<rparr>) h)
                 \<lparr>th_data := (th_data h)[th_active h - 1 := 0], th_active := th_active h - 1\<rparr> in
      if i = th_active h - 1 then Some h3
      else heap_sift_down (th_active h - 1) last
             (set_tm last (\<lambda>t. t\<lparr>heap_idx := int i\<rparr>) (h3\<lparr>th_data := (th_data h3)[i := last]\<rparr>))
           \<bind> heap_sift_up last)"
proof -
  have eq: "nat (int (th_active h) - 1) = th_active h - 1" "(int i = int (th_active h) - 1) = (i = th_active h - 1)"
    using assms(2) by linarith+
  have p: "(- 1 < int (th_active h) - 1) = True" "int (th_active h - Suc 0) = int (th_active h) - 1"
    using assms(2) by auto
  show ?thesis
    using assms eq p
    by (auto simp: wl_timer_heap_disarm_def data_at_def data_put_def set_tm_def Let_def split: if_splits)
qed

lemma mset_replace_by_last:
  assumes "length A = Suc n" "i < n"
  shows "mset ((take n A)[i := A ! n]) = mset A - {#A ! i#}"
proof -
  have A: "A = take n A @ [A ! n]" using assms(1) by (metis lessI order.refl take_Suc_conv_app_nth take_all)
  have "mset A = add_mset (A ! n) (mset (take n A))" by (subst A) simp
  moreover have "A ! i \<in> set (take n A)" using assms by (auto simp: in_set_conv_nth intro!: exI [of _ i])
  ultimately show ?thesis using assms by (simp add: mset_update diff_union_swap2)
qed

lemma mset_take_last: "length A = Suc n \<Longrightarrow> mset (take n A) = mset A - {#A ! n#}"
proof -
  assume l: "length A = Suc n"
  then have A: "A = take n A @ [A ! n]" by (metis lessI order.refl take_Suc_conv_app_nth take_all)
  have "mset A = add_mset (A ! n) (mset (take n A))" by (subst A) simp
  then show ?thesis by simp
qed

lemma sift_both:
  assumes rep: "heap_rep h B" and i: "i < length B"
    and b: "bridged (dl_of h) B i"
    "\<And>j. j < length B \<Longrightarrow> 0 < j \<Longrightarrow> j \<noteq> i \<Longrightarrow> hparent j \<noteq> i \<Longrightarrow> heap_le (dl_of h) B j"
  obtains h' C where "heap_sift_down (length B) (B ! i) h \<bind> heap_sift_up (B ! i) = Some h'"
    "heap_rep h' C" "mset C = mset B" "is_heap (dl_of h) C" "moved B h h'"
proof -
  let ?k = "dl_of h" and ?C = "heap_down (dl_of h) B i"
  obtain h1 where h1: "heap_sift_down (length B) (B ! i) h = Some h1" "heap_rep h1 ?C" "moved B h h1"
    using heap_sift_down_refines [OF heap_rep_hole [OF rep] i] rep i by (auto simp: heap_rep_def)
  have ms: "mset ?C = mset B" using i by simp
  then have "B ! i \<in> set ?C" using i by (metis nth_mem set_mset_mset)
  then obtain c where c: "c < length ?C" "?C ! c = B ! i" by (auto simp: in_set_conv_nth)
  have idx: "heap_idx (th_tm h1 (?C ! c)) = int c" using h1(2) c(1) by (simp add: heap_rep_def)
  obtain h' where h': "heap_sift_up (B ! i) h1 = Some h'" "heap_rep h' (heap_up (dl_of h1) ?C c)" "moved ?C h1 h'"
    using heap_sift_up_refines [OF heap_rep_hole [OF h1(2)] c(1) idx] c(2) by auto
  have k1: "dl_of h1 = ?k" using h1(3) by simp
  have "is_heap ?k (heap_up ?k ?C c)"
  proof (cases "is_heap ?k ?C")
    case True
    then show ?thesis using heap_up_id [OF True c(1)] by simp
  next
    case False
    then have same: "?C = B" "up_inv ?k B i" using down_then_up [OF b(1) i b(2)] by auto
    then have "c = i" using c i rep by (metis heap_rep_def nth_eq_iff_index_eq)
    then show ?thesis using same heap_up_heap by metis
  qed
  moreover have "moved B h1 h'" using h'(3) moved_cong ms mset_eq_length set_mset_mset by metis
  ultimately show thesis
    using that [of h' "heap_up ?k ?C c"] h1(1) h' k1 ms c(1) moved_trans [OF h1(3)] by simp
qed

lemma wl_timer_heap_disarm_ok:
  assumes ok: "timer_heap_ok h" and src: "source \<in> set (armed h)"
  obtains h' where "wl_timer_heap_disarm source h = Some h'" "timer_heap_ok h'"
    "mset (armed h') = mset (armed h) - {#source#}" "dl_of h' = (dl_of h)(source := Timespec 0 0)"
    "Suc (th_active h') = th_active h" "th_count h' = th_count h" "th_fd h' = th_fd h"
    "th_armed h' = th_armed h" "settime_script h' = settime_script h"
    "\<And>a. base_fd (th_tm h' a) = base_fd (th_tm h a)"
proof -
  obtain i where i: "i < th_active h" "armed h ! i = source" "heap_idx (th_tm h source) = int i"
    using armed_nth [OF ok src] .
  let ?n = "th_active h - 1" and ?A = "armed h"
  have len: "length ?A = Suc ?n" "length (th_data h) = th_space h" "th_active h \<le> th_count h"
    "th_count h \<le> th_space h" using ok i length_armed by (auto simp: timer_heap_ok_def)
  have dist: "distinct ?A" using ok by (simp add: timer_heap_ok_def heap_rep_def)
  have z: "0 \<notin> set ?A" using ok by (simp add: timer_heap_ok_def)
  have idx: "heap_idx (th_tm h (?A ! j)) = int j" "th_data h ! j = ?A ! j" if "j < Suc ?n" for j
    using ok that len by (auto simp: timer_heap_ok_def heap_rep_def)
  define h3 where "h3 = (set_tm source (\<lambda>t. t\<lparr>heap_idx := - 1, deadline := Timespec 0 0\<rparr>) h)
                 \<lparr>th_data := (th_data h)[?n := 0], th_active := ?n\<rparr>"
  define last where "last = th_data h ! ?n"
  have last: "last = ?A ! ?n" using idx(2) [of ?n] by (simp add: last_def)
  have unf: "wl_timer_heap_disarm source h = (if i = ?n then Some h3
      else heap_sift_down ?n last
             (set_tm last (\<lambda>t. t\<lparr>heap_idx := int i\<rparr>) (h3\<lparr>th_data := (th_data h3)[i := last]\<rparr>))
           \<bind> heap_sift_up last)"
    using disarm_unfold [of h source i] i len unfolding h3_def last_def Let_def by linarith
  have k3: "dl_of h3 = (dl_of h)(source := Timespec 0 0)" by (auto simp: h3_def set_tm_def)
  have tm3: "th_tm h3 a = th_tm h a" if "a \<noteq> source" for a using that by (simp add: h3_def set_tm_def)
  have tms: "heap_idx (th_tm h3 source) = - 1" by (simp add: h3_def set_tm_def)
  have h3: "length (th_data h3) = th_space h3" "th_active h3 = ?n" "th_count h3 = th_count h"
    "th_space h3 = th_space h" "th_fd h3 = th_fd h" "th_armed h3 = th_armed h"
    "settime_script h3 = settime_script h" "\<And>j. j < ?n \<Longrightarrow> th_data h3 ! j = ?A ! j"
    "\<And>a. base_fd (th_tm h3 a) = base_fd (th_tm h a)"
    using len idx(2) by (auto simp: h3_def set_tm_def)
  have out: "heap_idx (th_tm h3 a) = - 1" if "a \<notin> set ?A \<or> a = source" for a
    using that tms tm3 armed_idx(2) [OF ok] by metis
  show thesis
  proof (cases "i = ?n")
    case True
    let ?B = "take ?n ?A"
    have ms: "mset ?B = mset ?A - {#source#}" using mset_take_last [OF len(1)] i True by simp
    have nin: "source \<notin> set ?B" using dist i True len by (auto simp: in_set_conv_nth nth_eq_iff_index_eq)
    have rep: "heap_rep h3 ?B"
      unfolding heap_rep_def
    proof (intro conjI allI impI)
      fix j assume j: "j < length ?B"
      then have "?B ! j \<noteq> source" using nin nth_mem by metis
      then show "th_data h3 ! j = ?B ! j" "heap_idx (th_tm h3 (?B ! j)) = int j"
        using j len idx(1) [of j] h3(8) tm3 by auto
    qed (use len h3 dist in auto)
    have "is_heap (dl_of h) ?B" using ok by (simp add: timer_heap_ok_def is_heap_take)
    then have heap: "is_heap (dl_of h3) ?B"
      using is_heap_cong [of ?B "dl_of h3" "dl_of h"] nin k3 by (metis fun_upd_other)
    have rest: "heap_idx (th_tm h3 a) = - 1" if "a \<notin> set ?B" for a
    proof -
      have "set ?A = insert source (set ?B)"
        using len i True by (metis lessI list.simps(15) order.refl rotate1.simps(2) set_rotate1 take_Suc_conv_app_nth take_all)
      then show ?thesis using that out by blast
    qed
    have fld: "th_active h3 = length ?B" "0 \<notin> set ?B" "th_active h3 \<le> th_count h3" "th_count h3 \<le> th_space h3"
      using h3 len z by (auto dest: in_set_takeD)
    have okh: "timer_heap_ok h3" "armed h3 = ?B"
      by (rule timer_heap_okI [OF rep heap fld(1,2) h3(1) fld(3,4) rest], assumption)+
    show thesis using that [of h3] unf True okh ms k3 h3 i by auto
  next
    case False
    then have i': "i < ?n" using i by simp
    let ?B = "(take ?n ?A)[i := ?A ! ?n]"
    let ?h5 = "set_tm last (\<lambda>t. t\<lparr>heap_idx := int i\<rparr>) (h3\<lparr>th_data := (th_data h3)[i := last]\<rparr>)"
    have ms: "mset ?B = mset ?A - {#source#}" using mset_replace_by_last [OF len(1) i'] i by simp
    have dB: "distinct ?B" "source \<notin> set ?B" "set ?B \<subseteq> set ?A" "set ?A = insert source (set ?B)"
    proof -
      have "mset ?A = add_mset source (mset ?B)" using ms src by simp
      then have "mset (source # ?B) = mset ?A" by simp
      then have "distinct (source # ?B)" "set (source # ?B) = set ?A"
        using dist by (metis mset_eq_imp_distinct_iff, metis set_mset_mset)
      then show "distinct ?B" "source \<notin> set ?B" "set ?B \<subseteq> set ?A" "set ?A = insert source (set ?B)" by auto
    qed
    have lne: "last \<noteq> source" using last i i' dist len by (auto simp: nth_eq_iff_index_eq)
    have lB: "length ?B = ?n" "?B ! i = last" using len i' last by auto
    have k5: "dl_of ?h5 = dl_of h3" by (auto simp: set_tm_def)
    have rep: "heap_rep ?h5 ?B"
      unfolding heap_rep_def
    proof (intro conjI allI impI)
      fix j assume j: "j < length ?B"
      then have ne: "?B ! j \<noteq> source" using dB(2) nth_mem by metis
      have "?B ! j \<noteq> last" if "j \<noteq> i"
        using that dB(1) j lB i' nth_eq_iff_index_eq by metis
      then show "th_data ?h5 ! j = ?B ! j" "heap_idx (th_tm ?h5 (?B ! j)) = int j"
        using j len idx(1) [of j] h3(1,4,8) tm3 ne lB i' last by (auto simp: set_tm_def nth_list_update)
    qed (use len h3 dB lB in \<open>auto simp: set_tm_def\<close>)
    have heap: "is_heap (dl_of h) ?A" using ok by (simp add: timer_heap_ok_def)
    have eqk: "dl_of h a = dl_of ?h5 a" if "a \<in> set ?B" for a
    proof -
      have "a \<noteq> source" using that dB(2) by auto
      then show ?thesis unfolding fun_cong [OF k5] fun_cong [OF k3] by simp
    qed
    note rl = replace_by_last [OF heap len(1) i']
    have br: "bridged (dl_of ?h5) ?B i"
      using rl(1) bridged_cong [of ?B "dl_of h" "dl_of ?h5" i] eqk i' lB by metis
    have le: "heap_le (dl_of ?h5) ?B j" if "j < length ?B" "0 < j" "j \<noteq> i" "hparent j \<noteq> i" for j
      using rl(3) [of j] heap_le_cong [of ?B "dl_of h" "dl_of ?h5" j] eqk that lB by metis
    have ilen: "i < length ?B" using i' lB by simp
    obtain h' C where h': "heap_sift_down (length ?B) (?B ! i) ?h5 \<bind> heap_sift_up (?B ! i) = Some h'"
      "heap_rep h' C" "mset C = mset ?B" "is_heap (dl_of ?h5) C" "moved ?B ?h5 h'"
      by (rule sift_both [OF rep ilen br le], assumption+)
    have res: "wl_timer_heap_disarm source h = Some h'" using unf False h'(1) lB by simp
    have C: "set C = set ?B" "length C = ?n" using h'(3) lB by (metis set_mset_mset, metis size_mset)
    note f = moved_fields [OF h'(5)]
    have fld: "th_active h' = length C" "0 \<notin> set C" "length (th_data h') = th_space h'"
      "th_active h' \<le> th_count h'" "th_count h' \<le> th_space h'"
      using f h3 C dB(3) z len by (auto simp: set_tm_def)
    have rest: "heap_idx (th_tm h' a) = - 1" if "a \<notin> set C" for a
    proof -
      have a: "a \<notin> set ?B" using that C by simp
      have "a \<noteq> last" using a lB ilen nth_mem by metis
      then have "th_tm h' a = th_tm h3 a" using f(9) [OF a] by (simp add: set_tm_def)
      then show ?thesis using out a dB(4) by auto
    qed
    have heap': "is_heap (dl_of h') C" using h'(4,5) by simp
    have okh: "timer_heap_ok h'" "armed h' = C"
      by (rule timer_heap_okI [OF h'(2) heap' fld rest], assumption)+
    have k': "dl_of h' = (dl_of h)(source := Timespec 0 0)"
      unfolding k3 [symmetric] k5 [symmetric] using moved_deadline [OF h'(5)] by (rule ext)
    have bf: "base_fd (th_tm h' a) = base_fd (th_tm h a)" for a
      using moved_timer(1) [OF h'(5), of a] h3(9) [of a] by (simp add: set_tm_def split: if_splits)
    show thesis
      using that [OF res okh(1) _ k' _ _ _ _ _ bf] okh(2) h'(3) ms f h3 C i fld(1) by (simp add: set_tm_def)
  qed
qed

section \<open>Updating a timer\<close>

definition deadline_after :: "timespec \<Rightarrow> int \<Rightarrow> timespec" where
  "deadline_after now ms_delay =
     (let nsec = tv_nsec now + (ms_delay mod 1000) * 1000000;
          sec = tv_sec now + ms_delay div 1000 in
      if nsec \<ge> 1000000000 then Timespec (sec + 1) (nsec - 1000000000) else Timespec sec nsec)"

text \<open>The first component of the result is \<open>False\<close> where the code returns -1.\<close>

definition wl_event_source_timer_update ::
  "timespec \<Rightarrow> taddr \<Rightarrow> int \<Rightarrow> 'z timer_heap_scheme \<Rightarrow> (bool \<times> 'z timer_heap_scheme) option" where
  "wl_event_source_timer_update now tsource ms_delay h =
     (if ms_delay > 0 then do {
        let dl = deadline_after now ms_delay;
        h1 \<leftarrow> (if heap_idx (th_tm h tsource) = - 1 then wl_timer_heap_arm tsource dl h
               else if time_lt dl (deadline (th_tm h tsource))
               then heap_sift_up tsource (set_tm tsource (\<lambda>t. t\<lparr>deadline := dl\<rparr>) h)
               else heap_sift_down (th_active h) tsource (set_tm tsource (\<lambda>t. t\<lparr>deadline := dl\<rparr>) h));
        Some (if heap_idx (th_tm h1 tsource) = 0 then set_timer dl h1 else (True, h1)) }
      else if heap_idx (th_tm h tsource) = - 1 then Some (True, h)
      else do {
        h1 \<leftarrow> wl_timer_heap_disarm tsource h;
        Some (if th_active h1 = 0 then clear_timer h1 else (True, h1)) })"

text \<open>Changing one key upwards or downwards leaves what the sift in that direction repairs.\<close>

lemma key_decrease_up_inv:
  assumes h: "is_heap k A" "distinct A" "i < length A" and t: "t \<le> k (A ! i)"
  shows "up_inv (k(A ! i := t)) A i"
proof -
  have ne: "A ! j \<noteq> A ! i" if "j < length A" "j \<noteq> i" for j using that h by (simp add: nth_eq_iff_index_eq)
  have le: "k (A ! hparent j) \<le> k (A ! j)" if "0 < j" "j < length A" for j
    using h that by (simp add: is_heap_def heap_le_def)
  show ?thesis unfolding up_inv_def bridged_def
  proof (intro conjI allI impI)
    fix j assume j: "0 < i" "j < length A" "0 < j" "hparent j = i"
    then have "j \<noteq> i" "hparent i < i" using hparent_less [of i] hparent_less [of j] by auto
    moreover have "k (A ! hparent i) \<le> k (A ! j)" using le [of i] le [of j] j h by simp
    ultimately show "(k(A ! i := t)) (A ! hparent i) \<le> (k(A ! i := t)) (A ! j)"
      using ne j h by simp
  next
    fix j assume j: "j < length A" "0 < j" "j \<noteq> i"
    then show "heap_le (k(A ! i := t)) A j"
      using le [of j] ne [of j] t by (auto simp: heap_le_def)
  qed (use h in simp)
qed

lemma key_increase_down_inv:
  assumes h: "is_heap k A" "distinct A" "i < length A" and t: "k (A ! i) \<le> t"
  shows "down_inv (k(A ! i := t)) A i"
proof -
  have ne: "A ! j \<noteq> A ! i" if "j < length A" "j \<noteq> i" for j using that h by (simp add: nth_eq_iff_index_eq)
  have le: "k (A ! hparent j) \<le> k (A ! j)" if "0 < j" "j < length A" for j
    using h that by (simp add: is_heap_def heap_le_def)
  show ?thesis unfolding down_inv_def bridged_def
  proof (intro conjI allI impI)
    fix j assume j: "0 < i" "j < length A" "0 < j" "hparent j = i"
    then have "j \<noteq> i" "hparent i < i" using hparent_less [of i] hparent_less [of j] by auto
    moreover have "k (A ! hparent i) \<le> k (A ! j)" using le [of i] le [of j] j h by simp
    ultimately show "(k(A ! i := t)) (A ! hparent i) \<le> (k(A ! i := t)) (A ! j)"
      using ne j h by simp
  next
    fix j assume j: "j < length A" "0 < j" "hparent j \<noteq> i"
    then have "hparent j < length A" using hparent_less [of j] by simp
    then show "heap_le (k(A ! i := t)) A j"
      using le [of j] ne [of "hparent j"] j t by (auto simp: heap_le_def)
  qed (use h in simp)
qed

text \<open>What a sift of one timer inside the heap does to the state.\<close>

lemma sifted_ok:
  assumes ok: "timer_heap_ok h" and src: "source \<in> set (armed h)"
    and s: "heap_rep h' C" "mset C = mset (armed h)" "is_heap (dl_of h') C"
      "moved (armed h) (set_tm source (\<lambda>t. t\<lparr>deadline := dl\<rparr>) h) h'"
  shows "timer_heap_ok h'" "mset (armed h') = mset (armed h)" "dl_of h' = (dl_of h)(source := dl)"
proof -
  have C: "set C = set (armed h)" "length C = th_active h"
    using s(2) length_armed [OF ok] by (metis set_mset_mset, metis size_mset)
  note f = moved_fields [OF s(4)]
  have fld: "th_active h' = length C" "0 \<notin> set C" "length (th_data h') = th_space h'"
    "th_active h' \<le> th_count h'" "th_count h' \<le> th_space h'"
    using f C ok by (auto simp: set_tm_def timer_heap_ok_def)
  have rest: "heap_idx (th_tm h' a) = - 1" if "a \<notin> set C" for a
    using that C src f(9) [of a] armed_idx(2) [OF ok, of a] by (auto simp: set_tm_def)
  have okh: "timer_heap_ok h'" "armed h' = C"
    by (rule timer_heap_okI [OF s(1,3) fld rest], assumption)+
  then show "timer_heap_ok h'" "mset (armed h') = mset (armed h)" using s(2) by auto
  have "dl_of h' a = ((dl_of h)(source := dl)) a" for a
    using moved_deadline [OF s(4), of a] by (simp add: set_tm_def)
  then show "dl_of h' = (dl_of h)(source := dl)" by (rule ext)
qed

definition timer_frame :: "'z timer_heap_scheme \<Rightarrow> 'z timer_heap_scheme \<Rightarrow> bool" where
  "timer_frame g h \<longleftrightarrow> th_count h = th_count g \<and> th_fd h = th_fd g \<and> th_armed h = th_armed g \<and>
     settime_script h = settime_script g \<and>
     (\<forall>a. base_fd (th_tm h a) = base_fd (th_tm g a))"

lemma rearm_ok:
  fixes dl :: timespec
  assumes ok: "timer_heap_ok h" and src: "source \<in> set (armed h)"
  defines "h1 \<equiv> set_tm source (\<lambda>t. t\<lparr>deadline := dl\<rparr>) h"
  obtains h' where "(if time_lt dl (dl_of h source) then heap_sift_up source h1
       else heap_sift_down (th_active h) source h1) = Some h'"
    "timer_heap_ok h'" "mset (armed h') = mset (armed h)" "dl_of h' = (dl_of h)(source := dl)"
    "timer_frame h h'"
proof -
  let ?A = "armed h"
  obtain i where i: "i < th_active h" "?A ! i = source" "heap_idx (th_tm h source) = int i"
    using armed_nth [OF ok src] .
  have len: "length ?A = th_active h" by (rule length_armed [OF ok])
  have rep: "heap_rep h1 ?A" using ok by (auto simp: timer_heap_ok_def heap_rep_def h1_def set_tm_def)
  have heap: "is_heap (dl_of h) ?A" "distinct ?A" "i < length ?A"
    using ok i len by (auto simp: timer_heap_ok_def heap_rep_def)
  have idx: "heap_idx (th_tm h1 (?A ! i)) = int i" using i by (simp add: h1_def set_tm_def)
  have k1: "dl_of h1 = (dl_of h)(?A ! i := dl)" using i by (auto simp: h1_def set_tm_def)
  have frame: "timer_frame h h'" if "moved ?A h1 h'" for h'
    using moved_fields [OF that] moved_timer(1) [OF that] by (auto simp: timer_frame_def h1_def set_tm_def)
  show thesis
  proof (cases "time_lt dl (dl_of h source)")
    case True
    then have inv: "up_inv (dl_of h1) ?A i"
      unfolding k1 using key_decrease_up_inv [OF heap, of dl] i by (auto simp: time_lt_less)
    obtain h' where h': "heap_sift_up source h1 = Some h'" "heap_rep h' (heap_up (dl_of h1) ?A i)" "moved ?A h1 h'"
      using heap_sift_up_refines [OF heap_rep_hole [OF rep] heap(3) idx] i by auto
    have "is_heap (dl_of h') (heap_up (dl_of h1) ?A i)" using heap_up_heap [OF inv] h'(3) by simp
    from sifted_ok [OF ok src h'(2) _ this h'(3) [unfolded h1_def]] heap(3) True h' frame that
    show thesis by simp
  next
    case False
    then have inv: "down_inv (dl_of h1) ?A i"
      unfolding k1 using key_increase_down_inv [OF heap, of dl] i by (auto simp: time_lt_less)
    obtain h' where h': "heap_sift_down (length ?A) source h1 = Some h'"
      "heap_rep h' (heap_down (dl_of h1) ?A i)" "moved ?A h1 h'"
      using heap_sift_down_refines [OF heap_rep_hole [OF rep] heap(3) idx] i by auto
    have "is_heap (dl_of h') (heap_down (dl_of h1) ?A i)" using heap_down_heap [OF inv] h'(3) by simp
    from sifted_ok [OF ok src h'(2) _ this h'(3) [unfolded h1_def]] heap(3) False h' frame that len
    show thesis by simp
  qed
qed

lemma timerfd_settime_ok:
  "timerfd_settime t h = (r, h') \<Longrightarrow> timer_heap_ok h' = timer_heap_ok h \<and> armed h' = armed h \<and>
     th_tm h' = th_tm h \<and> th_count h' = th_count h \<and> th_fd h' = th_fd h \<and>
     th_active h' = th_active h \<and> (r \<longrightarrow> th_armed h' = (if t = Timespec 0 0 then None else Some t)) \<and>
     (settime_script h = [] \<longrightarrow> r \<and> settime_script h' = [])"
  by (auto simp: timerfd_settime_def Let_def timer_heap_ok_def armed_def heap_rep_def split: list.splits bool.splits)

text \<open>
  \<open>wakeup_ok\<close>: the kernel timer is set to fire no later than every armed deadline.
\<close>

definition wakeup_ok :: "'z timer_heap_scheme \<Rightarrow> bool" where
  "wakeup_ok h \<longleftrightarrow> (\<forall>a \<in> set (armed h). \<exists>t. th_armed h = Some t \<and> t \<le> dl_of h a)"

lemma armed_root:
  assumes ok: "timer_heap_ok h" and ne: "0 < th_active h"
  shows "data_at h 0 = Some (armed h ! 0)" "armed h ! 0 \<in> set (armed h)"
    "heap_idx (th_tm h (armed h ! 0)) = 0"
    "a \<in> set (armed h) \<Longrightarrow> dl_of h (armed h ! 0) \<le> dl_of h a"
proof -
  have len: "length (armed h) = th_active h" by (rule length_armed [OF ok])
  with ok ne show "data_at h 0 = Some (armed h ! 0)" "heap_idx (th_tm h (armed h ! 0)) = 0"
    by (auto simp: data_at_def timer_heap_ok_def heap_rep_def)
  show "armed h ! 0 \<in> set (armed h)" using len ne by simp
  show "a \<in> set (armed h) \<Longrightarrow> dl_of h (armed h ! 0) \<le> dl_of h a"
    using ok heap_root_least [of "dl_of h" "armed h"] by (auto simp: timer_heap_ok_def in_set_conv_nth)
qed

lemma root_unique:
  assumes ok: "timer_heap_ok h" and a: "a \<in> set (armed h)" "heap_idx (th_tm h a) = 0"
  shows "a = armed h ! 0" "0 < th_active h"
  using armed_nth [OF ok a(1)] a(2) by (metis of_nat_eq_0_iff)+

text \<open>After a change of one timer's deadline, setting the kernel timer if it is the root is enough.\<close>

lemma wakeup_restore:
  assumes ok: "timer_heap_ok h1" and w: "wakeup_ok h" and arm: "th_armed h1 = th_armed h"
    and set: "set (armed h1) = insert source (set (armed h))" and dl: "dl_of h1 = (dl_of h)(source := dl)"
    and pos: "dl \<noteq> Timespec 0 0"
    and res: "(if heap_idx (th_tm h1 source) = 0 then set_timer dl h1 else (True, h1)) = (True, h')"
  shows "wakeup_ok h'"
proof (cases "heap_idx (th_tm h1 source) = 0")
  case True
  note root = root_unique [OF ok _ True]
  have s: "source \<in> set (armed h1)" using set by simp
  have h': "timerfd_settime dl h1 = (True, h')" using res True by (simp add: set_timer_def)
  have "dl_of h1 source = dl" using fun_cong [OF dl, of source] by simp
  then show ?thesis
    using armed_root(4) [OF ok root(2) [OF s]] root(1) [OF s] timerfd_settime_ok [OF h'] pos
    by (simp add: wakeup_ok_def)
next
  case False
  then have h': "h' = h1" using res by simp
  have "source \<in> set (armed h1)" using set by simp
  then have ne: "0 < th_active h1" using length_armed [OF ok] by (cases "armed h1") auto
  let ?r = "armed h1 ! 0"
  note root = armed_root [OF ok ne]
  have "?r \<noteq> source" using root(3) False by auto
  then have r: "?r \<in> set (armed h)" "dl_of h1 ?r = dl_of h ?r"
    using root(2) set fun_cong [OF dl, of ?r] by auto
  then obtain t where "th_armed h1 = Some t" "t \<le> dl_of h1 ?r" using w arm by (auto simp: wakeup_ok_def)
  then show ?thesis unfolding h' wakeup_ok_def using root(4) by (metis order_trans)
qed

text \<open>
  \<open>L\<close> are the timers that have been added and not removed; the heap has reserved a place for
  each of them.
\<close>

definition timers_ok :: "taddr set \<Rightarrow> 'z timer_heap_scheme \<Rightarrow> bool" where
  "timers_ok L h \<longleftrightarrow> timer_heap_ok h \<and> finite L \<and> card L = th_count h \<and> set (armed h) \<subseteq> L \<and> 0 \<notin> L"

lemma timers_ok_room:
  assumes ok: "timers_ok L h" and a: "a \<in> L" "a \<notin> set (armed h)"
  shows "th_active h < th_count h"
proof -
  have "th_active h = card (set (armed h))"
    using ok length_armed [of h] distinct_card [of "armed h"]
    unfolding timers_ok_def timer_heap_ok_def heap_rep_def by metis
  also have "\<dots> < card L" using ok a by (intro psubset_card_mono) (auto simp: timers_ok_def)
  finally show ?thesis using ok by (simp add: timers_ok_def)
qed

lemma ms_split:
  fixes ms :: int
  obtains q r where "ms div 1000 = q" "ms mod 1000 = r" "ms = q * 1000 + r" "0 \<le> r" "r < 1000"
proof
  show "ms = ms div 1000 * 1000 + ms mod 1000" by (rule div_mult_mod_eq [symmetric])
qed (rule refl, rule refl, rule pos_mod_sign, simp, rule pos_mod_bound, simp)

lemma deadline_after_pos:
  assumes "0 \<le> tv_sec now" "0 \<le> tv_nsec now" "tv_nsec now < 1000000000" "0 < ms"
  shows "deadline_after now ms \<noteq> Timespec 0 0" "now < deadline_after now ms"
proof -
  obtain q r where q: "ms div 1000 = q" "ms mod 1000 = r" "ms = q * 1000 + r" "0 \<le> r" "r < 1000"
    by (rule ms_split)
  have p: "0 \<le> q" "0 < q \<or> 0 < r" using q assms(4) by linarith+
  show lt: "now < deadline_after now ms"
    unfolding deadline_after_def q(1,2) Let_def less_timespec_def time_lt_def
    using q(4,5) p assms(1,2,3) by auto
  show "deadline_after now ms \<noteq> Timespec 0 0"
  proof
    assume z: "deadline_after now ms = Timespec 0 0"
    show False using lt assms(1,2) unfolding z less_timespec_def time_lt_def by (auto split: if_splits)
  qed
qed

text \<open>The deadline of a timer set to a positive delay is normalised and lies exactly
  the delay, in nanoseconds, after the current time.\<close>

lemma deadline_after_exact:
  assumes "0 \<le> tv_nsec now" "tv_nsec now < 1000000000" "0 < ms"
  shows "0 \<le> tv_nsec (deadline_after now ms) \<and> tv_nsec (deadline_after now ms) < 1000000000 \<and>
    tv_sec (deadline_after now ms) * 1000000000 + tv_nsec (deadline_after now ms) =
     tv_sec now * 1000000000 + tv_nsec now + ms * 1000000"
proof -
  obtain q r where q: "ms div 1000 = q" "ms mod 1000 = r" "ms = q * 1000 + r" "0 \<le> r" "r < 1000"
    by (rule ms_split)
  show ?thesis
    unfolding deadline_after_def q(1,2) Let_def
    using q(3,4,5) assms(1,2) by auto
qed

lemma deadline_after_exact_witness:
  "tv_sec (deadline_after (Timespec 7 900000000) 1250) * 1000000000
     + tv_nsec (deadline_after (Timespec 7 900000000) 1250) = 9150000000"
  using deadline_after_exact [of "Timespec 7 900000000" 1250] by simp

lemma arm_or_rearm:
  assumes ok: "timers_ok L h" and src: "source \<in> L"
  obtains h1 where "(if heap_idx (th_tm h source) = - 1 then wl_timer_heap_arm source dl h
       else if time_lt dl (deadline (th_tm h source))
       then heap_sift_up source (set_tm source (\<lambda>t. t\<lparr>deadline := dl\<rparr>) h)
       else heap_sift_down (th_active h) source (set_tm source (\<lambda>t. t\<lparr>deadline := dl\<rparr>) h)) = Some h1"
    "timer_heap_ok h1" "set (armed h1) = insert source (set (armed h))"
    "dl_of h1 = (dl_of h)(source := dl)" "timer_frame h h1"
proof -
  have hok: "timer_heap_ok h" using ok by (simp add: timers_ok_def)
  show thesis
  proof (cases "source \<in> set (armed h)")
    case True
    then have "heap_idx (th_tm h source) \<noteq> - 1" using armed_idx(2) [OF hok] by simp
    moreover obtain h1 where h1: "(if time_lt dl (dl_of h source) then heap_sift_up source
          (set_tm source (\<lambda>t. t\<lparr>deadline := dl\<rparr>) h)
         else heap_sift_down (th_active h) source (set_tm source (\<lambda>t. t\<lparr>deadline := dl\<rparr>) h)) = Some h1"
      "timer_heap_ok h1" "mset (armed h1) = mset (armed h)" "dl_of h1 = (dl_of h)(source := dl)"
      "timer_frame h h1"
      using rearm_ok [OF hok True] .
    moreover have "set (armed h1) = insert source (set (armed h))"
      using True h1(3) by (metis insert_absorb set_mset_mset)
    ultimately show thesis using that by auto
  next
    case False
    then have "heap_idx (th_tm h source) = - 1" using armed_idx(2) [OF hok] by simp
    moreover have "source \<noteq> 0" using ok src unfolding timers_ok_def by metis
    moreover have "th_active h < th_count h" by (rule timers_ok_room [OF ok src False])
    ultimately obtain h1 where h1: "wl_timer_heap_arm source dl h = Some h1" "timer_heap_ok h1"
      "mset (armed h1) = add_mset source (mset (armed h))" "dl_of h1 = (dl_of h)(source := dl)"
      "timer_frame h h1"
      using wl_timer_heap_arm_ok [OF hok False, of dl] unfolding timer_frame_def by metis
    moreover have "set (armed h1) = insert source (set (armed h))"
      using h1(3) by (metis set_mset_add_mset_insert set_mset_mset)
    ultimately show thesis using that \<open>heap_idx (th_tm h source) = - 1\<close> by simp
  qed
qed

lemma timers_okI:
  "timers_ok L h \<Longrightarrow> timer_heap_ok h' \<Longrightarrow> set (armed h') \<subseteq> L \<Longrightarrow> th_count h' = th_count h \<Longrightarrow> timers_ok L h'"
  by (simp add: timers_ok_def)

lemma timer_update_set:
  assumes ok: "timers_ok L h" and src: "source \<in> L" and ms: "ms > 0"
  obtains h1 where "wl_event_source_timer_update now source ms h =
      Some (if heap_idx (th_tm h1 source) = 0 then set_timer (deadline_after now ms) h1 else (True, h1))"
    "timers_ok L h1" "set (armed h1) = insert source (set (armed h))"
    "dl_of h1 = (dl_of h)(source := deadline_after now ms)" "timer_frame h h1"
proof -
  let ?dl = "deadline_after now ms"
  obtain h1 where h1: "(if heap_idx (th_tm h source) = - 1 then wl_timer_heap_arm source ?dl h
       else if time_lt ?dl (deadline (th_tm h source))
       then heap_sift_up source (set_tm source (\<lambda>t. t\<lparr>deadline := ?dl\<rparr>) h)
       else heap_sift_down (th_active h) source (set_tm source (\<lambda>t. t\<lparr>deadline := ?dl\<rparr>) h)) = Some h1"
    "timer_heap_ok h1" "set (armed h1) = insert source (set (armed h))"
    "dl_of h1 = (dl_of h)(source := ?dl)" "timer_frame h h1"
    using arm_or_rearm [OF ok src] .
  have "timers_ok L h1"
    using timers_okI [OF ok h1(2)] h1(3,5) ok src by (auto simp: timers_ok_def timer_frame_def)
  moreover have "wl_event_source_timer_update now source ms h =
      Some (if heap_idx (th_tm h1 source) = 0 then set_timer ?dl h1 else (True, h1))"
    using ms h1(1) by (simp add: wl_event_source_timer_update_def)
  ultimately show thesis using that h1 by blast
qed

lemma timer_update_clear:
  assumes ok: "timers_ok L h" and src: "source \<in> L" and ms: "\<not> ms > 0"
  obtains r h' where "wl_event_source_timer_update now source ms h = Some (r, h')"
    "timers_ok L h'" "set (armed h') = set (armed h) - {source}"
    "\<forall>a \<in> set (armed h'). dl_of h' a = dl_of h a"
    "wakeup_ok h \<Longrightarrow> wakeup_ok h'" "settime_script h = [] \<Longrightarrow> r" "th_count h' = th_count h"
proof -
  have hok: "timer_heap_ok h" using ok by (simp add: timers_ok_def)
  show thesis
  proof (cases "source \<in> set (armed h)")
    case False
    then have "wl_event_source_timer_update now source ms h = Some (True, h)"
      using armed_idx(2) [OF hok] ms by (simp add: wl_event_source_timer_update_def)
    from that [OF this ok] False show thesis by simp
  next
    case True
    then have idx: "heap_idx (th_tm h source) \<noteq> - 1" using armed_idx(2) [OF hok] by simp
    obtain h1 where h1: "wl_timer_heap_disarm source h = Some h1" "timer_heap_ok h1"
      "mset (armed h1) = mset (armed h) - {#source#}" "dl_of h1 = (dl_of h)(source := Timespec 0 0)"
      "th_count h1 = th_count h" "th_armed h1 = th_armed h" "settime_script h1 = settime_script h"
      using wl_timer_heap_disarm_ok [OF hok True] by metis
    have dist: "distinct (armed h)" using hok by (simp add: timer_heap_ok_def heap_rep_def)
    have set1: "set (armed h1) = set (armed h) - {source}"
      using h1(3) dist by (metis mset_remove1 set_mset_mset set_remove1_eq)
    have ok1: "timers_ok L h1" using timers_okI [OF ok h1(2) _ h1(5)] set1 ok by (auto simp: timers_ok_def)
    have dl: "\<forall>a \<in> set (armed h1). dl_of h1 a = dl_of h a"
      using set1 fun_cong [OF h1(4)] by auto
    show thesis
    proof (cases "th_active h1 = 0")
      case False
      have res: "wl_event_source_timer_update now source ms h = Some (True, h1)"
        using ms idx h1(1) False by (simp add: wl_event_source_timer_update_def)
      have "wakeup_ok h \<Longrightarrow> wakeup_ok h1" using dl set1 h1(6) by (auto simp: wakeup_ok_def)
      from that [OF res ok1 set1 dl this _ h1(5)] show thesis by simp
    next
      case empty: True
      obtain r h' where c: "clear_timer h1 = (r, h')" by (cases "clear_timer h1")
      note t = timerfd_settime_ok [OF c [unfolded clear_timer_def]]
      have res: "wl_event_source_timer_update now source ms h = Some (r, h')"
        using ms idx h1(1) empty c by (simp add: wl_event_source_timer_update_def)
      have "armed h' = []" using t empty by (simp add: armed_def)
      then have "wakeup_ok h'" by (simp add: wakeup_ok_def)
      moreover have "timers_ok L h'" using t ok1 by (simp add: timers_ok_def)
      ultimately show thesis using that [OF res] t set1 dl h1(5,7) by simp
    qed
  qed
qed

text \<open>C20: Updating a timer that is in the loop never accesses the heap array out of bounds,
  returns, and leaves a well-formed heap.  A positive delay makes the timer armed with its new
  deadline, another delay disarms it; no other timer is touched.  When the call reports
  success and the kernel timer covered every armed deadline before, it does so afterwards: no
  armed timer can be slept through.\<close>

theorem timer_update_correct:
  assumes "timers_ok L h" "source \<in> L"
    "0 \<le> tv_sec now" "0 \<le> tv_nsec now" "tv_nsec now < 1000000000"
  shows "\<exists>r h'. wl_event_source_timer_update now source ms h = Some (r, h') \<and> timers_ok L h' \<and>
    set (armed h') = (if ms > 0 then insert source (set (armed h)) else set (armed h) - {source}) \<and>
    (\<forall>a \<in> set (armed h'). dl_of h' a = (if a = source then deadline_after now ms else dl_of h a)) \<and>
    (r \<longrightarrow> wakeup_ok h \<longrightarrow> wakeup_ok h') \<and> (settime_script h = [] \<longrightarrow> r)"
proof (cases "ms > 0")
  case False
  obtain r h' where "wl_event_source_timer_update now source ms h = Some (r, h')"
    "timers_ok L h'" "set (armed h') = set (armed h) - {source}"
    "\<forall>a \<in> set (armed h'). dl_of h' a = dl_of h a"
    "wakeup_ok h \<Longrightarrow> wakeup_ok h'" "settime_script h = [] \<Longrightarrow> r"
    using timer_update_clear [OF assms(1,2) False] by metis
  with False show ?thesis by auto
next
  case True
  let ?dl = "deadline_after now ms"
  obtain h1 where h1: "wl_event_source_timer_update now source ms h =
      Some (if heap_idx (th_tm h1 source) = 0 then set_timer ?dl h1 else (True, h1))"
    "timers_ok L h1" "set (armed h1) = insert source (set (armed h))"
    "dl_of h1 = (dl_of h)(source := ?dl)" "timer_frame h h1"
    using timer_update_set [OF assms(1,2) True] .
  have fr: "th_armed h1 = th_armed h" "settime_script h1 = settime_script h" "timer_heap_ok h1"
    using h1(2,5) by (auto simp: timer_frame_def timers_ok_def)
  obtain r h' where r: "(if heap_idx (th_tm h1 source) = 0 then set_timer ?dl h1 else (True, h1)) = (r, h')"
    by (metis surj_pair)
  then have t: "timer_heap_ok h' = timer_heap_ok h1 \<and> armed h' = armed h1 \<and> th_tm h' = th_tm h1
      \<and> th_count h' = th_count h1 \<and> (settime_script h1 = [] \<longrightarrow> r)"
    using timerfd_settime_ok [of ?dl h1 r h'] by (auto simp: set_timer_def split: if_splits)
  have "wakeup_ok h'" if "r" "wakeup_ok h"
    using wakeup_restore [OF fr(3) that(2) fr(1) h1(3,4) deadline_after_pos(1) [OF assms(3,4,5) True]] r that(1) by simp
  moreover have "timers_ok L h'" using h1(2) t by (simp add: timers_ok_def)
  moreover have "dl_of h' a = (if a = source then ?dl else dl_of h a)" for a
    using fun_cong [OF h1(4), of a] t by simp
  ultimately show ?thesis using h1(1,3) r t True fr by auto
qed

definition sample_timer :: "int \<Rightarrow> int \<Rightarrow> nat \<Rightarrow> timer" where
  "sample_timer sec idx d =
     \<lparr>base_fd = - 1, deadline = Timespec sec 0, heap_idx = idx, tm_func = 1, tm_data = d\<rparr>"

definition sample_heap :: timer_heap where
  "sample_heap = \<lparr>th_fd = 9, th_data = [20, 10, 40, 0, 0, 0, 0, 0], th_space = 8, th_active = 3, th_count = 4,
     th_tm = (\<lambda>_. sample_timer 0 (- 1) 0)(10 := sample_timer 5 1 100, 20 := sample_timer 3 0 200,
               40 := sample_timer 8 2 400),
     th_armed = Some (Timespec 3 0), settime_script = []\<rparr>"

lemma all_less_3: "(\<forall>i < Suc (Suc (Suc 0)). P i) \<longleftrightarrow> P 0 \<and> P (Suc 0) \<and> P (Suc (Suc 0))"
  by (auto simp: less_Suc_eq)

lemma sample_armed: "armed sample_heap = [20, 10, 40]"
  by (simp add: armed_def sample_heap_def numeral_3_eq_3)

lemma sample_dl:
  "dl_of sample_heap 20 = Timespec 3 0" "dl_of sample_heap 10 = Timespec 5 0" "dl_of sample_heap 40 = Timespec 8 0"
  "base_fd (th_tm sample_heap a) = - 1"
  by (simp_all add: sample_heap_def sample_timer_def)

lemma sample_heap_ok: "timer_heap_ok sample_heap"
proof -
  have rep: "heap_rep sample_heap [20, 10, 40]"
    unfolding heap_rep_def list.size add_0 add_Suc all_less_3
    by (simp add: sample_heap_def sample_timer_def)
  have order: "is_heap (dl_of sample_heap) [20, 10, 40]"
  proof -
    have "Timespec 3 0 \<le> Timespec 5 0" "Timespec 3 0 \<le> Timespec 8 0"
      by (simp_all add: less_eq_timespec_def time_lt_def)
    then have "heap_le (dl_of sample_heap) [20, 10, 40] i" if "0 < i" "i < 3" for i
      using that by (auto simp: heap_le_def hparent_def sample_heap_def sample_timer_def numeral_3_eq_3 less_Suc_eq)
    then show ?thesis by (simp add: is_heap_def)
  qed
  have "heap_idx (th_tm sample_heap a) = - 1" if "a \<notin> {20, 10, 40}" for a
    using that by (simp add: sample_heap_def sample_timer_def)
  then show ?thesis
    using rep order by (simp add: timer_heap_ok_def sample_armed) (simp add: sample_heap_def)
qed

lemma sample_timers_ok: "timers_ok {10, 20, 30, 40} sample_heap"
  using sample_heap_ok by (simp add: timers_ok_def sample_armed) (simp add: sample_heap_def)

lemma timer_update_correct_witness:
  "\<exists>r h'. wl_event_source_timer_update (Timespec 1 0) 30 1500 sample_heap = Some (r, h') \<and>
     timers_ok {10, 20, 30, 40} h' \<and> set (armed h') = {10, 20, 30, 40} \<and> dl_of h' 30 = Timespec 2 500000000"
proof -
  obtain r h' where "wl_event_source_timer_update (Timespec 1 0) 30 1500 sample_heap = Some (r, h')"
    "timers_ok {10, 20, 30, 40} h'" and set: "set (armed h') = insert 30 (set (armed sample_heap))"
    and dl: "\<forall>a \<in> set (armed h'). dl_of h' a =
        (if a = 30 then deadline_after (Timespec 1 0) 1500 else dl_of sample_heap a)"
    using timer_update_correct [OF sample_timers_ok, of 30 "Timespec 1 0" 1500] by auto
  moreover have "dl_of h' 30 = Timespec 2 500000000"
    using dl set by (simp add: deadline_after_def)
  ultimately show ?thesis by (auto simp: sample_armed)
qed

section \<open>Dispatching the due timers\<close>

partial_function (option) pop_due :: "timespec \<Rightarrow> 'z timer_heap_scheme \<Rightarrow> (taddr list \<times> 'z timer_heap_scheme) option" where
  "pop_due now h =
     (if th_active h > 0 then do {
        root \<leftarrow> data_at h 0;
        if time_lt now (deadline (th_tm h root)) then Some ([], h)
        else do {
          h1 \<leftarrow> wl_timer_heap_disarm root h;
          (due, h2) \<leftarrow> pop_due now h1;
          Some (root # due, h2) } }
      else Some ([], h))"

text \<open>
  The functions of the due timers run in the order of the list; \<open>cb\<close> says what a function
  does to the heap when it is called with its data.  The first result lists the timers whose
  function ran.
\<close>

fun run_due :: "(nat \<Rightarrow> nat \<Rightarrow> 'z timer_heap_scheme \<Rightarrow> 'z timer_heap_scheme) \<Rightarrow> taddr list \<Rightarrow> 'z timer_heap_scheme \<Rightarrow> taddr list \<times> 'z timer_heap_scheme" where
  "run_due cb [] h = ([], h)"
| "run_due cb (t # ts) h =
     (if base_fd (th_tm h t) \<noteq> TIMER_REMOVED then
        let (ran, h') = run_due cb ts (cb (tm_func (th_tm h t)) (tm_data (th_tm h t)) h) in (t # ran, h')
      else run_due cb ts h)"

definition wl_timer_heap_dispatch ::
  "(nat \<Rightarrow> nat \<Rightarrow> 'z timer_heap_scheme \<Rightarrow> 'z timer_heap_scheme) \<Rightarrow> timespec \<Rightarrow> 'z timer_heap_scheme \<Rightarrow> (bool \<times> taddr list \<times> 'z timer_heap_scheme) option" where
  "wl_timer_heap_dispatch cb now h = do {
     (due, h1) \<leftarrow> pop_due now h;
     (ok, h2) \<leftarrow> (if th_active h1 > 0 then do {
                    root \<leftarrow> data_at h1 0;
                    Some (set_timer (deadline (th_tm h1 root)) h1) }
                  else Some (clear_timer h1));
     if \<not> ok then Some (False, [], h2)
     else (let (ran, h3) = run_due cb due h2 in Some (True, ran, h3)) }"

text \<open>
  The interface the loop relies on: a collection of elements with keys, of which \<open>least\<close> finds
  one with the least key and \<open>pop\<close> takes one out.  Draining it up to a bound takes out exactly
  the elements up to the bound, in the order of their keys.
\<close>

locale min_queue =
  fixes ok :: "'q \<Rightarrow> bool" and elems :: "'q \<Rightarrow> 'a set" and key :: "'q \<Rightarrow> 'a \<Rightarrow> 'k :: linorder"
    and least :: "'q \<Rightarrow> 'a option" and pop :: "'a \<Rightarrow> 'q \<Rightarrow> 'q option"
    and drain :: "'k \<Rightarrow> 'q \<Rightarrow> ('a list \<times> 'q) option"
  assumes finite_elems: "ok q \<Longrightarrow> finite (elems q)"
    and least_None: "ok q \<Longrightarrow> least q = None \<longleftrightarrow> elems q = {}"
    and least_Some: "ok q \<Longrightarrow> least q = Some a \<Longrightarrow> a \<in> elems q \<and> (\<forall>b \<in> elems q. key q a \<le> key q b)"
    and pop_law: "ok q \<Longrightarrow> a \<in> elems q \<Longrightarrow>
      \<exists>q'. pop a q = Some q' \<and> ok q' \<and> elems q' = elems q - {a} \<and> (\<forall>b \<in> elems q'. key q' b = key q b)"
    and drain_law: "ok q \<Longrightarrow> drain now q =
      (case least q of None \<Rightarrow> Some ([], q)
       | Some a \<Rightarrow> if now < key q a then Some ([], q)
           else pop a q \<bind> (\<lambda>q1. drain now q1 \<bind> (\<lambda>(due, q2). Some (a # due, q2))))"
begin

lemma drain_correct:
  "ok q \<Longrightarrow> \<exists>due q'. drain now q = Some (due, q') \<and> ok q' \<and> distinct due \<and>
     set due = {a \<in> elems q. key q a \<le> now} \<and> sorted (map (key q) due) \<and>
     elems q' = {a \<in> elems q. now < key q a} \<and> (\<forall>a \<in> elems q'. key q' a = key q a)"
proof (induction "card (elems q)" arbitrary: q rule: less_induct)
  case less
  note okq = less.prems
  show ?case
  proof (cases "least q")
    case None
    then have "drain now q = Some ([], q)" "elems q = {}" using drain_law [OF okq] least_None [OF okq] None by auto
    with okq show ?thesis by auto
  next
    case (Some a)
    then have a: "a \<in> elems q" "\<forall>b \<in> elems q. key q a \<le> key q b" using least_Some okq by auto
    show ?thesis
    proof (cases "now < key q a")
      case True
      then have "drain now q = Some ([], q)" using drain_law [OF okq] Some by simp
      moreover have "now < key q b" if "b \<in> elems q" for b using a(2) that True by (meson less_le_trans)
      ultimately show ?thesis using okq by (auto simp: not_le)
    next
      case False
      obtain q1 where q1: "pop a q = Some q1" "ok q1" "elems q1 = elems q - {a}" "\<forall>b \<in> elems q1. key q1 b = key q b"
        using pop_law okq a(1) by blast
      have "card (elems q1) < card (elems q)"
        using q1(3) a(1) finite_elems okq by (metis card_Diff1_less)
      from less.hyps [OF this q1(2)] obtain due q' where d: "drain now q1 = Some (due, q')" "ok q'" "distinct due"
        "set due = {b \<in> elems q1. key q1 b \<le> now}" "sorted (map (key q1) due)"
        "elems q' = {b \<in> elems q1. now < key q1 b}" "\<forall>b \<in> elems q'. key q' b = key q1 b" by blast
      have dr: "drain now q = Some (a # due, q')" using drain_law [OF okq] Some False q1(1) d(1) by simp
      have keys: "map (key q1) due = map (key q) due" using d(4) q1(4) by auto
      have "set (a # due) = {b \<in> elems q. key q b \<le> now}" using d(4) q1(3,4) a(1) False by (auto simp: not_less)
      moreover have "distinct (a # due)" "sorted (map (key q) (a # due))"
        using d(3,4,5) q1(3) a(2) keys by auto
      moreover have "b \<in> elems q1 \<and> now < key q1 b \<longleftrightarrow> b \<in> elems q \<and> now < key q b" for b
        using q1(3,4) False by (cases "b = a") auto
      then have "elems q' = {b \<in> elems q. now < key q b}" using d(6) by blast
      moreover have "\<forall>b \<in> elems q'. key q' b = key q b" using d(6,7) q1(4) by auto
      ultimately show ?thesis using dr d(2) by blast
    qed
  qed
qed

end

definition heap_least :: "'z timer_heap_scheme \<Rightarrow> taddr option" where
  "heap_least h = (if th_active h > 0 then data_at h 0 else None)"

interpretation due_timers: min_queue
  "\<lambda>h. timers_ok L h \<and> timer_frame g h" "\<lambda>h. set (armed h)" dl_of heap_least wl_timer_heap_disarm pop_due
  for L g
proof
  fix q a now
  assume q: "timers_ok L q \<and> timer_frame g q"
  then have ok: "timer_heap_ok q" by (simp add: timers_ok_def)
  have len: "length (armed q) = th_active q" by (rule length_armed [OF ok])
  have least: "heap_least q = (if 0 < th_active q then Some (armed q ! 0) else None)"
    using armed_root(1) [OF ok] by (simp add: heap_least_def)
  show "finite (set (armed q))" by simp
  show "(heap_least q = None) = (set (armed q) = {})" using least len by auto
  show "heap_least q = Some a \<Longrightarrow> a \<in> set (armed q) \<and> (\<forall>b \<in> set (armed q). dl_of q a \<le> dl_of q b)"
    using least armed_root(2,4) [OF ok] by (auto split: if_splits)
  show "\<exists>q'. wl_timer_heap_disarm a q = Some q' \<and> (timers_ok L q' \<and> timer_frame g q') \<and>
      set (armed q') = set (armed q) - {a} \<and> (\<forall>b \<in> set (armed q'). dl_of q' b = dl_of q b)"
    if a: "a \<in> set (armed q)"
  proof -
    obtain q' where q': "wl_timer_heap_disarm a q = Some q'" "timer_heap_ok q'"
      "mset (armed q') = mset (armed q) - {#a#}" "dl_of q' = (dl_of q)(a := Timespec 0 0)" "timer_frame q q'"
      using wl_timer_heap_disarm_ok [OF ok a] unfolding timer_frame_def by metis
    have dist: "distinct (armed q)" using ok by (simp add: timer_heap_ok_def heap_rep_def)
    have set: "set (armed q') = set (armed q) - {a}"
      using q'(3) dist by (metis mset_remove1 set_mset_mset set_remove1_eq)
    have "timers_ok L q'" using timers_okI [of L q q'] q q'(2,5) set by (auto simp: timers_ok_def timer_frame_def)
    moreover have "timer_frame g q'" using q q'(5) by (simp add: timer_frame_def)
    moreover have "\<forall>b \<in> set (armed q'). dl_of q' b = dl_of q b" using set fun_cong [OF q'(4)] by auto
    ultimately show ?thesis using q'(1) set by blast
  qed
  show "pop_due now q = (case heap_least q of None \<Rightarrow> Some ([], q)
       | Some a \<Rightarrow> if now < dl_of q a then Some ([], q)
           else wl_timer_heap_disarm a q \<bind> (\<lambda>q1. pop_due now q1 \<bind> (\<lambda>(due, q2). Some (a # due, q2))))"
    using armed_root(1) [OF ok] by (subst pop_due.simps) (simp add: least time_lt_less)
qed

lemma run_due_subseq: "subseq (fst (run_due cb due h)) due"
  by (induction due arbitrary: h) (auto simp: Let_def split: prod.splits, metis fst_conv)

lemma run_due_all:
  assumes "\<And>f d g a. base_fd (th_tm (cb f d g) a) = base_fd (th_tm g a)"
  shows "\<forall>a \<in> set due. base_fd (th_tm h a) \<noteq> TIMER_REMOVED \<Longrightarrow> fst (run_due cb due h) = due"
  using assms by (induction due arbitrary: h) (auto simp: Let_def split: prod.splits, metis fst_conv)

lemma run_due_keeps:
  assumes "\<And>f d g. P g \<Longrightarrow> P (cb f d g)"
  shows "P h \<Longrightarrow> P (snd (run_due cb due h))"
  using assms by (induction due arbitrary: h) (auto simp: Let_def split: prod.splits, metis snd_conv)

lemma timers_ok_script [simp]: "timers_ok L (h\<lparr>settime_script := s\<rparr>) = timers_ok L h"
  by (simp add: timers_ok_def timer_heap_ok_def heap_rep_def armed_def)

lemma timers_ok_settime:
  "timerfd_settime t h = (r, h') \<Longrightarrow> timers_ok L h' = timers_ok L h"
  using timerfd_settime_ok [of t h r h'] by (auto simp: timers_ok_def)

text \<open>What the dispatch does before it runs the functions.\<close>

definition after_due :: "timespec \<Rightarrow> 'z timer_heap_scheme \<Rightarrow> taddr list \<Rightarrow> 'z timer_heap_scheme \<Rightarrow> bool" where
  "after_due now h due h2 \<longleftrightarrow> distinct due \<and> set due = {a \<in> set (armed h). dl_of h a \<le> now} \<and>
     sorted (map (dl_of h) due) \<and> set (armed h2) = {a \<in> set (armed h). now < dl_of h a} \<and>
     (\<forall>a \<in> set (armed h2). dl_of h2 a = dl_of h a) \<and> (\<forall>a. base_fd (th_tm h2 a) = base_fd (th_tm h a))"

lemma dispatch_prefix:
  assumes ok: "timers_ok L h" and now: "0 \<le> tv_sec now" "0 \<le> tv_nsec now"
  obtains due r h2 where "wl_timer_heap_dispatch cb now h =
      Some (if r then let (ran, h3) = run_due cb due h2 in (True, ran, h3) else (False, [], h2))"
    "after_due now h due h2" "timers_ok L h2" "r \<Longrightarrow> wakeup_ok h2"
    "r = (case settime_script h of [] \<Rightarrow> True | b # _ \<Rightarrow> b)"
proof -
  have fr: "timer_frame h h" by (simp add: timer_frame_def)
  obtain due h1 where d: "pop_due now h = Some (due, h1)" "timers_ok L h1" "timer_frame h h1" "distinct due"
    "set due = {a \<in> set (armed h). dl_of h a \<le> now}" "sorted (map (dl_of h) due)"
    "set (armed h1) = {a \<in> set (armed h). now < dl_of h a}" "\<forall>a \<in> set (armed h1). dl_of h1 a = dl_of h a"
    using due_timers.drain_correct [of L h h now] ok fr by blast
  have ok1: "timer_heap_ok h1" using d(2) by (simp add: timers_ok_def)
  define t where "t = (if th_active h1 > 0 then dl_of h1 (armed h1 ! 0) else Timespec 0 0)"
  obtain r h2 where s: "timerfd_settime t h1 = (r, h2)" by (metis surj_pair)
  note ts = timerfd_settime_ok [OF s]
  have scr: "settime_script h1 = settime_script h" using d(3) by (simp add: timer_frame_def)
  have "wl_timer_heap_dispatch cb now h =
      Some (if r then let (ran, h3) = run_due cb due h2 in (True, ran, h3) else (False, [], h2))"
    using d(1) s armed_root(1) [OF ok1]
    by (cases "th_active h1 > 0")
       (auto simp: wl_timer_heap_dispatch_def set_timer_def clear_timer_def t_def Let_def split: prod.splits)
  moreover have "after_due now h due h2"
    unfolding after_due_def using d ts by (simp add: timer_frame_def)
  moreover have "timers_ok L h2" using timers_ok_settime [OF s] d(2) by simp
  moreover have "wakeup_ok h2" if r
  proof (cases "th_active h1 > 0")
    case True
    have root: "armed h1 ! 0 \<in> set (armed h1)" by (rule armed_root(2) [OF ok1 True])
    then have "now < t" using d(7,8) True by (simp add: t_def)
    then have "t \<noteq> Timespec 0 0" using now by (auto simp: less_timespec_def time_lt_def split: if_splits)
    then have "th_armed h2 = Some t" using ts that by simp
    then show ?thesis using armed_root(4) [OF ok1 True] ts True by (auto simp: wakeup_ok_def t_def)
  next
    case False
    then show ?thesis using ts by (simp add: wakeup_ok_def armed_def)
  qed
  moreover have "r = (case settime_script h of [] \<Rightarrow> True | b # _ \<Rightarrow> b)"
    using s scr by (auto simp: timerfd_settime_def Let_def split: list.splits bool.splits)
  ultimately show thesis using that by blast
qed

text \<open>C21: When the kernel timer can be set, a dispatch takes exactly the timers whose deadline
  has passed out of the heap, in the order of their deadlines, sets the kernel timer for the
  rest, and runs the functions of the expired timers in that order; a function is left out
  only when its timer was removed, so when no function removes timers all of them run.\<close>

theorem timer_dispatch_due_in_order:
  assumes "timers_ok L h" "0 \<le> tv_sec now" "0 \<le> tv_nsec now" "settime_script h = []"
  shows "\<exists>due ran h2 h'. wl_timer_heap_dispatch cb now h = Some (True, ran, h') \<and>
    distinct due \<and> set due = {a \<in> set (armed h). dl_of h a \<le> now} \<and> sorted (map (dl_of h) due) \<and>
    timers_ok L h2 \<and> wakeup_ok h2 \<and> set (armed h2) = {a \<in> set (armed h). now < dl_of h a} \<and>
    run_due cb due h2 = (ran, h') \<and> subseq ran due \<and>
    ((\<forall>f d g a. base_fd (th_tm (cb f d g) a) = base_fd (th_tm g a)) \<and>
     (\<forall>a \<in> set (armed h). base_fd (th_tm h a) \<noteq> TIMER_REMOVED) \<longrightarrow> ran = due)"
proof -
  obtain due r h2 where p: "wl_timer_heap_dispatch cb now h =
      Some (if r then let (ran, h3) = run_due cb due h2 in (True, ran, h3) else (False, [], h2))"
    "after_due now h due h2" "timers_ok L h2" "r \<Longrightarrow> wakeup_ok h2"
    "r = (case settime_script h of [] \<Rightarrow> True | b # _ \<Rightarrow> b)"
    using dispatch_prefix [OF assms(1,2,3)] by metis
  then have r: r using assms(4) by simp
  obtain ran h' where run: "run_due cb due h2 = (ran, h')" by (metis surj_pair)
  have sub: "subseq ran due" using run_due_subseq [of cb due h2] run by simp
  have "ran = due" if "\<forall>f d g a. base_fd (th_tm (cb f d g) a) = base_fd (th_tm g a)"
    "\<forall>a \<in> set (armed h). base_fd (th_tm h a) \<noteq> TIMER_REMOVED"
    using run_due_all [of cb due h2] that run p(2) by (auto simp: after_due_def)
  then show ?thesis using p(1,3,4) r run sub p(2)
    by (intro exI [of _ due] exI [of _ ran] exI [of _ h2] exI [of _ h']) (auto simp: after_due_def)
qed

lemma timer_dispatch_due_in_order_witness:
  "\<exists>due ran h'. wl_timer_heap_dispatch (\<lambda>_ _ h. h) (Timespec 6 0) sample_heap = Some (True, ran, h') \<and>
     set due = {20, 10} \<and> sorted (map (dl_of sample_heap) due) \<and> ran = due"
proof -
  have s: "settime_script sample_heap = []" by (simp add: sample_heap_def)
  have fd: "\<forall>a \<in> set (armed sample_heap). base_fd (th_tm sample_heap a) \<noteq> TIMER_REMOVED"
    by (simp add: sample_dl TIMER_REMOVED_def)
  obtain due ran h' where "wl_timer_heap_dispatch (\<lambda>_ _ h. h) (Timespec 6 0) sample_heap = Some (True, ran, h')"
    "set due = {a \<in> set (armed sample_heap). dl_of sample_heap a \<le> Timespec 6 0}"
    "sorted (map (dl_of sample_heap) due)" "ran = due"
    using timer_dispatch_due_in_order [OF sample_timers_ok, of "Timespec 6 0" "\<lambda>_ _ h. h"] s fd by auto
  moreover have "{a \<in> set (armed sample_heap). dl_of sample_heap a \<le> Timespec 6 0} = {20, 10}"
    unfolding sample_armed by (auto simp: sample_dl less_eq_timespec_def time_lt_def)
  ultimately show ?thesis by auto
qed

text \<open>When setting the kernel timer fails, the expired timers have already been taken out of
  the heap: the dispatch returns an error, none of their functions runs, and they are no
  longer armed.\<close>

lemma timer_dispatch_failure_drops_due:
  assumes "timers_ok L h" "0 \<le> tv_sec now" "0 \<le> tv_nsec now" "settime_script h = False # rest"
  shows "\<exists>h'. wl_timer_heap_dispatch cb now h = Some (False, [], h') \<and> timers_ok L h' \<and>
    set (armed h') = {a \<in> set (armed h). now < dl_of h a}"
proof -
  obtain due r h2 where p: "wl_timer_heap_dispatch cb now h =
      Some (if r then let (ran, h3) = run_due cb due h2 in (True, ran, h3) else (False, [], h2))"
    "after_due now h due h2" "timers_ok L h2"
    "r = (case settime_script h of [] \<Rightarrow> True | b # _ \<Rightarrow> b)"
    using dispatch_prefix [OF assms(1,2,3)] by metis
  with assms(4) show ?thesis by (auto simp: after_due_def)
qed

lemma timer_dispatch_failure_drops_due_witness:
  "\<exists>h'. wl_timer_heap_dispatch (\<lambda>_ _ h. h) (Timespec 6 0) (sample_heap\<lparr>settime_script := [False]\<rparr>) =
       Some (False, [], h') \<and> set (armed h') = {40}"
proof -
  let ?h = "sample_heap\<lparr>settime_script := [False]\<rparr>"
  have ok: "timers_ok {10, 20, 30, 40} ?h"
    using sample_timers_ok by simp
  have a: "armed ?h = [20, 10, 40]" using sample_armed by (simp add: armed_def)
  obtain h' where "wl_timer_heap_dispatch (\<lambda>_ _ h. h) (Timespec 6 0) ?h = Some (False, [], h')"
    "set (armed h') = {a \<in> set (armed ?h). Timespec 6 0 < dl_of ?h a}"
    using timer_dispatch_failure_drops_due [OF ok, of "Timespec 6 0" "[]" "\<lambda>_ _ h. h"] by auto
  moreover have "{b \<in> set (armed ?h). Timespec 6 0 < dl_of ?h b} = {40}"
    unfolding a by (auto simp: sample_dl less_timespec_def time_lt_def)
  ultimately show ?thesis by auto
qed

section \<open>Adding and removing timers\<close>

text \<open>
  \<open>tfd\<close> and \<open>epoll_ok\<close> are the results of the system calls, \<open>src\<close> the address \<open>malloc\<close> returns
  (0: it failed), \<open>alloc_ok\<close> whether \<open>realloc\<close> succeeds.
\<close>

definition wl_event_loop_add_timer ::
  "int \<Rightarrow> bool \<Rightarrow> taddr \<Rightarrow> bool \<Rightarrow> nat \<Rightarrow> nat \<Rightarrow> 'z timer_heap_scheme \<Rightarrow> taddr \<times> int list \<times> 'z timer_heap_scheme" where
  "wl_event_loop_add_timer tfd epoll_ok src alloc_ok func data h =
     (let (ok, cl, h1) = wl_timer_heap_ensure_timerfd tfd epoll_ok h in
      if \<not> ok then (0, cl, h1)
      else if src = 0 then (0, cl, h1)
      else
        let h2 = set_tm src (\<lambda>_. \<lparr>base_fd = - 1, deadline = Timespec 0 0, heap_idx = - 1,
                                   tm_func = func, tm_data = data\<rparr>) h1;
            (ok2, h3) = wl_timer_heap_reserve alloc_ok h2 in
        if \<not> ok2 then (0, cl, h3) else (src, cl, h3))"

text \<open>The part of \<open>wl_event_source_remove\<close> that is for timer sources.\<close>

definition timer_source_remove :: "timespec \<Rightarrow> bool \<Rightarrow> taddr \<Rightarrow> 'z timer_heap_scheme \<Rightarrow> 'z timer_heap_scheme option" where
  "timer_source_remove now alloc_ok source h =
     (if base_fd (th_tm h source) \<noteq> TIMER_REMOVED then do {
        (_, h1) \<leftarrow> wl_event_source_timer_update now source 0 h;
        let h2 = wl_timer_heap_unreserve alloc_ok h1;
        Some (set_tm source (\<lambda>t. t\<lparr>base_fd := TIMER_REMOVED\<rparr>) h2) }
      else Some h)"

lemma timers_ok_set_tm:
  assumes "timers_ok L h" "\<And>t. heap_idx (f t) = heap_idx t" "\<And>t. deadline (f t) = deadline t"
  shows "timers_ok L (set_tm a f h)"
proof -
  have "dl_of (set_tm a f h) = dl_of h" using assms(3) by (auto simp: set_tm_def)
  moreover have "heap_idx (th_tm (set_tm a f h) b) = heap_idx (th_tm h b)" for b
    using assms(2) by (simp add: set_tm_def)
  moreover have "armed (set_tm a f h) = armed h" by (simp add: armed_def set_tm_def)
  ultimately show ?thesis using assms(1)
    unfolding timers_ok_def timer_heap_ok_def heap_rep_def by (simp add: set_tm_def)
qed

lemma timer_heap_ok_realloc:
  assumes ok: "timer_heap_ok h" and n: "th_count h \<le> n"
  shows "timer_heap_ok (data_realloc n h)" "armed (data_realloc n h) = armed h"
proof -
  have len: "th_active h \<le> n" "th_active h \<le> length (th_data h)" using ok n by (auto simp: timer_heap_ok_def)
  have a: "armed (data_realloc n h) = armed h" using len by (auto simp: armed_def data_realloc_def min_def)
  then show "armed (data_realloc n h) = armed h" .
  have "length (armed h) = th_active h" by (rule length_armed [OF ok])
  moreover have "th_data (data_realloc n h) ! i = th_data h ! i" if "i < th_active h" for i
    using that len by (simp add: data_realloc_def nth_append)
  ultimately show "timer_heap_ok (data_realloc n h)"
    using ok n a len unfolding timer_heap_ok_def heap_rep_def by (auto simp: data_realloc_def)
qed

lemma timers_ok_reserve:
  assumes ok: "timers_ok L h" and a: "a \<notin> L" "a \<noteq> 0" and r: "wl_timer_heap_reserve alloc_ok h = (r, h')"
  shows "timers_ok (if r then insert a L else L) h'"
proof -
  have card: "card (insert a L) = Suc (th_count h)" "finite (insert a L)"
    using ok a by (auto simp: timers_ok_def)
  have grow: "timers_ok (insert a L) (g\<lparr>th_count := Suc (th_count h)\<rparr>)"
    if "timer_heap_ok g" "armed g = armed h" "Suc (th_count h) \<le> th_space g" "th_active g \<le> th_count h" for g
  proof -
    have "armed (g\<lparr>th_count := Suc (th_count h)\<rparr>) = armed g" by (simp add: armed_def)
    then show ?thesis
      using that ok card a by (auto simp: timers_ok_def timer_heap_ok_def heap_rep_def)
  qed
  have hok: "timer_heap_ok h" "th_count h \<le> th_space h" "th_active h \<le> th_count h"
    using ok by (auto simp: timers_ok_def timer_heap_ok_def)
  show ?thesis
  proof (cases "th_count h + 1 > th_space h")
    case True
    let ?n = "if th_space h \<ge> 8 then th_space h * 2 else 8"
    have n: "th_count h \<le> ?n" "Suc (th_count h) \<le> ?n" using hok(2) by auto
    show ?thesis
    proof (cases alloc_ok)
      case alloc: True
      have "timers_ok (insert a L) ((data_realloc ?n h)\<lparr>th_count := Suc (th_count h)\<rparr>)"
        using timer_heap_ok_realloc [OF hok(1) n(1)] n(2) hok(3)
        by (intro grow) (simp_all add: data_realloc_def)
      then show ?thesis using r True alloc by (auto simp: wl_timer_heap_reserve_def Let_def)
    next
      case False
      then show ?thesis using r True ok by (auto simp: wl_timer_heap_reserve_def Let_def)
    qed
  next
    case False
    then have "timers_ok (insert a L) (h\<lparr>th_count := Suc (th_count h)\<rparr>)"
      using hok by (intro grow) simp_all
    then show ?thesis using r False by (auto simp: wl_timer_heap_reserve_def)
  qed
qed

lemma timers_ok_unreserve:
  assumes ok: "timers_ok L h" and a: "a \<in> L" "a \<notin> set (armed h)"
  shows "timers_ok (L - {a}) (wl_timer_heap_unreserve alloc_ok h)"
proof -
  let ?h1 = "h\<lparr>th_count := th_count h - 1\<rparr>"
  have act: "th_active h \<le> th_count h - 1" using timers_ok_room [OF ok a] by simp
  have ar: "armed ?h1 = armed h" by (simp add: armed_def)
  have ok1: "timer_heap_ok ?h1"
    using ok act by (auto simp: timers_ok_def timer_heap_ok_def heap_rep_def armed_def)
  have t1: "timers_ok (L - {a}) ?h1"
    using ok ok1 a ar by (auto simp: timers_ok_def)
  have n: "th_count ?h1 \<le> th_space ?h1 div 2" if "4 * th_count ?h1 \<le> th_space ?h1"
    using that by linarith
  have "timers_ok (L - {a}) (data_realloc (th_space ?h1 div 2) ?h1)" if "4 * th_count ?h1 \<le> th_space ?h1"
    using t1 timer_heap_ok_realloc [OF ok1 n [OF that]] by (simp add: timers_ok_def data_realloc_def)
  with t1 show ?thesis by (auto simp: wl_timer_heap_unreserve_def Let_def)
qed

lemma timers_ok_add:
  assumes ok: "timers_ok L h" and a: "src \<notin> L"
    and r: "wl_event_loop_add_timer tfd epoll_ok src alloc_ok func data h = (res, cl, h')"
  shows "timers_ok (if res = 0 then L else insert res L) h'"
proof -
  obtain e cl1 h1 where e: "wl_timer_heap_ensure_timerfd tfd epoll_ok h = (e, cl1, h1)" by (metis surj_pair)
  have ok1: "timers_ok L h1"
    using e ok by (auto simp: wl_timer_heap_ensure_timerfd_def timers_ok_def timer_heap_ok_def heap_rep_def armed_def
        split: if_splits)
  show ?thesis
  proof (cases "e \<and> src \<noteq> 0")
    case False
    then show ?thesis using r e ok1 by (auto simp: wl_event_loop_add_timer_def split: if_splits)
  next
    case True
    let ?h2 = "set_tm src (\<lambda>_. \<lparr>base_fd = - 1, deadline = Timespec 0 0, heap_idx = - 1,
                                   tm_func = func, tm_data = data\<rparr>) h1"
    obtain ok2 h3 where h3: "wl_timer_heap_reserve alloc_ok ?h2 = (ok2, h3)" by (metis surj_pair)
    have nin: "src \<notin> set (armed h1)" using ok1 a by (auto simp: timers_ok_def)
    have ar: "armed ?h2 = armed h1" by (simp add: armed_def set_tm_def)
    have "is_heap (dl_of ?h2) (armed h1) = is_heap (dl_of h1) (armed h1)"
      using nin by (intro is_heap_cong) (auto simp: set_tm_def)
    moreover have "heap_rep ?h2 (armed h1)"
      using ok1 nin by (auto simp: timers_ok_def timer_heap_ok_def heap_rep_def set_tm_def)
    ultimately have "timers_ok L ?h2"
      using ok1 ar unfolding timers_ok_def timer_heap_ok_def ar by (auto simp: set_tm_def)
    from timers_ok_reserve [OF this a _ h3] True show ?thesis
      using r e h3 by (auto simp: wl_event_loop_add_timer_def Let_def split: if_splits)
  qed
qed

lemma timers_ok_remove:
  assumes ok: "timers_ok L h" and a: "source \<in> L" and live: "base_fd (th_tm h source) \<noteq> TIMER_REMOVED"
  obtains h' where "timer_source_remove now alloc_ok source h = Some h'" "timers_ok (L - {source}) h'"
    "set (armed h') = set (armed h) - {source}" "base_fd (th_tm h' source) = TIMER_REMOVED"
proof -
  have z: "\<not> (0 :: int) > 0" by simp
  obtain r h1 where h1: "wl_event_source_timer_update now source 0 h = Some (r, h1)"
    "timers_ok L h1" "set (armed h1) = set (armed h) - {source}"
    using timer_update_clear [OF ok a z] by metis
  let ?h2 = "wl_timer_heap_unreserve alloc_ok h1"
  have nin: "source \<notin> set (armed h1)" using h1(3) by simp
  have ok2: "timers_ok (L - {source}) ?h2" by (rule timers_ok_unreserve [OF h1(2) a nin])
  have ar: "armed ?h2 = armed h1"
  proof -
    have "timer_heap_ok (h1\<lparr>th_count := th_count h1 - 1\<rparr>)"
      using h1(2) timers_ok_room [OF h1(2) a nin]
      by (auto simp: timers_ok_def timer_heap_ok_def heap_rep_def armed_def)
    from timer_heap_ok_realloc(2) [OF this, of "th_space h1 div 2"]
    show ?thesis by (auto simp: wl_timer_heap_unreserve_def Let_def armed_def)
  qed
  let ?h' = "set_tm source (\<lambda>t. t\<lparr>base_fd := TIMER_REMOVED\<rparr>) ?h2"
  have "timer_source_remove now alloc_ok source h = Some ?h'"
    using live h1(1) by (simp add: timer_source_remove_def)
  moreover have "timers_ok (L - {source}) ?h'" by (rule timers_ok_set_tm [OF ok2]) simp_all
  moreover have "armed ?h' = armed ?h2" by (simp add: armed_def set_tm_def)
  moreover have "base_fd (th_tm ?h' source) = TIMER_REMOVED" by (simp add: set_tm_def)
  ultimately show thesis using that h1(3) ar by metis
qed

text \<open>
  The states the operations can produce.  \<open>L\<close> are the timers added and not removed; the client
  uses only those, and the functions run by a dispatch are further operations.
\<close>

inductive timer_reach :: "taddr set \<Rightarrow> 'z timer_heap_scheme \<Rightarrow> bool" where
  init: "(\<And>a. heap_idx (th_tm h a) = - 1) \<Longrightarrow> timer_reach {} (wl_timer_heap_init h)"
| add: "timer_reach L h \<Longrightarrow> src \<notin> L \<Longrightarrow>
    wl_event_loop_add_timer tfd epoll_ok src alloc_ok func data h = (res, cl, h') \<Longrightarrow>
    timer_reach (if res = 0 then L else insert res L) h'"
| update: "timer_reach L h \<Longrightarrow> source \<in> L \<Longrightarrow>
    wl_event_source_timer_update now source ms h = Some (r, h') \<Longrightarrow> timer_reach L h'"
| remove: "timer_reach L h \<Longrightarrow> source \<in> L \<Longrightarrow> base_fd (th_tm h source) \<noteq> TIMER_REMOVED \<Longrightarrow>
    timer_source_remove now alloc_ok source h = Some h' \<Longrightarrow> timer_reach (L - {source}) h'"
| due: "timer_reach L h \<Longrightarrow> pop_due now h = Some (due, h') \<Longrightarrow> timer_reach L h'"
| settime: "timer_reach L h \<Longrightarrow> timerfd_settime t h = (r, h') \<Longrightarrow> timer_reach L h'"

lemma timer_update_some:
  assumes "timers_ok L h" "source \<in> L"
  shows "\<exists>r h'. wl_event_source_timer_update now source ms h = Some (r, h') \<and> timers_ok L h'"
proof (cases "ms > 0")
  case False
  then show ?thesis using timer_update_clear [OF assms] by metis
next
  case True
  obtain h1 where h1: "wl_event_source_timer_update now source ms h =
      Some (if heap_idx (th_tm h1 source) = 0 then set_timer (deadline_after now ms) h1 else (True, h1))"
    "timers_ok L h1"
    using timer_update_set [OF assms True] by metis
  show ?thesis
  proof (cases "heap_idx (th_tm h1 source) = 0")
    case True
    obtain r h' where r: "set_timer (deadline_after now ms) h1 = (r, h')" by (metis surj_pair)
    then have "timers_ok L h'" using timers_ok_settime [of _ h1 r h' L] h1(2) by (simp add: set_timer_def)
    with h1 r True show ?thesis by simp
  qed (use h1 in \<open>auto simp: ex_bool_eq\<close>)
qed

lemma timer_reach_timers_ok: "timer_reach L h \<Longrightarrow> timers_ok L h"
proof (induction rule: timer_reach.induct)
  case (init h)
  then show ?case
    by (auto simp: timers_ok_def timer_heap_ok_def heap_rep_def is_heap_def armed_def wl_timer_heap_init_def)
next
  case (add L h src tfd epoll_ok alloc_ok func data res cl h')
  then show ?case using timers_ok_add by blast
next
  case (update L h source now ms r h')
  then show ?case using timer_update_some [of L h source now ms] by auto
next
  case (remove L h source now alloc_ok h')
  then show ?case using timers_ok_remove [of L h source now alloc_ok] by (metis option.inject)
next
  case (due L h now due h')
  then show ?case using due_timers.drain_correct [of L h h now] by (auto simp: timer_frame_def)
next
  case (settime L h t r h')
  then show ?case using timers_ok_settime by blast
qed

text \<open>C19: In every state that the timer operations can produce, the array is a heap ordered by
  deadline whose elements know their index, and every operation on a live timer returns without
  an access outside the array.\<close>

theorem timer_reach_safe:
  assumes "timer_reach L h"
  shows "timer_heap_ok h \<and> card L = th_count h \<and> set (armed h) \<subseteq> L \<and>
    (\<forall>source \<in> L. \<forall>now ms. wl_event_source_timer_update now source ms h \<noteq> None) \<and>
    (\<forall>source \<in> L. \<forall>now al. timer_source_remove now al source h \<noteq> None) \<and>
    (\<forall>cb now. wl_timer_heap_dispatch cb now h \<noteq> None)"
proof -
  have ok: "timers_ok L h" by (rule timer_reach_timers_ok [OF assms])
  have upd: "wl_event_source_timer_update now source ms h \<noteq> None" if "source \<in> L" for source now ms
    using timer_update_some [OF ok that, of now ms] by auto
  have rem: "timer_source_remove now al source h \<noteq> None" if "source \<in> L" for source now al
    using upd [OF that, of now 0] by (auto simp: timer_source_remove_def Let_def)
  have "wl_timer_heap_dispatch cb now h \<noteq> None" for cb now
  proof -
    obtain due h1 where d: "pop_due now h = Some (due, h1)" "timers_ok L h1"
      using due_timers.drain_correct [of L h h now] ok by (auto simp: timer_frame_def)
    then have "timer_heap_ok h1" by (simp add: timers_ok_def)
    then have "th_active h1 > 0 \<Longrightarrow> data_at h1 0 \<noteq> None" using armed_root(1) [of h1] by simp
    then obtain ok2 h2 where
      "(if th_active h1 > 0 then data_at h1 0 \<bind> (\<lambda>root. Some (set_timer (dl_of h1 root) h1))
        else Some (clear_timer h1)) = Some (ok2, h2)"
      by (metis (no_types, lifting) bind.bind_lunit not_None_eq surj_pair)
    with d(1) show ?thesis
      by (cases ok2) (simp_all add: wl_timer_heap_dispatch_def Let_def split: prod.splits)
  qed
  with ok upd rem show ?thesis by (auto simp: timers_ok_def)
qed

definition sample_init :: timer_heap where
  "sample_init = wl_timer_heap_init (sample_heap\<lparr>th_tm := (\<lambda>_. sample_timer 0 (- 1) 0)\<rparr>)"

lemma timer_reach_safe_witness:
  "\<exists>cl h. wl_event_loop_add_timer 5 True 8 True 1 2 sample_init = (8, cl, h) \<and>
     wl_event_source_timer_update (Timespec 4 0) 8 20 h \<noteq> None"
proof -
  have init: "timer_reach {} sample_init"
    unfolding sample_init_def by (rule timer_reach.init) (simp add: sample_timer_def)
  obtain r cl h where add: "wl_event_loop_add_timer 5 True 8 True 1 2 sample_init = (r, cl, h)"
    by (metis surj_pair)
  have r: "r = 8"
    using add by (simp add: wl_event_loop_add_timer_def wl_timer_heap_ensure_timerfd_def wl_timer_heap_init_def
        wl_timer_heap_reserve_def Let_def set_tm_def sample_init_def)
  have "timer_reach {8} h" using timer_reach.add [OF init _ add] r by simp
  from timer_reach_safe [OF this] add r show ?thesis by blast
qed

end
