(* ===== verification/EventLoop.thy ===== *)
theory EventLoop
  imports TimerHeap
begin

text \<open>
  The event loop of wayland-server/event-loop.c: event sources, the epoll set, the idle, check
  and destroy lists, and one round of dispatching.  The state extends the timer heap, as
  \<open>struct wl_event_loop\<close> contains it.  The intrusive lists are lists of source addresses
  (theory WlList shows that the link operations are insertion at the ends and removal).  The
  functions of the client are a parameter \<open>cb\<close> that may do anything to the loop; \<open>None\<close> is a
  use of a freed source, a call of a \<open>NULL\<close> function or a loop that does not return.
\<close>

section \<open>Event masks\<close>

definition WL_EVENT_READABLE :: u32 where "WL_EVENT_READABLE = 1"
definition WL_EVENT_WRITABLE :: u32 where "WL_EVENT_WRITABLE = 2"
definition WL_EVENT_HANGUP :: u32 where "WL_EVENT_HANGUP = 4"
definition WL_EVENT_ERROR :: u32 where "WL_EVENT_ERROR = 8"

definition EPOLLIN :: u32 where "EPOLLIN = 1"
definition EPOLLOUT :: u32 where "EPOLLOUT = 4"
definition EPOLLERR :: u32 where "EPOLLERR = 8"
definition EPOLLHUP :: u32 where "EPOLLHUP = 16"

definition events_of_mask :: "u32 \<Rightarrow> u32" where
  "events_of_mask msk =
     (let ev = 0;
          ev = (if msk AND WL_EVENT_READABLE \<noteq> 0 then ev OR EPOLLIN else ev);
          ev = (if msk AND WL_EVENT_WRITABLE \<noteq> 0 then ev OR EPOLLOUT else ev)
      in ev)"

definition mask_of_events :: "u32 \<Rightarrow> u32" where
  "mask_of_events events =
     (let msk = 0;
          msk = (if events AND EPOLLIN \<noteq> 0 then msk OR WL_EVENT_READABLE else msk);
          msk = (if events AND EPOLLOUT \<noteq> 0 then msk OR WL_EVENT_WRITABLE else msk);
          msk = (if events AND EPOLLHUP \<noteq> 0 then msk OR WL_EVENT_HANGUP else msk);
          msk = (if events AND EPOLLERR \<noteq> 0 then msk OR WL_EVENT_ERROR else msk)
      in msk)"

lemmas event_bits = WL_EVENT_READABLE_def WL_EVENT_WRITABLE_def WL_EVENT_HANGUP_def
  WL_EVENT_ERROR_def EPOLLIN_def EPOLLOUT_def EPOLLERR_def EPOLLHUP_def

section \<open>State\<close>

type_synonym saddr = nat

datatype interface =
    FdInterface nat int          \<comment> \<open>function and the client's descriptor\<close>
  | SignalInterface nat int      \<comment> \<open>function and signal number\<close>
  | IdleInterface nat
  | TimerInterface

record source =
  s_iface :: interface
  s_fd :: int
  s_data :: nat

datatype call =
    FdCall nat int u32 nat
  | SignalCall nat int nat
  | IdleCall nat nat
  | TimerCall nat nat

record event_loop = timer_heap +
  el_epoll_fd :: int
  el_epoll :: "int \<Rightarrow> (u32 \<times> saddr) option"
  el_src :: "saddr \<Rightarrow> source option"
  check_list :: "saddr list"
  idle_list :: "saddr list"
  destroy_list :: "saddr list"
  epoll_script :: "bool list"
  el_closed :: "int list"

text \<open>The address of \<open>loop->timers.base\<close>, the source of the timerfd.\<close>

definition TIMERS :: saddr where "TIMERS = 1"

definition set_src :: "saddr \<Rightarrow> source option \<Rightarrow> 'z event_loop_scheme \<Rightarrow> 'z event_loop_scheme" where
  "set_src a s lp = lp\<lparr>el_src := (el_src lp)(a := s)\<rparr>"

definition el_close :: "int \<Rightarrow> 'z event_loop_scheme \<Rightarrow> 'z event_loop_scheme" where
  "el_close f lp = lp\<lparr>el_closed := el_closed lp @ [f]\<rparr>"

text \<open>
  \<open>epoll_ctl\<close> to add or modify: the results come from \<open>epoll_script\<close> (success when it is used
  up).  Deleting a registered descriptor does not fail.
\<close>

definition epoll_del :: "int \<Rightarrow> 'z event_loop_scheme \<Rightarrow> 'z event_loop_scheme" where
  "epoll_del f lp = lp\<lparr>el_epoll := (el_epoll lp)(f := None)\<rparr>"

definition epoll_ctl :: "int \<Rightarrow> u32 \<times> saddr \<Rightarrow> 'z event_loop_scheme \<Rightarrow> bool \<times> 'z event_loop_scheme" where
  "epoll_ctl f ev lp =
     (case epoll_script lp of
        [] \<Rightarrow> (True, lp\<lparr>el_epoll := (el_epoll lp)(f := Some ev)\<rparr>)
      | True # r \<Rightarrow> (True, lp\<lparr>el_epoll := (el_epoll lp)(f := Some ev), epoll_script := r\<rparr>)
      | False # r \<Rightarrow> (False, lp\<lparr>epoll_script := r\<rparr>))"

section \<open>Adding sources\<close>

text \<open>
  \<open>add_source\<close> works on the source just allocated at \<open>a\<close>; failure frees it and returns \<open>NULL\<close>.
\<close>

definition add_source :: "saddr \<Rightarrow> source \<Rightarrow> u32 \<Rightarrow> nat \<Rightarrow> 'z event_loop_scheme \<Rightarrow> saddr \<times> 'z event_loop_scheme" where
  "add_source a s msk data lp =
     (if s_fd s < 0 then (0, set_src a None lp)
      else
        let lp1 = set_src a (Some (s\<lparr>s_data := data\<rparr>)) lp;
            (ok, lp2) = epoll_ctl (s_fd s) (events_of_mask msk, a) lp1 in
        if \<not> ok then (0, set_src a None (el_close (s_fd s) lp2))
        else (a, lp2))"

definition wl_event_loop_add_fd ::
  "saddr \<Rightarrow> int \<Rightarrow> int \<Rightarrow> u32 \<Rightarrow> nat \<Rightarrow> nat \<Rightarrow> 'z event_loop_scheme \<Rightarrow> saddr \<times> 'z event_loop_scheme" where
  "wl_event_loop_add_fd a dupfd f msk func data lp =
     (if a = 0 then (0, lp)
      else add_source a \<lparr>s_iface = FdInterface func f, s_fd = dupfd, s_data = 0\<rparr> msk data lp)"

text \<open>The result of \<open>signalfd\<close> is \<open>sigfd\<close>; blocking the signal has no effect on the model.\<close>

definition wl_event_loop_add_signal ::
  "saddr \<Rightarrow> int \<Rightarrow> int \<Rightarrow> nat \<Rightarrow> nat \<Rightarrow> 'z event_loop_scheme \<Rightarrow> saddr \<times> 'z event_loop_scheme" where
  "wl_event_loop_add_signal a sigfd signal_number func data lp =
     (if a = 0 then (0, lp)
      else add_source a \<lparr>s_iface = SignalInterface func signal_number, s_fd = sigfd, s_data = 0\<rparr>
             WL_EVENT_READABLE data lp)"

definition wl_event_loop_add_idle ::
  "saddr \<Rightarrow> nat \<Rightarrow> nat \<Rightarrow> 'z event_loop_scheme \<Rightarrow> saddr \<times> 'z event_loop_scheme" where
  "wl_event_loop_add_idle a func data lp =
     (if a = 0 then (0, lp)
      else (a, (set_src a (Some \<lparr>s_iface = IdleInterface func, s_fd = - 1, s_data = data\<rparr>) lp)
                 \<lparr>idle_list := idle_list lp @ [a]\<rparr>))"

definition wl_event_source_fd_update :: "saddr \<Rightarrow> u32 \<Rightarrow> 'z event_loop_scheme \<Rightarrow> (bool \<times> 'z event_loop_scheme) option" where
  "wl_event_source_fd_update a msk lp = do {
     s \<leftarrow> el_src lp a;
     Some (epoll_ctl (s_fd s) (events_of_mask msk, a) lp) }"

definition wl_event_source_check :: "saddr \<Rightarrow> 'z event_loop_scheme \<Rightarrow> 'z event_loop_scheme" where
  "wl_event_source_check a lp = lp\<lparr>check_list := check_list lp @ [a]\<rparr>"

section \<open>Removing sources\<close>

text \<open>The field \<open>fd\<close> of a source; a timer keeps it in its timer record.\<close>

definition source_fd :: "'z event_loop_scheme \<Rightarrow> saddr \<Rightarrow> source \<Rightarrow> int" where
  "source_fd lp a s = (if s_iface s = TimerInterface then base_fd (th_tm lp a) else s_fd s)"

definition set_source_fd :: "saddr \<Rightarrow> source \<Rightarrow> int \<Rightarrow> 'z event_loop_scheme \<Rightarrow> 'z event_loop_scheme" where
  "set_source_fd a s f lp =
     (if s_iface s = TimerInterface then set_tm a (\<lambda>t. t\<lparr>base_fd := f\<rparr>) lp
      else set_src a (Some (s\<lparr>s_fd := f\<rparr>)) lp)"

text \<open>\<open>wl_list_remove\<close> takes the link out of whichever list holds it.\<close>

definition unlink_source :: "saddr \<Rightarrow> 'z event_loop_scheme \<Rightarrow> 'z event_loop_scheme" where
  "unlink_source a lp =
     lp\<lparr>check_list := removeAll a (check_list lp), idle_list := removeAll a (idle_list lp),
        destroy_list := removeAll a (destroy_list lp)\<rparr>"

definition wl_event_source_remove ::
  "timespec \<Rightarrow> bool \<Rightarrow> saddr \<Rightarrow> 'z event_loop_scheme \<Rightarrow> 'z event_loop_scheme option" where
  "wl_event_source_remove now alloc_ok a lp = do {
     s \<leftarrow> el_src lp a;
     let fd0 = source_fd lp a s;
     let lp1 = (if fd0 \<ge> 0 then set_source_fd a s (- 1) (el_close fd0 (epoll_del fd0 lp)) else lp);
     lp2 \<leftarrow> (if s_iface s = TimerInterface then timer_source_remove now alloc_ok a lp1 else Some lp1);
     let lp3 = unlink_source a lp2;
     Some (lp3\<lparr>destroy_list := a # destroy_list lp3\<rparr>) }"

definition wl_event_loop_process_destroy_list :: "'z event_loop_scheme \<Rightarrow> 'z event_loop_scheme" where
  "wl_event_loop_process_destroy_list lp =
     lp\<lparr>el_src := (\<lambda>a. if a \<in> set (destroy_list lp) then None else el_src lp a), destroy_list := []\<rparr>"

section \<open>Creating and destroying the loop\<close>

definition wl_event_loop_create :: "bool \<Rightarrow> int \<Rightarrow> 'z event_loop_scheme \<Rightarrow> 'z event_loop_scheme option" where
  "wl_event_loop_create alloc_ok epfd lp =
     (if \<not> alloc_ok then None
      else if epfd < 0 then None
      else Some (wl_timer_heap_init
        (lp\<lparr>el_epoll_fd := epfd, el_epoll := (\<lambda>_. None), check_list := [], idle_list := [], destroy_list := []\<rparr>)))"

text \<open>\<open>emit\<close> is what the destroy listeners do.\<close>

definition wl_event_loop_destroy ::
  "('z event_loop_scheme \<Rightarrow> 'z event_loop_scheme) \<Rightarrow> 'z event_loop_scheme \<Rightarrow> 'z event_loop_scheme" where
  "wl_event_loop_destroy emit lp =
     (let lp1 = wl_event_loop_process_destroy_list (emit lp);
          (cl, lp2) = wl_timer_heap_release lp1 in
      lp2\<lparr>el_closed := el_closed lp2 @ cl @ [el_epoll_fd lp2]\<rparr>)"

definition wl_event_loop_get_fd :: "'z event_loop_scheme \<Rightarrow> int" where
  "wl_event_loop_get_fd lp = el_epoll_fd lp"

section \<open>Dispatching\<close>

text \<open>\<open>source->interface->dispatch\<close>; an idle source has none.\<close>

definition source_dispatch ::
  "(call \<Rightarrow> 'z event_loop_scheme \<Rightarrow> int \<times> 'z event_loop_scheme) \<Rightarrow> saddr \<Rightarrow> u32 \<Rightarrow>
   'z event_loop_scheme \<Rightarrow> (int \<times> 'z event_loop_scheme) option" where
  "source_dispatch cb a events lp = do {
     s \<leftarrow> el_src lp a;
     case s_iface s of
       FdInterface func f \<Rightarrow> Some (cb (FdCall func f (mask_of_events events) (s_data s)) lp)
     | SignalInterface func signum \<Rightarrow> Some (cb (SignalCall func signum (s_data s)) lp)
     | TimerInterface \<Rightarrow> Some (cb (TimerCall (tm_func (th_tm lp a)) (tm_data (th_tm lp a))) lp)
     | IdleInterface _ \<Rightarrow> None }"

text \<open>
  \<open>wl_list_for_each_safe\<close> over the check list: the successor is read before the source is
  dispatched.  0 is the list head.
\<close>

fun succ_in :: "saddr list \<Rightarrow> saddr \<Rightarrow> saddr option" where
  "succ_in [] a = None"
| "succ_in (x # xs) a = (if x = a then Some (case xs of [] \<Rightarrow> 0 | y # _ \<Rightarrow> y) else succ_in xs a)"

partial_function (option) check_loop ::
  "(call \<Rightarrow> 'z event_loop_scheme \<Rightarrow> int \<times> 'z event_loop_scheme) \<Rightarrow> saddr \<Rightarrow> bool \<Rightarrow>
   'z event_loop_scheme \<Rightarrow> (bool \<times> 'z event_loop_scheme) option" where
  "check_loop cb cur needs_recheck lp =
     (if cur = 0 then Some (needs_recheck, lp)
      else do {
        next \<leftarrow> succ_in (check_list lp) cur;
        (dispatch_result, lp1) \<leftarrow> source_dispatch cb cur 0 lp;
        check_loop cb next (needs_recheck \<or> dispatch_result \<noteq> 0) lp1 })"

definition post_dispatch_check ::
  "(call \<Rightarrow> 'z event_loop_scheme \<Rightarrow> int \<times> 'z event_loop_scheme) \<Rightarrow>
   'z event_loop_scheme \<Rightarrow> (bool \<times> 'z event_loop_scheme) option" where
  "post_dispatch_check cb lp =
     check_loop cb (case check_list lp of [] \<Rightarrow> 0 | a # _ \<Rightarrow> a) False lp"

partial_function (option) recheck_loop ::
  "(call \<Rightarrow> 'z event_loop_scheme \<Rightarrow> int \<times> 'z event_loop_scheme) \<Rightarrow>
   'z event_loop_scheme \<Rightarrow> 'z event_loop_scheme option" where
  "recheck_loop cb lp = do {
     (again, lp1) \<leftarrow> post_dispatch_check cb lp;
     if again then recheck_loop cb lp1 else Some lp1 }"

partial_function (option) wl_event_loop_dispatch_idle ::
  "(call \<Rightarrow> 'z event_loop_scheme \<Rightarrow> int \<times> 'z event_loop_scheme) \<Rightarrow> timespec \<Rightarrow>
   'z event_loop_scheme \<Rightarrow> 'z event_loop_scheme option" where
  "wl_event_loop_dispatch_idle cb now lp =
     (case idle_list lp of
        [] \<Rightarrow> Some lp
      | a # _ \<Rightarrow> do {
          s \<leftarrow> el_src lp a;
          case s_iface s of
            IdleInterface func \<Rightarrow> do {
              lp1 \<leftarrow> wl_event_source_remove now True a (snd (cb (IdleCall func (s_data s)) lp));
              wl_event_loop_dispatch_idle cb now lp1 }
          | _ \<Rightarrow> None })"

text \<open>The second loop over the events that \<open>epoll_wait\<close> returned.\<close>

fun dispatch_ready ::
  "(call \<Rightarrow> 'z event_loop_scheme \<Rightarrow> int \<times> 'z event_loop_scheme) \<Rightarrow> (u32 \<times> saddr) list \<Rightarrow>
   'z event_loop_scheme \<Rightarrow> 'z event_loop_scheme option" where
  "dispatch_ready cb [] lp = Some lp"
| "dispatch_ready cb ((events, a) # evs) lp =
     (if a = TIMERS then dispatch_ready cb evs lp
      else do {
        s \<leftarrow> el_src lp a;
        if source_fd lp a s \<noteq> - 1 then do {
          (_, lp1) \<leftarrow> source_dispatch cb a events lp;
          dispatch_ready cb evs lp1 }
        else dispatch_ready cb evs lp })"

definition timer_cb ::
  "(call \<Rightarrow> 'z event_loop_scheme \<Rightarrow> int \<times> 'z event_loop_scheme) \<Rightarrow> nat \<Rightarrow> nat \<Rightarrow>
   'z event_loop_scheme \<Rightarrow> 'z event_loop_scheme" where
  "timer_cb cb func data lp = snd (cb (TimerCall func data) lp)"

text \<open>\<open>wait\<close> is what \<open>epoll_wait\<close> returns in the state it is called in (\<open>None\<close>: an error).\<close>

definition wl_event_loop_dispatch ::
  "(call \<Rightarrow> 'z event_loop_scheme \<Rightarrow> int \<times> 'z event_loop_scheme) \<Rightarrow> timespec \<Rightarrow>
   ('z event_loop_scheme \<Rightarrow> (u32 \<times> saddr) list option) \<Rightarrow>
   'z event_loop_scheme \<Rightarrow> (bool \<times> 'z event_loop_scheme) option" where
  "wl_event_loop_dispatch cb now wait lp = do {
     lp1 \<leftarrow> wl_event_loop_dispatch_idle cb now lp;
     case wait lp1 of
       None \<Rightarrow> Some (False, lp1)
     | Some evs \<Rightarrow> do {
         let has_timers = (TIMERS \<in> snd ` set evs);
         (ok, lp2) \<leftarrow> (if has_timers then do {
                         (ok, _, lp2) \<leftarrow> wl_timer_heap_dispatch (timer_cb cb) now lp1;
                         Some (ok, lp2) }
                       else Some (True, lp1));
         if \<not> ok then Some (False, lp2)
         else do {
           lp3 \<leftarrow> dispatch_ready cb evs lp2;
           lp4 \<leftarrow> wl_event_loop_dispatch_idle cb now (wl_event_loop_process_destroy_list lp3);
           lp5 \<leftarrow> recheck_loop cb lp4;
           Some (True, lp5) } } }"


section \<open>The timer operations leave the rest of the loop alone\<close>

abbreviation rest :: "'z timer_heap_scheme \<Rightarrow> 'z" where
  "rest \<equiv> timer_heap.more"

lemma set_tm_rest [simp]: "rest (set_tm a f h) = rest h"
  by (simp add: set_tm_def)

lemma heap_set_rest: "heap_set a i h = Some (c, h') \<Longrightarrow> rest h' = rest h"
  by (auto simp: heap_set_def data_put_def set_tm_def split: if_splits)

lemma sift_up_loop_rest: "sift_up_loop key c h = Some r \<Longrightarrow> rest (snd r) = rest h"
  by (rule sift_up_loop.raw_induct [where P = "\<lambda>key c h r. rest (snd r) = rest h"])
     (auto split: if_splits bind_splits dest!: heap_set_rest)

lemma sift_down_loop_rest: "sift_down_loop n key c h = Some r \<Longrightarrow> rest (snd r) = rest h"
  by (rule sift_down_loop.raw_induct [where P = "\<lambda>n key c h r. rest (snd r) = rest h"])
     (auto simp: Let_def split: if_splits bind_splits dest!: heap_set_rest)

lemma heap_sift_rest:
  "heap_sift_up a h = Some h' \<Longrightarrow> rest h' = rest h"
  "heap_sift_down n a h = Some h' \<Longrightarrow> rest h' = rest h"
  by (auto simp: heap_sift_up_def heap_sift_down_def split: bind_splits
      dest!: heap_set_rest sift_up_loop_rest sift_down_loop_rest)

lemma timer_arm_rest:
  "wl_timer_heap_arm a dl h = Some h' \<Longrightarrow> rest h' = rest h"
  by (auto simp: wl_timer_heap_arm_def data_put_def Let_def split: bind_splits if_splits dest!: heap_sift_rest)

lemma timer_disarm_rest:
  "wl_timer_heap_disarm a h = Some h' \<Longrightarrow> rest h' = rest h"
  by (auto simp: wl_timer_heap_disarm_def data_put_def Let_def split: bind_splits if_splits dest!: heap_sift_rest)

lemma settime_rest: "timerfd_settime t h = (r, h') \<Longrightarrow> rest h' = rest h"
  by (auto simp: timerfd_settime_def Let_def split: list.splits bool.splits)

lemma timer_update_rest:
  "wl_event_source_timer_update now a ms h = Some (r, h') \<Longrightarrow> rest h' = rest h"
  by (auto simp: wl_event_source_timer_update_def set_timer_def clear_timer_def Let_def
      split: bind_splits if_splits dest!: heap_sift_rest timer_arm_rest timer_disarm_rest settime_rest)

lemma timer_remove_rest: "timer_source_remove now al a h = Some h' \<Longrightarrow> rest h' = rest h"
  by (auto simp: timer_source_remove_def wl_timer_heap_unreserve_def data_realloc_def Let_def
      split: bind_splits if_splits dest!: timer_update_rest)

lemma timer_add_rest:
  "wl_event_loop_add_timer tfd eok a al func data h = (r, cl, h') \<Longrightarrow> rest h' = rest h"
  by (auto simp: wl_event_loop_add_timer_def wl_timer_heap_ensure_timerfd_def wl_timer_heap_reserve_def
      data_realloc_def Let_def split: if_splits prod.splits)

lemma rest_fields:
  assumes "rest (lp' :: 'z event_loop_scheme) = rest lp"
  shows "el_src lp' = el_src lp" "el_epoll lp' = el_epoll lp" "check_list lp' = check_list lp"
    "idle_list lp' = idle_list lp" "destroy_list lp' = destroy_list lp" "epoll_script lp' = epoll_script lp"
    "el_closed lp' = el_closed lp" "event_loop.more lp' = event_loop.more lp"
  using assms by (cases lp; cases lp'; simp)+

section \<open>Masks\<close>

lemma and_bit:
  "(m AND 1 \<noteq> 0) = bit m 0" "(m AND 2 \<noteq> 0) = bit m 1" "(m AND 4 \<noteq> 0) = bit m 2"
  "(m AND 8 \<noteq> 0) = bit m 3" "(m AND 16 \<noteq> 0) = bit m 4" for m :: u32
  using bit_iff_and_push_bit_not_eq_0 [of m 0] bit_iff_and_push_bit_not_eq_0 [of m 1]
    bit_iff_and_push_bit_not_eq_0 [of m 2] bit_iff_and_push_bit_not_eq_0 [of m 3]
    bit_iff_and_push_bit_not_eq_0 [of m 4]
  by (simp_all add: push_bit_eq_mult numeral_2_eq_2)

text \<open>Watching with a client mask and translating the reported events back gives the client
  exactly the readable and writable bits it asked for; hangup and error are reported whatever
  the mask, and are told apart from them.\<close>

lemma event_mask_roundtrip:
  "mask_of_events (events_of_mask m) = m AND 3 \<and>
   mask_of_events (events_of_mask m OR EPOLLHUP) = (m AND 3) OR WL_EVENT_HANGUP \<and>
   mask_of_events (events_of_mask m OR EPOLLERR) = (m AND 3) OR WL_EVENT_ERROR"
proof -
  have m: "m AND 3 = (if bit m 0 then 1 else 0) OR (if bit m 1 then 2 else 0)"
  proof -
    have c: "(3 :: u32) = mask 2" "(2 :: u32) = push_bit 1 1" by (simp_all add: mask_eq_exp_minus_1)
    show ?thesis
      unfolding c by (rule bit_word_eqI) (auto simp: bit_simps less_Suc_eq numeral_2_eq_2)
  qed
  show ?thesis
    unfolding m mask_of_events_def events_of_mask_def event_bits Let_def and_bit
    by (cases "bit m 0"; cases "bit m 1") (simp_all add: and_bit)
qed

section \<open>Removal during a round\<close>

lemma source_remove_other:
  assumes s: "el_src lp a = Some s" "s_iface s \<noteq> TimerInterface"
  shows "wl_event_source_remove now al a lp = Some
    (let lp1 = (if s_fd s \<ge> 0 then set_src a (Some (s\<lparr>s_fd := - 1\<rparr>)) (el_close (s_fd s) (epoll_del (s_fd s) lp)) else lp)
     in (unlink_source a lp1)\<lparr>destroy_list := a # removeAll a (destroy_list lp)\<rparr>)"
  using s by (auto simp: wl_event_source_remove_def source_fd_def set_source_fd_def Let_def unlink_source_def
      set_src_def el_close_def epoll_del_def)

lemma rest_eq_fields: "armed (lp\<lparr>check_list := c, idle_list := i, destroy_list := d\<rparr>) = armed lp"
  by (simp add: armed_def)

text \<open>Removing an event source does not free it: the source is unlinked from the idle and
  check lists, its descriptor is unregistered and closed, and it is queued to be freed after
  the round.  An event for it that was already fetched is skipped, and so is the function of a
  removed timer that was already due; no other source is touched.\<close>

lemma event_source_remove_deferred:
  assumes src: "el_src lp a = Some s" and fd: "- 1 \<le> s_fd s" "a \<noteq> TIMERS"
    and tm: "s_iface s = TimerInterface \<longrightarrow> timers_ok L lp \<and> a \<in> L \<and> base_fd (th_tm lp a) = - 1"
  shows "\<exists>lp' s'. wl_event_source_remove now al a lp = Some lp' \<and>
    el_src lp' a = Some s' \<and> s_iface s' = s_iface s \<and> (\<forall>b. b \<noteq> a \<longrightarrow> el_src lp' b = el_src lp b) \<and>
    destroy_list lp' = a # removeAll a (destroy_list lp) \<and>
    check_list lp' = removeAll a (check_list lp) \<and> idle_list lp' = removeAll a (idle_list lp) \<and>
    (s_iface s \<noteq> TimerInterface \<longrightarrow>
       el_closed lp' = el_closed lp @ (if s_fd s \<ge> 0 then [s_fd s] else []) \<and>
       (s_fd s \<ge> 0 \<longrightarrow> el_epoll lp' (s_fd s) = None) \<and>
       (\<forall>cb ev evs. dispatch_ready cb ((ev, a) # evs) lp' = dispatch_ready cb evs lp')) \<and>
    (s_iface s = TimerInterface \<longrightarrow> a \<notin> set (armed lp') \<and> timers_ok (L - {a}) lp' \<and>
       (\<forall>cb ts. run_due cb (a # ts) lp' = run_due cb ts lp'))"
proof (cases "s_iface s = TimerInterface")
  case False
  let ?lp1 = "if s_fd s \<ge> 0 then set_src a (Some (s\<lparr>s_fd := - 1\<rparr>)) (el_close (s_fd s) (epoll_del (s_fd s) lp)) else lp"
  let ?lp' = "(unlink_source a ?lp1)\<lparr>destroy_list := a # removeAll a (destroy_list lp)\<rparr>"
  let ?s' = "if s_fd s \<ge> 0 then s\<lparr>s_fd := - 1\<rparr> else s"
  have r: "wl_event_source_remove now al a lp = Some ?lp'"
    using source_remove_other [OF src False] by (simp add: Let_def)
  have s': "el_src ?lp' a = Some ?s'" "s_iface ?s' = s_iface s" "s_fd ?s' = - 1"
    using src fd by (auto simp: unlink_source_def set_src_def el_close_def epoll_del_def)
  have "dispatch_ready cb ((ev, a) # evs) ?lp' = dispatch_ready cb evs ?lp'" for cb ev evs
    using s' fd(2) False by (simp add: source_fd_def)
  moreover have "el_src ?lp' b = el_src lp b" if "b \<noteq> a" for b
    using that by (simp add: unlink_source_def set_src_def el_close_def epoll_del_def)
  ultimately show ?thesis
    using r s' False by (intro exI [of _ ?lp'] exI [of _ ?s'])
      (auto simp: unlink_source_def set_src_def el_close_def epoll_del_def)
next
  case True
  then have t: "timers_ok L lp" "a \<in> L" "base_fd (th_tm lp a) = - 1" using tm by auto
  have live: "base_fd (th_tm lp a) \<noteq> TIMER_REMOVED" using t by (simp add: TIMER_REMOVED_def)
  obtain lp2 where lp2: "timer_source_remove now al a lp = Some lp2" "timers_ok (L - {a}) lp2"
    "set (armed lp2) = set (armed lp) - {a}" "base_fd (th_tm lp2 a) = TIMER_REMOVED"
    using timers_ok_remove [OF t(1,2) live] .
  note r = rest_fields [OF timer_remove_rest [OF lp2(1)]]
  let ?lp' = "(unlink_source a lp2)\<lparr>destroy_list := a # removeAll a (destroy_list lp2)\<rparr>"
  have "wl_event_source_remove now al a lp = Some ?lp'"
    using src True t(3) lp2(1) by (simp add: wl_event_source_remove_def source_fd_def Let_def unlink_source_def)
  moreover have "run_due cb (a # ts) ?lp' = run_due cb ts ?lp'" for cb ts
    using lp2(4) by (simp add: unlink_source_def)
  moreover have "timers_ok (L - {a}) ?lp'" "armed ?lp' = armed lp2"
    using lp2(2) by (simp_all add: timers_ok_def timer_heap_ok_def heap_rep_def armed_def unlink_source_def)
  ultimately show ?thesis
    using True r src lp2(3) by (intro exI [of _ ?lp'] exI [of _ s]) (simp add: unlink_source_def)
qed

definition sample_loop :: event_loop where
  "sample_loop = timer_heap.extend sample_heap
     (event_loop.fields 3 (\<lambda>f. if f = 7 then Some (1, 100) else None)
       (\<lambda>a. if a = 100 then Some \<lparr>s_iface = FdInterface 11 6, s_fd = 7, s_data = 5\<rparr>
            else if a = 200 then Some \<lparr>s_iface = IdleInterface 12, s_fd = - 1, s_data = 6\<rparr>
            else if a = 300 then Some \<lparr>s_iface = IdleInterface 13, s_fd = - 1, s_data = 8\<rparr>
            else if a = 10 then Some \<lparr>s_iface = TimerInterface, s_fd = - 1, s_data = 0\<rparr> else None)
       [100] [200, 300] [] [] [])"

lemma sample_loop_simps [simp]:
  "el_src sample_loop 100 = Some \<lparr>s_iface = FdInterface 11 6, s_fd = 7, s_data = 5\<rparr>"
  "el_src sample_loop 200 = Some \<lparr>s_iface = IdleInterface 12, s_fd = - 1, s_data = 6\<rparr>"
  "el_src sample_loop 300 = Some \<lparr>s_iface = IdleInterface 13, s_fd = - 1, s_data = 8\<rparr>"
  "el_epoll sample_loop f = (if f = 7 then Some (1, 100) else None)"
  "idle_list sample_loop = [200, 300]" "check_list sample_loop = [100]" "destroy_list sample_loop = []"
  "el_closed sample_loop = []"
  by (simp_all add: sample_loop_def timer_heap.defs event_loop.defs)

lemma event_source_remove_deferred_witness:
  "\<exists>lp'. wl_event_source_remove (Timespec 1 0) True 100 sample_loop = Some lp' \<and>
     el_closed lp' = [7] \<and> destroy_list lp' = [100] \<and> check_list lp' = [] \<and> el_src lp' 100 \<noteq> None"
  using event_source_remove_deferred [of sample_loop 100 _ "{}" "Timespec 1 0" True]
  by (auto simp: TIMERS_def)

text \<open>
  The sources that events can name: registered, allocated, and of a kind that has a dispatch
  function.
\<close>

definition watched :: "source \<Rightarrow> bool" where
  "watched s = (case s_iface s of FdInterface _ _ \<Rightarrow> True | SignalInterface _ _ \<Rightarrow> True | _ \<Rightarrow> False)"

definition registered_ok :: "'z event_loop_scheme \<Rightarrow> bool" where
  "registered_ok lp \<longleftrightarrow> (\<forall>f ev a. el_epoll lp f = Some (ev, a) \<longrightarrow>
     (\<exists>s. el_src lp a = Some s \<and> s_fd s = f \<and> 0 \<le> f \<and> watched s \<and> a \<notin> set (destroy_list lp)))"

lemma registered_ok_add_source:
  assumes "registered_ok lp" "el_src lp a = None" "a \<notin> set (destroy_list lp)" "watched s"
    "el_epoll lp (s_fd s) = None"
  shows "registered_ok (snd (add_source a s m d lp))"
proof -
  have ne: "b \<noteq> a" if "el_epoll lp f = Some (ev, b)" for f ev b
    using assms(1,2) that by (fastforce simp: registered_ok_def)
  have w: "watched (s\<lparr>s_data := d\<rparr>) = watched s" by (simp add: watched_def)
  show ?thesis
  proof (cases "s_fd s < 0")
    case True
    then show ?thesis using assms(1) ne by (auto simp: add_source_def registered_ok_def set_src_def)
  next
    case False
    then show ?thesis
      using assms ne w
      by (auto simp: add_source_def registered_ok_def set_src_def epoll_ctl_def el_close_def Let_def
          split: list.splits bool.splits if_splits)
  qed
qed

lemma registered_ok_process_destroy_list:
  "registered_ok lp \<Longrightarrow> registered_ok (wl_event_loop_process_destroy_list lp)"
  by (fastforce simp: registered_ok_def wl_event_loop_process_destroy_list_def)

text \<open>A loop that records the calls it makes, each with the sources removed by then.\<close>

record watched_loop = event_loop +
  el_calls :: "(call \<times> saddr list) list"

text \<open>
  What a function of the client may do to the loop: any sequence of the library's operations.
  \<open>malloc\<close> and \<open>dup\<close> return what is not in use, and a source that was removed is not updated.
\<close>

inductive client_acts :: "watched_loop \<Rightarrow> watched_loop \<Rightarrow> bool" for lp where
  nothing: "client_acts lp lp"
| remove: "client_acts lp lp1 \<Longrightarrow> wl_event_source_remove now al a lp1 = Some lp2 \<Longrightarrow> client_acts lp lp2"
| add_fd: "client_acts lp lp1 \<Longrightarrow> el_src lp1 a = None \<Longrightarrow> el_epoll lp1 d = None \<Longrightarrow>
    wl_event_loop_add_fd a d f m func data lp1 = (r, lp2) \<Longrightarrow> client_acts lp lp2"
| add_signal: "client_acts lp lp1 \<Longrightarrow> el_src lp1 a = None \<Longrightarrow> el_epoll lp1 d = None \<Longrightarrow>
    wl_event_loop_add_signal a d sig func data lp1 = (r, lp2) \<Longrightarrow> client_acts lp lp2"
| add_idle: "client_acts lp lp1 \<Longrightarrow> el_src lp1 a = None \<Longrightarrow>
    wl_event_loop_add_idle a func data lp1 = (r, lp2) \<Longrightarrow> client_acts lp lp2"
| add_timer: "client_acts lp lp1 \<Longrightarrow> el_src lp1 a = None \<Longrightarrow>
    wl_event_loop_add_timer tfd eok a al func data lp1 = (r, cl, lp2) \<Longrightarrow>
    client_acts lp (if r = 0 then lp2 else set_src a (Some \<lparr>s_iface = TimerInterface, s_fd = - 1, s_data = data\<rparr>) lp2)"
| fd_update: "client_acts lp lp1 \<Longrightarrow> el_src lp1 a = Some s \<Longrightarrow> watched s \<Longrightarrow> a \<notin> set (destroy_list lp1) \<Longrightarrow>
    wl_event_source_fd_update a m lp1 = Some (r, lp2) \<Longrightarrow> client_acts lp lp2"
| timer_update: "client_acts lp lp1 \<Longrightarrow> wl_event_source_timer_update now a ms lp1 = Some (r, lp2) \<Longrightarrow> client_acts lp lp2"
| check: "client_acts lp lp1 \<Longrightarrow> client_acts lp (wl_event_source_check a lp1)"

text \<open>The descriptor of a source is -1 exactly when the source waits to be freed.\<close>

definition sources_ok :: "'z event_loop_scheme \<Rightarrow> bool" where
  "sources_ok lp \<longleftrightarrow> registered_ok lp \<and> set (destroy_list lp) \<subseteq> dom (el_src lp) \<and>
     (\<forall>a s. el_src lp a = Some s \<longrightarrow> watched s \<longrightarrow>
        (if a \<in> set (destroy_list lp) then s_fd s = - 1 else 0 \<le> s_fd s))"

lemma sources_ok_process_destroy_list: "sources_ok lp \<Longrightarrow> sources_ok (wl_event_loop_process_destroy_list lp)"
  using registered_ok_process_destroy_list [of lp]
  by (auto simp: sources_ok_def wl_event_loop_process_destroy_list_def)

text \<open>A source that events can name stays allocated; it can only be removed.\<close>

definition sources_kept :: "watched_loop \<Rightarrow> watched_loop \<Rightarrow> bool" where
  "sources_kept lp lp' \<longleftrightarrow> sources_ok lp' \<and> el_calls lp' = el_calls lp \<and> set (destroy_list lp) \<subseteq> set (destroy_list lp') \<and>
     (\<forall>a s. el_src lp a = Some s \<longrightarrow> watched s \<longrightarrow>
        (\<exists>s'. el_src lp' a = Some s' \<and> s_iface s' = s_iface s \<and> s_data s' = s_data s))"

lemma watched_cong: "s_iface s' = s_iface s \<Longrightarrow> watched s' = watched s"
  by (simp add: watched_def)

lemma sources_kept_trans: "sources_kept lp lp1 \<Longrightarrow> sources_kept lp1 lp2 \<Longrightarrow> sources_kept lp lp2"
  unfolding sources_kept_def by (metis watched_cong subset_trans)

lemma sources_kept_same:
  assumes "sources_ok lp" "el_src lp' = el_src lp" "el_epoll lp' = el_epoll lp" "destroy_list lp' = destroy_list lp"
    "el_calls lp' = el_calls lp"
  shows "sources_kept lp lp'"
  using assms by (simp add: sources_kept_def sources_ok_def registered_ok_def)

lemma remove_effect:
  assumes "wl_event_source_remove now al a lp = Some lp'"
  obtains s where "el_src lp a = Some s" "event_loop.more lp' = event_loop.more lp"
    "destroy_list lp' = a # removeAll a (destroy_list lp)"
    "el_epoll lp' = (if source_fd lp a s \<ge> 0 then (el_epoll lp)(source_fd lp a s := None) else el_epoll lp)"
    "el_src lp' = (if s_iface s \<noteq> TimerInterface \<and> 0 \<le> s_fd s then (el_src lp)(a \<mapsto> s\<lparr>s_fd := - 1\<rparr>) else el_src lp)"
proof -
  obtain s where s: "el_src lp a = Some s" using assms by (auto simp: wl_event_source_remove_def split: bind_splits)
  show thesis
  proof (cases "s_iface s = TimerInterface")
    case False
    then have f: "source_fd lp a s = s_fd s" by (simp add: source_fd_def)
    let ?lp1 = "if s_fd s \<ge> 0 then set_src a (Some (s\<lparr>s_fd := - 1\<rparr>)) (el_close (s_fd s) (epoll_del (s_fd s) lp)) else lp"
    have lp': "lp' = (unlink_source a ?lp1)\<lparr>destroy_list := a # removeAll a (destroy_list lp)\<rparr>"
      using assms source_remove_other [OF s False] by (simp add: Let_def)
    show thesis
      by (rule that [OF s]) (use False in \<open>simp_all add: lp' f unlink_source_def set_src_def el_close_def epoll_del_def\<close>)
  next
    case True
    let ?f = "source_fd lp a s"
    let ?lp1 = "if ?f \<ge> 0 then set_source_fd a s (- 1) (el_close ?f (epoll_del ?f lp)) else lp"
    obtain lp2 where lp2: "timer_source_remove now al a ?lp1 = Some lp2"
      "lp' = (unlink_source a lp2)\<lparr>destroy_list := a # destroy_list (unlink_source a lp2)\<rparr>"
      using assms s True by (auto simp: wl_event_source_remove_def Let_def split: bind_splits)
    have r1: "el_src ?lp1 = el_src lp" "destroy_list ?lp1 = destroy_list lp" "event_loop.more ?lp1 = event_loop.more lp"
      "el_epoll ?lp1 = (if ?f \<ge> 0 then (el_epoll lp)(?f := None) else el_epoll lp)"
      using True rest_fields [OF set_tm_rest [of a _ "el_close ?f (epoll_del ?f lp)"]]
      by (simp_all add: set_source_fd_def el_close_def epoll_del_def)
    note r2 = rest_fields [OF timer_remove_rest [OF lp2(1)]]
    show thesis
      by (rule that [OF s]) (use True r1 r2 in \<open>simp_all add: lp2(2) unlink_source_def\<close>)
  qed
qed


lemma more_calls: "event_loop.more lp' = event_loop.more lp \<Longrightarrow> el_calls lp' = el_calls lp"
  by (cases lp; cases lp') simp

lemma kept_remove:
  assumes ok: "sources_ok lp" and r: "wl_event_source_remove now al a lp = Some lp'"
  shows "sources_kept lp lp'"
proof -
  obtain s where s: "el_src lp a = Some s" and m: "event_loop.more lp' = event_loop.more lp"
    and d: "destroy_list lp' = a # removeAll a (destroy_list lp)"
    and ep: "el_epoll lp' = (if source_fd lp a s \<ge> 0 then (el_epoll lp)(source_fd lp a s := None) else el_epoll lp)"
    and src: "el_src lp' = (if s_iface s \<noteq> TimerInterface \<and> 0 \<le> s_fd s then (el_src lp)(a \<mapsto> s\<lparr>s_fd := - 1\<rparr>) else el_src lp)"
    by (rule remove_effect [OF r])
  have reg: "registered_ok lp" and dd: "set (destroy_list lp) \<subseteq> dom (el_src lp)"
    and k: "\<And>b t. el_src lp b = Some t \<Longrightarrow> watched t \<Longrightarrow> if b \<in> set (destroy_list lp) then s_fd t = - 1 else 0 \<le> s_fd t"
    using ok by (simp_all add: sources_ok_def)
  have "registered_ok lp'"
    unfolding registered_ok_def
  proof (intro allI impI)
    fix f ev b assume e: "el_epoll lp' f = Some (ev, b)"
    then have "el_epoll lp f = Some (ev, b)" by (auto simp: ep split: if_splits)
    then obtain t where t: "el_src lp b = Some t" "s_fd t = f" "0 \<le> f" "watched t" "b \<notin> set (destroy_list lp)"
      using reg unfolding registered_ok_def by blast
    have "b \<noteq> a"
    proof
      assume "b = a"
      with t s have "source_fd lp a s = f" by (auto simp: watched_def source_fd_def split: interface.splits)
      with e t(3) show False by (simp add: ep)
    qed
    with t show "\<exists>s. el_src lp' b = Some s \<and> s_fd s = f \<and> 0 \<le> f \<and> watched s \<and> b \<notin> set (destroy_list lp')"
      by (simp add: src d)
  qed
  moreover have "if b \<in> set (destroy_list lp') then s_fd t = - 1 else 0 \<le> s_fd t"
    if "el_src lp' b = Some t" "watched t" for b t
  proof (cases "b = a")
    case True
    have "s_fd t = - 1"
      using that True s k [OF s] by (auto simp: src watched_def split: if_splits interface.splits)
    then show ?thesis by (simp add: True d)
  next
    case False
    then show ?thesis using that k [of b t] by (simp add: src d split: if_splits)
  qed
  moreover have "set (destroy_list lp') \<subseteq> dom (el_src lp')" using dd s by (auto simp: d src)
  ultimately have "sources_ok lp'" unfolding sources_ok_def by blast
  moreover have "\<exists>t'. el_src lp' b = Some t' \<and> s_iface t' = s_iface t \<and> s_data t' = s_data t"
    if "el_src lp b = Some t" for b t
    using that s by (auto simp: src)
  ultimately show ?thesis
    using more_calls [OF m] by (auto simp: sources_kept_def d)
qed

lemma kept_add_source:
  assumes ok: "sources_ok lp" and s: "el_src lp a = None" "watched s" "el_epoll lp (s_fd s) = None"
  shows "sources_kept lp (snd (add_source a s m d lp))"
proof -
  have nd: "a \<notin> set (destroy_list lp)" using ok s(1) by (auto simp: sources_ok_def)
  have reg: "registered_ok (snd (add_source a s m d lp))"
    by (rule registered_ok_add_source [OF _ s(1) nd s(2,3)]) (use ok in \<open>simp add: sources_ok_def\<close>)
  have w: "watched (s\<lparr>s_data := d\<rparr>) = watched s" by (rule watched_cong) simp
  obtain v where e: "el_src (snd (add_source a s m d lp)) = (el_src lp)(a := v)"
    "v = None \<or> v = Some (s\<lparr>s_data := d\<rparr>) \<and> 0 \<le> s_fd s"
    "destroy_list (snd (add_source a s m d lp)) = destroy_list lp" "el_calls (snd (add_source a s m d lp)) = el_calls lp"
  proof (cases "s_fd s < 0")
    case True
    then show thesis by (intro that [of None]) (simp_all add: add_source_def set_src_def)
  next
    case False
    let ?lp1 = "set_src a (Some (s\<lparr>s_data := d\<rparr>)) lp"
    obtain b lp2 where b: "epoll_ctl (s_fd s) (events_of_mask m, a) ?lp1 = (b, lp2)" by fastforce
    then have "el_src lp2 = (el_src lp)(a \<mapsto> s\<lparr>s_data := d\<rparr>)" "destroy_list lp2 = destroy_list lp" "el_calls lp2 = el_calls lp"
      by (auto simp: epoll_ctl_def set_src_def split: list.splits bool.splits)
    with False b show thesis
      by (cases b) (auto simp: add_source_def set_src_def el_close_def Let_def
          intro: that [of None] that [of "Some (s\<lparr>s_data := d\<rparr>)"])
  qed
  have "set (destroy_list lp) \<subseteq> dom ((el_src lp)(a := v))" using ok nd by (auto simp: sources_ok_def)
  then have "sources_ok (snd (add_source a s m d lp))"
    using ok reg nd e by (auto simp: sources_ok_def)
  then show ?thesis using e s(1) by (auto simp: sources_kept_def)
qed

lemma kept_acts: "client_acts lp lp' \<Longrightarrow> sources_ok lp \<Longrightarrow> sources_kept lp lp'"
proof (induction rule: client_acts.induct)
  case nothing
  then show ?case by (rule sources_kept_same) simp_all
next
  case (remove lp1 now al a lp2)
  then show ?case using kept_remove sources_kept_trans by (metis sources_kept_def)
next
  case (add_fd lp1 a d f m func data r lp2)
  have k: "sources_kept lp lp1" "sources_ok lp1" using add_fd by (auto simp: sources_kept_def)
  have "sources_kept lp1 lp2"
  proof (cases "a = 0")
    case True
    then show ?thesis using add_fd.hyps(4) k(2) by (auto simp: wl_event_loop_add_fd_def intro: sources_kept_same)
  next
    case False
    then have "lp2 = snd (add_source a \<lparr>s_iface = FdInterface func f, s_fd = d, s_data = 0\<rparr> m data lp1)"
      using add_fd.hyps(4) by (simp add: wl_event_loop_add_fd_def)
    then show ?thesis using add_fd.hyps(2,3) by (auto simp: watched_def intro!: kept_add_source [OF k(2)])
  qed
  with k(1) show ?case by (rule sources_kept_trans)
next
  case (add_signal lp1 a d sig func data r lp2)
  have k: "sources_kept lp lp1" "sources_ok lp1" using add_signal by (auto simp: sources_kept_def)
  have "sources_kept lp1 lp2"
  proof (cases "a = 0")
    case True
    then show ?thesis using add_signal.hyps(4) k(2) by (auto simp: wl_event_loop_add_signal_def intro: sources_kept_same)
  next
    case False
    then have "lp2 = snd (add_source a \<lparr>s_iface = SignalInterface func sig, s_fd = d, s_data = 0\<rparr> WL_EVENT_READABLE data lp1)"
      using add_signal.hyps(4) by (simp add: wl_event_loop_add_signal_def)
    then show ?thesis using add_signal.hyps(2,3) by (auto simp: watched_def intro!: kept_add_source [OF k(2)])
  qed
  with k(1) show ?case by (rule sources_kept_trans)
next
  case (add_idle lp1 a func data r lp2)
  have k: "sources_kept lp lp1" "sources_ok lp1" using add_idle by (auto simp: sources_kept_def)
  have "sources_kept lp1 lp2"
    using add_idle.hyps(2,3) k(2)
    by (auto simp: wl_event_loop_add_idle_def set_src_def sources_kept_def sources_ok_def registered_ok_def watched_def
        split: if_splits) fastforce+
  with k(1) show ?case by (rule sources_kept_trans)
next
  case (add_timer lp1 a tfd eok al func data r cl lp2)
  have k: "sources_kept lp lp1" "sources_ok lp1" using add_timer by (auto simp: sources_kept_def)
  note rest = rest_fields [OF timer_add_rest [OF add_timer.hyps(3)]]
  have k2: "sources_kept lp1 lp2"
    by (rule sources_kept_same [OF k(2)]) (use rest more_calls [OF rest(8)] in simp_all)
  then have ok2: "sources_ok lp2" by (simp add: sources_kept_def)
  have "sources_kept lp2 (set_src a (Some \<lparr>s_iface = TimerInterface, s_fd = - 1, s_data = data\<rparr>) lp2)"
    using add_timer.hyps(2) ok2 rest(1)
    by (auto simp: set_src_def sources_kept_def sources_ok_def registered_ok_def watched_def) fastforce+
  with k(1) k2 show ?case by (auto intro: sources_kept_trans)
next
  case (fd_update lp1 a s m r lp2)
  have k: "sources_kept lp lp1" "sources_ok lp1" using fd_update by (auto simp: sources_kept_def)
  have fd: "0 \<le> s_fd s" using k(2) fd_update.hyps(2-4) by (auto simp: sources_ok_def)
  have reg: "registered_ok lp1" using k(2) by (simp add: sources_ok_def)
  have upd: "registered_ok lp2" "el_src lp2 = el_src lp1" "destroy_list lp2 = destroy_list lp1" "el_calls lp2 = el_calls lp1"
    using fd_update.hyps(2-5) reg fd
    by (auto simp: wl_event_source_fd_update_def epoll_ctl_def registered_ok_def
        split: list.splits bool.splits if_splits)
  then have "sources_kept lp1 lp2" using k(2) by (simp add: sources_kept_def sources_ok_def)
  with k(1) show ?case by (rule sources_kept_trans)
next
  case (timer_update lp1 now a ms r lp2)
  have k: "sources_kept lp lp1" "sources_ok lp1" using timer_update by (auto simp: sources_kept_def)
  note rest = rest_fields [OF timer_update_rest [OF timer_update.hyps(2)]]
  have "sources_kept lp1 lp2"
    by (rule sources_kept_same [OF k(2)]) (use rest more_calls [OF rest(8)] in simp_all)
  with k(1) show ?case by (rule sources_kept_trans)
next
  case (check lp1 a)
  have k: "sources_kept lp lp1" "sources_ok lp1" using check by (auto simp: sources_kept_def)
  have "sources_kept lp1 (wl_event_source_check a lp1)"
    by (rule sources_kept_same [OF k(2)]) (simp_all add: wl_event_source_check_def)
  with k(1) show ?case by (rule sources_kept_trans)
qed

text \<open>The call an event makes, and the calls of a round: an event whose source was removed before its
  turn makes none, every other one makes exactly its own.\<close>

definition event_call :: "'z event_loop_scheme \<Rightarrow> saddr \<Rightarrow> u32 \<Rightarrow> call" where
  "event_call lp a ev =
     (case el_src lp a of
        Some s \<Rightarrow> (case s_iface s of
            FdInterface func f \<Rightarrow> FdCall func f (mask_of_events ev) (s_data s)
          | SignalInterface func signum \<Rightarrow> SignalCall func signum (s_data s)
          | _ \<Rightarrow> IdleCall 0 0)
      | None \<Rightarrow> IdleCall 0 0)"

fun served :: "(saddr \<Rightarrow> u32 \<Rightarrow> call) \<Rightarrow> saddr list \<Rightarrow> (u32 \<times> saddr) list \<Rightarrow> (call \<times> saddr list) list \<Rightarrow> bool" where
  "served call gone [] cs = (cs = [])"
| "served call gone ((ev, a) # evs) cs =
     (if a = TIMERS \<or> a \<in> set (case cs of [] \<Rightarrow> gone | (_, removed) # _ \<Rightarrow> removed) then served call gone evs cs
      else (case cs of [] \<Rightarrow> False | (c, _) # cs' \<Rightarrow> c = call a ev \<and> served call gone evs cs'))"

text \<open>A function of the client: it is recorded, then it acts.\<close>

definition client_cb :: "(call \<Rightarrow> watched_loop \<Rightarrow> int \<times> watched_loop) \<Rightarrow> bool" where
  "client_cb cb \<longleftrightarrow>
     (\<forall>c lp. client_acts (lp\<lparr>el_calls := el_calls lp @ [(c, destroy_list lp)]\<rparr>) (snd (cb c lp)))"

text \<open>The events name sources that have a dispatch function.\<close>

definition named_by :: "(saddr \<Rightarrow> u32 \<Rightarrow> call) \<Rightarrow> (u32 \<times> saddr) list \<Rightarrow> 'z event_loop_scheme \<Rightarrow> bool" where
  "named_by call evs lp \<longleftrightarrow> (\<forall>a \<in> snd ` set evs. a = TIMERS \<or>
     (\<exists>s. el_src lp a = Some s \<and> watched s \<and> event_call lp a = call a))"

lemma named_by_Cons:
  "named_by call ((ev, a) # evs) lp \<longleftrightarrow> named_by call evs lp \<and>
     (a = TIMERS \<or> (\<exists>s. el_src lp a = Some s \<and> watched s \<and> event_call lp a = call a))"
  by (auto simp: named_by_def)

lemma named_by_kept:
  assumes "named_by call evs lp" "sources_kept lp' lp1" "el_src lp' = el_src lp"
  shows "named_by call evs lp1"
  unfolding named_by_def
proof
  fix a assume "a \<in> snd ` set evs"
  then consider "a = TIMERS" | s where "el_src lp a = Some s" "watched s" "event_call lp a = call a"
    using assms(1) unfolding named_by_def by blast
  then show "a = TIMERS \<or> (\<exists>s. el_src lp1 a = Some s \<and> watched s \<and> event_call lp1 a = call a)"
  proof cases
    case (2 s)
    then obtain t where t: "el_src lp1 a = Some t" "s_iface t = s_iface s" "s_data t = s_data s"
      using assms(2,3) unfolding sources_kept_def by metis
    have "event_call lp1 a = event_call lp a" using 2(1) t
      by (simp add: event_call_def fun_eq_iff split: interface.split)
    then show ?thesis using 2 t watched_cong [OF t(2)] by simp
  qed simp
qed

lemma dispatch_ready_serves:
  assumes cb: "client_cb cb"
  shows "sources_ok lp \<Longrightarrow> named_by call evs lp \<Longrightarrow>
    \<exists>lp' cs. dispatch_ready cb evs lp = Some lp' \<and> sources_ok lp' \<and> el_calls lp' = el_calls lp @ cs \<and>
      set (destroy_list lp) \<subseteq> set (destroy_list lp') \<and> served call (destroy_list lp') evs cs \<and>
      (cs \<noteq> [] \<longrightarrow> set (destroy_list lp) = set (snd (hd cs))) \<and>
      (cs = [] \<longrightarrow> destroy_list lp' = destroy_list lp)"
proof (induction evs arbitrary: lp)
  case Nil
  then show ?case by (intro exI [of _ lp] exI [of _ "[]"]) simp
next
  case (Cons x evs)
  obtain ev a where x: "x = (ev, a)" by (cases x)
  have ev: "named_by call evs lp" using Cons.prems(2) x by (simp add: named_by_Cons)
  have skip: ?case if sk: "dispatch_ready cb (x # evs) lp = dispatch_ready cb evs lp"
      "a = TIMERS \<or> a \<in> set (destroy_list lp)"
  proof -
    obtain lp' cs where c: "dispatch_ready cb evs lp = Some lp'" "sources_ok lp'" "el_calls lp' = el_calls lp @ cs"
      "set (destroy_list lp) \<subseteq> set (destroy_list lp')" "served call (destroy_list lp') evs cs"
      "cs \<noteq> [] \<Longrightarrow> set (destroy_list lp) = set (snd (hd cs))" "cs = [] \<Longrightarrow> destroy_list lp' = destroy_list lp"
      using Cons.IH [OF Cons.prems(1) ev] by auto
    have "a = TIMERS \<or> a \<in> set (case cs of [] \<Rightarrow> destroy_list lp' | (_, removed) # _ \<Rightarrow> removed)"
      using sk(2) c(6,7) by (cases cs) auto
    then have "served call (destroy_list lp') (x # evs) cs" using c(5) x by simp
    with sk(1) c show ?case by auto
  qed
  show ?case
  proof (cases "a = TIMERS")
    case True
    then show ?thesis by (intro skip) (simp_all add: x)
  next
    case nt: False
    obtain s where s: "el_src lp a = Some s" "watched s" and call: "event_call lp a = call a"
      using Cons.prems(2) x nt by (auto simp: named_by_Cons)
    have f: "source_fd lp a s = s_fd s" using s(2) by (auto simp: source_fd_def watched_def split: interface.splits)
    have k: "if a \<in> set (destroy_list lp) then s_fd s = - 1 else 0 \<le> s_fd s"
      using Cons.prems(1) s by (simp add: sources_ok_def)
    show ?thesis
    proof (cases "a \<in> set (destroy_list lp)")
      case True
      then show ?thesis using k by (intro skip) (simp_all add: x nt s f)
    next
      case live: False
      let ?c = "event_call lp a ev"
      have c: "source_dispatch cb a ev lp = Some (cb ?c lp)"
        using s by (auto simp: source_dispatch_def watched_def event_call_def split: interface.splits)
      obtain r lp1 where lp1: "cb ?c lp = (r, lp1)" by (metis surj_pair)
      let ?lp = "lp\<lparr>el_calls := el_calls lp @ [(?c, destroy_list lp)]\<rparr>"
      have "client_acts ?lp lp1" using cb lp1 unfolding client_cb_def by (metis snd_conv)
      moreover have "sources_ok ?lp" using Cons.prems(1) by (simp add: sources_ok_def registered_ok_def)
      ultimately have kept: "sources_kept ?lp lp1" by (rule kept_acts)
      then have k1: "sources_ok lp1" "el_calls lp1 = el_calls lp @ [(?c, destroy_list lp)]"
        "set (destroy_list lp) \<subseteq> set (destroy_list lp1)"
        by (simp_all add: sources_kept_def)
      have ev1: "named_by call evs lp1" by (rule named_by_kept [OF ev kept]) simp
      obtain lp' cs where c1: "dispatch_ready cb evs lp1 = Some lp'" "sources_ok lp'" "el_calls lp' = el_calls lp1 @ cs"
        "set (destroy_list lp1) \<subseteq> set (destroy_list lp')" "served call (destroy_list lp') evs cs"
        using Cons.IH [OF k1(1) ev1] by auto
      have "dispatch_ready cb (x # evs) lp = Some lp'"
        using c1(1) k live by (simp add: x nt s f c lp1)
      moreover have "served call (destroy_list lp') (x # evs) ((?c, destroy_list lp) # cs)"
        using c1(5) live nt by (simp add: x call)
      ultimately show ?thesis
        using c1 k1 by (intro exI [of _ lp'] exI [of _ "(?c, destroy_list lp) # cs"]) auto
    qed
  qed
qed

text \<open>C22: The functions of the client may add, update and remove event sources in any way, also the
  sources of events that the kernel has already reported: dispatching the reported events never
  touches a freed source, since removing one only queues it to be freed, and the calls made are
  exactly the ones the events call for: an event whose source was removed before its turn is
  skipped, every other one makes its call, in order.  (The functions do not run the loop
  themselves: that would free the removed sources.)\<close>

theorem dispatch_ready_no_use_after_free:
  assumes "sources_ok lp" "client_cb cb"
    "\<forall>(ev, a) \<in> set evs. a = TIMERS \<or> (\<exists>f m. el_epoll lp f = Some (m, a))"
  shows "\<exists>lp' cs. dispatch_ready cb evs lp = Some lp' \<and> sources_ok lp' \<and>
    el_calls lp' = el_calls lp @ cs \<and> served (event_call lp) (destroy_list lp') evs cs"
proof -
  have "\<exists>s. el_src lp a = Some s \<and> watched s" if "el_epoll lp f = Some (m, a)" for f m a
    using assms(1) that unfolding sources_ok_def registered_ok_def by blast
  then have ev: "named_by (event_call lp) evs lp" using assms(3) by (fastforce simp: named_by_def)
  from dispatch_ready_serves [OF assms(2,1) ev] show ?thesis by auto
qed

text \<open>A client that removes the source it is called for, while another event for it is waiting.\<close>

definition removing_cb :: "call \<Rightarrow> watched_loop \<Rightarrow> int \<times> watched_loop" where
  "removing_cb c lp =
     (let lp1 = lp\<lparr>el_calls := el_calls lp @ [(c, destroy_list lp)]\<rparr> in
      (0, case wl_event_source_remove (Timespec 1 0) True 100 lp1 of None \<Rightarrow> lp1 | Some lp2 \<Rightarrow> lp2))"

lemma removing_client: "client_cb removing_cb"
  unfolding client_cb_def
proof (intro allI)
  fix c and lp :: watched_loop
  let ?lp1 = "lp\<lparr>el_calls := el_calls lp @ [(c, destroy_list lp)]\<rparr>"
  show "client_acts ?lp1 (snd (removing_cb c lp))"
    by (cases "wl_event_source_remove (Timespec 1 0) True 100 ?lp1")
       (auto simp: removing_cb_def Let_def intro: client_acts.nothing client_acts.remove [OF client_acts.nothing])
qed

definition sample_watched :: watched_loop where
  "sample_watched = event_loop.extend sample_loop (watched_loop.fields [])"

lemma sample_watched_simps:
  "el_src sample_watched = el_src sample_loop" "el_epoll sample_watched = el_epoll sample_loop"
  "destroy_list sample_watched = []" "el_calls sample_watched = []"
  by (simp_all add: sample_watched_def event_loop.defs watched_loop.defs)

lemma dispatch_ready_no_use_after_free_witness:
  "\<exists>lp' cs. dispatch_ready removing_cb [(1, 100), (4, 100)] sample_watched = Some lp' \<and> el_calls lp' = cs \<and>
     served (event_call sample_watched) (destroy_list lp') [(1, 100), (4, 100)] cs \<and>
     event_call sample_watched 100 1 = FdCall 11 6 1 5"
proof -
  have "sources_ok sample_watched"
    unfolding sources_ok_def registered_ok_def sample_watched_simps
    by (auto simp: watched_def sample_loop_def timer_heap.defs event_loop.defs split: if_splits)
  note ok = this
  have "el_epoll sample_watched 7 = Some (1, 100)" by (simp add: sample_watched_simps)
  then have ev: "\<forall>(ev, a) \<in> set [(1, 100), (4, 100)]. a = TIMERS \<or> (\<exists>f m. el_epoll sample_watched f = Some (m, a))" by auto
  obtain lp' cs where d: "dispatch_ready removing_cb [(1, 100), (4, 100)] sample_watched = Some lp'"
    "el_calls lp' = el_calls sample_watched @ cs"
    "served (event_call sample_watched) (destroy_list lp') [(1, 100), (4, 100)] cs"
    using dispatch_ready_no_use_after_free [OF ok removing_client ev] by (elim exE conjE) (rule that)
  have "event_call sample_watched 100 1 = FdCall 11 6 1 5"
    unfolding event_call_def sample_watched_simps by (simp add: mask_of_events_def event_bits)
  with d show ?thesis unfolding sample_watched_simps append_Nil by blast
qed

section \<open>Idle sources\<close>

definition idle_call :: "'z event_loop_scheme \<Rightarrow> saddr \<Rightarrow> call" where
  "idle_call lp a =
     (case el_src lp a of
        Some s \<Rightarrow> (case s_iface s of IdleInterface func \<Rightarrow> IdleCall func (s_data s) | _ \<Rightarrow> IdleCall 0 0)
      | None \<Rightarrow> IdleCall 0 0)"

definition is_idle :: "'z event_loop_scheme \<Rightarrow> saddr \<Rightarrow> bool" where
  "is_idle lp a \<longleftrightarrow> (\<exists>s func. el_src lp a = Some s \<and> s_iface s = IdleInterface func \<and> s_fd s = - 1)"

text \<open>A loop that records the calls it makes.\<close>

record logged_loop = event_loop +
  el_log :: "call list"

definition quiet_cb :: "(call \<Rightarrow> logged_loop \<Rightarrow> int \<times> logged_loop) \<Rightarrow> bool" where
  "quiet_cb cb \<longleftrightarrow> (\<forall>c lp. el_log (snd (cb c lp)) = el_log lp @ [c] \<and>
     el_src (snd (cb c lp)) = el_src lp \<and> idle_list (snd (cb c lp)) = idle_list lp \<and>
     destroy_list (snd (cb c lp)) = destroy_list lp)"

lemma idle_step:
  assumes cb: "quiet_cb cb" and xs: "idle_list lp = a # xs" "a \<notin> set xs" "is_idle lp a"
  obtains lp1 where "wl_event_loop_dispatch_idle cb now lp = wl_event_loop_dispatch_idle cb now lp1"
    "idle_list lp1 = xs" "el_src lp1 = el_src lp" "el_log lp1 = el_log lp @ [idle_call lp a]"
    "destroy_list lp1 = a # removeAll a (destroy_list lp)"
proof -
  obtain s func where s: "el_src lp a = Some s" "s_iface s = IdleInterface func" "s_fd s = - 1"
    using xs(3) by (auto simp: is_idle_def)
  let ?lp0 = "snd (cb (IdleCall func (s_data s)) lp)"
  have k: "el_log ?lp0 = el_log lp @ [IdleCall func (s_data s)]" "el_src ?lp0 = el_src lp"
    "idle_list ?lp0 = a # xs" "destroy_list ?lp0 = destroy_list lp"
    using cb xs(1) by (simp_all add: quiet_cb_def)
  let ?lp1 = "(unlink_source a ?lp0)\<lparr>destroy_list := a # removeAll a (destroy_list ?lp0)\<rparr>"
  have r: "wl_event_source_remove now True a ?lp0 = Some ?lp1"
    using source_remove_other [of ?lp0 a s now True] s k(2) by (simp add: Let_def)
  have "wl_event_loop_dispatch_idle cb now lp = wl_event_loop_dispatch_idle cb now ?lp1"
    by (subst wl_event_loop_dispatch_idle.simps) (simp add: xs(1) s r)
  moreover have "idle_list ?lp1 = xs" using k xs(2) by (simp add: unlink_source_def)
  moreover have "el_log ?lp1 = el_log lp @ [idle_call lp a]"
    using k s by (simp add: unlink_source_def idle_call_def)
  moreover have "el_src ?lp1 = el_src lp" using k by (simp add: unlink_source_def)
  moreover have "destroy_list ?lp1 = a # removeAll a (destroy_list lp)" using k by simp
  ultimately show thesis using that by blast
qed

text \<open>C23: When the idle functions add no idle sources, dispatching the idle sources returns with an
  empty idle list after calling each of them exactly once, in the order they were added, and
  all of them are queued to be freed.\<close>

theorem dispatch_idle_fifo:
  assumes "quiet_cb cb" "distinct (idle_list lp)" "\<forall>a \<in> set (idle_list lp). is_idle lp a"
  shows "\<exists>lp'. wl_event_loop_dispatch_idle cb now lp = Some lp' \<and> idle_list lp' = [] \<and>
    el_log lp' = el_log lp @ map (idle_call lp) (idle_list lp) \<and>
    set (idle_list lp) \<subseteq> set (destroy_list lp')"
proof -
  have "\<exists>lp'. wl_event_loop_dispatch_idle cb now lp = Some lp' \<and> idle_list lp' = [] \<and>
    el_log lp' = el_log lp @ map (idle_call lp) xs \<and> set xs \<union> set (destroy_list lp) \<subseteq> set (destroy_list lp')"
    if "idle_list lp = xs" "distinct xs" "\<forall>a \<in> set xs. is_idle lp a" for xs lp
    using that
  proof (induction xs arbitrary: lp)
    case Nil
    then show ?case by (subst wl_event_loop_dispatch_idle.simps) simp
  next
    case (Cons a xs)
    obtain lp1 where lp1: "wl_event_loop_dispatch_idle cb now lp = wl_event_loop_dispatch_idle cb now lp1"
      "idle_list lp1 = xs" "el_src lp1 = el_src lp" "el_log lp1 = el_log lp @ [idle_call lp a]"
      "destroy_list lp1 = a # removeAll a (destroy_list lp)"
      using idle_step [OF assms(1) Cons.prems(1)] Cons.prems(2,3) by (metis distinct.simps(2) list.set_intros(1))
    have "\<forall>b \<in> set xs. is_idle lp1 b" using Cons.prems(3) lp1(3) by (simp add: is_idle_def)
    from Cons.IH [OF lp1(2) _ this] Cons.prems(2) obtain lp' where
      "wl_event_loop_dispatch_idle cb now lp1 = Some lp'" "idle_list lp' = []"
      "el_log lp' = el_log lp1 @ map (idle_call lp1) xs"
      "set xs \<union> set (destroy_list lp1) \<subseteq> set (destroy_list lp')" by auto
    moreover have "idle_call lp1 = idle_call lp" using lp1(3) by (auto simp: idle_call_def)
    ultimately show ?case using lp1 by auto
  qed
  from this [of lp "idle_list lp"] assms(2,3) show ?thesis by auto
qed

definition logging_cb :: "call \<Rightarrow> logged_loop \<Rightarrow> int \<times> logged_loop" where
  "logging_cb c lp = (0, lp\<lparr>el_log := el_log lp @ [c]\<rparr>)"

lemma dispatch_idle_fifo_witness:
  "\<exists>lp'. wl_event_loop_dispatch_idle logging_cb (Timespec 1 0)
       (event_loop.extend sample_loop (logged_loop.fields [])) = Some lp' \<and>
     el_log lp' = [IdleCall 12 6, IdleCall 13 8]"
proof -
  let ?lp = "event_loop.extend sample_loop (logged_loop.fields [])"
  have s: "el_src ?lp = el_src sample_loop" "idle_list ?lp = [200, 300]" "el_log ?lp = []"
    by (simp_all add: event_loop.defs logged_loop.defs)
  have q: "quiet_cb logging_cb" by (simp add: quiet_cb_def logging_cb_def)
  have i: "\<forall>a \<in> set (idle_list ?lp). is_idle ?lp a" unfolding s(2) is_idle_def s(1) by auto
  have c: "map (idle_call ?lp) [200, 300] = [IdleCall 12 6, IdleCall 13 8]"
    unfolding idle_call_def s(1) by simp
  show ?thesis using dispatch_idle_fifo [OF q _ i, of "Timespec 1 0"] s c by auto
qed

end
