(* ===== verification/Server.thy ===== *)
theory Server
  imports Invoke EventLoop
begin

text \<open>
  Clients, resources and the posting of events in wayland-server/wayland-server.c.  The state
  holds the display and the allocated resources, clients and globals by their addresses; an
  address that is not allocated is \<open>None\<close>.  Code of the compositor is reached through
  \<open>e_hook\<close>: each upcall names the function pointer and its arguments, and its effect on the
  state is arbitrary.  Operations return \<open>None\<close> when they use a freed or NULL object, an
  argument of the wrong kind, or stop the process.
\<close>

section \<open>State\<close>

record wl_resource =
  r_object :: wl_object
  r_client :: u64
  r_data :: u64
  r_version :: int
  r_dispatcher :: u64
  r_destroy :: u64

record wl_client =
  c_connection :: wl_connection
  c_display_resource :: u64
  c_objects :: wl_map
  c_error :: bool
  c_source :: u64
  c_pid :: u32
  c_uid :: u32
  c_gid :: u32
  c_wire_message_cb :: u64
  c_wire_message_end_cb :: u64
  c_registry_created_cb :: u64
  c_sync_done_cb :: u64

record wl_global =
  g_interface :: u64
  g_name :: u32
  g_version :: u32
  g_data :: u64
  g_bind :: u64
  g_removed :: bool

record server =
  s_res :: "u64 \<Rightarrow> wl_resource option"
  s_client :: "u64 \<Rightarrow> wl_client option"
  s_global :: "u64 \<Rightarrow> wl_global option"
  s_os :: os
  d_loop :: event_loop
  d_id :: u32
  d_serial :: u32
  d_registries :: "u64 list"
  d_globals :: "u64 list"
  d_clients :: "u64 list"
  d_tmp_clients :: "u64 list"
  d_loggers :: "(u64 \<times> u64) list"
  d_filter :: u64
  d_filter_data :: u64
  d_global_created_cb :: u64
  d_global_destroyed_cb :: u64
  d_shm_formats :: "u32 list"

text \<open>The calls of functions that the compositor has registered.\<close>

datatype upcall =
    ProtocolLog u64 u64 bool u64 wl_closure
  | DeprecatedDestroyListeners u64
  | DestroyListeners u64
  | ResourceDestroy u64 u64
  | ResourceCreated u64 u64
  | GlobalCreated u64 u32
  | GlobalDestroyed u64 u32
  | GlobalBind u64 u64 u64 u32 u32
  | RegistryCreated u64 u64 u64 u32
  | SyncDone u64 u64 u32
  | ClientCreated u64
  | ClientDestroyListeners u64
  | WireMessage u64 u64 "u8 list" u32 u32
  | WireMessageEnd u64 u64
  | Request ffi_call "wl_argument list"
  | Dispatch u64 u64 u32 wl_message "wl_argument list"

text \<open>
  \<open>e_junk\<close> is the uninitialised memory of \<open>wl_closure_queue\<close>, \<open>e_grow\<close> tells for each argument of a
  request whether the id map can grow for it, \<open>e_impl\<close> the function pointers of an
  implementation and \<open>e_filter\<close> the global filter (function, client, global, data).  The last
  fields are the addresses of the protocol tables and of the two implementations of this file.
\<close>

record env =
  e_ifaces :: "u64 \<Rightarrow> wl_interface"
  e_hook :: "upcall \<Rightarrow> server \<Rightarrow> int \<times> server"
  e_junk :: "nat \<Rightarrow> u8"
  e_grow :: "nat \<Rightarrow> bool"
  e_impl :: "u64 \<Rightarrow> u32 \<Rightarrow> u64"
  e_filter :: "u64 \<Rightarrow> u64 \<Rightarrow> u64 \<Rightarrow> u64 \<Rightarrow> bool"
  e_wl_display_interface :: u64
  e_wl_registry_interface :: u64
  e_wl_callback_interface :: u64
  e_display_interface :: u64
  e_registry_interface :: u64

definition notify :: "env \<Rightarrow> upcall \<Rightarrow> server \<Rightarrow> server" where
  "notify env u s = snd (e_hook env u s)"

definition upd_client :: "u64 \<Rightarrow> (wl_client \<Rightarrow> wl_client) \<Rightarrow> server \<Rightarrow> server" where
  "upd_client c f s = s\<lparr>s_client := (s_client s)(c := map_option f (s_client s c))\<rparr>"

definition upd_res :: "u64 \<Rightarrow> (wl_resource \<Rightarrow> wl_resource) \<Rightarrow> server \<Rightarrow> server" where
  "upd_res r f s = s\<lparr>s_res := (s_res s)(r := map_option f (s_res s r))\<rparr>"

definition set_error :: "u64 \<Rightarrow> server \<Rightarrow> server" where
  "set_error c s = upd_client c (\<lambda>cl. cl\<lparr>c_error := True\<rparr>) s"

definition free_res :: "u64 \<Rightarrow> server \<Rightarrow> server" where
  "free_res r s = s\<lparr>s_res := (s_res s)(r := None)\<rparr>"

definition null_object :: wl_object where
  "null_object = \<lparr>interface = 0, implementation = 0, object_id = 0\<rparr>"

definition objs_of :: "server \<Rightarrow> u64 \<Rightarrow> wl_object" where
  "objs_of s p = (case s_res s p of Some res \<Rightarrow> r_object res | None \<Rightarrow> null_object)"

definition list_at :: "'a list \<Rightarrow> nat \<Rightarrow> 'a option" where
  "list_at xs n = (if n < length xs then Some (xs ! n) else None)"

text \<open>Results of the code that stop the process or are undefined.\<close>

definition fatal :: "errno + 'a \<Rightarrow> bool" where
  "fatal r \<longleftrightarrow> r = Inl UB \<or> r = Inl ABORT"

section \<open>Protocol constants\<close>

definition WL_MAP_ENTRY_LEGACY :: u32 where "WL_MAP_ENTRY_LEGACY = 1"

definition WL_DISPLAY_ERROR :: u32 where "WL_DISPLAY_ERROR = 0"
definition WL_DISPLAY_DELETE_ID :: u32 where "WL_DISPLAY_DELETE_ID = 1"
definition WL_REGISTRY_GLOBAL :: u32 where "WL_REGISTRY_GLOBAL = 0"
definition WL_REGISTRY_GLOBAL_REMOVE :: u32 where "WL_REGISTRY_GLOBAL_REMOVE = 1"
definition WL_DISPLAY_ERROR_INVALID_OBJECT :: u32 where "WL_DISPLAY_ERROR_INVALID_OBJECT = 0"
definition WL_DISPLAY_ERROR_INVALID_METHOD :: u32 where "WL_DISPLAY_ERROR_INVALID_METHOD = 1"
definition WL_DISPLAY_ERROR_NO_MEMORY :: u32 where "WL_DISPLAY_ERROR_NO_MEMORY = 2"
definition WL_DISPLAY_ERROR_IMPLEMENTATION :: u32 where "WL_DISPLAY_ERROR_IMPLEMENTATION = 3"

section \<open>Posting events\<close>

fun log_loop :: "env \<Rightarrow> (u64 \<times> u64) list \<Rightarrow> bool \<Rightarrow> u64 \<Rightarrow> wl_closure \<Rightarrow> server \<Rightarrow> server" where
  "log_loop env [] send r c s = s"
| "log_loop env ((func, user_data) # ls) send r c s =
     log_loop env ls send r c (notify env (ProtocolLog func user_data send r c) s)"

definition log_closure :: "env \<Rightarrow> u64 \<Rightarrow> wl_closure \<Rightarrow> bool \<Rightarrow> server \<Rightarrow> server" where
  "log_closure env r c send s = log_loop env (d_loggers s) send r c s"

fun verify_loop :: "server \<Rightarrow> u64 \<Rightarrow> (argument_details \<times> wl_argument) list \<Rightarrow> bool option" where
  "verify_loop s client [] = Some True"
| "verify_loop s client ((d, a) # das) =
     (if arg_type d \<in> {CHR ''n'', CHR ''o''} then
        (case a of
           Obj q \<Rightarrow>
             if q = 0 then verify_loop s client das
             else s_res s q \<bind> (\<lambda>res. if r_client res \<noteq> client then Some False else verify_loop s client das)
         | _ \<Rightarrow> None)
      else verify_loop s client das)"

definition verify_objects :: "server \<Rightarrow> u64 \<Rightarrow> wl_message \<Rightarrow> wl_argument list \<Rightarrow> bool option" where
  "verify_objects s client msg args = verify_loop s client (zip (message_args msg) args)"

text \<open>\<open>queue\<close> tells \<open>wl_closure_queue\<close> from \<open>wl_closure_send\<close>.\<close>

definition send_func ::
  "env \<Rightarrow> bool \<Rightarrow> (u64 \<Rightarrow> wl_object) \<Rightarrow> wl_closure \<Rightarrow> wl_connection \<Rightarrow> os \<Rightarrow>
   (errno + unit) \<times> wl_closure \<times> wl_connection \<times> os" where
  "send_func env queue =
     (if queue then wl_closure_queue (e_junk env) else wl_closure_send)"

definition handle_array :: "env \<Rightarrow> bool \<Rightarrow> u64 \<Rightarrow> u32 \<Rightarrow> wl_argument list \<Rightarrow> server \<Rightarrow> server option" where
  "handle_array env queue r opcode args s = do {
     res \<leftarrow> s_res s r;
     let client = r_client res;
     cl \<leftarrow> s_client s client;
     if c_error cl then Some s
     else do {
       msg \<leftarrow> list_at (events (e_ifaces env (interface (r_object res)))) (unat opcode);
       ok \<leftarrow> verify_objects s client msg args;
       if \<not> ok then Some (set_error client s)
       else (case wl_closure_marshal (objs_of s) (object_id (r_object res)) opcode args msg (s_os s) of
           (Inl e, w) \<Rightarrow>
             if fatal (Inl e :: errno + unit) then None else Some (set_error client (s\<lparr>s_os := w\<rparr>))
         | (Inr closure, w) \<Rightarrow> do {
             let s1 = log_closure env r closure True (s\<lparr>s_os := w\<rparr>);
             cl1 \<leftarrow> s_client s1 client;
             (case send_func env queue (objs_of s1) closure (c_connection cl1) (s_os s1) of
                (rr, closure', conn, w1) \<Rightarrow>
                  if fatal rr then None
                  else Some ((upd_client client (\<lambda>cl. cl\<lparr>c_connection := conn, c_error := c_error cl \<or> isl rr\<rparr>) s1)
                               \<lparr>s_os := wl_closure_destroy (Some closure') w1\<rparr>)) }) } }"

definition wl_resource_post_event_array where
  "wl_resource_post_event_array env r opcode args s = handle_array env False r opcode args s"

definition wl_resource_queue_event_array where
  "wl_resource_queue_event_array env r opcode args s = handle_array env True r opcode args s"

text \<open>The variable arguments are the list \<open>ap\<close>.\<close>

definition event_args :: "env \<Rightarrow> u64 \<Rightarrow> u32 \<Rightarrow> wl_argument list \<Rightarrow> server \<Rightarrow> wl_argument list option" where
  "event_args env r opcode ap s = do {
     res \<leftarrow> s_res s r;
     msg \<leftarrow> list_at (events (e_ifaces env (interface (r_object res)))) (unat opcode);
     (case wl_argument_from_va_list (signature msg) WL_CLOSURE_MAX_ARGS ap of
        Inl _ \<Rightarrow> None | Inr args \<Rightarrow> Some args) }"

definition wl_resource_post_event :: "env \<Rightarrow> u64 \<Rightarrow> u32 \<Rightarrow> wl_argument list \<Rightarrow> server \<Rightarrow> server option" where
  "wl_resource_post_event env r opcode ap s = do {
     args \<leftarrow> event_args env r opcode ap s;
     wl_resource_post_event_array env r opcode args s }"

definition wl_resource_queue_event :: "env \<Rightarrow> u64 \<Rightarrow> u32 \<Rightarrow> wl_argument list \<Rightarrow> server \<Rightarrow> server option" where
  "wl_resource_queue_event env r opcode ap s = do {
     args \<leftarrow> event_args env r opcode ap s;
     wl_resource_queue_event_array env r opcode args s }"

section \<open>Posting errors\<close>

text \<open>The conversions \<open>%u\<close> and \<open>%d\<close> of the standard library.\<close>

fun dec_nat :: "nat \<Rightarrow> string" where
  "dec_nat n = (if n < 10 then [char_of (48 + n)] else dec_nat (n div 10) @ [char_of (48 + n mod 10)])"

definition dec_int :: "int \<Rightarrow> string" where
  "dec_int i = (if i < 0 then CHR ''-'' # dec_nat (nat (- i)) else dec_nat (nat i))"

definition fmt_u :: "u32 \<Rightarrow> string" where "fmt_u w = dec_nat (unat w)"
definition fmt_d :: "u32 \<Rightarrow> string" where "fmt_d w = dec_int (sint w)"

declare dec_nat.simps [simp del]

text \<open>\<open>msg\<close> is the formatted text; the buffer of \<open>vsnprintf\<close> holds 127 characters of it.\<close>

definition wl_resource_post_error_vargs :: "env \<Rightarrow> u64 \<Rightarrow> u32 \<Rightarrow> string \<Rightarrow> server \<Rightarrow> server option" where
  "wl_resource_post_error_vargs env r code msg s = do {
     res \<leftarrow> s_res s r;
     let client = r_client res;
     cl \<leftarrow> s_client s client;
     let buffer = map of_char (take 127 msg);
     if c_error cl \<or> c_display_resource cl = 0 then Some s
     else do {
       s1 \<leftarrow> wl_resource_post_event env (c_display_resource cl) WL_DISPLAY_ERROR
               [Obj r, W code, Str (Some buffer)] s;
       Some (set_error client s1) } }"

definition wl_resource_post_error :: "env \<Rightarrow> u64 \<Rightarrow> u32 \<Rightarrow> string \<Rightarrow> server \<Rightarrow> server option" where
  "wl_resource_post_error env r code msg s = wl_resource_post_error_vargs env r code msg s"

definition wl_client_post_no_memory :: "env \<Rightarrow> u64 \<Rightarrow> server \<Rightarrow> server option" where
  "wl_client_post_no_memory env c s = do {
     cl \<leftarrow> s_client s c;
     wl_resource_post_error env (c_display_resource cl) WL_DISPLAY_ERROR_NO_MEMORY ''no memory'' s }"

definition wl_client_post_implementation_error :: "env \<Rightarrow> u64 \<Rightarrow> string \<Rightarrow> server \<Rightarrow> server option" where
  "wl_client_post_implementation_error env c msg s = do {
     cl \<leftarrow> s_client s c;
     wl_resource_post_error_vargs env (c_display_resource cl) WL_DISPLAY_ERROR_IMPLEMENTATION msg s }"

definition wl_resource_post_no_memory :: "env \<Rightarrow> u64 \<Rightarrow> server \<Rightarrow> server option" where
  "wl_resource_post_no_memory env r s = do {
     res \<leftarrow> s_res s r;
     cl \<leftarrow> s_client s (r_client res);
     wl_resource_post_error env (c_display_resource cl) WL_DISPLAY_ERROR_NO_MEMORY ''no memory'' s }"

section \<open>Resources\<close>

definition wl_resource_get_id :: "u64 \<Rightarrow> server \<Rightarrow> u32 option" where
  "wl_resource_get_id r s = map_option (\<lambda>res. object_id (r_object res)) (s_res s r)"

definition wl_resource_get_client :: "u64 \<Rightarrow> server \<Rightarrow> u64 option" where
  "wl_resource_get_client r s = map_option r_client (s_res s r)"

definition wl_resource_set_user_data :: "u64 \<Rightarrow> u64 \<Rightarrow> server \<Rightarrow> server" where
  "wl_resource_set_user_data r data s = upd_res r (\<lambda>res. res\<lparr>r_data := data\<rparr>) s"

definition wl_resource_get_user_data :: "u64 \<Rightarrow> server \<Rightarrow> u64 option" where
  "wl_resource_get_user_data r s = map_option r_data (s_res s r)"

definition wl_resource_get_version :: "u64 \<Rightarrow> server \<Rightarrow> int option" where
  "wl_resource_get_version r s = map_option r_version (s_res s r)"

definition wl_resource_set_destructor :: "u64 \<Rightarrow> u64 \<Rightarrow> server \<Rightarrow> server" where
  "wl_resource_set_destructor r destroy s = upd_res r (\<lambda>res. res\<lparr>r_destroy := destroy\<rparr>) s"

definition wl_resource_instance_of :: "env \<Rightarrow> u64 \<Rightarrow> u64 \<Rightarrow> u64 \<Rightarrow> server \<Rightarrow> bool option" where
  "wl_resource_instance_of env r iface impl s =
     map_option (\<lambda>res. wl_interface_equal (e_ifaces env) (interface (r_object res)) iface \<and>
                       implementation (r_object res) = impl) (s_res s r)"

definition wl_resource_get_class :: "env \<Rightarrow> u64 \<Rightarrow> server \<Rightarrow> string option" where
  "wl_resource_get_class env r s =
     map_option (\<lambda>res. iface_name (e_ifaces env (interface (r_object res)))) (s_res s r)"

fun wl_resource_find_for_client :: "u64 list \<Rightarrow> u64 \<Rightarrow> server \<Rightarrow> u64 option" where
  "wl_resource_find_for_client rs client s =
     (if client = 0 then Some 0
      else case rs of
        [] \<Rightarrow> Some 0
      | r # rs' \<Rightarrow> s_res s r \<bind>
          (\<lambda>res. if r_client res = client then Some r else wl_resource_find_for_client rs' client s))"

definition wl_client_get_object :: "u64 \<Rightarrow> u32 \<Rightarrow> server \<Rightarrow> u64 option" where
  "wl_client_get_object c i s = map_option (\<lambda>cl. wl_map_lookup (c_objects cl) i) (s_client s c)"

definition wl_resource_set_implementation :: "u64 \<Rightarrow> u64 \<Rightarrow> u64 \<Rightarrow> u64 \<Rightarrow> server \<Rightarrow> server" where
  "wl_resource_set_implementation r impl data destroy s =
     upd_res r (\<lambda>res. res\<lparr>r_object := (r_object res)\<lparr>implementation := impl\<rparr>, r_data := data,
                          r_destroy := destroy, r_dispatcher := 0\<rparr>) s"

definition wl_resource_set_dispatcher :: "u64 \<Rightarrow> u64 \<Rightarrow> u64 \<Rightarrow> u64 \<Rightarrow> u64 \<Rightarrow> server \<Rightarrow> server" where
  "wl_resource_set_dispatcher r dispatcher impl data destroy s =
     upd_res r (\<lambda>res. res\<lparr>r_dispatcher := dispatcher,
                          r_object := (r_object res)\<lparr>implementation := impl\<rparr>, r_data := data,
                          r_destroy := destroy\<rparr>) s"

text \<open>
  \<open>wl_map_insert_at\<close> on the objects of a client; the growing of the array succeeds or fails
  as the allocator says.
\<close>

definition client_insert_at :: "u64 \<Rightarrow> u32 \<Rightarrow> u32 \<Rightarrow> u64 \<Rightarrow> server \<Rightarrow> (int \<times> server) option" where
  "client_insert_at c flags i d s = do {
     cl \<leftarrow> s_client s c;
     case sys_malloc (s_os s) of (mem, w) \<Rightarrow>
       (case wl_map_insert_at (c_objects cl) flags i d mem of
          (Inl _, _) \<Rightarrow> None
        | (Inr n, m) \<Rightarrow> Some (n, (upd_client c (\<lambda>cl. cl\<lparr>c_objects := m\<rparr>) s)\<lparr>s_os := w\<rparr>)) }"

text \<open>\<open>a\<close> is the address \<open>malloc\<close> returns, 0 when it fails.\<close>

definition wl_resource_create ::
  "env \<Rightarrow> u64 \<Rightarrow> u64 \<Rightarrow> u64 \<Rightarrow> int \<Rightarrow> u32 \<Rightarrow> server \<Rightarrow> (u64 \<times> server) option" where
  "wl_resource_create env a client iface version i s =
     (if a = 0 then Some (0, s)
      else do {
        let res = \<lparr>r_object = \<lparr>interface = iface, implementation = 0, object_id = i\<rparr>, r_client = client,
                   r_data = 0, r_version = version, r_dispatcher = 0, r_destroy = 0\<rparr>;
        let s1 = s\<lparr>s_res := (s_res s)(a := Some res)\<rparr>;
        (n, s2) \<leftarrow> client_insert_at client 0 i a s1;
        if n < 0 then do {
          cl \<leftarrow> s_client s2 client;
          s3 \<leftarrow> wl_resource_post_error env (c_display_resource cl) WL_DISPLAY_ERROR_INVALID_OBJECT
                  (''invalid new id '' @ fmt_d i) s2;
          Some (0, free_res a s3) }
        else Some (a, notify env (ResourceCreated client a) s2) })"

definition resource_is_deprecated :: "u64 \<Rightarrow> server \<Rightarrow> bool option" where
  "resource_is_deprecated r s = do {
     res \<leftarrow> s_res s r;
     cl \<leftarrow> s_client s (r_client res);
     Some (wl_map_lookup_flags (c_objects cl) (object_id (r_object res)) AND WL_MAP_ENTRY_LEGACY \<noteq> 0) }"

text \<open>
  Two destructors are functions of this file; their addresses are distinct constants.  The
  others belong to the compositor.
\<close>

definition UNBIND_RESOURCE :: u64 where "UNBIND_RESOURCE = 3"
definition DESTROY_CLIENT_DISPLAY_RESOURCE :: u64 where "DESTROY_CLIENT_DISPLAY_RESOURCE = 5"

definition unbind_resource :: "u64 \<Rightarrow> server \<Rightarrow> server" where
  "unbind_resource r s = s\<lparr>d_registries := removeAll r (d_registries s)\<rparr>"

definition destroy_client_display_resource :: "u64 \<Rightarrow> server \<Rightarrow> server" where
  "destroy_client_display_resource r s =
     (case s_res s r of
        None \<Rightarrow> s
      | Some res \<Rightarrow> upd_client (r_client res) (\<lambda>cl. cl\<lparr>c_display_resource := 0\<rparr>) s)"

definition call_destroy :: "env \<Rightarrow> u64 \<Rightarrow> u64 \<Rightarrow> server \<Rightarrow> server" where
  "call_destroy env f r s =
     (if f = 0 then s
      else if f = UNBIND_RESOURCE then unbind_resource r s
      else if f = DESTROY_CLIENT_DISPLAY_RESOURCE then destroy_client_display_resource r s
      else notify env (ResourceDestroy f r) s)"

definition destroy_resource :: "env \<Rightarrow> u64 \<Rightarrow> u32 \<Rightarrow> server \<Rightarrow> server option" where
  "destroy_resource env r flags s = do {
     _ \<leftarrow> s_res s r;
     let s1 = notify env (DeprecatedDestroyListeners r) s;
     deprecated \<leftarrow> resource_is_deprecated r s1;
     let s2 = (if \<not> deprecated then notify env (DestroyListeners r) s1 else s1);
     res \<leftarrow> s_res s2 r;
     let s3 = call_destroy env (r_destroy res) r s2;
     Some (if flags AND WL_MAP_ENTRY_LEGACY = 0 then free_res r s3 else s3) }"

definition wl_resource_destroy :: "env \<Rightarrow> u64 \<Rightarrow> server \<Rightarrow> server option" where
  "wl_resource_destroy env r s = do {
     res \<leftarrow> s_res s r;
     let client = r_client res;
     let i = object_id (r_object res);
     cl \<leftarrow> s_client s client;
     let flags = wl_map_lookup_flags (c_objects cl) i;
     s1 \<leftarrow> destroy_resource env r flags s;
     cl1 \<leftarrow> s_client s1 client;
     if i < WL_SERVER_ID_START then do {
       s2 \<leftarrow> (if c_display_resource cl1 \<noteq> 0
               then wl_resource_queue_event env (c_display_resource cl1) WL_DISPLAY_DELETE_ID [W i] s1
               else Some s1);
       (_, s3) \<leftarrow> client_insert_at client 0 i 0 s2;
       Some s3 }
     else (case wl_map_remove (c_objects cl1) i of
         (Inl _, _) \<Rightarrow> None
       | (Inr _, m) \<Rightarrow> Some (upd_client client (\<lambda>cl. cl\<lparr>c_objects := m\<rparr>) s1)) }"

definition wl_resource_destroy_silently :: "env \<Rightarrow> u64 \<Rightarrow> server \<Rightarrow> server option" where
  "wl_resource_destroy_silently env r s =
     (if r = 0 then Some s
      else do {
        res \<leftarrow> s_res s r;
        let client = r_client res;
        let i = object_id (r_object res);
        cl \<leftarrow> s_client s client;
        let flags = wl_map_lookup_flags (c_objects cl) i;
        s1 \<leftarrow> destroy_resource env r flags s;
        (_, s2) \<leftarrow> client_insert_at client 0 i 0 s1;
        Some s2 })"

text \<open>The deprecated constructors.\<close>

definition wl_client_add_resource :: "env \<Rightarrow> u64 \<Rightarrow> u64 \<Rightarrow> server \<Rightarrow> (u32 \<times> server) option" where
  "wl_client_add_resource env client r s = do {
     res \<leftarrow> s_res s r;
     cl \<leftarrow> s_client s client;
     (ok, s1) \<leftarrow> (if object_id (r_object res) = 0 then
         (case sys_malloc (s_os s) of (mem, w) \<Rightarrow>
          (case wl_map_insert_new (c_objects cl) WL_MAP_ENTRY_LEGACY r mem of
             (Inl _, _) \<Rightarrow> None
           | (Inr i, m) \<Rightarrow> Some (True, (upd_res r (\<lambda>res. res\<lparr>r_object := (r_object res)\<lparr>object_id := i\<rparr>\<rparr>)
                                (upd_client client (\<lambda>cl. cl\<lparr>c_objects := m\<rparr>) s))\<lparr>s_os := w\<rparr>)))
       else do {
         (n, s1) \<leftarrow> client_insert_at client WL_MAP_ENTRY_LEGACY (object_id (r_object res)) r s;
         Some (\<not> n < 0, s1) });
     if \<not> ok then do {
       s2 \<leftarrow> wl_resource_post_error env (c_display_resource cl) WL_DISPLAY_ERROR_INVALID_OBJECT
               (''invalid new id '' @ fmt_d (object_id (r_object res))) s1;
       Some (0, s2) }
     else do {
       let s2 = upd_res r (\<lambda>res. res\<lparr>r_client := client\<rparr>) s1;
       i \<leftarrow> wl_resource_get_id r s2;
       Some (i, s2) } }"

definition wl_client_add_object ::
  "env \<Rightarrow> u64 \<Rightarrow> u64 \<Rightarrow> u64 \<Rightarrow> u64 \<Rightarrow> u32 \<Rightarrow> u64 \<Rightarrow> server \<Rightarrow> (u64 \<times> server) option" where
  "wl_client_add_object env a client iface impl i data s = do {
     (r, s1) \<leftarrow> wl_resource_create env a client iface (- 1) i s;
     if r = 0 then do { s2 \<leftarrow> wl_client_post_no_memory env client s1; Some (r, s2) }
     else Some (r, wl_resource_set_implementation r impl data 0 s1) }"

definition wl_client_new_object ::
  "env \<Rightarrow> u64 \<Rightarrow> u64 \<Rightarrow> u64 \<Rightarrow> u64 \<Rightarrow> u64 \<Rightarrow> server \<Rightarrow> (u64 \<times> server) option" where
  "wl_client_new_object env a client iface impl data s =
     wl_client_add_object env a client iface impl 0 data s"

section \<open>Events stay with their client\<close>

lemma upd_client_simps [simp]:
  "s_res (upd_client c f s) = s_res s" "s_os (upd_client c f s) = s_os s"
  "s_client (upd_client c f s) = (s_client s)(c := map_option f (s_client s c))"
  "s_global (upd_client c f s) = s_global s" "d_globals (upd_client c f s) = d_globals s"
  "d_registries (upd_client c f s) = d_registries s" "d_id (upd_client c f s) = d_id s"
  by (simp_all add: upd_client_def)

lemma set_error_simps [simp]:
  "s_res (set_error c s) = s_res s" "s_os (set_error c s) = s_os s"
  "s_client (set_error c s) = (s_client s)(c := map_option (\<lambda>cl. cl\<lparr>c_error := True\<rparr>) (s_client s c))"
  by (simp_all add: set_error_def)

text \<open>An object argument that belongs to another client.\<close>

definition foreign_arg :: "server \<Rightarrow> u64 \<Rightarrow> argument_details \<times> wl_argument \<Rightarrow> bool" where
  "foreign_arg s client da \<longleftrightarrow> (case da of (d, a) \<Rightarrow> arg_type d \<in> {CHR ''n'', CHR ''o''} \<and>
     (\<exists>q res. a = Obj q \<and> q \<noteq> 0 \<and> s_res s q = Some res \<and> r_client res \<noteq> client))"

lemma verify_loop_exact:
  "verify_loop s client das = Some b \<Longrightarrow> b = (\<not> (\<exists>da \<in> set das. foreign_arg s client da))"
proof (induction das)
  case (Cons x das)
  then show ?case
    by (cases x) (auto simp: foreign_arg_def split: if_splits wl_argument.splits bind_splits)
qed (simp add: foreign_arg_def)

text \<open>C16: Nothing of one client leaks to another: an event with an object argument that belongs
  to a different client is not marshalled, no byte and no descriptor is queued or sent, and the
  client it was meant for is marked as broken.  A client that is marked as broken is never sent
  anything again.\<close>

theorem event_isolation:
  assumes res: "s_res s r = Some res" and cl: "s_client s (r_client res) = Some cl"
    and ev: "unat opcode < length (events (e_ifaces env (interface (r_object res))))"
    and bad: "c_error cl \<or>
      (\<exists>da \<in> set (zip (message_args (events (e_ifaces env (interface (r_object res))) ! unat opcode)) args).
         foreign_arg s (r_client res) da)"
    and run: "handle_array env queue r opcode args s = Some s'"
  shows "s_os s' = s_os s \<and> s_res s' = s_res s \<and>
    (\<forall>c. c \<noteq> r_client res \<longrightarrow> s_client s' c = s_client s c) \<and>
    s_client s' (r_client res) = Some (cl\<lparr>c_error := True\<rparr>)"
proof (cases "c_error cl")
  case True
  then show ?thesis using run res cl by (auto simp: handle_array_def)
next
  case False
  let ?msg = "events (e_ifaces env (interface (r_object res))) ! unat opcode"
  obtain b where b: "verify_objects s (r_client res) ?msg args = Some b"
    using run res cl ev False
    by (cases "verify_objects s (r_client res) ?msg args") (simp_all add: handle_array_def list_at_def Let_def)
  then have "\<not> b" using verify_loop_exact [OF b [unfolded verify_objects_def]] bad False by blast
  with run res cl ev False b have "s' = set_error (r_client res) s"
    by (simp add: handle_array_def list_at_def)
  then show ?thesis using cl by simp
qed

text \<open>A server with two clients for the witnesses.\<close>

definition display_iface :: wl_interface where
  "display_iface = \<lparr>iface_name = ''wl_display'', iface_version = 1,
     methods = [\<lparr>msg_name = ''sync'', signature = ''n'', types = [0]\<rparr>,
                \<lparr>msg_name = ''get_registry'', signature = ''n'', types = [0]\<rparr>],
     events = [\<lparr>msg_name = ''error'', signature = ''ous'', types = [0, 0, 0]\<rparr>,
               \<lparr>msg_name = ''delete_id'', signature = ''u'', types = [0]\<rparr>]\<rparr>"

definition output_iface :: wl_interface where
  "output_iface = \<lparr>iface_name = ''wl_surface'', iface_version = 4,
     methods = [], events = [\<lparr>msg_name = ''enter'', signature = ''o'', types = [0]\<rparr>]\<rparr>"

definition registry_iface :: wl_interface where
  "registry_iface = \<lparr>iface_name = ''wl_registry'', iface_version = 1,
     methods = [\<lparr>msg_name = ''bind'', signature = ''usun'', types = [0, 0, 0, 0]\<rparr>],
     events = [\<lparr>msg_name = ''global'', signature = ''usu'', types = [0, 0, 0]\<rparr>,
               \<lparr>msg_name = ''global_remove'', signature = ''u'', types = [0]\<rparr>]\<rparr>"

definition sample_env :: env where
  "sample_env = \<lparr>e_ifaces = (\<lambda>i. if i = 1 then display_iface else if i = 3 then registry_iface else output_iface),
     e_hook = (\<lambda>u s. (0, s)), e_junk = (\<lambda>_. 0), e_grow = (\<lambda>_. True), e_impl = (\<lambda>_ _. 8), e_filter = (\<lambda>_ _ _ _. True),
     e_wl_display_interface = 1, e_wl_registry_interface = 3, e_wl_callback_interface = 4,
     e_display_interface = 512, e_registry_interface = 1024\<rparr>"

definition sample_client :: "u64 \<Rightarrow> u64 \<Rightarrow> wl_client" where
  "sample_client d r = \<lparr>c_connection = sample_conn, c_display_resource = d,
     c_objects = \<lparr>client_entries = [0, d, r], server_entries = [], side = 0, free_list = 0\<rparr>,
     c_error = False, c_source = 100, c_pid = 1, c_uid = 2, c_gid = 3, c_wire_message_cb = 0,
     c_wire_message_end_cb = 0, c_registry_created_cb = 0, c_sync_done_cb = 0\<rparr>"

definition sample_res :: "u64 \<Rightarrow> u32 \<Rightarrow> u64 \<Rightarrow> wl_resource" where
  "sample_res iface i c = \<lparr>r_object = \<lparr>interface = iface, implementation = 64, object_id = i\<rparr>, r_client = c,
     r_data = 0, r_version = 1, r_dispatcher = 0, r_destroy = 0\<rparr>"

definition sample_server :: server where
  "sample_server = \<lparr>s_res = [16 \<mapsto> sample_res 1 1 4096, 32 \<mapsto> sample_res 2 2 4096,
                             48 \<mapsto> sample_res 1 1 8192, 64 \<mapsto> sample_res 2 2 8192],
     s_client = [4096 \<mapsto> sample_client 16 32, 8192 \<mapsto> sample_client 48 64],
     s_global = (\<lambda>_. None), s_os = os_init, d_loop = sample_loop, d_id = 1, d_serial = 0, d_registries = [], d_globals = [],
     d_clients = [4096, 8192], d_tmp_clients = [], d_loggers = [], d_filter = 0, d_filter_data = 0,
     d_global_created_cb = 0, d_global_destroyed_cb = 0, d_shm_formats = []\<rparr>"

lemma sample_server_simps:
  "s_res sample_server 16 = Some (sample_res 1 1 4096)" "s_res sample_server 32 = Some (sample_res 2 2 4096)"
  "s_res sample_server 64 = Some (sample_res 2 2 8192)"
  "s_client sample_server 4096 = Some (sample_client 16 32)"
  "s_client sample_server 8192 = Some (sample_client 48 64)" "s_os sample_server = os_init"
  "d_loggers sample_server = []" "d_registries sample_server = []" "d_globals sample_server = []"
  "d_id sample_server = 1"
  by (simp_all add: sample_server_def)

lemma enter_args: "message_args \<lparr>msg_name = ''enter'', signature = ''o'', types = [0]\<rparr> = [\<lparr>arg_type = CHR ''o'', nullable = False\<rparr>]"
  by (simp add: message_args_def get_next_argument_def is_arg_type_def)

lemma event_isolation_witness:
  "\<exists>s'. wl_resource_post_event_array sample_env 32 0 [Obj 64] sample_server = Some s' \<and>
     s_os s' = os_init \<and> s_client s' 4096 = Some ((sample_client 16 32)\<lparr>c_error := True\<rparr>)"
proof -
  have ev: "events (e_ifaces sample_env (interface (r_object (sample_res 2 2 4096)))) =
      [\<lparr>msg_name = ''enter'', signature = ''o'', types = [0]\<rparr>]"
    by (simp add: sample_env_def sample_res_def output_iface_def)
  have cl: "r_client (sample_res 2 2 4096) = 4096" "r_client (sample_res 2 2 8192) = 8192"
    by (simp_all add: sample_res_def)
  have err: "\<not> c_error (sample_client 16 32)" by (simp add: sample_client_def)
  have run: "handle_array sample_env False 32 0 [Obj 64] sample_server = Some (set_error 4096 sample_server)"
    unfolding handle_array_def
    by (simp add: sample_server_simps ev cl err list_at_def verify_objects_def enter_args Let_def)
  have "\<exists>da \<in> set (zip (message_args (events (e_ifaces sample_env (interface (r_object (sample_res 2 2 4096)))) ! unat 0)) [Obj 64]).
      foreign_arg sample_server 4096 da"
    unfolding ev by (simp add: enter_args foreign_arg_def sample_server_simps cl)
  then show ?thesis
    using event_isolation [of sample_server 32 "sample_res 2 2 4096" "sample_client 16 32" 0 sample_env "[Obj 64]" False]
      run ev cl by (simp add: sample_server_simps wl_resource_post_event_array_def)
qed

section \<open>The life of a resource\<close>

text \<open>
  Listeners and destructors that leave resources, clients and the operating system alone.
\<close>

definition quiet_env :: "env \<Rightarrow> bool" where
  "quiet_env env \<longleftrightarrow> (\<forall>u s. s_res (notify env u s) = s_res s \<and> s_client (notify env u s) = s_client s \<and>
     s_os (notify env u s) = s_os s)"

lemma notify_quiet:
  assumes "quiet_env env"
  shows "s_res (notify env u s) = s_res s" "s_client (notify env u s) = s_client s" "s_os (notify env u s) = s_os s"
  using assms by (simp_all add: quiet_env_def)

text \<open>Posting an event changes no id map.\<close>

definition same_maps :: "server \<Rightarrow> server \<Rightarrow> bool" where
  "same_maps s s' \<longleftrightarrow> s_res s' = s_res s \<and>
     (\<forall>c. map_option c_objects (s_client s' c) = map_option c_objects (s_client s c)) \<and>
     (\<forall>c. map_option c_display_resource (s_client s' c) = map_option c_display_resource (s_client s c))"

lemma same_maps_refl [simp]: "same_maps s s"
  by (simp add: same_maps_def)

lemma same_maps_trans: "same_maps a b \<Longrightarrow> same_maps b c \<Longrightarrow> same_maps a c"
  by (simp add: same_maps_def)

lemma log_closure_quiet:
  assumes "quiet_env env"
  shows "s_res (log_closure env r c send s) = s_res s \<and> s_client (log_closure env r c send s) = s_client s"
proof -
  have "s_res (log_loop env ls send r c s) = s_res s \<and> s_client (log_loop env ls send r c s) = s_client s" for ls
    using assms by (induction ls arbitrary: s) (auto simp: notify_quiet)
  then show ?thesis by (simp add: log_closure_def)
qed

lemma handle_array_maps:
  assumes q: "quiet_env env" and run: "handle_array env queue r opcode args s = Some s'"
  shows "same_maps s s'"
  using run log_closure_quiet [OF q]
  by (auto simp: handle_array_def same_maps_def Let_def map_option_case
      split: bind_splits if_splits sum.splits prod.splits option.splits)

lemma queue_event_maps:
  "quiet_env env \<Longrightarrow> wl_resource_queue_event env r opcode ap s = Some s' \<Longrightarrow> same_maps s s'"
  by (auto simp: wl_resource_queue_event_def wl_resource_queue_event_array_def split: bind_splits
      dest: handle_array_maps)

text \<open>An event with one number: with room in the output, the message is appended to what the client
  is sent.\<close>

lemma one_word_args: "signature m = ''u'' \<Longrightarrow> message_args m = [\<lparr>arg_type = CHR ''u'', nullable = False\<rparr>]"
  by (simp add: message_args_def get_next_argument_def is_arg_type_def)

lemma one_word_count: "arg_count_for_signature ''u'' = 1"
  by (simp add: get_next_argument_def is_arg_type_def)

lemma log_closure_os: "quiet_env env \<Longrightarrow> s_os (log_closure env r c send s) = s_os s"
proof -
  assume q: "quiet_env env"
  have "s_os (log_loop env ls send r c s) = s_os s" for ls
    by (induction ls arbitrary: s) (auto simp: notify_quiet [OF q])
  then show ?thesis by (simp add: log_closure_def)
qed

definition word_closure :: "wl_message \<Rightarrow> u32 \<Rightarrow> u32 \<Rightarrow> u32 \<Rightarrow> wl_closure" where
  "word_closure m sender opcode v =
     \<lparr>cl_count = 1, cl_message = m, cl_opcode = opcode, cl_sender_id = sender, cl_args = [W v]\<rparr>"

lemma is_arg_type_u: "is_arg_type CHR ''u''"
  by (simp add: is_arg_type_def)

lemma marshal_word:
  assumes "signature m = ''u''" "alloc_script w = []"
  shows "wl_closure_marshal objs sender opcode [W v] m w = (Inr (word_closure m sender opcode v), w)"
proof -
  have sa: "sig_args 1 ''u'' = [\<lparr>arg_type = CHR ''u'', nullable = False\<rparr>]"
    by (simp add: get_next_argument_def is_arg_type_def)
  have "sys_malloc w = (True, w)" using assms(2) by (simp add: sys_malloc_def)
  with assms(1) sa is_arg_type_u show ?thesis
    by (simp add: wl_closure_marshal_def wl_closure_init_def one_word_count WL_CLOSURE_MAX_ARGS_def Let_def
        wl_closure_clear_fds_def closure_args_def is_fd_arg_def word_closure_def)
qed

lemma word_closure_facts:
  assumes "signature m = ''u''"
  shows "closure_wt (word_closure m sender opcode v)" "closure_words (word_closure m sender opcode v) = 3"
    "all_closure_args (word_closure m sender opcode v) = [(\<lparr>arg_type = CHR ''u'', nullable = False\<rparr>, W v)]"
    "length (cl_args (word_closure m sender opcode v)) = 1"
  using one_word_args [OF assms] assms one_word_count
  by (simp_all add: word_closure_def closure_wt_def closure_words_def all_closure_args_def arg_wt_def is_fd_arg_def)

lemma queue_word_closure:
  assumes m: "signature m = ''u''" and ok: "conn_ok conn" and room: "rb_count (out_buf conn) + 12 \<le> 4096"
    and mem: "alloc_script w = []"
  obtains b where "wl_closure_queue junk objs (word_closure m sender opcode v) conn w =
      (Inr (), word_closure m sender opcode v, conn\<lparr>out_buf := b\<rparr>, w)"
    "rb_content b = rb_content (out_buf conn) @ bytes_of [sender, header_word 12 opcode, v]"
proof -
  let ?c = "word_closure m sender opcode v"
  note wf = word_closure_facts [OF m, of sender opcode v]
  have cp: "copy_fds_to_connection ?c conn w = (Inr (), ?c, conn, w)"
    by (simp add: copy_fds_to_connection_def word_closure_def one_word_args [OF m] is_fd_arg_def)
  have bs: "buffer_size_for_closure ?c = Inr 3" using buffer_size_for_closure_spec [OF wf(1)] wf(2) by simp
  have mal: "sys_malloc w = (True, w)" using mem by (simp add: sys_malloc_def)
  let ?buf = "map junk [0..<12]"
  have lb: "closure_words ?c \<le> 3" "length ?buf = 4 * 3" using wf(2) by simp_all
  obtain buf ws where s0: "serialize_closure objs ?c ?buf 3 = Inr (sint (of_nat (4 * closure_words ?c) :: u32), buf)"
    "take (4 * closure_words ?c) buf = msg_bytes ?c ws"
    "args_encode objs (all_closure_args ?c) ws" "length buf = length ?buf"
    using serialize_closure_spec [OF wf(1) lb, of objs] by metis
  then have s: "serialize_closure objs ?c ?buf 3 = Inr (12, buf)" "take 12 buf = msg_bytes ?c ws"
    "args_encode objs (all_closure_args ?c) ws" "length buf = 12" unfolding wf(2) by simp_all
  have "ws = [v]" using s(3) unfolding wf(3) by (auto simp: is_fd_arg_def)
  then have bytes: "take 12 buf = bytes_of [sender, header_word 12 opcode, v]"
    using s(2) wf(2) by (simp add: msg_bytes_def) (simp add: word_closure_def)
  have "rb_ok (out_buf conn)" using ok by (simp add: conn_ok_def)
  then obtain b where b: "ring_buffer_put (out_buf conn) (take 12 buf) = Inr b"
    "rb_content b = rb_content (out_buf conn) @ take 12 buf"
    using ring_buffer_put_ok [of "out_buf conn" "take 12 buf"] room s(4) by auto
  have "flush_if_full conn (length (take 12 buf)) w = (Inr (), conn, w)"
    using room s(4) by (simp add: flush_if_full_def rb_capacity_def flip: rb_count_def)
  then have "wl_closure_queue junk objs ?c conn w = (Inr (), ?c, conn\<lparr>out_buf := b\<rparr>, w)"
    using cp bs mal s(1) b(1) by (simp add: wl_closure_queue_def send_with_def wl_connection_queue_def)
  from that [OF this] b(2) show thesis unfolding bytes by blast
qed

lemma handle_word_event:
  assumes q: "quiet_env env" and res: "s_res s r = Some res" and cl: "s_client s (r_client res) = Some cl"
    and good: "\<not> c_error cl" and ok: "conn_ok (c_connection cl)" and room: "rb_count (out_buf (c_connection cl)) + 12 \<le> 4096"
    and m: "list_at (events (e_ifaces env (interface (r_object res)))) (unat opcode) = Some m" "signature m = ''u''"
    and mem: "alloc_script (s_os s) = []"
  obtains s' conn where "handle_array env True r opcode [W v] s = Some s'" "s_res s' = s_res s" "alloc_script (s_os s') = []"
    "s_client s' (r_client res) = Some (cl\<lparr>c_connection := conn\<rparr>)"
    "out_stream conn (s_os s') = out_stream (c_connection cl) (s_os s) @ bytes_of [object_id (r_object res), header_word 12 opcode, v]"
proof -
  let ?c = "r_client res" and ?sender = "object_id (r_object res)"
  let ?closure = "word_closure m ?sender opcode v"
  let ?s1 = "log_closure env r ?closure True s"
  have ver: "verify_objects s ?c m [W v] = Some True" by (simp add: verify_objects_def one_word_args [OF m(2)])
  note mar = marshal_word [OF m(2) mem]
  have s1: "s_client ?s1 = s_client s" "s_res ?s1 = s_res s" "s_os ?s1 = s_os s"
    using log_closure_quiet [OF q] log_closure_os [OF q] by simp_all
  obtain b where b: "wl_closure_queue (e_junk env) (objs_of ?s1) ?closure (c_connection cl) (s_os s) =
      (Inr (), ?closure, (c_connection cl)\<lparr>out_buf := b\<rparr>, s_os s)"
    "rb_content b = rb_content (out_buf (c_connection cl)) @ bytes_of [?sender, header_word 12 opcode, v]"
    using queue_word_closure [OF m(2) ok room mem] .
  have ncl: "wl_closure_destroy (Some ?closure) w = w" for w
    using one_word_args [OF m(2)]
    by (simp add: wl_closure_destroy_def wl_closure_close_fds_def closure_args_def word_closure_def m(2)
        get_next_argument_def is_arg_type_def is_fd_arg_def)
  let ?s' = "(upd_client ?c (\<lambda>cl. cl\<lparr>c_connection := (c_connection cl)\<lparr>out_buf := b\<rparr>\<rparr>) ?s1)\<lparr>s_os := s_os s\<rparr>"
  have "handle_array env True r opcode [W v] s = Some ?s'"
    using res cl good m(1) ver mar s1 b(1) ncl
    by (simp add: handle_array_def send_func_def fatal_def upd_client_def Let_def)
  from that [OF this] show thesis
    using s1 cl mem b(2) by (simp add: out_stream_def)
qed

lemma va_one_word: "wl_argument_from_va_list ''u'' WL_CLOSURE_MAX_ARGS [W v] = Inr [W v]"
  by (simp add: wl_argument_from_va_list_def WL_CLOSURE_MAX_ARGS_def get_next_argument_def is_arg_type_def eval_nat_numeral)

lemma client_insert_at_spec:
  assumes cl: "s_client s c = Some cl" and ok: "map_ok (c_objects cl)" and d: "ptr_aligned d"
    and u: "id_usable (c_objects cl) i" and mem: "alloc_script (s_os s) = []"
  obtains m s' where "client_insert_at c f i d s = Some (0, s')" "sets_entry (c_objects cl) i d f m"
    "s_client s' = (s_client s)(c \<mapsto> cl\<lparr>c_objects := m\<rparr>)" "s_res s' = s_res s" "s_os s' = s_os s"
proof -
  obtain m where m: "wl_map_insert_at (c_objects cl) f i d True = (Inr 0, m)" "sets_entry (c_objects cl) i d f m"
    using insert_at_spec [OF ok d u] by metis
  have "sys_malloc (s_os s) = (True, s_os s)" using mem by (simp add: sys_malloc_def)
  with m that cl show thesis
    by (auto simp: client_insert_at_def)
qed

lemma create_spec:
  assumes q: "quiet_env env" and cl: "s_client s c = Some cl" and ok: "map_ok (c_objects cl)"
    and a: "a \<noteq> 0" "ptr_aligned a" and u: "id_usable (c_objects cl) i" and mem: "alloc_script (s_os s) = []"
  obtains m s1 where "wl_resource_create env a c iface v i s = Some (a, s1)" "sets_entry (c_objects cl) i a 0 m"
    "s_client s1 = (s_client s)(c \<mapsto> cl\<lparr>c_objects := m\<rparr>)" "s_os s1 = s_os s"
    "s_res s1 = (s_res s)(a \<mapsto> \<lparr>r_object = \<lparr>interface = iface, implementation = 0, object_id = i\<rparr>,
        r_client = c, r_data = 0, r_version = v, r_dispatcher = 0, r_destroy = 0\<rparr>)"
proof -
  let ?s1 = "s\<lparr>s_res := (s_res s)(a \<mapsto> \<lparr>r_object = \<lparr>interface = iface, implementation = 0, object_id = i\<rparr>,
        r_client = c, r_data = 0, r_version = v, r_dispatcher = 0, r_destroy = 0\<rparr>)\<rparr>"
  have c1: "s_client ?s1 c = Some cl" "alloc_script (s_os ?s1) = []" using cl mem by simp_all
  obtain m s2 where
    m: "client_insert_at c 0 i a ?s1 = Some (0, s2)" "sets_entry (c_objects cl) i a 0 m"
    "s_client s2 = (s_client ?s1)(c \<mapsto> cl\<lparr>c_objects := m\<rparr>)" "s_res s2 = s_res ?s1" "s_os s2 = s_os ?s1"
    using client_insert_at_spec [OF c1(1) ok a(2) u c1(2)] .
  have "wl_resource_create env a c iface v i s = Some (a, notify env (ResourceCreated c a) s2)"
    using a m(1) by (simp add: wl_resource_create_def Let_def)
  from that [OF this m(2)] m(3,4,5) show thesis by (simp add: notify_quiet [OF q])
qed

lemma destroy_resource_spec:
  assumes q: "quiet_env env" and r: "s_res s r = Some res" and cl: "s_client s (r_client res) = Some cl"
    and flags: "flags AND WL_MAP_ENTRY_LEGACY = 0" and f: "r_destroy res \<noteq> DESTROY_CLIENT_DISPLAY_RESOURCE"
  obtains s1 where "destroy_resource env r flags s = Some s1" "s_res s1 = (s_res s)(r := None)"
    "s_client s1 = s_client s" "s_os s1 = s_os s"
  using that r cl flags f
  by (simp add: destroy_resource_def resource_is_deprecated_def call_destroy_def unbind_resource_def
      notify_quiet [OF q] Let_def free_res_def)

lemma lookup_view: "wl_map_lookup m i = fst (id_view m i)"
  by (simp add: id_view_def)

lemma server_id_own: "side m = WL_MAP_SERVER_SIDE \<Longrightarrow> own_id m i \<longleftrightarrow> \<not> i < WL_SERVER_ID_START"
  by (auto simp: own_id_def WL_MAP_SERVER_SIDE_def WL_MAP_CLIENT_SIDE_def)

text \<open>\<open>s2\<close> is a state in which the id \<open>i\<close> of the client \<open>c\<close> has been given back.\<close>

definition id_returned :: "server \<Rightarrow> u64 \<Rightarrow> u32 \<Rightarrow> server \<Rightarrow> bool" where
  "id_returned s c i s2 \<longleftrightarrow> wl_client_get_object c i s2 = Some 0 \<and>
     (\<forall>j. j \<noteq> i \<longrightarrow> wl_client_get_object c j s2 = wl_client_get_object c j s) \<and>
     (\<exists>cl2. s_client s2 c = Some cl2 \<and> map_ok (c_objects cl2) \<and>
        (if i < WL_SERVER_ID_START then id_live (c_objects cl2) i
         else \<not> id_live (c_objects cl2) i \<and>
           (\<forall>d f mem. ptr_aligned d \<longrightarrow> fst (wl_map_insert_new (c_objects cl2) f d mem) = Inr i)))"

lemma id_returnedI:
  assumes "s_client s c = Some cl" "s_client s2 c = Some clx" "map_ok (c_objects clx)"
    "id_view (c_objects clx) = (id_view (c_objects cl))(i := (0, 0))"
    "id_live (c_objects clx) i = (i < WL_SERVER_ID_START)"
    "\<not> i < WL_SERVER_ID_START \<Longrightarrow> (\<forall>d f mem. ptr_aligned d \<longrightarrow> fst (wl_map_insert_new (c_objects clx) f d mem) = Inr i)"
  shows "id_returned s c i s2"
  using assms by (auto simp: id_returned_def wl_client_get_object_def lookup_view)

text \<open>The state right after a resource \<open>a\<close> was created with the id \<open>i\<close>.\<close>

definition names_resource :: "server \<Rightarrow> u64 \<Rightarrow> u32 \<Rightarrow> u64 \<Rightarrow> wl_client \<Rightarrow> bool" where
  "names_resource s c i a cl \<longleftrightarrow> s_client s c = Some cl \<and> map_ok (c_objects cl) \<and>
     side (c_objects cl) = WL_MAP_SERVER_SIDE \<and> id_view (c_objects cl) i = (a, 0) \<and> id_live (c_objects cl) i \<and>
     (\<exists>res. s_res s a = Some res \<and> r_client res = c \<and> object_id (r_object res) = i \<and>
        r_destroy res \<noteq> DESTROY_CLIENT_DISPLAY_RESOURCE)"

lemma names_destroy:
  assumes q: "quiet_env env" and n: "names_resource s c i a cl"
  obtains res s1 where "s_res s a = Some res" "r_client res = c" "object_id (r_object res) = i"
    "destroy_resource env a (wl_map_lookup_flags (c_objects cl) i) s = Some s1"
    "s_res s1 = (s_res s)(a := None)" "s_client s1 = s_client s" "s_os s1 = s_os s"
proof -
  obtain res where res: "s_res s a = Some res" "r_client res = c" "object_id (r_object res) = i"
    "r_destroy res \<noteq> DESTROY_CLIENT_DISPLAY_RESOURCE"
    using n by (auto simp: names_resource_def)
  have c: "s_client s (r_client res) = Some cl" using n res by (simp add: names_resource_def)
  have f: "wl_map_lookup_flags (c_objects cl) i AND WL_MAP_ENTRY_LEGACY = 0"
    using n by (simp add: names_resource_def id_view_def)
  obtain s1 where "destroy_resource env a (wl_map_lookup_flags (c_objects cl) i) s = Some s1"
    "s_res s1 = (s_res s)(a := None)" "s_client s1 = s_client s" "s_os s1 = s_os s"
    using destroy_resource_spec [OF q res(1) c f res(4)] .
  with res that show thesis by blast
qed

lemma destroy_server_id:
  assumes q: "quiet_env env" and n: "names_resource s c i a cl" and big: "\<not> i < WL_SERVER_ID_START"
  obtains s2 where "wl_resource_destroy env a s = Some s2" "s_res s2 a = None" "id_returned s c i s2"
proof -
  note nd = n [unfolded names_resource_def]
  obtain res s1 where d: "s_res s a = Some res" "r_client res = c" "object_id (r_object res) = i"
    "destroy_resource env a (wl_map_lookup_flags (c_objects cl) i) s = Some s1"
    "s_res s1 = (s_res s)(a := None)" "s_client s1 = s_client s" "s_os s1 = s_os s"
    using names_destroy [OF q n] .
  have own: "own_id (c_objects cl) i" using server_id_own nd big by blast
  obtain m2 where m2: "wl_map_remove (c_objects cl) i = (Inr (), m2)" "clears_entry (c_objects cl) i m2"
    using remove_spec [of "c_objects cl" i] nd own by metis
  have re: "fst (wl_map_insert_new m2 f d mem) = Inr i" if "ptr_aligned d" for d f mem
    using insert_new_after_remove [OF _ _ own that m2(1), of f mem] nd by auto
  let ?s2 = "upd_client c (\<lambda>cl. cl\<lparr>c_objects := m2\<rparr>) s1"
  have "wl_resource_destroy env a s = Some ?s2"
    using d nd big m2(1) by (simp add: wl_resource_destroy_def Let_def)
  moreover have "id_returned s c i ?s2"
    using m2(2) nd d big re by (intro id_returnedI [where cl = cl and clx = "cl\<lparr>c_objects := m2\<rparr>"])
      (auto simp: clears_entry_def)
  ultimately show thesis using that d(5) by simp
qed

lemma insert_null_returns:
  assumes n: "names_resource s c i a cl" and cl2: "s_client s2 c = Some cl2" "c_objects cl2 = c_objects cl"
    and small: "i < WL_SERVER_ID_START" and run: "client_insert_at c 0 i 0 s2 = Some (k, s3)"
  shows "id_returned s c i s3" "s_res s3 = s_res s2"
proof -
  note nd = n [unfolded names_resource_def]
  let ?m = "c_objects cl"
  have al: "ptr_aligned 0" by (simp add: ptr_aligned_def)
  obtain mem w where mw: "sys_malloc (s_os s2) = (mem, w)" by fastforce
  have "id_index i < length (id_entries ?m i)" using nd by (simp add: id_live_def)
  then have ins: "wl_map_insert_at ?m 0 i 0 mem = wl_map_insert_at ?m 0 i 0 True"
    by (simp add: wl_map_insert_at_def Let_def)
  have ok: "map_ok ?m" "id_live ?m i" using nd by auto
  obtain m4 where m4: "wl_map_insert_at ?m 0 i 0 True = (Inr 0, m4)" "sets_entry ?m i 0 0 m4"
    using insert_at_spec [OF ok(1) al id_live_usable [OF ok]] .
  have s3: "s3 = (upd_client c (\<lambda>cl. cl\<lparr>c_objects := m4\<rparr>) s2)\<lparr>s_os := w\<rparr>"
    using run cl2 mw ins m4(1) by (simp add: client_insert_at_def)
  show "s_res s3 = s_res s2" by (simp add: s3)
  show "id_returned s c i s3"
    using m4(2) small nd cl2
    by (intro id_returnedI [where cl = cl and clx = "cl2\<lparr>c_objects := m4\<rparr>"]) (simp_all add: s3 sets_entry_def)
qed

lemma destroy_client_id:
  assumes q: "quiet_env env" and n: "names_resource s c i a cl" and small: "i < WL_SERVER_ID_START"
    and run: "wl_resource_destroy env a s = Some s2"
  shows "s_res s2 a = None" "id_returned s c i s2"
proof -
  note nd = n [unfolded names_resource_def]
  obtain res s1 where d: "s_res s a = Some res" "r_client res = c" "object_id (r_object res) = i"
    "destroy_resource env a (wl_map_lookup_flags (c_objects cl) i) s = Some s1"
    "s_res s1 = (s_res s)(a := None)" "s_client s1 = s_client s" "s_os s1 = s_os s"
    using names_destroy [OF q n] .
  let ?ev = "if c_display_resource cl \<noteq> 0
    then wl_resource_queue_event env (c_display_resource cl) WL_DISPLAY_DELETE_ID [W i] s1 else Some s1"
  have run': "?ev \<bind> (\<lambda>s4. client_insert_at c 0 i 0 s4 \<bind> (\<lambda>(_, s5). Some s5)) = Some s2"
    using run d nd small by (cases "c_display_resource cl = 0") (simp_all add: wl_resource_destroy_def Let_def)
  then obtain s4 where ev: "?ev = Some s4" and "client_insert_at c 0 i 0 s4 \<bind> (\<lambda>(_, s5). Some s5) = Some s2"
    by (cases ?ev) simp_all
  then obtain k where ins: "client_insert_at c 0 i 0 s4 = Some (k, s2)"
    by (auto split: bind_splits)
  have "same_maps s1 s4" using ev queue_event_maps [OF q] by (auto split: if_splits)
  note s4 = this ins
  have "map_option c_objects (s_client s4 c) = Some (c_objects cl)"
    using s4(1) d nd by (simp add: same_maps_def)
  then obtain cl4 where cl4: "s_client s4 c = Some cl4" "c_objects cl4 = c_objects cl" by auto
  note r = insert_null_returns [OF n cl4 small s4(2)]
  show "id_returned s c i s2" by (rule r)
  show "s_res s2 a = None" using r(2) s4(1) d(5) by (simp add: same_maps_def)
qed

text \<open>The client can be told that an id is free: it has its display resource and is not marked as
  broken, and its output has room for the message.\<close>

definition can_tell :: "env \<Rightarrow> server \<Rightarrow> u64 \<Rightarrow> wl_client \<Rightarrow> bool" where
  "can_tell env s c cl \<longleftrightarrow> \<not> c_error cl \<and> conn_ok (c_connection cl) \<and> rb_count (out_buf (c_connection cl)) + 12 \<le> 4096 \<and>
     c_display_resource cl \<noteq> 0 \<and>
     (\<exists>res m. s_res s (c_display_resource cl) = Some res \<and> r_client res = c \<and>
        list_at (events (e_ifaces env (interface (r_object res)))) (unat WL_DISPLAY_DELETE_ID) = Some m \<and> signature m = ''u'')"

text \<open>What the client is sent has grown by the event \<open>delete_id\<close> of its display, for the id \<open>i\<close>.\<close>

definition told_deleted :: "server \<Rightarrow> u64 \<Rightarrow> wl_client \<Rightarrow> u32 \<Rightarrow> server \<Rightarrow> bool" where
  "told_deleted s c cl i s2 \<longleftrightarrow>
     (\<exists>cl2 res. s_client s2 c = Some cl2 \<and> s_res s (c_display_resource cl) = Some res \<and>
        out_stream (c_connection cl2) (s_os s2) = out_stream (c_connection cl) (s_os s) @
          bytes_of [object_id (r_object res), header_word 12 WL_DISPLAY_DELETE_ID, i])"

lemma insert_null_some:
  assumes n: "names_resource s c i a cl" and cl2: "s_client s2 c = Some cl2" "c_objects cl2 = c_objects cl"
    and mem: "alloc_script (s_os s2) = []"
  obtains m where "client_insert_at c 0 i 0 s2 = Some (0, upd_client c (\<lambda>cl. cl\<lparr>c_objects := m\<rparr>) s2)"
proof -
  note nd = n [unfolded names_resource_def]
  have al: "ptr_aligned 0" by (simp add: ptr_aligned_def)
  have ok: "map_ok (c_objects cl)" "id_live (c_objects cl) i" using nd by auto
  obtain m where "wl_map_insert_at (c_objects cl) 0 i 0 True = (Inr 0, m)"
    using insert_at_spec [OF ok(1) al id_live_usable [OF ok]] by metis
  moreover have "sys_malloc (s_os s2) = (True, s_os s2)" using mem by (simp add: sys_malloc_def)
  ultimately show thesis using cl2 by (intro that [of m]) (simp add: client_insert_at_def)
qed

lemma destroy_client_some:
  assumes q: "quiet_env env" and n: "names_resource s c i a cl" and small: "i < WL_SERVER_ID_START"
    and mem: "alloc_script (s_os s) = []" and a: "c_display_resource cl \<noteq> a"
    and t: "c_display_resource cl = 0 \<or> can_tell env s c cl"
  obtains s2 where "wl_resource_destroy env a s = Some s2" "can_tell env s c cl \<Longrightarrow> told_deleted s c cl i s2"
proof -
  note nd = n [unfolded names_resource_def]
  obtain res s1 where d: "s_res s a = Some res" "r_client res = c" "object_id (r_object res) = i"
    "destroy_resource env a (wl_map_lookup_flags (c_objects cl) i) s = Some s1"
    "s_res s1 = (s_res s)(a := None)" "s_client s1 = s_client s" "s_os s1 = s_os s"
    using names_destroy [OF q n] .
  show thesis
  proof (cases "c_display_resource cl = 0")
    case True
    obtain m where "client_insert_at c 0 i 0 s1 = Some (0, upd_client c (\<lambda>cl. cl\<lparr>c_objects := m\<rparr>) s1)"
      by (rule insert_null_some [OF n, of s1 cl]) (use nd d mem in simp_all)
    then have "wl_resource_destroy env a s = Some (upd_client c (\<lambda>cl. cl\<lparr>c_objects := m\<rparr>) s1)"
      using d nd small True by (simp add: wl_resource_destroy_def Let_def)
    from that [OF this] True show thesis by (simp add: can_tell_def)
  next
    case False
    with t have ct: "can_tell env s c cl" by simp
    then obtain dres m where dr: "s_res s (c_display_resource cl) = Some dres" "r_client dres = c"
      "list_at (events (e_ifaces env (interface (r_object dres)))) (unat WL_DISPLAY_DELETE_ID) = Some m" "signature m = ''u''"
      by (auto simp: can_tell_def)
    have dr1: "s_res s1 (c_display_resource cl) = Some dres" "s_client s1 (r_client dres) = Some cl"
      "alloc_script (s_os s1) = []"
      using dr a d nd mem by simp_all
    have ok: "\<not> c_error cl" "conn_ok (c_connection cl)" "rb_count (out_buf (c_connection cl)) + 12 \<le> 4096"
      using ct by (simp_all add: can_tell_def)
    obtain s4 conn where s4: "handle_array env True (c_display_resource cl) WL_DISPLAY_DELETE_ID [W i] s1 = Some s4"
      "s_res s4 = s_res s1" "alloc_script (s_os s4) = []" "s_client s4 (r_client dres) = Some (cl\<lparr>c_connection := conn\<rparr>)"
      "out_stream conn (s_os s4) = out_stream (c_connection cl) (s_os s1) @
         bytes_of [object_id (r_object dres), header_word 12 WL_DISPLAY_DELETE_ID, i]"
      using handle_word_event [OF q dr1(1,2) ok dr(3,4) dr1(3)] .
    have ev: "wl_resource_queue_event env (c_display_resource cl) WL_DISPLAY_DELETE_ID [W i] s1 = Some s4"
      using s4(1) dr1(1) dr(3,4) va_one_word
      by (simp add: wl_resource_queue_event_def wl_resource_queue_event_array_def event_args_def)
    obtain m4 where ins: "client_insert_at c 0 i 0 s4 = Some (0, upd_client c (\<lambda>cl. cl\<lparr>c_objects := m4\<rparr>) s4)"
      by (rule insert_null_some [OF n, of s4 "cl\<lparr>c_connection := conn\<rparr>"]) (use s4 dr(2) in simp_all)
    have "wl_resource_destroy env a s = Some (upd_client c (\<lambda>cl. cl\<lparr>c_objects := m4\<rparr>) s4)"
      using d nd small False ev ins by (simp add: wl_resource_destroy_def Let_def)
    then show thesis
      by (rule that) (use s4 dr d(7) in \<open>simp add: told_deleted_def\<close>)
  qed
qed

text \<open>C17: Creating a resource with a usable id, not 0, makes exactly that id name it.  Destroying it
  frees it and makes the id name nothing, leaving every other id as it was.  A server id becomes
  free and is the next one handed out.  A client id stays reserved; when the client has its display
  resource and room in its output, what it is sent grows by exactly the event delete_id for the id.\<close>

theorem resource_create_destroy:
  assumes q: "quiet_env env" and cl: "s_client s c = Some cl" and ok: "map_ok (c_objects cl)"
    and side: "side (c_objects cl) = WL_MAP_SERVER_SIDE"
    and a: "a \<noteq> 0" "ptr_aligned a" "s_res s a = None" and u: "i \<noteq> 0" "id_usable (c_objects cl) i"
    and mem: "alloc_script (s_os s) = []"
  shows "\<exists>s1. wl_resource_create env a c iface v i s = Some (a, s1) \<and>
    wl_client_get_object c i s1 = Some a \<and> wl_resource_get_id a s1 = Some i \<and>
    (\<forall>j. j \<noteq> i \<longrightarrow> wl_client_get_object c j s1 = wl_client_get_object c j s) \<and>
    (\<not> i < WL_SERVER_ID_START \<or> can_tell env s c cl \<longrightarrow> wl_resource_destroy env a s1 \<noteq> None) \<and>
    (\<forall>s2. wl_resource_destroy env a s1 = Some s2 \<longrightarrow> s_res s2 a = None \<and> id_returned s1 c i s2 \<and>
       (i < WL_SERVER_ID_START \<longrightarrow> can_tell env s c cl \<longrightarrow> told_deleted s c cl i s2))"
proof -
  obtain m s1 where s1: "wl_resource_create env a c iface v i s = Some (a, s1)" "sets_entry (c_objects cl) i a 0 m"
    "s_client s1 = (s_client s)(c \<mapsto> cl\<lparr>c_objects := m\<rparr>)" "s_os s1 = s_os s"
    "s_res s1 = (s_res s)(a \<mapsto> \<lparr>r_object = \<lparr>interface = iface, implementation = 0, object_id = i\<rparr>,
        r_client = c, r_data = 0, r_version = v, r_dispatcher = 0, r_destroy = 0\<rparr>)"
    using create_spec [OF q cl ok a(1,2) u(2) mem] .
  let ?cl1 = "cl\<lparr>c_objects := m\<rparr>"
  have view: "id_view m = (id_view (c_objects cl))(i := (a, 0))" using s1(2) by (simp add: sets_entry_def)
  have n: "names_resource s1 c i a ?cl1"
    using s1 side by (simp add: names_resource_def sets_entry_def DESTROY_CLIENT_DISPLAY_RESOURCE_def)
  have "wl_map_lookup m j = (if j = i then a else wl_map_lookup (c_objects cl) j)" for j
    using view by (simp add: lookup_view)
  then have "wl_client_get_object c i s1 = Some a" "wl_resource_get_id a s1 = Some i"
    "\<forall>j. j \<noteq> i \<longrightarrow> wl_client_get_object c j s1 = wl_client_get_object c j s"
    using s1(3,5) cl by (simp_all add: wl_client_get_object_def wl_resource_get_id_def)
  moreover have big: "wl_resource_destroy env a s1 \<noteq> None" if "\<not> i < WL_SERVER_ID_START"
    using destroy_server_id [OF q n that] by (metis option.distinct(1))
  moreover have tell: "\<exists>s2. wl_resource_destroy env a s1 = Some s2 \<and> told_deleted s c cl i s2"
    if ct: "can_tell env s c cl" and small: "i < WL_SERVER_ID_START"
  proof -
    have da: "c_display_resource ?cl1 \<noteq> a" using ct a(3) by (auto simp: can_tell_def)
    have ct1: "can_tell env s1 c ?cl1" using ct da by (auto simp: can_tell_def s1(5))
    have mem1: "alloc_script (s_os s1) = []" using mem s1(4) by simp
    obtain s2 where s2: "wl_resource_destroy env a s1 = Some s2" "told_deleted s1 c ?cl1 i s2"
      using destroy_client_some [OF q n small mem1 da disjI2 [OF ct1]] ct1 by metis
    have "told_deleted s c cl i s2" using s2(2) da by (simp add: told_deleted_def s1(4,5))
    with s2(1) show ?thesis by blast
  qed
  moreover have "s_res s2 a = None \<and> id_returned s1 c i s2" if "wl_resource_destroy env a s1 = Some s2" for s2
    using destroy_server_id [OF q n] destroy_client_id [OF q n] that by (metis option.inject)
  ultimately show ?thesis using s1(1) by fastforce
qed

text \<open>The id 3 of a client, which is told of its deletion by the display, the object 1.\<close>

lemma resource_create_destroy_witness:
  "\<exists>s1 s2 cl2. wl_resource_create sample_env 128 4096 2 3 3 sample_server = Some (128, s1) \<and>
     wl_client_get_object 4096 3 s1 = Some 128 \<and> wl_resource_destroy sample_env 128 s1 = Some s2 \<and>
     s_client s2 4096 = Some cl2 \<and> out_stream (c_connection cl2) (s_os s2) = bytes_of [1, 0xc0001, 3]"
proof -
  have q: "quiet_env sample_env" by (simp add: quiet_env_def notify_def sample_env_def)
  have ok: "map_ok (c_objects (sample_client 16 32))"
    by (simp add: sample_client_def map_ok_def own_entries_def other_entries_def free_ids_def
        WL_MAP_SERVER_SIDE_def WL_MAP_CLIENT_SIDE_def max_entries_def map_entry_is_free_def less_Suc_eq numeral_3_eq_3)
  have side: "side (c_objects (sample_client 16 32)) = WL_MAP_SERVER_SIDE"
    by (simp add: sample_client_def WL_MAP_SERVER_SIDE_def)
  have u: "id_usable (c_objects (sample_client 16 32)) 3"
    by (simp add: sample_client_def id_usable_def id_index_def id_entries_def WL_SERVER_ID_START_def
        max_entries_def free_ids_def own_entries_def WL_MAP_CLIENT_SIDE_def)
  have al: "(128 :: u64) \<noteq> 0" "ptr_aligned 128" "s_res sample_server 128 = None"
    by (simp_all add: ptr_aligned_def sample_server_def)
  have mem: "alloc_script (s_os sample_server) = []" by (simp add: sample_server_simps os_init_def)
  have three: "(3 :: u32) \<noteq> 0" by simp
  have disp: "c_display_resource (sample_client 16 32) = 16" "c_connection (sample_client 16 32) = sample_conn"
    "\<not> c_error (sample_client 16 32)" by (simp_all add: sample_client_def)
  have ev: "list_at (events (e_ifaces sample_env (interface (r_object (sample_res 1 1 4096))))) (unat WL_DISPLAY_DELETE_ID) =
      Some \<lparr>msg_name = ''delete_id'', signature = ''u'', types = [0]\<rparr>"
    by (simp add: sample_env_def sample_res_def display_iface_def WL_DISPLAY_DELETE_ID_def list_at_def)
  have rm: "rb_count (out_buf sample_conn) + 12 \<le> 4096" by (simp add: sample_conn_def rb_count_def rb_init_def)
  have ct: "can_tell sample_env sample_server 4096 (sample_client 16 32)"
    unfolding can_tell_def disp using sample_conn_ok rm ev disp
    by (auto simp: sample_server_simps) (simp_all add: sample_res_def)
  have small: "(3 :: u32) < WL_SERVER_ID_START" by (simp add: WL_SERVER_ID_START_def)
  obtain s1 where s1: "wl_resource_create sample_env 128 4096 2 3 3 sample_server = Some (128, s1)"
    "wl_client_get_object 4096 3 s1 = Some 128" "wl_resource_destroy sample_env 128 s1 \<noteq> None"
    "\<And>s2. wl_resource_destroy sample_env 128 s1 = Some s2 \<Longrightarrow> told_deleted sample_server 4096 (sample_client 16 32) 3 s2"
    using resource_create_destroy [OF q sample_server_simps(4) ok side al three u mem, of 2 3] ct small by metis
  then obtain s2 where s2: "wl_resource_destroy sample_env 128 s1 = Some s2" by auto
  have e: "out_stream sample_conn (s_os sample_server) = []"
    by (simp add: out_stream_def sample_server_simps os_init_def sample_conn_def)
  have "object_id (r_object (sample_res 1 1 4096)) = 1" "header_word 12 WL_DISPLAY_DELETE_ID = 0xc0001"
    by (simp_all add: sample_res_def header_word_def WL_DISPLAY_DELETE_ID_def)
  with s1(4) [OF s2] e obtain cl2 where "s_client s2 4096 = Some cl2"
    "out_stream (c_connection cl2) (s_os s2) = bytes_of [1, 0xc0001, 3]"
    by (auto simp: told_deleted_def disp sample_server_simps)
  with s1 s2 show ?thesis by blast
qed

end
