(* ===== verification/Globals.thy ===== *)
theory Globals
  imports Server
begin

text \<open>
  The display's globals and registries in wayland-server/wayland-server.c, and the small
  operations on the display.  A global is announced to every bound registry and bound by the
  requests of the clients.
\<close>

section \<open>Announcing globals\<close>

definition str_arg :: "string \<Rightarrow> wl_argument" where
  "str_arg t = Str (Some (map of_char t))"

text \<open>A loop over the registries that posts the same event to each.\<close>

fun post_all :: "env \<Rightarrow> u64 list \<Rightarrow> u32 \<Rightarrow> wl_argument list \<Rightarrow> server \<Rightarrow> server option" where
  "post_all env [] opcode ap s = Some s"
| "post_all env (r # rs) opcode ap s = do {
     s1 \<leftarrow> wl_resource_post_event env r opcode ap s;
     post_all env rs opcode ap s1 }"

text \<open>\<open>a\<close> is the address \<open>malloc\<close> returns, 0 when it fails.\<close>

definition wl_global_create ::
  "env \<Rightarrow> u64 \<Rightarrow> u64 \<Rightarrow> int \<Rightarrow> u64 \<Rightarrow> u64 \<Rightarrow> server \<Rightarrow> (u64 \<times> server) option" where
  "wl_global_create env a iface version data bindf s =
     (if version < 1 then Some (0, s)
      else if version > iface_version (e_ifaces env iface) then Some (0, s)
      else if a = 0 then Some (0, s)
      else do {
        let name = d_id s;
        let s1 = s\<lparr>d_id := d_id s + 1,
          s_global := (s_global s)(a := Some \<lparr>g_interface = iface, g_name = name, g_version = of_int version,
                                              g_data = data, g_bind = bindf, g_removed = False\<rparr>),
          d_globals := d_globals s @ [a]\<rparr>;
        let s2 = (if d_global_created_cb s1 \<noteq> 0 then notify env (GlobalCreated (d_global_created_cb s1) name) s1 else s1);
        s3 \<leftarrow> post_all env (d_registries s2) WL_REGISTRY_GLOBAL
               [W name, str_arg (iface_name (e_ifaces env iface)), W (of_int version)] s2;
        Some (a, s3) })"

definition wl_global_remove :: "env \<Rightarrow> u64 \<Rightarrow> server \<Rightarrow> server option" where
  "wl_global_remove env a s = do {
     g \<leftarrow> s_global s a;
     if g_removed g then None
     else do {
       let s1 = (if d_global_destroyed_cb s \<noteq> 0 then notify env (GlobalDestroyed (d_global_destroyed_cb s) (g_name g)) s else s);
       s2 \<leftarrow> post_all env (d_registries s1) WL_REGISTRY_GLOBAL_REMOVE [W (g_name g)] s1;
       Some (s2\<lparr>s_global := (s_global s2)(a := map_option (\<lambda>g. g\<lparr>g_removed := True\<rparr>) (s_global s2 a))\<rparr>) } }"

definition wl_global_destroy :: "env \<Rightarrow> u64 \<Rightarrow> server \<Rightarrow> server option" where
  "wl_global_destroy env a s = do {
     g \<leftarrow> s_global s a;
     s1 \<leftarrow> (if \<not> g_removed g then wl_global_remove env a s else Some s);
     Some (s1\<lparr>d_globals := removeAll a (d_globals s1), s_global := (s_global s1)(a := None)\<rparr>) }"

definition wl_display_add_global :: "env \<Rightarrow> u64 \<Rightarrow> u64 \<Rightarrow> u64 \<Rightarrow> u64 \<Rightarrow> server \<Rightarrow> (u64 \<times> server) option" where
  "wl_display_add_global env a iface data bindf s =
     wl_global_create env a iface (iface_version (e_ifaces env iface)) data bindf s"

definition wl_display_remove_global :: "env \<Rightarrow> u64 \<Rightarrow> server \<Rightarrow> server option" where
  "wl_display_remove_global env a s = wl_global_destroy env a s"

definition wl_global_get_interface :: "u64 \<Rightarrow> server \<Rightarrow> u64 option" where
  "wl_global_get_interface a s = map_option g_interface (s_global s a)"

definition wl_global_get_user_data :: "u64 \<Rightarrow> server \<Rightarrow> u64 option" where
  "wl_global_get_user_data a s = map_option g_data (s_global s a)"

definition wl_global_set_user_data :: "u64 \<Rightarrow> u64 \<Rightarrow> server \<Rightarrow> server" where
  "wl_global_set_user_data a data s =
     s\<lparr>s_global := (s_global s)(a := map_option (\<lambda>g. g\<lparr>g_data := data\<rparr>) (s_global s a))\<rparr>"

definition wl_display_set_global_filter :: "u64 \<Rightarrow> u64 \<Rightarrow> server \<Rightarrow> server" where
  "wl_display_set_global_filter f data s = s\<lparr>d_filter := f, d_filter_data := data\<rparr>"

definition wl_global_is_visible :: "env \<Rightarrow> server \<Rightarrow> u64 \<Rightarrow> u64 \<Rightarrow> bool" where
  "wl_global_is_visible env s client a \<longleftrightarrow>
     d_filter s = 0 \<or> e_filter env (d_filter s) client a (d_filter_data s)"

section \<open>The registry\<close>

text \<open>The search loop of \<open>registry_bind\<close>; 0 when it reaches the end of the list.\<close>

fun find_global :: "server \<Rightarrow> u32 \<Rightarrow> u64 list \<Rightarrow> u64 option" where
  "find_global s name [] = Some 0"
| "find_global s name (a # as) =
     s_global s a \<bind> (\<lambda>g. if g_name g = name then Some a else find_global s name as)"

text \<open>\<open>r\<close> is the registry the request came on.\<close>

definition registry_bind ::
  "env \<Rightarrow> u64 \<Rightarrow> u64 \<Rightarrow> u32 \<Rightarrow> string \<Rightarrow> u32 \<Rightarrow> u32 \<Rightarrow> server \<Rightarrow> server option" where
  "registry_bind env client r name iface version i s =
     find_global s name (d_globals s) \<bind> (\<lambda>a.
       if a = 0 then
         wl_resource_post_error env r WL_DISPLAY_ERROR_INVALID_OBJECT
           (''invalid global '' @ iface @ '' ('' @ fmt_d name @ '')'') s
       else do {
         g \<leftarrow> s_global s a;
         let have_name = iface_name (e_ifaces env (g_interface g));
         if have_name \<noteq> iface then
           wl_resource_post_error env r WL_DISPLAY_ERROR_INVALID_OBJECT
             (''invalid interface for global '' @ fmt_u name @ '': have '' @ iface @ '', wanted '' @ have_name) s
         else if version = 0 then
           wl_resource_post_error env r WL_DISPLAY_ERROR_INVALID_OBJECT
             (''invalid version for global '' @ iface @ '' ('' @ fmt_d name @ ''): 0 is not a valid version'') s
         else if g_version g < version then
           wl_resource_post_error env r WL_DISPLAY_ERROR_INVALID_OBJECT
             (''invalid version for global '' @ iface @ '' ('' @ fmt_d name @ ''): have '' @
              fmt_d (g_version g) @ '', wanted '' @ fmt_d version) s
         else if \<not> wl_global_is_visible env s client a then
           wl_resource_post_error env r WL_DISPLAY_ERROR_INVALID_OBJECT
             (''invalid global '' @ iface @ '' ('' @ fmt_d name @ '')'') s
         else Some (notify env (GlobalBind (g_bind g) client (g_data g) version i) s) })"

fun emit_globals_loop :: "env \<Rightarrow> u64 \<Rightarrow> u64 \<Rightarrow> u64 list \<Rightarrow> server \<Rightarrow> server option" where
  "emit_globals_loop env client r [] s = Some s"
| "emit_globals_loop env client r (a # as) s =
     (if wl_global_is_visible env s client a then do {
        g \<leftarrow> s_global s a;
        s1 \<leftarrow> wl_resource_post_event env r WL_REGISTRY_GLOBAL
               [W (g_name g), str_arg (iface_name (e_ifaces env (g_interface g))), W (g_version g)] s;
        emit_globals_loop env client r as s1 }
      else emit_globals_loop env client r as s)"

definition wl_registry_emit_globals :: "env \<Rightarrow> u64 \<Rightarrow> server \<Rightarrow> server option" where
  "wl_registry_emit_globals env r s = do {
     res \<leftarrow> s_res s r;
     emit_globals_loop env (r_client res) r (d_globals s) s }"

definition display_get_registry :: "env \<Rightarrow> u64 \<Rightarrow> u64 \<Rightarrow> u64 \<Rightarrow> u32 \<Rightarrow> server \<Rightarrow> server option" where
  "display_get_registry env a client display i s = do {
     (r, s1) \<leftarrow> wl_resource_create env a client (e_wl_registry_interface env) 1 i s;
     if r = 0 then wl_client_post_no_memory env client s1
     else do {
       let s2 = wl_resource_set_implementation r (e_registry_interface env) display UNBIND_RESOURCE s1;
       let s3 = s2\<lparr>d_registries := r # d_registries s2\<rparr>;
       cl \<leftarrow> s_client s3 client;
       Some (if c_registry_created_cb cl \<noteq> 0
             then notify env (RegistryCreated (c_registry_created_cb cl) client r i) s3 else s3) } }"

text \<open>
  \<open>wl_display.sync\<close>: the answer is left to an idle source whose function is
  \<open>on_callback_done\<close>; the result lists the data it will be called with.
\<close>

definition display_sync :: "env \<Rightarrow> u64 \<Rightarrow> u64 \<Rightarrow> u32 \<Rightarrow> server \<Rightarrow> ((u64 \<times> u32) list \<times> server) option" where
  "display_sync env a client i s = do {
     (r, s1) \<leftarrow> wl_resource_create env a client (e_wl_callback_interface env) 1 i s;
     if r = 0 then do { s2 \<leftarrow> wl_client_post_no_memory env client s1; Some ([], s2) }
     else Some ([(client, i)], s1) }"

definition on_callback_done :: "env \<Rightarrow> u64 \<times> u32 \<Rightarrow> server \<Rightarrow> server option" where
  "on_callback_done env args s = do {
     cl \<leftarrow> s_client s (fst args);
     Some (if c_sync_done_cb cl \<noteq> 0 then notify env (SyncDone (c_sync_done_cb cl) (fst args) (snd args)) s else s) }"

definition bind_display :: "env \<Rightarrow> u64 \<Rightarrow> u64 \<Rightarrow> u64 \<Rightarrow> server \<Rightarrow> (int \<times> server) option" where
  "bind_display env a client display s = do {
     (r, s1) \<leftarrow> wl_resource_create env a client (e_wl_display_interface env) 1 1 s;
     let s2 = upd_client client (\<lambda>cl. cl\<lparr>c_display_resource := r\<rparr>) s1;
     if r = 0 then Some (- 1, s2)
     else Some (0, wl_resource_set_implementation r (e_display_interface env) display
                     DESTROY_CLIENT_DISPLAY_RESOURCE s2) }"

section \<open>Other display operations\<close>

definition wl_display_get_serial :: "server \<Rightarrow> u32" where
  "wl_display_get_serial s = d_serial s"

definition wl_display_next_serial :: "server \<Rightarrow> u32 \<times> server" where
  "wl_display_next_serial s = (let s1 = s\<lparr>d_serial := d_serial s + 1\<rparr> in (d_serial s1, s1))"

definition wl_display_set_global_created_cb :: "u64 \<Rightarrow> server \<Rightarrow> server" where
  "wl_display_set_global_created_cb f s = s\<lparr>d_global_created_cb := f\<rparr>"

definition wl_display_set_global_destroyed_cb :: "u64 \<Rightarrow> server \<Rightarrow> server" where
  "wl_display_set_global_destroyed_cb f s = s\<lparr>d_global_destroyed_cb := f\<rparr>"

definition wl_display_add_protocol_logger :: "u64 \<Rightarrow> u64 \<Rightarrow> server \<Rightarrow> server" where
  "wl_display_add_protocol_logger func user_data s = s\<lparr>d_loggers := (func, user_data) # d_loggers s\<rparr>"

definition wl_protocol_logger_destroy :: "u64 \<Rightarrow> u64 \<Rightarrow> server \<Rightarrow> server" where
  "wl_protocol_logger_destroy func user_data s = s\<lparr>d_loggers := remove1 (func, user_data) (d_loggers s)\<rparr>"

text \<open>The formats are the words of a \<open>wl_array\<close>; \<open>mem\<close> is the outcome of \<open>wl_array_add\<close>.\<close>

definition wl_display_add_shm_format :: "bool \<Rightarrow> u32 \<Rightarrow> server \<Rightarrow> bool \<times> server" where
  "wl_display_add_shm_format mem fmt s =
     (if mem then (True, s\<lparr>d_shm_formats := d_shm_formats s @ [fmt]\<rparr>) else (False, s))"

definition wl_client_set_wire_message_cb :: "u64 \<Rightarrow> u64 \<Rightarrow> server \<Rightarrow> server" where
  "wl_client_set_wire_message_cb c f s = upd_client c (\<lambda>cl. cl\<lparr>c_wire_message_cb := f\<rparr>) s"

definition wl_client_set_wire_message_end_cb :: "u64 \<Rightarrow> u64 \<Rightarrow> server \<Rightarrow> server" where
  "wl_client_set_wire_message_end_cb c f s = upd_client c (\<lambda>cl. cl\<lparr>c_wire_message_end_cb := f\<rparr>) s"

definition wl_client_set_sync_done_cb :: "u64 \<Rightarrow> u64 \<Rightarrow> server \<Rightarrow> server" where
  "wl_client_set_sync_done_cb c f s = upd_client c (\<lambda>cl. cl\<lparr>c_sync_done_cb := f\<rparr>) s"

definition wl_client_set_registry_created_cb :: "u64 \<Rightarrow> u64 \<Rightarrow> server \<Rightarrow> server" where
  "wl_client_set_registry_created_cb c f s = upd_client c (\<lambda>cl. cl\<lparr>c_registry_created_cb := f\<rparr>) s"

section \<open>The names of globals\<close>

text \<open>Compositor functions that leave the display's globals alone.\<close>

definition quiet_display :: "env \<Rightarrow> bool" where
  "quiet_display env \<longleftrightarrow> (\<forall>u s. s_global (notify env u s) = s_global s \<and> d_globals (notify env u s) = d_globals s \<and>
     d_id (notify env u s) = d_id s)"

definition same_globals :: "server \<Rightarrow> server \<Rightarrow> bool" where
  "same_globals s s' \<longleftrightarrow> s_global s' = s_global s \<and> d_globals s' = d_globals s \<and> d_id s' = d_id s"

lemma same_globals_trans: "same_globals a b \<Longrightarrow> same_globals b c \<Longrightarrow> same_globals a c"
  by (simp add: same_globals_def)

lemma notify_globals: "quiet_display env \<Longrightarrow> same_globals s (notify env u s)"
  by (simp add: quiet_display_def same_globals_def)

lemma log_closure_globals: "quiet_display env \<Longrightarrow> same_globals s (log_closure env r c send s)"
proof -
  assume q: "quiet_display env"
  have "same_globals s (log_loop env ls send r c s)" for ls
  proof (induction ls arbitrary: s)
    case (Cons l ls)
    obtain f d where l: "l = (f, d)" by fastforce
    show ?case using same_globals_trans [OF notify_globals [OF q] Cons] by (simp add: l)
  qed (simp add: same_globals_def)
  then show ?thesis by (simp add: log_closure_def)
qed

lemma handle_array_globals:
  assumes q: "quiet_display env" and run: "handle_array env queue r opcode args s = Some s'"
  shows "same_globals s s'"
  using run log_closure_globals [OF q]
  by (auto simp: handle_array_def same_globals_def Let_def upd_client_def set_error_def
      split: bind_splits if_splits sum.splits prod.splits)

lemma post_event_globals:
  "quiet_display env \<Longrightarrow> wl_resource_post_event env r opcode ap s = Some s' \<Longrightarrow> same_globals s s'"
  by (auto simp: wl_resource_post_event_def wl_resource_post_event_array_def split: bind_splits
      dest: handle_array_globals)

lemma post_all_globals:
  "quiet_display env \<Longrightarrow> post_all env rs opcode ap s = Some s' \<Longrightarrow> same_globals s s'"
proof (induction rs arbitrary: s)
  case (Cons r rs)
  then obtain s1 where "wl_resource_post_event env r opcode ap s = Some s1" "post_all env rs opcode ap s1 = Some s'"
    by (auto split: bind_splits)
  then show ?case using Cons post_event_globals same_globals_trans by metis
qed (simp add: same_globals_def)

text \<open>Every listed global is allocated, its name is below the next name, and names are unique.\<close>

definition name_of :: "server \<Rightarrow> u64 \<Rightarrow> u32" where
  "name_of s a = (case s_global s a of Some g \<Rightarrow> g_name g | None \<Rightarrow> 0)"

definition globals_ok :: "server \<Rightarrow> bool" where
  "globals_ok s \<longleftrightarrow> distinct (map (name_of s) (d_globals s)) \<and>
     (\<forall>a \<in> set (d_globals s). a \<noteq> 0 \<and> (\<exists>g. s_global s a = Some g \<and> 0 < g_name g \<and> g_name g < d_id s))"

lemma globals_ok_cong: "same_globals s s' \<Longrightarrow> globals_ok s' = globals_ok s"
  by (simp add: same_globals_def globals_ok_def name_of_def cong: map_cong)

lemma globals_ok_distinct: "globals_ok s \<Longrightarrow> distinct (d_globals s)"
  by (auto simp: globals_ok_def distinct_map)

lemma u32_less_Suc: "x \<noteq> - 1 \<Longrightarrow> x < x + 1" for x :: u32
proof -
  assume x: "x \<noteq> - 1"
  have "unat x \<noteq> 2 ^ 32 - 1"
  proof
    assume "unat x = 2 ^ 32 - 1"
    moreover have "unat (- 1 :: u32) = 2 ^ 32 - 1" by (simp add: unsigned_minus_1_eq_mask mask_eq_exp_minus_1)
    ultimately have "unat x = unat (- 1 :: u32)" by simp
    then show False using x by (metis word_unat_eq_iff)
  qed
  then have "unat x + 1 < 2 ^ 32" using unat_u32_bound [of x] by simp
  then have "unat (x + 1) = unat x + 1" by (simp add: unat_word_ariths)
  then show "x < x + 1" by (simp add: word_less_nat_alt)
qed

lemma globals_ok_add:
  assumes ok: "globals_ok s" and a: "a \<noteq> 0" "a \<notin> set (d_globals s)" and i: "d_id s \<noteq> - 1" "0 < d_id s"
    and s': "d_globals s' = d_globals s @ [a]" "s_global s' = (s_global s)(a \<mapsto> g)" "g_name g = d_id s" "d_id s' = d_id s + 1"
  shows "globals_ok s'"
proof -
  have lt: "d_id s < d_id s + 1"
    by (rule u32_less_Suc [OF i(1)])
  have names: "name_of s' b = name_of s b" if "b \<in> set (d_globals s)" for b
    using that a(2) s'(2) by (auto simp: name_of_def)
  then have m: "map (name_of s') (d_globals s) = map (name_of s) (d_globals s)" by simp
  have na: "name_of s' a = d_id s" using s' by (simp add: name_of_def)
  have fresh: "d_id s \<notin> name_of s ` set (d_globals s)"
    using ok by (auto simp: globals_ok_def name_of_def)
  have live: "\<exists>g'. s_global s' b = Some g' \<and> 0 < g_name g' \<and> g_name g' < d_id s'" if "b \<in> set (d_globals s')" for b
  proof (cases "b = a")
    case True
    then show ?thesis using s' i(2) lt by simp
  next
    case False
    then have b: "b \<in> set (d_globals s)" using that s'(1) by simp
    obtain g' where g': "s_global s b = Some g'" "0 < g_name g'" "g_name g' < d_id s"
      using ok b unfolding globals_ok_def by blast
    have "g_name g' < d_id s'" using g'(3) lt unfolding s'(4) by (rule less_trans)
    then show ?thesis using False s'(2) g'(1,2) by simp
  qed
  note na fresh
  moreover have "distinct (map (name_of s') (d_globals s))"
    unfolding m using ok unfolding globals_ok_def by blast
  moreover have "name_of s' ` set (d_globals s) = name_of s ` set (d_globals s)"
    using names by (rule image_cong [OF refl])
  ultimately have "distinct (map (name_of s') (d_globals s'))"
    unfolding s'(1) by (simp del: map_eq_conv)
  moreover have "b \<noteq> 0" if "b \<in> set (d_globals s')" for b
    using that ok a(1) s'(1) by (auto simp: globals_ok_def)
  ultimately show ?thesis
    using live unfolding globals_ok_def by blast
qed

lemma globals_ok_removed:
  assumes "globals_ok s"
  shows "globals_ok (s\<lparr>s_global := (s_global s)(a := map_option (\<lambda>g. g\<lparr>g_removed := b\<rparr>) (s_global s a))\<rparr>)"
proof -
  let ?s' = "s\<lparr>s_global := (s_global s)(a := map_option (\<lambda>g. g\<lparr>g_removed := b\<rparr>) (s_global s a))\<rparr>"
  have "name_of ?s' = name_of s" by (auto simp: name_of_def split: option.split)
  with assms show ?thesis by (auto simp: globals_ok_def)
qed

lemma globals_ok_freed:
  assumes "globals_ok s"
  shows "globals_ok (s\<lparr>d_globals := removeAll a (d_globals s), s_global := (s_global s)(a := None)\<rparr>)"
proof -
  let ?s' = "s\<lparr>d_globals := removeAll a (d_globals s), s_global := (s_global s)(a := None)\<rparr>"
  have "map (name_of ?s') (removeAll a (d_globals s)) = map (name_of s) (removeAll a (d_globals s))"
    by (rule map_cong) (auto simp: name_of_def)
  moreover have "distinct (map (name_of s) (removeAll a (d_globals s)))"
    using assms by (simp add: globals_ok_def removeAll_filter_not_eq distinct_map_filter)
  moreover have "d_globals ?s' = removeAll a (d_globals s)" by simp
  ultimately have "distinct (map (name_of ?s') (d_globals ?s'))" by (simp only:)
  moreover have "\<forall>b \<in> set (d_globals ?s'). b \<noteq> 0 \<and> (\<exists>g. s_global ?s' b = Some g \<and> 0 < g_name g \<and> g_name g < d_id ?s')"
    using assms by (simp add: globals_ok_def)
  ultimately show ?thesis unfolding globals_ok_def by blast
qed

text \<open>The states reached by creating, removing and destroying globals, before the names run out.\<close>

inductive globals_reach :: "env \<Rightarrow> server \<Rightarrow> bool" for env where
  init: "d_globals s = [] \<Longrightarrow> d_id s = 1 \<Longrightarrow> globals_reach env s"
| create: "globals_reach env s \<Longrightarrow> a \<notin> set (d_globals s) \<Longrightarrow> d_id s \<noteq> - 1 \<Longrightarrow>
    wl_global_create env a iface version data f s = Some (r, s') \<Longrightarrow> globals_reach env s'"
| remove: "globals_reach env s \<Longrightarrow> wl_global_remove env a s = Some s' \<Longrightarrow> globals_reach env s'"
| destroy: "globals_reach env s \<Longrightarrow> wl_global_destroy env a s = Some s' \<Longrightarrow> globals_reach env s'"
| post: "globals_reach env s \<Longrightarrow> handle_array env queue r opcode args s = Some s' \<Longrightarrow> globals_reach env s'"

lemma global_create_ok:
  assumes q: "quiet_display env" and ok: "globals_ok s" "0 < d_id s" and a: "a \<notin> set (d_globals s)" "d_id s \<noteq> - 1"
    and run: "wl_global_create env a iface version data f s = Some (r, s')"
  shows "globals_ok s' \<and> 0 < d_id s' \<and> (r \<noteq> 0 \<longrightarrow> r = a \<and> d_globals s' = d_globals s @ [a] \<and> name_of s' a = d_id s)"
proof (cases "version < 1 \<or> version > iface_version (e_ifaces env iface) \<or> a = 0")
  case True
  then show ?thesis using run ok by (auto simp: wl_global_create_def split: if_splits)
next
  case False
  let ?g = "\<lparr>g_interface = iface, g_name = d_id s, g_version = of_int version, g_data = data, g_bind = f, g_removed = False\<rparr>"
  let ?s1 = "s\<lparr>d_id := d_id s + 1, s_global := (s_global s)(a \<mapsto> ?g), d_globals := d_globals s @ [a]\<rparr>"
  let ?s2 = "if d_global_created_cb ?s1 \<noteq> 0 then notify env (GlobalCreated (d_global_created_cb ?s1) (d_id s)) ?s1 else ?s1"
  let ?post = "post_all env (d_registries ?s2) WL_REGISTRY_GLOBAL
      [W (d_id s), str_arg (iface_name (e_ifaces env iface)), W (of_int version)] ?s2"
  have eq: "wl_global_create env a iface version data f s = ?post \<bind> (\<lambda>s3. Some (a, s3))"
    using False unfolding wl_global_create_def Let_def by simp
  have r: "r = a" and post: "?post = Some s'"
    using run unfolding eq bind_eq_Some_conv by blast+
  have "same_globals ?s1 ?s2" using notify_globals [OF q] by (auto simp: same_globals_def)
  then have sg: "same_globals ?s1 s'" using post_all_globals [OF q post] same_globals_trans by blast
  have ok1: "globals_ok ?s1"
    by (rule globals_ok_add [OF ok(1), where a = a and g = ?g]) (use False a ok in simp_all)
  have "0 < d_id s + 1" using ok(2) u32_less_Suc [OF a(2)] by (rule less_trans)
  moreover have "s_global s' a = Some ?g" "d_id s' = d_id s + 1" "d_globals s' = d_globals s @ [a]"
    using sg by (simp_all add: same_globals_def)
  ultimately show ?thesis using ok1 r globals_ok_cong [OF sg] by (simp add: name_of_def)
qed

lemma global_remove_ok:
  assumes q: "quiet_display env" and ok: "globals_ok s" and run: "wl_global_remove env a s = Some s'"
  shows "globals_ok s' \<and> d_id s' = d_id s \<and> d_globals s' = d_globals s"
proof -
  obtain g where g: "s_global s a = Some g" "\<not> g_removed g"
    using run by (auto simp: wl_global_remove_def split: bind_splits if_splits)
  let ?s1 = "if d_global_destroyed_cb s \<noteq> 0 then notify env (GlobalDestroyed (d_global_destroyed_cb s) (g_name g)) s else s"
  obtain s2 where s2: "post_all env (d_registries ?s1) WL_REGISTRY_GLOBAL_REMOVE [W (g_name g)] ?s1 = Some s2"
    "s' = s2\<lparr>s_global := (s_global s2)(a := map_option (\<lambda>g. g\<lparr>g_removed := True\<rparr>) (s_global s2 a))\<rparr>"
    using run g by (auto simp: wl_global_remove_def Let_def split: bind_splits)
  have "same_globals s ?s1" using notify_globals [OF q] by (auto simp: same_globals_def)
  then have sg: "same_globals s s2" using post_all_globals [OF q s2(1)] same_globals_trans by blast
  then have "globals_ok s2" using ok globals_ok_cong by blast
  then have "globals_ok s'" unfolding s2(2) by (rule globals_ok_removed)
  then show ?thesis using sg by (simp add: s2(2) same_globals_def)
qed

lemma globals_reach_ok:
  assumes q: "quiet_display env"
  shows "globals_reach env s \<Longrightarrow> globals_ok s \<and> 0 < d_id s"
proof (induction rule: globals_reach.induct)
  case (init s)
  then show ?case by (simp add: globals_ok_def)
next
  case (create s a iface version data f r s')
  then show ?case using global_create_ok [OF q] by blast
next
  case (remove s a s')
  then show ?case using global_remove_ok [OF q] by metis
next
  case (destroy s a s')
  then obtain g s1 where g: "s_global s a = Some g"
    "(if \<not> g_removed g then wl_global_remove env a s else Some s) = Some s1"
    "s' = s1\<lparr>d_globals := removeAll a (d_globals s1), s_global := (s_global s1)(a := None)\<rparr>"
    unfolding wl_global_destroy_def bind_eq_Some_conv by blast
  have "globals_ok s1 \<and> d_id s1 = d_id s"
    using destroy.IH g(2) global_remove_ok [OF q, of s a s1] by (cases "g_removed g") simp_all
  then have "globals_ok s'" "d_id s' = d_id s" unfolding g(3) by (simp_all add: globals_ok_freed)
  then show ?case using destroy.IH by simp
next
  case (post s queue r opcode args s')
  have sg: "same_globals s s'" by (rule handle_array_globals [OF q post.hyps(2)])
  show ?case using post.IH globals_ok_cong [OF sg] sg by (simp add: same_globals_def)
qed

lemma find_global_unique:
  assumes "distinct (map (name_of s) as)" "\<forall>b \<in> set as. \<exists>g. s_global s b = Some g" "a \<in> set as"
    "s_global s a = Some g"
  shows "find_global s (g_name g) as = Some a"
  using assms
proof (induction as)
  case (Cons b as)
  obtain h where h: "s_global s b = Some h" using Cons.prems(2) by auto
  show ?case
  proof (cases "b = a")
    case True
    with Cons.prems(4) show ?thesis by simp
  next
    case False
    then have "a \<in> set as" using Cons.prems(3) by simp
    moreover have "g_name h \<noteq> g_name g"
      using Cons.prems(1,4) h \<open>a \<in> set as\<close> by (force simp: name_of_def)
    ultimately show ?thesis using Cons h by simp
  qed
qed simp

lemma find_global_none:
  "\<forall>b \<in> set as. \<exists>g. s_global s b = Some g \<and> g_name g \<noteq> name \<Longrightarrow> find_global s name as = Some 0"
  by (induction as) auto

text \<open>What makes a global bindable by a request.\<close>

definition bindable :: "env \<Rightarrow> u64 \<Rightarrow> u32 \<Rightarrow> string \<Rightarrow> u32 \<Rightarrow> server \<Rightarrow> u64 \<Rightarrow> wl_global \<Rightarrow> bool" where
  "bindable env client name iface version s a g \<longleftrightarrow>
     a \<in> set (d_globals s) \<and> s_global s a = Some g \<and> g_name g = name \<and>
     iface_name (e_ifaces env (g_interface g)) = iface \<and> 1 \<le> version \<and> version \<le> g_version g \<and>
     wl_global_is_visible env s client a"

lemma find_global_listed:
  assumes "globals_ok s" "a \<in> set (d_globals s)" "s_global s a = Some g"
  shows "find_global s (g_name g) (d_globals s) = Some a"
  using assms find_global_unique [of s "d_globals s" a g] by (auto simp: globals_ok_def)

lemma find_global_cases:
  assumes ok: "globals_ok s"
  obtains (none) "find_global s name (d_globals s) = Some 0" "\<And>a g. a \<in> set (d_globals s) \<Longrightarrow> s_global s a = Some g \<Longrightarrow> g_name g \<noteq> name"
  | (found) a g where "find_global s name (d_globals s) = Some a" "a \<noteq> 0" "a \<in> set (d_globals s)" "s_global s a = Some g" "g_name g = name"
proof (cases "\<exists>a g. a \<in> set (d_globals s) \<and> s_global s a = Some g \<and> g_name g = name")
  case True
  then obtain a g where ag: "a \<in> set (d_globals s)" "s_global s a = Some g" "g_name g = name" by blast
  have "a \<noteq> 0" using ok ag(1) by (simp add: globals_ok_def)
  then show thesis using found find_global_listed [OF ok ag(1,2)] ag by simp
next
  case False
  have "\<forall>b \<in> set (d_globals s). \<exists>g. s_global s b = Some g \<and> g_name g \<noteq> name"
    using ok False unfolding globals_ok_def by blast
  then show thesis using none False find_global_none by blast
qed

lemma version_zero: "\<not> 1 \<le> v \<longleftrightarrow> v = 0" for v :: u32
  by (simp add: not_le word_less_nat_alt unat_eq_0)

lemma registry_bind_ok:
  assumes ok: "globals_ok s" and b: "bindable env client name iface version s a g"
  shows "registry_bind env client r name iface version i s =
     Some (notify env (GlobalBind (g_bind g) client (g_data g) version i) s)"
proof -
  have "find_global s name (d_globals s) = Some a" "a \<noteq> 0"
    using b find_global_listed [OF ok, of a g] ok by (auto simp: bindable_def globals_ok_def)
  then show ?thesis using b by (auto simp: registry_bind_def bindable_def not_less)
qed

lemma registry_bind_refused:
  assumes ok: "globals_ok s" and none: "\<And>a g. \<not> bindable env client name iface version s a g"
  shows "\<exists>msg. registry_bind env client r name iface version i s =
     wl_resource_post_error env r WL_DISPLAY_ERROR_INVALID_OBJECT msg s"
proof (cases rule: find_global_cases [OF ok, where name = name])
  case 1
  then show ?thesis by (auto simp: registry_bind_def)
next
  case (2 a g)
  then show ?thesis using none [of a g] version_zero [of version]
    by (auto simp: registry_bind_def bindable_def not_less Let_def)
qed

lemma global_remove_names:
  assumes q: "quiet_display env" and run: "wl_global_remove env a s = Some s'"
  shows "d_globals s' = d_globals s" "name_of s' b = name_of s b"
proof -
  obtain g where g: "s_global s a = Some g" "\<not> g_removed g"
    using run by (auto simp: wl_global_remove_def split: bind_splits if_splits)
  let ?s1 = "if d_global_destroyed_cb s \<noteq> 0 then notify env (GlobalDestroyed (d_global_destroyed_cb s) (g_name g)) s else s"
  obtain s2 where s2: "post_all env (d_registries ?s1) WL_REGISTRY_GLOBAL_REMOVE [W (g_name g)] ?s1 = Some s2"
    "s' = s2\<lparr>s_global := (s_global s2)(a := map_option (\<lambda>g. g\<lparr>g_removed := True\<rparr>) (s_global s2 a))\<rparr>"
    using run g by (auto simp: wl_global_remove_def Let_def split: bind_splits)
  have "same_globals s ?s1" using notify_globals [OF q] by (auto simp: same_globals_def)
  then have sg: "same_globals s s2" using post_all_globals [OF q s2(1)] same_globals_trans by blast
  then show "d_globals s' = d_globals s" "name_of s' b = name_of s b"
    by (auto simp: s2(2) same_globals_def name_of_def split: option.split)
qed

text \<open>C15: In every reachable state of the display a bind request succeeds exactly for a listed
  global that has the given name and the interface of that name, for a version from 1 to the one
  the global was announced with, and that the filter shows to this client: then its bind function
  is called with the client, the version and the new id.  Every other request binds nothing and is
  answered with an invalid-object error on the registry.\<close>

theorem registry_bind_decides:
  assumes q: "quiet_display env" and reach: "globals_reach env s"
  shows "(\<forall>a g. bindable env client name iface version s a g \<longrightarrow>
            registry_bind env client r name iface version i s =
              Some (notify env (GlobalBind (g_bind g) client (g_data g) version i) s)) \<and>
         ((\<forall>a g. \<not> bindable env client name iface version s a g) \<longrightarrow>
            (\<exists>msg. registry_bind env client r name iface version i s =
              wl_resource_post_error env r WL_DISPLAY_ERROR_INVALID_OBJECT msg s))"
proof -
  have ok: "globals_ok s" using globals_reach_ok [OF q reach] by simp
  show ?thesis using registry_bind_ok [OF ok] registry_bind_refused [OF ok] by simp
qed

definition global_server :: server where
  "global_server = sample_server\<lparr>s_global := [8 \<mapsto> \<lparr>g_interface = 3, g_name = 1, g_version = 1, g_data = 7, g_bind = 9,
     g_removed = False\<rparr>], d_globals := [8], d_id := 2\<rparr>"

lemma quiet_display_sample: "quiet_display sample_env"
  by (simp add: quiet_display_def notify_def sample_env_def)

lemma global_server_created: "wl_global_create sample_env 8 3 1 7 9 sample_server = Some (8, global_server)"
  by (simp add: wl_global_create_def global_server_def sample_server_def sample_env_def registry_iface_def)

lemma global_server_reach: "globals_reach sample_env global_server"
proof (rule globals_reach.create [OF _ _ _ global_server_created])
  show "globals_reach sample_env sample_server"
    by (rule globals_reach.init) (simp_all add: sample_server_simps)
qed (simp_all add: sample_server_simps)

lemma registry_bind_decides_witness:
  "registry_bind sample_env 4096 16 1 ''wl_registry'' 1 5 global_server =
     Some (notify sample_env (GlobalBind 9 4096 7 1 5) global_server) \<and>
   (\<exists>msg. registry_bind sample_env 4096 16 1 ''wl_registry'' 2 5 global_server =
     wl_resource_post_error sample_env 16 WL_DISPLAY_ERROR_INVALID_OBJECT msg global_server)"
proof -
  have "bindable sample_env 4096 1 ''wl_registry'' 1 global_server 8 \<lparr>g_interface = 3, g_name = 1, g_version = 1,
      g_data = 7, g_bind = 9, g_removed = False\<rparr>"
    by (simp add: bindable_def global_server_def sample_server_def sample_env_def registry_iface_def
        wl_global_is_visible_def)
  moreover have "\<not> bindable sample_env 4096 1 ''wl_registry'' 2 global_server a g" for a g
    by (auto simp: bindable_def global_server_def sample_server_def word_le_nat_alt)
  ultimately show ?thesis
    using registry_bind_decides [OF quiet_display_sample global_server_reach] by fastforce
qed

text \<open>C18: In every reachable state each listed global is allocated and its name, which is never 0,
  leads the search of a bind request to that global and to no other.  After a global is destroyed
  no bind request for its name reaches a bind function, whatever the client, the interface and the
  version.\<close>

theorem global_names_unique:
  assumes q: "quiet_display env" and reach: "globals_reach env s"
  shows "(\<forall>a \<in> set (d_globals s). \<exists>g. s_global s a = Some g \<and> g_name g \<noteq> 0 \<and>
            find_global s (g_name g) (d_globals s) = Some a) \<and>
         (\<forall>a g s'. a \<in> set (d_globals s) \<longrightarrow> s_global s a = Some g \<longrightarrow> wl_global_destroy env a s = Some s' \<longrightarrow>
            find_global s' (g_name g) (d_globals s') = Some 0 \<and> globals_reach env s')"
proof (intro conjI ballI allI impI)
  have ok: "globals_ok s" using globals_reach_ok [OF q reach] by simp
  fix a assume a: "a \<in> set (d_globals s)"
  then obtain g where "s_global s a = Some g" "0 < g_name g"
    using ok unfolding globals_ok_def by blast
  then show "\<exists>g. s_global s a = Some g \<and> g_name g \<noteq> 0 \<and> find_global s (g_name g) (d_globals s) = Some a"
    using find_global_listed [OF ok a] by fastforce
next
  have ok: "globals_ok s" using globals_reach_ok [OF q reach] by simp
  fix a g s' assume a: "a \<in> set (d_globals s)" "s_global s a = Some g" and d: "wl_global_destroy env a s = Some s'"
  then show r: "globals_reach env s'" using globals_reach.destroy [OF reach] by blast
  obtain s1 where s1: "(if \<not> g_removed g then wl_global_remove env a s else Some s) = Some s1"
    "s' = s1\<lparr>d_globals := removeAll a (d_globals s1), s_global := (s_global s1)(a := None)\<rparr>"
    using d a(2) unfolding wl_global_destroy_def bind_eq_Some_conv by auto
  have names: "d_globals s1 = d_globals s" "\<And>b. name_of s1 b = name_of s b"
    using s1(1) global_remove_names [OF q, of a s s1] by (auto split: if_splits)
  have "g_name h \<noteq> g_name g" if "b \<in> set (d_globals s')" "s_global s' b = Some h" for b h
  proof -
    have b: "b \<in> set (d_globals s)" "b \<noteq> a" using that(1) names(1) by (auto simp: s1(2))
    have "name_of s b = g_name h" using that(2) b(2) names(2) [of b] by (simp add: s1(2) name_of_def)
    moreover have "name_of s a = g_name g" using a(2) by (simp add: name_of_def)
    moreover have "name_of s b \<noteq> name_of s a"
      using ok a(1) b by (auto simp: globals_ok_def distinct_map inj_on_def)
    ultimately show ?thesis by simp
  qed
  moreover have "globals_ok s'" using globals_reach_ok [OF q r] by simp
  ultimately show "find_global s' (g_name g) (d_globals s') = Some 0"
    unfolding globals_ok_def by (intro find_global_none) blast
qed

lemma global_names_unique_witness:
  "find_global global_server 1 (d_globals global_server) = Some 8"
  using global_names_unique [OF quiet_display_sample global_server_reach]
  by (simp add: global_server_def)

end
