(* ===== verification/Client.thy ===== *)
theory Client
  imports Globals
begin

text \<open>
  The life of a client in wayland-server/wayland-server.c: creating it on a socket, reading its
  requests and calling the implementations, flushing its events, and destroying it with all its
  resources; and the loops of the display over its clients.  Messages are first offered to the
  client's wire message function, which this fork of libwayland adds; the library only dispatches
  the messages that function declines.
\<close>

section \<open>Destroying a client\<close>

definition client_flush :: "u64 \<Rightarrow> server \<Rightarrow> ((errno + u32) \<times> server) option" where
  "client_flush c s = do {
     cl \<leftarrow> s_client s c;
     case wl_connection_flush (c_connection cl) (s_os s) of (r, conn, w) \<Rightarrow>
       if fatal r then None
       else Some (r, (upd_client c (\<lambda>cl. cl\<lparr>c_connection := conn\<rparr>) s)\<lparr>s_os := w\<rparr>) }"

definition wl_client_flush :: "u64 \<Rightarrow> server \<Rightarrow> server option" where
  "wl_client_flush c s = map_option snd (client_flush c s)"

text \<open>The iteration over a client's objects; a state that is \<open>None\<close> ends it.\<close>

definition client_map :: "u64 \<Rightarrow> server option \<Rightarrow> wl_map" where
  "client_map c so = (case so of None \<Rightarrow> wl_map_init 0 | Some s \<Rightarrow>
     (case s_client s c of None \<Rightarrow> wl_map_init 0 | Some cl \<Rightarrow> c_objects cl))"

definition destroy_element :: "env \<Rightarrow> u64 \<Rightarrow> u64 \<Rightarrow> u32 \<Rightarrow> server option \<Rightarrow> bool \<times> server option" where
  "destroy_element env c r flags so =
     (case so \<bind> destroy_resource env r flags of
        None \<Rightarrow> (False, None)
      | Some s \<Rightarrow> (s_client s c \<noteq> None, if s_client s c = None then None else Some s))"

text \<open>Removing an event source that is no timer needs neither the time nor memory.\<close>

definition remove_source :: "u64 \<Rightarrow> server \<Rightarrow> server option" where
  "remove_source a s = do {
     lp \<leftarrow> wl_event_source_remove (Timespec 0 0) True (unat a) (d_loop s);
     Some (s\<lparr>d_loop := lp\<rparr>) }"

definition wl_client_destroy :: "env \<Rightarrow> u64 \<Rightarrow> server \<Rightarrow> server option" where
  "wl_client_destroy env c s = do {
     _ \<leftarrow> s_client s c;
     s1 \<leftarrow> wl_client_flush c (notify env (ClientDestroyListeners c) s);
     s2 \<leftarrow> wl_map_for_each (client_map c) (destroy_element env c) (Some s1);
     cl \<leftarrow> s_client s2 c;
     s3 \<leftarrow> remove_source (c_source cl) s2;
     case wl_connection_destroy (c_connection cl) (s_os s3) of (f, w) \<Rightarrow>
       Some (s3\<lparr>s_os := sys_close f w, d_clients := removeAll c (d_clients s3),
                d_tmp_clients := removeAll c (d_tmp_clients s3), s_client := (s_client s3)(c := None)\<rparr>) }"

definition destroy_client_with_error :: "env \<Rightarrow> u64 \<Rightarrow> server \<Rightarrow> server option" where
  "destroy_client_with_error env c s = wl_client_destroy env c s"

section \<open>Receiving requests\<close>

text \<open>The part of the loop body that dispatches one message; the flag tells whether the loop goes on.\<close>

definition invoke_request :: "env \<Rightarrow> u64 \<Rightarrow> u64 \<Rightarrow> u32 \<Rightarrow> u32 \<Rightarrow> wl_closure \<Rightarrow> server \<Rightarrow> server option" where
  "invoke_request env c resource flags opcode closure s = do {
     res \<leftarrow> s_res s resource;
     (closure', s1) \<leftarrow>
       (if flags AND WL_MAP_ENTRY_LEGACY \<noteq> 0 \<or> r_dispatcher res = 0 then
          (case wl_closure_invoke (e_impl env (implementation (r_object res))) closure WL_CLOSURE_INVOKE_SERVER
                  resource opcode c of
             Inl _ \<Rightarrow> None
           | Inr (call, closure') \<Rightarrow> Some (closure', notify env (Request call (cl_args closure)) s))
        else Some (wl_closure_dispatch
               (\<lambda>target opcode msg args. notify env (Dispatch (r_dispatcher res) target opcode msg args))
               closure resource opcode s));
     Some (s1\<lparr>s_os := wl_closure_destroy (Some closure') (s_os s1)\<rparr>) }"

definition invalid_arguments :: "env \<Rightarrow> u64 \<Rightarrow> wl_object \<Rightarrow> wl_message \<Rightarrow> server \<Rightarrow> server option" where
  "invalid_arguments env display_resource object message s =
     wl_resource_post_error env display_resource WL_DISPLAY_ERROR_INVALID_METHOD
       (''invalid arguments for '' @ iface_name (e_ifaces env (interface object)) @ ''@'' @
        fmt_u (object_id object) @ ''.'' @ msg_name message) s"

definition demarshal_request ::
  "env \<Rightarrow> u64 \<Rightarrow> wl_message \<Rightarrow> u32 \<Rightarrow> server \<Rightarrow> ((errno + wl_closure) \<times> server) option" where
  "demarshal_request env c message sz s = do {
     cl \<leftarrow> s_client s c;
     case wl_connection_demarshal (e_grow env) (c_connection cl) sz (c_objects cl) message (s_os s) of
       (r, conn, m, w) \<Rightarrow>
         if fatal r then None
         else Some (r, (upd_client c (\<lambda>cl. cl\<lparr>c_connection := conn, c_objects := m\<rparr>) s)\<lparr>s_os := w\<rparr>) }"

definition dispatch_message ::
  "env \<Rightarrow> u64 \<Rightarrow> u64 \<Rightarrow> u32 \<Rightarrow> u32 \<Rightarrow> u32 \<Rightarrow> u32 \<Rightarrow> server \<Rightarrow> (bool \<times> server) option" where
  "dispatch_message env c resource flags p0 opcode sz s = do {
     cl \<leftarrow> s_client s c;
     let stop = map_option (\<lambda>s. (False, s));
     if resource = 0 then
       stop (wl_resource_post_error env (c_display_resource cl) WL_DISPLAY_ERROR_INVALID_OBJECT
               (''invalid object '' @ fmt_u p0) s)
     else do {
       res \<leftarrow> s_res s resource;
       let object = r_object res;
       let iface = e_ifaces env (interface object);
       if unat opcode \<ge> length (methods iface) then
         stop (wl_resource_post_error env (c_display_resource cl) WL_DISPLAY_ERROR_INVALID_METHOD
                 (''invalid method '' @ fmt_d opcode @ '', object '' @ iface_name iface @ ''@'' @
                  fmt_u (object_id object)) s)
       else do {
         let message = methods iface ! unat opcode;
         let since = wl_message_get_since message;
         if flags AND WL_MAP_ENTRY_LEGACY = 0 \<and> r_version res > 0 \<and> r_version res < since then
           stop (wl_resource_post_error env (c_display_resource cl) WL_DISPLAY_ERROR_INVALID_METHOD
                   (''invalid method '' @ fmt_d opcode @ '' (since '' @ dec_int (r_version res) @ '' < '' @
                    dec_int since @ ''), object '' @ iface_name iface @ ''@'' @ fmt_u (object_id object)) s)
         else do {
           (r, s1) \<leftarrow> demarshal_request env c message sz s;
           cl1 \<leftarrow> s_client s1 c;
           (case r of
              Inl e \<Rightarrow>
                if e = ENOMEM then stop (wl_resource_post_no_memory env resource s1)
                else stop (invalid_arguments env (c_display_resource cl1) object message s1)
            | Inr closure \<Rightarrow>
                (case wl_closure_lookup_objects (e_ifaces env) (objs_of s1) (c_objects cl1) closure of
                   (Inl e, closure) \<Rightarrow>
                     if e = UB then None
                     else do {
                       s2 \<leftarrow> invalid_arguments env (c_display_resource cl1) object message s1;
                       Some (False, s2\<lparr>s_os := wl_closure_destroy (Some closure) (s_os s2)\<rparr>) }
                 | (Inr _, closure) \<Rightarrow> do {
                     s3 \<leftarrow> invoke_request env c resource flags opcode closure
                             (log_closure env resource closure False s1);
                     cl3 \<leftarrow> s_client s3 c;
                     Some (\<not> c_error cl3, s3) })) } } } }"

text \<open>One round of the loop of \<open>wl_client_connection_data\<close>.\<close>

definition pending_input :: "wl_client \<Rightarrow> int" where
  "pending_input cl = sint (wl_connection_pending_input (c_connection cl))"

definition message_step :: "env \<Rightarrow> u64 \<Rightarrow> int \<Rightarrow> server \<Rightarrow> (bool \<times> int \<times> server) option" where
  "message_step env c len s = do {
     cl \<leftarrow> s_client s c;
     let p = words_of (wl_connection_copy (c_connection cl) 8);
     let opcode = p ! 1 AND 0xffff;
     let sz = drop_bit 16 (p ! 1);
     if len < uint sz then Some (False, len, s)
     else do {
       let resource = wl_map_lookup (c_objects cl) (p ! 0);
       let flags = wl_map_lookup_flags (c_objects cl) (p ! 0);
       (declined, s1) \<leftarrow>
         (if c_wire_message_cb cl \<noteq> 0 then
            (case sys_malloc (s_os s) of (mem, w) \<Rightarrow>
               if \<not> mem \<and> sz \<noteq> 0 then None
               else
                 let buffer = wl_connection_copy (c_connection cl) (unat sz);
                     (ret, s1) = e_hook env (WireMessage (c_wire_message_cb cl) c buffer (p ! 0) opcode) (s\<lparr>s_os := w\<rparr>)
                 in Some (ret \<noteq> 0, s1))
          else Some (True, s));
       if \<not> declined then do {
         cl1 \<leftarrow> s_client s1 c;
         let cl2 = cl1\<lparr>c_connection := wl_connection_consume (c_connection cl1) (unat sz)\<rparr>;
         Some (True, pending_input cl2, s1\<lparr>s_client := (s_client s1)(c := Some cl2)\<rparr>) }
       else do {
         (continue, s2) \<leftarrow> dispatch_message env c resource flags (p ! 0) opcode sz s1;
         cl2 \<leftarrow> s_client s2 c;
         Some (continue, pending_input cl2, s2) } } }"

partial_function (option) message_loop :: "env \<Rightarrow> u64 \<Rightarrow> int \<Rightarrow> server \<Rightarrow> server option" where
  "message_loop env c len s =
     (if len \<ge> 0 \<and> len \<ge> 8 then do {
        (continue, len1, s1) \<leftarrow> message_step env c len s;
        if continue then message_loop env c len1 s1 else Some s1 }
      else Some s)"

definition update_source :: "u64 \<Rightarrow> u32 \<Rightarrow> server \<Rightarrow> server option" where
  "update_source a msk s = do {
     (_, lp) \<leftarrow> wl_event_source_fd_update (unat a) msk (d_loop s);
     Some (s\<lparr>d_loop := lp\<rparr>) }"

text \<open>The first half: \<open>Inl\<close> when the client was destroyed, else the length read.\<close>

definition client_io :: "env \<Rightarrow> u64 \<Rightarrow> u32 \<Rightarrow> server \<Rightarrow> (server + int \<times> server) option" where
  "client_io env c msk s =
     (if msk AND WL_EVENT_HANGUP \<noteq> 0 then map_option Inl (wl_client_destroy env c s)
      else if msk AND WL_EVENT_ERROR \<noteq> 0 then map_option Inl (destroy_client_with_error env c s)
      else do {
        so \<leftarrow> (if msk AND WL_EVENT_WRITABLE \<noteq> 0 then do {
                 (r, s1) \<leftarrow> client_flush c s;
                 cl \<leftarrow> s_client s1 c;
                 (case r of
                    Inl e \<Rightarrow> if e \<noteq> EAGAIN then map_option Inl (destroy_client_with_error env c s1)
                             else Some (Inr s1)
                  | Inr _ \<Rightarrow> map_option Inr (update_source (c_source cl) WL_EVENT_READABLE s1)) }
               else Some (Inr s));
        (case so of
           Inl s1 \<Rightarrow> Some (Inl s1)
         | Inr s1 \<Rightarrow>
             if msk AND WL_EVENT_READABLE \<noteq> 0 then do {
               cl \<leftarrow> s_client s1 c;
               (case wl_connection_read (c_connection cl) (s_os s1) of (r, conn, w) \<Rightarrow>
                  let s2 = (upd_client c (\<lambda>cl. cl\<lparr>c_connection := conn\<rparr>) s1)\<lparr>s_os := w\<rparr> in
                  if fatal r then None
                  else if r = Inr 0 \<or> isl r \<and> r \<noteq> Inl EAGAIN
                  then map_option Inl (destroy_client_with_error env c s2)
                  else Some (Inr (case r of Inl _ \<Rightarrow> - 1 | Inr n \<Rightarrow> sint n, s2))) }
             else Some (Inr (0, s1))) })"

text \<open>The event source of a client always answers 1.\<close>

definition wl_client_connection_data :: "env \<Rightarrow> u64 \<Rightarrow> u32 \<Rightarrow> server \<Rightarrow> (int \<times> server) option" where
  "wl_client_connection_data env c msk s = do {
     r \<leftarrow> client_io env c msk s;
     (case r of
        Inl s1 \<Rightarrow> Some (1, s1)
      | Inr (len, s1) \<Rightarrow> do {
          s2 \<leftarrow> message_loop env c len s1;
          cl \<leftarrow> s_client s2 c;
          if c_error cl then map_option (Pair 1) (destroy_client_with_error env c s2)
          else if c_wire_message_end_cb cl \<noteq> 0
          then Some (1, notify env (WireMessageEnd (c_wire_message_end_cb cl) c) s2)
          else Some (1, s2) }) }"

section \<open>Creating a client\<close>

definition blank_client :: "wl_connection \<Rightarrow> u64 \<Rightarrow> u32 \<times> u32 \<times> u32 \<Rightarrow> wl_client" where
  "blank_client conn source cred =
     \<lparr>c_connection = conn, c_display_resource = 0, c_objects = wl_map_init WL_MAP_SERVER_SIDE,
      c_error = False, c_source = source, c_pid = snd (snd cred), c_uid = fst cred, c_gid = fst (snd cred),
      c_wire_message_cb = 0, c_wire_message_end_cb = 0, c_registry_created_cb = 0, c_sync_done_cb = 0\<rparr>"

text \<open>
  \<open>wl_event_loop_add_fd\<close> on the loop of the display: the source, allocated at \<open>sa\<close>, watches a
  duplicate of the descriptor, which the operating system makes.
\<close>

definition display_add_fd :: "u64 \<Rightarrow> fd \<Rightarrow> u32 \<Rightarrow> nat \<Rightarrow> nat \<Rightarrow> server \<Rightarrow> saddr \<times> server" where
  "display_add_fd sa f msk func data s =
     (if sa = 0 then (0, s)
      else (case sys_dup f (s_os s) of (dr, w) \<Rightarrow>
        let dupfd = (case dr of Inl _ \<Rightarrow> - 1 | Inr d \<Rightarrow> sint d);
            (source, lp) = wl_event_loop_add_fd (unat sa) dupfd (sint f) msk func data (d_loop s)
        in (source, s\<lparr>s_os := w, d_loop := lp\<rparr>)))"

text \<open>
  \<open>c\<close>, \<open>a\<close> and \<open>sa\<close> are the addresses \<open>malloc\<close> returns for the client, its display resource and
  its event source, 0 when it fails; \<open>cred\<close> is the user, the group and the process that
  \<open>wl_os_socket_peercred\<close> reports, if it succeeds; \<open>func\<close> is the address of
  \<open>wl_client_connection_data\<close>.
\<close>

definition wl_client_create ::
  "env \<Rightarrow> nat \<Rightarrow> u64 \<Rightarrow> u64 \<Rightarrow> u64 \<Rightarrow> (u32 \<times> u32 \<times> u32) option \<Rightarrow> u64 \<Rightarrow> fd \<Rightarrow> server \<Rightarrow> (u64 \<times> server) option" where
  "wl_client_create env func c a sa peer display f s =
     (if c = 0 then Some (0, s)
      else (case display_add_fd sa f WL_EVENT_READABLE func (unat c) s of (source, s1) \<Rightarrow>
        if source = 0 then Some (0, s1)
        else (case peer of
            None \<Rightarrow> do { s2 \<leftarrow> remove_source sa s1; Some (0, s2) }
          | Some cred \<Rightarrow>
              (case wl_connection_create f (s_os s1) of
                 (None, w) \<Rightarrow> do { s2 \<leftarrow> remove_source sa (s1\<lparr>s_os := w\<rparr>); Some (0, s2) }
               | (Some conn, w) \<Rightarrow> do {
                   let s2 = s1\<lparr>s_os := w, s_client := (s_client s1)(c := Some (blank_client conn sa cred))\<rparr>;
                   let err_map = (\<lambda>s. do {
                       cl \<leftarrow> s_client s c;
                       s' \<leftarrow> remove_source (c_source cl) (s\<lparr>s_os := snd (wl_connection_destroy (c_connection cl) (s_os s))\<rparr>);
                       Some (0, s'\<lparr>s_client := (s_client s')(c := None)\<rparr>) });
                   (n, s3) \<leftarrow> client_insert_at c 0 0 0 s2;
                   if n < 0 then err_map s3
                   else do {
                     (m, s4) \<leftarrow> bind_display env a c display s3;
                     if m < 0 then err_map s4
                     else Some (c, notify env (ClientCreated c) (s4\<lparr>d_clients := d_clients s4 @ [c]\<rparr>)) } }))))"

definition wl_client_get_credentials :: "u64 \<Rightarrow> server \<Rightarrow> (u32 \<times> u32 \<times> u32) option" where
  "wl_client_get_credentials c s = map_option (\<lambda>cl. (c_pid cl, c_uid cl, c_gid cl)) (s_client s c)"

definition wl_client_get_fd :: "u64 \<Rightarrow> server \<Rightarrow> fd option" where
  "wl_client_get_fd c s = map_option (\<lambda>cl. wl_connection_get_fd (c_connection cl)) (s_client s c)"

text \<open>The event source of a listening socket; \<open>accepted\<close> is the result of \<open>accept\<close>.\<close>

definition socket_data ::
  "env \<Rightarrow> nat \<Rightarrow> u64 \<Rightarrow> u64 \<Rightarrow> u64 \<Rightarrow> (u32 \<times> u32 \<times> u32) option \<Rightarrow> u64 \<Rightarrow> fd \<Rightarrow> server \<Rightarrow> (int \<times> server) option" where
  "socket_data env func c a sa peer display accepted s =
     (if sint accepted < 0 then Some (1, s)
      else do {
        (r, s1) \<leftarrow> wl_client_create env func c a sa peer display accepted s;
        Some (1, if r = 0 then s1\<lparr>s_os := sys_close accepted (s_os s1)\<rparr> else s1) })"

section \<open>All clients\<close>

text \<open>The successor of a link, 0 at the list head; \<open>None\<close> when it is not in the list.\<close>

fun next_client :: "u64 list \<Rightarrow> u64 \<Rightarrow> u64 option" where
  "next_client [] a = None"
| "next_client (x # xs) a = (if x = a then Some (case xs of [] \<Rightarrow> 0 | y # _ \<Rightarrow> y) else next_client xs a)"

definition flush_one :: "env \<Rightarrow> u64 \<Rightarrow> server \<Rightarrow> server option" where
  "flush_one env c s = do {
     (r, s1) \<leftarrow> client_flush c s;
     cl \<leftarrow> s_client s1 c;
     (case r of
        Inl e \<Rightarrow>
          if e = EAGAIN then update_source (c_source cl) (WL_EVENT_WRITABLE OR WL_EVENT_READABLE) s1
          else wl_client_destroy env c s1
      | Inr _ \<Rightarrow> Some s1) }"

partial_function (option) flush_clients_loop :: "env \<Rightarrow> u64 \<Rightarrow> server \<Rightarrow> server option" where
  "flush_clients_loop env c s =
     (if c = 0 then Some s
      else do {
        next \<leftarrow> next_client (d_clients s) c;
        s1 \<leftarrow> flush_one env c s;
        flush_clients_loop env next s1 })"

definition wl_display_flush_clients :: "env \<Rightarrow> server \<Rightarrow> server option" where
  "wl_display_flush_clients env s =
     flush_clients_loop env (case d_clients s of [] \<Rightarrow> 0 | c # _ \<Rightarrow> c) s"

partial_function (option) destroy_clients_loop :: "env \<Rightarrow> server \<Rightarrow> server option" where
  "destroy_clients_loop env s =
     (case d_tmp_clients s of
        [] \<Rightarrow> Some s
      | c # _ \<Rightarrow> do { s1 \<leftarrow> wl_client_destroy env c s; destroy_clients_loop env s1 })"

definition wl_display_destroy_clients :: "env \<Rightarrow> server \<Rightarrow> server option" where
  "wl_display_destroy_clients env s =
     destroy_clients_loop env (s\<lparr>d_tmp_clients := d_clients s, d_clients := []\<rparr>)"

definition wl_client_for_each_resource ::
  "(u64 \<Rightarrow> server option \<Rightarrow> bool \<times> server option) \<Rightarrow> u64 \<Rightarrow> server \<Rightarrow> server option" where
  "wl_client_for_each_resource iterator c s =
     wl_map_for_each (client_map c) (\<lambda>r flags. iterator r) (Some s)"

section \<open>Destroying a client\<close>

text \<open>Compositor functions that leave clients, resources, sources and the client lists alone.\<close>

definition calm_env :: "env \<Rightarrow> bool" where
  "calm_env env \<longleftrightarrow> quiet_env env \<and> (\<forall>u s. d_loop (notify env u s) = d_loop s \<and>
     d_clients (notify env u s) = d_clients s \<and> d_tmp_clients (notify env u s) = d_tmp_clients s)"

definition same_frame :: "server \<Rightarrow> server \<Rightarrow> bool" where
  "same_frame s s' \<longleftrightarrow> s_os s' = s_os s \<and> d_loop s' = d_loop s \<and> d_clients s' = d_clients s \<and>
     d_tmp_clients s' = d_tmp_clients s"

lemma same_frame_refl [simp]: "same_frame s s"
  by (simp add: same_frame_def)

lemma same_frame_trans: "same_frame a b \<Longrightarrow> same_frame b c \<Longrightarrow> same_frame a c"
  by (simp add: same_frame_def)

lemma calm_notify:
  "calm_env env \<Longrightarrow> same_frame s (notify env u s) \<and> s_res (notify env u s) = s_res s \<and>
     s_client (notify env u s) = s_client s"
  by (simp add: calm_env_def quiet_env_def same_frame_def)

text \<open>What destroying resources may change of their client.\<close>

definition same_client :: "wl_client \<Rightarrow> wl_client \<Rightarrow> bool" where
  "same_client cl cl' \<longleftrightarrow> c_objects cl' = c_objects cl \<and> c_connection cl' = c_connection cl \<and> c_source cl' = c_source cl"

lemma call_destroy_calm:
  assumes q: "calm_env env" and r: "s_res s r = Some res" "s_client s (r_client res) = Some cl"
  shows "same_frame s (call_destroy env f r s) \<and> s_res (call_destroy env f r s) = s_res s \<and>
    (\<exists>cl'. s_client (call_destroy env f r s) = (s_client s)(r_client res \<mapsto> cl') \<and> same_client cl cl')"
proof (cases "f = DESTROY_CLIENT_DISPLAY_RESOURCE")
  case True
  then have "call_destroy env f r s = upd_client (r_client res) (\<lambda>cl. cl\<lparr>c_display_resource := 0\<rparr>) s"
    using r by (simp add: call_destroy_def destroy_client_display_resource_def
        DESTROY_CLIENT_DISPLAY_RESOURCE_def UNBIND_RESOURCE_def)
  then show ?thesis using r by (auto simp: same_frame_def upd_client_def same_client_def)
next
  case False
  have "s_client s = (s_client s)(r_client res \<mapsto> cl)" using r(2) by (simp add: fun_upd_idem)
  moreover have "same_client cl cl" by (simp add: same_client_def)
  moreover have "same_frame s (call_destroy env f r s) \<and> s_res (call_destroy env f r s) = s_res s \<and>
      s_client (call_destroy env f r s) = s_client s"
    using False calm_notify [OF q] by (simp add: call_destroy_def unbind_resource_def same_frame_def)
  ultimately show ?thesis by metis
qed

lemma destroy_resource_calm:
  assumes q: "calm_env env" and r: "s_res s r = Some res" "r_client res = c" "s_client s c = Some cl"
  obtains s1 cl1 where "destroy_resource env r flags s = Some s1" "same_frame s s1"
    "s_res s1 = (if flags AND WL_MAP_ENTRY_LEGACY = 0 then (s_res s)(r := None) else s_res s)"
    "s_client s1 = (s_client s)(c \<mapsto> cl1)" "same_client cl cl1"
proof -
  let ?s1 = "notify env (DeprecatedDestroyListeners r) s"
  obtain dep where dep: "resource_is_deprecated r ?s1 = Some dep"
    using r calm_notify [OF q, of s] by (simp add: resource_is_deprecated_def)
  let ?s2 = "if \<not> dep then notify env (DestroyListeners r) ?s1 else ?s1"
  have s2: "same_frame s ?s2" "s_res ?s2 = s_res s" "s_client ?s2 = s_client s"
    using calm_notify [OF q, of s] calm_notify [OF q, of ?s1] by (auto intro: same_frame_trans)
  let ?s3 = "call_destroy env (r_destroy res) r ?s2"
  obtain cl1 where s3: "same_frame ?s2 ?s3" "s_res ?s3 = s_res ?s2" "s_client ?s3 = (s_client ?s2)(c \<mapsto> cl1)"
    "same_client cl cl1"
    using call_destroy_calm [OF q, of ?s2 r res cl "r_destroy res"] r s2 by (metis (no_types, lifting))
  let ?s4 = "if flags AND WL_MAP_ENTRY_LEGACY = 0 then free_res r ?s3 else ?s3"
  have "destroy_resource env r flags s = Some ?s4"
    using r dep s2(2) by (simp add: destroy_resource_def Let_def)
  moreover have "same_frame s ?s4" "s_res ?s4 = (if flags AND WL_MAP_ENTRY_LEGACY = 0 then (s_res s)(r := None) else s_res s)"
    "s_client ?s4 = (s_client s)(c \<mapsto> cl1)"
    using s2 s3 by (simp_all add: same_frame_def free_res_def)
  ultimately show thesis using that s3(4) by blast
qed

text \<open>The resources a traversal of an id map frees: all but the ones the compositor allocated.\<close>

definition freed :: "(u64 \<times> u32) list \<Rightarrow> u64 set" where
  "freed ps = {r. \<exists>fl. (r, fl) \<in> set ps \<and> fl AND WL_MAP_ENTRY_LEGACY = 0}"

definition without :: "u64 set \<Rightarrow> (u64 \<Rightarrow> wl_resource option) \<Rightarrow> u64 \<Rightarrow> wl_resource option" where
  "without A res r = (if r \<in> A then None else res r)"

definition owned :: "server \<Rightarrow> u64 \<Rightarrow> (u64 \<times> u32) list \<Rightarrow> bool" where
  "owned s c ps \<longleftrightarrow> distinct (map fst ps) \<and> (\<forall>r \<in> set (map fst ps). \<exists>res. s_res s r = Some res \<and> r_client res = c)"

lemma freed_simps [simp]:
  "freed [] = {}" "freed ((r, fl) # ps) = (if fl AND WL_MAP_ENTRY_LEGACY = 0 then insert r (freed ps) else freed ps)"
  "freed (xs @ ys) = freed xs \<union> freed ys"
  by (auto simp: freed_def)

lemma freed_sub: "freed ps \<subseteq> set (map fst ps)"
  by (force simp: freed_def)

lemma without_simps [simp]:
  "without {} res = res" "without A (without B res) = without (A \<union> B) res"
  "without A (res(r := None)) = without (insert r A) res"
  by (auto simp: without_def)

lemma owned_cong:
  "owned s c ps \<Longrightarrow> \<forall>r \<in> set (map fst ps). s_res s' r = s_res s r \<Longrightarrow> owned s' c ps"
  by (auto simp: owned_def)

lemma client_map_Some: "s_client s c = Some cl \<Longrightarrow> client_map c (Some s) = c_objects cl"
  by (simp add: client_map_def)

lemma destroy_each:
  assumes q: "calm_env env" and "s_client s c = Some cl" "\<forall>k \<in> set ks. k < length (sel (c_objects cl))"
    "owned s c (live_pairs (map ((!) (sel (c_objects cl))) ks))"
  shows "\<exists>s1 cl1. for_each_helper (\<lambda>so. sel (client_map c so)) (destroy_element env c) ks (Some s) = (True, Some s1) \<and>
    same_frame s s1 \<and> s_client s1 = (s_client s)(c \<mapsto> cl1) \<and> same_client cl cl1 \<and>
    s_res s1 = without (freed (live_pairs (map ((!) (sel (c_objects cl))) ks))) (s_res s)"
  using assms(2-)
proof (induction ks arbitrary: s cl)
  case Nil
  then show ?case
    by (intro exI [of _ s] exI [of _ cl]) (simp add: same_client_def live_pairs_def fun_upd_idem)
next
  case (Cons k ks)
  let ?es = "sel (c_objects cl)"
  let ?e = "?es ! k"
  have m: "client_map c (Some s) = c_objects cl" using Cons.prems(1) by (rule client_map_Some)
  show ?case
  proof (cases "?e \<noteq> 0 \<and> \<not> map_entry_is_free ?e")
    case False
    have "live_pairs (map ((!) ?es) (k # ks)) = live_pairs (map ((!) ?es) ks)"
      using False by (auto simp: live_pairs_def)
    then show ?thesis using Cons.IH [OF Cons.prems(1)] Cons.prems False m by (auto simp: Let_def)
  next
    case True
    let ?r = "map_entry_get_data ?e" and ?fl = "map_entry_get_flags ?e"
    let ?ps = "live_pairs (map ((!) ?es) ks)"
    have lp: "live_pairs (map ((!) ?es) (k # ks)) = (?r, ?fl) # ?ps"
      using True by (simp add: live_pairs_def)
    have own: "owned s c ?ps" "?r \<notin> set (map fst ?ps)" "\<exists>res. s_res s ?r = Some res \<and> r_client res = c"
      using Cons.prems(3) unfolding lp owned_def by auto
    then obtain res where res: "s_res s ?r = Some res" "r_client res = c" by blast
    obtain s1 cl1 where d: "destroy_resource env ?r ?fl s = Some s1" "same_frame s s1"
      "s_res s1 = (if ?fl AND WL_MAP_ENTRY_LEGACY = 0 then (s_res s)(?r := None) else s_res s)"
      "s_client s1 = (s_client s)(c \<mapsto> cl1)" "same_client cl cl1"
      using destroy_resource_calm [OF q res Cons.prems(1)] .
    have ob: "c_objects cl1 = c_objects cl" using d(5) by (simp add: same_client_def)
    have c1: "s_client s1 c = Some cl1" using d(4) by simp
    have "owned s1 c ?ps"
    proof (rule owned_cong [OF own(1)], rule ballI)
      fix x assume "x \<in> set (map fst ?ps)"
      then have "x \<noteq> ?r" using own(2) by metis
      then show "s_res s1 x = s_res s x" by (simp add: d(3))
    qed
    then have k: "\<forall>k \<in> set ks. k < length (sel (c_objects cl1))" "owned s1 c (live_pairs (map ((!) (sel (c_objects cl1))) ks))"
      using Cons.prems(2) ob by simp_all
    obtain s2 cl2 where s2: "for_each_helper (\<lambda>so. sel (client_map c so)) (destroy_element env c) ks (Some s1) = (True, Some s2)"
      "same_frame s1 s2" "s_client s2 = (s_client s1)(c \<mapsto> cl2)" "same_client cl1 cl2"
      "s_res s2 = without (freed ?ps) (s_res s1)"
      using Cons.IH [OF c1 k] unfolding ob by blast
    have "for_each_helper (\<lambda>so. sel (client_map c so)) (destroy_element env c) (k # ks) (Some s) = (True, Some s2)"
      using True m d(1) c1 s2(1) by (simp add: Let_def destroy_element_def)
    moreover have "same_frame s s2" using d(2) s2(2) by (rule same_frame_trans)
    moreover have "s_client s2 = (s_client s)(c \<mapsto> cl2)" using s2(3) d(4) by simp
    moreover have "same_client cl cl2" using d(5) s2(4) by (simp add: same_client_def)
    moreover have "s_res s2 = without (freed (live_pairs (map ((!) ?es) (k # ks)))) (s_res s)"
      unfolding lp s2(5) d(3) by simp
    ultimately show ?thesis by blast
  qed
qed

text \<open>The resources of a client, in the order it destroys them.\<close>

definition map_pairs :: "wl_map \<Rightarrow> (u64 \<times> u32) list" where
  "map_pairs m = live_pairs (client_entries m) @ live_pairs (server_entries m)"

lemma owned_append:
  "owned s c (xs @ ys) \<Longrightarrow> owned s c xs \<and> owned s c ys \<and> set (map fst xs) \<inter> set (map fst ys) = {}"
  by (auto simp: owned_def)

lemma destroy_all:
  assumes q: "calm_env env" and cl: "s_client s c = Some cl" and own: "owned s c (map_pairs (c_objects cl))"
  obtains s1 cl1 where "wl_map_for_each (client_map c) (destroy_element env c) (Some s) = Some s1"
    "same_frame s s1" "s_client s1 = (s_client s)(c \<mapsto> cl1)" "same_client cl cl1"
    "s_res s1 = without (freed (map_pairs (c_objects cl))) (s_res s)"
proof -
  let ?m = "c_objects cl"
  note own' = owned_append [OF own [unfolded map_pairs_def]]
  obtain s1 cl1 where s1: "for_each_helper (\<lambda>so. client_entries (client_map c so)) (destroy_element env c)
      [0..<length (client_entries ?m)] (Some s) = (True, Some s1)"
    "same_frame s s1" "s_client s1 = (s_client s)(c \<mapsto> cl1)" "same_client cl cl1"
    "s_res s1 = without (freed (live_pairs (client_entries ?m))) (s_res s)"
    using destroy_each [OF q cl, of "[0..<length (client_entries ?m)]" client_entries] own'
    unfolding map_nth by auto
  have c1: "s_client s1 c = Some cl1" "c_objects cl1 = ?m" using s1(3,4) by (simp_all add: same_client_def)
  have "owned s1 c (live_pairs (server_entries ?m))"
    by (rule owned_cong [of s]) (use own' s1(5) freed_sub in \<open>auto simp: without_def\<close>)
  then obtain s2 cl2 where s2: "for_each_helper (\<lambda>so. server_entries (client_map c so)) (destroy_element env c)
      [0..<length (server_entries ?m)] (Some s1) = (True, Some s2)"
    "same_frame s1 s2" "s_client s2 = (s_client s1)(c \<mapsto> cl2)" "same_client cl1 cl2"
    "s_res s2 = without (freed (live_pairs (server_entries ?m))) (s_res s1)"
    using destroy_each [OF q c1(1), of "[0..<length (server_entries ?m)]" server_entries]
    unfolding c1(2) map_nth by auto
  have "wl_map_for_each (client_map c) (destroy_element env c) (Some s) = Some s2"
    using s1(1) s2(1) client_map_Some [OF cl] client_map_Some [OF c1(1)] c1(2)
    by (simp add: wl_map_for_each_def)
  moreover have "same_frame s s2" using s1(2) s2(2) by (rule same_frame_trans)
  moreover have "s_client s2 = (s_client s)(c \<mapsto> cl2)" "same_client cl cl2"
    using s1(3,4) s2(3,4) by (simp_all add: same_client_def)
  moreover have "s_res s2 = without (freed (map_pairs ?m)) (s_res s)"
    by (simp add: s2(5) s1(5) map_pairs_def Un_commute)
  ultimately show thesis by (rule that)
qed

lemma client_flush_spec:
  assumes cl: "s_client s c = Some cl" and ok: "conn_ok (c_connection cl)" and run: "wl_client_flush c s = Some s1"
  obtains conn w where "out_step (c_connection cl) (s_os s) conn w" "conn_ok conn"
    "s1 = (upd_client c (\<lambda>cl. cl\<lparr>c_connection := conn\<rparr>) s)\<lparr>s_os := w\<rparr>"
proof -
  obtain r conn w where f: "wl_connection_flush (c_connection cl) (s_os s) = (r, conn, w)" by (metis surj_pair)
  have "s1 = (upd_client c (\<lambda>cl. cl\<lparr>c_connection := conn\<rparr>) s)\<lparr>s_os := w\<rparr>"
    using run cl f by (auto simp: wl_client_flush_def client_flush_def split: if_splits)
  with that wl_connection_flush_spec [OF ok f] show thesis by blast
qed

text \<open>What is left after a client was destroyed.\<close>

definition client_gone :: "env \<Rightarrow> u64 \<Rightarrow> wl_client \<Rightarrow> source \<Rightarrow> server \<Rightarrow> server \<Rightarrow> bool" where
  "client_gone env c cl src s s' \<longleftrightarrow>
     s_client s' = (s_client s)(c := None) \<and>
     s_res s' = without (freed (map_pairs (c_objects cl))) (s_res s) \<and>
     d_clients s' = removeAll c (d_clients s) \<and> d_tmp_clients s' = removeAll c (d_tmp_clients s) \<and>
     closed (s_os s') = closed (s_os s) @ fds_list (fds_out (c_connection cl)) @
       fds_list (fds_in (c_connection cl)) @ [conn_fd (c_connection cl)] \<and>
     (\<exists>lp. wl_event_source_remove (Timespec 0 0) True (unat (c_source cl)) (d_loop s) = Some lp \<and> d_loop s' = lp)"

lemma client_destroy_spec:
  assumes q: "calm_env env" and cl: "s_client s c = Some cl" and conn: "conn_ok (c_connection cl)"
    and own: "owned s c (map_pairs (c_objects cl))"
    and src: "el_src (d_loop s) (unat (c_source cl)) = Some src" "s_iface src \<noteq> TimerInterface"
    and flush: "wl_client_flush c (notify env (ClientDestroyListeners c) s) = Some s1"
  shows "\<exists>s'. wl_client_destroy env c s = Some s' \<and> client_gone env c cl src s s'"
proof -
  let ?s0 = "notify env (ClientDestroyListeners c) s"
  have s0: "s_client ?s0 = s_client s" "s_res ?s0 = s_res s" "same_frame s ?s0"
    using calm_notify [OF q] by auto
  obtain cn w where f: "out_step (c_connection cl) (s_os s) cn w" "conn_ok cn"
    "s1 = (upd_client c (\<lambda>cl. cl\<lparr>c_connection := cn\<rparr>) ?s0)\<lparr>s_os := w\<rparr>"
    using client_flush_spec [of ?s0 c cl s1] s0 cl conn flush by (auto simp: same_frame_def)
  let ?cl1 = "cl\<lparr>c_connection := cn\<rparr>"
  have c1: "s_client s1 = (s_client s)(c \<mapsto> ?cl1)" and r1: "s_res s1 = s_res s" using f(3) s0 cl by simp_all
  have fr: "d_loop s1 = d_loop s" "d_clients s1 = d_clients s" "d_tmp_clients s1 = d_tmp_clients s" "s_os s1 = w"
    using f(3) s0(3) by (simp_all add: same_frame_def upd_client_def)
  have own1: "owned s1 c (map_pairs (c_objects ?cl1))" using own r1 by (simp add: owned_def)
  have c1': "s_client s1 c = Some ?cl1" using c1 by simp
  obtain s2 cl2 where s2: "wl_map_for_each (client_map c) (destroy_element env c) (Some s1) = Some s2"
    "same_frame s1 s2" "s_client s2 = (s_client s1)(c \<mapsto> cl2)" "same_client ?cl1 cl2"
    "s_res s2 = without (freed (map_pairs (c_objects ?cl1))) (s_res s1)"
    using destroy_all [OF q c1' own1] by blast
  have cl2: "c_connection cl2 = cn" "c_source cl2 = c_source cl" using s2(4) by (simp_all add: same_client_def)
  obtain lp where lp: "wl_event_source_remove (Timespec 0 0) True (unat (c_source cl)) (d_loop s) = Some lp"
    using source_remove_other [OF src] by (simp add: Let_def)
  have d2: "d_loop s2 = d_loop s" "d_clients s2 = d_clients s" "d_tmp_clients s2 = d_tmp_clients s" "s_os s2 = w"
    using s2(2) fr by (simp_all add: same_frame_def)
  obtain fd w' where cd: "wl_connection_destroy cn w = (fd, w')" by fastforce
  note cd' = wl_connection_destroy_closes [OF f(2) cd]
  let ?s3 = "s2\<lparr>d_loop := lp\<rparr>"
  let ?s' = "?s3\<lparr>s_os := sys_close fd w', d_clients := removeAll c (d_clients ?s3),
                d_tmp_clients := removeAll c (d_tmp_clients ?s3), s_client := (s_client ?s3)(c := None)\<rparr>"
  have "wl_client_destroy env c s = Some ?s'"
    using cl flush s2(1,3) cl2 d2 lp cd by (simp add: wl_client_destroy_def remove_source_def)
  moreover have "client_gone env c cl src s ?s'"
    using s2(3,5) c1 r1 d2 lp cd' f(1)
    by (auto simp: client_gone_def sys_close_def out_step_def)
  ultimately show ?thesis by blast
qed

text \<open>C4: Destroying a client leaves nothing of it: every resource that its id map names is freed
  and no other one, its socket and every descriptor still queued in either direction are closed
  exactly once, its event source is removed, it is taken off the client lists, and no other client
  changes.\<close>

theorem client_destroy_complete:
  assumes q: "calm_env env" and cl: "s_client s c = Some cl" and conn: "conn_ok (c_connection cl)"
    and own: "owned s c (map_pairs (c_objects cl))"
    and src: "el_src (d_loop s) (unat (c_source cl)) = Some src" "s_iface src \<noteq> TimerInterface"
    and flush: "wl_client_flush c (notify env (ClientDestroyListeners c) s) \<noteq> None"
  shows "\<exists>s'. wl_client_destroy env c s = Some s' \<and> s_client s' = (s_client s)(c := None) \<and>
    (\<forall>r. s_res s' r = (if r \<in> freed (map_pairs (c_objects cl)) then None else s_res s r)) \<and>
    c \<notin> set (d_clients s') \<and> set (d_clients s') = set (d_clients s) - {c} \<and>
    closed (s_os s') = closed (s_os s) @ fds_list (fds_out (c_connection cl)) @
      fds_list (fds_in (c_connection cl)) @ [conn_fd (c_connection cl)] \<and>
    unat (c_source cl) \<in> set (destroy_list (d_loop s')) \<and>
    unat (c_source cl) \<notin> set (check_list (d_loop s')) \<union> set (idle_list (d_loop s'))"
proof -
  obtain s1 where "wl_client_flush c (notify env (ClientDestroyListeners c) s) = Some s1" using flush by blast
  from client_destroy_spec [OF q cl conn own src this] obtain s' where
    s': "wl_client_destroy env c s = Some s'" "client_gone env c cl src s s'" by blast
  obtain lp where lp: "wl_event_source_remove (Timespec 0 0) True (unat (c_source cl)) (d_loop s) = Some lp" "d_loop s' = lp"
    using s'(2) by (auto simp: client_gone_def)
  have "unat (c_source cl) \<in> set (destroy_list lp)" "unat (c_source cl) \<notin> set (check_list lp) \<union> set (idle_list lp)"
    using lp(1) source_remove_other [OF src, of "Timespec 0 0" True] by (auto simp: Let_def unlink_source_def)
  with s' lp(2) show ?thesis by (auto simp: client_gone_def without_def)
qed

lemma calm_sample: "calm_env sample_env"
  by (simp add: calm_env_def quiet_env_def notify_def sample_env_def)

lemma sample_pairs: "map_pairs (c_objects (sample_client 16 32)) = [(16, 0), (32, 0)]"
  by (simp add: map_pairs_def sample_client_def live_pairs_def map_entry_is_free_def map_entry_get_data_def
      map_entry_get_flags_def)

lemma client_destroy_complete_witness:
  "\<exists>s'. wl_client_destroy sample_env 4096 sample_server = Some s' \<and> s_client s' 4096 = None \<and>
     s_res s' 32 = None \<and> s_res s' 64 = Some (sample_res 2 2 8192) \<and> closed (s_os s') = [7]"
proof -
  have n: "notify sample_env u s = s" for u s by (simp add: notify_def sample_env_def)
  have cn: "c_connection (sample_client 16 32) = sample_conn" "c_source (sample_client 16 32) = 100"
    by (simp_all add: sample_client_def)
  have "owned sample_server 4096 (map_pairs (c_objects (sample_client 16 32)))"
    by (simp add: owned_def sample_pairs sample_server_simps sample_res_def)
  moreover have "wl_client_flush 4096 (notify sample_env (ClientDestroyListeners 4096) sample_server) \<noteq> None"
    by (simp add: n wl_client_flush_def client_flush_def sample_server_simps cn wl_connection_flush_def
        sample_conn_def fatal_def)
  moreover have "el_src (d_loop sample_server) (unat (c_source (sample_client 16 32))) =
      Some \<lparr>s_iface = FdInterface 11 6, s_fd = 7, s_data = 5\<rparr>"
    by (simp add: sample_server_def cn)
  moreover have "conn_ok (c_connection (sample_client 16 32))" by (simp add: cn)
  ultimately show ?thesis
    using client_destroy_complete [OF calm_sample sample_server_simps(4)]
    by (fastforce simp: cn sample_pairs sample_server_simps os_init_def WL_MAP_ENTRY_LEGACY_def)
qed

end
