(* ===== verification/Framing.thy ===== *)
theory Framing
  imports Client
begin

text \<open>
  What the loop of \<open>wl_client_connection_data\<close> (wayland-server/wayland-server.c) delivers to a
  wire message function that takes every message: a reference splitting of a byte stream into
  messages, and the proof that the loop over the ring buffer computes it, including the inputs on
  which it never returns.
\<close>

section \<open>The reference\<close>

text \<open>The two words of a header: the object, and the size and opcode.\<close>

definition header_id :: "u8 list \<Rightarrow> u32" where
  "header_id bs = words_of (take 8 bs) ! 0"

definition header_size :: "u8 list \<Rightarrow> nat" where
  "header_size bs = unat (drop_bit 16 (words_of (take 8 bs) ! 1))"

definition header_opcode :: "u8 list \<Rightarrow> u32" where
  "header_opcode bs = words_of (take 8 bs) ! 1 AND 0xffff"

type_synonym frame = "u8 list \<times> u32 \<times> u32"

text \<open>
  The messages at the start of a stream and the bytes after the last complete one; a header that
  gives the size 0 has no end.
\<close>

function frames :: "u8 list \<Rightarrow> (frame list \<times> u8 list) option" where
  "frames bs =
     (if length bs < 8 \<or> length bs < header_size bs then Some ([], bs)
      else if header_size bs = 0 then None
      else map_option (\<lambda>(fs, r). ((take (header_size bs) bs, header_id bs, header_opcode bs) # fs, r))
             (frames (drop (header_size bs) bs)))"
  by pat_completeness auto
termination by (relation "measure length") auto

declare frames.simps [simp del]

lemma frames_short: "length bs < 8 \<or> length bs < header_size bs \<Longrightarrow> frames bs = Some ([], bs)"
  by (simp add: frames.simps)

lemma frames_zero: "8 \<le> length bs \<Longrightarrow> header_size bs = 0 \<Longrightarrow> frames bs = None"
  by (simp add: frames.simps)

lemma frames_next:
  "8 \<le> length bs \<Longrightarrow> header_size bs \<le> length bs \<Longrightarrow> header_size bs \<noteq> 0 \<Longrightarrow>
   frames bs = map_option (\<lambda>(fs, r). ((take (header_size bs) bs, header_id bs, header_opcode bs) # fs, r))
     (frames (drop (header_size bs) bs))"
  by (subst frames.simps) simp

lemma frames_concat: "frames bs = Some (fs, r) \<Longrightarrow> bs = concat (map fst fs) @ r"
proof (induction bs arbitrary: fs r rule: frames.induct)
  case (1 bs)
  show ?case
  proof (cases "length bs < 8 \<or> length bs < header_size bs")
    case True
    then show ?thesis using "1.prems" by (simp add: frames_short)
  next
    case False
    then have nz: "header_size bs \<noteq> 0" using "1.prems" frames_zero [of bs] by auto
    obtain gs where g: "frames (drop (header_size bs) bs) = Some (gs, r)"
      "fs = (take (header_size bs) bs, header_id bs, header_opcode bs) # gs"
      using "1.prems" False nz by (auto simp: frames_next)
    show ?thesis using "1.IH" [OF False nz g(1)] g(2) by simp (metis append_take_drop_id)
  qed
qed

section \<open>One message\<close>

definition input_of :: "wl_client \<Rightarrow> u8 list" where
  "input_of cl = rb_content (in_buf (c_connection cl))"

text \<open>
  A wire message function that takes every message of the client \<open>c\<close>: it may do anything but
  touch the client's input and its own registration, or make the allocator fail.
\<close>

definition takes_all :: "env \<Rightarrow> u64 \<Rightarrow> bool" where
  "takes_all env c \<longleftrightarrow> (\<forall>f buf i opcode s. fst (e_hook env (WireMessage f c buf i opcode) s) = 0 \<and>
     (alloc_script (s_os s) = [] \<longrightarrow> alloc_script (s_os (snd (e_hook env (WireMessage f c buf i opcode) s))) = []) \<and>
     (\<forall>cl. s_client s c = Some cl \<longrightarrow>
        (\<exists>cl1. s_client (snd (e_hook env (WireMessage f c buf i opcode) s)) c = Some cl1 \<and>
           in_buf (c_connection cl1) = in_buf (c_connection cl) \<and> c_wire_message_cb cl1 = c_wire_message_cb cl)))"

text \<open>Offering one message and dropping it from the input.\<close>

definition offer :: "env \<Rightarrow> u64 \<Rightarrow> u64 \<Rightarrow> frame \<Rightarrow> server \<Rightarrow> server" where
  "offer env c f m s =
     (case m of (buf, i, opcode) \<Rightarrow>
        upd_client c (\<lambda>cl. cl\<lparr>c_connection := wl_connection_consume (c_connection cl) (length buf)\<rparr>)
          (snd (e_hook env (WireMessage f c buf i opcode) s)))"

definition reading :: "u64 \<Rightarrow> u64 \<Rightarrow> u8 list \<Rightarrow> server \<Rightarrow> bool" where
  "reading c f bs s \<longleftrightarrow> alloc_script (s_os s) = [] \<and>
     (\<exists>cl. s_client s c = Some cl \<and> c_wire_message_cb cl = f \<and> rb_ok (in_buf (c_connection cl)) \<and> input_of cl = bs)"

lemma sint_small_nat: "unat x = n \<Longrightarrow> n < 2 ^ 31 \<Longrightarrow> sint x = int n" for x :: u32
  by (simp add: sint_uint signed_take_bit_int_eq_self uint_nat)

lemma pending_input_length: "rb_ok (in_buf (c_connection cl)) \<Longrightarrow> pending_input cl = int (length (input_of cl))"
proof -
  assume ok: "rb_ok (in_buf (c_connection cl))"
  let ?b = "in_buf (c_connection cl)"
  have u: "unat (ring_buffer_size ?b) = rb_count ?b" by (rule unat_ring_buffer_size)
  have "rb_count ?b \<le> 4096" using ok by (simp add: rb_ok_def rb_capacity_def)
  then have "sint (ring_buffer_size ?b) = int (rb_count ?b)"
    using u by (intro sint_small_nat) simp_all
  then show ?thesis by (simp add: pending_input_def wl_connection_pending_input_def input_of_def)
qed

lemma header_bounded: "header_size bs < 65536"
proof -
  have "header_size bs = unat (words_of (take 8 bs) ! 1) div 2 ^ 16"
    by (simp add: header_size_def drop_bit_eq_div unat_div)
  moreover have "unat (words_of (take 8 bs) ! 1) < 2 ^ 32" by (rule unat_u32_bound)
  ultimately show ?thesis by simp
qed

text \<open>The loop body in terms of the reference's header.\<close>

lemma message_step_header:
  assumes cl: "s_client s c = Some cl" and r: "rb_ok (in_buf (c_connection cl))" "input_of cl = bs" "8 \<le> length bs"
  shows "message_step env c len s =
    (if len < int (header_size bs) then Some (False, len, s)
     else if c_wire_message_cb cl = 0 then
       dispatch_message env c (wl_map_lookup (c_objects cl) (header_id bs)) (wl_map_lookup_flags (c_objects cl) (header_id bs))
         (header_id bs) (header_opcode bs) (drop_bit 16 (words_of (take 8 bs) ! 1)) s \<bind>
       (\<lambda>(continue, s2). s_client s2 c \<bind> (\<lambda>cl2. Some (continue, pending_input cl2, s2)))
     else (case sys_malloc (s_os s) of (mem, w) \<Rightarrow>
       if \<not> mem \<and> header_size bs \<noteq> 0 then None
       else case e_hook env (WireMessage (c_wire_message_cb cl) c (wl_connection_copy (c_connection cl) (header_size bs))
           (header_id bs) (header_opcode bs)) (s\<lparr>s_os := w\<rparr>) of
         (ret, s1) \<Rightarrow>
           if ret = 0 then s_client s1 c \<bind>
             (\<lambda>cl1. let cl2 = cl1\<lparr>c_connection := wl_connection_consume (c_connection cl1) (header_size bs)\<rparr>
                    in Some (True, pending_input cl2, s1\<lparr>s_client := (s_client s1)(c := Some cl2)\<rparr>))
           else dispatch_message env c (wl_map_lookup (c_objects cl) (header_id bs)) (wl_map_lookup_flags (c_objects cl) (header_id bs))
             (header_id bs) (header_opcode bs) (drop_bit 16 (words_of (take 8 bs) ! 1)) s1 \<bind>
             (\<lambda>(continue, s2). s_client s2 c \<bind> (\<lambda>cl2. Some (continue, pending_input cl2, s2)))))"
proof -
  have cp: "wl_connection_copy (c_connection cl) 8 = take 8 bs"
    using r by (auto simp: wl_connection_copy_def input_of_def intro!: ring_buffer_copy_content)
  have u: "uint (drop_bit 16 (words_of (take 8 bs) ! 1)) = int (header_size bs)"
    "unat (drop_bit 16 (words_of (take 8 bs) ! 1)) = header_size bs"
    "drop_bit 16 (words_of (take 8 bs) ! 1) = 0 \<longleftrightarrow> header_size bs = 0"
    by (simp_all add: header_size_def unat_eq_0)
  show ?thesis
    unfolding message_step_def cl bind.bind_lunit cp Let_def u header_id_def [symmetric] header_opcode_def [symmetric]
    by (simp add: u split: prod.splits)
qed

lemma message_step_short:
  assumes "reading c f bs s" "8 \<le> length bs" "length bs < header_size bs"
  shows "message_step env c (int (length bs)) s = Some (False, int (length bs), s)"
proof -
  obtain cl where cl: "s_client s c = Some cl" "rb_ok (in_buf (c_connection cl))" "input_of cl = bs"
    using assms(1) by (auto simp: reading_def)
  show ?thesis
    unfolding message_step_header [OF cl assms(2)] using assms(3) by simp
qed

lemma message_step_taken:
  assumes t: "takes_all env c" and r: "reading c f bs s" and f: "f \<noteq> 0" and len: "8 \<le> length bs" "header_size bs \<le> length bs"
  shows "\<exists>s1. message_step env c (int (length bs)) s = Some (True, int (length bs - header_size bs), s1) \<and>
    s1 = offer env c f (take (header_size bs) bs, header_id bs, header_opcode bs) s \<and>
    reading c f (drop (header_size bs) bs) s1"
proof -
  obtain cl where cl: "s_client s c = Some cl" "rb_ok (in_buf (c_connection cl))" "input_of cl = bs"
    "c_wire_message_cb cl = f" "alloc_script (s_os s) = []"
    using r by (auto simp: reading_def)
  let ?n = "header_size bs"
  have cp: "wl_connection_copy (c_connection cl) ?n = take ?n bs"
    using cl(2,3) len by (auto simp: wl_connection_copy_def input_of_def intro!: ring_buffer_copy_content)
  obtain ret s1 where h: "e_hook env (WireMessage f c (take ?n bs) (header_id bs) (header_opcode bs)) s = (ret, s1)"
    by fastforce
  note tk = t [unfolded takes_all_def, rule_format, of f "take ?n bs" "header_id bs" "header_opcode bs" s]
  obtain cl1 where c1: "s_client s1 c = Some cl1" "in_buf (c_connection cl1) = in_buf (c_connection cl)"
    "c_wire_message_cb cl1 = f" "ret = 0" "alloc_script (s_os s1) = []"
    using tk cl h by auto
  let ?cl2 = "cl1\<lparr>c_connection := wl_connection_consume (c_connection cl1) ?n\<rparr>"
  let ?s2 = "s1\<lparr>s_client := (s_client s1)(c := Some ?cl2)\<rparr>"
  have cnt: "rb_count (in_buf (c_connection cl)) = length bs" using cl(3) by (metis input_of_def length_rb_content)
  have ok2: "rb_ok (in_buf (c_connection ?cl2))" "input_of ?cl2 = drop ?n bs"
    using cl(2,3) c1(2) cnt len(2)
    by (simp_all add: wl_connection_consume_def input_of_def rb_ok_consume rb_content_consume)
  have "pending_input ?cl2 = int (length bs - ?n)"
    using pending_input_length [OF ok2(1)] ok2(2) by simp
  then have "message_step env c (int (length bs)) s = Some (True, int (length bs - ?n), ?s2)"
    unfolding message_step_header [OF cl(1-3) len(1)] cp cl(4) using len(2) f h c1(1,4) cl(5)
    by (simp add: sys_malloc_def Let_def)
  moreover have "?s2 = offer env c f (take ?n bs, header_id bs, header_opcode bs) s"
    using h c1(1) len(2) by (simp add: offer_def upd_client_def)
  moreover have "reading c f (drop ?n bs) ?s2" using c1(3,5) ok2 by (simp add: reading_def)
  ultimately show ?thesis by blast
qed

section \<open>The loop\<close>

lemma message_loop_stop: "len < 8 \<Longrightarrow> message_loop env c len s = Some s"
  by (subst message_loop.simps) simp

lemma message_loop_step:
  "8 \<le> len \<Longrightarrow> message_loop env c len s =
     message_step env c len s \<bind> (\<lambda>(continue, len1, s1). if continue then message_loop env c len1 s1 else Some s1)"
  by (subst message_loop.simps) simp

lemma message_loop_frames:
  assumes t: "takes_all env c" and f: "f \<noteq> 0"
  shows "reading c f bs s \<Longrightarrow> frames bs = Some (fs, r) \<Longrightarrow>
    message_loop env c (int (length bs)) s = Some (fold (offer env c f) fs s) \<and>
    reading c f r (fold (offer env c f) fs s)"
proof (induction bs arbitrary: s fs r rule: frames.induct)
  case (1 bs)
  show ?case
  proof (cases "length bs < 8 \<or> length bs < header_size bs")
    case True
    then have fs: "fs = []" "r = bs" using "1.prems"(2) by (simp_all add: frames_short)
    show ?thesis
    proof (cases "length bs < 8")
      case True
      then show ?thesis using fs "1.prems"(1) by (simp add: message_loop_stop)
    next
      case False
      then show ?thesis using True fs "1.prems"(1) message_step_short [OF "1.prems"(1)]
        by (simp add: message_loop_step)
    qed
  next
    case False
    then have nz: "header_size bs \<noteq> 0" and len: "8 \<le> length bs" "header_size bs \<le> length bs"
      using "1.prems"(2) frames_zero [of bs] by auto
    obtain gs where g: "frames (drop (header_size bs) bs) = Some (gs, r)"
      "fs = (take (header_size bs) bs, header_id bs, header_opcode bs) # gs"
      using "1.prems"(2) len nz by (auto simp: frames_next)
    obtain s1 where s1: "message_step env c (int (length bs)) s = Some (True, int (length bs - header_size bs), s1)"
      "s1 = offer env c f (take (header_size bs) bs, header_id bs, header_opcode bs) s"
      "reading c f (drop (header_size bs) bs) s1"
      using message_step_taken [OF t "1.prems"(1) f len] by blast
    note ih = "1.IH" [OF False nz s1(3) g(1)]
    have "message_loop env c (int (length bs)) s = message_loop env c (int (length bs - header_size bs)) s1"
      using len(1) s1(1) by (simp add: message_loop_step)
    then show ?thesis using ih by (simp add: g(2) s1(2))
  qed
qed

lemma message_loop_diverges:
  assumes t: "takes_all env c" and f: "f \<noteq> 0"
    and run: "message_loop env c len s = Some y"
  shows "env = env \<longrightarrow> c = c \<longrightarrow>
    (\<forall>bs. len = int (length bs) \<longrightarrow> reading c f bs s \<longrightarrow> frames bs = None \<longrightarrow> False)"
proof (rule message_loop.raw_induct [where P = "\<lambda>env' c' len s y. env' = env \<longrightarrow> c' = c \<longrightarrow>
    (\<forall>bs. len = int (length bs) \<longrightarrow> reading c f bs s \<longrightarrow> frames bs = None \<longrightarrow> False)", OF _ run], intro impI allI)
  fix loop env' c' len s y bs
  assume IH: "\<And>env' c' len s y. loop env' c' len s = Some y \<Longrightarrow> env' = env \<longrightarrow> c' = c \<longrightarrow>
      (\<forall>bs. len = int (length bs) \<longrightarrow> reading c f bs s \<longrightarrow> frames bs = None \<longrightarrow> False)"
    and step: "(if 0 \<le> len \<and> 8 \<le> len then message_step env' c' len s \<bind>
        (\<lambda>(continue, len1, s1). if continue then loop env' c' len1 s1 else Some s1) else Some s) = Some y"
    and e: "env' = env" "c' = c" and bs: "len = int (length bs)" "reading c f bs s" "frames bs = None"
  have len: "8 \<le> length bs" "header_size bs \<le> length bs"
    using bs(3) frames_short [of bs] by (auto simp: not_less [symmetric])
  obtain s1 where s1: "message_step env c (int (length bs)) s = Some (True, int (length bs - header_size bs), s1)"
    "reading c f (drop (header_size bs) bs) s1"
    using message_step_taken [OF t bs(2) f len] by blast
  have "loop env c (int (length (drop (header_size bs) bs))) s1 = Some y"
    using step s1(1) bs(1) len(1) e by simp
  moreover have "frames (drop (header_size bs) bs) = None"
    using bs(3) frames_next [OF len] by (cases "header_size bs = 0") auto
  ultimately show False using IH s1(2) by blast
qed

section \<open>Properties\<close>

text \<open>C3: With a wire message function that takes every message, reading a client's input hands it
  exactly the messages of the byte stream, in order and unchanged, and keeps the bytes of an
  incomplete message: the messages followed by the rest are the input.  When a header gives the
  size 0 the loop never returns.\<close>

theorem wire_messages_framed:
  assumes t: "takes_all env c" and cl: "s_client s c = Some cl" "c_wire_message_cb cl \<noteq> 0"
    and ok: "rb_ok (in_buf (c_connection cl))" "alloc_script (s_os s) = []"
  shows "case frames (input_of cl) of
      Some (fs, r) \<Rightarrow> input_of cl = concat (map fst fs) @ r \<and>
        (\<exists>s' cl'. message_loop env c (pending_input cl) s = Some s' \<and>
           s' = fold (offer env c (c_wire_message_cb cl)) fs s \<and>
           s_client s' c = Some cl' \<and> input_of cl' = r)
    | None \<Rightarrow> message_loop env c (pending_input cl) s = None"
proof -
  let ?f = "c_wire_message_cb cl" and ?bs = "input_of cl"
  have rd: "reading c ?f ?bs s" using cl ok by (simp add: reading_def)
  have p: "pending_input cl = int (length ?bs)" by (rule pending_input_length [OF ok(1)])
  show ?thesis
  proof (cases "frames ?bs")
    case None
    then have "message_loop env c (int (length ?bs)) s = None"
      using message_loop_diverges [OF t cl(2), of "int (length ?bs)" s] rd
      by (cases "message_loop env c (int (length ?bs)) s") blast+
    with None show ?thesis by (simp add: p)
  next
    case (Some x)
    obtain fs r where x: "x = (fs, r)" by fastforce
    note l = message_loop_frames [OF t cl(2) rd Some [unfolded x]]
    note cc = frames_concat [OF Some [unfolded x]]
    show ?thesis unfolding Some x option.case prod.case p using cc l unfolding reading_def by blast
  qed
qed

text \<open>A client with one message and two bytes of the next in its input.\<close>

definition wire_input :: "u8 list \<Rightarrow> wl_ring_buffer" where
  "wire_input bs = \<lparr>rb_data = bs @ replicate (4096 - length bs) 0, head = of_nat (length bs), tail = 0\<rparr>"

lemma wire_input_content:
  assumes "length bs \<le> 4096"
  shows "rb_ok (wire_input bs)" "rb_content (wire_input bs) = bs"
proof -
  have n: "unat (of_nat (length bs) :: u32) = length bs" using assms by (rule rb_count_le_u32)
  then show "rb_ok (wire_input bs)"
    using assms by (simp add: rb_ok_def wire_input_def rb_count_def rb_capacity_def)
  show "rb_content (wire_input bs) = bs"
    using assms n by (intro nth_equalityI) (simp_all add: rb_content_def wire_input_def rb_count_def nth_append)
qed

definition wire_client :: "u8 list \<Rightarrow> wl_client" where
  "wire_client bs = (sample_client 16 32)\<lparr>c_wire_message_cb := 77, c_connection := sample_conn\<lparr>in_buf := wire_input bs\<rparr>\<rparr>"

definition wire_server :: "u8 list \<Rightarrow> server" where
  "wire_server bs = sample_server\<lparr>s_client := (s_client sample_server)(4096 \<mapsto> wire_client bs)\<rparr>"

lemma takes_all_sample: "takes_all sample_env c"
  by (simp add: takes_all_def sample_env_def)

lemma frames_example: "frames [1, 0, 0, 0, 5, 0, 8, 0, 1, 0] = Some ([([1, 0, 0, 0, 5, 0, 8, 0], 1, 5)], [1, 0])"
  by (subst frames_next) (simp_all add: header_size_def header_id_def header_opcode_def bytes_u32_def frames_short)

lemma frames_hang: "frames [1, 0, 0, 0, 5, 0, 0, 0] = None"
  by (rule frames_zero) (simp_all add: header_size_def bytes_u32_def)

lemma wire_messages_framed_witness:
  "message_loop sample_env 4096 10 (wire_server [1, 0, 0, 0, 5, 0, 8, 0, 1, 0]) =
     Some (offer sample_env 4096 77 ([1, 0, 0, 0, 5, 0, 8, 0], 1, 5) (wire_server [1, 0, 0, 0, 5, 0, 8, 0, 1, 0])) \<and>
   message_loop sample_env 4096 8 (wire_server [1, 0, 0, 0, 5, 0, 0, 0]) = None"
proof -
  have cl: "s_client (wire_server bs) 4096 = Some (wire_client bs)" "c_wire_message_cb (wire_client bs) = 77"
    "alloc_script (s_os (wire_server bs)) = []" "in_buf (c_connection (wire_client bs)) = wire_input bs" for bs
    by (simp_all add: wire_server_def wire_client_def sample_server_simps os_init_def)
  have w: "case frames bs of
      Some (fs, r) \<Rightarrow> message_loop sample_env 4096 (int (length bs)) (wire_server bs) =
        Some (fold (offer sample_env 4096 77) fs (wire_server bs))
    | None \<Rightarrow> message_loop sample_env 4096 (int (length bs)) (wire_server bs) = None" if b: "length bs \<le> 4096" for bs
  proof -
    have ok: "rb_ok (in_buf (c_connection (wire_client bs)))" "input_of (wire_client bs) = bs"
      using wire_input_content [OF b] cl by (simp_all add: input_of_def)
    show ?thesis
      using wire_messages_framed [OF takes_all_sample cl(1) _ ok(1) cl(3)] cl(2) ok(2) pending_input_length [OF ok(1)]
      by (auto split: option.splits)
  qed
  show ?thesis
    using w [of "[1, 0, 0, 0, 5, 0, 8, 0, 1, 0]"] w [of "[1, 0, 0, 0, 5, 0, 0, 0]"]
    by (simp add: frames_example frames_hang)
qed

text \<open>So a client can stop the whole event loop with a header of size 0.\<close>

lemma zero_size_message_hangs:
  assumes t: "takes_all env c" and io: "client_io env c msk s = Some (Inr (pending_input cl, s1))"
    and cl: "s_client s1 c = Some cl" "c_wire_message_cb cl \<noteq> 0" "rb_ok (in_buf (c_connection cl))"
    and "alloc_script (s_os s1) = []" "8 \<le> length (input_of cl)" "header_size (input_of cl) = 0"
  shows "wl_client_connection_data env c msk s = None"
proof -
  have "reading c (c_wire_message_cb cl) (input_of cl) s1" using assms by (simp add: reading_def)
  then have "message_loop env c (pending_input cl) s1 = None"
    using message_loop_diverges [OF t cl(2), of "pending_input cl" s1] frames_zero [OF assms(7,8)]
      pending_input_length [OF cl(3)]
    by (cases "message_loop env c (pending_input cl) s1") blast+
  then show ?thesis by (simp add: wl_client_connection_data_def io)
qed

end
