(* ===== verification/Shm.thy ===== *)
theory Shm
  imports Client
begin

text \<open>
  Shared memory pools and buffers, wayland-server/wayland-shm.c: the reference counts that keep a
  pool mapped, the bounds of buffers within their pool, growing a pool, and the protection of
  accesses against SIGBUS.  The address space is the map \<open>sh_mapped\<close> from the start of a mapping to
  its length; the mappings in \<open>sh_anon\<close> are anonymous memory, the others belong to the file of a
  client.  The results of \<open>mmap\<close> and \<open>mremap\<close> are arguments of the operations.  \<open>None\<close> is a failed
  assertion, a signed overflow or the use of a freed object.
\<close>

section \<open>State\<close>

record wl_shm_pool =
  p_resource :: u64
  p_internal :: int
  p_external :: int
  p_data :: u64
  p_size :: int
  p_new_size :: int
  p_fd :: fd
  p_sigbus_impossible :: bool
  p_mappings :: "(u64 \<times> int) list"

record wl_shm_buffer =
  b_resource :: u64
  b_width :: int
  b_height :: int
  b_stride :: int
  b_format :: u32
  b_offset :: int
  b_pool :: u64

record wl_shm_sigbus_data =
  current_pool :: u64
  access_count :: int
  fallback_mapping_used :: bool

text \<open>
  \<open>sh_sigbus\<close> is the data of the running thread, \<open>sh_raised\<close> tells that SIGBUS was raised again,
  \<open>sh_anon\<close> holds the starts of the mappings that are anonymous memory.
\<close>

record shm =
  sh_server :: server
  sh_pool :: "u64 \<Rightarrow> wl_shm_pool option"
  sh_buffer :: "u64 \<Rightarrow> wl_shm_buffer option"
  sh_mapped :: "u64 \<Rightarrow> int option"
  sh_anon :: "u64 set"
  sh_sigbus :: "wl_shm_sigbus_data option"
  sh_raised :: bool

text \<open>The addresses of the interfaces, implementations and destructors that resources are given.\<close>

record shm_addrs =
  wl_buffer_interface :: u64
  wl_shm_pool_interface :: u64
  wl_shm_interface :: u64
  shm_buffer_interface :: u64
  shm_pool_interface :: u64
  shm_interface :: u64
  destroy_buffer_fn :: u64
  destroy_pool_fn :: u64
  bind_shm_fn :: u64

definition WL_SHM_FORMAT_ARGB8888 :: u32 where "WL_SHM_FORMAT_ARGB8888 = 0"
definition WL_SHM_FORMAT_XRGB8888 :: u32 where "WL_SHM_FORMAT_XRGB8888 = 1"
definition WL_SHM_ERROR_INVALID_FORMAT :: u32 where "WL_SHM_ERROR_INVALID_FORMAT = 0"
definition WL_SHM_ERROR_INVALID_STRIDE :: u32 where "WL_SHM_ERROR_INVALID_STRIDE = 1"
definition WL_SHM_ERROR_INVALID_FD :: u32 where "WL_SHM_ERROR_INVALID_FD = 2"
definition WL_SHM_FORMAT :: u32 where "WL_SHM_FORMAT = 0"

text \<open>The conversion \<open>%x\<close>.\<close>

fun hex_nat :: "nat \<Rightarrow> string" where
  "hex_nat n =
     (let d = n mod 16; c = (if d < 10 then char_of (48 + d) else char_of (87 + d)) in
      if n < 16 then [c] else hex_nat (n div 16) @ [c])"

declare hex_nat.simps [simp del]

definition INT32_MAX :: int where "INT32_MAX = 2147483647"

definition MAP_FAILED :: u64 where "MAP_FAILED = - 1"

definition with_server :: "server option \<Rightarrow> shm \<Rightarrow> shm option" where
  "with_server so sh = map_option (\<lambda>s. sh\<lparr>sh_server := s\<rparr>) so"

definition set_pool :: "u64 \<Rightarrow> wl_shm_pool option \<Rightarrow> shm \<Rightarrow> shm" where
  "set_pool p v sh = sh\<lparr>sh_pool := (sh_pool sh)(p := v)\<rparr>"

definition set_buffer :: "u64 \<Rightarrow> wl_shm_buffer option \<Rightarrow> shm \<Rightarrow> shm" where
  "set_buffer b v sh = sh\<lparr>sh_buffer := (sh_buffer sh)(b := v)\<rparr>"

definition unmap :: "u64 \<Rightarrow> shm \<Rightarrow> shm" where
  "unmap a sh = sh\<lparr>sh_mapped := (sh_mapped sh)(a := None), sh_anon := sh_anon sh - {a}\<rparr>"

definition map_at :: "u64 \<Rightarrow> int \<Rightarrow> shm \<Rightarrow> shm" where
  "map_at a n sh = sh\<lparr>sh_mapped := (sh_mapped sh)(a := Some n), sh_anon := sh_anon sh - {a}\<rparr>"

definition map_anonymous :: "u64 \<Rightarrow> int \<Rightarrow> shm \<Rightarrow> shm" where
  "map_anonymous a n sh = sh\<lparr>sh_mapped := (sh_mapped sh)(a := Some n), sh_anon := insert a (sh_anon sh)\<rparr>"

section \<open>Reference counts\<close>

definition unmap_all :: "(u64 \<times> int) list \<Rightarrow> shm \<Rightarrow> shm" where
  "unmap_all ms sh = fold (\<lambda>(a, _). unmap a) ms sh"

definition shm_pool_unref :: "u64 \<Rightarrow> bool \<Rightarrow> shm \<Rightarrow> shm option" where
  "shm_pool_unref p external sh = do {
     pool \<leftarrow> sh_pool sh p;
     (pool1, sh1) \<leftarrow>
       (if external then
          let n = p_external pool - 1 in
          if n < 0 then None
          else if n = 0 then Some (pool\<lparr>p_external := n, p_mappings := []\<rparr>, unmap_all (p_mappings pool) sh)
          else Some (pool\<lparr>p_external := n\<rparr>, sh)
        else
          let n = p_internal pool - 1 in
          if n < 0 then None else Some (pool\<lparr>p_internal := n\<rparr>, sh));
     if p_internal pool1 + p_external pool1 > 0 then Some (set_pool p (Some pool1) sh1)
     else Some (set_pool p None
       ((unmap (p_data pool1) sh1)\<lparr>sh_server := (sh_server sh1)\<lparr>s_os := sys_close (p_fd pool1) (s_os (sh_server sh1))\<rparr>\<rparr>)) }"

definition destroy_buffer :: "u64 \<Rightarrow> shm \<Rightarrow> shm option" where
  "destroy_buffer resource sh = do {
     b \<leftarrow> wl_resource_get_user_data resource (sh_server sh);
     buffer \<leftarrow> sh_buffer sh b;
     sh1 \<leftarrow> shm_pool_unref (b_pool buffer) False sh;
     Some (set_buffer b None sh1) }"

definition destroy_pool :: "u64 \<Rightarrow> shm \<Rightarrow> shm option" where
  "destroy_pool resource sh = do {
     p \<leftarrow> wl_resource_get_user_data resource (sh_server sh);
     shm_pool_unref p False sh }"

definition wl_shm_buffer_ref_pool :: "u64 \<Rightarrow> shm \<Rightarrow> (u64 \<times> shm) option" where
  "wl_shm_buffer_ref_pool b sh = do {
     buffer \<leftarrow> sh_buffer sh b;
     pool \<leftarrow> sh_pool sh (b_pool buffer);
     if p_internal pool + p_external pool = 0 then None
     else Some (b_pool buffer, set_pool (b_pool buffer) (Some (pool\<lparr>p_external := p_external pool + 1\<rparr>)) sh) }"

definition wl_shm_pool_unref :: "u64 \<Rightarrow> shm \<Rightarrow> shm option" where
  "wl_shm_pool_unref p sh = shm_pool_unref p True sh"

section \<open>Buffers\<close>

definition format_is_supported :: "u32 \<Rightarrow> server \<Rightarrow> bool" where
  "format_is_supported format s \<longleftrightarrow>
     format = WL_SHM_FORMAT_ARGB8888 \<or> format = WL_SHM_FORMAT_XRGB8888 \<or> format \<in> set (d_shm_formats s)"

text \<open>
  The test of the buffer's bounds; \<open>&&\<close> and \<open>||\<close> stop early, so the division has a positive divisor
  and the product does not overflow.
\<close>

definition buffer_rejected :: "int \<Rightarrow> int \<Rightarrow> int \<Rightarrow> int \<Rightarrow> int \<Rightarrow> bool" where
  "buffer_rejected pool_size offset width height stride \<longleftrightarrow>
     offset < 0 \<or> width \<le> 0 \<or> height \<le> 0 \<or> stride < width \<or> INT32_MAX div stride < height \<or>
     offset > pool_size - stride * height"

text \<open>\<open>b\<close> and \<open>ra\<close> are the addresses \<open>malloc\<close> returns for the buffer and for its resource.\<close>

definition shm_pool_create_buffer ::
  "env \<Rightarrow> shm_addrs \<Rightarrow> u64 \<Rightarrow> u64 \<Rightarrow> u64 \<Rightarrow> u64 \<Rightarrow> u32 \<Rightarrow> int \<Rightarrow> int \<Rightarrow> int \<Rightarrow> int \<Rightarrow> u32 \<Rightarrow> shm \<Rightarrow> shm option" where
  "shm_pool_create_buffer env ad b ra client resource i offset width height stride format sh = do {
     p \<leftarrow> wl_resource_get_user_data resource (sh_server sh);
     if \<not> format_is_supported format (sh_server sh) then
       with_server (wl_resource_post_error env resource WL_SHM_ERROR_INVALID_FORMAT
         (''invalid format 0x'' @ hex_nat (unat format)) (sh_server sh)) sh
     else do {
       pool \<leftarrow> sh_pool sh p;
       if buffer_rejected (p_size pool) offset width height stride then
         with_server (wl_resource_post_error env resource WL_SHM_ERROR_INVALID_STRIDE
           (''invalid width, height or stride ('' @ dec_int width @ ''x'' @ dec_int height @ '', '' @ dec_int stride @ '')'')
           (sh_server sh)) sh
       else if b = 0 then with_server (wl_client_post_no_memory env client (sh_server sh)) sh
       else do {
         let sh1 = set_pool p (Some (pool\<lparr>p_internal := p_internal pool + 1\<rparr>)) sh;
         (r, s1) \<leftarrow> wl_resource_create env ra client (wl_buffer_interface ad) 1 i (sh_server sh1);
         let sh2 = sh1\<lparr>sh_server := s1\<rparr>;
         if r = 0 then do {
           sh3 \<leftarrow> with_server (wl_client_post_no_memory env client s1) sh2;
           shm_pool_unref p False sh3 }
         else Some (set_buffer b (Some \<lparr>b_resource = r, b_width = width, b_height = height, b_stride = stride,
                b_format = format, b_offset = offset, b_pool = p\<rparr>)
              (sh2\<lparr>sh_server := wl_resource_set_implementation r (shm_buffer_interface ad) b (destroy_buffer_fn ad) s1\<rparr>)) } } }"

definition shm_buffer_destroy :: "env \<Rightarrow> u64 \<Rightarrow> shm \<Rightarrow> shm option" where
  "shm_buffer_destroy env resource sh = with_server (wl_resource_destroy env resource (sh_server sh)) sh"

definition wl_shm_buffer_get :: "env \<Rightarrow> shm_addrs \<Rightarrow> u64 \<Rightarrow> shm \<Rightarrow> u64 option" where
  "wl_shm_buffer_get env ad resource sh =
     (if resource = 0 then Some 0
      else do {
        inst \<leftarrow> wl_resource_instance_of env resource (wl_buffer_interface ad) (shm_buffer_interface ad) (sh_server sh);
        if inst then wl_resource_get_user_data resource (sh_server sh) else Some 0 })"

definition wl_shm_buffer_get_stride :: "u64 \<Rightarrow> shm \<Rightarrow> int option" where
  "wl_shm_buffer_get_stride b sh = map_option b_stride (sh_buffer sh b)"

definition wl_shm_buffer_get_data :: "u64 \<Rightarrow> shm \<Rightarrow> int option" where
  "wl_shm_buffer_get_data b sh = do {
     buffer \<leftarrow> sh_buffer sh b;
     pool \<leftarrow> sh_pool sh (b_pool buffer);
     Some (uint (p_data pool) + b_offset buffer) }"

definition wl_shm_buffer_get_format :: "u64 \<Rightarrow> shm \<Rightarrow> u32 option" where
  "wl_shm_buffer_get_format b sh = map_option b_format (sh_buffer sh b)"

definition wl_shm_buffer_get_width :: "u64 \<Rightarrow> shm \<Rightarrow> int option" where
  "wl_shm_buffer_get_width b sh = map_option b_width (sh_buffer sh b)"

definition wl_shm_buffer_get_height :: "u64 \<Rightarrow> shm \<Rightarrow> int option" where
  "wl_shm_buffer_get_height b sh = map_option b_height (sh_buffer sh b)"

section \<open>Pools\<close>

text \<open>
  \<open>mremap\<close> from the old size, or from 0, which keeps the old mapping; \<open>res\<close> is its result.  A
  mapping that is not kept moves or grows in place.  The new mapping is of the same memory.
\<close>

definition shm_pool_grow_mapping :: "u64 \<Rightarrow> wl_shm_pool \<Rightarrow> shm \<Rightarrow> u64 \<times> shm" where
  "shm_pool_grow_mapping res pool sh =
     (if res = MAP_FAILED then (res, sh)
      else (res, (if p_data pool \<in> sh_anon sh then map_anonymous else map_at) res (p_new_size pool)
                   (if p_external pool \<noteq> 0 then sh else unmap (p_data pool) sh)))"

text \<open>\<open>mem\<close> is the outcome of the allocation of the list element, which the code does not check.\<close>

definition shm_pool_resize :: "env \<Rightarrow> bool \<Rightarrow> u64 \<Rightarrow> u64 \<Rightarrow> int \<Rightarrow> shm \<Rightarrow> shm option" where
  "shm_pool_resize env mem res resource n sh = do {
     p \<leftarrow> wl_resource_get_user_data resource (sh_server sh);
     pool \<leftarrow> sh_pool sh p;
     if n < p_size pool then
       with_server (wl_resource_post_error env resource WL_SHM_ERROR_INVALID_FD ''shrinking pool invalid'' (sh_server sh)) sh
     else do {
       let pool1 = pool\<lparr>p_new_size := n\<rparr>;
       if p_size pool1 = p_new_size pool1 then Some (set_pool p (Some pool1) sh)
       else do {
         let (data, sh1) = shm_pool_grow_mapping res pool1 sh;
         let pool2 = (if p_external pool1 \<noteq> 0 \<and> data \<noteq> p_data pool1
                      then pool1\<lparr>p_mappings := (p_data pool1, p_size pool1) # p_mappings pool1\<rparr> else pool1);
         if p_external pool1 \<noteq> 0 \<and> data \<noteq> p_data pool1 \<and> \<not> mem then None
         else if data = MAP_FAILED then
           with_server (wl_resource_post_error env (p_resource pool2) WL_SHM_ERROR_INVALID_FD ''failed mremap'' (sh_server sh1))
             (set_pool p (Some pool2) sh1)
         else Some (set_pool p (Some (pool2\<lparr>p_data := data, p_size := p_new_size pool2\<rparr>)) sh1) } } }"

definition shm_pool_destroy :: "env \<Rightarrow> u64 \<Rightarrow> shm \<Rightarrow> shm option" where
  "shm_pool_destroy env resource sh = with_server (wl_resource_destroy env resource (sh_server sh)) sh"

text \<open>
  \<open>p\<close> and \<open>ra\<close> are the addresses \<open>malloc\<close> returns, \<open>res\<close> is the result of \<open>mmap\<close> and \<open>strerror\<close> the text
  of its error.  \<open>memfd\<close> is \<open>None\<close>
  when the code is compiled without \<open>HAVE_MEMFD_CREATE\<close>; else whether the file is sealed against
  shrinking and its size, if \<open>fstat\<close> tells it.
\<close>

definition close_fd :: "fd \<Rightarrow> shm \<Rightarrow> shm" where
  "close_fd f sh = sh\<lparr>sh_server := (sh_server sh)\<lparr>s_os := sys_close f (s_os (sh_server sh))\<rparr>\<rparr>"

definition sigbus_impossible :: "(bool \<times> int option) option \<Rightarrow> int \<Rightarrow> bool" where
  "sigbus_impossible memfd n =
     (case memfd of
        None \<Rightarrow> False
      | Some (sealed, st_size) \<Rightarrow> (case st_size of Some z \<Rightarrow> sealed \<and> z \<ge> n | None \<Rightarrow> False))"

definition shm_create_pool ::
  "env \<Rightarrow> shm_addrs \<Rightarrow> u64 \<Rightarrow> u64 \<Rightarrow> u64 \<Rightarrow> string \<Rightarrow> (bool \<times> int option) option \<Rightarrow>
   u64 \<Rightarrow> u64 \<Rightarrow> u32 \<Rightarrow> fd \<Rightarrow> int \<Rightarrow> shm \<Rightarrow> shm option" where
  "shm_create_pool env ad p ra res strerror memfd client resource i f n sh =
     (if n \<le> 0 then do {
        sh1 \<leftarrow> with_server (wl_resource_post_error env resource WL_SHM_ERROR_INVALID_STRIDE
                 (''invalid size ('' @ dec_int n @ '')'') (sh_server sh)) sh;
        Some (close_fd f sh1) }
      else if p = 0 then do {
        sh1 \<leftarrow> with_server (wl_client_post_no_memory env client (sh_server sh)) sh;
        Some (close_fd f sh1) }
      else if res = MAP_FAILED then do {
        sh1 \<leftarrow> with_server (wl_resource_post_error env resource WL_SHM_ERROR_INVALID_FD
                 (''failed mmap fd '' @ dec_int (sint f) @ '': '' @ strerror) (sh_server sh)) sh;
        Some (close_fd f sh1) }
      else do {
        let sh1 = map_at res n sh;
        (r, s1) \<leftarrow> wl_resource_create env ra client (wl_shm_pool_interface ad) 1 i (sh_server sh1);
        let sh2 = sh1\<lparr>sh_server := s1\<rparr>;
        if r = 0 then do {
          sh3 \<leftarrow> with_server (wl_client_post_no_memory env client s1) sh2;
          Some (unmap res sh3) }
        else Some (set_pool p (Some \<lparr>p_resource = r, p_internal = 1, p_external = 0, p_data = res, p_size = n,
                 p_new_size = n, p_fd = f, p_sigbus_impossible = sigbus_impossible memfd n, p_mappings = []\<rparr>)
               (sh2\<lparr>sh_server := wl_resource_set_implementation r (shm_pool_interface ad) p (destroy_pool_fn ad) s1\<rparr>)) })"

fun send_formats :: "env \<Rightarrow> u64 \<Rightarrow> u32 list \<Rightarrow> server \<Rightarrow> server option" where
  "send_formats env r [] s = Some s"
| "send_formats env r (f # fs) s = wl_resource_post_event env r WL_SHM_FORMAT [W f] s \<bind> send_formats env r fs"

definition bind_shm :: "env \<Rightarrow> shm_addrs \<Rightarrow> u64 \<Rightarrow> u64 \<Rightarrow> u64 \<Rightarrow> u32 \<Rightarrow> server \<Rightarrow> server option" where
  "bind_shm env ad ra client data i s = do {
     (r, s1) \<leftarrow> wl_resource_create env ra client (wl_shm_interface ad) 1 i s;
     if r = 0 then wl_client_post_no_memory env client s1
     else do {
       let s2 = wl_resource_set_implementation r (shm_interface ad) data 0 s1;
       send_formats env r ([WL_SHM_FORMAT_ARGB8888, WL_SHM_FORMAT_XRGB8888] @ d_shm_formats s2) s2 } }"

definition wl_display_init_shm :: "env \<Rightarrow> shm_addrs \<Rightarrow> u64 \<Rightarrow> server \<Rightarrow> (int \<times> server) option" where
  "wl_display_init_shm env ad a s = do {
     (g, s1) \<leftarrow> wl_global_create env a (wl_shm_interface ad) 1 0 (bind_shm_fn ad) s;
     Some (if g = 0 then - 1 else 0, s1) }"

section \<open>SIGBUS\<close>

text \<open>\<open>mem\<close> is the outcome of the allocation of the thread's data.\<close>

definition wl_shm_buffer_begin_access :: "bool \<Rightarrow> u64 \<Rightarrow> shm \<Rightarrow> shm option" where
  "wl_shm_buffer_begin_access mem b sh = do {
     buffer \<leftarrow> sh_buffer sh b;
     pool \<leftarrow> sh_pool sh (b_pool buffer);
     if p_sigbus_impossible pool then Some sh
     else (case (case sh_sigbus sh of
                   None \<Rightarrow> if mem then Some \<lparr>current_pool = 0, access_count = 0, fallback_mapping_used = False\<rparr> else None
                 | Some d \<Rightarrow> Some d) of
         None \<Rightarrow> Some sh
       | Some d \<Rightarrow>
           if current_pool d \<noteq> 0 \<and> current_pool d \<noteq> b_pool buffer then None
           else Some (sh\<lparr>sh_sigbus := Some (d\<lparr>current_pool := b_pool buffer, access_count := access_count d + 1\<rparr>)\<rparr>)) }"

definition wl_shm_buffer_end_access :: "env \<Rightarrow> u64 \<Rightarrow> shm \<Rightarrow> shm option" where
  "wl_shm_buffer_end_access env b sh = do {
     buffer \<leftarrow> sh_buffer sh b;
     pool \<leftarrow> sh_pool sh (b_pool buffer);
     if p_sigbus_impossible pool then Some sh
     else do {
       d \<leftarrow> sh_sigbus sh;
       if access_count d < 1 then None
       else do {
         let d1 = d\<lparr>access_count := access_count d - 1\<rparr>;
         if access_count d1 = 0 then do {
           (d2, sh2) \<leftarrow> (if fallback_mapping_used d1 then do {
               sh1 \<leftarrow> with_server (wl_resource_post_error env (b_resource buffer) WL_SHM_ERROR_INVALID_FD
                        ''error accessing SHM buffer'' (sh_server sh)) sh;
               Some (d1\<lparr>fallback_mapping_used := False\<rparr>, sh1) }
             else Some (d1, sh));
           Some (sh2\<lparr>sh_sigbus := Some (d2\<lparr>current_pool := 0\<rparr>)\<rparr>) }
         else Some (sh\<lparr>sh_sigbus := Some d1\<rparr>) } } }"

definition reraise_sigbus :: "shm \<Rightarrow> shm" where
  "reraise_sigbus sh = sh\<lparr>sh_raised := True\<rparr>"

text \<open>\<open>ok\<close> is the success of mapping anonymous memory over the pool (\<open>MAP_FIXED\<close>).\<close>

definition sigbus_handler :: "bool \<Rightarrow> int \<Rightarrow> shm \<Rightarrow> shm option" where
  "sigbus_handler ok addr sh =
     (case sh_sigbus sh of
        None \<Rightarrow> Some (reraise_sigbus sh)
      | Some d \<Rightarrow>
          if current_pool d = 0 then Some (reraise_sigbus sh)
          else do {
            pool \<leftarrow> sh_pool sh (current_pool d);
            if addr < uint (p_data pool) \<or> addr \<ge> uint (p_data pool) + p_size pool then Some (reraise_sigbus sh)
            else let sh1 = sh\<lparr>sh_sigbus := Some (d\<lparr>fallback_mapping_used := True\<rparr>)\<rparr> in
              if \<not> ok then Some (reraise_sigbus sh1)
              else Some (map_anonymous (p_data pool) (p_size pool) sh1) })"

text \<open>
  Reading a byte of a pool, as the hardware and the kernel do it: the access to a file behind its
  end, \<open>flen\<close>, raises SIGBUS; when the handler returns, the access is made again, unless SIGBUS was
  raised with its old action.  Anonymous memory has no end.  \<open>None\<close>: the access never completes.
\<close>

definition load_faults :: "int \<Rightarrow> wl_shm_pool \<Rightarrow> int \<Rightarrow> shm \<Rightarrow> bool" where
  "load_faults flen pool addr sh \<longleftrightarrow> p_data pool \<notin> sh_anon sh \<and> flen \<le> addr - uint (p_data pool)"

partial_function (option) shm_load :: "int \<Rightarrow> bool \<Rightarrow> wl_shm_pool \<Rightarrow> int \<Rightarrow> shm \<Rightarrow> shm option" where
  "shm_load flen ok pool addr sh =
     (if \<not> load_faults flen pool addr sh then Some sh
      else do {
        sh1 \<leftarrow> sigbus_handler ok addr sh;
        if sh_raised sh1 then Some sh1 else shm_load flen ok pool addr sh1 })"

section \<open>The invariant\<close>

definition regions :: "wl_shm_pool \<Rightarrow> (u64 \<times> int) list" where
  "regions pool = (p_data pool, p_size pool) # p_mappings pool"

definition pool_ok :: "shm \<Rightarrow> int \<Rightarrow> wl_shm_pool \<Rightarrow> bool" where
  "pool_ok sh n pool \<longleftrightarrow> p_internal pool = n \<and> 0 \<le> n \<and> 0 \<le> p_external pool \<and> 0 < n + p_external pool \<and>
     0 < p_size pool \<and> (p_external pool = 0 \<longrightarrow> p_mappings pool = []) \<and>
     distinct (map fst (regions pool)) \<and> (\<forall>(a, z) \<in> set (regions pool). sh_mapped sh a = Some z)"

definition region_addrs :: "wl_shm_pool \<Rightarrow> u64 set" where
  "region_addrs pool = fst ` set (regions pool)"

definition pools_ok :: "(u64 \<Rightarrow> int) \<Rightarrow> shm \<Rightarrow> bool" where
  "pools_ok cnt sh \<longleftrightarrow> (\<forall>p pool. sh_pool sh p = Some pool \<longrightarrow> pool_ok sh (cnt p) pool) \<and>
     (\<forall>p q pool pool'. p \<noteq> q \<longrightarrow> sh_pool sh p = Some pool \<longrightarrow> sh_pool sh q = Some pool' \<longrightarrow>
        region_addrs pool \<inter> region_addrs pool' = {})"

lemma pool_okD: "pools_ok cnt sh \<Longrightarrow> sh_pool sh p = Some pool \<Longrightarrow> pool_ok sh (cnt p) pool"
  by (simp add: pools_ok_def)

text \<open>Replacing one pool: the mappings of the others stay.\<close>

lemma pools_ok_update:
  assumes ok: "pools_ok cnt sh" and p: "sh_pool sh' = (sh_pool sh)(p := v)"
    and m: "\<And>q pool a. q \<noteq> p \<Longrightarrow> sh_pool sh q = Some pool \<Longrightarrow> a \<in> region_addrs pool \<Longrightarrow> sh_mapped sh' a = sh_mapped sh a"
    and v: "\<And>pool. v = Some pool \<Longrightarrow> pool_ok sh' k pool \<and>
      (\<forall>q pool'. q \<noteq> p \<longrightarrow> sh_pool sh q = Some pool' \<longrightarrow> region_addrs pool \<inter> region_addrs pool' = {})"
  shows "pools_ok (cnt(p := k)) sh'"
  unfolding pools_ok_def
proof (intro conjI allI impI)
  fix q pool assume q: "sh_pool sh' q = Some pool"
  show "pool_ok sh' ((cnt(p := k)) q) pool"
  proof (cases "q = p")
    case True
    then show ?thesis using q p v by simp
  next
    case False
    then have s: "sh_pool sh q = Some pool" using q p by simp
    have "sh_mapped sh' (fst x) = sh_mapped sh (fst x)" if "x \<in> set (regions pool)" for x
      by (rule m [OF False s]) (use that in \<open>simp add: region_addrs_def\<close>)
    then show ?thesis using pool_okD [OF ok s] False by (fastforce simp: pool_ok_def)
  qed
next
  fix q r pool pool' assume qr: "q \<noteq> r" "sh_pool sh' q = Some pool" "sh_pool sh' r = Some pool'"
  consider "q = p" "r \<noteq> p" | "q \<noteq> p" "r = p" | "q \<noteq> p" "r \<noteq> p" using qr(1) by blast
  then show "region_addrs pool \<inter> region_addrs pool' = {}"
  proof cases
    case 1
    then have "v = Some pool" "sh_pool sh r = Some pool'" using qr p by simp_all
    then show ?thesis using v 1 by blast
  next
    case 2
    then have "v = Some pool'" "sh_pool sh q = Some pool" using qr p by simp_all
    then show ?thesis using v 2 by blast
  next
    case 3
    then have "sh_pool sh q = Some pool" "sh_pool sh r = Some pool'" using qr p by simp_all
    then show ?thesis using ok qr(1) unfolding pools_ok_def by blast
  qed
qed

lemma pools_disjoint:
  "pools_ok cnt sh \<Longrightarrow> sh_pool sh p = Some pool \<Longrightarrow> q \<noteq> p \<Longrightarrow> sh_pool sh q = Some pool' \<Longrightarrow>
   region_addrs pool \<inter> region_addrs pool' = {}"
  unfolding pools_ok_def by blast

lemma unmap_all_effect:
  "sh_mapped (unmap_all ms sh) = (\<lambda>a. if a \<in> fst ` set ms then None else sh_mapped sh a)"
  "sh_pool (unmap_all ms sh) = sh_pool sh" "sh_buffer (unmap_all ms sh) = sh_buffer sh"
  "sh_server (unmap_all ms sh) = sh_server sh"
proof -
  have "sh_mapped (unmap_all ms sh) = (\<lambda>a. if a \<in> fst ` set ms then None else sh_mapped sh a) \<and>
    sh_pool (unmap_all ms sh) = sh_pool sh \<and> sh_buffer (unmap_all ms sh) = sh_buffer sh \<and>
    sh_server (unmap_all ms sh) = sh_server sh"
    by (induction ms arbitrary: sh) (auto simp: unmap_all_def unmap_def)
  then show "sh_mapped (unmap_all ms sh) = (\<lambda>a. if a \<in> fst ` set ms then None else sh_mapped sh a)"
    "sh_pool (unmap_all ms sh) = sh_pool sh" "sh_buffer (unmap_all ms sh) = sh_buffer sh"
    "sh_server (unmap_all ms sh) = sh_server sh" by auto
qed

text \<open>What dropping a reference does: the pool stays or is unmapped and freed.\<close>

lemma unref_spec:
  assumes ok: "pools_ok cnt sh" and p: "sh_pool sh p = Some pool" and run: "shm_pool_unref p external sh = Some sh'"
  defines "k \<equiv> if external then cnt p else cnt p - 1"
  shows "pools_ok (cnt(p := k)) sh'" "sh_buffer sh' = sh_buffer sh" "\<And>q. q \<noteq> p \<Longrightarrow> sh_pool sh' q = sh_pool sh q"
    "0 < k \<Longrightarrow> \<exists>pool'. sh_pool sh' p = Some pool' \<and> p_size pool' = p_size pool"
proof -
  note po = pool_okD [OF ok p, unfolded pool_ok_def]
  let ?e = "p_external pool - (if external then 1 else 0)"
  let ?pool1 = "pool\<lparr>p_external := ?e, p_internal := k, p_mappings := (if external \<and> ?e = 0 then [] else p_mappings pool)\<rparr>"
  let ?sh1 = "if external \<and> ?e = 0 then unmap_all (p_mappings pool) sh else sh"
  have nn: "0 \<le> ?e" "0 \<le> k" using run p po by (auto simp: shm_pool_unref_def k_def Let_def split: if_splits)
  have sh': "sh' = (if k + ?e > 0 then set_pool p (Some ?pool1) ?sh1
     else set_pool p None ((unmap (p_data pool) ?sh1)
       \<lparr>sh_server := (sh_server ?sh1)\<lparr>s_os := sys_close (p_fd pool) (s_os (sh_server ?sh1))\<rparr>\<rparr>))"
    using run p po nn by (cases pool) (auto simp: shm_pool_unref_def k_def Let_def split: if_splits)
  have old: "fst ` set (p_mappings pool) \<subseteq> region_addrs pool" "p_data pool \<in> region_addrs pool"
    by (auto simp: region_addrs_def regions_def)
  have m1: "sh_mapped ?sh1 a = sh_mapped sh a" if "a \<notin> fst ` set (p_mappings pool)" for a
    using that by (simp add: unmap_all_effect)
  have pools: "sh_pool sh' = (sh_pool sh)(p := (if k + ?e > 0 then Some ?pool1 else None))"
    by (simp add: sh' set_pool_def unmap_def unmap_all_effect)
  have maps: "sh_mapped sh' a = sh_mapped sh a" if "a \<notin> region_addrs pool" for a
    using that old by (auto simp: sh' set_pool_def unmap_def unmap_all_effect)
  show "pools_ok (cnt(p := k)) sh'"
  proof (rule pools_ok_update [OF ok pools])
    fix q pool' a assume "q \<noteq> p" "sh_pool sh q = Some pool'" "a \<in> region_addrs pool'"
    then have "a \<notin> region_addrs pool" using pools_disjoint [OF ok p] by blast
    then show "sh_mapped sh' a = sh_mapped sh a" by (rule maps)
  next
    fix pl assume "(if k + ?e > 0 then Some ?pool1 else None) = Some pl"
    then have pl: "k + ?e > 0" "pl = ?pool1" by (auto split: if_splits)
    have "p_data pool \<notin> fst ` set (p_mappings pool)" using po by (simp add: regions_def)
    then have "sh_mapped sh' (p_data pool) = Some (p_size pool)"
      using pl(1) po m1 by (simp add: sh' set_pool_def regions_def)
    moreover have "sh_mapped sh' a = Some z" if "(a, z) \<in> set (p_mappings ?pool1)" for a z
      using that po pl(1) by (auto simp: sh' set_pool_def regions_def split: if_splits)
    moreover have "distinct (map fst (regions ?pool1))" using po by (simp add: regions_def)
    ultimately have "pool_ok sh' k ?pool1"
      using po nn pl(1) by (auto simp: pool_ok_def regions_def)
    moreover have "region_addrs ?pool1 \<subseteq> region_addrs pool" by (auto simp: region_addrs_def regions_def)
    ultimately show "pool_ok sh' k pl \<and> (\<forall>q pool'. q \<noteq> p \<longrightarrow> sh_pool sh q = Some pool' \<longrightarrow>
        region_addrs pl \<inter> region_addrs pool' = {})"
      using pools_disjoint [OF ok p] pl(2) by blast
  qed
  show "sh_buffer sh' = sh_buffer sh" by (simp add: sh' set_pool_def unmap_def unmap_all_effect)
  show "\<And>q. q \<noteq> p \<Longrightarrow> sh_pool sh' q = sh_pool sh q" by (simp add: pools)
  show "0 < k \<Longrightarrow> \<exists>pool'. sh_pool sh' p = Some pool' \<and> p_size pool' = p_size pool" using nn by (simp add: pools)
qed

definition buffers_of :: "shm \<Rightarrow> u64 \<Rightarrow> u64 set" where
  "buffers_of sh p = {b. \<exists>buf. sh_buffer sh b = Some buf \<and> b_pool buf = p}"

text \<open>\<open>L\<close> holds the pools whose resource is alive.\<close>

definition count_refs :: "u64 set \<Rightarrow> shm \<Rightarrow> u64 \<Rightarrow> int" where
  "count_refs L sh p = int (card (buffers_of sh p)) + (if p \<in> L then 1 else 0)"

definition in_bounds :: "wl_shm_pool \<Rightarrow> wl_shm_buffer \<Rightarrow> bool" where
  "in_bounds pool buf \<longleftrightarrow> 0 \<le> b_offset buf \<and> 0 < b_width buf \<and> b_width buf \<le> b_stride buf \<and> 0 < b_height buf \<and>
     b_stride buf * b_height buf \<le> INT32_MAX \<and> b_offset buf + b_stride buf * b_height buf \<le> p_size pool"

definition shm_ok :: "u64 set \<Rightarrow> shm \<Rightarrow> bool" where
  "shm_ok L sh \<longleftrightarrow> finite (dom (sh_buffer sh)) \<and> L \<subseteq> dom (sh_pool sh) \<and> pools_ok (count_refs L sh) sh \<and>
     (\<forall>b buf. sh_buffer sh b = Some buf \<longrightarrow> (\<exists>pool. sh_pool sh (b_pool buf) = Some pool \<and> in_bounds pool buf))"

lemma pools_ok_cong:
  assumes "sh_pool sh' = sh_pool sh" "sh_mapped sh' = sh_mapped sh" "\<And>p. sh_pool sh p \<noteq> None \<Longrightarrow> cnt' p = cnt p"
  shows "pools_ok cnt sh \<Longrightarrow> pools_ok cnt' sh'"
  using assms by (simp add: pools_ok_def pool_ok_def)

lemma shm_ok_cong:
  "shm_ok L sh \<Longrightarrow> sh_pool sh' = sh_pool sh \<Longrightarrow> sh_mapped sh' = sh_mapped sh \<Longrightarrow> sh_buffer sh' = sh_buffer sh \<Longrightarrow>
   shm_ok L sh'"
  by (simp add: shm_ok_def pools_ok_def pool_ok_def count_refs_def buffers_of_def)

lemma finite_buffers_of: "finite (dom (sh_buffer sh)) \<Longrightarrow> finite (buffers_of sh p)"
  by (rule finite_subset [of _ "dom (sh_buffer sh)"]) (auto simp: buffers_of_def)

text \<open>The parts of the invariant after one pool was replaced.\<close>

lemma shm_okI:
  assumes ok: "shm_ok L sh" and pools: "pools_ok cnt sh'" "\<And>p. sh_pool sh' p \<noteq> None \<Longrightarrow> cnt p = count_refs L' sh' p"
    and fin: "finite (dom (sh_buffer sh'))" and L: "L' \<subseteq> dom (sh_pool sh')"
    and buf: "\<And>b buf. sh_buffer sh' b = Some buf \<Longrightarrow> \<exists>pool. sh_pool sh' (b_pool buf) = Some pool \<and> in_bounds pool buf"
  shows "shm_ok L' sh'"
proof -
  have "pools_ok (count_refs L' sh') sh'"
    by (rule pools_ok_cong [OF refl refl _ pools(1)]) (use pools(2) in simp)
  then show ?thesis using fin L buf by (simp add: shm_ok_def)
qed

lemma shm_ok_new_pool:
  assumes ok: "shm_ok L sh" and p: "sh_pool sh p = None" and m: "sh_mapped sh res = None" and n: "0 < n"
    and pool: "p_internal pool = 1" "p_external pool = 0" "p_data pool = res" "p_size pool = n" "p_mappings pool = []"
  shows "shm_ok (insert p L) (set_pool p (Some pool) (map_at res n sh))"
proof -
  let ?sh' = "set_pool p (Some pool) (map_at res n sh)"
  have ok': "pools_ok (count_refs L sh) sh" using ok by (simp add: shm_ok_def)
  have "pools_ok ((count_refs L sh)(p := 1)) ?sh'"
  proof (rule pools_ok_update [OF ok', where v = "Some pool"])
    show "sh_pool ?sh' = (sh_pool sh)(p := Some pool)" by (simp add: set_pool_def map_at_def)
    have no: "res \<notin> region_addrs pool'" if "sh_pool sh q = Some pool'" for q pool'
      using pool_okD [OF ok' that] m by (auto simp: pool_ok_def region_addrs_def)
    show "sh_mapped ?sh' a = sh_mapped sh a" if "q \<noteq> p" "sh_pool sh q = Some pool'" "a \<in> region_addrs pool'" for q pool' a
      using no [OF that(2)] that(3) by (auto simp: set_pool_def map_at_def)
    show "pool_ok ?sh' 1 pl \<and> (\<forall>q pool'. q \<noteq> p \<longrightarrow> sh_pool sh q = Some pool' \<longrightarrow> region_addrs pl \<inter> region_addrs pool' = {})"
      if "Some pool = Some pl" for pl
    proof -
      have "pool_ok ?sh' 1 pool" using pool n by (simp add: pool_ok_def regions_def set_pool_def map_at_def)
      moreover have "region_addrs pool = {res}" using pool by (simp add: region_addrs_def regions_def)
      ultimately show ?thesis using that no by auto
    qed
  qed
  then show ?thesis
  proof (rule shm_okI [OF ok])
    have "b_pool buf \<noteq> p" if "sh_buffer sh b = Some buf" for b buf
      using ok that p unfolding shm_ok_def by fastforce
    then have e: "buffers_of sh p = {}" by (auto simp: buffers_of_def)
    have b: "buffers_of ?sh' q = buffers_of sh q" for q by (simp add: buffers_of_def set_pool_def map_at_def)
    show "((count_refs L sh)(p := 1)) q = count_refs (insert p L) ?sh' q" for q
      by (simp add: count_refs_def b e)
    show "finite (dom (sh_buffer ?sh'))" "insert p L \<subseteq> dom (sh_pool ?sh')"
      using ok by (auto simp: shm_ok_def set_pool_def map_at_def)
    show "\<exists>pool. sh_pool ?sh' (b_pool buf) = Some pool \<and> in_bounds pool buf" if "sh_buffer ?sh' b = Some buf" for b buf
      using ok that p unfolding shm_ok_def by (fastforce simp: set_pool_def map_at_def)
  qed
qed

text \<open>A change of one pool that keeps its mappings and does not shrink it.\<close>

lemma pools_ok_same_regions:
  assumes ok: "pools_ok cnt sh" and p: "sh_pool sh p = Some pool" and r: "region_addrs pool' = region_addrs pool"
    and po: "pool_ok sh k pool'"
  shows "pools_ok (cnt(p := k)) (set_pool p (Some pool') sh)"
proof (rule pools_ok_update [OF ok, where v = "Some pool'"])
  show "pool_ok (set_pool p (Some pool') sh) k pl \<and>
      (\<forall>q pool'. q \<noteq> p \<longrightarrow> sh_pool sh q = Some pool' \<longrightarrow> region_addrs pl \<inter> region_addrs pool' = {})"
    if "Some pool' = Some pl" for pl
    using that po r pools_disjoint [OF ok p] by (auto simp: pool_ok_def set_pool_def)
qed (simp_all add: set_pool_def)

lemma shm_ok_external:
  assumes ok: "shm_ok L sh" and p: "sh_pool sh p = Some pool" and e: "0 \<le> p_external pool"
  shows "shm_ok L (set_pool p (Some (pool\<lparr>p_external := p_external pool + 1\<rparr>)) sh)"
proof -
  have ok': "pools_ok (count_refs L sh) sh" using ok by (simp add: shm_ok_def)
  have "pools_ok ((count_refs L sh)(p := count_refs L sh p)) (set_pool p (Some (pool\<lparr>p_external := p_external pool + 1\<rparr>)) sh)"
    by (rule pools_ok_same_regions [OF ok' p])
       (use pool_okD [OF ok' p] in \<open>auto simp: region_addrs_def regions_def pool_ok_def\<close>)
  then show ?thesis
    by (rule shm_okI [OF ok])
       (use ok p in \<open>fastforce simp: shm_ok_def set_pool_def count_refs_def buffers_of_def in_bounds_def split: if_splits\<close>)+
qed

lemma shm_ok_unref:
  assumes ok: "shm_ok L sh" and run: "wl_shm_pool_unref p sh = Some sh'"
  shows "shm_ok L sh'"
proof -
  have ok': "pools_ok (count_refs L sh) sh" using ok by (simp add: shm_ok_def)
  obtain pool where p: "sh_pool sh p = Some pool"
    using run by (auto simp: wl_shm_pool_unref_def shm_pool_unref_def split: bind_splits)
  note u = unref_spec [OF ok' p run [unfolded wl_shm_pool_unref_def], simplified]
  have live: "\<exists>pool'. sh_pool sh' p = Some pool' \<and> p_size pool' = p_size pool" if "0 < count_refs L sh p"
    using u(4) that by simp
  have pos: "0 < count_refs L sh p" if "p \<in> L \<or> (\<exists>b buf. sh_buffer sh b = Some buf \<and> b_pool buf = p)"
  proof -
    have "finite (buffers_of sh p)" using ok by (simp add: shm_ok_def finite_buffers_of)
    moreover have "buffers_of sh p \<noteq> {} \<or> p \<in> L" using that by (auto simp: buffers_of_def)
    ultimately show ?thesis by (auto simp: count_refs_def card_gt_0_iff)
  qed
  show ?thesis
  proof (rule shm_okI [OF ok u(1)])
    show "count_refs L sh q = count_refs L sh' q" for q by (simp add: count_refs_def buffers_of_def u(2))
    show "finite (dom (sh_buffer sh'))" using ok u(2) by (simp add: shm_ok_def)
    show "L \<subseteq> dom (sh_pool sh')"
    proof
      fix q assume "q \<in> L"
      then show "q \<in> dom (sh_pool sh')" using ok live pos u(3) by (cases "q = p") (auto simp: shm_ok_def)
    qed
    show "\<exists>pool. sh_pool sh' (b_pool buf) = Some pool \<and> in_bounds pool buf" if b: "sh_buffer sh' b = Some buf" for b buf
    proof -
      obtain pl where pl: "sh_pool sh (b_pool buf) = Some pl" "in_bounds pl buf"
        using ok b u(2) unfolding shm_ok_def by metis
      show ?thesis
      proof (cases "b_pool buf = p")
        case True
        then obtain pool' where "sh_pool sh' p = Some pool'" "p_size pool' = p_size pool"
          using live pos b u(2) by metis
        then show ?thesis using pl p True by (simp add: in_bounds_def)
      next
        case False
        then show ?thesis using pl u(3) by simp
      qed
    qed
  qed
qed

lemma shm_ok_drop:
  assumes ok: "shm_ok L sh" and p: "sh_pool sh p = Some pool" and run: "shm_pool_unref p False sh = Some sh1"
    and sh': "sh_pool sh' = sh_pool sh1" "sh_mapped sh' = sh_mapped sh1"
    and bufs: "\<And>b. sh_buffer sh' b = sh_buffer sh b \<or> sh_buffer sh' b = None" and L': "L' \<subseteq> L"
    and cnt: "count_refs L' sh' p = count_refs L sh p - 1" "\<And>q. q \<noteq> p \<Longrightarrow> count_refs L' sh' q = count_refs L sh q"
  shows "shm_ok L' sh'"
proof -
  have ok': "pools_ok (count_refs L sh) sh" using ok by (simp add: shm_ok_def)
  note u = unref_spec [OF ok' p run, simplified]
  have fin: "finite (dom (sh_buffer sh'))"
    by (rule finite_subset [of _ "dom (sh_buffer sh)"]) (use bufs ok in \<open>auto simp: shm_ok_def\<close>, metis option.distinct(1))
  have live: "\<exists>pool'. sh_pool sh' p = Some pool' \<and> p_size pool' = p_size pool" if "buffers_of sh' p \<noteq> {} \<or> p \<in> L'"
  proof -
    have "0 < count_refs L' sh' p"
      using that finite_buffers_of [OF fin, of p] by (auto simp: count_refs_def card_gt_0_iff)
    then show ?thesis using u(4) cnt(1) sh' by simp
  qed
  have "pools_ok ((count_refs L sh)(p := count_refs L sh p - 1)) sh'"
    by (rule pools_ok_cong [OF sh' refl u(1)])
  then show ?thesis
  proof (rule shm_okI [OF ok])
    show "((count_refs L sh)(p := count_refs L sh p - 1)) q = count_refs L' sh' q" for q using cnt by simp
    show "finite (dom (sh_buffer sh'))" by (rule fin)
    show "L' \<subseteq> dom (sh_pool sh')"
    proof
      fix q assume q: "q \<in> L'"
      show "q \<in> dom (sh_pool sh')"
      proof (cases "q = p")
        case True
        then show ?thesis using live q by blast
      next
        case False
        then show ?thesis using ok q L' u(3) sh' by (auto simp: shm_ok_def)
      qed
    qed
    show "\<exists>pool. sh_pool sh' (b_pool buf) = Some pool \<and> in_bounds pool buf" if b: "sh_buffer sh' b = Some buf" for b buf
    proof -
      have "sh_buffer sh b = Some buf" using bufs [of b] b by auto
      then obtain pl where pl: "sh_pool sh (b_pool buf) = Some pl" "in_bounds pl buf"
        using ok unfolding shm_ok_def by metis
      show ?thesis
      proof (cases "b_pool buf = p")
        case True
        then have "buffers_of sh' p \<noteq> {}" using b by (auto simp: buffers_of_def)
        then obtain pool' where "sh_pool sh' p = Some pool'" "p_size pool' = p_size pool" using live by blast
        then show ?thesis using pl p True by (simp add: in_bounds_def)
      next
        case False
        then show ?thesis using pl u(3) sh' by simp
      qed
    qed
  qed
qed

lemma unref_pool: "shm_pool_unref p external sh = Some sh' \<Longrightarrow> \<exists>pool. sh_pool sh p = Some pool"
  by (auto simp: shm_pool_unref_def split: bind_splits)

lemma shm_ok_destroy_pool:
  assumes ok: "shm_ok L sh" and p: "p \<in> L" and run: "shm_pool_unref p False sh = Some sh'"
  shows "shm_ok (L - {p}) sh'"
proof -
  obtain pool where pool: "sh_pool sh p = Some pool" using unref_pool [OF run] by blast
  have ok': "pools_ok (count_refs L sh) sh" using ok by (simp add: shm_ok_def)
  have b: "sh_buffer sh' = sh_buffer sh" by (rule unref_spec(2) [OF ok' pool run])
  show ?thesis
    by (rule shm_ok_drop [OF ok pool run refl refl]) (use b p in \<open>auto simp: count_refs_def buffers_of_def\<close>)
qed

lemma shm_ok_destroy_buffer:
  assumes ok: "shm_ok L sh" and b: "sh_buffer sh b = Some buf" and run: "shm_pool_unref (b_pool buf) False sh = Some sh1"
  shows "shm_ok L (set_buffer b None sh1)"
proof -
  let ?p = "b_pool buf" and ?sh' = "set_buffer b None sh1"
  obtain pool where pool: "sh_pool sh ?p = Some pool" using unref_pool [OF run] by blast
  have ok': "pools_ok (count_refs L sh) sh" using ok by (simp add: shm_ok_def)
  have s1: "sh_buffer sh1 = sh_buffer sh" by (rule unref_spec(2) [OF ok' pool run])
  have bo: "buffers_of ?sh' q = buffers_of sh q - {b}" for q
    by (auto simp: buffers_of_def set_buffer_def s1)
  have fin: "finite (buffers_of sh ?p)" using ok by (simp add: shm_ok_def finite_buffers_of)
  have mem: "b \<in> buffers_of sh ?p" using b by (simp add: buffers_of_def)
  have "0 < card (buffers_of sh ?p)" using fin mem by (auto simp: card_gt_0_iff)
  then have "count_refs L ?sh' ?p = count_refs L sh ?p - 1"
    using fin mem by (simp add: count_refs_def bo card_Diff_singleton of_nat_diff)
  moreover have "count_refs L ?sh' q = count_refs L sh q" if "q \<noteq> ?p" for q
  proof -
    have "b \<notin> buffers_of sh q" using b that by (simp add: buffers_of_def)
    then show ?thesis by (simp add: count_refs_def bo)
  qed
  ultimately show ?thesis
    by (intro shm_ok_drop [OF ok pool run]) (auto simp: set_buffer_def s1)
qed

lemma shm_ok_internal:
  assumes ok: "shm_ok L sh" and p: "sh_pool sh p = Some pool"
  shows "pools_ok ((count_refs L sh)(p := count_refs L sh p + 1))
    (set_pool p (Some (pool\<lparr>p_internal := p_internal pool + 1\<rparr>)) sh)"
proof -
  have ok': "pools_ok (count_refs L sh) sh" using ok by (simp add: shm_ok_def)
  show ?thesis
    by (rule pools_ok_same_regions [OF ok' p])
       (use pool_okD [OF ok' p] in \<open>auto simp: region_addrs_def regions_def pool_ok_def\<close>)
qed

lemma shm_ok_new_buffer:
  assumes ok: "shm_ok L sh" and p: "sh_pool sh p = Some pool" and b: "sh_buffer sh b = None"
    and buf: "b_pool buf = p" "in_bounds pool buf"
    and sh': "sh_pool sh' = (sh_pool sh)(p := Some (pool\<lparr>p_internal := p_internal pool + 1\<rparr>))"
      "sh_mapped sh' = sh_mapped sh" "sh_buffer sh' = (sh_buffer sh)(b := Some buf)"
  shows "shm_ok L sh'"
proof -
  have bo: "buffers_of sh' q = (if q = p then insert b (buffers_of sh q) else buffers_of sh q)" for q
    using b buf(1) by (auto simp: buffers_of_def sh')
  have nb: "b \<notin> buffers_of sh q" for q using b by (simp add: buffers_of_def)
  have fin: "finite (dom (sh_buffer sh))" using ok by (simp add: shm_ok_def)
  have "pools_ok ((count_refs L sh)(p := count_refs L sh p + 1)) sh'"
    by (rule pools_ok_cong [OF _ _ _ shm_ok_internal [OF ok p]]) (simp_all add: sh' set_pool_def)
  then show ?thesis
  proof (rule shm_okI [OF ok])
    show "((count_refs L sh)(p := count_refs L sh p + 1)) q = count_refs L sh' q" for q
      using finite_buffers_of [OF fin, of p] nb [of p] by (auto simp: count_refs_def bo)
    show "finite (dom (sh_buffer sh'))" "L \<subseteq> dom (sh_pool sh')" using ok by (auto simp: sh' shm_ok_def)
    show "\<exists>pl. sh_pool sh' (b_pool bf) = Some pl \<and> in_bounds pl bf" if "sh_buffer sh' c = Some bf" for c bf
    proof (cases "c = b")
      case True
      then show ?thesis using that buf by (simp add: sh' in_bounds_def)
    next
      case False
      then have "sh_buffer sh c = Some bf" using that sh'(3) by simp
      then obtain pl where "sh_pool sh (b_pool bf) = Some pl" "in_bounds pl bf"
        using ok unfolding shm_ok_def by metis
      then show ?thesis using p by (auto simp: sh' in_bounds_def)
    qed
  qed
qed

text \<open>Growing a pool.\<close>

lemma shm_ok_grow:
  assumes ok: "shm_ok L sh" and p: "sh_pool sh p = Some pool" and n: "p_size pool < n"
    and res: "sh_mapped sh res = None \<or> p_external pool = 0 \<and> res = p_data pool"
    and pool': "pool' = pool\<lparr>p_new_size := n, p_mappings := (if p_external pool \<noteq> 0 then regions pool else p_mappings pool),
      p_data := res, p_size := n\<rparr>"
    and sh': "sh' = set_pool p (Some pool') (map_at res n (if p_external pool \<noteq> 0 then sh else unmap (p_data pool) sh))"
  shows "shm_ok L sh'"
proof -
  have ok': "pools_ok (count_refs L sh) sh" using ok by (simp add: shm_ok_def)
  note po = pool_okD [OF ok' p, unfolded pool_ok_def]
  have fresh: "res \<notin> region_addrs pl" if "sh_pool sh q = Some pl" "q \<noteq> p" for q pl
  proof -
    have "sh_mapped sh a \<noteq> None" if "a \<in> region_addrs pl" for a
      using pool_okD [OF ok' \<open>sh_pool sh q = Some pl\<close>] that by (auto simp: pool_ok_def region_addrs_def)
    moreover have "p_data pool \<notin> region_addrs pl"
      using pools_disjoint [OF ok' p that(2,1)] by (auto simp: region_addrs_def regions_def)
    ultimately show ?thesis using res by blast
  qed
  have pools: "sh_pool sh' = (sh_pool sh)(p := Some pool')" by (simp add: sh' set_pool_def map_at_def unmap_def)
  have "pools_ok ((count_refs L sh)(p := count_refs L sh p)) sh'"
  proof (rule pools_ok_update [OF ok' pools])
    fix q pl a assume q: "q \<noteq> p" "sh_pool sh q = Some pl" "a \<in> region_addrs pl"
    have "p_data pool \<notin> region_addrs pl"
      using pools_disjoint [OF ok' p q(1,2)] by (auto simp: region_addrs_def regions_def)
    then show "sh_mapped sh' a = sh_mapped sh a"
      using fresh [OF q(2,1)] q(3) by (auto simp: sh' set_pool_def map_at_def unmap_def)
  next
    fix pl assume "Some pool' = Some pl"
    then have pl: "pl = pool'" by simp
    have unm: "res \<notin> fst ` set (regions pool)" if "p_external pool \<noteq> 0"
      using res that po by fastforce
    have "pool_ok sh' (count_refs L sh p) pool'"
    proof (cases "p_external pool = 0")
      case True
      then show ?thesis using po n by (simp add: pool_ok_def pool' sh' set_pool_def map_at_def unmap_def regions_def)
    next
      case False
      have "sh_mapped sh' a = Some z" if "(a, z) \<in> set (regions pool)" for a z
      proof -
        have "a \<noteq> res" using unm [OF False] that by force
        then show ?thesis using po that False by (auto simp: sh' set_pool_def map_at_def)
      qed
      moreover have "distinct (map fst (regions pool'))" using po unm [OF False] False by (simp add: pool' regions_def)
      moreover have "sh_mapped sh' res = Some n" by (simp add: sh' set_pool_def map_at_def)
      ultimately show ?thesis using po n False by (auto simp: pool_ok_def pool' regions_def)
    qed
    moreover have "region_addrs pool' \<subseteq> insert res (region_addrs pool)"
      using po by (auto simp: region_addrs_def regions_def pool')
    ultimately show "pool_ok sh' (count_refs L sh p) pl \<and>
        (\<forall>q pool'. q \<noteq> p \<longrightarrow> sh_pool sh q = Some pool' \<longrightarrow> region_addrs pl \<inter> region_addrs pool' = {})"
      using pools_disjoint [OF ok' p] fresh unfolding pl by blast
  qed
  then show ?thesis
  proof (rule shm_okI [OF ok])
    show "((count_refs L sh)(p := count_refs L sh p)) q = count_refs L sh' q" for q
      by (simp add: count_refs_def buffers_of_def sh' set_pool_def map_at_def unmap_def)
    show "finite (dom (sh_buffer sh'))" "L \<subseteq> dom (sh_pool sh')"
      using ok by (auto simp: pools shm_ok_def sh' set_pool_def map_at_def unmap_def)
    show "\<exists>pl. sh_pool sh' (b_pool buf) = Some pl \<and> in_bounds pl buf" if "sh_buffer sh' b = Some buf" for b buf
    proof -
      have "sh_buffer sh b = Some buf" using that by (simp add: sh' set_pool_def map_at_def unmap_def split: if_splits)
      then obtain pl where "sh_pool sh (b_pool buf) = Some pl" "in_bounds pl buf"
        using ok unfolding shm_ok_def by metis
      then show ?thesis using p n by (cases "b_pool buf = p") (auto simp: pools in_bounds_def pool')
    qed
  qed
qed

section \<open>Reachable states\<close>

text \<open>
  \<open>shm_reach L X\<close> are the states the operations lead to from a display without pools; \<open>L\<close> holds the
  pools whose resource is alive, \<open>X\<close> counts for each pool the references the compositor has taken and
  not given back.  \<open>malloc\<close> and \<open>mmap\<close> return addresses that are not in use, requests
  come on the resource of a pool, and a resize that fails has no external reference (see
  \<open>shm_resize_failure_unmaps\<close> for what happens otherwise).
\<close>

inductive shm_reach :: "env \<Rightarrow> shm_addrs \<Rightarrow> u64 set \<Rightarrow> (u64 \<Rightarrow> int) \<Rightarrow> shm \<Rightarrow> bool" for env ad where
  init: "sh_pool sh = Map.empty \<Longrightarrow> sh_buffer sh = Map.empty \<Longrightarrow> shm_reach env ad {} (\<lambda>_. 0) sh"
| server: "shm_reach env ad L X sh \<Longrightarrow> shm_reach env ad L X (sh\<lparr>sh_server := s\<rparr>)"
| create_pool: "shm_reach env ad L X sh \<Longrightarrow> sh_pool sh p = None \<Longrightarrow> sh_mapped sh res = None \<Longrightarrow>
    shm_create_pool env ad p ra res err memfd client r i f n sh = Some sh' \<Longrightarrow>
    shm_reach env ad (if sh_pool sh' p = None then L else insert p L) X sh'"
| create_buffer: "shm_reach env ad L X sh \<Longrightarrow> sh_buffer sh b = None \<Longrightarrow>
    wl_resource_get_user_data r (sh_server sh) = Some p \<Longrightarrow> p \<in> L \<Longrightarrow>
    shm_pool_create_buffer env ad b ra client r i offset width height stride format sh = Some sh' \<Longrightarrow>
    shm_reach env ad L X sh'"
| resize: "shm_reach env ad L X sh \<Longrightarrow> wl_resource_get_user_data r (sh_server sh) = Some p \<Longrightarrow> p \<in> L \<Longrightarrow>
    sh_pool sh p = Some pool \<Longrightarrow>
    (if res = MAP_FAILED then p_external pool = 0
     else sh_mapped sh res = None \<or> p_external pool = 0 \<and> res = p_data pool) \<Longrightarrow>
    shm_pool_resize env mem res r n sh = Some sh' \<Longrightarrow> shm_reach env ad L X sh'"
| destroy_buffer: "shm_reach env ad L X sh \<Longrightarrow> destroy_buffer r sh = Some sh' \<Longrightarrow> shm_reach env ad L X sh'"
| destroy_pool: "shm_reach env ad L X sh \<Longrightarrow> wl_resource_get_user_data r (sh_server sh) = Some p \<Longrightarrow> p \<in> L \<Longrightarrow>
    destroy_pool r sh = Some sh' \<Longrightarrow> shm_reach env ad (L - {p}) X sh'"
| ref: "shm_reach env ad L X sh \<Longrightarrow> wl_shm_buffer_ref_pool b sh = Some (p, sh') \<Longrightarrow>
    shm_reach env ad L (X(p := X p + 1)) sh'"
| unref: "shm_reach env ad L X sh \<Longrightarrow> wl_shm_pool_unref p sh = Some sh' \<Longrightarrow>
    shm_reach env ad L (X(p := X p - 1)) sh'"
| begin_access: "shm_reach env ad L X sh \<Longrightarrow> wl_shm_buffer_begin_access mem b sh = Some sh' \<Longrightarrow> shm_reach env ad L X sh'"
| end_access: "shm_reach env ad L X sh \<Longrightarrow> wl_shm_buffer_end_access env b sh = Some sh' \<Longrightarrow> shm_reach env ad L X sh'"
| sigbus: "shm_reach env ad L X sh \<Longrightarrow> sigbus_handler ok addr sh = Some sh' \<Longrightarrow> shm_reach env ad L X sh'"

definition same_shm :: "shm \<Rightarrow> shm \<Rightarrow> bool" where
  "same_shm sh sh' \<longleftrightarrow> sh_pool sh' = sh_pool sh \<and> sh_mapped sh' = sh_mapped sh \<and> sh_buffer sh' = sh_buffer sh"

lemma same_shm_ok: "same_shm sh sh' \<Longrightarrow> shm_ok L sh \<Longrightarrow> shm_ok L sh'"
  unfolding same_shm_def by (elim conjE) (rule shm_ok_cong)

lemma same_shm_server [simp]: "same_shm sh (sh\<lparr>sh_server := s\<rparr>)"
  by (simp add: same_shm_def)

lemma with_server_same: "with_server so sh = Some sh' \<Longrightarrow> same_shm sh sh'"
  by (auto simp: with_server_def)

lemma create_pool_ok:
  assumes ok: "shm_ok L sh" and p: "sh_pool sh p = None" and m: "sh_mapped sh res = None"
    and run: "shm_create_pool env ad p ra res err memfd client r i f n sh = Some sh'"
  shows "shm_ok (if sh_pool sh' p = None then L else insert p L) sh'"
proof (cases "n \<le> 0 \<or> p = 0 \<or> res = MAP_FAILED")
  case True
  then have "same_shm sh sh'"
    using run by (auto simp: shm_create_pool_def close_fd_def same_shm_def dest!: with_server_same split: if_splits bind_splits)
  then show ?thesis using same_shm_ok [OF _ ok] p by (simp add: same_shm_def)
next
  case False
  obtain q s1 where c: "wl_resource_create env ra client (wl_shm_pool_interface ad) 1 i (sh_server (map_at res n sh)) = Some (q, s1)"
    using run False by (auto simp: shm_create_pool_def Let_def split: bind_splits)
  show ?thesis
  proof (cases "q = 0")
    case True
    then obtain s2 where "sh' = unmap res ((map_at res n sh)\<lparr>sh_server := s2\<rparr>)"
      using run False c by (auto simp: shm_create_pool_def Let_def with_server_def split: bind_splits)
    then have "same_shm sh sh'" using m by (auto simp: same_shm_def unmap_def map_at_def)
    then show ?thesis using same_shm_ok [OF _ ok] p by (simp add: same_shm_def)
  next
    case q: False
    let ?pool = "\<lparr>p_resource = q, p_internal = 1, p_external = 0, p_data = res, p_size = n,
      p_new_size = n, p_fd = f, p_sigbus_impossible = sigbus_impossible memfd n, p_mappings = []\<rparr>"
    have sh': "same_shm (set_pool p (Some ?pool) (map_at res n sh)) sh'"
      using run False c q by (auto simp: shm_create_pool_def Let_def same_shm_def set_pool_def)
    have "shm_ok (insert p L) (set_pool p (Some ?pool) (map_at res n sh))"
      by (rule shm_ok_new_pool [OF ok p m]) (use False in simp_all)
    then have "shm_ok (insert p L) sh'" by (rule same_shm_ok [OF sh'])
    moreover have "sh_pool sh' p \<noteq> None" using sh' by (simp add: same_shm_def set_pool_def)
    ultimately show ?thesis by (simp only: if_False)
  qed
qed

lemma not_rejected:
  "\<not> buffer_rejected (p_size pool) offset width height stride \<Longrightarrow>
   in_bounds pool \<lparr>b_resource = r, b_width = width, b_height = height, b_stride = stride, b_format = f,
     b_offset = offset, b_pool = p\<rparr>"
proof -
  assume a: "\<not> buffer_rejected (p_size pool) offset width height stride"
  then have s: "0 < stride" "height \<le> INT32_MAX div stride" by (auto simp: buffer_rejected_def)
  have "stride * height \<le> stride * (INT32_MAX div stride)" using s by simp
  also have "\<dots> \<le> INT32_MAX" using s(1) by (simp add: minus_mod_eq_mult_div [symmetric])
  finally show ?thesis using a by (auto simp: buffer_rejected_def in_bounds_def)
qed

lemma create_buffer_ok:
  assumes ok: "shm_ok L sh" and b: "sh_buffer sh b = None"
    and u: "wl_resource_get_user_data r (sh_server sh) = Some p" and p: "p \<in> L"
    and run: "shm_pool_create_buffer env ad b ra client r i offset width height stride format sh = Some sh'"
  shows "shm_ok L sh'"
proof -
  obtain pool where pool: "sh_pool sh p = Some pool" using ok p by (auto simp: shm_ok_def)
  have po: "pool_ok sh (count_refs L sh p) pool" using ok pool pool_okD by (auto simp: shm_ok_def)
  show ?thesis
  proof (cases "\<not> format_is_supported format (sh_server sh) \<or> buffer_rejected (p_size pool) offset width height stride \<or> b = 0")
    case True
    then have "same_shm sh sh'"
      using run u pool by (auto simp: shm_pool_create_buffer_def dest!: with_server_same split: if_splits)
    then show ?thesis by (rule same_shm_ok [OF _ ok])
  next
    case False
    let ?sh1 = "set_pool p (Some (pool\<lparr>p_internal := p_internal pool + 1\<rparr>)) sh"
    obtain q s1 where c: "wl_resource_create env ra client (wl_buffer_interface ad) 1 i (sh_server ?sh1) = Some (q, s1)"
      using run False u pool by (auto simp: shm_pool_create_buffer_def Let_def split: bind_splits)
    show ?thesis
    proof (cases "q = 0")
      case True
      then obtain s2 where un: "shm_pool_unref p False (?sh1\<lparr>sh_server := s2\<rparr>) = Some sh'"
        using run False u pool c by (auto simp: shm_pool_create_buffer_def Let_def with_server_def split: bind_splits)
      then have "same_shm sh sh'"
        using pool po by (auto simp: shm_pool_unref_def set_pool_def same_shm_def pool_ok_def Let_def split: if_splits)
      then show ?thesis by (rule same_shm_ok [OF _ ok])
    next
      case q: False
      let ?buf = "\<lparr>b_resource = q, b_width = width, b_height = height, b_stride = stride, b_format = format,
        b_offset = offset, b_pool = p\<rparr>"
      have "in_bounds pool ?buf" by (rule not_rejected) (use False in simp)
      moreover have "sh' = set_buffer b (Some ?buf)
          (?sh1\<lparr>sh_server := wl_resource_set_implementation q (shm_buffer_interface ad) b (destroy_buffer_fn ad) s1\<rparr>)"
        using run False u pool c q by (simp add: shm_pool_create_buffer_def Let_def)
      ultimately show ?thesis
        by (intro shm_ok_new_buffer [OF ok pool b, where buf = ?buf]) (simp_all add: set_buffer_def set_pool_def)
    qed
  qed
qed

lemma resize_ok:
  assumes ok: "shm_ok L sh" and u: "wl_resource_get_user_data r (sh_server sh) = Some p" and pool: "sh_pool sh p = Some pool"
    and res: "if res = MAP_FAILED then p_external pool = 0
      else sh_mapped sh res = None \<or> p_external pool = 0 \<and> res = p_data pool"
    and run: "shm_pool_resize env mem res r n sh = Some sh'"
  shows "shm_ok L sh'"
proof -
  have ok': "pools_ok (count_refs L sh) sh" using ok by (simp add: shm_ok_def)
  note po = pool_okD [OF ok' pool, unfolded pool_ok_def]
  have same: "shm_ok L (set_pool p (Some (pool\<lparr>p_new_size := n\<rparr>)) sh)"
  proof -
    have "pools_ok ((count_refs L sh)(p := count_refs L sh p)) (set_pool p (Some (pool\<lparr>p_new_size := n\<rparr>)) sh)"
      by (rule pools_ok_same_regions [OF ok' pool])
         (use pool_okD [OF ok' pool] in \<open>auto simp: region_addrs_def regions_def pool_ok_def\<close>)
    then show ?thesis
      by (rule shm_okI [OF ok])
         (use ok pool in \<open>fastforce simp: shm_ok_def set_pool_def count_refs_def buffers_of_def in_bounds_def split: if_splits\<close>)+
  qed
  consider "n < p_size pool" | "n = p_size pool" | "p_size pool < n" "res = MAP_FAILED" | "p_size pool < n" "res \<noteq> MAP_FAILED"
    by linarith
  then show ?thesis
  proof cases
    case 1
    then show ?thesis using run u pool same_shm_ok [OF _ ok] by (auto simp: shm_pool_resize_def dest!: with_server_same)
  next
    case 2
    then show ?thesis using run u pool same by (simp add: shm_pool_resize_def)
  next
    case 3
    then have "with_server (wl_resource_post_error env (p_resource pool) WL_SHM_ERROR_INVALID_FD ''failed mremap'' (sh_server sh))
        (set_pool p (Some (pool\<lparr>p_new_size := n\<rparr>)) sh) = Some sh'"
      using run u pool res by (simp add: shm_pool_resize_def shm_pool_grow_mapping_def)
    then show ?thesis using same_shm_ok [OF _ same] with_server_same by blast
  next
    case 4
    let ?pool' = "pool\<lparr>p_new_size := n, p_mappings := (if p_external pool \<noteq> 0 then regions pool else p_mappings pool),
      p_data := res, p_size := n\<rparr>"
    have r: "sh_mapped sh res = None \<or> p_external pool = 0 \<and> res = p_data pool" using res 4 by simp
    then have "p_external pool \<noteq> 0 \<Longrightarrow> res \<noteq> p_data pool" using po by (auto simp: regions_def)
    then have "same_shm (set_pool p (Some ?pool') (map_at res n (if p_external pool \<noteq> 0 then sh else unmap (p_data pool) sh))) sh'"
      using run u pool 4
      by (cases pool) (auto simp: shm_pool_resize_def shm_pool_grow_mapping_def regions_def Let_def same_shm_def
          set_pool_def map_at_def map_anonymous_def split: if_splits)
    then show ?thesis using shm_ok_grow [OF ok pool 4(1) r refl refl] by (rule same_shm_ok)
  qed
qed

lemma ref_ok:
  assumes ok: "shm_ok L sh" and run: "wl_shm_buffer_ref_pool b sh = Some (p, sh')"
  shows "shm_ok L sh'"
proof -
  obtain pool where pool: "sh_pool sh p = Some pool" "sh' = set_pool p (Some (pool\<lparr>p_external := p_external pool + 1\<rparr>)) sh"
    using run by (auto simp: wl_shm_buffer_ref_pool_def split: bind_splits if_splits)
  have "0 \<le> p_external pool" using ok pool(1) pool_okD by (fastforce simp: shm_ok_def pool_ok_def)
  then show ?thesis unfolding pool(2) by (rule shm_ok_external [OF ok pool(1)])
qed

lemma access_same:
  "wl_shm_buffer_begin_access mem b sh = Some sh' \<Longrightarrow> same_shm sh sh'"
  "wl_shm_buffer_end_access env b sh = Some sh' \<Longrightarrow> same_shm sh sh'"
  by (auto simp: wl_shm_buffer_begin_access_def wl_shm_buffer_end_access_def same_shm_def with_server_def Let_def
      split: bind_splits if_splits option.splits)

lemma sigbus_same:
  assumes ok: "shm_ok L sh" and run: "sigbus_handler m addr sh = Some sh'"
  shows "same_shm sh sh'"
proof -
  have "(sh_mapped sh)(p_data pool \<mapsto> p_size pool) = sh_mapped sh" if "sh_pool sh p = Some pool" for p pool
    using ok that pool_okD by (fastforce simp: shm_ok_def pool_ok_def regions_def fun_upd_idem)
  then show ?thesis
    using run by (auto simp: sigbus_handler_def same_shm_def reraise_sigbus_def map_anonymous_def Let_def
        split: bind_splits if_splits option.splits)
qed

lemma shm_reach_ok: "shm_reach env ad L X sh \<Longrightarrow> shm_ok L sh"
proof (induction rule: shm_reach.induct)
  case (init sh)
  then show ?case by (simp add: shm_ok_def pools_ok_def)
next
  case (server L X sh s)
  then show ?case using same_shm_ok [OF same_shm_server] by blast
next
  case (create_pool L X sh p res ra err memfd client r i f n sh')
  show ?case by (rule create_pool_ok [OF create_pool.IH create_pool.hyps(2-4)])
next
  case (create_buffer L X sh b r p ra client i offset width height stride format sh')
  show ?case by (rule create_buffer_ok [OF create_buffer.IH create_buffer.hyps(2-5)])
next
  case (resize L X sh r p pool res mem n sh')
  show ?case by (rule resize_ok [OF resize.IH resize.hyps(2,4-6)])
next
  case (destroy_buffer L X sh r sh')
  then obtain b buf sh1 where d: "sh_buffer sh b = Some buf" "shm_pool_unref (b_pool buf) False sh = Some sh1"
    "sh' = set_buffer b None sh1"
    by (auto simp: destroy_buffer_def split: bind_splits)
  show ?case unfolding d(3) by (rule shm_ok_destroy_buffer [OF destroy_buffer.IH d(1,2)])
next
  case (destroy_pool L X sh r p sh')
  then have "shm_pool_unref p False sh = Some sh'" by (simp add: destroy_pool_def)
  then show ?case by (rule shm_ok_destroy_pool [OF destroy_pool.IH destroy_pool.hyps(3)])
next
  case (ref L X sh b p sh')
  show ?case by (rule ref_ok [OF ref.IH ref.hyps(2)])
next
  case (unref L X sh p sh')
  show ?case by (rule shm_ok_unref [OF unref.IH unref.hyps(2)])
next
  case (begin_access L X sh mem b sh')
  then show ?case using access_same(1) same_shm_ok by blast
next
  case (end_access L X sh b sh')
  then show ?case using access_same(2) same_shm_ok by blast
next
  case (sigbus L X sh m addr sh')
  then show ?case using sigbus_same same_shm_ok by blast
qed

text \<open>The external count of a pool is the number of references the compositor holds.\<close>

definition ext_refs :: "shm \<Rightarrow> u64 \<Rightarrow> int" where
  "ext_refs sh p = (case sh_pool sh p of None \<Rightarrow> 0 | Some pool \<Rightarrow> p_external pool)"

lemma ext_refs_cong: "sh_pool sh' = sh_pool sh \<Longrightarrow> ext_refs sh' = ext_refs sh"
  by (simp add: ext_refs_def fun_eq_iff)

lemma ext_refs_same: "same_shm sh sh' \<Longrightarrow> ext_refs sh' = ext_refs sh"
  by (rule ext_refs_cong) (simp add: same_shm_def)

lemma ext_refs_set_pool:
  "sh_pool sh p = Some pool \<Longrightarrow> p_external pool' = p_external pool \<Longrightarrow> ext_refs (set_pool p (Some pool') sh) = ext_refs sh"
  by (simp add: ext_refs_def set_pool_def fun_eq_iff)

lemma ext_refs_unref:
  assumes "shm_ok L sh" "shm_pool_unref p external sh = Some sh'"
  shows "ext_refs sh' = (ext_refs sh)(p := ext_refs sh p - (if external then 1 else 0))"
proof -
  obtain pool where pool: "sh_pool sh p = Some pool" using unref_pool [OF assms(2)] by blast
  have "0 \<le> p_internal pool" "0 \<le> p_external pool"
    using assms(1) pool pool_okD by (fastforce simp: shm_ok_def pool_ok_def)+
  with assms(2) pool show ?thesis
    by (auto simp: shm_pool_unref_def ext_refs_def set_pool_def unmap_def unmap_all_effect fun_eq_iff Let_def
        split: if_splits)
qed

lemma create_pool_refs:
  assumes "sh_pool sh p = None" "shm_create_pool env ad p ra res err memfd client r i f n sh = Some sh'"
  shows "ext_refs sh' = ext_refs sh"
  using assms
  by (auto simp: shm_create_pool_def Let_def with_server_def map_at_def unmap_def set_pool_def ext_refs_def
      close_fd_def fun_eq_iff split: if_splits bind_splits)

lemma create_buffer_refs:
  assumes ok: "shm_ok L sh" and run: "shm_pool_create_buffer env ad b ra client r i offset width height stride format sh = Some sh'"
  shows "ext_refs sh' = ext_refs sh"
proof -
  obtain p where u: "wl_resource_get_user_data r (sh_server sh) = Some p"
    using run by (auto simp: shm_pool_create_buffer_def split: bind_splits)
  show ?thesis
  proof (cases "format_is_supported format (sh_server sh)")
    case False
    then have "same_shm sh sh'" using run u by (auto simp: shm_pool_create_buffer_def dest!: with_server_same)
    then show ?thesis by (rule ext_refs_same)
  next
    case fmt: True
    then obtain pool where pool: "sh_pool sh p = Some pool"
      using run u by (auto simp: shm_pool_create_buffer_def split: bind_splits)
    show ?thesis
    proof (cases "buffer_rejected (p_size pool) offset width height stride \<or> b = 0")
      case True
      then have "same_shm sh sh'"
        using run u pool fmt by (auto simp: shm_pool_create_buffer_def dest!: with_server_same split: if_splits)
      then show ?thesis by (rule ext_refs_same)
    next
      case False
      let ?pool1 = "pool\<lparr>p_internal := p_internal pool + 1\<rparr>"
      let ?sh1 = "set_pool p (Some ?pool1) sh"
      have e1: "ext_refs ?sh1 = ext_refs sh" by (rule ext_refs_set_pool [OF pool]) simp
      obtain q s1 where c: "wl_resource_create env ra client (wl_buffer_interface ad) 1 i (sh_server ?sh1) = Some (q, s1)"
        using run False u pool fmt by (auto simp: shm_pool_create_buffer_def Let_def split: bind_splits)
      show ?thesis
      proof (cases "q = 0")
        case True
        then obtain s2 where un: "shm_pool_unref p False (?sh1\<lparr>sh_server := s2\<rparr>) = Some sh'"
          using run False u pool c fmt by (auto simp: shm_pool_create_buffer_def Let_def with_server_def split: bind_splits)
        have "0 \<le> p_internal pool" "0 \<le> p_external pool" "0 < p_internal pool + p_external pool"
          using ok pool pool_okD by (fastforce simp: shm_ok_def pool_ok_def)+
        with un pool show ?thesis
          by (auto simp: shm_pool_unref_def ext_refs_def set_pool_def fun_eq_iff Let_def split: if_splits)
      next
        case q: False
        have "sh_pool sh' = sh_pool ?sh1"
          using run False u pool c q fmt by (auto simp: shm_pool_create_buffer_def Let_def set_buffer_def)
        from ext_refs_cong [OF this] show ?thesis unfolding e1 .
      qed
    qed
  qed
qed

lemma resize_refs:
  assumes "shm_pool_resize env mem res r n sh = Some sh'"
  shows "ext_refs sh' = ext_refs sh"
  using assms
  by (auto simp: shm_pool_resize_def shm_pool_grow_mapping_def Let_def with_server_def map_at_def map_anonymous_def
      unmap_def set_pool_def ext_refs_def fun_eq_iff split: if_splits bind_splits)

lemma shm_reach_refs: "shm_reach env ad L X sh \<Longrightarrow> ext_refs sh = X"
proof (induction rule: shm_reach.induct)
  case (init sh)
  then show ?case by (simp add: ext_refs_def fun_eq_iff)
next
  case (server L X sh s)
  have "ext_refs (sh\<lparr>sh_server := s\<rparr>) = ext_refs sh" by (rule ext_refs_cong) simp
  then show ?case using server.IH by simp
next
  case (create_pool L X sh p res ra err memfd client r i f n sh')
  show ?case using create_pool_refs [OF create_pool.hyps(2,4)] create_pool.IH by simp
next
  case (create_buffer L X sh b r p ra client i offset width height stride format sh')
  show ?case using create_buffer_refs [OF shm_reach_ok [OF create_buffer.hyps(1)] create_buffer.hyps(5)] create_buffer.IH by simp
next
  case (resize L X sh r p pool res mem n sh')
  show ?case using resize_refs [OF resize.hyps(6)] resize.IH by simp
next
  case (destroy_buffer L X sh r sh')
  then obtain b buf sh1 where d: "shm_pool_unref (b_pool buf) False sh = Some sh1" "sh' = set_buffer b None sh1"
      "sh_buffer sh b = Some buf"
    by (auto simp: destroy_buffer_def split: bind_splits)
  have "ext_refs sh' = ext_refs sh1" by (rule ext_refs_cong) (simp add: d(2) set_buffer_def)
  then show ?case
    using ext_refs_unref [OF shm_reach_ok [OF destroy_buffer.hyps(1)] d(1)] destroy_buffer.IH by simp
next
  case (destroy_pool L X sh r p sh')
  then have "shm_pool_unref p False sh = Some sh'" by (simp add: destroy_pool_def)
  from ext_refs_unref [OF shm_reach_ok [OF destroy_pool.hyps(1)] this] destroy_pool.IH show ?case by simp
next
  case (ref L X sh b p sh')
  from ref.hyps(2) obtain pool where pool: "sh_pool sh p = Some pool"
    "sh' = set_pool p (Some (pool\<lparr>p_external := p_external pool + 1\<rparr>)) sh"
    by (auto simp: wl_shm_buffer_ref_pool_def split: bind_splits if_splits)
  then have "ext_refs sh' = (ext_refs sh)(p := ext_refs sh p + 1)"
    by (simp add: set_pool_def ext_refs_def fun_eq_iff)
  then show ?case using ref.IH by simp
next
  case (unref L X sh p sh')
  from ext_refs_unref [OF shm_reach_ok [OF unref.hyps(1)] unref.hyps(2) [unfolded wl_shm_pool_unref_def]] unref.IH
  show ?case by simp
next
  case (begin_access L X sh mem b sh')
  show ?case using ext_refs_same [OF access_same(1) [OF begin_access.hyps(2)]] begin_access.IH by simp
next
  case (end_access L X sh b sh')
  show ?case using ext_refs_same [OF access_same(2) [OF end_access.hyps(2)]] end_access.IH by simp
next
  case (sigbus L X sh m addr sh')
  show ?case using ext_refs_same [OF sigbus_same [OF shm_reach_ok [OF sigbus.hyps(1)] sigbus.hyps(2)]] sigbus.IH by simp
qed

section \<open>Properties\<close>

text \<open>C5: In every reachable state the compositor can read a whole buffer: its pool exists and is
  mapped, and the bytes from the offset of the buffer to the end of its last row lie within the
  mapping, whatever sizes the client asked for, however it resized the pool, and whether or not it
  destroyed the pool.  The counts are exact: the internal one is the number of the pool's buffers,
  plus one while its resource is alive, and the external one is the number \<open>X\<close> of the references
  the compositor has taken and not given back.  Reachable states leave out one step: a resize whose
  \<open>mremap\<close> fails while the compositor holds a reference, after which the statement does not hold.\<close>

theorem shm_buffers_in_bounds:
  assumes reach: "shm_reach env ad L X sh" and b: "sh_buffer sh b = Some buf"
  shows "\<exists>pool. sh_pool sh (b_pool buf) = Some pool \<and> sh_mapped sh (p_data pool) = Some (p_size pool) \<and>
    0 \<le> b_offset buf \<and> 0 < b_stride buf * b_height buf \<and> b_stride buf * b_height buf \<le> INT32_MAX \<and>
    b_offset buf + b_stride buf * b_height buf \<le> p_size pool \<and> p_external pool = X (b_pool buf) \<and>
    p_internal pool = int (card {c. \<exists>bf. sh_buffer sh c = Some bf \<and> b_pool bf = b_pool buf}) +
      (if b_pool buf \<in> L then 1 else 0)"
proof -
  have ok: "shm_ok L sh" by (rule shm_reach_ok [OF reach])
  obtain pool where pool: "sh_pool sh (b_pool buf) = Some pool" "in_bounds pool buf"
    using ok b unfolding shm_ok_def by metis
  have po: "pool_ok sh (count_refs L sh (b_pool buf)) pool" using ok pool(1) pool_okD by (auto simp: shm_ok_def)
  have "p_external pool = X (b_pool buf)"
    using shm_reach_refs [OF reach] pool(1) by (auto simp: ext_refs_def)
  moreover have "0 < b_stride buf * b_height buf" using pool(2) by (simp add: in_bounds_def)
  ultimately show ?thesis
    using pool po by (auto simp: in_bounds_def pool_ok_def regions_def count_refs_def buffers_of_def)
qed

text \<open>C31: The exception: when growing a pool fails while the compositor holds a reference, the
  mapping still in use is put on the list of old mappings, so dropping that reference unmaps it,
  although the pool and its buffers live on and still point there.\<close>

theorem shm_resize_failure_unmaps:
  assumes u: "wl_resource_get_user_data r (sh_server sh) = Some p" and pool: "sh_pool sh p = Some pool"
    and "p_external pool = 1" "0 < p_internal pool" "p_size pool < n" "p_data pool \<noteq> MAP_FAILED"
    and run: "shm_pool_resize env True MAP_FAILED r n sh = Some sh1"
  shows "\<exists>sh2 pool2. wl_shm_pool_unref p sh1 = Some sh2 \<and> sh_pool sh2 p = Some pool2 \<and>
    p_data pool2 = p_data pool \<and> p_size pool2 = p_size pool \<and> sh_mapped sh2 (p_data pool2) = None \<and>
    sh_buffer sh2 = sh_buffer sh"
proof -
  let ?pool1 = "pool\<lparr>p_new_size := n, p_mappings := (p_data pool, p_size pool) # p_mappings pool\<rparr>"
  have "with_server (wl_resource_post_error env (p_resource pool) WL_SHM_ERROR_INVALID_FD ''failed mremap'' (sh_server sh))
      (set_pool p (Some ?pool1) sh) = Some sh1"
    using assms by (simp add: shm_pool_resize_def shm_pool_grow_mapping_def)
  then have s1: "sh_pool sh1 p = Some ?pool1" "sh_buffer sh1 = sh_buffer sh"
    by (auto simp: with_server_def set_pool_def)
  let ?sh2 = "set_pool p (Some (?pool1\<lparr>p_external := 0, p_mappings := []\<rparr>)) (unmap_all (p_mappings ?pool1) sh1)"
  have "wl_shm_pool_unref p sh1 = Some ?sh2"
    using s1(1) assms(3,4) by (simp add: wl_shm_pool_unref_def shm_pool_unref_def)
  then show ?thesis
    using s1(2) by (intro exI [of _ ?sh2]) (auto simp: set_pool_def unmap_all_effect)
qed

definition sample_pool :: wl_shm_pool where
  "sample_pool = \<lparr>p_resource = 32, p_internal = 1, p_external = 1, p_data = 65536, p_size = 4096, p_new_size = 4096,
     p_fd = 9, p_sigbus_impossible = False, p_mappings = []\<rparr>"

text \<open>A client without a display resource, to whom no error can be sent, with a pool and a buffer.\<close>

definition shm_sample :: shm where
  "shm_sample = \<lparr>sh_server = sample_server\<lparr>s_client := [4096 \<mapsto> sample_client 0 32],
       s_res := [32 \<mapsto> (sample_res 2 2 4096)\<lparr>r_data := 900\<rparr>]\<rparr>,
     sh_pool = [900 \<mapsto> sample_pool],
     sh_buffer = Map.empty, sh_mapped = [65536 \<mapsto> 4096], sh_anon = {}, sh_sigbus = None, sh_raised = False\<rparr>"

lemma shm_resize_failure_unmaps_witness:
  "\<exists>sh1 sh2. shm_pool_resize sample_env True MAP_FAILED 32 8192 shm_sample = Some sh1 \<and>
     wl_shm_pool_unref 900 sh1 = Some sh2 \<and> sh_pool sh2 900 \<noteq> None \<and> sh_mapped sh2 65536 = None"
proof -
  have d: "wl_resource_get_user_data 32 (sh_server shm_sample) = Some 900"
    by (simp add: shm_sample_def wl_resource_get_user_data_def)
  have p: "sh_pool shm_sample 900 = Some \<lparr>p_resource = 32, p_internal = 1, p_external = 1, p_data = 65536, p_size = 4096,
      p_new_size = 4096, p_fd = 9, p_sigbus_impossible = False, p_mappings = []\<rparr>"
    by (simp add: shm_sample_def sample_pool_def)
  have "wl_resource_post_error sample_env 32 e t (sh_server shm_sample) = Some (sh_server shm_sample)" for e t
    by (simp add: shm_sample_def wl_resource_post_error_def wl_resource_post_error_vargs_def sample_res_def sample_client_def)
  then obtain sh1 where r: "shm_pool_resize sample_env True MAP_FAILED 32 8192 shm_sample = Some sh1"
    using d p by (simp add: shm_pool_resize_def shm_pool_grow_mapping_def with_server_def MAP_FAILED_def)
  from shm_resize_failure_unmaps [OF d p _ _ _ _ r] r show ?thesis by (fastforce simp: MAP_FAILED_def)
qed

definition shm_sample_addrs :: shm_addrs where
  "shm_sample_addrs = \<lparr>wl_buffer_interface = 1001, wl_shm_pool_interface = 1002, wl_shm_interface = 1003,
     shm_buffer_interface = 1004, shm_pool_interface = 1005, shm_interface = 1006,
     destroy_buffer_fn = 1007, destroy_pool_fn = 1008, bind_shm_fn = 1009\<rparr>"

lemma sample_create:
  assumes "s_client s 4096 = Some (sample_client 16 32)" "alloc_script (s_os s) = []" "a \<noteq> 0" "ptr_aligned a"
  shows "\<exists>s1. wl_resource_create sample_env a 4096 iface v 3 s = Some (a, s1)"
proof -
  have q: "quiet_env sample_env" by (simp add: quiet_env_def notify_def sample_env_def)
  have ok: "map_ok (c_objects (sample_client 16 32))"
    by (simp add: sample_client_def map_ok_def own_entries_def other_entries_def free_ids_def
        WL_MAP_SERVER_SIDE_def WL_MAP_CLIENT_SIDE_def max_entries_def map_entry_is_free_def less_Suc_eq numeral_3_eq_3)
  have u: "id_usable (c_objects (sample_client 16 32)) 3"
    by (simp add: sample_client_def id_usable_def id_index_def id_entries_def WL_SERVER_ID_START_def
        max_entries_def free_ids_def own_entries_def WL_MAP_CLIENT_SIDE_def)
  show ?thesis using create_spec [OF q assms(1) ok assms(3,4) u assms(2)] by metis
qed

lemma shm_buffers_in_bounds_witness:
  "\<exists>L X sh buf. shm_reach sample_env shm_sample_addrs L X sh \<and> X 900 = 1 \<and> sh_buffer sh 700 = Some buf \<and>
     b_offset buf = 96 \<and> b_stride buf * b_height buf = 4000 \<and>
     (\<exists>pool. sh_pool sh (b_pool buf) = Some pool \<and> p_external pool = 1 \<and> b_offset buf + b_stride buf * b_height buf \<le> p_size pool)"
proof -
  let ?s = "sample_server\<lparr>s_res := (s_res sample_server)(32 \<mapsto> (sample_res 2 2 4096)\<lparr>r_data := 900\<rparr>)\<rparr>"
  let ?sh0 = "\<lparr>sh_server = ?s, sh_pool = Map.empty, sh_buffer = Map.empty, sh_mapped = Map.empty, sh_anon = {}, sh_sigbus = None,
    sh_raised = False\<rparr>"
  have cl: "s_client ?s 4096 = Some (sample_client 16 32)" "alloc_script (s_os ?s) = []"
    by (simp_all add: sample_server_simps os_init_def)
  have al: "ptr_aligned 128" by (simp add: ptr_aligned_def)
  have r0: "shm_reach sample_env shm_sample_addrs {} (\<lambda>_. 0) ?sh0" by (rule shm_reach.init) simp_all
  obtain s1 where s1: "wl_resource_create sample_env 128 4096 (wl_shm_pool_interface shm_sample_addrs) 1 3 ?s = Some (128, s1)"
    using sample_create [OF cl, of 128] al by auto
  then obtain sh1 where sh1: "shm_create_pool sample_env shm_sample_addrs 900 128 65536 [] None 4096 48 3 9 4096 ?sh0 = Some sh1"
    "sh_pool sh1 = [900 \<mapsto> \<lparr>p_resource = 128, p_internal = 1, p_external = 0, p_data = 65536, p_size = 4096,
       p_new_size = 4096, p_fd = 9, p_sigbus_impossible = False, p_mappings = []\<rparr>]" "sh_buffer sh1 = Map.empty"
    by (simp add: shm_create_pool_def MAP_FAILED_def map_at_def set_pool_def sigbus_impossible_def)
  have r1: "shm_reach sample_env shm_sample_addrs {900} (\<lambda>_. 0) sh1"
    using shm_reach.create_pool [OF r0 _ _ sh1(1)] sh1(2) by simp
  let ?sh2 = "sh1\<lparr>sh_server := ?s\<rparr>"
  have r2: "shm_reach sample_env shm_sample_addrs {900} (\<lambda>_. 0) ?sh2" by (rule shm_reach.server [OF r1])
  obtain s3 where s3: "wl_resource_create sample_env 128 4096 (wl_buffer_interface shm_sample_addrs) 1 3 ?s = Some (128, s3)"
    using sample_create [OF cl, of 128] al by auto
  have d: "wl_resource_get_user_data 32 (sh_server ?sh2) = Some 900" by (simp add: wl_resource_get_user_data_def)
  obtain sh3 where sh3: "shm_pool_create_buffer sample_env shm_sample_addrs 700 128 4096 32 3 96 100 10 400 0 ?sh2 = Some sh3"
    "sh_buffer sh3 700 = Some \<lparr>b_resource = 128, b_width = 100, b_height = 10, b_stride = 400, b_format = 0,
       b_offset = 96, b_pool = 900\<rparr>"
    using d sh1(2,3) s3
    by (simp add: shm_pool_create_buffer_def format_is_supported_def WL_SHM_FORMAT_ARGB8888_def buffer_rejected_def
        INT32_MAX_def set_pool_def set_buffer_def)
  have r3: "shm_reach sample_env shm_sample_addrs {900} (\<lambda>_. 0) sh3"
    by (rule shm_reach.create_buffer [OF r2 _ d _ sh3(1)]) (simp_all add: sh1(3))
  obtain pool where pool: "sh_pool sh3 900 = Some pool"
    using shm_reach_ok [OF r3] sh3(2) unfolding shm_ok_def by fastforce
  have "0 < p_internal pool + p_external pool"
    using shm_reach_ok [OF r3] pool pool_okD by (fastforce simp: shm_ok_def pool_ok_def)
  with pool obtain sh4 where sh4: "wl_shm_buffer_ref_pool 700 sh3 = Some (900, sh4)" "sh_buffer sh4 = sh_buffer sh3"
    using sh3(2) by (auto simp: wl_shm_buffer_ref_pool_def set_pool_def)
  have r4: "shm_reach sample_env shm_sample_addrs {900} ((\<lambda>_. 0)(900 := 1)) sh4"
    using shm_reach.ref [OF r3 sh4(1)] by simp
  have b4: "sh_buffer sh4 700 = Some \<lparr>b_resource = 128, b_width = 100, b_height = 10, b_stride = 400, b_format = 0,
       b_offset = 96, b_pool = 900\<rparr>" using sh3(2) sh4(2) by simp
  from shm_buffers_in_bounds [OF r4 b4] r4 b4 show ?thesis by fastforce
qed

section \<open>Protected accesses\<close>

definition no_access :: wl_shm_sigbus_data where
  "no_access = \<lparr>current_pool = 0, access_count = 0, fallback_mapping_used = False\<rparr>"

definition idle_access :: "shm \<Rightarrow> bool" where
  "idle_access sh \<longleftrightarrow> (case sh_sigbus sh of None \<Rightarrow> True
     | Some d \<Rightarrow> current_pool d = 0 \<and> access_count d = 0 \<and> \<not> fallback_mapping_used d)"



end
