(* ===== verification/Socket.thy ===== *)
theory Socket
  imports Client
begin

text \<open>
  The listening sockets of wayland-server/wayland-server.c: the lock file that keeps two
  compositors from serving the same name, the names \<open>wayland-0\<close> to \<open>wayland-32\<close> that are tried,
  and the creation and destruction of the display, which owns the sockets.  The directory that
  the compositors share is part of the state; its operations follow the documented behaviour of
  \<open>open\<close>, \<open>flock\<close>, \<open>lstat\<close>, \<open>unlink\<close>, \<open>bind\<close>, \<open>listen\<close> and \<open>close\<close>.
\<close>

section \<open>The shared directory\<close>

text \<open>
  Names lead to inodes.  A lock belongs to the descriptor that took it and a listening socket to
  the descriptor that is bound to the inode; both end when the descriptor is closed.  Descriptors
  are numbered through for all processes, as none of them is shared.  A system call that can fail
  for a reason that does not show in this state (permissions, descriptor tables, memory) reads its
  outcome from \<open>f_script\<close>.
\<close>

record filesys =
  f_dir :: "string \<Rightarrow> nat option"
  f_writable :: "nat \<Rightarrow> bool"
  f_lock :: "nat \<Rightarrow> int option"
  f_sock :: "nat \<Rightarrow> int option"
  f_file :: "int \<Rightarrow> nat option"
  f_listening :: "int \<Rightarrow> bool"
  f_closed :: "int list"
  f_inodes :: nat
  f_descriptors :: nat
  f_umask :: bool
  f_script :: "errno option list"

definition sys_outcome :: "filesys \<Rightarrow> errno option \<times> filesys" where
  "sys_outcome fs =
     (case f_script fs of [] \<Rightarrow> (None, fs) | r # rs \<Rightarrow> (r, fs\<lparr>f_script := rs\<rparr>))"

definition new_descriptor :: "filesys \<Rightarrow> int \<times> filesys" where
  "new_descriptor fs = (int (f_descriptors fs), fs\<lparr>f_descriptors := f_descriptors fs + 1\<rparr>)"

text \<open>A file that is created gets a new inode; \<open>f_umask\<close> tells whether user or group may write it.\<close>

definition create_file :: "string \<Rightarrow> bool \<Rightarrow> filesys \<Rightarrow> nat \<times> filesys" where
  "create_file p wr fs =
     (let i = f_inodes fs in
      (i, fs\<lparr>f_inodes := i + 1, f_dir := (f_dir fs)(p := Some i), f_writable := (f_writable fs)(i := wr)\<rparr>))"

definition sys_open_lockfile :: "string \<Rightarrow> filesys \<Rightarrow> (errno + int) \<times> filesys" where
  "sys_open_lockfile p fs =
     (case sys_outcome fs of
        (Some e, fs1) \<Rightarrow> (Inl e, fs1)
      | (None, fs1) \<Rightarrow>
          let (i, fs2) = (case f_dir fs1 p of Some i \<Rightarrow> (i, fs1) | None \<Rightarrow> create_file p True fs1);
              (fd, fs3) = new_descriptor fs2
          in (Inr fd, fs3\<lparr>f_file := (f_file fs3)(fd := Some i)\<rparr>))"

definition sys_flock :: "int \<Rightarrow> filesys \<Rightarrow> (errno + unit) \<times> filesys" where
  "sys_flock fd fs =
     (case sys_outcome fs of
        (Some e, fs1) \<Rightarrow> (Inl e, fs1)
      | (None, fs1) \<Rightarrow>
          (case f_file fs1 fd of
             None \<Rightarrow> (Inl EINVAL, fs1)
           | Some i \<Rightarrow>
               if f_lock fs1 i = None \<or> f_lock fs1 i = Some fd
               then (Inr (), fs1\<lparr>f_lock := (f_lock fs1)(i := Some fd)\<rparr>)
               else (Inl EAGAIN, fs1)))"

text \<open>The result tells whether user or group may write the file.\<close>

definition sys_lstat :: "string \<Rightarrow> filesys \<Rightarrow> (errno + bool) \<times> filesys" where
  "sys_lstat p fs =
     (case sys_outcome fs of
        (Some e, fs1) \<Rightarrow> (Inl e, fs1)
      | (None, fs1) \<Rightarrow> (case f_dir fs1 p of None \<Rightarrow> (Inl ENOENT, fs1) | Some i \<Rightarrow> (Inr (f_writable fs1 i), fs1)))"

definition sys_unlink :: "string \<Rightarrow> filesys \<Rightarrow> filesys" where
  "sys_unlink p fs =
     (case sys_outcome fs of
        (Some e, fs1) \<Rightarrow> fs1
      | (None, fs1) \<Rightarrow> fs1\<lparr>f_dir := (f_dir fs1)(p := None)\<rparr>)"

definition sys_closefd :: "int \<Rightarrow> filesys \<Rightarrow> filesys" where
  "sys_closefd fd fs =
     fs\<lparr>f_file := (f_file fs)(fd := None),
        f_lock := (\<lambda>i. if f_lock fs i = Some fd then None else f_lock fs i),
        f_sock := (\<lambda>i. if f_sock fs i = Some fd then None else f_sock fs i),
        f_listening := (f_listening fs)(fd := False),
        f_closed := f_closed fs @ [fd]\<rparr>"

definition sys_socket :: "filesys \<Rightarrow> (errno + int) \<times> filesys" where
  "sys_socket fs =
     (case sys_outcome fs of
        (Some e, fs1) \<Rightarrow> (Inl e, fs1)
      | (None, fs1) \<Rightarrow> (case new_descriptor fs1 of (fd, fs2) \<Rightarrow> (Inr fd, fs2)))"

definition sys_bind :: "int \<Rightarrow> string \<Rightarrow> filesys \<Rightarrow> (errno + unit) \<times> filesys" where
  "sys_bind fd p fs =
     (case sys_outcome fs of
        (Some e, fs1) \<Rightarrow> (Inl e, fs1)
      | (None, fs1) \<Rightarrow>
          if f_dir fs1 p \<noteq> None then (Inl EADDRINUSE, fs1)
          else (case create_file p (f_umask fs1) fs1 of (i, fs2) \<Rightarrow>
            (Inr (), fs2\<lparr>f_sock := (f_sock fs2)(i := Some fd), f_file := (f_file fs2)(fd := Some i)\<rparr>)))"

definition sys_listen :: "int \<Rightarrow> filesys \<Rightarrow> (errno + unit) \<times> filesys" where
  "sys_listen fd fs =
     (case sys_outcome fs of
        (Some e, fs1) \<Rightarrow> (Inl e, fs1)
      | (None, fs1) \<Rightarrow> (Inr (), fs1\<lparr>f_listening := (f_listening fs1)(fd := True)\<rparr>))"

text \<open>The socket that a client reaches that connects to a name.\<close>

definition sys_connect :: "string \<Rightarrow> filesys \<Rightarrow> int option" where
  "sys_connect p fs = do {
     i \<leftarrow> f_dir fs p;
     fd \<leftarrow> f_sock fs i;
     if f_listening fs fd then Some fd else None }"

section \<open>A socket\<close>

text \<open>The strings are those up to the first zero byte; a source of 0 is \<open>NULL\<close>.\<close>

record wl_socket =
  so_fd :: int
  so_fd_lock :: int
  so_path :: string
  so_lock :: string
  so_source :: saddr
  so_name :: string

definition UNIX_PATH_MAX :: nat where "UNIX_PATH_MAX = 108"
definition LOCK_SUFFIX :: string where "LOCK_SUFFIX = ''.lock''"
definition LOCK_SUFFIXLEN :: nat where "LOCK_SUFFIXLEN = 5"

definition wl_socket_alloc :: wl_socket where
  "wl_socket_alloc =
     \<lparr>so_fd = - 1, so_fd_lock = - 1, so_path = [], so_lock = [], so_source = 0, so_name = []\<rparr>"

text \<open>
  \<open>snprintf\<close> cuts off what does not fit.  The file name of the lock never is too long
  (lemma \<open>lock_name_fits\<close>).
\<close>

definition snprintf :: "nat \<Rightarrow> string \<Rightarrow> string" where
  "snprintf n text = take (n - 1) text"

definition lock_open :: "wl_socket \<Rightarrow> filesys \<Rightarrow> bool \<times> wl_socket \<times> filesys" where
  "lock_open s fs =
     (let s1 = s\<lparr>so_lock := snprintf (UNIX_PATH_MAX + LOCK_SUFFIXLEN) (so_path s @ LOCK_SUFFIX)\<rparr> in
      case sys_open_lockfile (so_lock s1) fs of
        (Inl e, fs1) \<Rightarrow> (False, s1\<lparr>so_fd_lock := - 1\<rparr>, fs1)
      | (Inr fd, fs1) \<Rightarrow> (True, s1\<lparr>so_fd_lock := fd\<rparr>, fs1))"

definition lock_err :: "wl_socket \<Rightarrow> wl_socket" where
  "lock_err s = s\<lparr>so_lock := [], so_path := []\<rparr>"

definition lock_err_fd :: "wl_socket \<Rightarrow> filesys \<Rightarrow> int \<times> wl_socket \<times> filesys" where
  "lock_err_fd s fs = (- 1, lock_err (s\<lparr>so_fd_lock := - 1\<rparr>), sys_closefd (so_fd_lock s) fs)"

text \<open>What is found under the name of the socket after the lock was taken is left over.\<close>

definition lock_clear :: "wl_socket \<Rightarrow> filesys \<Rightarrow> int \<times> wl_socket \<times> filesys" where
  "lock_clear s fs =
     (case sys_lstat (so_path s) fs of
        (Inl e, fs1) \<Rightarrow> if e \<noteq> ENOENT then lock_err_fd s fs1 else (0, s, fs1)
      | (Inr wr, fs1) \<Rightarrow> (0, s, if wr then sys_unlink (so_path s) fs1 else fs1))"

definition wl_socket_lock :: "wl_socket \<Rightarrow> filesys \<Rightarrow> int \<times> wl_socket \<times> filesys" where
  "wl_socket_lock s fs =
     (case lock_open s fs of (opened, s1, fs1) \<Rightarrow>
        if \<not> opened then (- 1, lock_err s1, fs1)
        else (case sys_flock (so_fd_lock s1) fs1 of
          (Inl _, fs2) \<Rightarrow> lock_err_fd s1 fs2
        | (Inr _, fs2) \<Rightarrow> lock_clear s1 fs2))"

text \<open>\<open>runtime_dir\<close> is the value of \<open>XDG_RUNTIME_DIR\<close>, if it is set.\<close>

definition wl_socket_init_for_display_name :: "string option \<Rightarrow> wl_socket \<Rightarrow> string \<Rightarrow> (errno + unit) \<times> wl_socket" where
  "wl_socket_init_for_display_name runtime_dir s name =
     (let absolute = (name \<noteq> [] \<and> hd name = CHR ''/'') in
      if \<not> absolute \<and> runtime_dir = None then (Inl ENOENT, s)
      else
        let prefix = (if absolute then [] else the runtime_dir @ ''/'');
            name_size = length (prefix @ name) + 1;
            s1 = s\<lparr>so_path := snprintf UNIX_PATH_MAX (prefix @ name)\<rparr> in
        if name_size > UNIX_PATH_MAX then (Inl ENAMETOOLONG, s1\<lparr>so_path := []\<rparr>)
        else (Inr (), s1\<lparr>so_name := drop (name_size - 1 - length name) (so_path s1)\<rparr>))"

section \<open>The display\<close>

text \<open>
  The sockets are in the order of \<open>socket_list\<close>.  \<open>run\<close> is not set by the creation; it has some
  value until the display runs or is terminated.
\<close>

record display =
  dp_server :: server
  dp_sockets :: "wl_socket list"
  dp_run :: bool
  dp_terminate_efd :: int
  dp_term_source :: saddr

definition source_removed :: "saddr \<Rightarrow> server \<Rightarrow> server option" where
  "source_removed a s = (if a \<noteq> 0 then remove_source (of_nat a) s else Some s)"

definition wl_socket_destroy :: "wl_socket \<Rightarrow> server \<Rightarrow> filesys \<Rightarrow> (server \<times> filesys) option" where
  "wl_socket_destroy s sv fs = do {
     sv1 \<leftarrow> source_removed (so_source s) sv;
     let fs1 = (if so_path s \<noteq> [] then sys_unlink (so_path s) fs else fs);
     let fs2 = (if so_fd s \<ge> 0 then sys_closefd (so_fd s) fs1 else fs1);
     let fs3 = (if so_lock s \<noteq> [] then sys_unlink (so_lock s) fs2 else fs2);
     Some (sv1, if so_fd_lock s \<ge> 0 then sys_closefd (so_fd_lock s) fs3 else fs3) }"

text \<open>\<open>sa\<close> is the address \<open>malloc\<close> returns for the event source, \<open>func\<close> that of \<open>socket_data\<close>.\<close>

definition listen_on ::
  "u64 \<Rightarrow> nat \<Rightarrow> nat \<Rightarrow> wl_socket \<Rightarrow> display \<Rightarrow> filesys \<Rightarrow> bool \<times> wl_socket \<times> display \<times> filesys" where
  "listen_on sa func data s d fs =
     (case sys_socket fs of
        (Inl _, fs1) \<Rightarrow> (False, s\<lparr>so_fd := - 1\<rparr>, d, fs1)
      | (Inr fd, fs1) \<Rightarrow>
          let s1 = s\<lparr>so_fd := fd\<rparr> in
          (case sys_bind fd (so_path s1) fs1 of
             (Inl _, fs2) \<Rightarrow> (False, s1, d, fs2)
           | (Inr _, fs2) \<Rightarrow>
               (case sys_listen fd fs2 of
                  (Inl _, fs3) \<Rightarrow> (False, s1, d, fs3)
                | (Inr _, fs3) \<Rightarrow>
                    (case display_add_fd sa (of_int fd) WL_EVENT_READABLE func data (dp_server d) of (source, sv) \<Rightarrow>
                      let s2 = s1\<lparr>so_source := source\<rparr>; d1 = d\<lparr>dp_server := sv\<rparr> in
                      if source = 0 then (False, s2, d1, fs3)
                      else (True, s2, d1\<lparr>dp_sockets := dp_sockets d1 @ [s2]\<rparr>, fs3)))))"


text \<open>A socket that was not added is destroyed again.\<close>

definition abandon :: "wl_socket \<Rightarrow> display \<Rightarrow> filesys \<Rightarrow> (display \<times> filesys) option" where
  "abandon s d fs = do {
     (sv, fs1) \<leftarrow> wl_socket_destroy s (dp_server d) fs;
     Some (d\<lparr>dp_server := sv\<rparr>, fs1) }"

text \<open>
  \<open>alloc_ok\<close> is the outcome of allocating the socket, \<open>wayland_display\<close> the value of the
  environment variable \<open>WAYLAND_DISPLAY\<close>.
\<close>

definition wl_display_add_socket ::
  "bool \<Rightarrow> u64 \<Rightarrow> nat \<Rightarrow> nat \<Rightarrow> string option \<Rightarrow> string option \<Rightarrow> string option \<Rightarrow> display \<Rightarrow> filesys \<Rightarrow>
   (int \<times> display \<times> filesys) option" where
  "wl_display_add_socket alloc_ok sa func data runtime_dir wayland_display name d fs =
     (if \<not> alloc_ok then Some (- 1, d, fs)
      else
        let name1 = (case name of None \<Rightarrow> wayland_display | Some n \<Rightarrow> Some n);
            name2 = (case name1 of None \<Rightarrow> ''wayland-0'' | Some n \<Rightarrow> n) in
        (case wl_socket_init_for_display_name runtime_dir wl_socket_alloc name2 of
           (Inl _, s) \<Rightarrow> map_option (Pair (- 1)) (abandon s d fs)
         | (Inr _, s) \<Rightarrow>
             (case wl_socket_lock s fs of (r, s1, fs1) \<Rightarrow>
                if r < 0 then map_option (Pair (- 1)) (abandon s1 d fs1)
                else (case listen_on sa func data s1 d fs1 of (ok, s2, d2, fs2) \<Rightarrow>
                  if \<not> ok then map_option (Pair (- 1)) (abandon s2 d2 fs2)
                  else Some (0, d2, fs2)))))"

definition MAX_DISPLAYNO :: nat where "MAX_DISPLAYNO = 32"

text \<open>The result is the name, or \<open>None\<close> for \<open>NULL\<close>.\<close>

function auto_loop ::
  "u64 \<Rightarrow> nat \<Rightarrow> nat \<Rightarrow> string option \<Rightarrow> nat \<Rightarrow> wl_socket \<Rightarrow> display \<Rightarrow> filesys \<Rightarrow>
   (string option \<times> display \<times> filesys) option" where
  "auto_loop sa func data runtime_dir displayno s d fs =
     (case wl_socket_init_for_display_name runtime_dir s (snprintf 16 (''wayland-'' @ dec_nat displayno)) of
        (Inl _, s1) \<Rightarrow> map_option (Pair None) (abandon s1 d fs)
      | (Inr _, s1) \<Rightarrow>
          (case wl_socket_lock s1 fs of (r, s2, fs2) \<Rightarrow>
             if r < 0 then
               (if displayno < MAX_DISPLAYNO
                then auto_loop sa func data runtime_dir (displayno + 1) s2 d fs2
                else map_option (Pair None) (abandon s2 d fs2))
             else (case listen_on sa func data s2 d fs2 of (ok, s3, d3, fs3) \<Rightarrow>
               if \<not> ok then map_option (Pair None) (abandon s3 d3 fs3)
               else Some (Some (so_name s3), d3, fs3))))"
  by pat_completeness auto
termination
  by (relation "measure (\<lambda>(sa, func, data, dir, n, s, d, fs). MAX_DISPLAYNO - n)") auto

definition wl_display_add_socket_auto ::
  "bool \<Rightarrow> u64 \<Rightarrow> nat \<Rightarrow> nat \<Rightarrow> string option \<Rightarrow> display \<Rightarrow> filesys \<Rightarrow> (string option \<times> display \<times> filesys) option" where
  "wl_display_add_socket_auto alloc_ok sa func data runtime_dir d fs =
     (if \<not> alloc_ok then Some (None, d, fs)
      else auto_loop sa func data runtime_dir 0 wl_socket_alloc d fs)"

text \<open>\<open>is_sock\<close> is what \<open>fstat\<close> says of the descriptor, if it succeeds.\<close>

definition wl_display_add_socket_fd ::
  "bool \<Rightarrow> u64 \<Rightarrow> nat \<Rightarrow> nat \<Rightarrow> bool option \<Rightarrow> int \<Rightarrow> display \<Rightarrow> filesys \<Rightarrow> (int \<times> display \<times> filesys) option" where
  "wl_display_add_socket_fd alloc_ok sa func data is_sock sock_fd d fs =
     (if sock_fd < 0 \<or> is_sock = None \<or> is_sock = Some False then Some (- 1, d, fs)
      else if \<not> alloc_ok then Some (- 1, d, fs)
      else (case display_add_fd sa (of_int sock_fd) WL_EVENT_READABLE func data (dp_server d) of (source, sv) \<Rightarrow>
        let s = wl_socket_alloc\<lparr>so_source := source\<rparr>; d1 = d\<lparr>dp_server := sv\<rparr> in
        if source = 0 then map_option (Pair (- 1)) (abandon s d1 fs)
        else Some (0, d1\<lparr>dp_sockets := dp_sockets d1 @ [s\<lparr>so_fd := sock_fd\<rparr>]\<rparr>, fs)))"

fun destroy_sockets :: "wl_socket list \<Rightarrow> server \<Rightarrow> filesys \<Rightarrow> (server \<times> filesys) option" where
  "destroy_sockets [] sv fs = Some (sv, fs)"
| "destroy_sockets (s # ss) sv fs = do {
     (sv1, fs1) \<leftarrow> wl_socket_destroy s sv fs;
     destroy_sockets ss sv1 fs1 }"


text \<open>
  \<open>mem\<close> stands for the memory of the display and of its event loop before they are
  initialised; \<open>run\<close> and the two functions for globals keep its values.  \<open>efd\<close> is the result of
  \<open>eventfd\<close>, \<open>epfd\<close> that of \<open>epoll_create\<close>, \<open>func\<close> the address of \<open>handle_display_terminate\<close>.
  The second result is the state of the process when there is no display.
\<close>

definition loop_destroyed :: "(event_loop \<Rightarrow> event_loop) \<Rightarrow> server \<Rightarrow> server" where
  "loop_destroyed emit sv = sv\<lparr>d_loop := wl_event_loop_destroy emit (d_loop sv)\<rparr>"

definition wl_display_create ::
  "bool \<Rightarrow> bool \<Rightarrow> int \<Rightarrow> int \<Rightarrow> u64 \<Rightarrow> nat \<Rightarrow> display \<Rightarrow> server + display" where
  "wl_display_create alloc_ok loop_ok epfd efd sa func mem =
     (if \<not> alloc_ok then Inl (dp_server mem)
      else (case wl_event_loop_create loop_ok epfd (d_loop (dp_server mem)) of
        None \<Rightarrow> Inl (dp_server mem)
      | Some lp \<Rightarrow>
          let sv = (dp_server mem)\<lparr>d_loop := lp\<rparr> in
          if efd < 0 then Inl (loop_destroyed id sv)
          else (case display_add_fd sa (of_int efd) WL_EVENT_READABLE func 0 sv of (source, sv1) \<Rightarrow>
            if source = 0
            then Inl (loop_destroyed id (sv1\<lparr>s_os := sys_close (of_int efd) (s_os sv1)\<rparr>))
            else Inr (mem\<lparr>dp_terminate_efd := efd, dp_term_source := source, dp_sockets := [],
                     dp_server := sv1\<lparr>d_globals := [], d_clients := [], d_tmp_clients := [], d_registries := [],
                       d_loggers := [], d_id := 1, d_serial := 0, d_filter := 0, d_filter_data := 0,
                       d_shm_formats := []\<rparr>\<rparr>))))"

text \<open>\<open>emit\<close> is what the listeners of the destroy signals do to the display and to its loop.\<close>

definition wl_display_destroy ::
  "(display \<Rightarrow> display) \<Rightarrow> (event_loop \<Rightarrow> event_loop) \<Rightarrow> display \<Rightarrow> filesys \<Rightarrow> (server \<times> filesys) option" where
  "wl_display_destroy emit loop_emit d fs = do {
     let d1 = emit d;
     (sv, fs1) \<leftarrow> destroy_sockets (dp_sockets d1) (dp_server d1) fs;
     sv1 \<leftarrow> remove_source (of_nat (dp_term_source d1))
              (sv\<lparr>s_os := sys_close (of_int (dp_terminate_efd d1)) (s_os sv)\<rparr>);
     Some ((loop_destroyed loop_emit sv1)
             \<lparr>s_global := (\<lambda>a. if a \<in> set (d_globals sv1) then None else s_global sv1 a),
              d_globals := [], d_shm_formats := [], d_loggers := []\<rparr>, fs1) }"

text \<open>\<open>wr\<close> is the result of the \<open>write\<close>.\<close>

definition wl_display_terminate :: "errno + u64 \<Rightarrow> display \<Rightarrow> display option" where
  "wl_display_terminate wr d =
     (let d1 = d\<lparr>dp_run := False\<rparr> in
      case wr of Inr _ \<Rightarrow> Some d1 | Inl e \<Rightarrow> if e = EAGAIN then Some d1 else None)"

text \<open>The value of \<open>handle_display_terminate\<close>, from the result of \<open>read\<close>.\<close>

definition handle_display_terminate :: "errno + u64 \<Rightarrow> int" where
  "handle_display_terminate r = (case r of Inl e \<Rightarrow> if e \<noteq> EAGAIN then - 1 else 0 | Inr _ \<Rightarrow> 0)"

text \<open>\<open>dispatch\<close> is one round of the event loop with everything that the called functions do.\<close>

partial_function (option) run_loop :: "env \<Rightarrow> (display \<Rightarrow> display option) \<Rightarrow> display \<Rightarrow> display option" where
  "run_loop env dispatch d =
     (if dp_run d then do {
        sv \<leftarrow> wl_display_flush_clients env (dp_server d);
        d1 \<leftarrow> dispatch (d\<lparr>dp_server := sv\<rparr>);
        run_loop env dispatch d1 }
      else Some d)"

definition wl_display_run :: "env \<Rightarrow> (display \<Rightarrow> display option) \<Rightarrow> display \<Rightarrow> display option" where
  "wl_display_run env dispatch d = run_loop env dispatch (d\<lparr>dp_run := True\<rparr>)"

section \<open>The operations of the directory\<close>

text \<open>
  \<open>fs_ok\<close>: different names have different inodes; the holder of a lock and the socket bound to
  an inode are open descriptors of that inode.
\<close>

definition fs_ok :: "filesys \<Rightarrow> bool" where
  "fs_ok fs \<longleftrightarrow>
     (\<forall>p q i. f_dir fs p = Some i \<and> f_dir fs q = Some i \<longrightarrow> p = q) \<and>
     (\<forall>p i. f_dir fs p = Some i \<longrightarrow> i < f_inodes fs) \<and>
     (\<forall>i fd. f_lock fs i = Some fd \<longrightarrow> f_file fs fd = Some i) \<and>
     (\<forall>i fd. f_sock fs i = Some fd \<longrightarrow> f_file fs fd = Some i) \<and>
     (\<forall>fd i. f_file fs fd = Some i \<longrightarrow> i < f_inodes fs \<and> fd < int (f_descriptors fs)) \<and>
     (\<forall>fd. f_listening fs fd \<longrightarrow> fd < int (f_descriptors fs))"

text \<open>The lock of \<open>s\<close> is held, and clients that connect to the name of \<open>s\<close> reach \<open>s\<close>.\<close>

definition holds_lock :: "filesys \<Rightarrow> wl_socket \<Rightarrow> bool" where
  "holds_lock fs s \<longleftrightarrow> (\<exists>i. f_dir fs (so_lock s) = Some i \<and> f_lock fs i = Some (so_fd_lock s))"

definition serves :: "filesys \<Rightarrow> wl_socket \<Rightarrow> bool" where
  "serves fs s \<longleftrightarrow> holds_lock fs s \<and> sys_connect (so_path s) fs = Some (so_fd s) \<and>
     so_lock s = so_path s @ LOCK_SUFFIX \<and> \<not> suffix LOCK_SUFFIX (so_path s) \<and> so_path s \<noteq> []"

lemma fs_okD:
  assumes "fs_ok fs"
  shows "f_dir fs p = Some i \<Longrightarrow> f_dir fs q = Some i \<Longrightarrow> p = q"
    and "f_dir fs p = Some i \<Longrightarrow> i < f_inodes fs"
    and "f_lock fs i = Some fd \<Longrightarrow> f_file fs fd = Some i"
    and "f_sock fs i = Some fd \<Longrightarrow> f_file fs fd = Some i"
    and "f_file fs fd = Some i \<Longrightarrow> i < f_inodes fs"
    and "f_file fs fd = Some i \<Longrightarrow> fd < int (f_descriptors fs)"
    and "f_listening fs fd \<Longrightarrow> fd < int (f_descriptors fs)"
  using assms unfolding fs_ok_def by blast+

lemma outcome_cases:
  obtains rs where "sys_outcome fs = (None, fs\<lparr>f_script := rs\<rparr>)"
  | rs e where "sys_outcome fs = (Some e, fs\<lparr>f_script := rs\<rparr>)"
proof (cases "f_script fs")
  case Nil
  then have "sys_outcome fs = (None, fs\<lparr>f_script := []\<rparr>)" by (cases fs) (simp add: sys_outcome_def)
  then show thesis by (rule that(1))
next
  case (Cons r rs)
  show thesis
  proof (cases r)
    case None
    with Cons have "sys_outcome fs = (None, fs\<lparr>f_script := rs\<rparr>)" by (simp add: sys_outcome_def)
    then show thesis by (rule that(1))
  next
    case (Some e)
    with Cons have "sys_outcome fs = (Some e, fs\<lparr>f_script := rs\<rparr>)" by (simp add: sys_outcome_def)
    then show thesis by (rule that(2))
  qed
qed

lemma serves_script [simp]:
  "serves (fs\<lparr>f_script := rs\<rparr>) t = serves fs t" "fs_ok (fs\<lparr>f_script := rs\<rparr>) = fs_ok fs"
  "holds_lock (fs\<lparr>f_script := rs\<rparr>) t = holds_lock fs t"
  by (simp_all add: serves_def holds_lock_def sys_connect_def fs_ok_def)

text \<open>What serving says about the directory.\<close>

lemma servesE:
  assumes "serves fs t"
  obtains i j where "f_dir fs (so_lock t) = Some i" "f_lock fs i = Some (so_fd_lock t)"
    "f_dir fs (so_path t) = Some j" "f_sock fs j = Some (so_fd t)" "f_listening fs (so_fd t)"
    "so_lock t = so_path t @ LOCK_SUFFIX" "\<not> suffix LOCK_SUFFIX (so_path t)" "so_path t \<noteq> []"
  using assms unfolding serves_def holds_lock_def sys_connect_def
  by (force simp: bind_eq_Some_conv split: if_splits)

lemma servesI:
  "f_dir fs (so_lock t) = Some i \<Longrightarrow> f_lock fs i = Some (so_fd_lock t) \<Longrightarrow>
   f_dir fs (so_path t) = Some j \<Longrightarrow> f_sock fs j = Some (so_fd t) \<Longrightarrow> f_listening fs (so_fd t) \<Longrightarrow>
   so_lock t = so_path t @ LOCK_SUFFIX \<Longrightarrow> \<not> suffix LOCK_SUFFIX (so_path t) \<Longrightarrow> so_path t \<noteq> [] \<Longrightarrow> serves fs t"
  unfolding serves_def holds_lock_def sys_connect_def by simp

lemma serves_descriptors:
  assumes "fs_ok fs" "serves fs t"
  shows "so_fd t < int (f_descriptors fs)" "so_fd_lock t < int (f_descriptors fs)"
  using servesE [OF assms(2)] fs_okD [OF assms(1)] by metis+

text \<open>Closing a descriptor or removing a name that a socket does not use leaves it served.\<close>

lemma closefd_ok: "fs_ok fs \<Longrightarrow> fs_ok (sys_closefd fd fs)"
  unfolding fs_ok_def sys_closefd_def by auto

lemma closefd_serves:
  "serves fs t \<Longrightarrow> fd \<noteq> so_fd t \<Longrightarrow> fd \<noteq> so_fd_lock t \<Longrightarrow> serves (sys_closefd fd fs) t"
  by (erule servesE, rule servesI) (auto simp: sys_closefd_def)

lemma unlink_eq: "\<exists>rs. sys_unlink p fs = fs\<lparr>f_script := rs\<rparr> \<or>
    sys_unlink p fs = fs\<lparr>f_script := rs, f_dir := (f_dir fs)(p := None)\<rparr>"
  by (rule outcome_cases [of fs]) (auto simp: sys_unlink_def)

lemma unlink_ok: "fs_ok fs \<Longrightarrow> fs_ok (sys_unlink p fs)"
  using unlink_eq [of p fs] unfolding fs_ok_def by (auto split: if_splits)

lemma unlink_serves:
  assumes s: "serves fs t" and p: "p \<noteq> so_path t" "p \<noteq> so_lock t"
  shows "serves (sys_unlink p fs) t"
proof -
  obtain rs where "sys_unlink p fs = fs\<lparr>f_script := rs\<rparr> \<or>
    sys_unlink p fs = fs\<lparr>f_script := rs, f_dir := (f_dir fs)(p := None)\<rparr>" using unlink_eq by blast
  then show ?thesis
  proof
    assume "sys_unlink p fs = fs\<lparr>f_script := rs, f_dir := (f_dir fs)(p := None)\<rparr>"
    with s p show ?thesis by (auto elim!: servesE intro!: servesI)
  qed (use s in simp)
qed

text \<open>Opening the lock file: a new descriptor of the inode with that name.\<close>

lemma open_lockfile_spec:
  assumes ok: "fs_ok fs" and op: "sys_open_lockfile p fs = (Inr fd, fs')"
  shows "fs_ok fs'" "fd = int (f_descriptors fs)" "\<exists>i. f_dir fs' p = Some i \<and> f_file fs' fd = Some i"
    "serves fs t \<Longrightarrow> serves fs' t"
proof -
  obtain rs where o: "sys_outcome fs = (None, fs\<lparr>f_script := rs\<rparr>)"
    using op by (cases fs rule: outcome_cases) (auto simp: sys_open_lockfile_def)
  have c: "fd = int (f_descriptors fs) \<and>
    (\<exists>i. f_dir fs p = Some i \<and> fs' = fs\<lparr>f_script := rs, f_descriptors := f_descriptors fs + 1, f_file := (f_file fs)(fd := Some i)\<rparr> \<or>
      f_dir fs p = None \<and> i = f_inodes fs \<and>
      fs' = fs\<lparr>f_script := rs, f_descriptors := f_descriptors fs + 1, f_file := (f_file fs)(fd := Some i), f_inodes := i + 1,
                f_dir := (f_dir fs)(p := Some i), f_writable := (f_writable fs)(i := True)\<rparr>)"
    using op o by (cases "f_dir fs p") (auto simp: sys_open_lockfile_def create_file_def new_descriptor_def Let_def)
  then show "fd = int (f_descriptors fs)" "\<exists>i. f_dir fs' p = Some i \<and> f_file fs' fd = Some i" by auto
  have new: "f_file fs fd = None" using c fs_okD(6) [OF ok, of fd] by (cases "f_file fs fd") auto
  obtain i where "f_dir fs p = Some i \<and> fs' = fs\<lparr>f_script := rs, f_descriptors := f_descriptors fs + 1, f_file := (f_file fs)(fd := Some i)\<rparr> \<or>
      f_dir fs p = None \<and> i = f_inodes fs \<and>
      fs' = fs\<lparr>f_script := rs, f_descriptors := f_descriptors fs + 1, f_file := (f_file fs)(fd := Some i), f_inodes := i + 1,
                f_dir := (f_dir fs)(p := Some i), f_writable := (f_writable fs)(i := True)\<rparr>"
    using c by blast
  then have "fs_ok fs' \<and> (serves fs t \<longrightarrow> serves fs' t)"
  proof (elim disjE conjE, goal_cases)
    case 1
    with ok new c show ?case unfolding fs_ok_def by (fastforce elim!: servesE intro!: servesI split: if_splits)
  next
    case 2
    with ok new c show ?case unfolding fs_ok_def by (fastforce elim!: servesE intro!: servesI split: if_splits)
  qed
  then show "fs_ok fs'" "serves fs t \<Longrightarrow> serves fs' t" by blast+
qed

lemma open_lockfile_failed:
  "sys_open_lockfile p fs = (Inl e, fs') \<Longrightarrow> \<exists>rs. fs' = fs\<lparr>f_script := rs\<rparr>"
  by (rule outcome_cases [of fs]) (auto simp: sys_open_lockfile_def new_descriptor_def create_file_def Let_def split: option.splits)

lemma flock_spec:
  assumes ok: "fs_ok fs" and fl: "sys_flock fd fs = (r, fs')"
  shows "fs_ok fs'" "serves fs t \<Longrightarrow> serves fs' t" "f_dir fs' = f_dir fs" "f_file fs' = f_file fs"
    "f_descriptors fs' = f_descriptors fs"
    "r = Inr () \<Longrightarrow> f_file fs fd = Some i \<Longrightarrow> f_lock fs' i = Some fd \<and> (f_lock fs i = None \<or> f_lock fs i = Some fd)"
proof -
  have c: "(\<exists>rs. fs' = fs\<lparr>f_script := rs\<rparr> \<and> r \<noteq> Inr ()) \<or>
    (\<exists>rs i. f_file fs fd = Some i \<and> (f_lock fs i = None \<or> f_lock fs i = Some fd) \<and>
      fs' = fs\<lparr>f_script := rs, f_lock := (f_lock fs)(i := Some fd)\<rparr>)"
    using fl by (cases fs rule: outcome_cases) (auto simp: sys_flock_def split: option.splits if_splits)
  show "fs_ok fs'" using c ok unfolding fs_ok_def by (auto split: if_splits)
  show "f_dir fs' = f_dir fs" "f_file fs' = f_file fs" "f_descriptors fs' = f_descriptors fs" using c by auto
  show "serves fs' t" if t: "serves fs t"
    using c
  proof
    assume "\<exists>rs i. f_file fs fd = Some i \<and> (f_lock fs i = None \<or> f_lock fs i = Some fd) \<and>
      fs' = fs\<lparr>f_script := rs, f_lock := (f_lock fs)(i := Some fd)\<rparr>"
    then obtain rs i where "f_lock fs i = None \<or> f_lock fs i = Some fd"
      "fs' = fs\<lparr>f_script := rs, f_lock := (f_lock fs)(i := Some fd)\<rparr>" by blast
    with t show ?thesis by (auto elim!: servesE intro!: servesI)
  qed (use t in auto)
  show "f_lock fs' i = Some fd \<and> (f_lock fs i = None \<or> f_lock fs i = Some fd)"
    if "r = Inr ()" "f_file fs fd = Some i"
    using c that by auto
qed

lemma socket_spec:
  assumes "fs_ok fs" "sys_socket fs = (r, fs')"
  shows "fs_ok fs'" "serves fs t \<Longrightarrow> serves fs' t" "f_dir fs' = f_dir fs" "f_lock fs' = f_lock fs"
    "r = Inr fd \<Longrightarrow> fd = int (f_descriptors fs) \<and> f_file fs' fd = None \<and> fd < int (f_descriptors fs')"
proof -
  have c: "(\<exists>rs. fs' = fs\<lparr>f_script := rs\<rparr> \<and> isl r) \<or>
    (\<exists>rs. fs' = fs\<lparr>f_script := rs, f_descriptors := f_descriptors fs + 1\<rparr> \<and> r = Inr (int (f_descriptors fs)))"
    using assms(2) by (cases fs rule: outcome_cases) (auto simp: sys_socket_def new_descriptor_def)
  show "fs_ok fs'" using c assms(1) unfolding fs_ok_def by fastforce
  show "f_dir fs' = f_dir fs" "f_lock fs' = f_lock fs" using c by auto
  show "serves fs' t" if "serves fs t"
    using c that by (auto elim!: servesE intro!: servesI)
  have "f_file fs (int (f_descriptors fs)) = None"
    using fs_okD(6) [OF assms(1), of "int (f_descriptors fs)"] by (cases "f_file fs (int (f_descriptors fs))") auto
  then show "fd = int (f_descriptors fs) \<and> f_file fs' fd = None \<and> fd < int (f_descriptors fs')" if "r = Inr fd"
    using c that by auto
qed

text \<open>Binding a new descriptor succeeds only when nothing has the name.\<close>

lemma bind_spec:
  assumes ok: "fs_ok fs" and b: "sys_bind fd p fs = (r, fs')" and new: "f_file fs fd = None" "fd < int (f_descriptors fs)"
  shows "fs_ok fs'" "serves fs t \<Longrightarrow> serves fs' t" "f_lock fs' = f_lock fs" "f_dir fs q = Some i \<Longrightarrow> f_dir fs' q = Some i"
    "f_descriptors fs' = f_descriptors fs"
    "r = Inr () \<Longrightarrow> \<exists>j. f_dir fs' p = Some j \<and> f_sock fs' j = Some fd"
proof -
  have c: "(\<exists>rs. fs' = fs\<lparr>f_script := rs\<rparr> \<and> isl r) \<or>
    (\<exists>rs i. f_dir fs p = None \<and> i = f_inodes fs \<and>
      fs' = fs\<lparr>f_script := rs, f_inodes := i + 1, f_dir := (f_dir fs)(p := Some i),
        f_writable := (f_writable fs)(i := f_umask fs), f_sock := (f_sock fs)(i := Some fd),
        f_file := (f_file fs)(fd := Some i)\<rparr>)"
    using b by (cases fs rule: outcome_cases) (auto simp: sys_bind_def create_file_def Let_def split: if_splits)
  have none: "f_lock fs i \<noteq> Some fd" "f_sock fs i \<noteq> Some fd" for i using fs_okD(3,4) [OF ok] new by fastforce+
  show "f_lock fs' = f_lock fs" "f_descriptors fs' = f_descriptors fs" using c by auto
  show "f_dir fs' q = Some i" if "f_dir fs q = Some i" using c that by auto
  show "\<exists>j. f_dir fs' p = Some j \<and> f_sock fs' j = Some fd" if "r = Inr ()" using c that by auto
  show "fs_ok fs'" using c
  proof
    assume "\<exists>rs i. f_dir fs p = None \<and> i = f_inodes fs \<and>
      fs' = fs\<lparr>f_script := rs, f_inodes := i + 1, f_dir := (f_dir fs)(p := Some i),
        f_writable := (f_writable fs)(i := f_umask fs), f_sock := (f_sock fs)(i := Some fd),
        f_file := (f_file fs)(fd := Some i)\<rparr>"
    with ok new none show ?thesis unfolding fs_ok_def by (fastforce split: if_splits)
  qed (use ok in auto)
  show "serves fs' t" if "serves fs t"
    using c
  proof
    assume "\<exists>rs i. f_dir fs p = None \<and> i = f_inodes fs \<and>
      fs' = fs\<lparr>f_script := rs, f_inodes := i + 1, f_dir := (f_dir fs)(p := Some i),
        f_writable := (f_writable fs)(i := f_umask fs), f_sock := (f_sock fs)(i := Some fd),
        f_file := (f_file fs)(fd := Some i)\<rparr>"
    with that fs_okD(2) [OF ok] show ?thesis by (fastforce elim!: servesE intro!: servesI)
  qed (use that in auto)
qed

lemma listen_spec:
  assumes "fs_ok fs" "sys_listen fd fs = (r, fs')" "fd < int (f_descriptors fs)"
  shows "fs_ok fs'" "serves fs t \<Longrightarrow> serves fs' t" "f_dir fs' = f_dir fs" "f_lock fs' = f_lock fs" "f_sock fs' = f_sock fs"
    "r = Inr () \<Longrightarrow> f_listening fs' fd"
proof -
  have c: "(\<exists>rs. fs' = fs\<lparr>f_script := rs\<rparr> \<and> isl r) \<or>
    (\<exists>rs. fs' = fs\<lparr>f_script := rs, f_listening := (f_listening fs)(fd := True)\<rparr>)"
    using assms(2) by (cases fs rule: outcome_cases) (auto simp: sys_listen_def)
  show "fs_ok fs'" using c assms unfolding fs_ok_def by (auto split: if_splits)
  show "f_dir fs' = f_dir fs" "f_lock fs' = f_lock fs" "f_sock fs' = f_sock fs" using c by auto
  show "serves fs' t" if "serves fs t" using c that by (auto elim!: servesE intro!: servesI)
  show "f_listening fs' fd" if "r = Inr ()" using c that by auto
qed

lemma lstat_eq: "\<exists>r rs. sys_lstat p fs = (r, fs\<lparr>f_script := rs\<rparr>)"
  by (rule outcome_cases [of fs]) (auto simp: sys_lstat_def split: option.splits)

section \<open>Locking\<close>

lemma lock_name_fits: "length p < UNIX_PATH_MAX \<Longrightarrow>
    snprintf (UNIX_PATH_MAX + LOCK_SUFFIXLEN) (p @ LOCK_SUFFIX) = p @ LOCK_SUFFIX"
  by (simp add: snprintf_def UNIX_PATH_MAX_def LOCK_SUFFIXLEN_def LOCK_SUFFIX_def)

text \<open>The sockets in \<open>L\<close> are served, and none of them has the name \<open>p\<close>.\<close>

definition all_serve :: "filesys \<Rightarrow> wl_socket set \<Rightarrow> bool" where
  "all_serve fs L \<longleftrightarrow> fs_ok fs \<and> (\<forall>t \<in> L. serves fs t)"

lemma all_serveD: "all_serve fs L \<Longrightarrow> fs_ok fs" "all_serve fs L \<Longrightarrow> t \<in> L \<Longrightarrow> serves fs t"
  by (simp_all add: all_serve_def)

lemma all_serve_script [simp]: "all_serve (fs\<lparr>f_script := rs\<rparr>) L = all_serve fs L"
  by (simp add: all_serve_def)

lemma all_serve_closefd:
  "all_serve fs L \<Longrightarrow> (\<And>t. t \<in> L \<Longrightarrow> fd \<noteq> so_fd t \<and> fd \<noteq> so_fd_lock t) \<Longrightarrow> all_serve (sys_closefd fd fs) L"
  using closefd_ok closefd_serves unfolding all_serve_def by blast

lemma all_serve_unlink:
  "all_serve fs L \<Longrightarrow> (\<And>t. t \<in> L \<Longrightarrow> p \<noteq> so_path t \<and> p \<noteq> so_lock t) \<Longrightarrow> all_serve (sys_unlink p fs) L"
  using unlink_ok unlink_serves unfolding all_serve_def by blast

text \<open>Names of served sockets never are names of lock files.\<close>

lemma served_names:
  assumes "serves fs t" "p \<noteq> so_path t" "\<not> suffix LOCK_SUFFIX p"
  shows "p \<noteq> so_lock t" "p @ LOCK_SUFFIX \<noteq> so_path t" "p @ LOCK_SUFFIX \<noteq> so_lock t"
proof -
  have t: "so_lock t = so_path t @ LOCK_SUFFIX" "\<not> suffix LOCK_SUFFIX (so_path t)" using assms(1) by (auto elim: servesE)
  show "p \<noteq> so_lock t" using t(1) assms(3) by (metis suffixI)
  show "p @ LOCK_SUFFIX \<noteq> so_path t" using t(2) by (metis suffixI)
  show "p @ LOCK_SUFFIX \<noteq> so_lock t" using t(1) assms(2) by simp
qed

definition lock_lost :: "wl_socket \<Rightarrow> wl_socket" where
  "lock_lost s = s\<lparr>so_lock := [], so_path := [], so_fd_lock := - 1\<rparr>"

definition with_lock :: "wl_socket \<Rightarrow> int \<Rightarrow> wl_socket" where
  "with_lock s fd = s\<lparr>so_lock := so_path s @ LOCK_SUFFIX, so_fd_lock := fd\<rparr>"

lemma lock_clear_spec:
  assumes ok: "all_serve fs L" and p: "so_path s \<noteq> []" "\<not> suffix LOCK_SUFFIX (so_path s)"
    and fd: "\<And>t. t \<in> L \<Longrightarrow> fd \<noteq> so_fd t \<and> fd \<noteq> so_fd_lock t" and names: "\<And>t. t \<in> L \<Longrightarrow> so_path t \<noteq> so_path s"
    and hold: "holds_lock fs (with_lock s fd)" and run: "lock_clear (with_lock s fd) fs = (r, s', fs')"
  shows "all_serve fs' L \<and> (r = - 1 \<and> s' = lock_lost s \<or> r = 0 \<and> s' = with_lock s fd \<and> holds_lock fs' s')"
proof -
  obtain r3 rs where ls: "sys_lstat (so_path s) fs = (r3, fs\<lparr>f_script := rs\<rparr>)" using lstat_eq by blast
  have c: "r = - 1 \<and> s' = lock_lost s \<and> fs' = sys_closefd fd (fs\<lparr>f_script := rs\<rparr>) \<or>
    r = 0 \<and> s' = with_lock s fd \<and> (fs' = fs\<lparr>f_script := rs\<rparr> \<or> fs' = sys_unlink (so_path s) (fs\<lparr>f_script := rs\<rparr>))"
    using run ls by (auto simp: lock_clear_def with_lock_def lock_lost_def lock_err_def lock_err_fd_def
        split: sum.splits if_splits)
  have "all_serve (sys_closefd fd (fs\<lparr>f_script := rs\<rparr>)) L"
    using ok fd by (intro all_serve_closefd) auto
  moreover have "so_path s \<noteq> so_path t \<and> so_path s \<noteq> so_lock t" if "t \<in> L" for t
    using names [OF that] served_names(1) [OF all_serveD(2) [OF ok that] _ p(2)] by metis
  then have "all_serve (sys_unlink (so_path s) (fs\<lparr>f_script := rs\<rparr>)) L"
    using ok by (intro all_serve_unlink) auto
  moreover have "holds_lock (sys_unlink (so_path s) (fs\<lparr>f_script := rs\<rparr>)) (with_lock s fd)"
    using hold unlink_eq [of "so_path s" "fs\<lparr>f_script := rs\<rparr>"]
    by (auto simp: holds_lock_def LOCK_SUFFIX_def with_lock_def)
  ultimately show ?thesis using c ok hold by auto
qed

text \<open>
  The lock is refused while a served socket has the name; when it is taken no served socket has
  it, and removing what is left over under the name affects none.
\<close>

lemma socket_lock_spec:
  assumes ok: "all_serve fs L" and p: "so_path s \<noteq> []" "\<not> suffix LOCK_SUFFIX (so_path s)" "length (so_path s) < UNIX_PATH_MAX"
    and run: "wl_socket_lock s fs = (r, s', fs')"
  shows "all_serve fs' L \<and> (r = - 1 \<and> s' = lock_lost s \<or>
    r = 0 \<and> (\<exists>fd \<ge> 0. s' = with_lock s fd) \<and> holds_lock fs' s' \<and> (\<forall>t \<in> L. so_path t \<noteq> so_path s))"
proof -
  let ?l = "so_path s @ LOCK_SUFFIX"
  note run1 = run [unfolded wl_socket_lock_def lock_open_def, simplified Let_def lock_name_fits [OF p(3)]]
  obtain r1 fs1 where op: "sys_open_lockfile ?l fs = (r1, fs1)" by fastforce
  show ?thesis
  proof (cases r1)
    case (Inl e)
    then show ?thesis
      using run1 op open_lockfile_failed [of ?l fs e fs1] ok by (auto simp: lock_err_def lock_lost_def)
  next
    case (Inr fd)
    note o = open_lockfile_spec [OF all_serveD(1) [OF ok] op [unfolded Inr]]
    obtain i where i: "f_dir fs1 ?l = Some i" "f_file fs1 fd = Some i" using o(3) by blast
    have fresh: "fd \<noteq> so_fd t \<and> fd \<noteq> so_fd_lock t" if "t \<in> L" for t
      using serves_descriptors [OF all_serveD [OF ok]] that o(2) by fastforce
    obtain r2 fs2 where fl: "sys_flock fd fs1 = (r2, fs2)" by fastforce
    note f = flock_spec [OF o(1) fl]
    have s2: "all_serve fs2 L" using ok o(4) f(1,2) unfolding all_serve_def by blast
    show ?thesis
    proof (cases r2)
      case (Inl e)
      then show ?thesis using run1 op fl \<open>r1 = Inr fd\<close> all_serve_closefd [OF s2 fresh]
        by (auto simp: lock_err_def lock_err_fd_def lock_lost_def)
    next
      case (Inr u)
      have lk: "f_lock fs2 i = Some fd" "f_lock fs1 i = None \<or> f_lock fs1 i = Some fd" using f(6) [OF _ i(2)] Inr by auto
      have names: "so_path t \<noteq> so_path s" if t: "t \<in> L" for t
      proof
        assume "so_path t = so_path s"
        with servesE [OF o(4) [OF all_serveD(2) [OF ok t]]]
        obtain j where "f_dir fs1 ?l = Some j" "f_lock fs1 j = Some (so_fd_lock t)" by metis
        with i lk(2) fresh [OF t] show False by auto
      qed
      have "holds_lock fs2 (with_lock s fd)" using lk i f(3) by (auto simp: holds_lock_def with_lock_def)
      moreover have "lock_clear (with_lock s fd) fs2 = (r, s', fs')"
        using run1 op fl \<open>r1 = Inr fd\<close> Inr by (simp add: with_lock_def)
      ultimately have "all_serve fs' L \<and> (r = - 1 \<and> s' = lock_lost s \<or> r = 0 \<and> s' = with_lock s fd \<and> holds_lock fs' s')"
        using lock_clear_spec [OF s2 p(1,2) fresh names] by blast
      moreover have "0 \<le> fd" using o(2) by simp
      ultimately show ?thesis using names by blast
    qed
  qed
qed

section \<open>Destroying and listening\<close>

text \<open>\<open>s\<close> holds the lock of a name that no served socket has.\<close>

definition locked :: "filesys \<Rightarrow> wl_socket set \<Rightarrow> wl_socket \<Rightarrow> bool" where
  "locked fs L s \<longleftrightarrow> all_serve fs L \<and> holds_lock fs s \<and> so_lock s = so_path s @ LOCK_SUFFIX \<and>
     \<not> suffix LOCK_SUFFIX (so_path s) \<and> so_path s \<noteq> [] \<and> (\<forall>t \<in> L. so_path t \<noteq> so_path s)"

lemma serves_locked:
  assumes "all_serve fs (insert s L)" "\<And>t. t \<in> L \<Longrightarrow> so_path t \<noteq> so_path s"
  shows "locked fs L s"
  using assms by (auto simp: locked_def all_serve_def serves_def)

lemma locked_names:
  assumes l: "locked fs L s" and t: "t \<in> L"
  shows "so_path s \<noteq> so_path t" "so_path s \<noteq> so_lock t" "so_lock s \<noteq> so_path t" "so_lock s \<noteq> so_lock t"
proof -
  have s: "serves fs t" using l t by (simp add: locked_def all_serve_def)
  show n: "so_path s \<noteq> so_path t" using l t by (auto simp: locked_def)
  show "so_path s \<noteq> so_lock t" "so_lock s \<noteq> so_path t" "so_lock s \<noteq> so_lock t"
    using served_names [OF s n] l by (auto simp: locked_def)
qed

lemma locked_descriptor:
  assumes l: "locked fs L s" and t: "t \<in> L"
  shows "so_fd_lock s \<noteq> so_fd t" "so_fd_lock s \<noteq> so_fd_lock t"
proof -
  have ok: "fs_ok fs" and s: "serves fs t" using l t by (auto simp: locked_def all_serve_def)
  obtain i where i: "f_dir fs (so_lock s) = Some i" "f_lock fs i = Some (so_fd_lock s)"
    using l by (auto simp: locked_def holds_lock_def)
  from s obtain j k where jk: "f_dir fs (so_lock t) = Some j" "f_lock fs j = Some (so_fd_lock t)"
      "f_dir fs (so_path t) = Some k" "f_sock fs k = Some (so_fd t)"
    by (rule servesE) blast
  note n = locked_names [OF l t]
  show "so_fd_lock s \<noteq> so_fd t"
  proof
    assume "so_fd_lock s = so_fd t"
    then have "i = k" using fs_okD(3) [OF ok i(2)] fs_okD(4) [OF ok jk(4)] by simp
    with fs_okD(1) [OF ok i(1)] jk(3) n(3) show False by blast
  qed
  show "so_fd_lock s \<noteq> so_fd_lock t"
  proof
    assume "so_fd_lock s = so_fd_lock t"
    then have "i = j" using fs_okD(3) [OF ok i(2)] fs_okD(3) [OF ok jk(2)] by simp
    with fs_okD(1) [OF ok i(1)] jk(1) n(4) show False by blast
  qed
qed

lemma served_descriptor:
  assumes ok: "fs_ok fs" and s: "serves fs s" and t: "serves fs t" and p: "so_path s \<noteq> so_path t"
  shows "so_fd s \<noteq> so_fd t" "so_fd s \<noteq> so_fd_lock t"
proof -
  have l: "locked fs {s} t" using ok s t p by (auto simp: locked_def all_serve_def serves_def)
  then show "so_fd s \<noteq> so_fd_lock t" using locked_descriptor [of fs "{s}" t s] by auto
  from s obtain i where i: "f_dir fs (so_path s) = Some i" "f_sock fs i = Some (so_fd s)" by (rule servesE) blast
  from t obtain j where j: "f_dir fs (so_path t) = Some j" "f_sock fs j = Some (so_fd t)" by (rule servesE) blast
  show "so_fd s \<noteq> so_fd t"
  proof
    assume "so_fd s = so_fd t"
    then have "i = j" using fs_okD(4) [OF ok i(2)] fs_okD(4) [OF ok j(2)] by simp
    with fs_okD(1) [OF ok i(1)] j(1) p show False by blast
  qed
qed

text \<open>Destroying a socket that holds its lock leaves the other sockets served.\<close>

lemma socket_destroy_locked:
  assumes l: "locked fs L s" and fd: "\<And>t. t \<in> L \<Longrightarrow> 0 \<le> so_fd s \<Longrightarrow> so_fd s \<noteq> so_fd t \<and> so_fd s \<noteq> so_fd_lock t"
    and run: "wl_socket_destroy s sv fs = Some (sv', fs')"
  shows "all_serve fs' L"
proof -
  define f1 where "f1 = (if so_path s \<noteq> [] then sys_unlink (so_path s) fs else fs)"
  define f2 where "f2 = (if so_fd s \<ge> 0 then sys_closefd (so_fd s) f1 else f1)"
  define f3 where "f3 = (if so_lock s \<noteq> [] then sys_unlink (so_lock s) f2 else f2)"
  have "all_serve fs L" using l by (simp add: locked_def)
  then have "all_serve f1 L" using locked_names(1,2) [OF l] all_serve_unlink [of fs L "so_path s"] by (simp add: f1_def)
  then have "all_serve f2 L" using fd all_serve_closefd [of f1 L "so_fd s"] by (simp add: f2_def)
  then have "all_serve f3 L" using locked_names(3,4) [OF l] all_serve_unlink [of f2 L "so_lock s"] by (simp add: f3_def)
  then have "all_serve (if so_fd_lock s \<ge> 0 then sys_closefd (so_fd_lock s) f3 else f3) L"
    using locked_descriptor [OF l] all_serve_closefd [of f3 L "so_fd_lock s"] by simp
  moreover have "fs' = (if so_fd_lock s \<ge> 0 then sys_closefd (so_fd_lock s) f3 else f3)"
    using run by (auto simp: wl_socket_destroy_def bind_eq_Some_conv Let_def f1_def f2_def f3_def)
  ultimately show ?thesis by simp
qed

lemma socket_destroy_blank:
  "wl_socket_destroy s sv fs = Some (sv', fs') \<Longrightarrow> so_path s = [] \<Longrightarrow> so_lock s = [] \<Longrightarrow> so_fd s < 0 \<Longrightarrow> so_fd_lock s < 0 \<Longrightarrow>
   fs' = fs"
  by (simp add: wl_socket_destroy_def bind_eq_Some_conv Let_def)

lemma locked_frame:
  assumes "locked fs L s" "all_serve fs' L" "f_lock fs' = f_lock fs" "\<And>i. f_dir fs (so_lock s) = Some i \<Longrightarrow> f_dir fs' (so_lock s) = Some i"
    "so_path s' = so_path s" "so_lock s' = so_lock s" "so_fd_lock s' = so_fd_lock s"
  shows "locked fs' L s'"
  using assms by (fastforce simp: locked_def holds_lock_def)

lemma listen_on_spec:
  assumes l: "locked fs L s" and run: "listen_on sa func data s d fs = (ok, s', d', fs')"
  shows "so_path s' = so_path s" "locked fs' L s'"
    "ok \<Longrightarrow> serves fs' s' \<and> dp_sockets d' = dp_sockets d @ [s']"
    "\<not> ok \<Longrightarrow> dp_sockets d' = dp_sockets d"
    "t \<in> L \<Longrightarrow> 0 \<le> so_fd s' \<Longrightarrow> so_fd s' \<noteq> so_fd t \<and> so_fd s' \<noteq> so_fd_lock t"
proof -
  have ok: "all_serve fs L" using l by (simp add: locked_def)
  obtain r1 fs1 where so: "sys_socket fs = (r1, fs1)" by fastforce
  note a = socket_spec [OF all_serveD(1) [OF ok] so]
  have "so_path s' = so_path s \<and> locked fs' L s' \<and> (ok \<longrightarrow> serves fs' s' \<and> dp_sockets d' = dp_sockets d @ [s']) \<and>
    (\<not> ok \<longrightarrow> dp_sockets d' = dp_sockets d) \<and>
    (\<forall>t \<in> L. 0 \<le> so_fd s' \<longrightarrow> so_fd s' \<noteq> so_fd t \<and> so_fd s' \<noteq> so_fd_lock t)"
  proof (cases r1)
    case (Inl e)
    moreover have "locked fs1 L (s\<lparr>so_fd := - 1\<rparr>)"
      using a(1-4) ok by (intro locked_frame [OF l]) (auto simp: all_serve_def)
    ultimately show ?thesis using run so by (auto simp: listen_on_def)
  next
    case (Inr fd)
    have f1: "fd = int (f_descriptors fs)" "f_file fs1 fd = None" "fd < int (f_descriptors fs1)" using a(5) Inr by auto
    have fresh: "fd \<noteq> so_fd t \<and> fd \<noteq> so_fd_lock t" if "t \<in> L" for t
      using serves_descriptors [OF all_serveD [OF ok]] that f1 by fastforce
    obtain r2 fs2 where bi: "sys_bind fd (so_path s) fs1 = (r2, fs2)" by fastforce
    note b = bind_spec [OF a(1) bi f1(2,3)]
    obtain r3 fs3 where li: "sys_listen fd fs2 = (r3, fs3)" by fastforce
    note c = listen_spec [OF b(1) li f1(3) [folded b(5)]]
    let ?P = "\<lambda>x. so_path x = so_path s \<and> so_lock x = so_lock s \<and> so_fd_lock x = so_fd_lock s \<and> so_fd x = fd"
    have k2: "locked fs2 L x" if "?P x" for x
      using a(2-4) b(1-4) ok that by (intro locked_frame [OF l]) (auto simp: all_serve_def)
    have k3: "locked fs3 L x" if "?P x" for x
      using c(1-4) k2 [OF that] that by (intro locked_frame [OF k2 [OF that]]) (auto simp: locked_def all_serve_def)
    have sv: "serves fs3 x" if "?P x" "r2 = Inr ()" "r3 = Inr ()" for x
      using k3 [OF that(1)] b(6) [OF that(2)] c(3,5,6) that
      by (auto simp: serves_def locked_def sys_connect_def)
    show ?thesis
      using run so bi li Inr k2 k3 sv fresh by (auto simp: listen_on_def Let_def split: sum.splits prod.splits if_splits)
  qed
  then show "so_path s' = so_path s" "locked fs' L s'"
    "ok \<Longrightarrow> serves fs' s' \<and> dp_sockets d' = dp_sockets d @ [s']"
    "\<not> ok \<Longrightarrow> dp_sockets d' = dp_sockets d"
    "t \<in> L \<Longrightarrow> 0 \<le> so_fd s' \<Longrightarrow> so_fd s' \<noteq> so_fd t \<and> so_fd s' \<noteq> so_fd_lock t" by blast+
qed

section \<open>Adding sockets\<close>

lemma LOCK_SUFFIX_chars: "CHR ''/'' \<notin> set LOCK_SUFFIX"
  by (simp add: LOCK_SUFFIX_def)

lemma slash_no_suffix: "LOCK_SUFFIX \<noteq> xs @ ''/''"
proof
  assume "LOCK_SUFFIX = xs @ ''/''"
  then have "last LOCK_SUFFIX = CHR ''/''" by (metis last_snoc)
  then show False by (simp add: LOCK_SUFFIX_def)
qed

lemma suffix_of_path:
  assumes "suffix LOCK_SUFFIX (d @ CHR ''/'' # name)"
  shows "suffix LOCK_SUFFIX name"
proof -
  from assms consider "suffix LOCK_SUFFIX (CHR ''/'' # name)" | xs where "LOCK_SUFFIX = xs @ CHR ''/'' # name"
    by (auto simp: suffix_append)
  then show ?thesis
  proof cases
    case 1
    then show ?thesis by (auto simp: suffix_Cons LOCK_SUFFIX_def)
  next
    case 2
    then show ?thesis using LOCK_SUFFIX_chars by (metis in_set_conv_decomp)
  qed
qed

lemma socket_init_spec:
  assumes "wl_socket_init_for_display_name dir s name = (r, s')"
  shows "case r of Inl _ \<Rightarrow> s' = s \<or> s' = s\<lparr>so_path := []\<rparr>
    | Inr _ \<Rightarrow> s' = s\<lparr>so_path := so_path s', so_name := name\<rparr> \<and> length (so_path s') < UNIX_PATH_MAX \<and>
        so_path s' \<noteq> [] \<and> (\<not> suffix LOCK_SUFFIX name \<longrightarrow> \<not> suffix LOCK_SUFFIX (so_path s'))"
  using assms suffix_of_path slash_no_suffix
  by (auto simp: wl_socket_init_for_display_name_def Let_def snprintf_def UNIX_PATH_MAX_def split: if_splits)

text \<open>What an attempt to add a socket does to the served sockets.\<close>

definition added :: "filesys \<Rightarrow> wl_socket set \<Rightarrow> bool \<Rightarrow> display \<Rightarrow> display \<Rightarrow> bool" where
  "added fs' L ok d d' \<longleftrightarrow>
     (if ok then \<exists>s. dp_sockets d' = dp_sockets d @ [s] \<and> all_serve fs' (insert s L) \<and> (\<forall>t \<in> L. so_path t \<noteq> so_path s)
      else dp_sockets d' = dp_sockets d \<and> all_serve fs' L)"

text \<open>A socket without a lock.\<close>

definition unlocked :: "wl_socket \<Rightarrow> bool" where
  "unlocked s \<longleftrightarrow> so_path s = [] \<and> so_lock s = [] \<and> so_fd s = - 1 \<and> so_fd_lock s = - 1 \<and> so_source s = 0"

lemma unlocked_simps [simp]:
  "unlocked wl_socket_alloc" "unlocked s \<Longrightarrow> unlocked (s\<lparr>so_path := []\<rparr>)"
  "unlocked s \<Longrightarrow> unlocked (lock_lost (s\<lparr>so_path := p, so_name := n\<rparr>))"
  by (simp_all add: unlocked_def wl_socket_alloc_def lock_lost_def)

lemma abandon_unlocked:
  "abandon s d fs = Some (d', fs') \<Longrightarrow> unlocked s \<Longrightarrow> all_serve fs L \<Longrightarrow> added fs' L False d d'"
  using socket_destroy_blank [of s "dp_server d" fs] by (auto simp: abandon_def unlocked_def added_def bind_eq_Some_conv)

lemma listen_added:
  assumes l: "locked fs L s" and run: "listen_on sa func data s d fs = (ok, s', d1, fs1)"
  shows "ok \<Longrightarrow> added fs1 L True d d1"
    "\<not> ok \<Longrightarrow> abandon s' d1 fs1 = Some (d', fs') \<Longrightarrow> added fs' L False d d'"
proof -
  note s = listen_on_spec [OF l run]
  show "added fs1 L True d d1" if "ok"
    using s(1,2) s(3) [OF that] by (auto simp: added_def locked_def all_serve_def)
  show "added fs' L False d d'" if "\<not> ok" "abandon s' d1 fs1 = Some (d', fs')"
    using s(4) [OF that(1)] socket_destroy_locked [OF s(2,5)] that(2)
    by (auto simp: added_def abandon_def bind_eq_Some_conv)
qed

lemma with_lock_locked:
  assumes "all_serve fs L" "holds_lock fs (with_lock s fd)" "\<forall>t \<in> L. so_path t \<noteq> so_path s" "so_path s \<noteq> []" "\<not> suffix LOCK_SUFFIX (so_path s)"
  shows "locked fs L (with_lock s fd)"
  using assms by (simp add: locked_def with_lock_def)

lemma lock_attempt:
  assumes ok: "all_serve fs L" and u: "unlocked s0" and s: "s = s0\<lparr>so_path := so_path s, so_name := n\<rparr>"
    and p: "so_path s \<noteq> []" "\<not> suffix LOCK_SUFFIX (so_path s)" "length (so_path s) < UNIX_PATH_MAX"
    and lo: "wl_socket_lock s fs = (r, s1, fs1)"
  shows "all_serve fs1 L \<and> r = - 1 \<and> unlocked s1 \<or> r = 0 \<and> locked fs1 L s1"
proof -
  have "unlocked (lock_lost s)" by (subst s) (rule unlocked_simps(3) [OF u])
  with socket_lock_spec [OF ok p lo] with_lock_locked [OF _ _ _ p(1,2)] show ?thesis by auto
qed

lemma add_socket_spec:
  assumes ok: "all_serve fs L" and nm: "\<And>n. name = Some n \<or> wd = Some n \<Longrightarrow> \<not> suffix LOCK_SUFFIX n"
    and run: "wl_display_add_socket al sa func data dir wd name d fs = Some (r, d', fs')"
  shows "added fs' L (r = 0) d d'"
proof (cases al)
  case False
  with run ok show ?thesis by (simp add: wl_display_add_socket_def added_def)
next
  case True
  define n where "n = (case (case name of None \<Rightarrow> wd | Some n \<Rightarrow> Some n) of None \<Rightarrow> ''wayland-0'' | Some n \<Rightarrow> n)"
  have n: "\<not> suffix LOCK_SUFFIX n"
    using nm by (auto simp: n_def LOCK_SUFFIX_def suffix_def split: option.splits)
  obtain ri s where i: "wl_socket_init_for_display_name dir wl_socket_alloc n = (ri, s)" by fastforce
  have run1: "(case ri of Inl _ \<Rightarrow> map_option (Pair (- 1)) (abandon s d fs)
     | Inr _ \<Rightarrow> (case wl_socket_lock s fs of (r, s1, fs1) \<Rightarrow>
         if r < 0 then map_option (Pair (- 1)) (abandon s1 d fs1)
         else (case listen_on sa func data s1 d fs1 of (ok, s2, d2, fs2) \<Rightarrow>
           if \<not> ok then map_option (Pair (- 1)) (abandon s2 d2 fs2) else Some (0, d2, fs2)))) = Some (r, d', fs')"
    using run True i by (simp add: wl_display_add_socket_def n_def Let_def)
  show ?thesis
  proof (cases ri)
    case (Inl e)
    then have "unlocked s" using socket_init_spec [OF i] by auto
    with run1 Inl abandon_unlocked [OF _ _ ok] show ?thesis by auto
  next
    case (Inr u)
    then have s: "s = wl_socket_alloc\<lparr>so_path := so_path s, so_name := n\<rparr>" "so_path s \<noteq> []"
      "length (so_path s) < UNIX_PATH_MAX" "\<not> suffix LOCK_SUFFIX (so_path s)"
      using socket_init_spec [OF i] n by auto
    obtain r1 s1 fs1 where lo: "wl_socket_lock s fs = (r1, s1, fs1)" by (metis prod_cases3)
    obtain ok1 s2 d2 fs2 where li: "listen_on sa func data s1 d fs1 = (ok1, s2, d2, fs2)" by (metis prod_cases4)
    from lock_attempt [OF ok unlocked_simps(1) s(1,2,4,3) lo] consider
        "all_serve fs1 L" "r1 = - 1" "unlocked s1"
      | "r1 = 0" "locked fs1 L s1" by blast
    then show ?thesis
    proof cases
      case 1
      with run1 Inr lo abandon_unlocked [OF _ 1(3) 1(1)] show ?thesis by auto
    next
      case 2
      with run1 Inr lo li listen_added [OF 2(2) li] show ?thesis by (auto split: if_splits)
    qed
  qed
qed

text \<open>The names \<open>wayland-0\<close> and so on are no names of lock files.\<close>

lemma dec_nat_chars: "c \<in> set (dec_nat n) \<Longrightarrow> c \<noteq> CHR ''.''"
proof (induction n rule: dec_nat.induct)
  case (1 n)
  have digit: "char_of (48 + k) \<noteq> CHR ''.''" if "k < 10" for k :: nat
  proof
    assume "char_of (48 + k) = CHR ''.''"
    then have "of_char (char_of (48 + k) :: char) = (of_char CHR ''.'' :: nat)" by simp
    with that show False by simp
  qed
  show ?case
  proof (cases "n < 10")
    case True
    with 1(2) digit show ?thesis by (simp add: dec_nat.simps [of n])
  next
    case False
    with 1 digit [of "n mod 10"] show ?thesis by (auto simp: dec_nat.simps [of n])
  qed
qed

lemma auto_name: "\<not> suffix LOCK_SUFFIX (snprintf 16 (''wayland-'' @ dec_nat n))"
proof
  assume "suffix LOCK_SUFFIX (snprintf 16 (''wayland-'' @ dec_nat n))"
  then have "set LOCK_SUFFIX \<subseteq> set (snprintf 16 (''wayland-'' @ dec_nat n))" by (rule set_mono_suffix)
  also have "\<dots> \<subseteq> set (''wayland-'' @ dec_nat n)" unfolding snprintf_def by (rule set_take_subset)
  finally have "set LOCK_SUFFIX \<subseteq> set (''wayland-'' @ dec_nat n)" .
  then show False using dec_nat_chars by (force simp: LOCK_SUFFIX_def)
qed

declare auto_loop.simps [simp del]

lemma auto_loop_spec:
  assumes "all_serve fs L" "unlocked s" "auto_loop sa func data dir n s d fs = Some (r, d', fs')"
  shows "added fs' L (r \<noteq> None) d d'"
  using assms
proof (induction sa func data dir n s d fs arbitrary: r d' fs' rule: auto_loop.induct)
  case (1 sa func data dir n s d fs)
  let ?n = "snprintf 16 (''wayland-'' @ dec_nat n)"
  obtain ri s1 where i: "wl_socket_init_for_display_name dir s ?n = (ri, s1)" by fastforce
  show ?case
  proof (cases ri)
    case (Inl e)
    then have "unlocked s1" using socket_init_spec [OF i] 1(3) by auto
    moreover have "map_option (Pair None) (abandon s1 d fs) = Some (r, d', fs')" using 1(4) i Inl by (subst (asm) auto_loop.simps) simp
    ultimately show ?thesis using abandon_unlocked 1(2) by auto
  next
    case (Inr u)
    then have s: "s1 = s\<lparr>so_path := so_path s1, so_name := ?n\<rparr>" "so_path s1 \<noteq> []" "\<not> suffix LOCK_SUFFIX (so_path s1)"
      "length (so_path s1) < UNIX_PATH_MAX"
      using socket_init_spec [OF i] auto_name by auto
    obtain r1 s2 fs2 where lo: "wl_socket_lock s1 fs = (r1, s2, fs2)" by (metis prod_cases3)
    obtain ok1 s3 d3 fs3 where li: "listen_on sa func data s2 d fs2 = (ok1, s3, d3, fs3)" by (metis prod_cases4)
    have run: "(if r1 < 0 then if n < MAX_DISPLAYNO then auto_loop sa func data dir (n + 1) s2 d fs2
          else map_option (Pair None) (abandon s2 d fs2)
        else if \<not> ok1 then map_option (Pair None) (abandon s3 d3 fs3)
        else Some (Some (so_name s3), d3, fs3)) = Some (r, d', fs')"
      using 1(4) by (simp only: auto_loop.simps [of sa func data dir n s d fs] i Inr lo li prod.case sum.case)
    from lock_attempt [OF 1(2,3) s lo] show ?thesis
    proof
      assume a: "all_serve fs2 L \<and> r1 = - 1 \<and> unlocked s2"
      show ?thesis
      proof (cases "n < MAX_DISPLAYNO")
        case True
        then show ?thesis using run a 1(1) [OF i [symmetric] Inr lo [symmetric] _ _ True] by auto
      next
        case False
        then show ?thesis using run a abandon_unlocked by auto
      qed
    next
      assume "r1 = 0 \<and> locked fs2 L s2"
      with run listen_added [of fs2 L s2, OF _ li] show ?thesis by (auto split: if_splits)
    qed
  qed
qed

lemma add_socket_auto_spec:
  assumes "all_serve fs L" "wl_display_add_socket_auto al sa func data dir d fs = Some (r, d', fs')"
  shows "added fs' L (r \<noteq> None) d d'"
  using assms auto_loop_spec [OF assms(1) unlocked_simps(1)]
  by (auto simp: wl_display_add_socket_auto_def added_def split: if_splits)

section \<open>Several compositors\<close>

lemma destroy_one:
  assumes ok: "all_serve fs (insert s L)" and p: "\<And>t. t \<in> L \<Longrightarrow> so_path t \<noteq> so_path s"
  shows "wl_socket_destroy s sv fs = Some (sv', fs') \<Longrightarrow> all_serve fs' L"
    "all_serve (sys_closefd (so_fd_lock s) (sys_closefd (so_fd s) fs)) L"
proof -
  note l = serves_locked [OF ok p]
  have fd: "so_fd s \<noteq> so_fd t \<and> so_fd s \<noteq> so_fd_lock t" if "t \<in> L" for t
    using served_descriptor [of fs s t] ok p [OF that] that unfolding all_serve_def by (metis insert_iff)
  show "all_serve fs' L" if "wl_socket_destroy s sv fs = Some (sv', fs')"
    by (rule socket_destroy_locked [OF l _ that]) (use fd in auto)
  have "all_serve fs L" using ok by (simp add: all_serve_def)
  then show "all_serve (sys_closefd (so_fd_lock s) (sys_closefd (so_fd s) fs)) L"
    using fd locked_descriptor [OF l] by (intro all_serve_closefd) auto
qed

lemma destroy_sockets_spec:
  "all_serve fs (set ss \<union> L) \<Longrightarrow> distinct (map so_path ss) \<Longrightarrow> (\<And>s t. s \<in> set ss \<Longrightarrow> t \<in> L \<Longrightarrow> so_path t \<noteq> so_path s) \<Longrightarrow>
   destroy_sockets ss sv fs = Some (sv', fs') \<Longrightarrow> all_serve fs' L"
proof (induction ss arbitrary: sv fs)
  case (Cons s ss)
  then obtain sv1 fs1 where d: "wl_socket_destroy s sv fs = Some (sv1, fs1)" "destroy_sockets ss sv1 fs1 = Some (sv', fs')"
    by (auto simp: bind_eq_Some_conv)
  have "all_serve fs (insert s (set ss \<union> L))" using Cons.prems(1) by simp
  moreover have "so_path t \<noteq> so_path s" if "t \<in> set ss \<union> L" for t using that Cons.prems(2) Cons.prems(3) [of s t] by (auto simp: image_iff)
  ultimately have "all_serve fs1 (set ss \<union> L)" by (rule destroy_one(1) [OF _ _ d(1)])
  then show ?case using Cons.IH [OF _ _ _ d(2)] Cons.prems(2,3) by auto
qed simp

text \<open>A process that ends closes its descriptors and leaves its files behind.\<close>

definition process_exit :: "wl_socket list \<Rightarrow> filesys \<Rightarrow> filesys" where
  "process_exit ss fs = fold (\<lambda>s fs. sys_closefd (so_fd_lock s) (sys_closefd (so_fd s) fs)) ss fs"

lemma process_exit_spec:
  "all_serve fs (set ss \<union> L) \<Longrightarrow> distinct (map so_path ss) \<Longrightarrow> (\<And>s t. s \<in> set ss \<Longrightarrow> t \<in> L \<Longrightarrow> so_path t \<noteq> so_path s) \<Longrightarrow>
   all_serve (process_exit ss fs) L"
proof (induction ss arbitrary: fs)
  case (Cons s ss)
  have "all_serve fs (insert s (set ss \<union> L))" using Cons.prems(1) by simp
  moreover have "so_path t \<noteq> so_path s" if "t \<in> set ss \<union> L" for t using that Cons.prems(2) Cons.prems(3) [of s t] by (auto simp: image_iff)
  ultimately have "all_serve (sys_closefd (so_fd_lock s) (sys_closefd (so_fd s) fs)) (set ss \<union> L)"
    by (rule destroy_one(2))
  then show ?case using Cons.IH Cons.prems(2,3) by (simp add: process_exit_def)
qed (simp add: process_exit_def)

text \<open>
  The compositors of one session that share the directory: each creates displays, adds sockets by
  name or automatically, destroys its display, or ends without destroying it; everything else
  that a process does leaves its list of sockets and the directory alone.  An operation runs
  without those of another process in between (lemma \<open>socket_lock_race\<close> is about that).  The
  outcomes of system calls and the file creation mask may change at any time.
\<close>

inductive compositors :: "filesys \<Rightarrow> (nat \<Rightarrow> display option) \<Rightarrow> bool" where
  start: "fs_ok fs \<Longrightarrow> compositors fs (\<lambda>_. None)"
| create: "compositors fs D \<Longrightarrow> D i = None \<Longrightarrow> wl_display_create al lo epfd efd sa func mem = Inr d \<Longrightarrow>
    compositors fs (D(i := Some d))"
| add: "compositors fs D \<Longrightarrow> D i = Some d \<Longrightarrow> (\<And>n. name = Some n \<or> wd = Some n \<Longrightarrow> \<not> suffix LOCK_SUFFIX n) \<Longrightarrow>
    wl_display_add_socket al sa func data dir wd name d fs = Some (r, d', fs') \<Longrightarrow> compositors fs' (D(i := Some d'))"
| add_auto: "compositors fs D \<Longrightarrow> D i = Some d \<Longrightarrow>
    wl_display_add_socket_auto al sa func data dir d fs = Some (rs, d', fs') \<Longrightarrow> compositors fs' (D(i := Some d'))"
| work: "compositors fs D \<Longrightarrow> D i = Some d \<Longrightarrow> dp_sockets d' = dp_sockets d \<Longrightarrow> compositors fs (D(i := Some d'))"
| destroy: "compositors fs D \<Longrightarrow> D i = Some d \<Longrightarrow> dp_sockets (emit d) = dp_sockets d \<Longrightarrow>
    wl_display_destroy emit loop_emit d fs = Some (sv, fs') \<Longrightarrow> compositors fs' (D(i := None))"
| exit: "compositors fs D \<Longrightarrow> D i = Some d \<Longrightarrow> compositors (process_exit (dp_sockets d) fs) (D(i := None))"
| environment: "compositors fs D \<Longrightarrow> compositors (fs\<lparr>f_script := rs, f_umask := u\<rparr>) D"

definition sockets_of :: "(nat \<Rightarrow> display option) \<Rightarrow> wl_socket set" where
  "sockets_of D = {s. \<exists>i d. D i = Some d \<and> s \<in> set (dp_sockets d)}"

definition names_apart :: "(nat \<Rightarrow> display option) \<Rightarrow> bool" where
  "names_apart D \<longleftrightarrow> (\<forall>i d. D i = Some d \<longrightarrow> distinct (map so_path (dp_sockets d))) \<and>
     (\<forall>i j d e s t. D i = Some d \<and> D j = Some e \<and> s \<in> set (dp_sockets d) \<and> t \<in> set (dp_sockets e) \<and>
        so_path s = so_path t \<longrightarrow> i = j)"

lemma sockets_ofI: "D i = Some d \<Longrightarrow> s \<in> set (dp_sockets d) \<Longrightarrow> s \<in> sockets_of D"
  by (auto simp: sockets_of_def)

lemma sockets_of_upd: "sockets_of (D(i := Some d)) = set (dp_sockets d) \<union> sockets_of (D(i := None))"
  by (auto simp: sockets_of_def split: if_splits)

lemma sockets_of_split:
  assumes "D i = Some d"
  shows "sockets_of D = set (dp_sockets d) \<union> sockets_of (D(i := None))"
  using sockets_of_upd [of D i d] assms by (simp add: fun_upd_idem)

lemma names_apartD:
  "names_apart D \<Longrightarrow> D i = Some d \<Longrightarrow> distinct (map so_path (dp_sockets d))"
  "names_apart D \<Longrightarrow> D i = Some d \<Longrightarrow> D j = Some e \<Longrightarrow> s \<in> set (dp_sockets d) \<Longrightarrow> t \<in> set (dp_sockets e) \<Longrightarrow>
   so_path s = so_path t \<Longrightarrow> i = j"
  unfolding names_apart_def by blast+

lemma names_apart_rest: "names_apart D \<Longrightarrow> names_apart (D(i := None))"
  by (auto simp: names_apart_def split: if_splits)

lemma names_apart_other:
  assumes "names_apart D" "D i = Some d" "s \<in> set (dp_sockets d)" "t \<in> sockets_of (D(i := None))"
  shows "so_path t \<noteq> so_path s"
proof -
  obtain j e where j: "j \<noteq> i" "D j = Some e" "t \<in> set (dp_sockets e)"
    using assms(4) by (auto simp: sockets_of_def split: if_splits)
  with names_apartD(2) [OF assms(1,2) j(2) assms(3) j(3)] show ?thesis by auto
qed

lemma names_apart_set:
  assumes "names_apart D" "distinct (map so_path (dp_sockets d))"
    "\<And>s t. s \<in> set (dp_sockets d) \<Longrightarrow> t \<in> sockets_of (D(i := None)) \<Longrightarrow> so_path t \<noteq> so_path s"
  shows "names_apart (D(i := Some d))"
  unfolding names_apart_def
proof (intro conjI allI impI)
  show "distinct (map so_path (dp_sockets e))" if "(D(i := Some d)) j = Some e" for j e
    using that assms(2) names_apartD(1) [OF assms(1)] by (auto split: if_splits)
  show "j = k" if "(D(i := Some d)) j = Some e \<and> (D(i := Some d)) k = Some f \<and> s \<in> set (dp_sockets e) \<and>
      t \<in> set (dp_sockets f) \<and> so_path s = so_path t" for j k e f s t
  proof (rule ccontr)
    assume "j \<noteq> k"
    have rest: "x \<in> sockets_of (D(i := None))" if "l \<noteq> i" "D l = Some g" "x \<in> set (dp_sockets g)" for l g x
      using that by (intro sockets_ofI [of _ l]) auto
    consider "j = i" "k \<noteq> i" | "j \<noteq> i" "k = i" | "j \<noteq> i" "k \<noteq> i" using \<open>j \<noteq> k\<close> by auto
    then show False
    proof cases
      case 1
      with that have "s \<in> set (dp_sockets d)" "t \<in> sockets_of (D(i := None))" using rest [of k f t] by auto
      with assms(3) that show False by fastforce
    next
      case 2
      with that have "t \<in> set (dp_sockets d)" "s \<in> sockets_of (D(i := None))" using rest [of j e s] by auto
      with assms(3) that show False by fastforce
    next
      case 3
      with that names_apartD(2) [OF assms(1), of j e k f s t] \<open>j \<noteq> k\<close> show False by auto
    qed
  qed
qed

lemma added_step:
  assumes inv: "all_serve fs (sockets_of D)" "names_apart D" and i: "D i = Some d"
    and a: "added fs' (sockets_of D) ok d d'"
  shows "all_serve fs' (sockets_of (D(i := Some d'))) \<and> names_apart (D(i := Some d'))"
proof (cases ok)
  case True
  with a obtain s where s: "dp_sockets d' = dp_sockets d @ [s]" "all_serve fs' (insert s (sockets_of D))"
    "\<forall>t \<in> sockets_of D. so_path t \<noteq> so_path s" by (auto simp: added_def)
  note split = sockets_of_split [of D, OF i]
  have eq: "sockets_of (D(i := Some d')) = insert s (sockets_of D)"
    using s(1) sockets_of_upd [of D i d'] split by auto
  have "names_apart (D(i := Some d'))"
  proof (rule names_apart_set [OF inv(2)])
    show "distinct (map so_path (dp_sockets d'))"
      using s(1,3) names_apartD(1) [OF inv(2) i] split by auto
    show "so_path t \<noteq> so_path u" if "u \<in> set (dp_sockets d')" "t \<in> sockets_of (D(i := None))" for u t
      using that s(1,3) names_apart_other [OF inv(2) i] split by auto
  qed
  with s(2) eq show ?thesis by simp
next
  case False
  with a have "dp_sockets d' = dp_sockets d" "all_serve fs' (sockets_of D)" by (auto simp: added_def)
  moreover from this(1) have "sockets_of (D(i := Some d')) = sockets_of D"
    using sockets_of_upd [of D i d'] sockets_of_split [of D, OF i] by simp
  moreover have "names_apart (D(i := Some d'))"
    using names_apartD(1) [OF inv(2) i] names_apart_other [OF inv(2) i] \<open>dp_sockets d' = dp_sockets d\<close>
    by (intro names_apart_set [OF inv(2)]) auto
  ultimately show ?thesis by simp
qed

lemma display_create_sockets: "wl_display_create al lo epfd efd sa func mem = Inr d \<Longrightarrow> dp_sockets d = []"
  by (auto simp: wl_display_create_def Let_def split: if_splits option.splits prod.splits)

lemma compositors_inv: "compositors fs D \<Longrightarrow> all_serve fs (sockets_of D) \<and> names_apart D"
proof (induction rule: compositors.induct)
  case (start fs)
  then show ?case by (simp add: all_serve_def sockets_of_def names_apart_def)
next
  case (create fs D i al lo epfd efd sa func mem d)
  from create.hyps(2) have "D(i := None) = D" by (simp add: fun_upd_idem)
  then have "sockets_of (D(i := Some d)) = sockets_of D" "names_apart (D(i := Some d))"
    using create.IH display_create_sockets [OF create.hyps(3)] names_apart_set [of D d i] sockets_of_upd [of D i d] by simp_all
  with create.IH show ?case by metis
next
  case (add fs D i d name wd al sa func data dir r d' fs')
  show ?case
    using add_socket_spec [OF _ add.hyps(3,4)] added_step [of fs D i d fs' "r = 0" d'] add.hyps(2) add.IH by blast
next
  case (add_auto fs D i d al sa func data dir rs d' fs')
  show ?case
    using add_socket_auto_spec [OF _ add_auto.hyps(3)] added_step [of fs D i d fs' "rs \<noteq> None" d'] add_auto.hyps(2) add_auto.IH by blast
next
  case (work fs D i d d')
  then have "added fs (sockets_of D) False d d'" by (simp add: added_def)
  with added_step [of fs D i d fs False d'] work.hyps(2) work.IH show ?case by blast
next
  case (destroy fs D i d emit loop_emit sv fs')
  have "all_serve fs (set (dp_sockets d) \<union> sockets_of (D(i := None)))"
    using destroy.IH sockets_of_split [of D i d] destroy.hyps(2) by simp
  moreover obtain sv1 where "destroy_sockets (dp_sockets d) (dp_server (emit d)) fs = Some (sv1, fs')"
    using destroy.hyps(3,4) by (auto simp: wl_display_destroy_def bind_eq_Some_conv Let_def)
  ultimately have "all_serve fs' (sockets_of (D(i := None)))"
    using destroy_sockets_spec [of fs "dp_sockets d"] names_apartD(1) [of D i d] names_apart_other [of D i d] destroy.IH destroy.hyps(2) by blast
  with destroy.IH names_apart_rest show ?case by blast
next
  case (exit fs D i d)
  have "all_serve fs (set (dp_sockets d) \<union> sockets_of (D(i := None)))"
    using exit.IH sockets_of_split [of D i d] exit.hyps(2) by simp
  then have "all_serve (process_exit (dp_sockets d) fs) (sockets_of (D(i := None)))"
    using process_exit_spec [of fs "dp_sockets d"] names_apartD(1) [of D i d] names_apart_other [of D i d] exit.IH exit.hyps(2) by blast
  with exit.IH names_apart_rest show ?case by blast
next
  case (environment fs D u rs)
  moreover have "serves (fs\<lparr>f_script := rs, f_umask := u\<rparr>) t = serves fs t" "fs_ok (fs\<lparr>f_script := rs, f_umask := u\<rparr>) = fs_ok fs" for t
    by (simp_all add: serves_def holds_lock_def sys_connect_def fs_ok_def)
  ultimately show ?case by (simp add: all_serve_def)
qed

text \<open>C6: In every state that compositors sharing a runtime directory can reach - adding sockets by
  name (names of the form of a lock file excepted) or automatically, destroying displays, or ending
  without cleaning up, with any system calls failing - a client that connects to the name of a
  listening socket reaches that socket, and no two listening sockets have the same name.\<close>

theorem socket_names_exclusive:
  assumes "compositors fs D" "D i = Some d" "s \<in> set (dp_sockets d)"
  shows "sys_connect (so_path s) fs = Some (so_fd s) \<and> holds_lock fs s \<and>
    (\<forall>j e t. D j = Some e \<and> t \<in> set (dp_sockets e) \<and> so_path t = so_path s \<longrightarrow> j = i \<and> t = s)"
proof -
  note inv = compositors_inv [OF assms(1)]
  have "serves fs s" using inv sockets_ofI [of D i d s] assms(2,3) by (simp add: all_serve_def)
  moreover have "j = i \<and> t = s" if t: "D j = Some e" "t \<in> set (dp_sockets e)" "so_path t = so_path s" for j e t
  proof -
    have "j = i" using names_apartD(2) [OF conjunct2 [OF inv] t(1) assms(2) t(2) assms(3) t(3)] .
    moreover have "inj_on so_path (set (dp_sockets d))"
      using names_apartD(1) [OF conjunct2 [OF inv] assms(2)] by (simp add: distinct_map)
    ultimately show ?thesis using t assms by (auto dest: inj_onD)
  qed
  ultimately show ?thesis by (auto simp: serves_def)
qed

definition empty_dir :: filesys where
  "empty_dir = \<lparr>f_dir = (\<lambda>_. None), f_writable = (\<lambda>_. True), f_lock = (\<lambda>_. None), f_sock = (\<lambda>_. None),
     f_file = (\<lambda>_. None), f_listening = (\<lambda>_. False), f_closed = [], f_inodes = 0, f_descriptors = 3,
     f_umask = True, f_script = []\<rparr>"

definition sample_display :: display where
  "sample_display = \<lparr>dp_server = sample_server\<lparr>s_os := os_init\<lparr>dup_script := [Inr 40]\<rparr>\<rparr>,
     dp_sockets = [], dp_run = False, dp_terminate_efd = 8, dp_term_source = 7\<rparr>"

lemmas socket_eval = wl_socket_lock_def lock_open_def lock_clear_def sys_open_lockfile_def sys_outcome_def empty_dir_def
  create_file_def new_descriptor_def sys_flock_def sys_lstat_def sys_unlink_def sys_socket_def sys_bind_def sys_listen_def
  sys_closefd_def listen_on_def wl_socket_alloc_def snprintf_def
  UNIX_PATH_MAX_def LOCK_SUFFIX_def LOCK_SUFFIXLEN_def

definition watching :: "saddr \<Rightarrow> int \<Rightarrow> u32 \<Rightarrow> source \<Rightarrow> event_loop \<Rightarrow> event_loop" where
  "watching a dupfd msk src lp =
     lp\<lparr>el_src := (el_src lp)(a := Some src), el_epoll := (el_epoll lp)(dupfd := Some (events_of_mask msk, a))\<rparr>"

lemma display_add_fd_ok:
  assumes "sa \<noteq> 0" "dup_script (s_os sv) = Inr dup # rs" "0 \<le> sint dup" "epoll_script (d_loop sv) = []"
  shows "display_add_fd sa f msk func data sv =
    (unat sa, sv\<lparr>s_os := (s_os sv)\<lparr>dup_script := rs\<rparr>,
       d_loop := watching (unat sa) (sint dup) msk \<lparr>s_iface = FdInterface func (sint f), s_fd = sint dup, s_data = data\<rparr> (d_loop sv)\<rparr>)"
  using assms by (simp add: display_add_fd_def sys_dup_def wl_event_loop_add_fd_def add_source_def epoll_ctl_def
      set_src_def Let_def unat_eq_zero watching_def)

lemma dp_sample: "dp_sockets sample_display = []" by (simp add: sample_display_def)

text \<open>The source of a sample display is added.\<close>

lemma sample_add_fd:
  "\<exists>lp. display_add_fd 4096 f msk func data (dp_server sample_display) =
     (4096, (dp_server sample_display)\<lparr>s_os := os_init, d_loop := lp\<rparr>) \<and>
     el_src lp 4096 = Some \<lparr>s_iface = FdInterface func (sint f), s_fd = 40, s_data = data\<rparr>"
  by (subst display_add_fd_ok)
    (auto simp: sample_display_def os_init_def sample_server_def sample_loop_def watching_def timer_heap.defs event_loop.defs
      intro: exI)

lemma sample_added:
  "\<exists>d' fs' s. wl_display_add_socket True 4096 500 0 None None (Some ''/r/w'') sample_display empty_dir = Some (0, d', fs') \<and>
     dp_sockets d' = [s] \<and> so_path s = ''/r/w''"
proof -
  obtain lp where "display_add_fd 4096 4 WL_EVENT_READABLE 500 0 (dp_server sample_display) =
      (4096, (dp_server sample_display)\<lparr>s_os := os_init, d_loop := lp\<rparr>)" using sample_add_fd by blast
  then show ?thesis
    by (simp add: wl_display_add_socket_def wl_socket_init_for_display_name_def socket_eval Let_def dp_sample)
qed

lemma sample_compositor: "compositors empty_dir [0 \<mapsto> sample_display]"
proof -
  have "fs_ok empty_dir" by (simp add: fs_ok_def empty_dir_def)
  then have s: "compositors empty_dir (\<lambda>_. None)" by (rule compositors.start)
  obtain d where d: "wl_display_create True True 5 8 4096 500 sample_display = Inr d"
    using display_add_fd_ok [of 4096 "(dp_server sample_display)\<lparr>d_loop := the (wl_event_loop_create True 5 (d_loop (dp_server sample_display)))\<rparr>" 40 "[]"]
    by (simp add: wl_display_create_def wl_event_loop_create_def wl_timer_heap_init_def sample_display_def
        sample_server_def sample_loop_def os_init_def timer_heap.defs event_loop.defs Let_def)
  note c = compositors.create [OF s refl d, of 0]
  show ?thesis
    using compositors.work [OF c, of 0 d sample_display] display_create_sockets [OF d] by (simp add: dp_sample)
qed

lemma socket_names_exclusive_witness:
  "\<exists>fs D d s. compositors fs D \<and> D 0 = Some d \<and> s \<in> set (dp_sockets d) \<and> so_path s = ''/r/w'' \<and>
     sys_connect ''/r/w'' fs = Some (so_fd s)"
proof -
  obtain d fs s where a: "wl_display_add_socket True 4096 500 0 None None (Some ''/r/w'') sample_display empty_dir = Some (0, d, fs)"
    "dp_sockets d = [s]" "so_path s = ''/r/w''" using sample_added by blast
  have "\<not> suffix LOCK_SUFFIX ''/r/w''" by (simp add: LOCK_SUFFIX_def suffix_def)
  then have c: "compositors fs ([0 \<mapsto> sample_display](0 := Some d))"
    using compositors.add [OF sample_compositor _ _ a(1), of 0] by simp
  moreover have "sys_connect ''/r/w'' fs = Some (so_fd s)"
    using socket_names_exclusive [OF c _, of 0 d s, THEN conjunct1] a(2,3) by simp
  moreover have "([0 \<mapsto> sample_display](0 := Some d)) 0 = Some d" "s \<in> set (dp_sockets d)" using a(2) by auto
  ultimately show ?thesis using a(3) by blast
qed

text \<open>
  The operations of \<open>wl_socket_lock\<close> and \<open>wl_socket_destroy\<close> in another order: the second
  compositor opens the lock file before the first one destroys its socket, and locks it after the
  file was unlinked.
\<close>

definition lock_race ::
  "wl_socket \<Rightarrow> display \<Rightarrow> filesys \<Rightarrow> (wl_socket \<times> display \<times> wl_socket \<times> display \<times> filesys) option" where
  "lock_race s d fs =
     (case wl_socket_lock s fs of (r1, s1, fs1) \<Rightarrow>
      case listen_on 4096 500 0 s1 d fs1 of (ok1, s1, d1, fs2) \<Rightarrow>
      case lock_open s fs2 of (ok2, s2, fs3) \<Rightarrow>
      wl_socket_destroy s1 (dp_server d1) fs3 \<bind> (\<lambda>(sv, fs4).
      case sys_flock (so_fd_lock s2) fs4 of (r2, fs5) \<Rightarrow>
      case lock_clear s2 fs5 of (r3, s2, fs6) \<Rightarrow>
      case listen_on 4096 500 0 s2 d fs6 of (ok3, s2, d2, fs7) \<Rightarrow>
      case wl_socket_lock s fs7 of (r4, s3, fs8) \<Rightarrow>
      case listen_on 4096 500 0 s3 d fs8 of (ok4, s3, d3, fs9) \<Rightarrow>
        if ok1 \<and> ok2 \<and> ok3 \<and> ok4 \<and> r1 = 0 \<and> r2 = Inr () \<and> r3 = 0 \<and> r4 = 0 then Some (s2, d2, s3, d3, fs9) else None))"

text \<open>The exclusion of two compositors does not survive an interleaving of their system calls:
  when one opens the lock file just before another unlinks it on destroying its socket, both it and
  a third compositor that comes later get the lock of the same name, the third removes the socket
  of the second, and the second listens on a socket that no client can reach.\<close>

lemma socket_lock_race:
  "\<exists>s2 d2 s3 d3 fs. lock_race (wl_socket_alloc\<lparr>so_path := ''/r/w'', so_name := ''w''\<rparr>) sample_display empty_dir =
       Some (s2, d2, s3, d3, fs) \<and>
     s2 \<in> set (dp_sockets d2) \<and> s3 \<in> set (dp_sockets d3) \<and> so_path s2 = so_path s3 \<and> so_fd s2 \<noteq> so_fd s3 \<and>
     f_listening fs (so_fd s2) \<and> sys_connect (so_path s2) fs = Some (so_fd s3)"
proof -
  obtain lp where lp: "display_add_fd 4096 4 WL_EVENT_READABLE 500 0 (dp_server sample_display) =
      (4096, (dp_server sample_display)\<lparr>s_os := os_init, d_loop := lp\<rparr>)"
    "el_src lp 4096 = Some \<lparr>s_iface = FdInterface 500 4, s_fd = 40, s_data = 0\<rparr>" using sample_add_fd [of 4] by force
  obtain lp2 where lp2: "display_add_fd 4096 6 WL_EVENT_READABLE 500 0 (dp_server sample_display) =
      (4096, (dp_server sample_display)\<lparr>s_os := os_init, d_loop := lp2\<rparr>)" using sample_add_fd by blast
  obtain lp3 where lp3: "display_add_fd 4096 8 WL_EVENT_READABLE 500 0 (dp_server sample_display) =
      (4096, (dp_server sample_display)\<lparr>s_os := os_init, d_loop := lp3\<rparr>)" using sample_add_fd by blast
  obtain lp' where rm: "wl_event_source_remove (Timespec 0 0) True 4096 lp = Some lp'"
    using lp(2) by (auto simp: wl_event_source_remove_def Let_def)
  show ?thesis
    by (simp add: lock_race_def socket_eval lp lp2 lp3 dp_sample wl_socket_destroy_def source_removed_def
        remove_source_def rm Let_def sys_connect_def)
qed

end
