(* ===== verification/Dmabuf.thy ===== *)
theory Dmabuf
  imports Client
begin

text \<open>
  Client buffers made of DMA-BUF planes: the first half of wlr_linux_dmabuf_v1.c (the parameters a
  client collects plane by plane, the checks on creating a buffer from them, and the life of the
  buffer), with westfield-dmabuf.c, westfield-buffer.c and addon.c.  What the kernel says about a
  plane (its size, and whether the device can import it) is a parameter.  \<open>None\<close> is a failed
  assertion or the use of a freed object.
\<close>

section \<open>Addons\<close>

text \<open>
  The set is the list of its addons in order; \<open>ad\<close> holds the addons by address (the fields that
  \<open>addon_init\<close> writes).
\<close>

record addon =
  ad_owner :: u64
  ad_impl :: u64

definition addon_set_init :: "u64 list" where
  "addon_set_init = []"

fun addon_present :: "(u64 \<Rightarrow> addon) \<Rightarrow> u64 list \<Rightarrow> u64 \<Rightarrow> u64 \<Rightarrow> bool" where
  "addon_present ad [] owner impl = False"
| "addon_present ad (x # xs) owner impl =
     (if ad_owner (ad x) = owner \<and> ad_impl (ad x) = impl then True else addon_present ad xs owner impl)"

text \<open>
  The assertion in the loop compares with the owner and the implementation of the addon before
  they are set: the addon has just been cleared.
\<close>

definition addon_init ::
  "u64 \<Rightarrow> u64 \<Rightarrow> u64 \<Rightarrow> (u64 \<Rightarrow> addon) \<times> u64 list \<Rightarrow> ((u64 \<Rightarrow> addon) \<times> u64 list) option" where
  "addon_init a owner impl st =
     (case st of (ad, xs) \<Rightarrow>
        if owner = 0 \<or> impl = 0 then None
        else
          let ad1 = ad(a := \<lparr>ad_owner = 0, ad_impl = 0\<rparr>) in
          if addon_present ad1 xs (ad_owner (ad1 a)) (ad_impl (ad1 a)) then None
          else Some (ad1(a := \<lparr>ad_owner = owner, ad_impl = impl\<rparr>), a # xs))"

definition addon_finish :: "u64 \<Rightarrow> u64 list \<Rightarrow> u64 list" where
  "addon_finish a xs = removeAll a xs"

fun addon_find :: "(u64 \<Rightarrow> addon) \<Rightarrow> u64 list \<Rightarrow> u64 \<Rightarrow> u64 \<Rightarrow> u64" where
  "addon_find ad [] owner impl = 0"
| "addon_find ad (x # xs) owner impl =
     (if ad_owner (ad x) = owner \<and> ad_impl (ad x) = impl then x else addon_find ad xs owner impl)"

section \<open>Attributes\<close>

definition WESTFIELD_DMABUF_MAX_PLANES :: nat where "WESTFIELD_DMABUF_MAX_PLANES = 4"

record dmabuf_attributes =
  da_width :: int
  da_height :: int
  da_format :: u32
  da_modifier :: u64
  da_n_planes :: nat
  da_offset :: "u32 list"
  da_stride :: "u32 list"
  da_fd :: "int list"

text \<open>Closing -1 has no effect.\<close>

definition close_plane :: "int \<Rightarrow> os \<Rightarrow> os" where
  "close_plane f w = (if f = - 1 then w else sys_close (of_int f) w)"

definition dmabuf_attributes_finish :: "dmabuf_attributes \<Rightarrow> os \<Rightarrow> dmabuf_attributes \<times> os" where
  "dmabuf_attributes_finish at w =
     (at\<lparr>da_fd := replicate (da_n_planes at) (- 1) @ drop (da_n_planes at) (da_fd at), da_n_planes := 0\<rparr>,
      fold close_plane (take (da_n_planes at) (da_fd at)) w)"

text \<open>\<open>dup\<close> is \<open>fcntl (F_DUPFD_CLOEXEC)\<close>; the loop makes the duplicates so far and tells if all went well.\<close>

fun copy_planes :: "(int \<Rightarrow> os \<Rightarrow> int \<times> os) \<Rightarrow> int list \<Rightarrow> os \<Rightarrow> bool \<times> int list \<times> os" where
  "copy_planes dup [] w = (True, [], w)"
| "copy_planes dup (f # fs) w =
     (case dup f w of (g, w1) \<Rightarrow>
        if g < 0 then (False, [g], w1)
        else (case copy_planes dup fs w1 of (ok, gs, w2) \<Rightarrow> (ok, g # gs, w2)))"

definition dmabuf_attributes_copy ::
  "(int \<Rightarrow> os \<Rightarrow> int \<times> os) \<Rightarrow> dmabuf_attributes \<Rightarrow> os \<Rightarrow> bool \<times> dmabuf_attributes \<times> os" where
  "dmabuf_attributes_copy dup src w =
     (case copy_planes dup (take (da_n_planes src) (da_fd src)) w of (ok, gs, w1) \<Rightarrow>
        if ok then (True, src\<lparr>da_fd := gs @ drop (da_n_planes src) (da_fd src)\<rparr>, w1)
        else
          let i = length gs - 1 in
          (False, src\<lparr>da_fd := replicate i (- 1) @ [last gs] @ drop (length gs) (da_fd src), da_n_planes := 0\<rparr>,
           fold close_plane (take i gs) w1))"

section \<open>State\<close>

record buffer_params =
  pa_resource :: u64
  pa_dmabuf :: u64
  pa_attr :: dmabuf_attributes
  pa_has_modifier :: bool

record dmabuf_buffer =
  wb_resource :: u64
  wb_attr :: dmabuf_attributes
  wb_width :: int
  wb_height :: int
  wb_dropped :: bool

record dmabuf =
  db_server :: server
  db_params :: "u64 \<Rightarrow> buffer_params option"
  db_buffer :: "u64 \<Rightarrow> dmabuf_buffer option"

text \<open>
  \<open>x_seek\<close> is the size that \<open>lseek\<close> tells of a descriptor (-1: it cannot seek), \<open>x_import\<close> and
  \<open>x_close\<close> whether the device imports it and closes the handle; the rest are the addresses of
  interfaces, implementations and destructors.
\<close>

record dmabuf_env =
  x_seek :: "int \<Rightarrow> int"
  x_import :: "int \<Rightarrow> bool"
  x_close :: "int \<Rightarrow> bool"
  x_wl_buffer_interface :: u64
  x_params_interface :: u64
  x_buffer_impl :: u64
  x_params_impl :: u64
  x_buffer_destroy :: u64
  x_params_destroy :: u64

definition WL_BUFFER_RELEASE :: u32 where "WL_BUFFER_RELEASE = 0"
definition PARAMS_CREATED :: u32 where "PARAMS_CREATED = 0"
definition PARAMS_FAILED :: u32 where "PARAMS_FAILED = 1"
definition PARAMS_ERROR_ALREADY_USED :: u32 where "PARAMS_ERROR_ALREADY_USED = 0"
definition PARAMS_ERROR_PLANE_IDX :: u32 where "PARAMS_ERROR_PLANE_IDX = 1"
definition PARAMS_ERROR_PLANE_SET :: u32 where "PARAMS_ERROR_PLANE_SET = 2"
definition PARAMS_ERROR_INCOMPLETE :: u32 where "PARAMS_ERROR_INCOMPLETE = 3"
definition PARAMS_ERROR_INVALID_FORMAT :: u32 where "PARAMS_ERROR_INVALID_FORMAT = 4"
definition PARAMS_ERROR_INVALID_DIMENSIONS :: u32 where "PARAMS_ERROR_INVALID_DIMENSIONS = 5"
definition PARAMS_ERROR_OUT_OF_BOUNDS :: u32 where "PARAMS_ERROR_OUT_OF_BOUNDS = 6"
definition PARAMS_ERROR_INVALID_WL_BUFFER :: u32 where "PARAMS_ERROR_INVALID_WL_BUFFER = 7"

definition db_with :: "server option \<Rightarrow> dmabuf \<Rightarrow> dmabuf option" where
  "db_with so st = map_option (\<lambda>s. st\<lparr>db_server := s\<rparr>) so"

definition db_error :: "env \<Rightarrow> u64 \<Rightarrow> u32 \<Rightarrow> string \<Rightarrow> dmabuf \<Rightarrow> dmabuf option" where
  "db_error env r code msg st = db_with (wl_resource_post_error env r code msg (db_server st)) st"

definition db_os :: "(os \<Rightarrow> os) \<Rightarrow> dmabuf \<Rightarrow> dmabuf" where
  "db_os f st = st\<lparr>db_server := (db_server st)\<lparr>s_os := f (s_os (db_server st))\<rparr>\<rparr>"

section \<open>Buffers\<close>

definition buffer_handle_destroy :: "env \<Rightarrow> u64 \<Rightarrow> dmabuf \<Rightarrow> dmabuf option" where
  "buffer_handle_destroy env resource st = db_with (wl_resource_destroy env resource (db_server st)) st"

definition wlr_dmabuf_v1_resource_is_buffer :: "env \<Rightarrow> dmabuf_env \<Rightarrow> u64 \<Rightarrow> dmabuf \<Rightarrow> bool option" where
  "wlr_dmabuf_v1_resource_is_buffer env x resource st = do {
     inst \<leftarrow> wl_resource_instance_of env resource (x_wl_buffer_interface x) (x_buffer_impl x) (db_server st);
     if \<not> inst then Some False
     else do { b \<leftarrow> wl_resource_get_user_data resource (db_server st); Some (b \<noteq> 0) } }"

definition wlr_dmabuf_v1_buffer_from_buffer_resource :: "u64 \<Rightarrow> dmabuf \<Rightarrow> u64 option" where
  "wlr_dmabuf_v1_buffer_from_buffer_resource resource st = wl_resource_get_user_data resource (db_server st)"

definition buffer_destroy :: "u64 \<Rightarrow> dmabuf \<Rightarrow> dmabuf option" where
  "buffer_destroy b st = do {
     buffer \<leftarrow> db_buffer st b;
     let st1 = (if wb_resource buffer \<noteq> 0
                then st\<lparr>db_server := wl_resource_set_user_data (wb_resource buffer) 0 (db_server st)\<rparr> else st);
     let st2 = db_os (\<lambda>w. snd (dmabuf_attributes_finish (wb_attr buffer) w)) st1;
     Some (st2\<lparr>db_buffer := (db_buffer st2)(b := None)\<rparr>) }"

definition buffer_get_dmabuf :: "u64 \<Rightarrow> dmabuf \<Rightarrow> dmabuf_attributes option" where
  "buffer_get_dmabuf b st = map_option wb_attr (db_buffer st b)"

definition buffer_handle_release :: "env \<Rightarrow> u64 \<Rightarrow> dmabuf \<Rightarrow> dmabuf option" where
  "buffer_handle_release env b st = do {
     buffer \<leftarrow> db_buffer st b;
     if wb_resource buffer \<noteq> 0
     then db_with (wl_resource_post_event env (wb_resource buffer) WL_BUFFER_RELEASE [] (db_server st)) st
     else Some st }"

definition westfield_buffer_init :: "int \<Rightarrow> int \<Rightarrow> dmabuf_buffer" where
  "westfield_buffer_init width height =
     \<lparr>wb_resource = 0, wb_attr = \<lparr>da_width = 0, da_height = 0, da_format = 0, da_modifier = 0, da_n_planes = 0,
        da_offset = replicate 4 0, da_stride = replicate 4 0, da_fd = replicate 4 0\<rparr>,
      wb_width = width, wb_height = height, wb_dropped = False\<rparr>"

text \<open>\<open>emit\<close> is what the listeners of the destroy signal and the addons of the buffer do.\<close>

definition buffer_consider_destroy :: "(dmabuf \<Rightarrow> dmabuf) \<Rightarrow> u64 \<Rightarrow> dmabuf \<Rightarrow> dmabuf option" where
  "buffer_consider_destroy emit b st = do {
     buffer \<leftarrow> db_buffer st b;
     if \<not> wb_dropped buffer then Some st else buffer_destroy b (emit st) }"

definition westfield_buffer_drop :: "(dmabuf \<Rightarrow> dmabuf) \<Rightarrow> u64 \<Rightarrow> dmabuf \<Rightarrow> dmabuf option" where
  "westfield_buffer_drop emit b st =
     (if b = 0 then Some st
      else do {
        buffer \<leftarrow> db_buffer st b;
        if wb_dropped buffer then None
        else buffer_consider_destroy emit b (st\<lparr>db_buffer := (db_buffer st)(b := Some (buffer\<lparr>wb_dropped := True\<rparr>))\<rparr>) })"

definition buffer_handle_resource_destroy :: "(dmabuf \<Rightarrow> dmabuf) \<Rightarrow> u64 \<Rightarrow> dmabuf \<Rightarrow> dmabuf option" where
  "buffer_handle_resource_destroy emit buffer_resource st = do {
     b \<leftarrow> wlr_dmabuf_v1_buffer_from_buffer_resource buffer_resource st;
     buffer \<leftarrow> db_buffer st b;
     westfield_buffer_drop emit b (st\<lparr>db_buffer := (db_buffer st)(b := Some (buffer\<lparr>wb_resource := 0\<rparr>))\<rparr>) }"

section \<open>Collecting planes\<close>

definition params_from_resource :: "env \<Rightarrow> dmabuf_env \<Rightarrow> u64 \<Rightarrow> dmabuf \<Rightarrow> u64 option" where
  "params_from_resource env x resource st = do {
     inst \<leftarrow> wl_resource_instance_of env resource (x_params_interface x) (x_params_impl x) (db_server st);
     if inst then wl_resource_get_user_data resource (db_server st) else None }"

definition params_destroy :: "env \<Rightarrow> u64 \<Rightarrow> dmabuf \<Rightarrow> dmabuf option" where
  "params_destroy env resource st = db_with (wl_resource_destroy env resource (db_server st)) st"

definition close_request :: "int \<Rightarrow> dmabuf \<Rightarrow> dmabuf" where
  "close_request f st = db_os (close_plane f) st"

definition params_add ::
  "env \<Rightarrow> dmabuf_env \<Rightarrow> u64 \<Rightarrow> int \<Rightarrow> u32 \<Rightarrow> u32 \<Rightarrow> u32 \<Rightarrow> u32 \<Rightarrow> u32 \<Rightarrow> dmabuf \<Rightarrow> dmabuf option" where
  "params_add env x resource f plane_idx offset stride modifier_hi modifier_lo st = do {
     p \<leftarrow> params_from_resource env x resource st;
     if p = 0 then
       map_option (close_request f) (db_error env resource PARAMS_ERROR_ALREADY_USED
         ''params was already used to create a wl_buffer'' st)
     else do {
       params \<leftarrow> db_params st p;
       if of_nat WESTFIELD_DMABUF_MAX_PLANES \<le> plane_idx then
         map_option (close_request f) (db_error env resource PARAMS_ERROR_PLANE_IDX
           (''plane index '' @ fmt_u plane_idx @ '' > '' @ dec_nat WESTFIELD_DMABUF_MAX_PLANES) st)
       else do {
         let at = pa_attr params;
         let i = unat plane_idx;
         let modifier = (push_bit 32 (ucast modifier_hi) OR ucast modifier_lo :: u64);
         if da_fd at ! i \<noteq> - 1 then
           map_option (close_request f) (db_error env resource PARAMS_ERROR_PLANE_SET
             (''a dmabuf with FD '' @ dec_int (da_fd at ! i) @ '' has already been added for plane '' @ fmt_u plane_idx) st)
         else if pa_has_modifier params \<and> modifier \<noteq> da_modifier at then
           map_option (close_request f) (db_error env resource PARAMS_ERROR_INVALID_FORMAT
             (''sent modifier '' @ dec_nat (unat modifier) @ '' for plane '' @ fmt_u plane_idx @
              '', expected modifier '' @ dec_nat (unat (da_modifier at)) @ '' like other planes'') st)
         else
           Some (st\<lparr>db_params := (db_params st)(p := Some (params\<lparr>pa_has_modifier := True,
             pa_attr := at\<lparr>da_modifier := modifier, da_fd := (da_fd at)[i := f], da_offset := (da_offset at)[i := offset],
               da_stride := (da_stride at)[i := stride], da_n_planes := da_n_planes at + 1\<rparr>\<rparr>))\<rparr>) } } }"

section \<open>Checking the planes\<close>

datatype verdict = Fine | Failed | Rejected u32 string

definition planes_verdict :: "dmabuf_attributes \<Rightarrow> verdict" where
  "planes_verdict at =
     (if da_n_planes at = 0 then Rejected PARAMS_ERROR_INCOMPLETE ''no dmabuf has been added to the params''
      else if da_fd at ! 0 = - 1 then Rejected PARAMS_ERROR_INCOMPLETE ''no dmabuf has been added for plane 0''
      else if (da_fd at ! 3 \<ge> 0 \<or> da_fd at ! 2 \<ge> 0) \<and> (da_fd at ! 2 = - 1 \<or> da_fd at ! 1 = - 1)
      then Rejected PARAMS_ERROR_INCOMPLETE ''gap in dmabuf planes''
      else Fine)"

definition FLAGS_Y_INVERT :: u32 where "FLAGS_Y_INVERT = 1"
definition FLAGS_INTERLACED :: u32 where "FLAGS_INTERLACED = 2"
definition FLAGS_BOTTOM_FIRST :: u32 where "FLAGS_BOTTOM_FIRST = 4"

definition flags_verdict :: "u32 \<Rightarrow> verdict" where
  "flags_verdict flags =
     (if flags AND NOT (FLAGS_Y_INVERT OR FLAGS_INTERLACED OR FLAGS_BOTTOM_FIRST) \<noteq> 0
      then Rejected PARAMS_ERROR_INVALID_FORMAT (''Unknown dmabuf flags '' @ fmt_u flags)
      else if flags \<noteq> 0 then Failed
      else Fine)"

text \<open>
  The checks of one plane.  Sums of \<open>uint64_t\<close> are over \<open>u64\<close>, those of \<open>uint32_t\<close> wrap around at
  32 bits; \<open>height\<close> is converted to the unsigned type.
\<close>

definition plane_verdict :: "(int \<Rightarrow> int) \<Rightarrow> int \<Rightarrow> nat \<Rightarrow> u32 \<Rightarrow> u32 \<Rightarrow> int \<Rightarrow> verdict" where
  "plane_verdict seek height i offset stride f =
     (if (ucast offset + ucast stride :: u64) > 0xFFFFFFFF
      then Rejected PARAMS_ERROR_OUT_OF_BOUNDS (''size overflow for plane '' @ dec_nat i)
      else if (ucast offset + ucast stride * of_int height :: u64) > 0xFFFFFFFF
      then Rejected PARAMS_ERROR_OUT_OF_BOUNDS (''size overflow for plane '' @ dec_nat i)
      else
        let sz = seek f in
        if sz = - 1 then Fine
        else if uint offset > sz
        then Rejected PARAMS_ERROR_OUT_OF_BOUNDS (''invalid offset '' @ fmt_u offset @ '' for plane '' @ dec_nat i)
        else if uint (offset + stride) > sz \<or> stride = 0
        then Rejected PARAMS_ERROR_OUT_OF_BOUNDS (''invalid stride '' @ fmt_u stride @ '' for plane '' @ dec_nat i)
        else if i = 0 \<and> uint (offset + stride * of_int height) > sz
        then Rejected PARAMS_ERROR_OUT_OF_BOUNDS (''invalid buffer stride or height for plane '' @ dec_nat i)
        else Fine)"

fun plane_loop :: "(int \<Rightarrow> int) \<Rightarrow> int \<Rightarrow> nat \<Rightarrow> (u32 \<times> u32 \<times> int) list \<Rightarrow> verdict" where
  "plane_loop seek height i [] = Fine"
| "plane_loop seek height i ((offset, stride, f) # ps) =
     (case plane_verdict seek height i offset stride f of
        Fine \<Rightarrow> plane_loop seek height (i + 1) ps
      | v \<Rightarrow> v)"

definition planes :: "dmabuf_attributes \<Rightarrow> (u32 \<times> u32 \<times> int) list" where
  "planes at = take (da_n_planes at) (zip (da_offset at) (zip (da_stride at) (da_fd at)))"

fun import_loop :: "dmabuf_env \<Rightarrow> int list \<Rightarrow> bool" where
  "import_loop x [] = True"
| "import_loop x (f # fs) = (if \<not> x_import x f then False else if \<not> x_close x f then False else import_loop x fs)"

definition check_import_dmabuf :: "dmabuf_env \<Rightarrow> dmabuf_attributes \<Rightarrow> bool" where
  "check_import_dmabuf x at = import_loop x (take (da_n_planes at) (da_fd at))"

text \<open>The checks of \<open>params_create_common\<close> in their order.\<close>

definition create_verdict :: "dmabuf_env \<Rightarrow> int \<Rightarrow> int \<Rightarrow> u32 \<Rightarrow> dmabuf_attributes \<Rightarrow> verdict" where
  "create_verdict x width height flags at =
     (case planes_verdict at of
        Fine \<Rightarrow>
          (case flags_verdict flags of
             Fine \<Rightarrow>
               if width < 1 \<or> height < 1
               then Rejected PARAMS_ERROR_INVALID_DIMENSIONS
                      (''invalid width '' @ dec_int width @ '' or height '' @ dec_int height)
               else (case plane_loop (x_seek x) height 0 (planes at) of
                   Fine \<Rightarrow> if check_import_dmabuf x at then Fine else Failed
                 | v \<Rightarrow> v)
           | v \<Rightarrow> v)
      | v \<Rightarrow> v)"

section \<open>Creating a buffer\<close>

definition finish_planes :: "dmabuf_attributes \<Rightarrow> dmabuf \<Rightarrow> dmabuf" where
  "finish_planes at st = db_os (\<lambda>w. snd (dmabuf_attributes_finish at w)) st"

text \<open>The label \<open>err_failed\<close>, which goes on to \<open>err_out\<close>.\<close>

definition create_failed :: "env \<Rightarrow> u64 \<Rightarrow> u32 \<Rightarrow> dmabuf_attributes \<Rightarrow> dmabuf \<Rightarrow> dmabuf option" where
  "create_failed env resource buffer_id at st =
     map_option (finish_planes at)
       (if buffer_id = 0 then db_with (wl_resource_post_event env resource PARAMS_FAILED [] (db_server st)) st
        else db_error env resource PARAMS_ERROR_INVALID_WL_BUFFER ''importing the supplied dmabufs failed'' st)"

definition register_buffer :: "dmabuf_env \<Rightarrow> u64 \<Rightarrow> u64 \<Rightarrow> dmabuf_attributes \<Rightarrow> dmabuf \<Rightarrow> dmabuf" where
  "register_buffer x b r at st =
     st\<lparr>db_server := wl_resource_set_implementation r (x_buffer_impl x) b (x_buffer_destroy x) (db_server st),
        db_buffer := (db_buffer st)(b := Some ((westfield_buffer_init (da_width at) (da_height at))
          \<lparr>wb_resource := r, wb_attr := at\<rparr>))\<rparr>"

text \<open>\<open>b\<close> and \<open>ra\<close> are the addresses \<open>calloc\<close> and \<open>malloc\<close> return for the buffer and its resource.\<close>

definition create_buffer ::
  "env \<Rightarrow> dmabuf_env \<Rightarrow> u64 \<Rightarrow> u64 \<Rightarrow> u64 \<Rightarrow> u32 \<Rightarrow> dmabuf_attributes \<Rightarrow> dmabuf \<Rightarrow> dmabuf option" where
  "create_buffer env x b ra resource buffer_id at st =
     (if b = 0 then do {
        st1 \<leftarrow> db_with (wl_resource_post_no_memory env resource (db_server st)) st;
        create_failed env resource buffer_id at st1 }
      else do {
        client \<leftarrow> wl_resource_get_client resource (db_server st);
        (r, s1) \<leftarrow> wl_resource_create env ra client (x_wl_buffer_interface x) 1 buffer_id (db_server st);
        let st1 = st\<lparr>db_server := s1\<rparr>;
        if r = 0 then do {
          st2 \<leftarrow> db_with (wl_resource_post_no_memory env resource s1) st1;
          create_failed env resource buffer_id at st2 }
        else do {
          let st2 = register_buffer x b r at st1;
          if buffer_id = 0
          then db_with (wl_resource_post_event env resource PARAMS_CREATED [Obj r] (db_server st2)) st2
          else Some st2 } })"

definition params_create_common ::
  "env \<Rightarrow> dmabuf_env \<Rightarrow> u64 \<Rightarrow> u64 \<Rightarrow> u64 \<Rightarrow> u32 \<Rightarrow> int \<Rightarrow> int \<Rightarrow> u32 \<Rightarrow> u32 \<Rightarrow> dmabuf \<Rightarrow> dmabuf option" where
  "params_create_common env x b ra resource buffer_id width height format flags st = do {
     p \<leftarrow> params_from_resource env x resource st;
     if p = 0 then
       db_error env resource PARAMS_ERROR_ALREADY_USED ''params was already used to create a wl_buffer'' st
     else do {
       params \<leftarrow> db_params st p;
       let at = pa_attr params;
       let st1 = st\<lparr>db_server := wl_resource_set_user_data resource 0 (db_server st), db_params := (db_params st)(p := None)\<rparr>;
       (case create_verdict x width height flags at of
          Rejected code msg \<Rightarrow> map_option (finish_planes at) (db_error env resource code msg st1)
        | Failed \<Rightarrow> create_failed env resource buffer_id at st1
        | Fine \<Rightarrow> create_buffer env x b ra resource buffer_id
                   (at\<lparr>da_width := width, da_height := height, da_format := format\<rparr>) st1) } }"

definition params_create ::
  "env \<Rightarrow> dmabuf_env \<Rightarrow> u64 \<Rightarrow> u64 \<Rightarrow> u64 \<Rightarrow> int \<Rightarrow> int \<Rightarrow> u32 \<Rightarrow> u32 \<Rightarrow> dmabuf \<Rightarrow> dmabuf option" where
  "params_create env x b ra resource width height format flags st =
     params_create_common env x b ra resource 0 width height format flags st"

definition params_create_immed ::
  "env \<Rightarrow> dmabuf_env \<Rightarrow> u64 \<Rightarrow> u64 \<Rightarrow> u64 \<Rightarrow> u32 \<Rightarrow> int \<Rightarrow> int \<Rightarrow> u32 \<Rightarrow> u32 \<Rightarrow> dmabuf \<Rightarrow> dmabuf option" where
  "params_create_immed env x b ra resource buffer_id width height format flags st =
     params_create_common env x b ra resource buffer_id width height format flags st"

definition params_handle_resource_destroy :: "env \<Rightarrow> dmabuf_env \<Rightarrow> u64 \<Rightarrow> dmabuf \<Rightarrow> dmabuf option" where
  "params_handle_resource_destroy env x resource st = do {
     p \<leftarrow> params_from_resource env x resource st;
     if p = 0 then Some st
     else do {
       params \<leftarrow> db_params st p;
       Some ((finish_planes (pa_attr params) st)\<lparr>db_params := (db_params st)(p := None)\<rparr>) } }"

text \<open>\<open>dmabuf\<close> is the address of the global's data, the user data of the resource.\<close>

definition linux_dmabuf_create_params ::
  "env \<Rightarrow> dmabuf_env \<Rightarrow> u64 \<Rightarrow> u64 \<Rightarrow> u64 \<Rightarrow> u64 \<Rightarrow> u64 \<Rightarrow> u32 \<Rightarrow> dmabuf \<Rightarrow> dmabuf option" where
  "linux_dmabuf_create_params env x p ra client resource linux_dmabuf params_id st =
     (if p = 0 then db_with (wl_resource_post_no_memory env resource (db_server st)) st
      else do {
        version \<leftarrow> wl_resource_get_version resource (db_server st);
        (r, s1) \<leftarrow> wl_resource_create env ra client (x_params_interface x) version params_id (db_server st);
        if r = 0 then db_with (wl_resource_post_no_memory env resource s1) (st\<lparr>db_server := s1\<rparr>)
        else Some (st\<lparr>db_server := wl_resource_set_implementation r (x_params_impl x) p (x_params_destroy x) s1,
          db_params := (db_params st)(p := Some \<lparr>pa_resource = r, pa_dmabuf = linux_dmabuf,
            pa_attr = \<lparr>da_width = 0, da_height = 0, da_format = 0, da_modifier = 0, da_n_planes = 0,
              da_offset = replicate 4 0, da_stride = replicate 4 0, da_fd = replicate 4 (- 1)\<rparr>,
            pa_has_modifier = False\<rparr>)\<rparr>) })"

section \<open>Bounds of the planes\<close>

text \<open>
  What the checks of a plane are meant to establish, over unbounded integers: the plane lies within
  32 bits, and within the size of its descriptor when that is known.
\<close>

definition plane_in_bounds :: "(int \<Rightarrow> int) \<Rightarrow> int \<Rightarrow> nat \<Rightarrow> u32 \<Rightarrow> u32 \<Rightarrow> int \<Rightarrow> bool" where
  "plane_in_bounds seek height i offset stride f \<longleftrightarrow>
     uint offset + uint stride < 2 ^ 32 \<and> uint offset + uint stride * height < 2 ^ 32 \<and>
     (seek f \<noteq> - 1 \<longrightarrow> stride \<noteq> 0 \<and> uint offset + uint stride \<le> seek f \<and>
       (i = 0 \<longrightarrow> uint offset + uint stride * height \<le> seek f))"

lemma uint_extend: "uint (ucast (a::u32) :: u64) = uint a"
  by (simp add: uint_up_ucast is_up)

lemma uint_sum64: "uint (ucast (a::u32) + ucast (b::u32) :: u64) = uint a + uint b"
proof -
  have "uint a + uint b < 2 ^ 64" using uint_lt2p [of a] uint_lt2p [of b] by simp
  then show ?thesis by (simp add: uint_word_ariths uint_extend)
qed

lemma uint_extent64:
  assumes "0 \<le> h" "h < 2 ^ 31"
  shows "uint (ucast (a::u32) + ucast (b::u32) * of_int h :: u64) = uint a + uint b * h"
proof -
  have h: "uint (of_int h :: u64) = h" using assms by (simp add: uint_word_of_int)
  have "uint b * h \<le> (2 ^ 32 - 1) * 2 ^ 31" using assms uint_lt2p [of b] by (intro mult_mono) auto
  moreover have "0 \<le> uint b * h" using assms by simp
  ultimately have "0 \<le> uint a + uint b * h" "uint b * h < 2 ^ 64" "uint a + uint b * h < 2 ^ 64"
    using uint_lt2p [of a] by auto
  then show ?thesis by (simp add: uint_word_ariths uint_extend h assms)
qed

lemma uint_sum32: "uint (a::u32) + uint b < 2 ^ 32 \<Longrightarrow> uint (a + b) = uint a + uint b"
  by (simp add: uint_word_ariths)

lemma uint_extent32:
  assumes h: "0 \<le> h" "h < 2 ^ 31" and b: "uint (a::u32) + uint b * h < 2 ^ 32"
  shows "uint (a + b * of_int h) = uint a + uint b * h"
proof -
  have "uint (of_int h :: u32) = h" using h by (simp add: uint_word_of_int)
  moreover have "0 \<le> uint b * h" "uint b * h < 2 ^ 32"
    using b h by (simp, use uint_nonnegative [of a] b in linarith)
  ultimately show ?thesis using b by (simp add: uint_word_ariths)
qed

lemma plane_verdict_fine:
  assumes h: "1 \<le> h" "h < 2 ^ 31" and v: "plane_verdict seek h i offset stride f = Fine"
  shows "plane_in_bounds seek h i offset stride f"
proof -
  have h0: "0 \<le> h" using h by simp
  have sum: "uint offset + uint stride < 2 ^ 32"
    using v uint_sum64 [of offset stride] by (auto simp: plane_verdict_def word_less_def split: if_splits)
  have ext: "uint offset + uint stride * h < 2 ^ 32"
    using v uint_extent64 [OF h0 h(2), of offset stride] by (auto simp: plane_verdict_def word_less_def split: if_splits)
  show ?thesis
    using v sum ext uint_sum32 [OF sum] uint_extent32 [OF h0 h(2) ext]
    by (auto simp: plane_verdict_def plane_in_bounds_def Let_def split: if_splits)
qed

lemma plane_loop_fine:
  assumes h: "1 \<le> h" "h < 2 ^ 31"
  shows "plane_loop seek h i ps = Fine \<Longrightarrow> k < length ps \<Longrightarrow> ps ! k = (offset, stride, f) \<Longrightarrow>
    plane_in_bounds seek h (i + k) offset stride f"
proof (induction ps arbitrary: i k)
  case (Cons p ps)
  obtain o1 s1 f1 where p: "p = (o1, s1, f1)" by (metis prod_cases3)
  with Cons.prems(1) have v: "plane_verdict seek h i o1 s1 f1 = Fine" "plane_loop seek h (i + 1) ps = Fine"
    by (auto split: verdict.splits)
  show ?case
  proof (cases k)
    case 0
    then show ?thesis using plane_verdict_fine [OF h v(1)] p Cons.prems(3) by simp
  next
    case (Suc n)
    then show ?thesis using Cons.IH [OF v(2), of n] Cons.prems(2,3) by simp
  qed
qed simp

section \<open>Invariant\<close>

text \<open>
  The planes that were added are those whose descriptor is not -1; \<open>contiguous\<close> are they when they
  are the first ones.
\<close>

definition attr_ok :: "dmabuf_attributes \<Rightarrow> bool" where
  "attr_ok at \<longleftrightarrow> length (da_fd at) = 4 \<and> length (da_offset at) = 4 \<and> length (da_stride at) = 4 \<and>
     (\<forall>f \<in> set (da_fd at). - 1 \<le> f) \<and> da_n_planes at = length (filter (\<lambda>f. f \<noteq> - 1) (da_fd at))"

definition contiguous :: "dmabuf_attributes \<Rightarrow> bool" where
  "contiguous at \<longleftrightarrow> 1 \<le> da_n_planes at \<and> (\<forall>i < 4. da_fd at ! i \<noteq> - 1 \<longleftrightarrow> i < da_n_planes at)"

definition buffer_ok :: "dmabuf_env \<Rightarrow> dmabuf_buffer \<Rightarrow> bool" where
  "buffer_ok x buf \<longleftrightarrow>
     (let at = wb_attr buf in
      attr_ok at \<and> contiguous at \<and> 1 \<le> da_width at \<and> 1 \<le> da_height at \<and>
      (\<forall>i < da_n_planes at.
         plane_in_bounds (x_seek x) (da_height at) i (da_offset at ! i) (da_stride at ! i) (da_fd at ! i)))"

lemma length_4_cases:
  assumes "length xs = 4"
  obtains a b c d where "xs = [a, b, c, d]"
  using assms by (auto simp: numeral_eq_Suc length_Suc_conv)

lemma all_less_4: "(\<forall>i < (4::nat). P i) \<longleftrightarrow> P 0 \<and> P 1 \<and> P 2 \<and> P 3"
  by (auto simp: numeral_eq_Suc All_less_Suc)

lemma planes_verdict_contiguous:
  assumes "attr_ok at" "planes_verdict at = Fine"
  shows "contiguous at"
proof -
  obtain a b c d where fds: "da_fd at = [a, b, c, d]" using assms(1) length_4_cases unfolding attr_ok_def by metis
  then show ?thesis
    using assms by (auto simp: attr_ok_def contiguous_def planes_verdict_def all_less_4 split: if_splits)
qed

lemma create_verdict_fine:
  assumes "create_verdict x width height flags at = Fine"
  shows "planes_verdict at = Fine" "1 \<le> width" "1 \<le> height" "plane_loop (x_seek x) height 0 (planes at) = Fine"
    "check_import_dmabuf x at"
  using assms by (auto simp: create_verdict_def split: verdict.splits if_splits)

lemma created_ok:
  assumes ok: "attr_ok at" and v: "create_verdict x width height flags at = Fine" and h: "height < 2 ^ 31"
  shows "buffer_ok x ((westfield_buffer_init width height)\<lparr>wb_resource := r,
    wb_attr := at\<lparr>da_width := width, da_height := height, da_format := format\<rparr>\<rparr>)"
proof -
  note f = create_verdict_fine [OF v]
  have c: "contiguous at" using planes_verdict_contiguous [OF ok f(1)] .
  have len: "length (planes at) = da_n_planes at"
    using ok length_filter_le [of "\<lambda>f. f \<noteq> - 1" "da_fd at"] by (simp add: planes_def attr_ok_def)
  have "plane_in_bounds (x_seek x) height i (da_offset at ! i) (da_stride at ! i) (da_fd at ! i)" if i: "i < da_n_planes at" for i
  proof -
    have "planes at ! i = (da_offset at ! i, da_stride at ! i, da_fd at ! i)"
      using i len ok by (simp add: planes_def attr_ok_def)
    with plane_loop_fine [OF f(3) h f(4), of i] i len show ?thesis by simp
  qed
  with c ok f(2,3) show ?thesis by (simp add: buffer_ok_def attr_ok_def contiguous_def Let_def)
qed

lemma add_plane_ok:
  assumes ok: "attr_ok at" and i: "i < 4" "da_fd at ! i = - 1" and f: "0 \<le> f"
  shows "attr_ok (at\<lparr>da_modifier := m, da_fd := (da_fd at)[i := f], da_offset := (da_offset at)[i := off],
    da_stride := (da_stride at)[i := st], da_n_planes := da_n_planes at + 1\<rparr>)"
proof -
  obtain a b c d where fds: "da_fd at = [a, b, c, d]" using ok length_4_cases unfolding attr_ok_def by metis
  consider "i = 0" | "i = 1" | "i = 2" | "i = 3" using i(1) by linarith
  then show ?thesis using ok i f fds by cases (auto simp: attr_ok_def)
qed

text \<open>
  The states that the requests of clients reach; whatever else happens to clients and resources is
  a step \<open>other\<close>.  \<open>malloc\<close> returns addresses that are not in use, received descriptors are not
  negative and sizes are 32-bit integers.
\<close>

inductive dmabuf_reach :: "env \<Rightarrow> dmabuf_env \<Rightarrow> dmabuf \<Rightarrow> bool" for env x where
  start: "dmabuf_reach env x \<lparr>db_server = s, db_params = (\<lambda>_. None), db_buffer = (\<lambda>_. None)\<rparr>"
| other: "dmabuf_reach env x st \<Longrightarrow> dmabuf_reach env x (st\<lparr>db_server := s\<rparr>)"
| create_params: "dmabuf_reach env x st \<Longrightarrow> p = 0 \<or> db_params st p = None \<Longrightarrow>
    linux_dmabuf_create_params env x p ra client r dm i st = Some st' \<Longrightarrow> dmabuf_reach env x st'"
| add: "dmabuf_reach env x st \<Longrightarrow> 0 \<le> f \<Longrightarrow> params_add env x r f k offset stride hi lo st = Some st' \<Longrightarrow>
    dmabuf_reach env x st'"
| create: "dmabuf_reach env x st \<Longrightarrow> b = 0 \<or> db_buffer st b = None \<Longrightarrow> height < 2 ^ 31 \<Longrightarrow>
    params_create_common env x b ra r i width height format flags st = Some st' \<Longrightarrow> dmabuf_reach env x st'"
| params_gone: "dmabuf_reach env x st \<Longrightarrow> params_handle_resource_destroy env x r st = Some st' \<Longrightarrow> dmabuf_reach env x st'"
| release: "dmabuf_reach env x st \<Longrightarrow> buffer_handle_release env b st = Some st' \<Longrightarrow> dmabuf_reach env x st'"
| buffer_gone: "dmabuf_reach env x st \<Longrightarrow> (\<And>s. db_params (emit s) = db_params s \<and> db_buffer (emit s) = db_buffer s) \<Longrightarrow>
    buffer_handle_resource_destroy emit r st = Some st' \<Longrightarrow> dmabuf_reach env x st'"

definition dmabuf_ok :: "dmabuf_env \<Rightarrow> dmabuf \<Rightarrow> bool" where
  "dmabuf_ok x st \<longleftrightarrow> (\<forall>p pa. db_params st p = Some pa \<longrightarrow> attr_ok (pa_attr pa)) \<and>
     (\<forall>b buf. db_buffer st b = Some buf \<longrightarrow> buffer_ok x buf)"

lemma dmabuf_ok_maps:
  "dmabuf_ok x st \<Longrightarrow> db_params st' = db_params st \<Longrightarrow> db_buffer st' = db_buffer st \<Longrightarrow> dmabuf_ok x st'"
  by (simp add: dmabuf_ok_def)

lemma db_simps [simp]:
  "db_params (db_os f st) = db_params st" "db_buffer (db_os f st) = db_buffer st"
  "db_params (finish_planes at st) = db_params st" "db_buffer (finish_planes at st) = db_buffer st"
  "db_params (close_request f' st) = db_params st" "db_buffer (close_request f' st) = db_buffer st"
  by (simp_all add: db_os_def finish_planes_def close_request_def)

lemma db_with_maps: "db_with so st = Some st' \<Longrightarrow> db_params st' = db_params st \<and> db_buffer st' = db_buffer st"
  by (auto simp: db_with_def)

lemma db_error_maps: "db_error env r c m st = Some st' \<Longrightarrow> db_params st' = db_params st \<and> db_buffer st' = db_buffer st"
  unfolding db_error_def by (rule db_with_maps)

lemma create_failed_maps:
  "create_failed env r i at st = Some st' \<Longrightarrow> db_params st' = db_params st \<and> db_buffer st' = db_buffer st"
  by (auto simp: create_failed_def split: if_splits dest: db_with_maps db_error_maps)

lemma register_new_buffer_ok:
  assumes ok: "dmabuf_ok x st" and at: "\<And>r. buffer_ok x ((westfield_buffer_init (da_width at) (da_height at))\<lparr>wb_resource := r, wb_attr := at\<rparr>)"
    and run: "create_buffer env x b ra r i at st = Some st'"
  shows "dmabuf_ok x st'"
proof (cases "b = 0")
  case True
  then show ?thesis using run ok
    by (auto simp: create_buffer_def bind_eq_Some_conv dmabuf_ok_def dest!: db_with_maps create_failed_maps)
next
  case False
  then obtain c q s1 where
    r: "(if q = 0 then db_with (wl_resource_post_no_memory env r s1) (st\<lparr>db_server := s1\<rparr>) \<bind> create_failed env r i at
      else if i = 0
        then db_with (wl_resource_post_event env r PARAMS_CREATED [Obj q] (db_server (register_buffer x b q at (st\<lparr>db_server := s1\<rparr>))))
               (register_buffer x b q at (st\<lparr>db_server := s1\<rparr>))
      else Some (register_buffer x b q at (st\<lparr>db_server := s1\<rparr>))) = Some st'"
    using run unfolding create_buffer_def Let_def by (auto simp: bind_eq_Some_conv)
  show ?thesis
  proof (cases "q = 0")
    case True
    then show ?thesis using r ok by (auto simp: bind_eq_Some_conv dmabuf_ok_def dest!: db_with_maps create_failed_maps)
  next
    case False
    then have "db_params st' = db_params st \<and> db_buffer st' = (db_buffer st)(b := Some ((westfield_buffer_init (da_width at) (da_height at))
        \<lparr>wb_resource := q, wb_attr := at\<rparr>))"
      using r by (auto simp: register_buffer_def split: if_splits dest: db_with_maps)
    with ok at show ?thesis by (auto simp: dmabuf_ok_def split: if_splits)
  qed
qed

lemma params_create_ok:
  assumes ok: "dmabuf_ok x st" and h: "height < 2 ^ 31"
    and run: "params_create_common env x b ra r i width height format flags st = Some st'"
  shows "dmabuf_ok x st'"
proof -
  obtain p where p: "params_from_resource env x r st = Some p"
    using run by (auto simp: params_create_common_def bind_eq_Some_conv)
  show ?thesis
  proof (cases "p = 0")
    case True
    with run p have "db_params st' = db_params st \<and> db_buffer st' = db_buffer st"
      by (intro db_error_maps) (simp add: params_create_common_def)
    with dmabuf_ok_maps [OF ok, of st'] show ?thesis by simp
  next
    case False
    then obtain pa where pa: "db_params st p = Some pa" using run p by (auto simp: params_create_common_def bind_eq_Some_conv)
    let ?at = "pa_attr pa"
    let ?st = "st\<lparr>db_server := wl_resource_set_user_data r 0 (db_server st), db_params := (db_params st)(p := None)\<rparr>"
    have run1: "(case create_verdict x width height flags ?at of
          Rejected code msg \<Rightarrow> map_option (finish_planes ?at) (db_error env r code msg ?st)
        | Failed \<Rightarrow> create_failed env r i ?at ?st
        | Fine \<Rightarrow> create_buffer env x b ra r i (?at\<lparr>da_width := width, da_height := height, da_format := format\<rparr>) ?st) = Some st'"
      using run p pa False unfolding params_create_common_def Let_def by simp
    have ok1: "dmabuf_ok x ?st" "attr_ok ?at" using ok pa by (auto simp: dmabuf_ok_def split: if_splits)
    show ?thesis
    proof (cases "create_verdict x width height flags ?at")
      case Fine
      with run1 have "create_buffer env x b ra r i (?at\<lparr>da_width := width, da_height := height, da_format := format\<rparr>) ?st = Some st'"
        by simp
      from register_new_buffer_ok [OF ok1(1) _ this] created_ok [OF ok1(2) Fine h] show ?thesis by simp
    next
      case Failed
      with run1 create_failed_maps [of env r i ?at ?st st'] dmabuf_ok_maps [OF ok1(1), of st'] show ?thesis by simp
    next
      case (Rejected code msg)
      with run1 obtain st1 where "db_error env r code msg ?st = Some st1" "st' = finish_planes ?at st1" by auto
      with db_error_maps [of env r code msg ?st st1] dmabuf_ok_maps [OF ok1(1), of st'] show ?thesis by simp
    qed
  qed
qed

lemma params_add_ok:
  assumes ok: "dmabuf_ok x st" and f: "0 \<le> f" and run: "params_add env x r f k offset stride hi lo st = Some st'"
  shows "dmabuf_ok x st'"
proof -
  obtain p where p: "params_from_resource env x r st = Some p"
    using run by (auto simp: params_add_def bind_eq_Some_conv)
  show ?thesis
  proof (cases "\<exists>st1. db_params st1 = db_params st \<and> db_buffer st1 = db_buffer st \<and> st' = close_request f st1")
    case True
    then show ?thesis using ok by (auto intro: dmabuf_ok_maps)
  next
    case False
    have err: "map_option (close_request f) (db_error env r c m st) \<noteq> Some st'" for c m
      using False by (auto dest: db_error_maps)
    then obtain pa where pa: "db_params st p = Some pa" "p \<noteq> 0" using run p
      unfolding params_add_def by (cases "p = 0") (auto simp: bind_eq_Some_conv)
    from run p pa err have k: "\<not> of_nat WESTFIELD_DMABUF_MAX_PLANES \<le> k"
      unfolding params_add_def Let_def by (auto split: if_splits)
    with run p pa err obtain m where n: "da_fd (pa_attr pa) ! unat k = - 1" and
      st': "st' = st\<lparr>db_params := (db_params st)(p := Some (pa\<lparr>pa_has_modifier := True,
             pa_attr := (pa_attr pa)\<lparr>da_modifier := m, da_fd := (da_fd (pa_attr pa))[unat k := f],
               da_offset := (da_offset (pa_attr pa))[unat k := offset],
               da_stride := (da_stride (pa_attr pa))[unat k := stride], da_n_planes := da_n_planes (pa_attr pa) + 1\<rparr>\<rparr>))\<rparr>"
      unfolding params_add_def Let_def by (auto split: if_splits)
    have "unat k < 4" using k by (simp add: WESTFIELD_DMABUF_MAX_PLANES_def word_le_nat_alt)
    moreover have "attr_ok (pa_attr pa)" using ok pa by (auto simp: dmabuf_ok_def)
    ultimately show ?thesis using add_plane_ok n f ok st' by (auto simp: dmabuf_ok_def split: if_splits)
  qed
qed

lemma create_params_ok:
  assumes "dmabuf_ok x st" "linux_dmabuf_create_params env x p ra client r dm i st = Some st'"
  shows "dmabuf_ok x st'"
  using assms unfolding linux_dmabuf_create_params_def Let_def
  by (auto simp: bind_eq_Some_conv dmabuf_ok_def attr_ok_def split: if_splits dest!: db_with_maps)

lemma buffer_destroy_maps:
  "buffer_destroy b st = Some st' \<Longrightarrow> db_params st' = db_params st \<and> db_buffer st' = (db_buffer st)(b := None)"
  by (auto simp: buffer_destroy_def bind_eq_Some_conv Let_def)

lemma drop_maps:
  assumes "\<And>s. db_params (emit s) = db_params s \<and> db_buffer (emit s) = db_buffer s"
    "westfield_buffer_drop emit b st = Some st'"
  shows "st' = st \<or> db_params st' = db_params st \<and> db_buffer st' = (db_buffer st)(b := None)"
proof (cases "b = 0")
  case True
  with assms(2) show ?thesis by (simp add: westfield_buffer_drop_def)
next
  case False
  with assms(2) obtain buf where
    "buffer_consider_destroy emit b (st\<lparr>db_buffer := (db_buffer st)(b := Some (buf\<lparr>wb_dropped := True\<rparr>))\<rparr>) = Some st'"
    by (auto simp: westfield_buffer_drop_def bind_eq_Some_conv split: if_splits)
  then have "buffer_destroy b (emit (st\<lparr>db_buffer := (db_buffer st)(b := Some (buf\<lparr>wb_dropped := True\<rparr>))\<rparr>)) = Some st'"
    by (simp add: buffer_consider_destroy_def)
  from buffer_destroy_maps [OF this] assms(1) show ?thesis by simp
qed

lemma buffer_gone_ok:
  assumes ok: "dmabuf_ok x st" and e: "\<And>s. db_params (emit s) = db_params s \<and> db_buffer (emit s) = db_buffer s"
    and run: "buffer_handle_resource_destroy emit r st = Some st'"
  shows "dmabuf_ok x st'"
proof -
  obtain b buf where b: "db_buffer st b = Some buf"
    and d: "westfield_buffer_drop emit b (st\<lparr>db_buffer := (db_buffer st)(b := Some (buf\<lparr>wb_resource := 0\<rparr>))\<rparr>) = Some st'"
    using run by (auto simp: buffer_handle_resource_destroy_def bind_eq_Some_conv)
  have "buffer_ok x (buf\<lparr>wb_resource := 0\<rparr>)" using ok b by (auto simp: dmabuf_ok_def buffer_ok_def Let_def)
  then have ok1: "dmabuf_ok x (st\<lparr>db_buffer := (db_buffer st)(b := Some (buf\<lparr>wb_resource := 0\<rparr>))\<rparr>)"
    using ok by (auto simp: dmabuf_ok_def split: if_splits)
  from drop_maps [OF e d] show ?thesis
  proof
    assume "db_params st' = db_params (st\<lparr>db_buffer := (db_buffer st)(b := Some (buf\<lparr>wb_resource := 0\<rparr>))\<rparr>) \<and>
      db_buffer st' = (db_buffer (st\<lparr>db_buffer := (db_buffer st)(b := Some (buf\<lparr>wb_resource := 0\<rparr>))\<rparr>))(b := None)"
    with ok show ?thesis by (auto simp: dmabuf_ok_def split: if_splits)
  qed (use ok1 in simp)
qed

lemma dmabuf_reach_ok: "dmabuf_reach env x st \<Longrightarrow> dmabuf_ok x st"
proof (induction rule: dmabuf_reach.induct)
  case (start s)
  then show ?case by (simp add: dmabuf_ok_def)
next
  case (other st s)
  then show ?case by (simp add: dmabuf_ok_def)
next
  case (create_params st p ra client r dm i st')
  then show ?case using create_params_ok by blast
next
  case (add st f r k offset stride hi lo st')
  then show ?case using params_add_ok by blast
next
  case (create st b height ra r i width format flags st')
  then show ?case using params_create_ok by blast
next
  case (params_gone st r st')
  then show ?case
    by (auto simp: params_handle_resource_destroy_def bind_eq_Some_conv dmabuf_ok_def split: if_splits)
next
  case (release st b st')
  then have "db_params st' = db_params st \<and> db_buffer st' = db_buffer st"
    by (auto simp: buffer_handle_release_def bind_eq_Some_conv split: if_splits dest: db_with_maps)
  with release.IH show ?case by (auto simp: dmabuf_ok_def)
next
  case (buffer_gone st emit r st')
  show ?case by (rule buffer_gone_ok [OF buffer_gone.IH buffer_gone.hyps(2,3)])
qed

text \<open>C7: In every reachable state a DMA-BUF buffer consists of its first one to four planes, each with
  a descriptor, and every plane lies within its descriptor's size where that is known - its first row,
  and for plane 0 all rows - computed without wrapping around, although the code adds and multiplies
  32-bit numbers.\<close>

theorem dmabuf_buffers_in_bounds:
  assumes "dmabuf_reach env x st" "db_buffer st b = Some buf" "i < 4"
  shows "1 \<le> da_n_planes (wb_attr buf) \<and> da_n_planes (wb_attr buf) \<le> 4 \<and> 1 \<le> da_width (wb_attr buf) \<and> 1 \<le> da_height (wb_attr buf) \<and>
    (if i < da_n_planes (wb_attr buf)
     then 0 \<le> da_fd (wb_attr buf) ! i \<and>
       uint (da_offset (wb_attr buf) ! i) + uint (da_stride (wb_attr buf) ! i) * da_height (wb_attr buf) < 2 ^ 32 \<and>
       (x_seek x (da_fd (wb_attr buf) ! i) \<noteq> - 1 \<longrightarrow>
          uint (da_offset (wb_attr buf) ! i) + uint (da_stride (wb_attr buf) ! i) \<le> x_seek x (da_fd (wb_attr buf) ! i) \<and>
          (i = 0 \<longrightarrow> uint (da_offset (wb_attr buf) ! i) + uint (da_stride (wb_attr buf) ! i) * da_height (wb_attr buf)
             \<le> x_seek x (da_fd (wb_attr buf) ! i)))
     else da_fd (wb_attr buf) ! i = - 1)"
proof -
  let ?at = "wb_attr buf"
  have "buffer_ok x buf" using dmabuf_reach_ok [OF assms(1)] assms(2) by (simp add: dmabuf_ok_def)
  then have ok: "attr_ok ?at" "contiguous ?at" "1 \<le> da_width ?at" "1 \<le> da_height ?at"
    "\<forall>i < da_n_planes ?at. plane_in_bounds (x_seek x) (da_height ?at) i (da_offset ?at ! i) (da_stride ?at ! i) (da_fd ?at ! i)"
    by (simp_all add: buffer_ok_def Let_def)
  have n: "da_n_planes ?at \<le> 4" using ok(1) length_filter_le [of "\<lambda>f. f \<noteq> - 1" "da_fd ?at"] by (simp add: attr_ok_def)
  have "- 1 \<le> da_fd ?at ! i" using ok(1) assms(3) by (simp add: attr_ok_def)
  moreover have "da_fd ?at ! i \<noteq> - 1 \<longleftrightarrow> i < da_n_planes ?at" using ok(2) assms(3) by (simp add: contiguous_def)
  ultimately show ?thesis using n ok by (auto simp: contiguous_def plane_in_bounds_def)
qed

text \<open>A client that adds planes 0 and 2 and asks for a buffer gets the error, its parameters are
  freed, and of the two descriptors only that of plane 0 is closed: \<open>dmabuf_attributes_finish\<close> closes
  as many descriptors as there are planes, from the first, so that of plane 2 stays open for good.\<close>

lemma dmabuf_gap_leaks:
  assumes "params_from_resource env x r st = Some p" "p \<noteq> 0" "db_params st p = Some pa"
    and at: "da_fd (pa_attr pa) = [f0, - 1, f2, - 1]" "da_n_planes (pa_attr pa) = 2" "0 \<le> f0" "0 \<le> f2"
    and run: "params_create_common env x b ra r i width height format flags st = Some st'"
  shows "db_params st' = (db_params st)(p := None) \<and> db_buffer st' = db_buffer st \<and>
    (\<exists>s. wl_resource_post_error env r PARAMS_ERROR_INCOMPLETE ''gap in dmabuf planes''
           (wl_resource_set_user_data r 0 (db_server st)) = Some s \<and>
         closed (s_os (db_server st')) = closed (s_os s) @ [of_int f0])"
proof -
  let ?st = "st\<lparr>db_server := wl_resource_set_user_data r 0 (db_server st), db_params := (db_params st)(p := None)\<rparr>"
  have "create_verdict x width height flags (pa_attr pa) = Rejected PARAMS_ERROR_INCOMPLETE ''gap in dmabuf planes''"
    using at by (simp add: create_verdict_def planes_verdict_def)
  then have "map_option (finish_planes (pa_attr pa)) (db_error env r PARAMS_ERROR_INCOMPLETE ''gap in dmabuf planes'' ?st) = Some st'"
    using run assms(1-3) unfolding params_create_common_def Let_def by simp
  then obtain s where s: "wl_resource_post_error env r PARAMS_ERROR_INCOMPLETE ''gap in dmabuf planes''
           (wl_resource_set_user_data r 0 (db_server st)) = Some s" "st' = finish_planes (pa_attr pa) (?st\<lparr>db_server := s\<rparr>)"
    by (auto simp: db_error_def db_with_def)
  then have "closed (s_os (db_server st')) = closed (s_os s) @ [of_int f0]"
    using at by (simp add: finish_planes_def db_os_def dmabuf_attributes_finish_def close_plane_def sys_close_def numeral_2_eq_2)
  with s show ?thesis by simp
qed

text \<open>A successful request \<open>create\<close> of a buffer, the one that announces the new object by an event,
  makes the object id 0, which stands for no object, name the buffer: the code passes the id 0 to
  \<open>wl_resource_create\<close>, which no longer allocates an id for it.\<close>

lemma dmabuf_create_names_null:
  assumes q: "quiet_env env" and res: "s_res (db_server st) r = Some res" "r \<noteq> ra"
    and cl: "s_client (db_server st) (r_client res) = Some cl" and ok: "map_ok (c_objects cl)" "id_usable (c_objects cl) 0"
    and ra: "ra \<noteq> 0" "ptr_aligned ra" and b: "b \<noteq> 0" and mem: "alloc_script (s_os (db_server st)) = []"
    and run: "create_buffer env x b ra r 0 at st = Some st'"
  shows "wl_client_get_object (r_client res) 0 (db_server st') = Some ra \<and> wl_resource_get_id ra (db_server st') = Some 0"
proof -
  obtain m s1 where s1: "wl_resource_create env ra (r_client res) (x_wl_buffer_interface x) 1 0 (db_server st) = Some (ra, s1)"
    "sets_entry (c_objects cl) 0 ra 0 m" "s_client s1 = (s_client (db_server st))(r_client res \<mapsto> cl\<lparr>c_objects := m\<rparr>)"
    "s_res s1 = (s_res (db_server st))(ra \<mapsto> \<lparr>r_object = \<lparr>interface = x_wl_buffer_interface x, implementation = 0, object_id = 0\<rparr>,
        r_client = r_client res, r_data = 0, r_version = 1, r_dispatcher = 0, r_destroy = 0\<rparr>)"
    using create_spec [OF q cl ok(1) ra ok(2) mem] .
  let ?st = "register_buffer x b ra at (st\<lparr>db_server := s1\<rparr>)"
  have "db_with (wl_resource_post_event env r PARAMS_CREATED [Obj ra] (db_server ?st)) ?st = Some st'"
    using run b ra(1) res(1) s1(1) by (simp add: create_buffer_def wl_resource_get_client_def Let_def)
  then have "same_maps (db_server ?st) (db_server st')"
    using handle_array_maps [OF q]
    by (auto simp: db_with_def wl_resource_post_event_def wl_resource_post_event_array_def bind_eq_Some_conv)
  then have m: "map_option c_objects (s_client (db_server st') (r_client res)) = Some m"
    "s_res (db_server st') = s_res (db_server ?st)"
    using s1(3) by (simp_all add: same_maps_def register_buffer_def wl_resource_set_implementation_def upd_res_def)
  have "wl_map_lookup m 0 = ra" using s1(2) by (simp add: sets_entry_def lookup_view)
  moreover have "\<exists>res'. s_res (db_server ?st) ra = Some res' \<and> object_id (r_object res') = 0"
    using s1(4) by (simp add: register_buffer_def wl_resource_set_implementation_def upd_res_def)
  ultimately show ?thesis
    using m by (auto simp: wl_client_get_object_def wl_resource_get_id_def)
qed

section \<open>A client with one plane\<close>

definition dm_client :: wl_client where
  "dm_client = (sample_client 16 32)\<lparr>c_error := True, c_display_resource := 0\<rparr>"

definition dm_server :: "u64 \<Rightarrow> server" where
  "dm_server p = sample_server\<lparr>s_res := (s_res sample_server)(16 \<mapsto> (sample_res 5 1 4096)\<lparr>r_data := p\<rparr>),
     s_client := [4096 \<mapsto> dm_client]\<rparr>"

definition dm_env :: dmabuf_env where
  "dm_env = \<lparr>x_seek = (\<lambda>_. 8192), x_import = (\<lambda>_. True), x_close = (\<lambda>_. True), x_wl_buffer_interface = 6,
     x_params_interface = 5, x_buffer_impl = 70, x_params_impl = 64, x_buffer_destroy = 71, x_params_destroy = 72\<rparr>"

definition one_plane :: "u64 \<Rightarrow> int list \<Rightarrow> nat \<Rightarrow> dmabuf" where
  "one_plane p fds n = \<lparr>db_server = dm_server p, db_params = [500 \<mapsto> \<lparr>pa_resource = 128, pa_dmabuf = 0,
     pa_attr = \<lparr>da_width = 0, da_height = 0, da_format = 0, da_modifier = 0, da_n_planes = n,
       da_offset = [0, 0, 0, 0], da_stride = [64, 0, 0, 0], da_fd = fds\<rparr>, pa_has_modifier = True\<rparr>],
     db_buffer = (\<lambda>_. None)\<rparr>"

lemma dm_server_simps:
  "s_client (dm_server p) 4096 = Some dm_client" "alloc_script (s_os (dm_server p)) = []"
  "s_res (dm_server p) 16 = Some ((sample_res 5 1 4096)\<lparr>r_data := p\<rparr>)" "s_res (dm_server p) 32 = Some (sample_res 2 2 4096)"
  "quiet_env sample_env" "map_ok (c_objects dm_client)"
  by (simp_all add: dm_server_def sample_server_def os_init_def sample_res_def quiet_env_def notify_def sample_env_def
      dm_client_def sample_client_def map_ok_def own_entries_def other_entries_def free_ids_def
      WL_MAP_SERVER_SIDE_def WL_MAP_CLIENT_SIDE_def max_entries_def map_entry_is_free_def less_Suc_eq numeral_3_eq_3)

lemma dm_usable: "id_usable (c_objects dm_client) 0xff000000" "id_usable (c_objects dm_client) 0" "ptr_aligned 128"
  by (simp_all add: dm_client_def sample_client_def id_usable_def id_index_def id_entries_def WL_SERVER_ID_START_def
      max_entries_def free_ids_def own_entries_def other_entries_def WL_MAP_CLIENT_SIDE_def WL_MAP_SERVER_SIDE_def ptr_aligned_def)

lemma dm_params: "db_server st = dm_server p \<Longrightarrow> params_from_resource sample_env dm_env 16 st = Some p"
  by (simp add: params_from_resource_def wl_resource_instance_of_def wl_resource_get_user_data_def dm_server_simps
      wl_interface_equal_def dm_env_def sample_res_def)

lemma dm_create:
  assumes "i = 0 \<or> i = 0xff000000" "s_client s 4096 = Some dm_client" "alloc_script (s_os s) = []"
  shows "\<exists>s1. wl_resource_create sample_env 128 4096 iface v i s = Some (128, s1)"
proof -
  have u: "id_usable (c_objects dm_client) i" using assms(1) dm_usable by auto
  show ?thesis
    by (rule create_spec [OF dm_server_simps(5) assms(2) dm_server_simps(6) _ dm_usable(3) u assms(3), of iface v]) auto
qed

lemma replicate_4: "replicate 4 x = [x, x, x, x]"
  by (simp add: numeral_eq_Suc)

lemma one_plane_reach: "dmabuf_reach sample_env dm_env (one_plane 500 [9, - 1, - 1, - 1] 1)"
proof -
  let ?st = "\<lparr>db_server = dm_server 0, db_params = (\<lambda>_. None), db_buffer = (\<lambda>_. None)\<rparr>"
  obtain s1 where "wl_resource_create sample_env 128 4096 5 1 0xff000000 (dm_server 0) = Some (128, s1)"
    using dm_create [of "0xff000000" "dm_server 0"] dm_server_simps by blast
  then obtain st1 where c: "linux_dmabuf_create_params sample_env dm_env 500 128 4096 32 0 0xff000000 ?st = Some st1"
    "db_params st1 = [500 \<mapsto> \<lparr>pa_resource = 128, pa_dmabuf = 0,
       pa_attr = \<lparr>da_width = 0, da_height = 0, da_format = 0, da_modifier = 0, da_n_planes = 0,
         da_offset = replicate 4 0, da_stride = replicate 4 0, da_fd = replicate 4 (- 1)\<rparr>, pa_has_modifier = False\<rparr>]"
    "db_buffer st1 = (\<lambda>_. None)"
    by (simp add: linux_dmabuf_create_params_def wl_resource_get_version_def dm_server_simps dm_env_def sample_res_def)
  have "dmabuf_reach sample_env dm_env st1"
    by (rule dmabuf_reach.create_params [OF dmabuf_reach.start _ c(1)]) simp
  then have r: "dmabuf_reach sample_env dm_env (st1\<lparr>db_server := dm_server 500\<rparr>)" by (rule dmabuf_reach.other)
  have "params_add sample_env dm_env 16 9 0 0 64 0 0 (st1\<lparr>db_server := dm_server 500\<rparr>) =
      Some (one_plane 500 [9, - 1, - 1, - 1] 1)"
    using c(2,3) by (simp add: params_add_def dm_params WESTFIELD_DMABUF_MAX_PLANES_def one_plane_def replicate_4)
  from dmabuf_reach.add [OF r _ this] show ?thesis by simp
qed

lemma one_plane_fine:
  "create_verdict dm_env 16 16 0 (pa_attr (the (db_params (one_plane 500 [9, - 1, - 1, - 1] 1) 500))) = Fine"
  by (simp add: create_verdict_def one_plane_def planes_verdict_def flags_verdict_def planes_def plane_verdict_def
      dm_env_def check_import_dmabuf_def)

lemma dmabuf_buffers_in_bounds_witness:
  "\<exists>st buf. dmabuf_reach sample_env dm_env st \<and> db_buffer st 600 = Some buf \<and>
     uint (da_stride (wb_attr buf) ! 0) * da_height (wb_attr buf) \<le> 8192"
proof -
  let ?st = "one_plane 500 [9, - 1, - 1, - 1] 1"
  let ?st1 = "?st\<lparr>db_server := wl_resource_set_user_data 16 0 (db_server ?st), db_params := (db_params ?st)(500 := None)\<rparr>"
  have s: "s_client (db_server ?st1) 4096 = Some dm_client" "alloc_script (s_os (db_server ?st1)) = []"
    "s_res (db_server ?st1) 16 = Some (sample_res 5 1 4096)"
    by (simp_all add: one_plane_def wl_resource_set_user_data_def upd_res_def dm_server_simps sample_res_def)
  obtain s1 where "wl_resource_create sample_env 128 4096 6 1 0xff000000 (db_server ?st1) = Some (128, s1)"
    using dm_create [of "0xff000000", OF _ s(1,2)] by blast
  then have c: "create_buffer sample_env dm_env 600 128 16 0xff000000 at ?st1 = Some (register_buffer dm_env 600 128 at (?st1\<lparr>db_server := s1\<rparr>))" for at
    using s by (simp add: create_buffer_def wl_resource_get_client_def sample_res_def dm_env_def)
  obtain st' buf where run: "params_create_common sample_env dm_env 600 128 16 0xff000000 16 16 0 0 ?st = Some st'"
    "db_buffer st' 600 = Some buf"
    using one_plane_fine c dm_params [of ?st 500]
    by (simp add: params_create_common_def one_plane_def register_buffer_def)
  have reach: "dmabuf_reach sample_env dm_env st'"
    by (rule dmabuf_reach.create [OF one_plane_reach _ _ run(1)]) (simp_all add: one_plane_def)
  have "uint (da_offset (wb_attr buf) ! 0) + uint (da_stride (wb_attr buf) ! 0) * da_height (wb_attr buf) \<le> 8192"
    using dmabuf_buffers_in_bounds [OF reach run(2), of 0] by (auto simp: dm_env_def)
  then have "uint (da_stride (wb_attr buf) ! 0) * da_height (wb_attr buf) \<le> 8192"
    using uint_nonnegative [of "da_offset (wb_attr buf) ! 0"] by linarith
  with reach run(2) show ?thesis by blast
qed

lemma dmabuf_gap_leaks_witness:
  "\<exists>st'. params_create_common sample_env dm_env 600 128 16 0xff000000 16 16 0 0 (one_plane 500 [9, - 1, 11, - 1] 2) = Some st' \<and>
     closed (s_os (db_server st')) = [9] \<and> db_params st' 500 = None"
proof -
  let ?st = "one_plane 500 [9, - 1, 11, - 1] 2"
  have p: "params_from_resource sample_env dm_env 16 ?st = Some 500" by (rule dm_params) (simp add: one_plane_def)
  obtain pa where pa: "db_params ?st 500 = Some pa" "da_fd (pa_attr pa) = [9, - 1, 11, - 1]" "da_n_planes (pa_attr pa) = 2"
    by (simp add: one_plane_def)
  have e: "wl_resource_post_error sample_env 16 c m (wl_resource_set_user_data 16 0 (db_server ?st)) =
      Some (wl_resource_set_user_data 16 0 (db_server ?st))" for c m
    by (simp add: wl_resource_post_error_def wl_resource_post_error_vargs_def one_plane_def wl_resource_set_user_data_def
        upd_res_def dm_server_simps sample_res_def dm_client_def)
  have v: "create_verdict dm_env 16 16 0 (pa_attr pa) = Rejected PARAMS_ERROR_INCOMPLETE ''gap in dmabuf planes''"
    using pa(2,3) by (simp add: create_verdict_def planes_verdict_def)
  obtain st' where run: "params_create_common sample_env dm_env 600 128 16 0xff000000 16 16 0 0 ?st = Some st'"
    using p pa(1) v e by (simp add: params_create_common_def db_error_def db_with_def)
  from dmabuf_gap_leaks [OF p _ pa _ _ run] e
  have "db_params st' = (db_params ?st)(500 := None)" "closed (s_os (db_server st')) = closed (s_os (dm_server 500)) @ [9]"
    by (auto simp: one_plane_def wl_resource_set_user_data_def upd_res_def)
  with run show ?thesis by (simp add: dm_server_def sample_server_def os_init_def)
qed

lemma va_one_object: "wl_argument_from_va_list ''o'' WL_CLOSURE_MAX_ARGS [Obj q] = Inr [Obj q]"
  by (simp add: wl_argument_from_va_list_def WL_CLOSURE_MAX_ARGS_def get_next_argument_def is_arg_type_def eval_nat_numeral)

lemma dmabuf_create_names_null_witness:
  "\<exists>st'. create_buffer sample_env dm_env 600 128 16 0 at (one_plane 500 [9, - 1, - 1, - 1] 1) = Some st' \<and>
     wl_client_get_object 4096 0 (db_server st') = Some 128"
proof -
  let ?st = "one_plane 500 [9, - 1, - 1, - 1] 1"
  have s: "s_client (db_server ?st) 4096 = Some dm_client" "alloc_script (s_os (db_server ?st)) = []"
    "s_res (db_server ?st) 16 = Some ((sample_res 5 1 4096)\<lparr>r_data := 500\<rparr>)"
    by (simp_all add: one_plane_def dm_server_simps)
  have r: "r_client ((sample_res 5 1 4096)\<lparr>r_data := 500\<rparr>) = 4096" by (simp add: sample_res_def)
  obtain m s1 where s1: "wl_resource_create sample_env 128 4096 6 1 0 (db_server ?st) = Some (128, s1)"
      "s_client s1 = (s_client (db_server ?st))(4096 \<mapsto> dm_client\<lparr>c_objects := m\<rparr>)"
      "s_res s1 = (s_res (db_server ?st))(128 \<mapsto> \<lparr>r_object = \<lparr>interface = 6, implementation = 0, object_id = 0\<rparr>,
        r_client = 4096, r_data = 0, r_version = 1, r_dispatcher = 0, r_destroy = 0\<rparr>)"
    by (rule create_spec [OF dm_server_simps(5) s(1) dm_server_simps(6) _ dm_usable(3,2) s(2), of 6 1]) auto
  let ?st1 = "register_buffer dm_env 600 128 at (?st\<lparr>db_server := s1\<rparr>)"
  have "wl_resource_post_event sample_env 16 PARAMS_CREATED [Obj 128] (db_server ?st1) = Some (db_server ?st1)"
    using s s1 by (simp add: wl_resource_post_event_def event_args_def register_buffer_def wl_resource_set_implementation_def
        upd_res_def sample_env_def sample_res_def output_iface_def list_at_def PARAMS_CREATED_def
        wl_resource_post_event_array_def handle_array_def dm_client_def va_one_object)
  then obtain st' where run: "create_buffer sample_env dm_env 600 128 16 0 at ?st = Some st'"
    using s s1(1) r by (simp add: create_buffer_def wl_resource_get_client_def db_with_def dm_env_def)
  show ?thesis
    using dmabuf_create_names_null [OF dm_server_simps(5) s(3) _ _ _ _ _ dm_usable(3) _ s(2) run] s(1) r run
      dm_server_simps(6) dm_usable(2) by auto
qed

section \<open>Duplicate addons\<close>

text \<open>
  The assertion of \<open>addon_init\<close> against a second addon of the same type and owner never fails: it
  looks for the owner and type of the addon that were just cleared.
\<close>

lemma addon_init_misses_duplicates:
  assumes "owner \<noteq> 0" "impl \<noteq> 0" "a \<notin> set xs" "\<forall>y \<in> set xs. ad_owner (ad y) \<noteq> 0"
  shows "\<exists>ad'. addon_init a owner impl (ad, xs) = Some (ad', a # xs) \<and> addon_find ad' (a # xs) owner impl = a \<and>
    (\<forall>y \<in> set xs. ad' y = ad y)"
proof -
  have "\<not> addon_present (ad(a := z)) xs 0 0" for z
    using assms(3,4) by (induction xs) auto
  with assms show ?thesis by (auto simp: addon_init_def Let_def)
qed

end
