(* ===== verification/DrmFormat.thy ===== *)
theory DrmFormat
  imports Os "HOL-Library.Monad_Syntax"
begin

text \<open>
  Sets of DRM formats and modifiers, drm_format_set.c.  A format holds the first \<open>len\<close> elements of
  its flexible array, a set holds the formats it owns.  Writing past a capacity and a failed
  assertion are \<open>None\<close>; each allocation asks the script of the operating system.
\<close>

section \<open>State\<close>

record drm_format =
  f_format :: u32
  f_capacity :: nat
  f_modifiers :: "u64 list"

record drm_format_set =
  fs_capacity :: nat
  fs_formats :: "drm_format list"

definition empty_set :: drm_format_set where
  "empty_set = \<lparr>fs_capacity = 0, fs_formats = []\<rparr>"

section \<open>One format\<close>

definition drm_format_create :: "u32 \<Rightarrow> os \<Rightarrow> drm_format option \<times> os" where
  "drm_format_create format w =
     (case sys_malloc w of (mem, w1) \<Rightarrow>
        (if mem then Some \<lparr>f_format = format, f_capacity = 4, f_modifiers = []\<rparr> else None, w1))"

fun has_modifier :: "u64 list \<Rightarrow> u64 \<Rightarrow> bool" where
  "has_modifier [] modifier = False"
| "has_modifier (m # ms) modifier = (if m = modifier then True else has_modifier ms modifier)"

definition drm_format_has :: "drm_format \<Rightarrow> u64 \<Rightarrow> bool" where
  "drm_format_has fmt modifier = has_modifier (f_modifiers fmt) modifier"

definition push_modifier :: "u64 \<Rightarrow> drm_format \<Rightarrow> drm_format option" where
  "push_modifier modifier fmt =
     (if length (f_modifiers fmt) < f_capacity fmt then Some (fmt\<lparr>f_modifiers := f_modifiers fmt @ [modifier]\<rparr>) else None)"

definition drm_format_add :: "drm_format \<Rightarrow> u64 \<Rightarrow> os \<Rightarrow> (bool \<times> drm_format \<times> os) option" where
  "drm_format_add fmt modifier w =
     (if drm_format_has fmt modifier then Some (True, fmt, w)
      else if length (f_modifiers fmt) = f_capacity fmt then
        let capacity = (if f_capacity fmt \<noteq> 0 then f_capacity fmt * 2 else 4) in
        (case sys_malloc w of (mem, w1) \<Rightarrow>
           if \<not> mem then Some (False, fmt, w1)
           else map_option (\<lambda>fmt. (True, fmt, w1)) (push_modifier modifier (fmt\<lparr>f_capacity := capacity\<rparr>)))
      else map_option (\<lambda>fmt. (True, fmt, w)) (push_modifier modifier fmt))"

definition drm_format_dup :: "drm_format \<Rightarrow> os \<Rightarrow> (drm_format option \<times> os) option" where
  "drm_format_dup format w =
     (if \<not> length (f_modifiers format) \<le> f_capacity format then None
      else case sys_malloc w of (mem, w1) \<Rightarrow> Some (if mem then Some format else None, w1))"

fun intersect_loop :: "u64 list \<Rightarrow> u64 list \<Rightarrow> drm_format \<Rightarrow> drm_format option" where
  "intersect_loop [] bs fmt = Some fmt"
| "intersect_loop (a # as) bs fmt =
     (if has_modifier bs a then push_modifier a fmt \<bind> intersect_loop as bs else intersect_loop as bs fmt)"

definition drm_format_intersect :: "drm_format \<Rightarrow> drm_format \<Rightarrow> os \<Rightarrow> (drm_format option \<times> os) option" where
  "drm_format_intersect a b w =
     (if f_format a \<noteq> f_format b then None
      else case sys_malloc w of (mem, w1) \<Rightarrow>
        if \<not> mem then Some (None, w1)
        else do {
          fmt \<leftarrow> intersect_loop (f_modifiers a) (f_modifiers b)
                  \<lparr>f_format = f_format a,
                   f_capacity = (if length (f_modifiers a) < length (f_modifiers b) then length (f_modifiers a)
                                 else length (f_modifiers b)),
                   f_modifiers = []\<rparr>;
          Some (if f_modifiers fmt = [] then None else Some fmt, w1) })"

section \<open>Sets\<close>

definition drm_format_set_finish :: "drm_format_set \<Rightarrow> drm_format_set" where
  "drm_format_set_finish st = \<lparr>fs_capacity = 0, fs_formats = []\<rparr>"

fun get_ref :: "drm_format list \<Rightarrow> u32 \<Rightarrow> nat option" where
  "get_ref [] format = None"
| "get_ref (f # fs) format = (if f_format f = format then Some 0 else map_option Suc (get_ref fs format))"

definition format_set_get_ref :: "drm_format_set \<Rightarrow> u32 \<Rightarrow> nat option" where
  "format_set_get_ref st format = get_ref (fs_formats st) format"

definition drm_format_set_get :: "drm_format_set \<Rightarrow> u32 \<Rightarrow> drm_format option" where
  "drm_format_set_get st format = map_option ((!) (fs_formats st)) (format_set_get_ref st format)"

definition drm_format_set_has :: "drm_format_set \<Rightarrow> u32 \<Rightarrow> u64 \<Rightarrow> bool" where
  "drm_format_set_has st format modifier =
     (case drm_format_set_get st format of None \<Rightarrow> False | Some fmt \<Rightarrow> drm_format_has fmt modifier)"

definition push_format :: "drm_format \<Rightarrow> drm_format_set \<Rightarrow> drm_format_set option" where
  "push_format fmt st =
     (if length (fs_formats st) < fs_capacity st then Some (st\<lparr>fs_formats := fs_formats st @ [fmt]\<rparr>) else None)"

definition drm_format_set_add :: "drm_format_set \<Rightarrow> u32 \<Rightarrow> u64 \<Rightarrow> os \<Rightarrow> (bool \<times> drm_format_set \<times> os) option" where
  "drm_format_set_add st format modifier w =
     (case format_set_get_ref st format of
        Some k \<Rightarrow> do {
          (ok, fmt, w1) \<leftarrow> drm_format_add (fs_formats st ! k) modifier w;
          Some (ok, st\<lparr>fs_formats := (fs_formats st)[k := fmt]\<rparr>, w1) }
      | None \<Rightarrow>
          (case drm_format_create format w of
             (None, w1) \<Rightarrow> Some (False, st, w1)
           | (Some fmt, w1) \<Rightarrow> do {
               (ok, fmt, w2) \<leftarrow> drm_format_add fmt modifier w1;
               if \<not> ok then Some (False, st, w2)
               else if length (fs_formats st) = fs_capacity st then
                 let new = (if fs_capacity st \<noteq> 0 then fs_capacity st * 2 else 4) in
                 (case sys_malloc w2 of (mem, w3) \<Rightarrow>
                    if \<not> mem then Some (False, st, w3)
                    else map_option (\<lambda>st. (True, st, w3)) (push_format fmt (st\<lparr>fs_capacity := new\<rparr>)))
               else map_option (\<lambda>st. (True, st, w2)) (push_format fmt st) }))"

fun copy_loop :: "drm_format list \<Rightarrow> drm_format_set \<Rightarrow> os \<Rightarrow> (bool \<times> drm_format_set \<times> os) option" where
  "copy_loop [] out w = Some (True, out, w)"
| "copy_loop (f # fs) out w = do {
     (d, w1) \<leftarrow> drm_format_dup f w;
     (case d of
        None \<Rightarrow> Some (False, drm_format_set_finish out, w1)
      | Some f' \<Rightarrow> push_format f' out \<bind> (\<lambda>out. copy_loop fs out w1)) }"

text \<open>The result holds the new value of \<open>dst\<close>.\<close>

definition drm_format_set_copy :: "drm_format_set \<Rightarrow> drm_format_set \<Rightarrow> os \<Rightarrow> (bool \<times> drm_format_set \<times> os) option" where
  "drm_format_set_copy dst src w =
     (case sys_malloc w of (mem, w1) \<Rightarrow>
        if \<not> mem then Some (False, dst, w1)
        else do {
          (ok, out, w2) \<leftarrow> copy_loop (fs_formats src) \<lparr>fs_capacity = length (fs_formats src), fs_formats = []\<rparr> w1;
          Some (ok, if ok then out else dst, w2) })"

text \<open>The inner loop stops at the first format of \<open>b\<close> that is equal.\<close>

fun set_intersect_loop :: "drm_format list \<Rightarrow> drm_format list \<Rightarrow> drm_format_set \<Rightarrow> os \<Rightarrow> (drm_format_set \<times> os) option" where
  "set_intersect_loop [] bs out w = Some (out, w)"
| "set_intersect_loop (a # as) bs out w =
     (case get_ref bs (f_format a) of
        None \<Rightarrow> set_intersect_loop as bs out w
      | Some k \<Rightarrow> do {
          (fmt, w1) \<leftarrow> drm_format_intersect a (bs ! k) w;
          (case fmt of
             None \<Rightarrow> set_intersect_loop as bs out w1
           | Some f \<Rightarrow> push_format f out \<bind> (\<lambda>out. set_intersect_loop as bs out w1)) })"

definition drm_format_set_intersect ::
  "drm_format_set \<Rightarrow> drm_format_set \<Rightarrow> drm_format_set \<Rightarrow> os \<Rightarrow> (bool \<times> drm_format_set \<times> os) option" where
  "drm_format_set_intersect dst a b w =
     (case sys_malloc w of (mem, w1) \<Rightarrow>
        if \<not> mem then Some (False, dst, w1)
        else do {
          (out, w2) \<leftarrow> set_intersect_loop (fs_formats a) (fs_formats b)
            \<lparr>fs_capacity = (if length (fs_formats a) < length (fs_formats b) then length (fs_formats a)
                             else length (fs_formats b)), fs_formats = []\<rparr> w1;
          Some (if fs_formats out = [] then (False, dst, w2) else (True, out, w2)) })"

section \<open>Invariant\<close>

lemma has_modifier_iff [simp]: "has_modifier ms m \<longleftrightarrow> m \<in> set ms"
  by (induction ms) auto

definition format_ok :: "drm_format \<Rightarrow> bool" where
  "format_ok f \<longleftrightarrow> distinct (f_modifiers f) \<and> length (f_modifiers f) \<le> f_capacity f"

definition set_ok :: "drm_format_set \<Rightarrow> bool" where
  "set_ok st \<longleftrightarrow> distinct (map f_format (fs_formats st)) \<and> length (fs_formats st) \<le> fs_capacity st \<and>
     (\<forall>f \<in> set (fs_formats st). format_ok f)"

text \<open>The pairs a list of formats stands for.\<close>

definition pairs_of :: "drm_format list \<Rightarrow> (u32 \<times> u64) set" where
  "pairs_of fs = {(x, m). \<exists>f \<in> set fs. f_format f = x \<and> m \<in> set (f_modifiers f)}"

lemma pairs_of_simps [simp]:
  "pairs_of [] = {}" "pairs_of (f # fs) = Pair (f_format f) ` set (f_modifiers f) \<union> pairs_of fs"
  "pairs_of (xs @ ys) = pairs_of xs \<union> pairs_of ys"
  by (auto simp: pairs_of_def)

lemma get_ref_Some: "get_ref fs x = Some k \<Longrightarrow> k < length fs \<and> f_format (fs ! k) = x"
  by (induction fs arbitrary: k) (auto split: if_splits)

lemma get_ref_None: "get_ref fs x = None \<longleftrightarrow> x \<notin> f_format ` set fs"
  by (induction fs) auto

lemma get_ref_unique:
  "distinct (map f_format fs) \<Longrightarrow> get_ref fs x = Some k \<Longrightarrow> f \<in> set fs \<Longrightarrow> f_format f = x \<Longrightarrow> f = fs ! k"
  using get_ref_Some [of fs x k] by (metis in_set_conv_nth length_map nth_eq_iff_index_eq nth_map)

lemma set_has_pairs:
  "set_ok st \<Longrightarrow> drm_format_set_has st x m \<longleftrightarrow> (x, m) \<in> pairs_of (fs_formats st)"
proof (cases "get_ref (fs_formats st) x")
  case None
  then have "(x, m) \<notin> pairs_of (fs_formats st)" unfolding get_ref_None by (auto simp: pairs_of_def)
  then show ?thesis using None by (simp add: drm_format_set_has_def drm_format_set_get_def format_set_get_ref_def)
next
  case (Some k)
  assume ok: "set_ok st"
  have "(x, m) \<in> pairs_of (fs_formats st) \<longleftrightarrow> m \<in> set (f_modifiers (fs_formats st ! k))"
    using get_ref_unique [OF _ Some] get_ref_Some [OF Some] ok unfolding set_ok_def pairs_of_def
    by (auto intro: nth_mem)
  then show ?thesis
    using Some by (simp add: drm_format_set_has_def drm_format_set_get_def format_set_get_ref_def drm_format_has_def)
qed

section \<open>Adding\<close>

lemma format_add_spec:
  assumes ok: "format_ok f"
  shows "\<exists>r f' w'. drm_format_add f m w = Some (r, f', w') \<and> format_ok f' \<and> f_format f' = f_format f \<and>
    (if r then set (f_modifiers f') = insert m (set (f_modifiers f)) else f' = f) \<and>
    (alloc_script w = [] \<longrightarrow> r \<and> w' = w)"
proof (cases "m \<in> set (f_modifiers f)")
  case True
  then show ?thesis using ok by (auto simp: drm_format_add_def drm_format_has_def)
next
  case False
  obtain mem w1 where mw: "sys_malloc w = (mem, w1)" by fastforce
  have al: "alloc_script w = [] \<Longrightarrow> mem \<and> w1 = w" using mw by (simp add: sys_malloc_def)
  show ?thesis
    using False ok mw al by (auto simp: drm_format_add_def drm_format_has_def push_modifier_def format_ok_def)
qed

lemma pairs_of_update:
  assumes "k < length fs" "f_format f = f_format (fs ! k)" "set (f_modifiers f) = insert m (set (f_modifiers (fs ! k)))"
  shows "pairs_of (fs[k := f]) = insert (f_format f, m) (pairs_of fs)"
proof -
  have fs: "fs = take k fs @ fs ! k # drop (Suc k) fs" using assms(1) by (rule id_take_nth_drop)
  have "fs[k := f] = take k fs @ f # drop (Suc k) fs" using assms(1) by (rule upd_conv_take_nth_drop)
  then have "pairs_of (fs[k := f]) = pairs_of (take k fs) \<union> (Pair (f_format f) ` set (f_modifiers f) \<union> pairs_of (drop (Suc k) fs))"
    by simp
  moreover have "pairs_of fs = pairs_of (take k fs) \<union> (Pair (f_format (fs ! k)) ` set (f_modifiers (fs ! k)) \<union> pairs_of (drop (Suc k) fs))"
    using arg_cong [OF fs, of pairs_of] by simp
  ultimately show ?thesis using assms(2,3) by auto
qed

lemma set_add_spec:
  assumes ok: "set_ok st"
  shows "\<exists>r st' w'. drm_format_set_add st x m w = Some (r, st', w') \<and> set_ok st' \<and>
    pairs_of (fs_formats st') = (if r then insert (x, m) (pairs_of (fs_formats st)) else pairs_of (fs_formats st)) \<and>
    (alloc_script w = [] \<longrightarrow> r \<and> w' = w)"
proof (cases "get_ref (fs_formats st) x")
  case (Some k)
  note k = get_ref_Some [OF Some]
  let ?f = "fs_formats st ! k"
  have fo: "format_ok ?f" using ok k by (simp add: set_ok_def)
  obtain r f' w' where a: "drm_format_add ?f m w = Some (r, f', w')" "format_ok f'" "f_format f' = f_format ?f"
    "if r then set (f_modifiers f') = insert m (set (f_modifiers ?f)) else f' = ?f"
    "alloc_script w = [] \<longrightarrow> r \<and> w' = w"
    using format_add_spec [OF fo] by metis
  let ?st' = "st\<lparr>fs_formats := (fs_formats st)[k := f']\<rparr>"
  have "map f_format ((fs_formats st)[k := f']) = map f_format (fs_formats st)"
    using k a(3) by (simp add: map_update) (metis list_update_id nth_map)
  then have "set_ok ?st'"
    using ok a(2) by (auto simp: set_ok_def dest: set_update_subset_insert [THEN subsetD])
  moreover have "pairs_of (fs_formats ?st') = (if r then insert (x, m) (pairs_of (fs_formats st)) else pairs_of (fs_formats st))"
    using pairs_of_update [of k "fs_formats st" f' m] a(3,4) k by (cases r) auto
  moreover have "drm_format_set_add st x m w = Some (r, ?st', w')"
    using Some a(1) by (simp add: drm_format_set_add_def format_set_get_ref_def)
  ultimately show ?thesis using a(5) by blast
next
  case None
  obtain mem w1 where mw: "sys_malloc w = (mem, w1)" by fastforce
  have new: "x \<notin> f_format ` set (fs_formats st)" using None by (simp add: get_ref_None)
  let ?init = "\<lparr>f_format = x, f_capacity = 4, f_modifiers = []\<rparr>"
  let ?f = "\<lparr>f_format = x, f_capacity = 4, f_modifiers = [m]\<rparr>"
  have add: "drm_format_add ?init m w1 = Some (True, ?f, w1)"
    by (simp add: drm_format_add_def drm_format_has_def push_modifier_def)
  have fok: "format_ok ?f" by (simp add: format_ok_def)
  obtain mem2 w2 where mw2: "sys_malloc w1 = (mem2, w2)" by fastforce
  have al: "alloc_script w = [] \<Longrightarrow> mem \<and> w1 = w \<and> mem2 \<and> w2 = w"
    using mw mw2 by (auto simp: sys_malloc_def)
  have run: "drm_format_set_add st x m w =
    (if \<not> mem then Some (False, st, w1)
     else if length (fs_formats st) = fs_capacity st then
       (if \<not> mem2 then Some (False, st, w2)
        else Some (True, \<lparr>fs_capacity = (if fs_capacity st \<noteq> 0 then fs_capacity st * 2 else 4), fs_formats = fs_formats st @ [?f]\<rparr>, w2))
     else Some (True, st\<lparr>fs_formats := fs_formats st @ [?f]\<rparr>, w1))"
    using None mw mw2 add ok
    by (auto simp: drm_format_set_add_def format_set_get_ref_def drm_format_create_def push_format_def set_ok_def)
  have ok1: "set_ok \<lparr>fs_capacity = c, fs_formats = fs_formats st @ [?f]\<rparr>" if "length (fs_formats st) < c" for c
    using that ok new fok by (auto simp: set_ok_def)
  have eq: "st\<lparr>fs_formats := fs\<rparr> = \<lparr>fs_capacity = fs_capacity st, fs_formats = fs\<rparr>" for fs by (cases st) simp
  show ?thesis
  proof (cases "mem \<and> (length (fs_formats st) = fs_capacity st \<longrightarrow> mem2)")
    case False
    then show ?thesis using run ok al by (auto split: if_splits)
  next
    case True
    let ?c = "if length (fs_formats st) = fs_capacity st then (if fs_capacity st \<noteq> 0 then fs_capacity st * 2 else 4) else fs_capacity st"
    let ?st' = "\<lparr>fs_capacity = ?c, fs_formats = fs_formats st @ [?f]\<rparr>"
    have "length (fs_formats st) < ?c" using ok by (auto simp: set_ok_def)
    then have "set_ok ?st'" by (rule ok1)
    moreover have "pairs_of (fs_formats ?st') = insert (x, m) (pairs_of (fs_formats st))" by auto
    moreover have "drm_format_set_add st x m w = Some (True, ?st', if length (fs_formats st) = fs_capacity st then w2 else w1)"
      using run True eq by auto
    ultimately show ?thesis using al by (intro exI [of _ True] exI [of _ ?st']) auto
  qed
qed

text \<open>
  A collection that elements are added to, when memory is available: the contract that the users
  of formats and of sets rely on.
\<close>

locale collection =
  fixes add :: "'s \<Rightarrow> 'a \<Rightarrow> os \<Rightarrow> (bool \<times> 's \<times> os) option" and elems :: "'s \<Rightarrow> 'a set" and ok :: "'s \<Rightarrow> bool"
  assumes add_total: "ok s \<Longrightarrow> \<exists>r s' w'. add s x w = Some (r, s', w') \<and> ok s' \<and>
    elems s' = (if r then insert x (elems s) else elems s) \<and> (alloc_script w = [] \<longrightarrow> r \<and> w' = w)"
begin

text \<open>Adding several elements, stopping at the first failure.\<close>

fun add_list :: "'a list \<Rightarrow> 's \<Rightarrow> os \<Rightarrow> (bool \<times> 's \<times> os) option" where
  "add_list [] s w = Some (True, s, w)"
| "add_list (x # xs) s w = do {
     (r, s1, w1) \<leftarrow> add s x w;
     if r then add_list xs s1 w1 else Some (False, s1, w1) }"

lemma add_list_elems:
  "ok s \<Longrightarrow> \<exists>r s' w'. add_list xs s w = Some (r, s', w') \<and> ok s' \<and> elems s \<subseteq> elems s' \<and>
     elems s' \<subseteq> elems s \<union> set xs \<and> (r \<longrightarrow> elems s' = elems s \<union> set xs) \<and> (alloc_script w = [] \<longrightarrow> r \<and> w' = w)"
proof (induction xs arbitrary: s w)
  case (Cons x xs)
  obtain r s1 w1 where a: "add s x w = Some (r, s1, w1)" "ok s1"
    "elems s1 = (if r then insert x (elems s) else elems s)" "alloc_script w = [] \<longrightarrow> r \<and> w1 = w"
    using add_total [OF Cons.prems] by metis
  show ?case
  proof (cases r)
    case False
    then show ?thesis using a by auto
  next
    case True
    obtain r2 s2 w2 where b: "add_list xs s1 w1 = Some (r2, s2, w2)" "ok s2" "elems s1 \<subseteq> elems s2"
      "elems s2 \<subseteq> elems s1 \<union> set xs" "r2 \<longrightarrow> elems s2 = elems s1 \<union> set xs" "alloc_script w1 = [] \<longrightarrow> r2 \<and> w2 = w1"
      using Cons.IH [OF a(2)] by metis
    then show ?thesis using a True by auto
  qed
qed (simp add: ex_bool_eq)

end

definition set_pairs :: "drm_format_set \<Rightarrow> (u32 \<times> u64) set" where
  "set_pairs st = pairs_of (fs_formats st)"

definition add_pair :: "drm_format_set \<Rightarrow> u32 \<times> u64 \<Rightarrow> os \<Rightarrow> (bool \<times> drm_format_set \<times> os) option" where
  "add_pair st xm w = drm_format_set_add st (fst xm) (snd xm) w"

interpretation pair_set: collection add_pair set_pairs set_ok
proof unfold_locales
  fix s x w assume "set_ok s"
  from set_add_spec [OF this, of "fst x" "snd x" w]
  show "\<exists>r s' w'. add_pair s x w = Some (r, s', w') \<and> set_ok s' \<and>
      set_pairs s' = (if r then insert x (set_pairs s) else set_pairs s) \<and> (alloc_script w = [] \<longrightarrow> r \<and> w' = w)"
    unfolding add_pair_def set_pairs_def prod.collapse .
qed

interpretation modifier_set: collection drm_format_add "\<lambda>f. set (f_modifiers f)" format_ok
  by unfold_locales (use format_add_spec in metis)

text \<open>The pairs added one after the other.\<close>

fun add_pairs :: "(u32 \<times> u64) list \<Rightarrow> drm_format_set \<Rightarrow> os \<Rightarrow> (bool \<times> drm_format_set \<times> os) option" where
  "add_pairs [] st w = Some (True, st, w)"
| "add_pairs ((x, m) # ps) st w = do {
     (r, st1, w1) \<leftarrow> drm_format_set_add st x m w;
     if r then add_pairs ps st1 w1 else Some (False, st1, w1) }"

lemma add_pairs_list: "add_pairs ps st w = pair_set.add_list ps st w"
proof (induction ps arbitrary: st w)
  case (Cons p ps)
  obtain x m where p: "p = (x, m)" by fastforce
  have e: "drm_format_set_add st x m w = add_pair st (x, m) w" by (simp add: add_pair_def)
  show ?case unfolding p add_pairs.simps pair_set.add_list.simps e
    by (cases "add_pair st (x, m) w") (auto simp: Cons)
qed simp

section \<open>Intersecting\<close>

lemma length_le_inter:
  assumes "distinct xs" "set xs \<subseteq> A" "card A \<le> n" "finite A"
  shows "length xs \<le> n"
  using assms by (metis card_mono distinct_card le_trans)

lemma intersect_loop_spec:
  assumes "distinct (f_modifiers fmt @ as)" "card (set (f_modifiers fmt) \<union> (set as \<inter> set bs)) \<le> f_capacity fmt"
  shows "intersect_loop as bs fmt = Some (fmt\<lparr>f_modifiers := f_modifiers fmt @ filter (\<lambda>m. m \<in> set bs) as\<rparr>)"
  using assms
proof (induction as arbitrary: fmt)
  case (Cons a as)
  show ?case
  proof (cases "a \<in> set bs")
    case True
    have "Suc (length (f_modifiers fmt)) = card (insert a (set (f_modifiers fmt)))"
      using Cons.prems(1) by (simp add: distinct_card)
    also have "\<dots> \<le> f_capacity fmt"
      by (rule le_trans [OF card_mono Cons.prems(2)]) (use True in auto)
    finally have push: "push_modifier a fmt = Some (fmt\<lparr>f_modifiers := f_modifiers fmt @ [a]\<rparr>)"
      by (simp add: push_modifier_def)
    have "set (f_modifiers fmt @ [a]) \<union> (set as \<inter> set bs) = set (f_modifiers fmt) \<union> (set (a # as) \<inter> set bs)"
      using True by auto
    then show ?thesis using Cons.IH [of "fmt\<lparr>f_modifiers := f_modifiers fmt @ [a]\<rparr>"] Cons.prems push True
      by simp
  next
    case False
    then show ?thesis using Cons by simp
  qed
qed simp

lemma card_inter_min: "finite A \<Longrightarrow> finite B \<Longrightarrow> card (A \<inter> B) \<le> (if card A < card B then card A else card B)"
  by (simp add: card_mono)

lemma format_intersect_spec:
  assumes "format_ok a" "format_ok b" "f_format a = f_format b"
  shows "\<exists>r w'. drm_format_intersect a b w = Some (r, w') \<and> (alloc_script w = [] \<longrightarrow> w' = w) \<and>
    (case r of
       Some f \<Rightarrow> format_ok f \<and> f_format f = f_format a \<and> set (f_modifiers f) = set (f_modifiers a) \<inter> set (f_modifiers b) \<and>
         f_modifiers f \<noteq> []
     | None \<Rightarrow> alloc_script w = [] \<longrightarrow> set (f_modifiers a) \<inter> set (f_modifiers b) = {})"
proof -
  obtain mem w1 where mw: "sys_malloc w = (mem, w1)" by fastforce
  have al: "alloc_script w = [] \<Longrightarrow> mem \<and> w1 = w" using mw by (simp add: sys_malloc_def)
  have da: "distinct (f_modifiers a)" "distinct (f_modifiers b)" using assms by (simp_all add: format_ok_def)
  let ?n = "if length (f_modifiers a) < length (f_modifiers b) then length (f_modifiers a) else length (f_modifiers b)"
  let ?init = "\<lparr>f_format = f_format a, f_capacity = ?n, f_modifiers = []\<rparr>"
  let ?f = "?init\<lparr>f_modifiers := filter (\<lambda>m. m \<in> set (f_modifiers b)) (f_modifiers a)\<rparr>"
  have c: "card (set (f_modifiers a) \<inter> set (f_modifiers b)) \<le> ?n"
    using card_inter_min [of "set (f_modifiers a)" "set (f_modifiers b)"] da by (simp add: distinct_card split: if_splits)
  have loop: "intersect_loop (f_modifiers a) (f_modifiers b) ?init = Some ?f"
    using intersect_loop_spec [of ?init "f_modifiers a" "f_modifiers b"] da c by simp
  have len: "length (f_modifiers ?f) \<le> ?n"
    by (rule length_le_inter [of _ "set (f_modifiers a) \<inter> set (f_modifiers b)"]) (use da c in auto)
  have fo: "format_ok ?f" using da len by (simp add: format_ok_def)
  show ?thesis
  proof (cases mem)
    case False
    then show ?thesis using assms(3) mw al by (auto simp: drm_format_intersect_def)
  next
    case True
    then have "drm_format_intersect a b w = Some (if f_modifiers ?f = [] then None else Some ?f, w1)"
      using assms(3) mw loop by (simp add: drm_format_intersect_def)
    moreover have "f_modifiers ?f = [] \<longleftrightarrow> set (f_modifiers a) \<inter> set (f_modifiers b) = {}"
      by (auto simp: filter_empty_conv)
    ultimately show ?thesis using fo al by (cases "f_modifiers ?f = []") auto
  qed
qed

lemma pairs_inter:
  assumes "distinct (map f_format bs)"
  shows "Pair x ` M \<inter> pairs_of bs = (case get_ref bs x of None \<Rightarrow> {} | Some k \<Rightarrow> Pair x ` (M \<inter> set (f_modifiers (bs ! k))))"
proof (cases "get_ref bs x")
  case None
  then have "x \<notin> f_format ` set bs" by (simp add: get_ref_None)
  then have "Pair x ` M \<inter> pairs_of bs = {}" by (auto simp: pairs_of_def)
  then show ?thesis using None by simp
next
  case (Some k)
  note k = get_ref_Some [OF Some]
  have "(x, m) \<in> pairs_of bs \<longleftrightarrow> m \<in> set (f_modifiers (bs ! k))" for m
    using get_ref_unique [OF assms Some] k unfolding pairs_of_def by (auto intro: nth_mem)
  then show ?thesis using Some by auto
qed

definition keys :: "drm_format list \<Rightarrow> u32 set" where
  "keys fs = f_format ` set fs"

lemma keys_simps [simp]: "keys [] = {}" "keys (f # fs) = insert (f_format f) (keys fs)" "keys (xs @ ys) = keys xs \<union> keys ys"
  "finite (keys fs)"
  by (auto simp: keys_def)

lemma length_keys: "distinct (map f_format fs) \<Longrightarrow> length fs = card (keys fs)"
  by (metis distinct_card keys_def length_map set_map)

lemma set_intersect_loop_spec:
  assumes bs: "distinct (map f_format bs)" "\<forall>f \<in> set bs. format_ok f"
  shows "distinct (map f_format as) \<Longrightarrow> \<forall>f \<in> set as. format_ok f \<Longrightarrow> set_ok out \<Longrightarrow>
    keys (fs_formats out) \<inter> keys as = {} \<Longrightarrow> card (keys (fs_formats out) \<union> (keys as \<inter> keys bs)) \<le> fs_capacity out \<Longrightarrow>
    \<exists>out' w'. set_intersect_loop as bs out w = Some (out', w') \<and> set_ok out' \<and>
      pairs_of (fs_formats out') \<subseteq> pairs_of (fs_formats out) \<union> (pairs_of as \<inter> pairs_of bs) \<and>
      (\<forall>f \<in> set (fs_formats out'). f \<in> set (fs_formats out) \<or> f_modifiers f \<noteq> []) \<and>
      (alloc_script w = [] \<longrightarrow> w' = w \<and> pairs_of (fs_formats out') = pairs_of (fs_formats out) \<union> (pairs_of as \<inter> pairs_of bs))"
proof (induction as arbitrary: out w)
  case Nil
  then show ?case by simp
next
  case (Cons a as)
  have as: "distinct (map f_format as)" "\<forall>f \<in> set as. format_ok f" using Cons.prems by auto
  have skip: "keys (fs_formats out) \<inter> keys as = {}" "card (keys (fs_formats out) \<union> (keys as \<inter> keys bs)) \<le> fs_capacity out"
    using Cons.prems(4,5) by (auto elim!: order_trans [rotated] intro!: card_mono)
  note inter = pairs_inter [OF bs(1), of "f_format a" "set (f_modifiers a)"]
  show ?case
  proof (cases "get_ref bs (f_format a)")
    case None
    then show ?thesis using Cons.IH [OF as Cons.prems(3) skip, of w] inter by (auto simp: Int_Un_distrib2)
  next
    case (Some k)
    note k = get_ref_Some [OF Some]
    have bk: "format_ok (bs ! k)" "f_format a = f_format (bs ! k)" using bs(2) k by auto
    obtain r w1 where r: "drm_format_intersect a (bs ! k) w = Some (r, w1)" "alloc_script w = [] \<longrightarrow> w1 = w"
      "case r of Some f \<Rightarrow> format_ok f \<and> f_format f = f_format a \<and> set (f_modifiers f) = set (f_modifiers a) \<inter> set (f_modifiers (bs ! k)) \<and>
         f_modifiers f \<noteq> []
       | None \<Rightarrow> alloc_script w = [] \<longrightarrow> set (f_modifiers a) \<inter> set (f_modifiers (bs ! k)) = {}"
      using format_intersect_spec [of a "bs ! k" w] bk Cons.prems(2) by auto
    show ?thesis
    proof (cases r)
      case None
      have "pairs_of (a # as) \<inter> pairs_of bs =
          Pair (f_format a) ` (set (f_modifiers a) \<inter> set (f_modifiers (bs ! k))) \<union> (pairs_of as \<inter> pairs_of bs)"
        using inter Some by (simp add: Int_Un_distrib2)
      then show ?thesis using Cons.IH [OF as Cons.prems(3) skip, of w1] None Some r by auto
    next
      case f: (Some f)
      have fo: "format_ok f" "f_format f = f_format a" "f_modifiers f \<noteq> []"
        "set (f_modifiers f) = set (f_modifiers a) \<inter> set (f_modifiers (bs ! k))" using r(3) f by auto
      have new: "f_format a \<notin> keys (fs_formats out)" "f_format a \<notin> keys as"
        using Cons.prems(1,4) by (auto simp: keys_def)
      have "f_format a \<in> keys bs" using k nth_mem [of k bs] unfolding keys_def by (metis image_eqI)
      note new = new this
      have le: "card (insert (f_format a) (keys (fs_formats out)) \<union> (keys as \<inter> keys bs)) \<le> fs_capacity out"
        using Cons.prems(5) new by (simp add: Int_insert_left)
      have "Suc (length (fs_formats out)) = card (insert (f_format a) (keys (fs_formats out)))"
        using Cons.prems(3) new(1) by (simp add: set_ok_def length_keys)
      also have "\<dots> \<le> fs_capacity out" by (rule le_trans [OF card_mono le]) auto
      finally have len: "length (fs_formats out) < fs_capacity out" by simp
      let ?out = "out\<lparr>fs_formats := fs_formats out @ [f]\<rparr>"
      have "set_ok ?out" using Cons.prems(3) len new(1) fo(1,2) by (auto simp: set_ok_def keys_def)
      moreover have "keys (fs_formats ?out) \<inter> keys as = {}" using skip(1) new(2) fo(2) by simp
      moreover have "card (keys (fs_formats ?out) \<union> (keys as \<inter> keys bs)) \<le> fs_capacity ?out" using le fo(2) by simp
      ultimately obtain out' w' where o: "set_intersect_loop as bs ?out w1 = Some (out', w')" "set_ok out'"
        "pairs_of (fs_formats out') \<subseteq> pairs_of (fs_formats ?out) \<union> (pairs_of as \<inter> pairs_of bs)"
        "\<forall>g \<in> set (fs_formats out'). g \<in> set (fs_formats ?out) \<or> f_modifiers g \<noteq> []"
        "alloc_script w1 = [] \<longrightarrow> w' = w1 \<and> pairs_of (fs_formats out') = pairs_of (fs_formats ?out) \<union> (pairs_of as \<inter> pairs_of bs)"
        using Cons.IH [OF as, of ?out w1] by blast
      have run: "set_intersect_loop (a # as) bs out w = Some (out', w')"
        using Some r(1) f o(1) len by (simp add: push_format_def)
      have p: "pairs_of (fs_formats ?out) \<union> (pairs_of as \<inter> pairs_of bs) = pairs_of (fs_formats out) \<union> (pairs_of (a # as) \<inter> pairs_of bs)"
        using inter Some fo by (simp add: Int_Un_distrib2 Un_assoc)
      show ?thesis
        unfolding run p [symmetric] using o r(2) fo(3) by (intro exI [of _ out'] exI [of _ w']) auto
    qed
  qed
qed

section \<open>Properties\<close>

text \<open>Adding pairs to an empty set one after the other, growing the arrays on the way, gives a
  set that has exactly these pairs; when memory runs out the set has a subset of them and is still
  well formed.  No addition writes past a capacity.\<close>

lemma drm_format_set_of_pairs:
  "\<exists>r st w'. add_pairs ps empty_set w = Some (r, st, w') \<and> set_ok st \<and> (alloc_script w = [] \<longrightarrow> r) \<and>
     (\<forall>x m. if r then drm_format_set_has st x m \<longleftrightarrow> (x, m) \<in> set ps
            else drm_format_set_has st x m \<longrightarrow> (x, m) \<in> set ps)"
proof -
  have e: "set_ok empty_set" "set_pairs empty_set = {}" by (simp_all add: set_ok_def empty_set_def set_pairs_def)
  obtain r st w' where a: "pair_set.add_list ps empty_set w = Some (r, st, w')" "set_ok st"
    "set_pairs st \<subseteq> set ps" "r \<longrightarrow> set_pairs st = set ps" "alloc_script w = [] \<longrightarrow> r"
    using pair_set.add_list_elems [OF e(1), of ps w] e(2) by auto
  have h: "drm_format_set_has st x m \<longleftrightarrow> (x, m) \<in> set_pairs st" for x m
    using set_has_pairs [OF a(2)] by (simp add: set_pairs_def)
  show ?thesis unfolding add_pairs_list a(1) using a(2-5) h by (intro exI [of _ r] exI [of _ st] exI [of _ w']) auto
qed

lemma drm_format_set_of_pairs_witness:
  "\<exists>r st w'. add_pairs [(1, 5), (2, 5), (1, 6)] empty_set os_init = Some (r, st, w') \<and>
     drm_format_set_has st 1 6 \<and> \<not> drm_format_set_has st 2 6"
proof -
  obtain r st w' where "add_pairs [(1, 5), (2, 5), (1, 6)] empty_set os_init = Some (r, st, w')"
    "alloc_script os_init = [] \<longrightarrow> r"
    "\<forall>x m. if r then drm_format_set_has st x m \<longleftrightarrow> (x, m) \<in> set [(1, 5), (2, 5), (1, 6)]
            else drm_format_set_has st x m \<longrightarrow> (x, m) \<in> set [(1, 5), (2, 5), (1, 6)]"
    using drm_format_set_of_pairs [of "[(1, 5), (2, 5), (1, 6)]" os_init] by blast
  then show ?thesis by (auto simp: os_init_def)
qed

text \<open>The intersection of two well-formed sets never writes past its arrays nor fails an
  assertion; every pair of the result is in both sets, and when memory suffices the result has
  exactly the common pairs, or, when there is none, the call fails and leaves the destination
  alone.\<close>

lemma drm_format_set_intersect_exact:
  assumes "set_ok a" "set_ok b"
  shows "\<exists>r st w'. drm_format_set_intersect dst a b w = Some (r, st, w') \<and>
    (\<not> r \<longrightarrow> st = dst) \<and>
    (r \<longrightarrow> set_ok st \<and> (\<forall>x m. drm_format_set_has st x m \<longrightarrow> drm_format_set_has a x m \<and> drm_format_set_has b x m)) \<and>
    (alloc_script w = [] \<longrightarrow>
       (r \<longleftrightarrow> (\<exists>x m. drm_format_set_has a x m \<and> drm_format_set_has b x m)) \<and>
       (r \<longrightarrow> (\<forall>x m. drm_format_set_has st x m \<longleftrightarrow> drm_format_set_has a x m \<and> drm_format_set_has b x m)))"
proof -
  obtain mem w1 where mw: "sys_malloc w = (mem, w1)" by fastforce
  have al: "alloc_script w = [] \<Longrightarrow> mem \<and> w1 = w" using mw by (simp add: sys_malloc_def)
  let ?fa = "fs_formats a" and ?fb = "fs_formats b"
  let ?init = "\<lparr>fs_capacity = (if length ?fa < length ?fb then length ?fa else length ?fb), fs_formats = []\<rparr>"
  have da: "distinct (map f_format ?fa)" "\<forall>f \<in> set ?fa. format_ok f" using assms(1) by (simp_all add: set_ok_def)
  have db: "distinct (map f_format ?fb)" "\<forall>f \<in> set ?fb. format_ok f" using assms(2) by (simp_all add: set_ok_def)
  have c: "card (keys (fs_formats ?init) \<union> (keys ?fa \<inter> keys ?fb)) \<le> fs_capacity ?init"
    by (simp add: length_keys [OF da(1)] length_keys [OF db(1)] card_mono)
  have "set_ok ?init" by (simp add: set_ok_def)
  then obtain out w' where o: "set_intersect_loop ?fa ?fb ?init w1 = Some (out, w')" "set_ok out"
    "pairs_of (fs_formats out) \<subseteq> pairs_of ?fa \<inter> pairs_of ?fb" "\<forall>f \<in> set (fs_formats out). f_modifiers f \<noteq> []"
    "alloc_script w1 = [] \<longrightarrow> pairs_of (fs_formats out) = pairs_of ?fa \<inter> pairs_of ?fb"
    using set_intersect_loop_spec [OF db da, of ?init w1] c by auto
  have has: "drm_format_set_has a x m \<longleftrightarrow> (x, m) \<in> pairs_of ?fa" "drm_format_set_has b x m \<longleftrightarrow> (x, m) \<in> pairs_of ?fb"
    "drm_format_set_has out x m \<longleftrightarrow> (x, m) \<in> pairs_of (fs_formats out)" for x m
    using set_has_pairs assms o(2) by auto
  have ne: "fs_formats out = [] \<longleftrightarrow> pairs_of (fs_formats out) = {}"
    using o(4) by (cases "fs_formats out") auto
  show ?thesis
  proof (cases mem)
    case False
    then show ?thesis using mw al by (auto simp: drm_format_set_intersect_def)
  next
    case True
    have run: "drm_format_set_intersect dst a b w = Some (if fs_formats out = [] then (False, dst, w') else (True, out, w'))"
      using True mw o(1) by (simp add: drm_format_set_intersect_def)
    show ?thesis
    proof (cases "fs_formats out = []")
      case True
      then show ?thesis using run ne o(5) al has by auto
    next
      case False
      then obtain x m where xm: "(x, m) \<in> pairs_of (fs_formats out)" using ne by fastforce
      have sub: "drm_format_set_has out x m \<longrightarrow> drm_format_set_has a x m \<and> drm_format_set_has b x m" for x m
        using has o(3) by blast
      have common: "\<exists>x m. drm_format_set_has a x m \<and> drm_format_set_has b x m"
        using xm has(3) sub by blast
      have eq: "alloc_script w = [] \<Longrightarrow> drm_format_set_has out x m \<longleftrightarrow> drm_format_set_has a x m \<and> drm_format_set_has b x m" for x m
        using o(5) al has by auto
      have run': "drm_format_set_intersect dst a b w = Some (True, out, w')" using run False by simp
      show ?thesis
        by (intro exI [of _ True] exI [of _ out] exI [of _ w']) (use run' o(2) sub common eq in blast)
    qed
  qed
qed

definition sample_set :: "u64 list \<Rightarrow> drm_format_set" where
  "sample_set ms = \<lparr>fs_capacity = 4, fs_formats = [\<lparr>f_format = 1, f_capacity = length ms, f_modifiers = ms\<rparr>]\<rparr>"

lemma drm_format_set_intersect_exact_witness:
  "\<exists>st w'. drm_format_set_intersect empty_set (sample_set [5, 6]) (sample_set [6, 7]) os_init = Some (True, st, w') \<and>
     drm_format_set_has st 1 6 \<and> \<not> drm_format_set_has st 1 5"
proof -
  have ok: "set_ok (sample_set [5, 6])" "set_ok (sample_set [6, 7])"
    by (simp_all add: set_ok_def sample_set_def format_ok_def)
  have has: "drm_format_set_has (sample_set ms) x m \<longleftrightarrow> x = 1 \<and> m \<in> set ms" for ms x m
    by (simp add: drm_format_set_has_def drm_format_set_get_def format_set_get_ref_def drm_format_has_def sample_set_def)
  obtain r st w' where r: "drm_format_set_intersect empty_set (sample_set [5, 6]) (sample_set [6, 7]) os_init = Some (r, st, w')"
    "alloc_script os_init = [] \<longrightarrow>
       (r \<longleftrightarrow> (\<exists>x m. drm_format_set_has (sample_set [5, 6]) x m \<and> drm_format_set_has (sample_set [6, 7]) x m)) \<and>
       (r \<longrightarrow> (\<forall>x m. drm_format_set_has st x m \<longleftrightarrow>
          drm_format_set_has (sample_set [5, 6]) x m \<and> drm_format_set_has (sample_set [6, 7]) x m))"
    using drm_format_set_intersect_exact [OF ok, of empty_set os_init] by blast
  have "\<exists>m :: u64. (m = 5 \<or> m = 6) \<and> (m = 6 \<or> m = 7)" by blast
  then have "r" using r(2) by (simp add: has os_init_def)
  then show ?thesis using r by (auto simp: has os_init_def)
qed

text \<open>
  The header says that intersecting with a format that has no modifier returns a format without
  modifiers; the code returns \<open>NULL\<close>.
\<close>

lemma drm_format_intersect_no_modifiers:
  "f_format a = f_format b \<Longrightarrow> f_modifiers a = [] \<Longrightarrow> \<exists>w'. drm_format_intersect a b w = Some (None, w')"
  by (cases "sys_malloc w") (auto simp: drm_format_intersect_def)

end
