(* ===== verification/Feedback.thy ===== *)
theory Feedback
  imports Dmabuf DrmFormat
begin

text \<open>
  The feedback that tells clients which formats and modifiers the devices take, the second half of
  wlr_linux_dmabuf_v1.c: the format table in a shared file, the indices of the tranches into it, the
  default feedback of the global and the feedback of surfaces, and the formats sent to clients of
  the older versions.  The results of system calls and of libdrm are arguments; \<open>None\<close> is a failed
  assertion, a write outside an array or the use of a freed object.
\<close>

section \<open>The shared file\<close>

text \<open>The letters that \<open>randname\<close> makes of the nanoseconds.\<close>

fun randname :: "nat \<Rightarrow> u64 \<Rightarrow> string" where
  "randname 0 r = []"
| "randname (Suc n) r = char_of (65 + unat (r AND 15) + unat (r AND 16) * 2) # randname n (drop_bit 5 r)"

text \<open>The first argument counts the retries that are left, the second holds the results of \<open>shm_open\<close>.\<close>

fun excl_shm_open :: "nat \<Rightarrow> (errno + int) list \<Rightarrow> int \<times> (errno + int) list" where
  "excl_shm_open 0 rs = (- 1, rs)"
| "excl_shm_open (Suc n) rs =
     (case rs of
        [] \<Rightarrow> (- 1, [])
      | Inr fd # rs' \<Rightarrow> (fd, rs')
      | Inl e # rs' \<Rightarrow> if n > 0 \<and> e = EEXIST then excl_shm_open n rs' else (- 1, rs'))"

fun truncate_loop :: "errno option list \<Rightarrow> bool" where
  "truncate_loop [] = True"
| "truncate_loop (None # rs) = True"
| "truncate_loop (Some e # rs) = (if e = EINTR then truncate_loop rs else False)"

record shm_calls =
  sc_open :: "(errno + int) list"
  sc_chmod :: bool
  sc_truncate :: "errno option list"
  sc_mmap :: bool

definition shm_open_again :: "(errno + int) list \<Rightarrow> int" where
  "shm_open_again rs = (case rs of Inr fd # _ \<Rightarrow> fd | _ \<Rightarrow> - 1)"

definition close_int :: "int \<Rightarrow> os \<Rightarrow> os" where
  "close_int fd w = sys_close (of_int fd) w"

definition allocate_shm_file_pair :: "shm_calls \<Rightarrow> os \<Rightarrow> (int \<times> int) option \<times> os" where
  "allocate_shm_file_pair sc w =
     (case excl_shm_open 100 (sc_open sc) of (rw_fd, rs) \<Rightarrow>
        if rw_fd < 0 then (None, w)
        else
          let ro_fd = shm_open_again rs in
          if ro_fd < 0 then (None, close_int rw_fd w)
          else if \<not> sc_chmod sc then (None, close_int ro_fd (close_int rw_fd w))
          else if \<not> truncate_loop (sc_truncate sc) then (None, close_int ro_fd (close_int rw_fd w))
          else (Some (rw_fd, ro_fd), w))"

section \<open>Compiling the feedback\<close>

record tranche =
  tr_device :: u64
  tr_flags :: u32
  tr_formats :: drm_format_set

record feedback =
  fb_main_device :: u64
  fb_tranches :: "tranche list"

record compiled_tranche =
  ct_device :: u64
  ct_flags :: u32
  ct_indices :: "u16 list"

text \<open>\<open>co_table\<close> is the content of the file behind \<open>co_table_fd\<close>.\<close>

record compiled =
  co_main_device :: u64
  co_table_fd :: int
  co_table :: "(u32 \<times> u64) list"
  co_table_size :: nat
  co_tranches :: "compiled_tranche list"

fun find_format :: "drm_format list \<Rightarrow> u32 \<Rightarrow> nat \<Rightarrow> (drm_format \<times> nat) option" where
  "find_format [] format idx = None"
| "find_format (f # fs) format idx =
     (if f_format f = format then Some (f, idx) else find_format fs format (idx + length (f_modifiers f)))"

fun find_modifier :: "u64 list \<Rightarrow> u64 \<Rightarrow> nat \<Rightarrow> int" where
  "find_modifier [] modifier idx = - 1"
| "find_modifier (m # ms) modifier idx = (if m = modifier then int idx else find_modifier ms modifier (idx + 1))"

definition get_drm_format_set_index :: "drm_format_set \<Rightarrow> u32 \<Rightarrow> u64 \<Rightarrow> int" where
  "get_drm_format_set_index st format modifier =
     (case find_format (fs_formats st) format 0 of
        None \<Rightarrow> - 1
      | Some (fmt, idx) \<Rightarrow> find_modifier (f_modifiers fmt) modifier idx)"

definition table_len :: "drm_format_set \<Rightarrow> nat" where
  "table_len st = sum_list (map (\<lambda>f. length (f_modifiers f)) (fs_formats st))"

text \<open>Writing the table, whose entries must lie below \<open>cap\<close>.\<close>

fun fill_format :: "nat \<Rightarrow> u32 \<Rightarrow> u64 list \<Rightarrow> (u32 \<times> u64) list \<Rightarrow> (u32 \<times> u64) list option" where
  "fill_format cap format [] tbl = Some tbl"
| "fill_format cap format (m # ms) tbl =
     (if length tbl < cap then fill_format cap format ms (tbl @ [(format, m)]) else None)"

fun fill_table :: "nat \<Rightarrow> drm_format list \<Rightarrow> (u32 \<times> u64) list \<Rightarrow> (u32 \<times> u64) list option" where
  "fill_table cap [] tbl = Some tbl"
| "fill_table cap (f # fs) tbl = fill_format cap (f_format f) (f_modifiers f) tbl \<bind> fill_table cap fs"

text \<open>
  Writing the indices of a tranche into an array of \<open>cap\<close> elements; the inner result is \<open>None\<close>
  when a pair is missing from the table.  The index is cut to 16 bits.
\<close>

fun fill_indices :: "nat \<Rightarrow> drm_format_set \<Rightarrow> u32 \<Rightarrow> u64 list \<Rightarrow> u16 list \<Rightarrow> u16 list option option" where
  "fill_indices cap fallback format [] ixs = Some (Some ixs)"
| "fill_indices cap fallback format (m # ms) ixs =
     (let index = get_drm_format_set_index fallback format m in
      if index < 0 then Some None
      else if length ixs < cap then fill_indices cap fallback format ms (ixs @ [of_int index]) else None)"

fun tranche_indices :: "nat \<Rightarrow> drm_format_set \<Rightarrow> drm_format list \<Rightarrow> u16 list \<Rightarrow> u16 list option option" where
  "tranche_indices cap fallback [] ixs = Some (Some ixs)"
| "tranche_indices cap fallback (f # fs) ixs = do {
     r \<leftarrow> fill_indices cap fallback (f_format f) (f_modifiers f) ixs;
     (case r of None \<Rightarrow> Some None | Some ixs \<Rightarrow> tranche_indices cap fallback fs ixs) }"

text \<open>The elements that the fresh array of 16 bit indices has room for: \<open>wl_array_add\<close> doubles its 16 bytes.\<close>

function array_room :: "nat \<Rightarrow> nat \<Rightarrow> nat" where
  "array_room a n = (if 0 < a \<and> a < n then array_room (2 * a) n else a)"
  by pat_completeness auto
termination
  by (relation "measure (\<lambda>(a, n). n - a)") auto

declare array_room.simps [simp del]

lemma array_room_enough: "0 < a \<Longrightarrow> n \<le> array_room a n"
  by (induction a n rule: array_room.induct) (subst array_room.simps, auto)

text \<open>The tranches before the last; the inner result is \<open>None\<close> at the label \<open>error_compiled\<close>.\<close>

fun compile_tranches ::
  "nat \<Rightarrow> drm_format_set \<Rightarrow> tranche list \<Rightarrow> os \<Rightarrow> (compiled_tranche list option \<times> os) option" where
  "compile_tranches cap fallback [] w = Some (Some [], w)"
| "compile_tranches cap fallback (t # ts) w =
     (case sys_malloc w of (mem, w1) \<Rightarrow>
        if \<not> mem then Some (None, w1)
        else do {
          r \<leftarrow> tranche_indices cap fallback (fs_formats (tr_formats t)) [];
          (case r of
             None \<Rightarrow> Some (None, w1)
           | Some ixs \<Rightarrow> do {
               (cts, w2) \<leftarrow> compile_tranches cap fallback ts w1;
               Some (map_option (\<lambda>cts. \<lparr>ct_device = tr_device t, ct_flags = tr_flags t, ct_indices = ixs\<rparr> # cts) cts, w2) }) })"

definition feedback_compile :: "shm_calls \<Rightarrow> feedback \<Rightarrow> os \<Rightarrow> (compiled option \<times> os) option" where
  "feedback_compile sc fb w =
     (if fb_tranches fb = [] then None
      else
        let last_tranche = last (fb_tranches fb); fallback = tr_formats last_tranche; n = table_len fallback in
        if n = 0 then None
        else (case allocate_shm_file_pair sc w of
          (None, w1) \<Rightarrow> Some (None, w1)
        | (Some (rw_fd, ro_fd), w1) \<Rightarrow>
            if \<not> sc_mmap sc then Some (None, close_int ro_fd (close_int rw_fd w1))
            else do {
              tbl \<leftarrow> fill_table n (fs_formats fallback) [];
              if length tbl \<noteq> n then None
              else (case sys_malloc (close_int rw_fd w1) of (mem, w2) \<Rightarrow>
                 if \<not> mem then Some (None, close_int ro_fd w2)
                 else do {
                   (cts, w3) \<leftarrow> compile_tranches (array_room 8 n) fallback (butlast (fb_tranches fb)) w2;
                   (case cts of
                      None \<Rightarrow> Some (None, close_int ro_fd w3)
                    | Some cts \<Rightarrow>
                        (case sys_malloc w3 of (mem, w4) \<Rightarrow>
                           if \<not> mem then Some (None, close_int ro_fd w4)
                           else Some (Some \<lparr>co_main_device = fb_main_device fb, co_table_fd = ro_fd, co_table = tbl,
                             co_table_size = n * 16,
                             co_tranches = cts @ [\<lparr>ct_device = tr_device last_tranche, ct_flags = tr_flags last_tranche,
                               ct_indices = map of_nat [0..<n]\<rparr>]\<rparr>, w4))) }) }))"

definition compiled_feedback_destroy :: "compiled option \<Rightarrow> os \<Rightarrow> os" where
  "compiled_feedback_destroy co w = (case co of None \<Rightarrow> w | Some c \<Rightarrow> close_int (co_table_fd c) w)"

section \<open>The table and its indices\<close>

text \<open>The table is the list of the pairs in the order of the formats.\<close>

definition pair_list :: "drm_format list \<Rightarrow> (u32 \<times> u64) list" where
  "pair_list fs = concat (map (\<lambda>f. map (Pair (f_format f)) (f_modifiers f)) fs)"

lemma pair_list_simps [simp]:
  "pair_list [] = []" "pair_list (f # fs) = map (Pair (f_format f)) (f_modifiers f) @ pair_list fs"
  "pair_list (xs @ ys) = pair_list xs @ pair_list ys"
  by (simp_all add: pair_list_def)

lemma set_pair_list: "set (pair_list fs) = pairs_of fs"
  by (induction fs) auto

lemma length_pair_list: "length (pair_list fs) = sum_list (map (\<lambda>f. length (f_modifiers f)) fs)"
  by (induction fs) auto

lemma distinct_pair_list:
  "distinct (map f_format fs) \<Longrightarrow> \<forall>f \<in> set fs. distinct (f_modifiers f) \<Longrightarrow> distinct (pair_list fs)"
proof (induction fs)
  case (Cons f fs)
  have "distinct (map (Pair (f_format f)) (f_modifiers f))" using Cons.prems by (simp add: distinct_map inj_on_def)
  moreover have "Pair (f_format f) ` set (f_modifiers f) \<inter> pairs_of fs = {}"
    using Cons.prems(1) by (auto simp: pairs_of_def image_iff)
  ultimately show ?case using Cons by (simp add: set_pair_list)
qed simp

lemma distinct_set_pairs: "set_ok st \<Longrightarrow> distinct (pair_list (fs_formats st))"
  by (rule distinct_pair_list) (auto simp: set_ok_def format_ok_def)

lemma fill_format_eq:
  "length tbl + length ms \<le> cap \<Longrightarrow> fill_format cap x ms tbl = Some (tbl @ map (Pair x) ms)"
  by (induction ms arbitrary: tbl) auto

lemma fill_table_eq:
  "length tbl + length (pair_list fs) \<le> cap \<Longrightarrow> fill_table cap fs tbl = Some (tbl @ pair_list fs)"
  by (induction fs arbitrary: tbl) (auto simp: fill_format_eq)

lemma find_modifier_in: "m \<in> set ms \<Longrightarrow> \<exists>j < length ms. ms ! j = m \<and> find_modifier ms m idx = int (idx + j)"
proof (induction ms arbitrary: idx)
  case (Cons a ms)
  show ?case
  proof (cases "a = m")
    case False
    with Cons.prems Cons.IH [of "idx + 1"]
    obtain j where "j < length ms" "ms ! j = m" "find_modifier ms m (idx + 1) = int (idx + 1 + j)" by auto
    with False show ?thesis by (intro exI [of _ "Suc j"]) auto
  qed auto
qed simp

lemma find_modifier_out: "m \<notin> set ms \<Longrightarrow> find_modifier ms m idx = - 1"
  by (induction ms arbitrary: idx) auto

lemma find_format_Some:
  "find_format fs x idx = Some (f, k) \<Longrightarrow>
   \<exists>as bs. fs = as @ f # bs \<and> f_format f = x \<and> k = idx + length (pair_list as)"
proof (induction fs arbitrary: idx)
  case (Cons a fs)
  show ?case
  proof (cases "f_format a = x")
    case True
    with Cons.prems show ?thesis by (intro exI [of _ "[]"] exI [of _ fs]) auto
  next
    case False
    with Cons.prems have "find_format fs x (idx + length (f_modifiers a)) = Some (f, k)" by simp
    from Cons.IH [OF this] obtain as bs where "fs = as @ f # bs" "f_format f = x"
      "k = idx + length (f_modifiers a) + length (pair_list as)" by blast
    then show ?thesis by (intro exI [of _ "a # as"] exI [of _ bs]) auto
  qed
qed simp

lemma find_format_None: "find_format fs x idx = None \<longleftrightarrow> x \<notin> f_format ` set fs"
  by (induction fs arbitrary: idx) auto

lemma index_in:
  assumes ok: "set_ok st" and p: "(x, m) \<in> set_pairs st"
  obtains k where "k < table_len st" "pair_list (fs_formats st) ! k = (x, m)" "get_drm_format_set_index st x m = int k"
proof -
  obtain f where f: "f \<in> set (fs_formats st)" "f_format f = x" "m \<in> set (f_modifiers f)"
    using p by (auto simp: set_pairs_def pairs_of_def)
  then obtain g k where g: "find_format (fs_formats st) x 0 = Some (g, k)"
    using find_format_None [of "fs_formats st" x 0] by (cases "find_format (fs_formats st) x 0") auto
  from find_format_Some [OF g] obtain as bs where s: "fs_formats st = as @ g # bs" "f_format g = x" "k = length (pair_list as)"
    by auto
  have "g = f" using ok f s by (auto simp: set_ok_def distinct_map dest: inj_onD)
  with f obtain j where j: "j < length (f_modifiers g)" "f_modifiers g ! j = m" "find_modifier (f_modifiers g) m k = int (k + j)"
    using find_modifier_in [of m "f_modifiers g" k] by auto
  have "table_len st = length (pair_list (fs_formats st))" by (simp add: table_len_def length_pair_list)
  with s j g that [of "k + j"] show thesis
    by (simp add: get_drm_format_set_index_def nth_append)
qed

lemma index_out:
  assumes "set_ok st" "(x, m) \<notin> set_pairs st"
  shows "get_drm_format_set_index st x m = - 1"
proof (cases "find_format (fs_formats st) x 0")
  case (Some gk)
  obtain g k where gk: "gk = (g, k)" by fastforce
  from find_format_Some [OF Some [unfolded gk]] have "g \<in> set (fs_formats st)" "f_format g = x" by auto
  then have "m \<notin> set (f_modifiers g)" using assms(2) by (auto simp: set_pairs_def pairs_of_def)
  with Some gk find_modifier_out show ?thesis by (simp add: get_drm_format_set_index_def)
qed (simp add: get_drm_format_set_index_def)

lemma fill_indices_eq:
  "\<forall>m \<in> set ms. 0 \<le> get_drm_format_set_index fb x m \<Longrightarrow> length ixs + length ms \<le> cap \<Longrightarrow>
   fill_indices cap fb x ms ixs = Some (Some (ixs @ map (\<lambda>m. of_int (get_drm_format_set_index fb x m)) ms))"
  by (induction ms arbitrary: ixs) (auto simp: Let_def)

lemma tranche_indices_eq:
  "\<forall>(x, m) \<in> pairs_of fs. 0 \<le> get_drm_format_set_index fb x m \<Longrightarrow> length ixs + length (pair_list fs) \<le> cap \<Longrightarrow>
   tranche_indices cap fb fs ixs =
     Some (Some (ixs @ map (\<lambda>(x, m). of_int (get_drm_format_set_index fb x m)) (pair_list fs)))"
proof (induction fs arbitrary: ixs)
  case (Cons f fs)
  have "fill_indices cap fb (f_format f) (f_modifiers f) ixs =
      Some (Some (ixs @ map (\<lambda>m. of_int (get_drm_format_set_index fb (f_format f) m)) (f_modifiers f)))"
    using Cons.prems by (intro fill_indices_eq) auto
  with Cons show ?case by (simp add: comp_def)
qed simp

text \<open>The indices of a tranche, read back through the table.\<close>

definition decoded :: "compiled \<Rightarrow> compiled_tranche \<Rightarrow> (u32 \<times> u64) list" where
  "decoded co ct = map (\<lambda>k. co_table co ! unat k) (ct_indices ct)"

definition sub_tranche :: "drm_format_set \<Rightarrow> tranche \<Rightarrow> bool" where
  "sub_tranche fb t \<longleftrightarrow> set_ok (tr_formats t) \<and> set_pairs (tr_formats t) \<subseteq> set_pairs fb"

lemma unat_u16: "k < 65536 \<Longrightarrow> unat (of_nat k :: u16) = k"
  by (simp add: unat_of_nat)

lemma table_len_length: "table_len st = length (pair_list (fs_formats st))"
  by (simp add: table_len_def length_pair_list)

lemma sub_tranche_indices:
  assumes ok: "set_ok fb" and n: "table_len fb \<le> 65536" and t: "sub_tranche fb t"
  obtains ixs where "tranche_indices (array_room 8 (table_len fb)) fb (fs_formats (tr_formats t)) [] = Some (Some ixs)"
    "map (\<lambda>k. pair_list (fs_formats fb) ! unat k) ixs = pair_list (fs_formats (tr_formats t))"
proof -
  let ?fs = "fs_formats (tr_formats t)" and ?tbl = "pair_list (fs_formats fb)"
  have sub: "set (pair_list ?fs) \<subseteq> set ?tbl" using t by (simp add: sub_tranche_def set_pairs_def set_pair_list)
  have "length (pair_list ?fs) = card (set (pair_list ?fs))"
    using distinct_set_pairs t by (simp add: sub_tranche_def distinct_card)
  also have "\<dots> \<le> card (set ?tbl)" using sub by (intro card_mono) auto
  also have "\<dots> \<le> table_len fb" using card_length by (simp add: table_len_length)
  finally have len: "length (pair_list ?fs) \<le> table_len fb" .
  have ix: "\<exists>k < table_len fb. ?tbl ! k = (x, m) \<and> get_drm_format_set_index fb x m = int k" if "(x, m) \<in> set (pair_list ?fs)" for x m
    using index_in [OF ok, of x m] that sub by (metis set_pair_list set_pairs_def subsetD)
  have "\<forall>(x, m) \<in> pairs_of ?fs. 0 \<le> get_drm_format_set_index fb x m"
    using ix by (force simp: set_pair_list)
  then have "tranche_indices (array_room 8 (table_len fb)) fb ?fs [] =
      Some (Some (map (\<lambda>(x, m). of_int (get_drm_format_set_index fb x m)) (pair_list ?fs)))"
    using tranche_indices_eq [of ?fs fb "[]" "array_room 8 (table_len fb)"] len array_room_enough [of 8 "table_len fb"] by simp
  moreover have "?tbl ! unat (of_int (get_drm_format_set_index fb x m) :: u16) = (x, m)" if "(x, m) \<in> set (pair_list ?fs)" for x m
  proof -
    obtain k where k: "k < table_len fb" "?tbl ! k = (x, m)" "get_drm_format_set_index fb x m = int k" using ix [OF \<open>_ \<in> _\<close>] by blast
    then show ?thesis using n unat_u16 [of k] by simp
  qed
  then have "map (\<lambda>k. ?tbl ! unat k) (map (\<lambda>(x, m). of_int (get_drm_format_set_index fb x m) :: u16) (pair_list ?fs)) = pair_list ?fs"
    unfolding map_map by (intro map_idI) (auto simp: comp_def)
  ultimately show thesis using that by blast
qed

lemma compile_tranches_eq:
  assumes ok: "set_ok fb" "table_len fb \<le> 65536" and w: "alloc_script w = []"
  shows "\<forall>t \<in> set ts. sub_tranche fb t \<Longrightarrow>
    \<exists>cts. compile_tranches (array_room 8 (table_len fb)) fb ts w = Some (Some cts, w) \<and> length cts = length ts \<and>
      (\<forall>i < length ts. ct_device (cts ! i) = tr_device (ts ! i) \<and> ct_flags (cts ! i) = tr_flags (ts ! i) \<and>
        map (\<lambda>k. pair_list (fs_formats fb) ! unat k) (ct_indices (cts ! i)) = pair_list (fs_formats (tr_formats (ts ! i))))"
proof (induction ts)
  case (Cons t ts)
  obtain ixs where ixs: "tranche_indices (array_room 8 (table_len fb)) fb (fs_formats (tr_formats t)) [] = Some (Some ixs)"
    "map (\<lambda>k. pair_list (fs_formats fb) ! unat k) ixs = pair_list (fs_formats (tr_formats t))"
    using sub_tranche_indices [OF ok] Cons.prems by auto
  obtain cts where cts: "compile_tranches (array_room 8 (table_len fb)) fb ts w = Some (Some cts, w)" "length cts = length ts"
    "\<forall>i < length ts. ct_device (cts ! i) = tr_device (ts ! i) \<and> ct_flags (cts ! i) = tr_flags (ts ! i) \<and>
        map (\<lambda>k. pair_list (fs_formats fb) ! unat k) (ct_indices (cts ! i)) = pair_list (fs_formats (tr_formats (ts ! i)))"
    using Cons.IH Cons.prems by auto
  have "compile_tranches (array_room 8 (table_len fb)) fb (t # ts) w =
      Some (Some (\<lparr>ct_device = tr_device t, ct_flags = tr_flags t, ct_indices = ixs\<rparr> # cts), w)"
    using ixs(1) cts(1) w by (simp add: sys_malloc_def)
  then show ?case
    using ixs(2) cts(2,3)
    by (intro exI [of _ "\<lparr>ct_device = tr_device t, ct_flags = tr_flags t, ct_indices = ixs\<rparr> # cts"]) (auto simp: less_Suc_eq_0_disj)
qed simp

lemma allocate_success: "allocate_shm_file_pair sc w = (Some p, w1) \<Longrightarrow> w1 = w"
  by (auto simp: allocate_shm_file_pair_def Let_def split: prod.splits if_splits)

text \<open>C8: Compiling the feedback writes the table of the pairs of the last tranche in order, and the
  16-bit indices of every tranche, read through the table, give back exactly its pairs in order,
  provided every tranche is a subset of the last one and the table has at most 65536 entries; nothing
  is written outside the arrays, and only the writable descriptor of the file is closed.\<close>

theorem feedback_compile_exact:
  assumes ts: "fb_tranches fb = ts @ [l]" and l: "set_ok (tr_formats l)" "0 < table_len (tr_formats l)" "table_len (tr_formats l) \<le> 65536"
    and sub: "\<forall>t \<in> set ts. sub_tranche (tr_formats l) t" and w: "alloc_script w = []"
    and pair: "allocate_shm_file_pair sc w = (Some (rw_fd, ro_fd), w1)" "sc_mmap sc"
  shows "\<exists>co w'. feedback_compile sc fb w = Some (Some co, w') \<and> closed w' = closed w @ [of_int rw_fd] \<and>
    co_table_fd co = ro_fd \<and> co_table co = pair_list (fs_formats (tr_formats l)) \<and> length (co_tranches co) = length ts + 1 \<and>
    (\<forall>i \<le> length ts. decoded co (co_tranches co ! i) = pair_list (fs_formats (tr_formats (fb_tranches fb ! i))) \<and>
      ct_device (co_tranches co ! i) = tr_device (fb_tranches fb ! i) \<and> ct_flags (co_tranches co ! i) = tr_flags (fb_tranches fb ! i))"
proof -
  let ?fb = "tr_formats l" and ?w = "close_int rw_fd w"
  let ?n = "table_len ?fb" and ?tbl = "pair_list (fs_formats (tr_formats l))"
  let ?last = "\<lparr>ct_device = tr_device l, ct_flags = tr_flags l, ct_indices = map of_nat [0..<?n]\<rparr>"
  have w1: "w1 = w" using allocate_success [OF pair(1)] .
  have aw: "alloc_script ?w = []" using w by (simp add: close_int_def sys_close_def)
  obtain cts where cts: "compile_tranches (array_room 8 ?n) ?fb ts ?w = Some (Some cts, ?w)" "length cts = length ts"
    "\<forall>i < length ts. ct_device (cts ! i) = tr_device (ts ! i) \<and> ct_flags (cts ! i) = tr_flags (ts ! i) \<and>
        map (\<lambda>k. ?tbl ! unat k) (ct_indices (cts ! i)) = pair_list (fs_formats (tr_formats (ts ! i)))"
    using compile_tranches_eq [OF l(1,3) aw sub] by blast
  have tbl: "fill_table ?n (fs_formats ?fb) [] = Some ?tbl" using fill_table_eq [of "[]" "fs_formats ?fb" ?n] by (simp add: table_len_length)
  let ?co = "\<lparr>co_main_device = fb_main_device fb, co_table_fd = ro_fd, co_table = ?tbl, co_table_size = ?n * 16,
    co_tranches = cts @ [?last]\<rparr>"
  have run: "feedback_compile sc fb w = Some (Some ?co, ?w)"
    using ts l(2) pair w1 tbl cts(1) aw by (simp add: feedback_compile_def Let_def sys_malloc_def table_len_length)
  have "map (\<lambda>k. ?tbl ! unat k) (map of_nat [0..<?n] :: u16 list) = map (\<lambda>k. ?tbl ! k) [0..<?n]"
    using l(3) by (auto simp: unat_u16)
  then have "map (\<lambda>k. ?tbl ! unat k) (map of_nat [0..<?n] :: u16 list) = ?tbl"
    by (simp add: table_len_length map_nth)
  then have "decoded ?co ((cts @ [?last]) ! i) = pair_list (fs_formats (tr_formats (fb_tranches fb ! i))) \<and>
      ct_device ((cts @ [?last]) ! i) = tr_device (fb_tranches fb ! i) \<and> ct_flags ((cts @ [?last]) ! i) = tr_flags (fb_tranches fb ! i)"
    if "i \<le> length ts" for i
    using that cts(2,3) ts by (cases "i < length ts") (auto simp: decoded_def nth_append)
  with run cts(2) show ?thesis by (intro exI [of _ ?co] exI [of _ ?w]) (simp add: close_int_def sys_close_def)
qed

definition sample_tranche :: "u64 list \<Rightarrow> tranche" where
  "sample_tranche ms = \<lparr>tr_device = 7, tr_flags = 0, tr_formats = \<lparr>fs_capacity = 4,
     fs_formats = [\<lparr>f_format = 1, f_capacity = 4, f_modifiers = ms\<rparr>]\<rparr>\<rparr>"

definition sample_calls :: shm_calls where
  "sample_calls = \<lparr>sc_open = [Inr 10, Inr 11], sc_chmod = True, sc_truncate = [Some EINTR, None], sc_mmap = True\<rparr>"

lemma sample_allocate: "allocate_shm_file_pair sample_calls w = (Some (10, 11), w)"
  by (simp add: allocate_shm_file_pair_def sample_calls_def shm_open_again_def eval_nat_numeral)

lemma feedback_compile_exact_witness:
  "\<exists>co w'. feedback_compile sample_calls \<lparr>fb_main_device = 1, fb_tranches = [sample_tranche [9], sample_tranche [5, 9]]\<rparr> os_init =
     Some (Some co, w') \<and> co_table co = [(1, 5), (1, 9)] \<and> decoded co (co_tranches co ! 0) = [(1, 9)]"
proof -
  let ?f = "\<lparr>fb_main_device = 1, fb_tranches = [sample_tranche [9], sample_tranche [5, 9]]\<rparr>"
  have f: "fb_tranches ?f = [sample_tranche [9]] @ [sample_tranche [5, 9]]" by simp
  have ok: "set_ok (tr_formats (sample_tranche [5, 9]))" "0 < table_len (tr_formats (sample_tranche [5, 9]))"
    "table_len (tr_formats (sample_tranche [5, 9])) \<le> 65536"
    by (simp_all add: sample_tranche_def set_ok_def format_ok_def table_len_def)
  have sub: "\<forall>t \<in> set [sample_tranche [9]]. sub_tranche (tr_formats (sample_tranche [5, 9])) t"
    by (simp add: sub_tranche_def sample_tranche_def set_ok_def format_ok_def set_pairs_def)
  have w: "alloc_script os_init = []" "sc_mmap sample_calls" by (simp_all add: os_init_def sample_calls_def)
  have p: "pair_list (fs_formats (tr_formats (sample_tranche ms))) = map (Pair 1) ms" for ms by (simp add: sample_tranche_def)
  obtain co w' where co: "feedback_compile sample_calls ?f os_init = Some (Some co, w')"
    "co_table co = pair_list (fs_formats (tr_formats (sample_tranche [5, 9])))"
    "decoded co (co_tranches co ! 0) = pair_list (fs_formats (tr_formats (fb_tranches ?f ! 0)))"
    using feedback_compile_exact [OF f ok sub w(1) sample_allocate w(2)] by fastforce
  then have "decoded co (co_tranches co ! 0) = pair_list (fs_formats (tr_formats (sample_tranche [9])))" by simp
  with co(1,2) show ?thesis unfolding p by simp
qed

section \<open>The global\<close>

record linux_dmabuf =
  ld_global :: u64
  ld_default_feedback :: "compiled option"
  ld_default_formats :: drm_format_set
  ld_surfaces :: "u64 list"
  ld_main_device_fd :: int

text \<open>The addon in the surface has the address of the surface.\<close>

record dmabuf_surface =
  su_surface :: u64
  su_dmabuf :: u64
  su_feedback :: "compiled option"
  su_resources :: "u64 list"

text \<open>\<open>fx_wsurface\<close> holds the addons of each \<open>struct westfield_surface\<close>.\<close>

record feedback_state =
  fx_server :: server
  fx_dmabuf :: "u64 \<Rightarrow> linux_dmabuf option"
  fx_surface :: "u64 \<Rightarrow> dmabuf_surface option"
  fx_wsurface :: "u64 \<Rightarrow> u64 list option"
  fx_addon :: "u64 \<Rightarrow> addon"

record feedback_env =
  y_dmabuf_interface :: u64
  y_feedback_interface :: u64
  y_dmabuf_impl :: u64
  y_feedback_impl :: u64
  y_surface_addon_impl :: u64
  y_feedback_destroy :: u64
  y_bind :: u64

definition LINUX_DMABUF_VERSION :: int where "LINUX_DMABUF_VERSION = 4"
definition MODIFIER_SINCE_VERSION :: int where "MODIFIER_SINCE_VERSION = 3"
definition GET_DEFAULT_FEEDBACK_SINCE_VERSION :: int where "GET_DEFAULT_FEEDBACK_SINCE_VERSION = 4"
definition DMABUF_V1_FORMAT :: u32 where "DMABUF_V1_FORMAT = 0"
definition DMABUF_V1_MODIFIER :: u32 where "DMABUF_V1_MODIFIER = 1"
definition FEEDBACK_DONE :: u32 where "FEEDBACK_DONE = 0"
definition FEEDBACK_FORMAT_TABLE :: u32 where "FEEDBACK_FORMAT_TABLE = 1"
definition FEEDBACK_MAIN_DEVICE :: u32 where "FEEDBACK_MAIN_DEVICE = 2"
definition FEEDBACK_TRANCHE_DONE :: u32 where "FEEDBACK_TRANCHE_DONE = 3"
definition FEEDBACK_TRANCHE_TARGET_DEVICE :: u32 where "FEEDBACK_TRANCHE_TARGET_DEVICE = 4"
definition FEEDBACK_TRANCHE_FORMATS :: u32 where "FEEDBACK_TRANCHE_FORMATS = 5"
definition FEEDBACK_TRANCHE_FLAGS :: u32 where "FEEDBACK_TRANCHE_FLAGS = 6"

text \<open>Modifiers of libdrm.\<close>

definition DRM_FORMAT_MOD_INVALID :: u64 where "DRM_FORMAT_MOD_INVALID = 0x00ffffffffffffff"
definition DRM_FORMAT_MOD_LINEAR :: u64 where "DRM_FORMAT_MOD_LINEAR = 0"

definition fx_with :: "server option \<Rightarrow> feedback_state \<Rightarrow> feedback_state option" where
  "fx_with so st = map_option (\<lambda>s. st\<lparr>fx_server := s\<rparr>) so"

definition fx_os :: "(os \<Rightarrow> os) \<Rightarrow> feedback_state \<Rightarrow> feedback_state" where
  "fx_os f st = st\<lparr>fx_server := (fx_server st)\<lparr>s_os := f (s_os (fx_server st))\<rparr>\<rparr>"

text \<open>
  \<open>rdev\<close> is the device of the renderer's descriptor as \<open>fstat\<close> tells it, \<open>formats\<close> the formats of
  its textures, if it has them.
\<close>

definition feedback_tranche_init_with_renderer :: "int \<Rightarrow> u64 option \<Rightarrow> drm_format_set option \<Rightarrow> tranche option" where
  "feedback_tranche_init_with_renderer drm_fd rdev formats =
     (if drm_fd < 0 then None
      else (case rdev of
          None \<Rightarrow> None
        | Some dev \<Rightarrow> map_option (\<lambda>fs. \<lparr>tr_device = dev, tr_flags = 0, tr_formats = fs\<rparr>) formats))"

section \<open>Sending\<close>

definition device_arg :: "u64 \<Rightarrow> wl_argument" where
  "device_arg dev = Arr (Some (bytes_of [ucast dev, ucast (drop_bit 32 dev)]))"

definition indices_arg :: "u16 list \<Rightarrow> wl_argument" where
  "indices_arg ixs = Arr (Some (concat (map (\<lambda>k. [ucast k, ucast (drop_bit 8 k)]) ixs)))"

definition feedback_tranche_send :: "env \<Rightarrow> compiled_tranche \<Rightarrow> u64 \<Rightarrow> server \<Rightarrow> server option" where
  "feedback_tranche_send env ct r s = do {
     s1 \<leftarrow> wl_resource_post_event env r FEEDBACK_TRANCHE_TARGET_DEVICE [device_arg (ct_device ct)] s;
     s2 \<leftarrow> wl_resource_post_event env r FEEDBACK_TRANCHE_FLAGS [W (ct_flags ct)] s1;
     s3 \<leftarrow> wl_resource_post_event env r FEEDBACK_TRANCHE_FORMATS [indices_arg (ct_indices ct)] s2;
     wl_resource_post_event env r FEEDBACK_TRANCHE_DONE [] s3 }"

fun send_tranches :: "env \<Rightarrow> compiled_tranche list \<Rightarrow> u64 \<Rightarrow> server \<Rightarrow> server option" where
  "send_tranches env [] r s = Some s"
| "send_tranches env (ct # cts) r s = feedback_tranche_send env ct r s \<bind> send_tranches env cts r"

definition feedback_send :: "env \<Rightarrow> compiled option \<Rightarrow> u64 \<Rightarrow> server \<Rightarrow> server option" where
  "feedback_send env feedback r s = do {
     co \<leftarrow> feedback;
     s1 \<leftarrow> wl_resource_post_event env r FEEDBACK_MAIN_DEVICE [device_arg (co_main_device co)] s;
     s2 \<leftarrow> wl_resource_post_event env r FEEDBACK_FORMAT_TABLE [W (of_int (co_table_fd co)), W (of_nat (co_table_size co))] s1;
     s3 \<leftarrow> send_tranches env (co_tranches co) r s2;
     wl_resource_post_event env r FEEDBACK_DONE [] s3 }"

definition linux_dmabuf_feedback_destroy :: "env \<Rightarrow> u64 \<Rightarrow> feedback_state \<Rightarrow> feedback_state option" where
  "linux_dmabuf_feedback_destroy env resource st = fx_with (wl_resource_destroy env resource (fx_server st)) st"

definition linux_dmabuf_destroy :: "env \<Rightarrow> u64 \<Rightarrow> feedback_state \<Rightarrow> feedback_state option" where
  "linux_dmabuf_destroy env resource st = fx_with (wl_resource_destroy env resource (fx_server st)) st"

definition linux_dmabuf_from_resource :: "env \<Rightarrow> feedback_env \<Rightarrow> u64 \<Rightarrow> server \<Rightarrow> u64 option" where
  "linux_dmabuf_from_resource env y resource s = do {
     inst \<leftarrow> wl_resource_instance_of env resource (y_dmabuf_interface y) (y_dmabuf_impl y) s;
     if \<not> inst then None
     else do {
       d \<leftarrow> wl_resource_get_user_data resource s;
       if d = 0 then None else Some d } }"

text \<open>\<open>ra\<close> is the address \<open>malloc\<close> returns for the new resource.\<close>

definition linux_dmabuf_get_default_feedback ::
  "env \<Rightarrow> feedback_env \<Rightarrow> u64 \<Rightarrow> u64 \<Rightarrow> u64 \<Rightarrow> u32 \<Rightarrow> feedback_state \<Rightarrow> feedback_state option" where
  "linux_dmabuf_get_default_feedback env y ra client resource i st = do {
     d \<leftarrow> linux_dmabuf_from_resource env y resource (fx_server st);
     ld \<leftarrow> fx_dmabuf st d;
     version \<leftarrow> wl_resource_get_version resource (fx_server st);
     (r, s1) \<leftarrow> wl_resource_create env ra client (y_feedback_interface y) version i (fx_server st);
     if r = 0 then fx_with (wl_client_post_no_memory env client s1) (st\<lparr>fx_server := s1\<rparr>)
     else
       fx_with (feedback_send env (ld_default_feedback ld) r (wl_resource_set_implementation r (y_feedback_impl y) 0 0 s1)) st }"

section \<open>Feedback of surfaces\<close>

definition surface_destroy :: "u64 \<Rightarrow> feedback_state \<Rightarrow> feedback_state option" where
  "surface_destroy a st = do {
     su \<leftarrow> fx_surface st a;
     xs \<leftarrow> fx_wsurface st (su_surface su);
     ld \<leftarrow> fx_dmabuf st (su_dmabuf su);
     let st1 = fx_os (compiled_feedback_destroy (su_feedback su)) st;
     Some (st1\<lparr>fx_wsurface := (fx_wsurface st1)(su_surface su := Some (addon_finish a xs)),
       fx_dmabuf := (fx_dmabuf st1)(su_dmabuf su := Some (ld\<lparr>ld_surfaces := removeAll a (ld_surfaces ld)\<rparr>)),
       fx_surface := (fx_surface st1)(a := None)\<rparr>) }"

definition surface_addon_destroy :: "u64 \<Rightarrow> feedback_state \<Rightarrow> feedback_state option" where
  "surface_addon_destroy a st = surface_destroy a st"

text \<open>\<open>a\<close> is the address \<open>calloc\<close> returns for a new surface.\<close>

definition surface_get_or_create ::
  "feedback_env \<Rightarrow> u64 \<Rightarrow> u64 \<Rightarrow> u64 \<Rightarrow> feedback_state \<Rightarrow> (u64 \<times> feedback_state) option" where
  "surface_get_or_create y a d ws st = do {
     xs \<leftarrow> fx_wsurface st ws;
     let found = addon_find (fx_addon st) xs d (y_surface_addon_impl y);
     if found \<noteq> 0 then Some (found, st)
     else if a = 0 then Some (0, st)
     else do {
       (ad, xs1) \<leftarrow> addon_init a d (y_surface_addon_impl y) (fx_addon st, xs);
       ld \<leftarrow> fx_dmabuf st d;
       Some (a, st\<lparr>fx_addon := ad, fx_wsurface := (fx_wsurface st)(ws := Some xs1),
         fx_surface := (fx_surface st)(a := Some \<lparr>su_surface = ws, su_dmabuf = d, su_feedback = None, su_resources = []\<rparr>),
         fx_dmabuf := (fx_dmabuf st)(d := Some (ld\<lparr>ld_surfaces := a # ld_surfaces ld\<rparr>))\<rparr>) } }"

definition surface_get_feedback :: "u64 \<Rightarrow> feedback_state \<Rightarrow> compiled option option" where
  "surface_get_feedback a st = do {
     su \<leftarrow> fx_surface st a;
     if su_feedback su \<noteq> None then Some (su_feedback su)
     else do { ld \<leftarrow> fx_dmabuf st (su_dmabuf su); Some (ld_default_feedback ld) } }"

text \<open>The link of the resource is in the list of at most one surface.\<close>

definition surface_feedback_handle_resource_destroy :: "u64 \<Rightarrow> feedback_state \<Rightarrow> feedback_state" where
  "surface_feedback_handle_resource_destroy r st =
     st\<lparr>fx_surface := (\<lambda>a. map_option (\<lambda>su. su\<lparr>su_resources := removeAll r (su_resources su)\<rparr>) (fx_surface st a))\<rparr>"

text \<open>\<open>ws\<close> is the address \<open>calloc\<close> returns for the surface's data, which is not checked.\<close>

definition get_wsurface :: "u64 \<Rightarrow> u64 \<Rightarrow> feedback_state \<Rightarrow> (u64 \<times> feedback_state) option" where
  "get_wsurface ws surface_resource st = do {
     w \<leftarrow> wl_resource_get_user_data surface_resource (fx_server st);
     if w \<noteq> 0 then Some (w, st)
     else if ws = 0 then None
     else Some (ws, st\<lparr>fx_wsurface := (fx_wsurface st)(ws := Some addon_set_init),
       fx_server := wl_resource_set_user_data surface_resource ws (fx_server st)\<rparr>) }"

definition linux_dmabuf_get_surface_feedback ::
  "env \<Rightarrow> feedback_env \<Rightarrow> u64 \<Rightarrow> u64 \<Rightarrow> u64 \<Rightarrow> u64 \<Rightarrow> u64 \<Rightarrow> u32 \<Rightarrow> u64 \<Rightarrow> feedback_state \<Rightarrow> feedback_state option" where
  "linux_dmabuf_get_surface_feedback env y ws a ra client resource i surface_resource st = do {
     d \<leftarrow> linux_dmabuf_from_resource env y resource (fx_server st);
     (w, st1) \<leftarrow> get_wsurface ws surface_resource st;
     (su, st2) \<leftarrow> surface_get_or_create y a d w st1;
     if su = 0 then fx_with (wl_client_post_no_memory env client (fx_server st2)) st2
     else do {
       version \<leftarrow> wl_resource_get_version resource (fx_server st2);
       (r, s1) \<leftarrow> wl_resource_create env ra client (y_feedback_interface y) version i (fx_server st2);
       if r = 0 then fx_with (wl_client_post_no_memory env client s1) (st2\<lparr>fx_server := s1\<rparr>)
       else do {
         let st3 = st2\<lparr>fx_server := wl_resource_set_implementation r (y_feedback_impl y) 0 (y_feedback_destroy y) s1,
           fx_surface := (fx_surface st2)(su := map_option (\<lambda>x. x\<lparr>su_resources := r # su_resources x\<rparr>) (fx_surface st2 su))\<rparr>;
         co \<leftarrow> surface_get_feedback su st3;
         fx_with (feedback_send env co r (fx_server st3)) st3 } } }"

section \<open>Older clients\<close>

definition send_modifier :: "env \<Rightarrow> u64 \<Rightarrow> u32 \<Rightarrow> u64 \<Rightarrow> server \<Rightarrow> server option" where
  "send_modifier env r format m s =
     wl_resource_post_event env r DMABUF_V1_MODIFIER [W format, W (ucast (drop_bit 32 m)), W (ucast (m AND 0xffffffff))] s"

fun send_all_modifiers :: "env \<Rightarrow> u64 \<Rightarrow> u32 \<Rightarrow> u64 list \<Rightarrow> server \<Rightarrow> server option" where
  "send_all_modifiers env r format [] s = Some s"
| "send_all_modifiers env r format (m # ms) s = send_modifier env r format m s \<bind> send_all_modifiers env r format ms"

definition linux_dmabuf_send_modifiers :: "env \<Rightarrow> u64 \<Rightarrow> drm_format \<Rightarrow> server \<Rightarrow> server option" where
  "linux_dmabuf_send_modifiers env r fmt s = do {
     version \<leftarrow> wl_resource_get_version r s;
     if version < MODIFIER_SINCE_VERSION then
       (if drm_format_has fmt DRM_FORMAT_MOD_INVALID
        then wl_resource_post_event env r DMABUF_V1_FORMAT [W (f_format fmt)] s else Some s)
     else if length (f_modifiers fmt) = 2 \<and> drm_format_has fmt DRM_FORMAT_MOD_INVALID \<and> drm_format_has fmt DRM_FORMAT_MOD_LINEAR
     then send_modifier env r (f_format fmt) DRM_FORMAT_MOD_INVALID s
     else send_all_modifiers env r (f_format fmt) (f_modifiers fmt) s }"

fun linux_dmabuf_send_formats :: "env \<Rightarrow> u64 \<Rightarrow> drm_format list \<Rightarrow> server \<Rightarrow> server option" where
  "linux_dmabuf_send_formats env r [] s = Some s"
| "linux_dmabuf_send_formats env r (f # fs) s = linux_dmabuf_send_modifiers env r f s \<bind> linux_dmabuf_send_formats env r fs"

definition linux_dmabuf_bind ::
  "env \<Rightarrow> feedback_env \<Rightarrow> u64 \<Rightarrow> u64 \<Rightarrow> u64 \<Rightarrow> u32 \<Rightarrow> u32 \<Rightarrow> feedback_state \<Rightarrow> feedback_state option" where
  "linux_dmabuf_bind env y ra client d version i st = do {
     ld \<leftarrow> fx_dmabuf st d;
     (r, s1) \<leftarrow> wl_resource_create env ra client (y_dmabuf_interface y) (sint version) i (fx_server st);
     if r = 0 then fx_with (wl_client_post_no_memory env client s1) (st\<lparr>fx_server := s1\<rparr>)
     else
       let s2 = wl_resource_set_implementation r (y_dmabuf_impl y) d 0 s1 in
       if uint version < GET_DEFAULT_FEEDBACK_SINCE_VERSION
       then fx_with (linux_dmabuf_send_formats env r (fs_formats (ld_default_formats ld)) s2) st
       else Some (st\<lparr>fx_server := s2\<rparr>) }"

section \<open>Setting the default feedback\<close>

fun add_modifiers :: "u32 \<Rightarrow> u64 list \<Rightarrow> drm_format_set \<Rightarrow> os \<Rightarrow> (bool \<times> drm_format_set \<times> os) option" where
  "add_modifiers format [] fs w = Some (True, fs, w)"
| "add_modifiers format (m # ms) fs w = do {
     (ok, fs1, w1) \<leftarrow> drm_format_set_add fs format m w;
     if ok then add_modifiers format ms fs1 w1 else Some (False, fs1, w1) }"

fun add_formats :: "drm_format list \<Rightarrow> drm_format_set \<Rightarrow> os \<Rightarrow> (bool \<times> drm_format_set \<times> os) option" where
  "add_formats [] fs w = Some (True, fs, w)"
| "add_formats (f # fmts) fs w = do {
     (ok, fs1, w1) \<leftarrow> add_modifiers (f_format f) (f_modifiers f) fs w;
     if ok then add_formats fmts fs1 w1 else Some (False, fs1, w1) }"

fun add_tranches :: "tranche list \<Rightarrow> drm_format_set \<Rightarrow> os \<Rightarrow> (bool \<times> drm_format_set \<times> os) option" where
  "add_tranches [] fs w = Some (True, fs, w)"
| "add_tranches (t # ts) fs w = do {
     (ok, fs1, w1) \<leftarrow> add_formats (fs_formats (tr_formats t)) fs w;
     if ok then add_tranches ts fs1 w1 else Some (False, fs1, w1) }"

text \<open>
  \<open>nodes\<close> is the device that libdrm finds (\<open>None\<close>: an error): whether it has a render node and a
  primary node; \<open>main_fd\<close> is the result of opening the node.
\<close>

definition set_default_feedback ::
  "shm_calls \<Rightarrow> (bool \<times> bool) option \<Rightarrow> int \<Rightarrow> feedback \<Rightarrow> linux_dmabuf \<Rightarrow> os \<Rightarrow> (bool \<times> linux_dmabuf \<times> os) option" where
  "set_default_feedback sc nodes main_fd fb ld w = do {
     (co, w1) \<leftarrow> feedback_compile sc fb w;
     (case co of
        None \<Rightarrow> Some (False, ld, w1)
      | Some c \<Rightarrow>
          (case nodes of
             None \<Rightarrow> Some (False, ld, compiled_feedback_destroy (Some c) w1)
           | Some (render, primary) \<Rightarrow>
               if \<not> render \<and> \<not> primary then None
               else if main_fd < 0 then Some (False, ld, compiled_feedback_destroy (Some c) w1)
               else do {
                 (ok, formats, w2) \<leftarrow> add_tranches (fb_tranches fb) empty_set w1;
                 if \<not> ok then Some (False, ld, compiled_feedback_destroy (Some c) w2)
                 else
                   let w3 = compiled_feedback_destroy (ld_default_feedback ld) w2;
                       w4 = (if ld_main_device_fd ld \<ge> 0 then close_int (ld_main_device_fd ld) w3 else w3) in
                   Some (True, ld\<lparr>ld_default_feedback := Some c, ld_main_device_fd := main_fd, ld_default_formats := formats\<rparr>, w4) })) }"

section \<open>Creating and destroying the global\<close>

fun destroy_surfaces :: "u64 list \<Rightarrow> feedback_state \<Rightarrow> feedback_state option" where
  "destroy_surfaces [] st = Some st"
| "destroy_surfaces (a # as) st = surface_destroy a st \<bind> destroy_surfaces as"

text \<open>\<open>emit\<close> is what the listeners of the destroy signal do.\<close>

definition linux_dmabuf_v1_destroy ::
  "env \<Rightarrow> (feedback_state \<Rightarrow> feedback_state) \<Rightarrow> u64 \<Rightarrow> feedback_state \<Rightarrow> feedback_state option" where
  "linux_dmabuf_v1_destroy env emit d st = do {
     let st1 = emit st;
     ld \<leftarrow> fx_dmabuf st1 d;
     st2 \<leftarrow> destroy_surfaces (ld_surfaces ld) st1;
     ld2 \<leftarrow> fx_dmabuf st2 d;
     let st3 = fx_os (\<lambda>w. close_int (ld_main_device_fd ld2) (compiled_feedback_destroy (ld_default_feedback ld2) w)) st2;
     st4 \<leftarrow> fx_with (wl_global_destroy env (ld_global ld2) (fx_server st3)) st3;
     Some (st4\<lparr>fx_dmabuf := (fx_dmabuf st4)(d := None)\<rparr>) }"

definition handle_display_destroy ::
  "env \<Rightarrow> (feedback_state \<Rightarrow> feedback_state) \<Rightarrow> u64 \<Rightarrow> feedback_state \<Rightarrow> feedback_state option" where
  "handle_display_destroy env emit d st = linux_dmabuf_v1_destroy env emit d st"

text \<open>\<open>d\<close> and \<open>ga\<close> are the addresses of the new object and of its global; the result is \<open>d\<close> or 0.\<close>

definition wlr_linux_dmabuf_v1_create ::
  "env \<Rightarrow> feedback_env \<Rightarrow> shm_calls \<Rightarrow> (bool \<times> bool) option \<Rightarrow> int \<Rightarrow> u64 \<Rightarrow> u64 \<Rightarrow> int \<Rightarrow> feedback \<Rightarrow>
   feedback_state \<Rightarrow> (u64 \<times> feedback_state) option" where
  "wlr_linux_dmabuf_v1_create env y sc nodes main_fd d ga version fb st =
     (if version > LINUX_DMABUF_VERSION then None
      else if d = 0 then Some (0, st)
      else do {
        (g, s1) \<leftarrow> wl_global_create env ga (y_dmabuf_interface y) version d (y_bind y) (fx_server st);
        let st1 = st\<lparr>fx_server := s1\<rparr>;
        if g = 0 then Some (0, st1)
        else do {
          (ok, ld, w) \<leftarrow> set_default_feedback sc nodes main_fd fb
            \<lparr>ld_global = g, ld_default_feedback = None, ld_default_formats = empty_set, ld_surfaces = [], ld_main_device_fd = - 1\<rparr>
            (s_os s1);
          let st2 = fx_os (\<lambda>_. w) st1;
          if ok then Some (d, st2\<lparr>fx_dmabuf := (fx_dmabuf st2)(d := Some ld)\<rparr>)
          else do {
            st3 \<leftarrow> fx_with (wl_global_destroy env g (fx_server st2)) st2;
            Some (0, st3) } } })"

definition wlr_linux_dmabuf_v1_create_with_renderer ::
  "env \<Rightarrow> feedback_env \<Rightarrow> shm_calls \<Rightarrow> (bool \<times> bool) option \<Rightarrow> int \<Rightarrow> u64 \<Rightarrow> u64 \<Rightarrow> int \<Rightarrow>
   int \<times> u64 option \<times> drm_format_set option \<Rightarrow> feedback_state \<Rightarrow> (u64 \<times> feedback_state) option" where
  "wlr_linux_dmabuf_v1_create_with_renderer env y sc nodes main_fd d ga version renderer st =
     (case feedback_tranche_init_with_renderer (fst renderer) (fst (snd renderer)) (snd (snd renderer)) of
        None \<Rightarrow> Some (0, st)
      | Some t \<Rightarrow>
          wlr_linux_dmabuf_v1_create env y sc nodes main_fd d ga version \<lparr>fb_main_device = tr_device t, fb_tranches = [t]\<rparr> st)"

section \<open>Setting and replacing the default feedback\<close>

lemma malloc_closed: "sys_malloc w = (mem, w1) \<Longrightarrow> closed w1 = closed w"
  by (auto simp: sys_malloc_def split: list.splits)

lemma format_add_closed: "drm_format_add f m w = Some (r, f', w1) \<Longrightarrow> closed w1 = closed w"
  by (auto simp: drm_format_add_def Let_def split: if_splits prod.splits dest: malloc_closed)

lemma format_set_add_closed: "drm_format_set_add st x m w = Some (r, st1, w1) \<Longrightarrow> closed w1 = closed w"
  by (auto simp: drm_format_set_add_def drm_format_create_def Let_def bind_eq_Some_conv
      split: if_splits prod.splits option.splits dest!: format_add_closed malloc_closed)

lemma add_pairs_closed: "add_pairs ps st w = Some (r, st1, w1) \<Longrightarrow> closed w1 = closed w"
proof (induction ps arbitrary: st w)
  case (Cons p ps)
  obtain x m where p: "p = (x, m)" by fastforce
  with Cons.prems obtain r2 st2 w2 where a: "drm_format_set_add st x m w = Some (r2, st2, w2)"
    "(if r2 then add_pairs ps st2 w2 else Some (False, st2, w2)) = Some (r, st1, w1)" by (auto simp: bind_eq_Some_conv)
  with Cons.IH [of st2 w2] format_set_add_closed [OF a(1)] show ?case by (auto split: if_splits)
qed simp

lemma add_pairs_append:
  "add_pairs (ps @ qs) st w = add_pairs ps st w \<bind> (\<lambda>(r, st1, w1). if r then add_pairs qs st1 w1 else Some (False, st1, w1))"
proof (induction ps arbitrary: st w)
  case (Cons p ps)
  obtain x m where p: "p = (x, m)" by fastforce
  show ?case unfolding p by (cases "drm_format_set_add st x m w") (auto simp: Cons)
qed simp

text \<open>The three nested loops add the pairs of all tranches.\<close>

lemma add_modifiers_pairs: "add_modifiers x ms st w = add_pairs (map (Pair x) ms) st w"
  by (induction ms arbitrary: st w) (simp_all cong: if_cong)

lemma add_formats_pairs: "add_formats fs st w = add_pairs (pair_list fs) st w"
proof (induction fs arbitrary: st w)
  case (Cons f fs)
  then show ?case by (simp add: add_modifiers_pairs add_pairs_append cong: if_cong)
qed simp

lemma add_tranches_pairs: "add_tranches ts st w = add_pairs (concat (map (\<lambda>t. pair_list (fs_formats (tr_formats t))) ts)) st w"
proof (induction ts arbitrary: st w)
  case (Cons t ts)
  then show ?case by (simp add: add_formats_pairs add_pairs_append cong: if_cong)
qed simp

lemma add_tranches_spec:
  "\<exists>ok st w'. add_tranches ts empty_set w = Some (ok, st, w') \<and> set_ok st \<and> closed w' = closed w \<and>
     (ok \<longrightarrow> set_pairs st = (\<Union>t \<in> set ts. set_pairs (tr_formats t))) \<and> (alloc_script w = [] \<longrightarrow> ok)"
proof -
  let ?ps = "concat (map (\<lambda>t. pair_list (fs_formats (tr_formats t))) ts)"
  have e: "set_ok empty_set" "set_pairs empty_set = {}" by (simp_all add: set_ok_def empty_set_def set_pairs_def)
  obtain r st w' where a: "add_pairs ?ps empty_set w = Some (r, st, w')" "set_ok st" "r \<longrightarrow> set_pairs st = set ?ps"
    "alloc_script w = [] \<longrightarrow> r"
    using pair_set.add_list_elems [OF e(1), of ?ps w] e(2) unfolding add_pairs_list by auto
  have "set ?ps = (\<Union>t \<in> set ts. set_pairs (tr_formats t))" by (simp add: set_pair_list set_pairs_def)
  with a add_pairs_closed [OF a(1)] show ?thesis unfolding add_tranches_pairs by auto
qed

definition table_fd :: "compiled option \<Rightarrow> fd list" where
  "table_fd co = (case co of None \<Rightarrow> [] | Some c \<Rightarrow> [of_int (co_table_fd c)])"

lemma destroy_closed: "closed (compiled_feedback_destroy co w) = closed w @ table_fd co"
  by (simp add: compiled_feedback_destroy_def table_fd_def close_int_def sys_close_def split: option.splits)

text \<open>Once the feedback is compiled and the device is open, setting it as the default either succeeds,
  closing the old table and the old device and advertising exactly the pairs of all its tranches, or,
  when memory runs out, keeps the old feedback; then only the new table is closed, and the descriptor
  of the device just opened is neither kept nor closed.\<close>

lemma default_feedback_replaced:
  assumes c: "feedback_compile sc fb w = Some (Some c, w1)" and d: "0 \<le> main_fd"
  shows "\<exists>ok ld' w'. set_default_feedback sc (Some (True, primary)) main_fd fb ld w = Some (ok, ld', w') \<and>
    (if ok then ld_default_feedback ld' = Some c \<and> ld_main_device_fd ld' = main_fd \<and> ld_surfaces ld' = ld_surfaces ld \<and>
         set_pairs (ld_default_formats ld') = (\<Union>t \<in> set (fb_tranches fb). set_pairs (tr_formats t)) \<and>
         closed w' = closed w1 @ table_fd (ld_default_feedback ld) @
           (if 0 \<le> ld_main_device_fd ld then [of_int (ld_main_device_fd ld)] else [])
     else ld' = ld \<and> closed w' = closed w1 @ [of_int (co_table_fd c)]) \<and>
    (alloc_script w1 = [] \<longrightarrow> ok)"
proof -
  obtain ok fs w2 where a: "add_tranches (fb_tranches fb) empty_set w1 = Some (ok, fs, w2)" "closed w2 = closed w1"
    "ok \<longrightarrow> set_pairs fs = (\<Union>t \<in> set (fb_tranches fb). set_pairs (tr_formats t))" "alloc_script w1 = [] \<longrightarrow> ok"
    using add_tranches_spec [of "fb_tranches fb" w1] by blast
  show ?thesis
  proof (cases ok)
    case True
    with a c d have "\<exists>w'. set_default_feedback sc (Some (True, primary)) main_fd fb ld w =
        Some (True, ld\<lparr>ld_default_feedback := Some c, ld_main_device_fd := main_fd, ld_default_formats := fs\<rparr>, w') \<and>
        closed w' = closed w1 @ table_fd (ld_default_feedback ld) @ (if 0 \<le> ld_main_device_fd ld then [of_int (ld_main_device_fd ld)] else [])"
      by (simp add: set_default_feedback_def Let_def destroy_closed close_int_def sys_close_def)
    with True a show ?thesis by (intro exI [of _ True]) auto
  next
    case False
    with a c d have "\<exists>w'. set_default_feedback sc (Some (True, primary)) main_fd fb ld w = Some (False, ld, w') \<and>
        closed w' = closed w1 @ [of_int (co_table_fd c)]"
      by (simp add: set_default_feedback_def destroy_closed table_fd_def)
    with False a show ?thesis by (intro exI [of _ False]) auto
  qed
qed

lemma default_feedback_replaced_witness:
  "\<exists>w1 c ld' w'. feedback_compile sample_calls \<lparr>fb_main_device = 1, fb_tranches = [sample_tranche [5, 9]]\<rparr>
       (os_init\<lparr>alloc_script := [True, True, False]\<rparr>) = Some (Some c, w1) \<and>
     set_default_feedback sample_calls (Some (True, True)) 12 \<lparr>fb_main_device = 1, fb_tranches = [sample_tranche [5, 9]]\<rparr>
       \<lparr>ld_global = 64, ld_default_feedback = None, ld_default_formats = empty_set, ld_surfaces = [], ld_main_device_fd = - 1\<rparr>
       (os_init\<lparr>alloc_script := [True, True, False]\<rparr>) = Some (False, ld', w') \<and> closed w' = [10, 11]"
proof -
  let ?fb = "\<lparr>fb_main_device = 1, fb_tranches = [sample_tranche [5, 9]]\<rparr>" and ?w = "os_init\<lparr>alloc_script := [True, True, False]\<rparr>"
  let ?ld = "\<lparr>ld_global = 64, ld_default_feedback = None, ld_default_formats = empty_set, ld_surfaces = [], ld_main_device_fd = - 1\<rparr>"
  have n: "table_len (tr_formats (sample_tranche [5, 9])) = 2" by (simp add: sample_tranche_def table_len_def)
  have t: "fill_table 2 (fs_formats (tr_formats (sample_tranche [5, 9]))) [] = Some [(1, 5), (1, 9)]"
    using fill_table_eq [of "[]" "fs_formats (tr_formats (sample_tranche [5, 9]))" 2] by (simp add: sample_tranche_def)
  have m: "sys_malloc (close_int 10 ?w) = (True, os_init\<lparr>alloc_script := [True, False], closed := [10]\<rparr>)"
    "sys_malloc (os_init\<lparr>alloc_script := [True, False], closed := [10]\<rparr>) = (True, os_init\<lparr>alloc_script := [False], closed := [10]\<rparr>)"
    by (simp_all add: sys_malloc_def close_int_def sys_close_def os_init_def)
  have q: "compile_tranches k fs [] w = Some (Some [], w)" for k fs w by simp
  let ?c = "\<lparr>co_main_device = 1, co_table_fd = 11, co_table = [(1, 5), (1, 9)], co_table_size = 32,
    co_tranches = [\<lparr>ct_device = tr_device (sample_tranche [5, 9]), ct_flags = tr_flags (sample_tranche [5, 9]), ct_indices = map of_nat [0..<2]\<rparr>]\<rparr>"
  let ?w1 = "os_init\<lparr>alloc_script := [False], closed := [10]\<rparr>"
  have mm: "sc_mmap sample_calls" by (simp add: sample_calls_def)
  have "feedback_compile sample_calls ?fb ?w = Some (Some ?c, ?w1)"
    unfolding feedback_compile_def Let_def by (simp add: n t m q mm sample_allocate cong: if_cong)
  then obtain c w1 where c: "feedback_compile sample_calls ?fb ?w = Some (Some c, w1)" "co_table_fd c = 11" "closed w1 = [10]"
    "alloc_script w1 = [False]"
    by force
  obtain ok ld' w' where r: "set_default_feedback sample_calls (Some (True, True)) 12 ?fb ?ld ?w = Some (ok, ld', w')"
    "\<not> ok \<longrightarrow> closed w' = closed w1 @ [of_int (co_table_fd c)]"
    using default_feedback_replaced [OF c(1), of 12 True ?ld] by fastforce
  have "drm_format_set_add empty_set 1 5 w1 = Some (False, empty_set, snd (sys_malloc w1))"
    using c(4) by (simp add: drm_format_set_add_def format_set_get_ref_def empty_set_def drm_format_create_def sys_malloc_def)
  then have "add_tranches [sample_tranche [5, 9]] empty_set w1 = Some (False, empty_set, snd (sys_malloc w1))"
    by (simp add: sample_tranche_def)
  then have "\<not> ok" using r(1) c(1) by (auto simp: set_default_feedback_def bind_eq_Some_conv split: if_splits)
  with r c show ?thesis by auto
qed

section \<open>Surfaces\<close>

text \<open>A surface is created once for each global and client surface.\<close>

lemma surface_found_again:
  assumes "surface_get_or_create y a d ws st = Some (su, st')" "su \<noteq> 0"
  shows "surface_get_or_create y b d ws st' = Some (su, st')"
proof -
  obtain xs where xs: "fx_wsurface st ws = Some xs" using assms(1) by (auto simp: surface_get_or_create_def bind_eq_Some_conv)
  show ?thesis
  proof (cases "addon_find (fx_addon st) xs d (y_surface_addon_impl y) = 0")
    case False
    then show ?thesis using assms xs by (auto simp: surface_get_or_create_def)
  next
    case True
    then obtain ad xs1 where i: "addon_init a d (y_surface_addon_impl y) (fx_addon st, xs) = Some (ad, xs1)"
      "su = a" "fx_addon st' = ad" "fx_wsurface st' ws = Some xs1"
      using assms xs by (auto simp: surface_get_or_create_def bind_eq_Some_conv split: if_splits)
    from i(1) have "addon_find ad xs1 d (y_surface_addon_impl y) = a"
      by (auto simp: addon_init_def Let_def split: if_splits)
    with i assms(2) show ?thesis by (simp add: surface_get_or_create_def)
  qed
qed

end
