(* ===== verification/Drm.thy ===== *)
theory Drm
  imports Feedback
begin

text \<open>
  The stub of Mesa's wl_drm protocol in wlr_drm.c: buffers made of one DMA-BUF descriptor, the two
  requests that are refused, the announcement of the device and its formats, and the global.
  \<open>None\<close> is a failed assertion or the use of a freed object.
\<close>

section \<open>State\<close>

record wlr_drm_buffer =
  du_resource :: u64
  du_dmabuf :: dmabuf_attributes
  du_width :: int
  du_height :: int
  du_dropped :: bool

record wlr_drm =
  dg_global :: u64
  dg_node_name :: string
  dg_formats :: drm_format_set

record drm_state =
  dr_server :: server
  dr_buffer :: "u64 \<Rightarrow> wlr_drm_buffer option"
  dr_drm :: "u64 \<Rightarrow> wlr_drm option"

text \<open>The addresses of interfaces, implementations and functions.\<close>

record drm_env =
  q_wl_buffer_interface :: u64
  q_drm_interface :: u64
  q_buffer_impl :: u64
  q_drm_impl :: u64
  q_buffer_destroy :: u64
  q_bind :: u64

definition WLR_DRM_VERSION :: int where "WLR_DRM_VERSION = 2"
definition WL_DRM_ERROR_INVALID_NAME :: u32 where "WL_DRM_ERROR_INVALID_NAME = 2"
definition WL_DRM_CAPABILITY_PRIME :: u32 where "WL_DRM_CAPABILITY_PRIME = 1"
definition WL_DRM_DEVICE :: u32 where "WL_DRM_DEVICE = 0"
definition WL_DRM_FORMAT :: u32 where "WL_DRM_FORMAT = 1"
definition WL_DRM_AUTHENTICATED :: u32 where "WL_DRM_AUTHENTICATED = 2"
definition WL_DRM_CAPABILITIES :: u32 where "WL_DRM_CAPABILITIES = 3"

definition dr_with :: "server option \<Rightarrow> drm_state \<Rightarrow> drm_state option" where
  "dr_with so st = map_option (\<lambda>s. st\<lparr>dr_server := s\<rparr>) so"

definition dr_os :: "(os \<Rightarrow> os) \<Rightarrow> drm_state \<Rightarrow> drm_state" where
  "dr_os f st = st\<lparr>dr_server := (dr_server st)\<lparr>s_os := f (s_os (dr_server st))\<rparr>\<rparr>"

section \<open>Buffers\<close>

definition drm_buffer_handle_destroy :: "env \<Rightarrow> u64 \<Rightarrow> drm_state \<Rightarrow> drm_state option" where
  "drm_buffer_handle_destroy env resource st = dr_with (wl_resource_destroy env resource (dr_server st)) st"

definition drm_buffer_destroy :: "u64 \<Rightarrow> drm_state \<Rightarrow> drm_state option" where
  "drm_buffer_destroy b st = do {
     buffer \<leftarrow> dr_buffer st b;
     let st1 = (if du_resource buffer \<noteq> 0
                then st\<lparr>dr_server := wl_resource_set_user_data (du_resource buffer) 0 (dr_server st)\<rparr> else st);
     let st2 = dr_os (\<lambda>w. snd (dmabuf_attributes_finish (du_dmabuf buffer) w)) st1;
     Some (st2\<lparr>dr_buffer := (dr_buffer st2)(b := None)\<rparr>) }"

definition drm_buffer_get_dmabuf :: "u64 \<Rightarrow> drm_state \<Rightarrow> dmabuf_attributes option" where
  "drm_buffer_get_dmabuf b st = map_option du_dmabuf (dr_buffer st b)"

definition wlr_drm_buffer_is_resource :: "env \<Rightarrow> drm_env \<Rightarrow> u64 \<Rightarrow> drm_state \<Rightarrow> bool option" where
  "wlr_drm_buffer_is_resource env q resource st =
     wl_resource_instance_of env resource (q_wl_buffer_interface q) (q_buffer_impl q) (dr_server st)"

definition wlr_drm_buffer_from_resource :: "env \<Rightarrow> drm_env \<Rightarrow> u64 \<Rightarrow> drm_state \<Rightarrow> u64 option" where
  "wlr_drm_buffer_from_resource env q resource st = do {
     is_buffer \<leftarrow> wlr_drm_buffer_is_resource env q resource st;
     if is_buffer then wl_resource_get_user_data resource (dr_server st) else None }"

text \<open>\<open>westfield_buffer_drop\<close> on the base of the buffer; \<open>emit\<close> is what the listeners of its destroy signal do.\<close>

definition drop_drm_buffer :: "(drm_state \<Rightarrow> drm_state) \<Rightarrow> u64 \<Rightarrow> drm_state \<Rightarrow> drm_state option" where
  "drop_drm_buffer emit b st = do {
     buffer \<leftarrow> dr_buffer st b;
     if du_dropped buffer then None
     else drm_buffer_destroy b (emit (st\<lparr>dr_buffer := (dr_buffer st)(b \<mapsto> buffer\<lparr>du_dropped := True\<rparr>)\<rparr>)) }"

definition drm_buffer_handle_resource_destroy ::
  "env \<Rightarrow> drm_env \<Rightarrow> (drm_state \<Rightarrow> drm_state) \<Rightarrow> u64 \<Rightarrow> drm_state \<Rightarrow> drm_state option" where
  "drm_buffer_handle_resource_destroy env q emit resource st = do {
     b \<leftarrow> wlr_drm_buffer_from_resource env q resource st;
     buffer \<leftarrow> dr_buffer st b;
     drop_drm_buffer emit b (st\<lparr>dr_buffer := (dr_buffer st)(b \<mapsto> buffer\<lparr>du_resource := 0\<rparr>)\<rparr>) }"

definition drm_buffer_handle_release :: "env \<Rightarrow> u64 \<Rightarrow> drm_state \<Rightarrow> drm_state option" where
  "drm_buffer_handle_release env b st = do {
     buffer \<leftarrow> dr_buffer st b;
     if du_resource buffer \<noteq> 0
     then dr_with (wl_resource_post_event env (du_resource buffer) WL_BUFFER_RELEASE [] (dr_server st)) st
     else Some st }"

section \<open>Requests\<close>

definition drm_handle_authenticate :: "env \<Rightarrow> u64 \<Rightarrow> drm_state \<Rightarrow> drm_state option" where
  "drm_handle_authenticate env resource st =
     dr_with (wl_resource_post_event env resource WL_DRM_AUTHENTICATED [] (dr_server st)) st"

definition drm_handle_create_buffer :: "env \<Rightarrow> u64 \<Rightarrow> drm_state \<Rightarrow> drm_state option" where
  "drm_handle_create_buffer env resource st =
     dr_with (wl_resource_post_error env resource WL_DRM_ERROR_INVALID_NAME
       ''Flink handles are not supported, use DMA-BUF instead'' (dr_server st)) st"

definition drm_handle_create_planar_buffer :: "env \<Rightarrow> u64 \<Rightarrow> drm_state \<Rightarrow> drm_state option" where
  "drm_handle_create_planar_buffer env resource st =
     dr_with (wl_resource_post_error env resource WL_DRM_ERROR_INVALID_NAME
       ''Flink handles are not supported, use DMA-BUF instead'' (dr_server st)) st"

text \<open>The initializer sets the first plane only; the other elements are 0.\<close>

definition prime_attributes :: "int \<Rightarrow> int \<Rightarrow> int \<Rightarrow> u32 \<Rightarrow> u32 \<Rightarrow> u32 \<Rightarrow> dmabuf_attributes" where
  "prime_attributes fd width height format offset0 stride0 =
     \<lparr>da_width = width, da_height = height, da_format = format, da_modifier = DRM_FORMAT_MOD_INVALID, da_n_planes = 1,
      da_offset = [offset0, 0, 0, 0], da_stride = [stride0, 0, 0, 0], da_fd = [fd, 0, 0, 0]\<rparr>"

text \<open>\<open>b\<close> and \<open>ra\<close> are the addresses \<open>calloc\<close> and \<open>malloc\<close> return for the buffer and its resource.\<close>

definition drm_handle_create_prime_buffer ::
  "env \<Rightarrow> drm_env \<Rightarrow> u64 \<Rightarrow> u64 \<Rightarrow> u64 \<Rightarrow> u64 \<Rightarrow> u32 \<Rightarrow> int \<Rightarrow> int \<Rightarrow> int \<Rightarrow> u32 \<Rightarrow> u32 \<Rightarrow> u32 \<Rightarrow> drm_state \<Rightarrow> drm_state option" where
  "drm_handle_create_prime_buffer env q b ra client resource i fd width height format offset0 stride0 st =
     (if b = 0 then
        let st1 = dr_os (sys_close (of_int fd)) st in
        dr_with (wl_resource_post_no_memory env resource (dr_server st1)) st1
      else do {
        (r, s1) \<leftarrow> wl_resource_create env ra client (q_wl_buffer_interface q) 1 i (dr_server st);
        let st1 = st\<lparr>dr_server := s1\<rparr>;
        if r = 0 then
          let st2 = dr_os (sys_close (of_int fd)) st1 in
          dr_with (wl_resource_post_no_memory env resource (dr_server st2)) st2
        else
          Some (st1\<lparr>dr_server := wl_resource_set_implementation r (q_buffer_impl q) b (q_buffer_destroy q) s1,
            dr_buffer := (dr_buffer st1)(b \<mapsto> \<lparr>du_resource = r,
              du_dmabuf = prime_attributes fd width height format offset0 stride0,
              du_width = width, du_height = height, du_dropped = False\<rparr>)\<rparr>) })"

section \<open>The global\<close>

fun send_drm_formats :: "env \<Rightarrow> u64 \<Rightarrow> drm_format list \<Rightarrow> server \<Rightarrow> server option" where
  "send_drm_formats env r [] s = Some s"
| "send_drm_formats env r (f # fs) s =
     (if drm_format_has f DRM_FORMAT_MOD_INVALID
      then wl_resource_post_event env r WL_DRM_FORMAT [W (f_format f)] s \<bind> send_drm_formats env r fs
      else send_drm_formats env r fs s)"

definition drm_bind :: "env \<Rightarrow> drm_env \<Rightarrow> u64 \<Rightarrow> u64 \<Rightarrow> u64 \<Rightarrow> u32 \<Rightarrow> u32 \<Rightarrow> drm_state \<Rightarrow> drm_state option" where
  "drm_bind env q ra client data version i st = do {
     drm \<leftarrow> dr_drm st data;
     (r, s1) \<leftarrow> wl_resource_create env ra client (q_drm_interface q) (sint version) i (dr_server st);
     if r = 0 then dr_with (wl_client_post_no_memory env client s1) (st\<lparr>dr_server := s1\<rparr>)
     else do {
       let s2 = wl_resource_set_implementation r (q_drm_impl q) data 0 s1;
       s3 \<leftarrow> wl_resource_post_event env r WL_DRM_DEVICE [str_arg (dg_node_name drm)] s2;
       s4 \<leftarrow> wl_resource_post_event env r WL_DRM_CAPABILITIES [W WL_DRM_CAPABILITY_PRIME] s3;
       dr_with (send_drm_formats env r (fs_formats (dg_formats drm)) s4) st } }"

definition drm_destroy :: "env \<Rightarrow> (drm_state \<Rightarrow> drm_state) \<Rightarrow> u64 \<Rightarrow> drm_state \<Rightarrow> drm_state option" where
  "drm_destroy env emit d st = do {
     let st1 = emit st;
     drm \<leftarrow> dr_drm st1 d;
     st2 \<leftarrow> dr_with (wl_global_destroy env (dg_global drm) (dr_server st1)) st1;
     Some (st2\<lparr>dr_drm := (dr_drm st2)(d := None)\<rparr>) }"

definition drm_handle_display_destroy :: "env \<Rightarrow> (drm_state \<Rightarrow> drm_state) \<Rightarrow> u64 \<Rightarrow> drm_state \<Rightarrow> drm_state option" where
  "drm_handle_display_destroy env emit d st = drm_destroy env emit d st"

text \<open>
  \<open>drm_fd\<close> and \<open>formats\<close> are what the renderer tells, \<open>nodes\<close> the render node and the primary node of
  the device, if libdrm finds it; \<open>dup_ok\<close> is the outcome of \<open>strdup\<close>, \<open>d\<close> and \<open>ga\<close> are the addresses of
  the new objects.
\<close>

definition wlr_drm_create ::
  "env \<Rightarrow> drm_env \<Rightarrow> int \<Rightarrow> (string option \<times> string option) option \<Rightarrow> bool \<Rightarrow> u64 \<Rightarrow> drm_format_set option \<Rightarrow> u64 \<Rightarrow> drm_state \<Rightarrow>
   (u64 \<times> drm_state) option" where
  "wlr_drm_create env q drm_fd nodes dup_ok d formats ga st =
     (if drm_fd < 0 then Some (0, st)
      else (case nodes of
          None \<Rightarrow> Some (0, st)
        | Some (render, primary) \<Rightarrow>
            (case (case render of Some n \<Rightarrow> Some n | None \<Rightarrow> primary) of
               None \<Rightarrow> None
             | Some name \<Rightarrow>
                 if \<not> dup_ok \<or> d = 0 then Some (0, st)
                 else (case formats of
                     None \<Rightarrow> Some (0, st)
                   | Some fs \<Rightarrow> do {
                       (ok, copy, w) \<leftarrow> drm_format_set_copy empty_set fs (s_os (dr_server st));
                       let st1 = dr_os (\<lambda>_. w) st;
                       if \<not> ok then Some (0, st1)
                       else do {
                         (g, s2) \<leftarrow> wl_global_create env ga (q_drm_interface q) WLR_DRM_VERSION d (q_bind q) (dr_server st1);
                         let st2 = st1\<lparr>dr_server := s2\<rparr>;
                         if g = 0 then Some (0, st2)
                         else Some (d, st2\<lparr>dr_drm := (dr_drm st2)(d \<mapsto>
                           \<lparr>dg_global = g, dg_node_name = name, dg_formats = copy\<rparr>)\<rparr>) } }))))"

section \<open>The life of a buffer\<close>

lemma create_prime:
  assumes q: "quiet_env env" and cl: "s_client (dr_server st) client = Some cl" and ok: "map_ok (c_objects cl)" "id_usable (c_objects cl) i"
    and ra: "ra \<noteq> 0" "ptr_aligned ra" and b: "b \<noteq> 0" and mem: "alloc_script (s_os (dr_server st)) = []"
  shows "\<exists>st' m. drm_handle_create_prime_buffer env q b ra client resource i fd width height format offset0 stride0 st = Some st' \<and>
    dr_buffer st' = (dr_buffer st)(b \<mapsto> \<lparr>du_resource = ra, du_dmabuf = prime_attributes fd width height format offset0 stride0,
      du_width = width, du_height = height, du_dropped = False\<rparr>) \<and>
    s_client (dr_server st') client = Some (cl\<lparr>c_objects := m\<rparr>) \<and> wl_map_lookup m i = ra \<and>
    closed (s_os (dr_server st')) = closed (s_os (dr_server st)) \<and>
    (\<exists>res. s_res (dr_server st') ra = Some res \<and> r_data res = b \<and> interface (r_object res) = q_wl_buffer_interface q \<and>
      implementation (r_object res) = q_buffer_impl q)"
proof -
  obtain m s1 where s1: "wl_resource_create env ra client (q_wl_buffer_interface q) 1 i (dr_server st) = Some (ra, s1)"
    "sets_entry (c_objects cl) i ra 0 m" "s_client s1 = (s_client (dr_server st))(client \<mapsto> cl\<lparr>c_objects := m\<rparr>)"
    "s_os s1 = s_os (dr_server st)"
    "s_res s1 = (s_res (dr_server st))(ra \<mapsto> \<lparr>r_object = \<lparr>interface = q_wl_buffer_interface q, implementation = 0, object_id = i\<rparr>,
        r_client = client, r_data = 0, r_version = 1, r_dispatcher = 0, r_destroy = 0\<rparr>)"
    using create_spec [OF q cl ok(1) ra ok(2) mem] .
  have "wl_map_lookup m i = ra" using s1(2) by (simp add: sets_entry_def lookup_view)
  then show ?thesis using s1 b ra(1)
    by (simp add: drm_handle_create_prime_buffer_def wl_resource_set_implementation_def upd_res_def) (rule exI [of _ m], simp)
qed


definition drm_sample_env :: drm_env where
  "drm_sample_env = \<lparr>q_wl_buffer_interface = 6, q_drm_interface = 7, q_buffer_impl = 80, q_drm_impl = 81, q_buffer_destroy = 82, q_bind = 83\<rparr>"

lemma dm_usable_3: "id_usable (c_objects dm_client) 3"
  by (simp add: dm_client_def sample_client_def id_usable_def id_index_def id_entries_def WL_SERVER_ID_START_def
      max_entries_def free_ids_def own_entries_def WL_MAP_CLIENT_SIDE_def)


text \<open>Only the formats that the device can share with an implicit modifier are announced.\<close>

lemma send_drm_formats_filter:
  "send_drm_formats env r fs s =
     fold (\<lambda>f so. so \<bind> wl_resource_post_event env r WL_DRM_FORMAT [W (f_format f)])
       (filter (\<lambda>f. drm_format_has f DRM_FORMAT_MOD_INVALID) fs) (Some s)"
proof -
  have n: "fold (\<lambda>f so. so \<bind> g f) xs None = None" for g :: "drm_format \<Rightarrow> server \<Rightarrow> server option" and xs
    by (induction xs) auto
  show ?thesis
  proof (induction fs arbitrary: s)
    case (Cons f fs)
    then show ?case using n by (cases "wl_resource_post_event env r WL_DRM_FORMAT [W (f_format f)] s") auto
  qed simp
qed

end
