(* ===== verification/Egl.thy ===== *)
theory Egl
  imports Feedback
begin

text \<open>
  The renderer's view of a DRM device, westfield-egl.c: looking up extensions, finding the device and
  its nodes, the DMA-BUF formats and modifiers the driver can sample and render, the creation of the
  context with all its error paths, and the attribute list of an image made from a DMA-BUF.  What EGL,
  GBM and libdrm answer is a record; a call through a function pointer that was not loaded, a write
  outside an array and a failed assertion are \<open>None\<close>.
\<close>

section \<open>Extensions\<close>

function check_egl_ext :: "string \<Rightarrow> string \<Rightarrow> bool" where
  "check_egl_ext exts ext =
     (if exts = [] then False
      else if hd exts = CHR '' '' then check_egl_ext (tl exts) ext
      else
        let n = length (takeWhile (\<lambda>c. c \<noteq> CHR '' '') exts) in
        if n = length ext \<and> take n exts = ext then True else check_egl_ext (drop n exts) ext)"
  by pat_completeness auto
termination
proof (relation "measure (\<lambda>(exts, ext). length exts)", goal_cases)
  case (3 exts ext n)
  then show ?case by (cases exts) (auto split: if_splits)
qed auto

declare check_egl_ext.simps [simp del]

section \<open>Devices\<close>

text \<open>The names of the nodes of a DRM device, in the order of their types; \<open>None\<close>: not available.\<close>

type_synonym drm_device = "string option list"

definition DRM_NODE_PRIMARY :: nat where "DRM_NODE_PRIMARY = 0"
definition DRM_NODE_RENDER :: nat where "DRM_NODE_RENDER = 2"

fun device_has_name :: "drm_device \<Rightarrow> string \<Rightarrow> bool" where
  "device_has_name [] name = False"
| "device_has_name (None # ns) name = device_has_name ns name"
| "device_has_name (Some n # ns) name = (if n = name then True else device_has_name ns name)"

fun find_device :: "drm_device list \<Rightarrow> string \<Rightarrow> drm_device option" where
  "find_device [] name = None"
| "find_device (d # ds) name = (if device_has_name d name then Some d else find_device ds name)"

text \<open>\<open>devices\<close> is the answer of \<open>drmGetDevices2\<close>, to both queries; the inner result is \<open>None\<close> for \<open>NULL\<close>.\<close>

definition get_render_name :: "drm_device list option \<Rightarrow> string \<Rightarrow> os \<Rightarrow> (string option \<times> os) option" where
  "get_render_name devices name w =
     (case devices of
        None \<Rightarrow> Some (None, w)
      | Some ds \<Rightarrow>
          (case sys_malloc w of (mem, w1) \<Rightarrow>
             if \<not> mem then Some (None, w1)
             else (case find_device ds name of
                 None \<Rightarrow> Some (None, w1)
               | Some match \<Rightarrow>
                   (case match ! DRM_NODE_RENDER of
                      Some r \<Rightarrow> (case sys_malloc w1 of (mem, w2) \<Rightarrow> Some (if mem then Some r else None, w2))
                    | None \<Rightarrow>
                        (case match ! DRM_NODE_PRIMARY of
                           None \<Rightarrow> None
                         | Some p \<Rightarrow> (case sys_malloc w1 of (mem, w2) \<Rightarrow> Some (if mem then Some p else None, w2)))))))"

section \<open>The state and the driver\<close>

record westfield_egl =
  we_drm_fd :: int
  we_gbm_fd :: "int option"
  we_display :: bool
  we_context :: bool
  we_device :: "nat option"
  we_KHR_image_base :: bool
  we_dma_buf_import :: bool
  we_dma_buf_import_modifiers :: bool
  we_context_priority :: bool
  we_device_drm :: bool
  we_device_drm_render_node :: bool
  we_device_query :: bool
  we_platform_gbm :: bool
  we_platform_device :: bool
  we_procs :: "string \<Rightarrow> bool"
  we_has_modifiers :: bool
  we_texture_formats :: drm_format_set
  we_render_formats :: drm_format_set

text \<open>
  An attribute list is an array of names and values; \<open>put_attribs\<close> writes them one after the other and
  is \<open>None\<close> when one would lie outside the array.
\<close>

datatype attrib = Name string | Value u32

fun put_attribs :: "nat \<Rightarrow> attrib list \<Rightarrow> attrib list \<Rightarrow> attrib list option" where
  "put_attribs cap [] as = Some as"
| "put_attribs cap (x # xs) as = (if length as < cap then put_attribs cap xs (as @ [x]) else None)"

text \<open>
  What the libraries answer.  \<open>gl_devices\<close> are the EGL devices with the string that names their render
  node and their device file; \<open>gl_nodes\<close> the nodes of the DRM device of a descriptor.  A query of
  formats or modifiers is made twice, for the number and for the elements, and either may fail;
  a modifier comes with the flag that it is for external textures only.
\<close>

record driver =
  gl_procs :: "string \<Rightarrow> bool"
  gl_client_exts :: "string option"
  gl_bind_api :: bool
  gl_device_queries :: "bool \<times> bool"
  gl_devices :: "(string option \<times> string option) list"
  gl_device :: "drm_device option"
  gl_all_devices :: "drm_device list option"
  gl_platform_display :: bool
  gl_initialize :: bool
  gl_display_exts :: "string option"
  gl_display_device :: "nat option"
  gl_device_exts :: "string option"
  gl_allow_software :: "string option"
  gl_formats_num :: "nat option"
  gl_formats :: "u32 list option"
  gl_modifiers_num :: "u32 \<Rightarrow> nat option"
  gl_modifiers :: "u32 \<Rightarrow> (u64 \<times> bool) list option"
  gl_context :: "attrib list \<Rightarrow> bool"
  gl_render_name :: bool
  gl_primary_name :: bool
  gl_open :: int
  gl_gbm :: bool
  gl_image :: "attrib list \<Rightarrow> bool"

text \<open>\<open>EGL_DRM_RENDER_NODE_FILE_EXT\<close> is used when the headers define \<open>EGL_EXT_device_drm_render_node\<close>.\<close>

fun match_device ::
  "bool \<Rightarrow> driver \<Rightarrow> drm_device \<Rightarrow> nat \<Rightarrow> (string option \<times> string option) list \<Rightarrow> os \<Rightarrow> (nat option \<times> os) option" where
  "match_device have_render dr device i [] w = Some (None, w)"
| "match_device have_render dr device i ((render, primary) # ds) w =
     (if have_render then
        (case render of
           None \<Rightarrow> match_device have_render dr device (i + 1) ds w
         | Some name \<Rightarrow>
             if device_has_name device name then Some (Some i, w) else match_device have_render dr device (i + 1) ds w)
      else
        (case primary of
           None \<Rightarrow> match_device have_render dr device (i + 1) ds w
         | Some p \<Rightarrow> do {
             (name, w1) \<leftarrow> get_render_name (gl_all_devices dr) p w;
             (case name of
                None \<Rightarrow> match_device have_render dr device (i + 1) ds w1
              | Some n \<Rightarrow>
                  if device_has_name device n then Some (Some i, w1)
                  else match_device have_render dr device (i + 1) ds w1) }))"

definition get_egl_device_from_drm_fd :: "bool \<Rightarrow> driver \<Rightarrow> westfield_egl \<Rightarrow> os \<Rightarrow> (nat option \<times> os) option" where
  "get_egl_device_from_drm_fd have_render dr we w =
     (if \<not> we_procs we ''eglQueryDevicesEXT'' then Some (None, w)
      else if \<not> fst (gl_device_queries dr) then Some (None, w)
      else (case sys_malloc w of (mem, w1) \<Rightarrow>
        if \<not> mem \<or> \<not> snd (gl_device_queries dr) then Some (None, w1)
        else (case gl_device dr of
            None \<Rightarrow> Some (None, w1)
          | Some device \<Rightarrow>
              if gl_devices dr \<noteq> [] \<and> \<not> we_procs we ''eglQueryDeviceStringEXT'' then None
              else match_device have_render dr device 0 (gl_devices dr) w1)))"

section \<open>Formats\<close>

text \<open>The result is -1 (\<open>None\<close>) or the modifiers with their flags.\<close>

definition get_egl_dmabuf_modifiers ::
  "driver \<Rightarrow> westfield_egl \<Rightarrow> u32 \<Rightarrow> os \<Rightarrow> ((u64 \<times> bool) list option \<times> os) option" where
  "get_egl_dmabuf_modifiers dr we format w =
     (if \<not> we_dma_buf_import we then Some (None, w)
      else if \<not> we_dma_buf_import_modifiers we then Some (Some [], w)
      else if \<not> we_procs we ''eglQueryDmaBufModifiersEXT'' then None
      else (case gl_modifiers_num dr format of
          None \<Rightarrow> Some (None, w)
        | Some num \<Rightarrow>
            if num = 0 then Some (Some [], w)
            else (case sys_malloc w of (mem1, w1) \<Rightarrow>
              if \<not> mem1 then Some (None, w1)
              else (case sys_malloc w1 of (mem2, w2) \<Rightarrow>
                if \<not> mem2 then Some (None, w2)
                else Some (map_option (take num) (gl_modifiers dr format), w2)))))"

definition DRM_FORMAT_ARGB8888 :: u32 where "DRM_FORMAT_ARGB8888 = 0x34325241"
definition DRM_FORMAT_XRGB8888 :: u32 where "DRM_FORMAT_XRGB8888 = 0x34325258"

definition get_egl_dmabuf_formats :: "driver \<Rightarrow> westfield_egl \<Rightarrow> os \<Rightarrow> (u32 list option \<times> os) option" where
  "get_egl_dmabuf_formats dr we w =
     (if \<not> we_dma_buf_import we then Some (None, w)
      else if \<not> we_dma_buf_import_modifiers we then
        (case sys_malloc w of (mem, w1) \<Rightarrow> Some (if mem then Some [DRM_FORMAT_ARGB8888, DRM_FORMAT_XRGB8888] else None, w1))
      else if \<not> we_procs we ''eglQueryDmaBufFormatsEXT'' then None
      else (case gl_formats_num dr of
          None \<Rightarrow> Some (None, w)
        | Some num \<Rightarrow>
            (case sys_malloc w of (mem, w1) \<Rightarrow>
               if \<not> mem then Some (None, w1) else Some (map_option (take num) (gl_formats dr), w1))))"

text \<open>The result of \<open>drm_format_set_add\<close> is not looked at.\<close>

definition add_format :: "u32 \<Rightarrow> u64 \<Rightarrow> drm_format_set \<Rightarrow> os \<Rightarrow> (drm_format_set \<times> os) option" where
  "add_format x m fs w = map_option snd (drm_format_set_add fs x m w)"

text \<open>The loop over the modifiers; the first component is \<open>all_external_only\<close>.\<close>

fun add_driver_modifiers ::
  "u32 \<Rightarrow> (u64 \<times> bool) list \<Rightarrow> bool \<Rightarrow> drm_format_set \<Rightarrow> os \<Rightarrow> (bool \<times> drm_format_set \<times> os) option" where
  "add_driver_modifiers x [] all_external fs w = Some (all_external, fs, w)"
| "add_driver_modifiers x ((m, external) # ms) all_external fs w = do {
     (fs1, w1) \<leftarrow> add_format x m fs w;
     if external then add_driver_modifiers x ms all_external fs1 w1
     else do {
       (fs2, w2) \<leftarrow> add_format x m fs1 w1;
       add_driver_modifiers x ms False fs2 w2 } }"

text \<open>The loop over the formats: whether there are modifiers, and the sets for sampling and rendering.\<close>

fun add_driver_formats ::
  "driver \<Rightarrow> westfield_egl \<Rightarrow> u32 list \<Rightarrow> bool \<Rightarrow> drm_format_set \<Rightarrow> drm_format_set \<Rightarrow> os \<Rightarrow>
   (bool \<times> drm_format_set \<times> drm_format_set \<times> os) option" where
  "add_driver_formats dr we [] has_modifiers tex rend w = Some (has_modifiers, tex, rend, w)"
| "add_driver_formats dr we (x # xs) has_modifiers tex rend w = do {
     (mods, w1) \<leftarrow> get_egl_dmabuf_modifiers dr we x w;
     (case mods of
        None \<Rightarrow> add_driver_formats dr we xs has_modifiers tex rend w1
      | Some ms \<Rightarrow> do {
          (all_external, tex1, w2) \<leftarrow> add_driver_modifiers x ms True tex w1;
          (tex2, w3) \<leftarrow> add_format x DRM_FORMAT_MOD_INVALID tex1 w2;
          (tex3, w4) \<leftarrow> (if ms = [] \<or> \<not> all_external then add_format x DRM_FORMAT_MOD_INVALID tex2 w3 else Some (tex2, w3));
          (tex4, rend4, w5) \<leftarrow> (if ms = [] then do {
              (tex4, w5) \<leftarrow> add_format x DRM_FORMAT_MOD_LINEAR tex3 w4;
              (rend4, w6) \<leftarrow> add_format x DRM_FORMAT_MOD_LINEAR rend w5;
              Some (tex4, rend4, w6) } else Some (tex3, rend, w4));
          add_driver_formats dr we xs (has_modifiers \<or> ms \<noteq> []) tex4 rend4 w5 }) }"

definition init_dmabuf_formats :: "driver \<Rightarrow> westfield_egl \<Rightarrow> os \<Rightarrow> (westfield_egl \<times> os) option" where
  "init_dmabuf_formats dr we w = do {
     (formats, w1) \<leftarrow> get_egl_dmabuf_formats dr we w;
     (case formats of
        None \<Rightarrow> Some (we, w1)
      | Some xs \<Rightarrow> do {
          (has_modifiers, tex, rend, w2) \<leftarrow> add_driver_formats dr we xs False (we_texture_formats we) (we_render_formats we) w1;
          Some (we\<lparr>we_has_modifiers := has_modifiers, we_texture_formats := tex, we_render_formats := rend\<rparr>, w2) }) }"

section \<open>Creating the display and the context\<close>

text \<open>Loading a function sets its pointer or leaves it, and most callers do not look at the result.\<close>

definition load_egl_proc :: "driver \<Rightarrow> string \<Rightarrow> westfield_egl \<Rightarrow> int \<times> westfield_egl" where
  "load_egl_proc dr name we =
     (if gl_procs dr name then (0, we\<lparr>we_procs := (we_procs we)(name := True)\<rparr>) else (- 1, we))"

definition load :: "driver \<Rightarrow> string \<Rightarrow> westfield_egl \<Rightarrow> westfield_egl" where
  "load dr name we = snd (load_egl_proc dr name we)"

definition egl_create :: "driver \<Rightarrow> westfield_egl \<Rightarrow> (int \<times> westfield_egl) option" where
  "egl_create dr we =
     (case gl_client_exts dr of
        None \<Rightarrow> Some (- 1, we)
      | Some exts \<Rightarrow>
          if \<not> check_egl_ext exts ''EGL_EXT_platform_base'' then Some (- 1, we)
          else (case load_egl_proc dr ''eglGetPlatformDisplayEXT'' we of (r, we1) \<Rightarrow>
            if r \<noteq> 0 then Some (- 1, we1)
            else
              let we2 = we1\<lparr>we_platform_gbm := check_egl_ext exts ''EGL_KHR_platform_gbm'',
                    we_platform_device := check_egl_ext exts ''EGL_EXT_platform_device''\<rparr>;
                  we3 = (if check_egl_ext exts ''EGL_EXT_device_base'' \<or> check_egl_ext exts ''EGL_EXT_device_enumeration''
                    then load dr ''eglQueryDevicesEXT'' we2 else we2);
                  we4 = (if check_egl_ext exts ''EGL_EXT_device_base'' \<or> check_egl_ext exts ''EGL_EXT_device_query''
                    then load dr ''eglQueryDisplayAttribEXT''
                      (load dr ''eglQueryDeviceStringEXT'' (we3\<lparr>we_device_query := True\<rparr>)) else we3);
                  debug = check_egl_ext exts ''EGL_KHR_debug'';
                  we5 = (if debug then load dr ''eglDebugMessageControlKHR'' we4 else we4) in
              if debug \<and> \<not> we_procs we5 ''eglDebugMessageControlKHR'' then None
              else Some (if gl_bind_api dr then 0 else - 1, we5)))"

text \<open>
  The extensions of the device of the display, which are asked for when the client extensions allow it.
  The name of the driver is only logged and left out.
\<close>

definition egl_init_device :: "driver \<Rightarrow> westfield_egl \<Rightarrow> (bool \<times> westfield_egl) option" where
  "egl_init_device dr we =
     (if \<not> we_device_query we then Some (True, we)
      else if \<not> we_procs we ''eglQueryDisplayAttribEXT'' then None
      else (case gl_display_device dr of
          None \<Rightarrow> Some (False, we)
        | Some dev \<Rightarrow>
            let we1 = we\<lparr>we_device := Some dev\<rparr> in
            if \<not> we_procs we1 ''eglQueryDeviceStringEXT'' then None
            else (case gl_device_exts dr of
                None \<Rightarrow> Some (False, we1)
              | Some exts \<Rightarrow>
                  if check_egl_ext exts ''EGL_MESA_device_software'' \<and> gl_allow_software dr \<noteq> Some ''1'' then Some (False, we1)
                  else Some (True, we1\<lparr>we_device_drm := check_egl_ext exts ''EGL_EXT_device_drm'',
                    we_device_drm_render_node := check_egl_ext exts ''EGL_EXT_device_drm_render_node''\<rparr>))))"

definition load_display_procs :: "driver \<Rightarrow> string \<Rightarrow> westfield_egl \<Rightarrow> westfield_egl" where
  "load_display_procs dr exts we =
     (let we1 = (if check_egl_ext exts ''EGL_KHR_image_base''
            then load dr ''eglDestroyImageKHR'' (load dr ''eglCreateImageKHR'' (we\<lparr>we_KHR_image_base := True\<rparr>)) else we);
          we2 = we1\<lparr>we_dma_buf_import := check_egl_ext exts ''EGL_EXT_image_dma_buf_import''\<rparr> in
      if check_egl_ext exts ''EGL_EXT_image_dma_buf_import_modifiers''
      then load dr ''eglQueryDmaBufModifiersEXT''
        (load dr ''eglQueryDmaBufFormatsEXT'' (we2\<lparr>we_dma_buf_import_modifiers := True\<rparr>))
      else we2)"

definition egl_init_display :: "driver \<Rightarrow> westfield_egl \<Rightarrow> os \<Rightarrow> (bool \<times> westfield_egl \<times> os) option" where
  "egl_init_display dr we w =
     (let we0 = we\<lparr>we_display := True\<rparr> in
      if \<not> gl_initialize dr then Some (False, we0, w)
      else (case gl_display_exts dr of
          None \<Rightarrow> Some (False, we0, w)
        | Some exts \<Rightarrow> do {
            (ok, we2) \<leftarrow> egl_init_device dr (load_display_procs dr exts we0);
            if \<not> ok then Some (False, we2, w)
            else if \<not> check_egl_ext exts ''EGL_KHR_no_config_context'' \<and> \<not> check_egl_ext exts ''EGL_MESA_configless_context''
            then Some (False, we2, w)
            else if \<not> check_egl_ext exts ''EGL_KHR_surfaceless_context'' then Some (False, we2, w)
            else do {
              (we3, w1) \<leftarrow> init_dmabuf_formats dr
                (we2\<lparr>we_context_priority := check_egl_ext exts ''EGL_IMG_context_priority''\<rparr>) w;
              Some (True, we3, w1) } }))"

text \<open>The calls that create and destroy objects, in order; the GBM device is named by its descriptor.\<close>

datatype egl_call = Opened int | Closed int | GbmCreated int | GbmDestroyed "int option" | Terminated | ReleasedThread |
  ImageCreated "attrib list" | ImageDestroyed "attrib list"

record egl_world =
  ew_os :: os
  ew_calls :: "egl_call list"

definition egl_do :: "egl_call \<Rightarrow> egl_world \<Rightarrow> egl_world" where
  "egl_do c w = w\<lparr>ew_calls := ew_calls w @ [c]\<rparr>"

definition egl_init :: "driver \<Rightarrow> westfield_egl \<Rightarrow> egl_world \<Rightarrow> (bool \<times> westfield_egl \<times> egl_world) option" where
  "egl_init dr we w =
     (if \<not> we_procs we ''eglGetPlatformDisplayEXT'' then None
      else if \<not> gl_platform_display dr then Some (False, we, w)
      else do {
        (ok, we1, w1) \<leftarrow> egl_init_display dr we (ew_os w);
        if \<not> ok then Some (False, we1, egl_do Terminated (w\<lparr>ew_os := w1\<rparr>))
        else do {
          attribs \<leftarrow> put_attribs 5 [Name ''EGL_CONTEXT_CLIENT_VERSION'', Value 2] [];
          attribs \<leftarrow> (if we_context_priority we1
            then put_attribs 5 [Name ''EGL_CONTEXT_PRIORITY_LEVEL_IMG'', Name ''EGL_CONTEXT_PRIORITY_HIGH_IMG''] attribs
            else Some attribs);
          attribs \<leftarrow> put_attribs 5 [Name ''EGL_NONE''] attribs;
          if \<not> length attribs \<le> 5 then None
          else Some (gl_context dr attribs, we1\<lparr>we_context := gl_context dr attribs\<rparr>, w\<lparr>ew_os := w1\<rparr>) } })"

text \<open>The descriptor of the node, negative when it has no name or cannot be opened.\<close>

definition open_render_node :: "driver \<Rightarrow> egl_world \<Rightarrow> int \<times> egl_world" where
  "open_render_node dr w =
     (if \<not> gl_render_name dr \<and> \<not> gl_primary_name dr then (- 1, w)
      else if gl_open dr < 0 then (gl_open dr, w)
      else (gl_open dr, egl_do (Opened (gl_open dr)) w))"

text \<open>The code after the label \<open>error\<close>.\<close>

definition create_failed_egl :: "westfield_egl \<Rightarrow> egl_world \<Rightarrow> int \<times> westfield_egl \<times> egl_world" where
  "create_failed_egl we w = (- 1, we, egl_do ReleasedThread (if we_display we then egl_do Terminated w else w))"

definition create_with_gbm :: "driver \<Rightarrow> westfield_egl \<Rightarrow> egl_world \<Rightarrow> (int \<times> westfield_egl \<times> egl_world) option" where
  "create_with_gbm dr we w =
     (if \<not> we_platform_gbm we then Some (create_failed_egl we w)
      else (case open_render_node dr w of (gbm_fd, w1) \<Rightarrow>
        if gbm_fd < 0 then Some (create_failed_egl we w1)
        else if \<not> gl_gbm dr then Some (create_failed_egl (we\<lparr>we_gbm_fd := None\<rparr>) (egl_do (Closed gbm_fd) w1))
        else do {
          (ok, we2, w2) \<leftarrow> egl_init dr (we\<lparr>we_gbm_fd := Some gbm_fd\<rparr>) (egl_do (GbmCreated gbm_fd) w1);
          if ok then Some (0, we2, w2)
          else Some (create_failed_egl we2 (egl_do (Closed gbm_fd) (egl_do (GbmDestroyed (we_gbm_fd we2)) w2))) }))"

definition westfield_egl_egl_create_with_drm_fd ::
  "bool \<Rightarrow> driver \<Rightarrow> westfield_egl \<Rightarrow> egl_world \<Rightarrow> (int \<times> westfield_egl \<times> egl_world) option" where
  "westfield_egl_egl_create_with_drm_fd have_render dr we w = do {
     (r, we1) \<leftarrow> egl_create dr we;
     if r \<noteq> 0 then Some (- 1, we1, w)
     else if we_platform_device we1 then do {
       (dev, w1) \<leftarrow> get_egl_device_from_drm_fd have_render dr we1 (ew_os w);
       (case dev of
          Some _ \<Rightarrow> do {
            (ok, we2, w2) \<leftarrow> egl_init dr we1 (w\<lparr>ew_os := w1\<rparr>);
            if ok then Some (0, we2, w2) else Some (create_failed_egl we2 w2) }
        | None \<Rightarrow> create_with_gbm dr we1 (w\<lparr>ew_os := w1\<rparr>)) }
     else create_with_gbm dr we1 w }"

text \<open>All fields of a new object are zero.\<close>

definition zero_egl :: westfield_egl where
  "zero_egl = \<lparr>we_drm_fd = 0, we_gbm_fd = None, we_display = False, we_context = False, we_device = None,
     we_KHR_image_base = False, we_dma_buf_import = False, we_dma_buf_import_modifiers = False, we_context_priority = False,
     we_device_drm = False, we_device_drm_render_node = False, we_device_query = False, we_platform_gbm = False,
     we_platform_device = False, we_procs = (\<lambda>_. False), we_has_modifiers = False,
     we_texture_formats = empty_set, we_render_formats = empty_set\<rparr>"

text \<open>\<open>fd\<close> is the result of opening the path of the device; the result is \<open>None\<close> for \<open>NULL\<close>.\<close>

definition westfield_egl_new ::
  "bool \<Rightarrow> driver \<Rightarrow> int \<Rightarrow> egl_world \<Rightarrow> (westfield_egl option \<times> egl_world) option" where
  "westfield_egl_new have_render dr fd w =
     (case sys_malloc (ew_os w) of (mem, w1) \<Rightarrow>
        if fd < 0 then Some (None, w\<lparr>ew_os := w1\<rparr>)
        else if fd = 0 \<or> \<not> mem then None
        else do {
          (r, we, w2) \<leftarrow> westfield_egl_egl_create_with_drm_fd have_render dr (zero_egl\<lparr>we_drm_fd := fd\<rparr>)
            (egl_do (Opened fd) (w\<lparr>ew_os := w1\<rparr>));
          if r \<noteq> 0 then Some (None, egl_do (Closed fd) w2) else Some (Some we, w2) })"

definition westfield_egl_finalize :: "westfield_egl \<Rightarrow> egl_world \<Rightarrow> egl_world" where
  "westfield_egl_finalize we w = egl_do (Closed (we_drm_fd we)) (egl_do (GbmDestroyed (we_gbm_fd we)) w)"

definition westfield_egl_get_device :: "westfield_egl \<Rightarrow> nat option" where
  "westfield_egl_get_device we = we_device we"

definition westfield_egl_get_device_fd :: "westfield_egl \<Rightarrow> int" where
  "westfield_egl_get_device_fd we = we_drm_fd we"

definition westfield_egl_get_dmabuf_texture_formats :: "westfield_egl \<Rightarrow> drm_format_set" where
  "westfield_egl_get_dmabuf_texture_formats we = we_texture_formats we"

section \<open>Images\<close>

text \<open>The names of the attributes of plane \<open>i\<close>: \<open>EGL_DMA_BUF_PLANE0_FD_EXT\<close> and so on.\<close>

definition plane_attrib :: "nat \<Rightarrow> string \<Rightarrow> attrib" where
  "plane_attrib i what = Name (''EGL_DMA_BUF_PLANE'' @ [[CHR ''0''], [CHR ''1''], [CHR ''2''], [CHR ''3'']] ! i @ what @ ''_EXT'')"

definition plane_attribs :: "westfield_egl \<Rightarrow> dmabuf_attributes \<Rightarrow> nat \<Rightarrow> attrib list" where
  "plane_attribs we at i =
     [plane_attrib i ''_FD'', Value (of_int (da_fd at ! i)), plane_attrib i ''_OFFSET'', Value (da_offset at ! i),
      plane_attrib i ''_PITCH'', Value (da_stride at ! i)] @
     (if we_has_modifiers we \<and> da_modifier at \<noteq> DRM_FORMAT_MOD_INVALID
      then [plane_attrib i ''_MODIFIER_LO'', Value (ucast (da_modifier at AND 0xFFFFFFFF)),
            plane_attrib i ''_MODIFIER_HI'', Value (ucast (drop_bit 32 (da_modifier at)))]
      else [])"

text \<open>The loop over the planes; the array of the names has one entry for each possible plane.\<close>

fun put_planes :: "westfield_egl \<Rightarrow> dmabuf_attributes \<Rightarrow> nat list \<Rightarrow> attrib list \<Rightarrow> attrib list option" where
  "put_planes we at [] as = Some as"
| "put_planes we at (i # is) as =
     (if \<not> i < WESTFIELD_DMABUF_MAX_PLANES then None
      else do { as1 \<leftarrow> put_attribs 50 (plane_attribs we at i) as; put_planes we at is as1 })"

text \<open>An image is what it was created from, \<open>None\<close> is \<open>NULL\<close>; the flag is \<open>external_only\<close>.\<close>

definition westfield_egl_create_image_from_dmabuf ::
  "driver \<Rightarrow> westfield_egl \<Rightarrow> dmabuf_attributes \<Rightarrow> egl_world \<Rightarrow> ((attrib list \<times> bool) option \<times> egl_world) option" where
  "westfield_egl_create_image_from_dmabuf dr we at w =
     (if \<not> we_KHR_image_base we \<or> \<not> we_dma_buf_import we then Some (None, w)
      else if da_modifier at \<noteq> DRM_FORMAT_MOD_INVALID \<and> da_modifier at \<noteq> DRM_FORMAT_MOD_LINEAR \<and> \<not> we_has_modifiers we
      then Some (None, w)
      else do {
        attribs \<leftarrow> put_attribs 50 [Name ''EGL_WIDTH'', Value (of_int (da_width at)), Name ''EGL_HEIGHT'',
          Value (of_int (da_height at)), Name ''EGL_LINUX_DRM_FOURCC_EXT'', Value (da_format at)] [];
        attribs \<leftarrow> put_planes we at [0..<da_n_planes at] attribs;
        attribs \<leftarrow> put_attribs 50 [Name ''EGL_IMAGE_PRESERVED_KHR'', Name ''EGL_TRUE''] attribs;
        attribs \<leftarrow> put_attribs 50 [Name ''EGL_NONE''] attribs;
        if \<not> length attribs < 50 then None
        else if \<not> we_procs we ''eglCreateImageKHR'' then None
        else if \<not> gl_image dr attribs then Some (None, w)
        else Some (Some (attribs, \<not> drm_format_set_has (we_render_formats we) (da_format at) (da_modifier at)),
          egl_do (ImageCreated attribs) w) })"

definition westfield_egl_destroy_image :: "westfield_egl \<Rightarrow> attrib list \<Rightarrow> egl_world \<Rightarrow> egl_world option" where
  "westfield_egl_destroy_image we img w =
     (if \<not> we_procs we ''eglDestroyImageKHR'' then None else Some (egl_do (ImageDestroyed img) w))"

section \<open>Proofs\<close>

text \<open>What an extension string lists: its words, separated by blanks.\<close>

definition lists_word :: "string \<Rightarrow> string \<Rightarrow> bool" where
  "lists_word exts ext \<longleftrightarrow> (\<exists>pre post. exts = pre @ ext @ post \<and> (pre = [] \<or> last pre = CHR '' '') \<and> (post = [] \<or> hd post = CHR '' ''))"

lemma lists_word_blank:
  assumes "ext \<noteq> []" "CHR '' '' \<notin> set ext"
  shows "lists_word (CHR '' '' # exts) ext = lists_word exts ext"
proof
  assume "lists_word (CHR '' '' # exts) ext"
  then obtain pre post where p: "CHR '' '' # exts = pre @ ext @ post" "pre = [] \<or> last pre = CHR '' ''" "post = [] \<or> hd post = CHR '' ''"
    unfolding lists_word_def by blast
  then obtain pre' where "pre = CHR '' '' # pre'" using assms by (cases pre; cases ext) auto
  then show "lists_word exts ext" using p unfolding lists_word_def
    by (intro exI [of _ pre'] exI [of _ post]) (auto split: if_splits)
next
  assume "lists_word exts ext"
  then obtain pre post where "exts = pre @ ext @ post" "pre = [] \<or> last pre = CHR '' ''" "post = [] \<or> hd post = CHR '' ''"
    unfolding lists_word_def by blast
  then show "lists_word (CHR '' '' # exts) ext" unfolding lists_word_def
    by (intro exI [of _ "CHR '' '' # pre"] exI [of _ post]) auto
qed

lemma first_word:
  assumes "CHR '' '' \<notin> set xs" "CHR '' '' \<notin> set ys" "u = [] \<or> hd u = CHR '' ''" "v = [] \<or> hd v = CHR '' ''" "xs @ u = ys @ v"
  shows "xs = ys \<and> u = v"
  using assms
proof (induction xs arbitrary: ys)
  case Nil
  then show ?case by (cases ys) auto
next
  case (Cons x xs)
  then show ?case by (cases ys) auto
qed

lemma lists_word_first:
  assumes "CHR '' '' \<notin> set wd" "wd \<noteq> []" "post = [] \<or> hd post = CHR '' ''" "ext \<noteq> []" "CHR '' '' \<notin> set ext"
  shows "lists_word (wd @ post) ext \<longleftrightarrow> wd = ext \<or> lists_word post ext"
proof
  assume "lists_word (wd @ post) ext"
  then obtain u v where p: "wd @ post = u @ ext @ v" "u = [] \<or> last u = CHR '' ''" "v = [] \<or> hd v = CHR '' ''"
    unfolding lists_word_def by blast
  show "wd = ext \<or> lists_word post ext"
  proof (cases "u = []")
    case True
    then show ?thesis using first_word [of wd ext post v] p assms by simp
  next
    case False
    then have l: "last u = CHR '' ''" using p(2) by simp
    have "length wd < length u"
    proof (rule ccontr)
      assume "\<not> ?thesis"
      then have "take (length u) wd = u" using p(1) by (metis append_eq_append_conv_if linorder_not_less)
      then have "last u \<in> set wd" using False by (metis in_set_takeD last_in_set)
      then show False using l assms(1) by simp
    qed
    then obtain u' where u: "u = wd @ u'" using p(1) by (metis append_eq_append_conv_if append_take_drop_id less_imp_le)
    have "u' \<noteq> []" using u \<open>length wd < length u\<close> by auto
    then show ?thesis using u p l unfolding lists_word_def by (intro disjI2 exI [of _ u'] exI [of _ v]) auto
  qed
next
  assume "wd = ext \<or> lists_word post ext"
  then show "lists_word (wd @ post) ext"
  proof
    assume "wd = ext"
    then show ?thesis using assms(3) unfolding lists_word_def by (intro exI [of _ "[]"] exI [of _ post]) simp
  next
    assume "lists_word post ext"
    then obtain u v where p: "post = u @ ext @ v" "u = [] \<or> last u = CHR '' ''" "v = [] \<or> hd v = CHR '' ''"
      unfolding lists_word_def by blast
    have "u \<noteq> []" using p(1) assms(3,4,5) by (cases ext) auto
    then show ?thesis using p unfolding lists_word_def by (intro exI [of _ "wd @ u"] exI [of _ v]) auto
  qed
qed

lemma check_ext_words: "ext \<noteq> [] \<Longrightarrow> CHR '' '' \<notin> set ext \<Longrightarrow> check_egl_ext exts ext = lists_word exts ext"
proof (induction exts ext rule: check_egl_ext.induct)
  case (1 exts ext)
  let ?wd = "takeWhile (\<lambda>c. c \<noteq> CHR '' '') exts" and ?post = "dropWhile (\<lambda>c. c \<noteq> CHR '' '') exts"
  show ?case
  proof (cases "exts = []")
    case True
    then show ?thesis using 1(3) check_egl_ext.simps [of "[]" ext] by (simp add: lists_word_def)
  next
    case ne: False
    show ?thesis
    proof (cases "hd exts = CHR '' ''")
      case True
      then have "exts = CHR '' '' # tl exts" using ne by (metis list.collapse)
      then show ?thesis using 1(1) [OF ne True] 1(3,4) lists_word_blank [of ext "tl exts"] ne True
        by (simp add: check_egl_ext.simps [of exts])
    next
      case False
      have t: "take (length ?wd) exts = ?wd" "drop (length ?wd) exts = ?post"
        by (metis append_eq_conv_conj takeWhile_dropWhile_id) (metis append_eq_conv_conj takeWhile_dropWhile_id)
      have s: "CHR '' '' \<notin> set ?wd" "?wd \<noteq> []" "?post = [] \<or> hd ?post = CHR '' ''"
        using ne False hd_dropWhile [of "\<lambda>c. c \<noteq> CHR '' ''" exts] by (auto simp: takeWhile_eq_Nil_iff dest: set_takeWhileD)
      have e: "check_egl_ext exts ext = (?wd = ext \<or> check_egl_ext ?post ext)"
        using ne False t by (auto simp: check_egl_ext.simps [of exts] Let_def)
      have "lists_word exts ext \<longleftrightarrow> ?wd = ext \<or> lists_word ?post ext"
        using lists_word_first [OF s(1,2,3) 1(3,4)] by simp
      moreover have "check_egl_ext ?post ext = lists_word ?post ext" if "?wd \<noteq> ext"
        using 1(2) [OF ne False refl] that 1(3,4) t by auto
      ultimately show ?thesis using e by blast
    qed
  qed
qed

lemma check_ext_other: "ext = [] \<or> CHR '' '' \<in> set ext \<Longrightarrow> \<not> check_egl_ext exts ext"
proof (induction exts ext rule: check_egl_ext.induct)
  case (1 exts ext)
  let ?wd = "takeWhile (\<lambda>c. c \<noteq> CHR '' '') exts"
  have t: "take (length ?wd) exts = ?wd" by (metis append_eq_conv_conj takeWhile_dropWhile_id)
  have "?wd \<noteq> ext" if "exts \<noteq> []" "hd exts \<noteq> CHR '' ''"
    using 1(3) that set_takeWhileD [of _ "\<lambda>c. c \<noteq> CHR '' ''" exts] by (auto simp: takeWhile_eq_Nil_iff)
  then show ?case using 1 t by (simp add: check_egl_ext.simps [of exts] Let_def)
qed

text \<open>C11: An extension is found exactly if it is one of the blank-separated words of the string: it begins
  at the start or after a blank and ends before a blank or at the end, so that a name that is only the
  beginning or a part of a listed one is not found.  Neither an empty name nor one with a blank in it is
  ever found.  The search ends for every string.\<close>

theorem check_egl_ext_exact:
  "check_egl_ext exts ext =
     (ext \<noteq> [] \<and> CHR '' '' \<notin> set ext \<and>
      (\<exists>pre post. exts = pre @ ext @ post \<and> (pre = [] \<or> last pre = CHR '' '') \<and> (post = [] \<or> hd post = CHR '' '')))"
proof (cases "ext \<noteq> [] \<and> CHR '' '' \<notin> set ext")
  case True
  then show ?thesis using check_ext_words unfolding lists_word_def by blast
next
  case False
  then show ?thesis using check_ext_other by blast
qed

text \<open>The pairs that one format of the driver stands for, for sampling and for rendering.\<close>

definition sampled_pairs :: "u32 \<Rightarrow> (u64 \<times> bool) list \<Rightarrow> (u32 \<times> u64) set" where
  "sampled_pairs x ms = (\<lambda>m. (x, m)) ` (fst ` set ms \<union> {DRM_FORMAT_MOD_INVALID} \<union> (if ms = [] then {DRM_FORMAT_MOD_LINEAR} else {}))"

definition rendered_pairs :: "u32 \<Rightarrow> (u64 \<times> bool) list \<Rightarrow> (u32 \<times> u64) set" where
  "rendered_pairs x ms = (if ms = [] then {(x, DRM_FORMAT_MOD_LINEAR)} else {})"

lemma add_format_spec:
  assumes "set_ok fs" "alloc_script w = []"
  shows "\<exists>fs'. add_format x m fs w = Some (fs', w) \<and> set_ok fs' \<and> set_pairs fs' = insert (x, m) (set_pairs fs)"
  using set_add_spec [OF assms(1), of x m w] assms(2) by (auto simp: add_format_def set_pairs_def)

lemma add_driver_modifiers_spec:
  assumes "alloc_script w = []"
  shows "set_ok fs \<Longrightarrow> \<exists>b' fs'. add_driver_modifiers x ms b fs w = Some (b', fs', w) \<and> set_ok fs' \<and>
    set_pairs fs' = (\<lambda>m. (x, m)) ` fst ` set ms \<union> set_pairs fs"
proof (induction ms arbitrary: b fs)
  case (Cons p ms)
  obtain m e where p: "p = (m, e)" by fastforce
  obtain fs1 where f1: "add_format x m fs w = Some (fs1, w)" "set_ok fs1" "set_pairs fs1 = insert (x, m) (set_pairs fs)"
    using add_format_spec [OF Cons(2) assms] by blast
  obtain fs2 where f2: "add_format x m fs1 w = Some (fs2, w)" "set_ok fs2" "set_pairs fs2 = insert (x, m) (set_pairs fs1)"
    using add_format_spec [OF f1(2) assms] by blast
  show ?case using Cons(1) [OF f1(2), of b] Cons(1) [OF f2(2), of False] f1 f2 p by (cases e) auto
qed simp

lemma add_driver_formats_spec:
  assumes w: "alloc_script w = []" and q: "\<forall>x \<in> set xs. get_egl_dmabuf_modifiers dr we x w = Some (mods x, w)"
  shows "set_ok tex \<Longrightarrow> set_ok rend \<Longrightarrow>
    \<exists>tex' rend'. add_driver_formats dr we xs b tex rend w = Some (b \<or> (\<exists>x \<in> set xs. \<exists>ms. mods x = Some ms \<and> ms \<noteq> []), tex', rend', w) \<and>
      set_ok tex' \<and> set_ok rend' \<and>
      set_pairs tex' = set_pairs tex \<union> (\<Union>x \<in> set xs. case mods x of None \<Rightarrow> {} | Some ms \<Rightarrow> sampled_pairs x ms) \<and>
      set_pairs rend' = set_pairs rend \<union> (\<Union>x \<in> set xs. case mods x of None \<Rightarrow> {} | Some ms \<Rightarrow> rendered_pairs x ms)"
  using q
proof (induction xs arbitrary: b tex rend)
  case (Cons x xs)
  have qx: "get_egl_dmabuf_modifiers dr we x w = Some (mods x, w)" using Cons(4) by simp
  show ?case
  proof (cases "mods x")
    case None
    then show ?thesis using Cons(1) [OF Cons(2,3), of b] Cons(4) qx by auto
  next
    case (Some ms)
    obtain b1 t1 where t1: "add_driver_modifiers x ms True tex w = Some (b1, t1, w)" "set_ok t1"
        "set_pairs t1 = (\<lambda>m. (x, m)) ` fst ` set ms \<union> set_pairs tex"
      using add_driver_modifiers_spec [OF w Cons(2)] by blast
    obtain t2 where t2: "add_format x DRM_FORMAT_MOD_INVALID t1 w = Some (t2, w)" "set_ok t2"
        "set_pairs t2 = insert (x, DRM_FORMAT_MOD_INVALID) (set_pairs t1)"
      using add_format_spec [OF t1(2) w] by blast
    obtain t3' where t3': "add_format x DRM_FORMAT_MOD_INVALID t2 w = Some (t3', w)" "set_ok t3'"
        "set_pairs t3' = insert (x, DRM_FORMAT_MOD_INVALID) (set_pairs t2)"
      using add_format_spec [OF t2(2) w] by blast
    define t3 where "t3 = (if ms = [] \<or> \<not> b1 then t3' else t2)"
    have t3: "(if ms = [] \<or> \<not> b1 then add_format x DRM_FORMAT_MOD_INVALID t2 w else Some (t2, w)) = Some (t3, w)"
        "set_ok t3" "set_pairs t3 = insert (x, DRM_FORMAT_MOD_INVALID) (set_pairs t1)"
      using t2 t3' by (auto simp: t3_def)
    obtain t4' where t4': "add_format x DRM_FORMAT_MOD_LINEAR t3 w = Some (t4', w)" "set_ok t4'"
        "set_pairs t4' = insert (x, DRM_FORMAT_MOD_LINEAR) (set_pairs t3)"
      using add_format_spec [OF t3(2) w] by blast
    obtain r4' where r4': "add_format x DRM_FORMAT_MOD_LINEAR rend w = Some (r4', w)" "set_ok r4'"
        "set_pairs r4' = insert (x, DRM_FORMAT_MOD_LINEAR) (set_pairs rend)"
      using add_format_spec [OF Cons(3) w] by blast
    define t4 where "t4 = (if ms = [] then t4' else t3)"
    define r4 where "r4 = (if ms = [] then r4' else rend)"
    have ok: "set_ok t4" "set_ok r4" using t4' r4' t3 Cons(3) by (simp_all add: t4_def r4_def)
    have pairs: "set_pairs t4 = set_pairs tex \<union> sampled_pairs x ms" "set_pairs r4 = set_pairs rend \<union> rendered_pairs x ms"
      using t4' r4' t3 t1 by (auto simp: t4_def r4_def sampled_pairs_def rendered_pairs_def)
    have "add_driver_formats dr we (x # xs) b tex rend w = add_driver_formats dr we xs (b \<or> ms \<noteq> []) t4 r4 w"
      using qx Some t1 t2 t3 t4' r4' by (cases "ms = []") (simp_all add: t4_def r4_def)
    then show ?thesis using Cons(1) [OF ok, of "b \<or> ms \<noteq> []"] Cons(4) Some pairs by auto
  qed
qed simp

lemma sampled_one: "(x, m) \<in> sampled_pairs y ms \<longleftrightarrow>
    x = y \<and> (m \<in> fst ` set ms \<or> m = DRM_FORMAT_MOD_INVALID \<or> ms = [] \<and> m = DRM_FORMAT_MOD_LINEAR)"
  by (auto simp: sampled_pairs_def)

lemma sampled_mem:
  "(\<exists>y \<in> A. (x, m) \<in> (case mods y of None \<Rightarrow> {} | Some ms \<Rightarrow> sampled_pairs y ms)) \<longleftrightarrow>
     x \<in> A \<and> (\<exists>ms. mods x = Some ms \<and> (m \<in> fst ` set ms \<or> m = DRM_FORMAT_MOD_INVALID \<or> ms = [] \<and> m = DRM_FORMAT_MOD_LINEAR))"
proof -
  have "(x, m) \<in> (case mods y of None \<Rightarrow> {} | Some ms \<Rightarrow> sampled_pairs y ms) \<longleftrightarrow>
    x = y \<and> (\<exists>ms. mods y = Some ms \<and> (x, m) \<in> sampled_pairs y ms)" for y
    by (cases "mods y") (auto simp: sampled_one)
  then show ?thesis by (auto simp: sampled_one)
qed

lemma rendered_mem:
  "(\<exists>y \<in> A. (x, m) \<in> (case mods y of None \<Rightarrow> {} | Some ms \<Rightarrow> rendered_pairs y ms)) \<longleftrightarrow>
     x \<in> A \<and> mods x = Some [] \<and> m = DRM_FORMAT_MOD_LINEAR"
proof -
  have "(x, m) \<in> (case mods y of None \<Rightarrow> {} | Some ms \<Rightarrow> rendered_pairs y ms) \<longleftrightarrow>
    x = y \<and> mods y = Some [] \<and> m = DRM_FORMAT_MOD_LINEAR" for y
    by (cases "mods y") (auto simp: rendered_pairs_def)
  then show ?thesis by auto
qed

lemma init_formats_spec:
  assumes w: "alloc_script w = []" and ok: "set_ok (we_texture_formats we)" "set_ok (we_render_formats we)"
    and f: "get_egl_dmabuf_formats dr we w = Some (Some xs, w)"
    and q: "\<forall>x \<in> set xs. get_egl_dmabuf_modifiers dr we x w = Some (mods x, w)"
  shows "\<exists>we'. init_dmabuf_formats dr we w = Some (we', w) \<and>
    we_has_modifiers we' = (\<exists>x \<in> set xs. \<exists>ms. mods x = Some ms \<and> ms \<noteq> []) \<and>
    (\<forall>x m. drm_format_set_has (we_texture_formats we') x m \<longleftrightarrow> drm_format_set_has (we_texture_formats we) x m \<or>
       x \<in> set xs \<and> (\<exists>ms. mods x = Some ms \<and> (m \<in> fst ` set ms \<or> m = DRM_FORMAT_MOD_INVALID \<or> ms = [] \<and> m = DRM_FORMAT_MOD_LINEAR))) \<and>
    (\<forall>x m. drm_format_set_has (we_render_formats we') x m \<longleftrightarrow> drm_format_set_has (we_render_formats we) x m \<or>
       x \<in> set xs \<and> mods x = Some [] \<and> m = DRM_FORMAT_MOD_LINEAR)"
proof -
  obtain tex rend where a: "add_driver_formats dr we xs False (we_texture_formats we) (we_render_formats we) w =
        Some (\<exists>x \<in> set xs. \<exists>ms. mods x = Some ms \<and> ms \<noteq> [], tex, rend, w)" "set_ok tex" "set_ok rend"
      "set_pairs tex = set_pairs (we_texture_formats we) \<union> (\<Union>x \<in> set xs. case mods x of None \<Rightarrow> {} | Some ms \<Rightarrow> sampled_pairs x ms)"
      "set_pairs rend = set_pairs (we_render_formats we) \<union> (\<Union>x \<in> set xs. case mods x of None \<Rightarrow> {} | Some ms \<Rightarrow> rendered_pairs x ms)"
    using add_driver_formats_spec [OF w q ok, of False] by auto
  have has: "drm_format_set_has st x m \<longleftrightarrow> (x, m) \<in> set_pairs st" if "set_ok st" for st x m
    using set_has_pairs [OF that] by (simp add: set_pairs_def)
  show ?thesis
    by (rule exI [of _ "we\<lparr>we_has_modifiers := \<exists>x \<in> set xs. \<exists>ms. mods x = Some ms \<and> ms \<noteq> [],
        we_texture_formats := tex, we_render_formats := rend\<rparr>"])
      (simp add: init_dmabuf_formats_def f a(1) has [OF a(2)] has [OF a(3)] has [OF ok(1)] has [OF ok(2)] a(4,5)
        sampled_mem rendered_mem)
qed

lemma init_formats_ok:
  assumes w: "alloc_script w = []" and ok: "set_ok (we_texture_formats we)" "set_ok (we_render_formats we)"
    and f: "get_egl_dmabuf_formats dr we w = Some (Some xs, w)"
    and q: "\<forall>x \<in> set xs. get_egl_dmabuf_modifiers dr we x w = Some (mods x, w)"
    and i: "init_dmabuf_formats dr we w = Some (we', w')"
  shows "set_ok (we_texture_formats we')"
  using add_driver_formats_spec [OF w q ok, of False] f i by (auto simp: init_dmabuf_formats_def)

text \<open>C39: When memory suffices, the formats of the driver are taken over exactly: a format and modifier can be
  sampled if the driver lists the modifier for the format, if the modifier is the implicit one, or if
  the driver lists no modifier and it is the linear one; formats whose modifiers cannot be queried are
  left out.  The driver counts as one with modifiers if it lists one for some format.  The claim is
  about sampling only (lemma \<open>init_formats_spec\<close> says what is taken over for rendering).\<close>

theorem egl_formats_exact:
  assumes "alloc_script w = []" "set_ok (we_texture_formats we)" "set_ok (we_render_formats we)"
    and "get_egl_dmabuf_formats dr we w = Some (Some xs, w)"
    and "\<forall>x \<in> set xs. get_egl_dmabuf_modifiers dr we x w = Some (mods x, w)"
  shows "\<exists>we'. init_dmabuf_formats dr we w = Some (we', w) \<and>
    we_has_modifiers we' = (\<exists>x \<in> set xs. \<exists>ms. mods x = Some ms \<and> ms \<noteq> []) \<and>
    (\<forall>x m. drm_format_set_has (we_texture_formats we') x m \<longleftrightarrow> drm_format_set_has (we_texture_formats we) x m \<or>
       x \<in> set xs \<and> (\<exists>ms. mods x = Some ms \<and> (m \<in> fst ` set ms \<or> m = DRM_FORMAT_MOD_INVALID \<or> ms = [] \<and> m = DRM_FORMAT_MOD_LINEAR)))"
  using init_formats_spec [OF assms] by blast

text \<open>A driver with one format that can be rendered with modifier 5, and one without modifiers.\<close>

definition sample_driver :: driver where
  "sample_driver = \<lparr>gl_procs = (\<lambda>_. True), gl_client_exts = Some ''EGL_EXT_platform_base EGL_KHR_platform_gbm'', gl_bind_api = True,
     gl_device_queries = (True, True), gl_devices = [], gl_device = None, gl_all_devices = None, gl_platform_display = True,
     gl_initialize = True, gl_display_exts = Some ''EGL_KHR_no_config_context EGL_KHR_surfaceless_context'',
     gl_display_device = None, gl_device_exts = None, gl_allow_software = None, gl_formats_num = Some 2,
     gl_formats = Some [17, 34], gl_modifiers_num = (\<lambda>x. Some (if x = 17 then 1 else 0)),
     gl_modifiers = (\<lambda>x. Some (if x = 17 then [(5, False)] else [])), gl_context = (\<lambda>_. True), gl_render_name = True,
     gl_primary_name = True, gl_open = 12, gl_gbm = True, gl_image = (\<lambda>_. True)\<rparr>"

definition sample_egl :: westfield_egl where
  "sample_egl = zero_egl\<lparr>we_drm_fd := 9, we_KHR_image_base := True, we_dma_buf_import := True, we_dma_buf_import_modifiers := True,
     we_procs := (\<lambda>_. True)\<rparr>"

lemma empty_set_ok: "set_ok empty_set" "\<not> drm_format_set_has empty_set x m"
  using set_has_pairs [of empty_set x m] by (simp_all add: set_ok_def empty_set_def pairs_of_def)

lemma egl_formats_exact_witness:
  "\<exists>we'. init_dmabuf_formats sample_driver sample_egl os_init = Some (we', os_init) \<and> we_has_modifiers we' \<and>
    drm_format_set_has (we_texture_formats we') 17 5 \<and> \<not> drm_format_set_has (we_texture_formats we') 34 5 \<and>
    drm_format_set_has (we_texture_formats we') 34 DRM_FORMAT_MOD_LINEAR \<and>
    \<not> drm_format_set_has (we_texture_formats we') 17 DRM_FORMAT_MOD_LINEAR"
proof -
  have q: "\<forall>x \<in> set [17, 34]. get_egl_dmabuf_modifiers sample_driver sample_egl x os_init =
      Some ((\<lambda>x. Some (if x = 17 then [(5, False)] else [])) x, os_init)"
    by (simp add: get_egl_dmabuf_modifiers_def sample_driver_def sample_egl_def zero_egl_def sys_malloc_def os_init_def)
  show ?thesis
    using egl_formats_exact [where xs = "[17, 34]", OF _ _ _ _ q]
    by (fastforce simp: get_egl_dmabuf_formats_def sample_driver_def sample_egl_def zero_egl_def sys_malloc_def os_init_def
        empty_set_ok DRM_FORMAT_MOD_INVALID_def DRM_FORMAT_MOD_LINEAR_def)
qed

lemma put_attribs_eq: "put_attribs cap xs as = (if xs = [] \<or> length as + length xs \<le> cap then Some (as @ xs) else None)"
  by (induction xs arbitrary: as) auto

lemma length_plane_attribs:
  "length (plane_attribs we at i) = (if we_has_modifiers we \<and> da_modifier at \<noteq> DRM_FORMAT_MOD_INVALID then 10 else 6)"
  by (simp add: plane_attribs_def)

lemma length_planes: "length (concat (map (plane_attribs we at) is)) \<le> 10 * length is"
  by (induction "is") (simp_all add: length_plane_attribs)

lemma put_planes_eq:
  "\<forall>i \<in> set is. i < WESTFIELD_DMABUF_MAX_PLANES \<Longrightarrow> length as + 10 * length is \<le> 50 \<Longrightarrow>
     put_planes we at is as = Some (as @ concat (map (plane_attribs we at) is))"
proof (induction "is" arbitrary: as)
  case (Cons i "is")
  have "length (plane_attribs we at i) \<le> 10" by (simp add: length_plane_attribs)
  then show ?case using Cons by (simp add: put_attribs_eq)
qed simp

text \<open>C10: Making an image of a DMA-BUF with at most four planes never writes outside the array of 50
  attributes and leaves room in it: when the display can import and has loaded the function, the driver
  is handed the dimensions and format, then each plane in order with its descriptor, offset, stride
  and, where the driver supports modifiers and the buffer has one, the halves of the modifier, and the
  end mark; otherwise there is no image and no call.  The flag reports whether the pair of the buffer
  is among the renderable ones.\<close>

theorem egl_image_attribs_fit:
  assumes "da_n_planes at \<le> WESTFIELD_DMABUF_MAX_PLANES" and "we_KHR_image_base we \<longrightarrow> we_procs we ''eglCreateImageKHR''"
  defines "attribs \<equiv> [Name ''EGL_WIDTH'', Value (of_int (da_width at)), Name ''EGL_HEIGHT'', Value (of_int (da_height at)),
      Name ''EGL_LINUX_DRM_FOURCC_EXT'', Value (da_format at)] @ concat (map (plane_attribs we at) [0..<da_n_planes at]) @
      [Name ''EGL_IMAGE_PRESERVED_KHR'', Name ''EGL_TRUE'', Name ''EGL_NONE'']"
  shows "westfield_egl_create_image_from_dmabuf dr we at w =
     (if we_KHR_image_base we \<and> we_dma_buf_import we \<and>
         (we_has_modifiers we \<or> da_modifier at \<in> {DRM_FORMAT_MOD_INVALID, DRM_FORMAT_MOD_LINEAR}) \<and> gl_image dr attribs
      then Some (Some (attribs, \<not> drm_format_set_has (we_render_formats we) (da_format at) (da_modifier at)),
        egl_do (ImageCreated attribs) w)
      else Some (None, w)) \<and> length attribs < 50"
proof -
  let ?hd = "[Name ''EGL_WIDTH'', Value (of_int (da_width at)), Name ''EGL_HEIGHT'', Value (of_int (da_height at)),
      Name ''EGL_LINUX_DRM_FOURCC_EXT'', Value (da_format at)]"
  let ?pl = "concat (map (plane_attribs we at) [0..<da_n_planes at])"
  have n: "length ?pl \<le> 40" using length_planes [of we at "[0..<da_n_planes at]"] assms(1) by (simp add: WESTFIELD_DMABUF_MAX_PLANES_def)
  have p: "put_planes we at [0..<da_n_planes at] ?hd = Some (?hd @ ?pl)"
    by (rule put_planes_eq) (use assms(1) in \<open>auto simp: WESTFIELD_DMABUF_MAX_PLANES_def\<close>)
  have h: "put_attribs 50 ?hd [] = Some ?hd" by (simp add: put_attribs_eq)
  have t: "put_attribs 50 [Name ''EGL_IMAGE_PRESERVED_KHR'', Name ''EGL_TRUE''] (?hd @ ?pl) =
        Some (?hd @ ?pl @ [Name ''EGL_IMAGE_PRESERVED_KHR'', Name ''EGL_TRUE''])"
      "put_attribs 50 [Name ''EGL_NONE''] (?hd @ ?pl @ [Name ''EGL_IMAGE_PRESERVED_KHR'', Name ''EGL_TRUE'']) = Some attribs"
    unfolding put_attribs_eq attribs_def using n by simp_all
  have l: "length attribs < 50" unfolding attribs_def using n by simp
  show ?thesis
    unfolding westfield_egl_create_image_from_dmabuf_def h p t bind.bind_lunit
    using l assms(2) by (auto simp del: put_attribs.simps)
qed

definition four_planes :: dmabuf_attributes where
  "four_planes = \<lparr>da_width = 64, da_height = 32, da_format = 17, da_modifier = 5, da_n_planes = 4, da_offset = [0, 64, 128, 192],
     da_stride = [256, 128, 128, 64], da_fd = [20, 21, 22, 23]\<rparr>"

text \<open>With four planes and modifiers the list is full but for one element.\<close>

lemma egl_image_attribs_fit_witness:
  "\<exists>attribs w. westfield_egl_create_image_from_dmabuf sample_driver (sample_egl\<lparr>we_has_modifiers := True\<rparr>) four_planes
      \<lparr>ew_os = os_init, ew_calls = []\<rparr> = Some (Some (attribs, True), w) \<and> length attribs = 49"
proof -
  let ?we = "sample_egl\<lparr>we_has_modifiers := True\<rparr>"
  have s: "sum_list (map (\<lambda>i. length (plane_attribs ?we four_planes i)) [0..<da_n_planes four_planes]) = 40"
    by (simp add: length_plane_attribs four_planes_def DRM_FORMAT_MOD_INVALID_def upt_conv_Cons)
  have n: "da_n_planes four_planes \<le> WESTFIELD_DMABUF_MAX_PLANES" by (simp add: four_planes_def WESTFIELD_DMABUF_MAX_PLANES_def)
  have p: "we_KHR_image_base ?we \<longrightarrow> we_procs ?we ''eglCreateImageKHR''" by (simp add: sample_egl_def)
  show ?thesis using egl_image_attribs_fit [OF n p, of sample_driver "\<lparr>ew_os = os_init, ew_calls = []\<rparr>"] s
    by (simp add: sample_egl_def sample_driver_def zero_egl_def empty_set_ok length_concat o_def)
qed

text \<open>The descriptors that the calls leave open.\<close>

fun still_open :: "int list \<Rightarrow> egl_call list \<Rightarrow> int list" where
  "still_open fds [] = fds"
| "still_open fds (c # cs) =
     still_open (case c of Opened f \<Rightarrow> f # fds | Closed f \<Rightarrow> remove1 f fds | _ \<Rightarrow> fds) cs"

lemma still_open_append: "still_open fds (cs @ ds) = still_open (still_open fds cs) ds"
  by (induction cs arbitrary: fds) auto

definition open_fds_of :: "egl_world \<Rightarrow> int list" where
  "open_fds_of w = still_open [] (ew_calls w)"

lemma open_fds_of_do [simp]:
  "open_fds_of (egl_do (Opened f) w) = f # open_fds_of w"
  "open_fds_of (egl_do (Closed f) w) = remove1 f (open_fds_of w)"
  "open_fds_of (egl_do Terminated w) = open_fds_of w" "open_fds_of (egl_do ReleasedThread w) = open_fds_of w"
  "open_fds_of (egl_do (GbmCreated f) w) = open_fds_of w" "open_fds_of (egl_do (GbmDestroyed g) w) = open_fds_of w"
  "open_fds_of (w\<lparr>ew_os := x\<rparr>) = open_fds_of w"
  by (simp_all add: open_fds_of_def egl_do_def still_open_append)

text \<open>The parts of the object that only the outermost functions set.\<close>

definition same_devices :: "westfield_egl \<Rightarrow> westfield_egl \<Rightarrow> bool" where
  "same_devices we we' \<longleftrightarrow> we_drm_fd we' = we_drm_fd we \<and> we_gbm_fd we' = we_gbm_fd we"

lemma load_same: "we_drm_fd (load dr n we) = we_drm_fd we" "we_gbm_fd (load dr n we) = we_gbm_fd we"
  "we_drm_fd (snd (load_egl_proc dr n we)) = we_drm_fd we" "we_gbm_fd (snd (load_egl_proc dr n we)) = we_gbm_fd we"
  by (simp_all add: load_def load_egl_proc_def)

lemma same_devices_steps:
  "same_devices we we" "same_devices we (load dr n x) = same_devices we x"
  "same_devices we (if c then x else y) = (if c then same_devices we x else same_devices we y)"
  "same_devices we (x\<lparr>we_platform_gbm := u, we_platform_device := v\<rparr>) = same_devices we x"
  "same_devices we (x\<lparr>we_device_query := u\<rparr>) = same_devices we x"
  by (simp_all add: same_devices_def load_same)

lemma guarded_create:
  "(if a then Some (x, we) else if b then Some (y, we1) else if c then None else Some (z, we5)) = Some (r, we') \<Longrightarrow>
     P we \<Longrightarrow> P we1 \<Longrightarrow> P we5 \<Longrightarrow> P we'"
  by (auto split: if_splits)

lemma egl_create_same:
  assumes c: "egl_create dr we = Some (r, we')"
  shows "same_devices we we'"
proof (cases "gl_client_exts dr")
  case None
  then show ?thesis using c by (simp add: egl_create_def same_devices_steps)
next
  case (Some exts)
  obtain r1 we1 where l: "load_egl_proc dr ''eglGetPlatformDisplayEXT'' we = (r1, we1)" by fastforce
  have s: "same_devices we we1" using load_same(3,4) [of dr "''eglGetPlatformDisplayEXT''" we] l by (simp add: same_devices_def)
  show ?thesis
    using c [unfolded egl_create_def Let_def Some option.case l prod.case]
    by (rule guarded_create) (simp_all only: same_devices_steps s if_cancel)
qed

lemma init_formats_same: "init_dmabuf_formats dr we w = Some (we', w') \<Longrightarrow> same_devices we we'"
  by (auto simp: init_dmabuf_formats_def same_devices_def bind_eq_Some_conv split: option.splits)

lemma init_device_same: "egl_init_device dr we = Some (ok, we') \<Longrightarrow> same_devices we we'"
  by (auto simp: egl_init_device_def same_devices_def Let_def split: option.splits if_splits)

lemma display_procs_same: "same_devices we (load_display_procs dr exts we)"
  by (simp add: load_display_procs_def same_devices_def Let_def load_same)

lemma guarded_result:
  "(if a then Some (False, x, w) else if b then Some (False, x, w) else if c then Some (False, x, w)
    else g \<bind> (\<lambda>(y, w1). Some (True, y, w1))) = Some (ok, x', w') \<Longrightarrow> x' = x \<or> (\<exists>w1. g = Some (x', w1))"
  by (auto simp: bind_eq_Some_conv split: if_splits)

lemma init_display_same:
  assumes i: "egl_init_display dr we w = Some (ok, we', w')"
  shows "same_devices we we'"
proof (cases "\<not> gl_initialize dr \<or> gl_display_exts dr = None")
  case True
  then have "we' = we\<lparr>we_display := True\<rparr>" using i unfolding egl_init_display_def Let_def by (cases "gl_initialize dr") auto
  then show ?thesis by (simp add: same_devices_def)
next
  case False
  then obtain exts where e: "gl_initialize dr" "gl_display_exts dr = Some exts" by blast
  let ?we1 = "load_display_procs dr exts (we\<lparr>we_display := True\<rparr>)"
  obtain ok1 we2 where d: "egl_init_device dr ?we1 = Some (ok1, we2)"
    using i unfolding egl_init_display_def Let_def e(2) by (cases "egl_init_device dr ?we1") (auto simp: e(1))
  have s2: "same_devices we we2" using init_device_same [OF d] display_procs_same [of "we\<lparr>we_display := True\<rparr>" dr exts]
    by (simp add: same_devices_def)
  have "we' = we2 \<or> (\<exists>w1 p. init_dmabuf_formats dr (we2\<lparr>we_context_priority := p\<rparr>) w = Some (we', w1))"
    using i unfolding egl_init_display_def Let_def e(2) option.case d bind.bind_lunit prod.case
    by (simp only: e(1) not_True_eq_False if_False) (drule guarded_result, blast)
  then show ?thesis
  proof
    assume "\<exists>w1 p. init_dmabuf_formats dr (we2\<lparr>we_context_priority := p\<rparr>) w = Some (we', w1)"
    then obtain w1 p where "init_dmabuf_formats dr (we2\<lparr>we_context_priority := p\<rparr>) w = Some (we', w1)" by blast
    from init_formats_same [OF this] s2 show ?thesis by (simp add: same_devices_def)
  qed (use s2 in simp)
qed

lemma egl_init_same:
  assumes i: "egl_init dr we w = Some (ok, we', w')"
  shows "same_devices we we' \<and> open_fds_of w' = open_fds_of w"
proof (cases "gl_platform_display dr")
  case False
  then show ?thesis using i by (auto simp: egl_init_def same_devices_def split: if_splits)
next
  case True
  then obtain ok1 we1 w1 where d: "egl_init_display dr we (ew_os w) = Some (ok1, we1, w1)"
    and c: "we' = we1 \<or> (\<exists>x. we' = we1\<lparr>we_context := x\<rparr>)" "w' \<in> {w\<lparr>ew_os := w1\<rparr>, egl_do Terminated (w\<lparr>ew_os := w1\<rparr>)}"
    using i unfolding egl_init_def by (force simp: bind_eq_Some_conv split: if_splits)
  show ?thesis using init_display_same [OF d] c by (auto simp: same_devices_def)
qed

lemma create_failed_open: "create_failed_egl we w = (r, we', w') \<Longrightarrow> r = - 1 \<and> we' = we \<and> open_fds_of w' = open_fds_of w"
  by (auto simp: create_failed_egl_def split: if_splits)

text \<open>What is open after the creation: on failure what was open before, on success the node of the GBM device too.\<close>

definition gbm_fds :: "westfield_egl \<Rightarrow> int list" where
  "gbm_fds we = (case we_gbm_fd we of None \<Rightarrow> [] | Some f \<Rightarrow> [f])"

lemma create_with_gbm_open:
  assumes c: "create_with_gbm dr we w = Some (r, we', w')"
  shows "we_drm_fd we' = we_drm_fd we \<and>
    (if r = 0 then we_gbm_fd we' = Some (gl_open dr) \<and> open_fds_of w' = gl_open dr # open_fds_of w else open_fds_of w' = open_fds_of w)"
proof (cases "we_platform_gbm we")
  case False
  then show ?thesis using c create_failed_open [of we w r we' w'] by (simp add: create_with_gbm_def)
next
  case True
  obtain fd w1 where o: "open_render_node dr w = (fd, w1)" by fastforce
  have o': "if fd < 0 then w1 = w else fd = gl_open dr \<and> w1 = egl_do (Opened fd) w"
    using o unfolding open_render_node_def by (auto split: if_splits)
  show ?thesis
  proof (cases "fd < 0 \<or> \<not> gl_gbm dr")
    case fails: True
    then have "fd < 0 \<and> create_failed_egl we w1 = (r, we', w') \<or>
        0 \<le> fd \<and> create_failed_egl (we\<lparr>we_gbm_fd := None\<rparr>) (egl_do (Closed fd) w1) = (r, we', w')"
      using c True o by (auto simp: create_with_gbm_def split: if_splits)
    then show ?thesis
    proof
      assume "fd < 0 \<and> create_failed_egl we w1 = (r, we', w')"
      then show ?thesis using o' create_failed_open [of we w1 r we' w'] by simp
    next
      assume f: "0 \<le> fd \<and> create_failed_egl (we\<lparr>we_gbm_fd := None\<rparr>) (egl_do (Closed fd) w1) = (r, we', w')"
      then show ?thesis using o' create_failed_open [of "we\<lparr>we_gbm_fd := None\<rparr>" "egl_do (Closed fd) w1" r we' w'] by simp
    qed
  next
    case False
    then obtain ok we2 w2 where e: "egl_init dr (we\<lparr>we_gbm_fd := Some fd\<rparr>) (egl_do (GbmCreated fd) w1) = Some (ok, we2, w2)"
      and res: "(if ok then (0, we2, w2) else create_failed_egl we2 (egl_do (Closed fd) (egl_do (GbmDestroyed (we_gbm_fd we2)) w2))) = (r, we', w')"
      using c True o by (auto simp: create_with_gbm_def bind_eq_Some_conv split: if_splits)
    have s: "we_drm_fd we2 = we_drm_fd we" "we_gbm_fd we2 = Some fd" "open_fds_of w2 = fd # open_fds_of w" "fd = gl_open dr"
      using egl_init_same [OF e] o' False by (simp_all add: same_devices_def)
    show ?thesis
    proof (cases ok)
      case True
      then show ?thesis using res s by auto
    next
      case False
      then have "create_failed_egl we2 (egl_do (Closed fd) (egl_do (GbmDestroyed (we_gbm_fd we2)) w2)) = (r, we', w')" using res by simp
      from create_failed_open [OF this] s show ?thesis by simp
    qed
  qed
qed

lemma create_with_drm_open:
  assumes c: "westfield_egl_egl_create_with_drm_fd h dr we w = Some (r, we', w')" and n: "we_gbm_fd we = None"
  shows "we_drm_fd we' = we_drm_fd we \<and>
    (if r = 0 then we_gbm_fd we' \<in> {None, Some (gl_open dr)} \<and> open_fds_of w' = gbm_fds we' @ open_fds_of w
     else open_fds_of w' = open_fds_of w)"
proof -
  obtain r1 we1 where e: "egl_create dr we = Some (r1, we1)"
    using c unfolding westfield_egl_egl_create_with_drm_fd_def by (cases "egl_create dr we") auto
  have s1: "we_drm_fd we1 = we_drm_fd we" "we_gbm_fd we1 = None" using egl_create_same [OF e] n by (simp_all add: same_devices_def)
  have gbm: ?thesis if "create_with_gbm dr we1 (w\<lparr>ew_os := x\<rparr>) = Some (r, we', w')" for x
    using create_with_gbm_open [OF that] s1 by (auto simp: gbm_fds_def split: if_splits)
  have dev: ?thesis if i: "egl_init dr we1 (w\<lparr>ew_os := x\<rparr>) = Some (ok, we2, w2)"
      "(if ok then (0, we2, w2) else create_failed_egl we2 w2) = (r, we', w')" for x ok we2 w2
    using egl_init_same [OF i(1)] i(2) s1 by (cases ok) (auto simp: same_devices_def gbm_fds_def dest!: create_failed_open)
  show ?thesis
  proof (cases "r1 = 0 \<and> we_platform_device we1")
    case True
    then obtain d x where g: "get_egl_device_from_drm_fd h dr we1 (ew_os w) = Some (d, x)"
      using c e unfolding westfield_egl_egl_create_with_drm_fd_def by (cases "get_egl_device_from_drm_fd h dr we1 (ew_os w)") auto
    show ?thesis
    proof (cases d)
      case None
      then have "create_with_gbm dr we1 (w\<lparr>ew_os := x\<rparr>) = Some (r, we', w')"
        using c e True g unfolding westfield_egl_egl_create_with_drm_fd_def by simp
      then show ?thesis by (rule gbm)
    next
      case (Some dd)
      then obtain ok we2 w2 where "egl_init dr we1 (w\<lparr>ew_os := x\<rparr>) = Some (ok, we2, w2)"
          "(if ok then (0, we2, w2) else create_failed_egl we2 w2) = (r, we', w')"
        using c e True g by (auto simp: westfield_egl_egl_create_with_drm_fd_def bind_eq_Some_conv split: if_splits)
      then show ?thesis by (rule dev)
    qed
  next
    case False
    show ?thesis
    proof (cases "r1 = 0")
      case True
      then have "create_with_gbm dr we1 (w\<lparr>ew_os := ew_os w\<rparr>) = Some (r, we', w')"
        using c e False unfolding westfield_egl_egl_create_with_drm_fd_def by simp
      then show ?thesis by (rule gbm)
    next
      case False
      then have "r = - 1" "we' = we1" "w' = w" using c e unfolding westfield_egl_egl_create_with_drm_fd_def by simp_all
      then show ?thesis using s1 by simp
    qed
  qed
qed

text \<open>C38: Opening a device keeps descriptors in balance on every path: when it fails - the device or a node
  cannot be opened, an extension is missing, the display or context cannot be made - every descriptor
  it opened is closed again; when it succeeds, the device stays open and, if GBM is used, one node of
  it.  Finalizing the object closes the device but leaves that node open.\<close>

theorem egl_new_descriptors:
  assumes "westfield_egl_new have_render dr fd w = Some (res, w')" "gl_open dr \<noteq> fd"
  shows "case res of
      None \<Rightarrow> open_fds_of w' = open_fds_of w
    | Some we \<Rightarrow> westfield_egl_get_device_fd we = fd \<and> gbm_fds we \<in> {[], [gl_open dr]} \<and>
        open_fds_of w' = gbm_fds we @ fd # open_fds_of w \<and>
        open_fds_of (westfield_egl_finalize we w') = gbm_fds we @ open_fds_of w"
proof -
  obtain mem w1 where m: "sys_malloc (ew_os w) = (mem, w1)" by fastforce
  show ?thesis
  proof (cases "fd < 0")
    case True
    then show ?thesis using assms(1) m by (auto simp: westfield_egl_new_def)
  next
    case False
    let ?we0 = "zero_egl\<lparr>we_drm_fd := fd\<rparr>" and ?w2 = "egl_do (Opened fd) (w\<lparr>ew_os := w1\<rparr>)"
    obtain r we w3 where c: "westfield_egl_egl_create_with_drm_fd have_render dr ?we0 ?w2 = Some (r, we, w3)"
      and res: "(if r \<noteq> 0 then (None, egl_do (Closed fd) w3) else (Some we, w3)) = (res, w')"
      using assms(1) m False by (auto simp: westfield_egl_new_def bind_eq_Some_conv split: if_splits)
    have k: "we_drm_fd we = fd" "r = 0 \<Longrightarrow> we_gbm_fd we \<in> {None, Some (gl_open dr)}"
        "open_fds_of w3 = (if r = 0 then gbm_fds we @ fd # open_fds_of w else fd # open_fds_of w)"
      using create_with_drm_open [OF c] by (auto simp: zero_egl_def)
    show ?thesis
    proof (cases "r = 0")
      case True
      then show ?thesis using res k assms(2)
        by (auto simp: westfield_egl_get_device_fd_def westfield_egl_finalize_def gbm_fds_def)
    next
      case False
      then have "res = None" "w' = egl_do (Closed fd) w3" using res by simp_all
      then show ?thesis using k(3) False by simp
    qed
  qed
qed

lemma sample_exts:
  "check_egl_ext ''EGL_EXT_platform_base EGL_KHR_platform_gbm'' ''EGL_EXT_platform_base''"
  "check_egl_ext ''EGL_EXT_platform_base EGL_KHR_platform_gbm'' ''EGL_KHR_platform_gbm''"
  "\<not> check_egl_ext ''EGL_EXT_platform_base EGL_KHR_platform_gbm'' ''EGL_EXT_platform_device''"
  "\<not> check_egl_ext ''EGL_EXT_platform_base EGL_KHR_platform_gbm'' ''EGL_EXT_device_base''"
  "\<not> check_egl_ext ''EGL_EXT_platform_base EGL_KHR_platform_gbm'' ''EGL_EXT_device_enumeration''"
  "\<not> check_egl_ext ''EGL_EXT_platform_base EGL_KHR_platform_gbm'' ''EGL_EXT_device_query''"
  "\<not> check_egl_ext ''EGL_EXT_platform_base EGL_KHR_platform_gbm'' ''EGL_KHR_debug''"
  "\<not> check_egl_ext ''EGL_KHR_no_config_context EGL_KHR_surfaceless_context'' ''EGL_KHR_image_base''"
  "\<not> check_egl_ext ''EGL_KHR_no_config_context EGL_KHR_surfaceless_context'' ''EGL_EXT_image_dma_buf_import''"
  "\<not> check_egl_ext ''EGL_KHR_no_config_context EGL_KHR_surfaceless_context'' ''EGL_EXT_image_dma_buf_import_modifiers''"
  "check_egl_ext ''EGL_KHR_no_config_context EGL_KHR_surfaceless_context'' ''EGL_KHR_no_config_context''"
  "check_egl_ext ''EGL_KHR_no_config_context EGL_KHR_surfaceless_context'' ''EGL_KHR_surfaceless_context''"
  "\<not> check_egl_ext ''EGL_KHR_no_config_context EGL_KHR_surfaceless_context'' ''EGL_IMG_context_priority''"
  by code_simp+

text \<open>A driver with GBM, which leaves descriptor 12 open at the end.\<close>

lemma egl_new_descriptors_witness:
  "\<exists>we w'. westfield_egl_new True sample_driver 9 \<lparr>ew_os = os_init, ew_calls = []\<rparr> = Some (Some we, w') \<and>
    open_fds_of (westfield_egl_finalize we w') = [12]"
proof -
  obtain we w' where n: "westfield_egl_new True sample_driver 9 \<lparr>ew_os = os_init, ew_calls = []\<rparr> = Some (Some we, w')" "we_gbm_fd we = Some 12"
    by (simp add: westfield_egl_new_def westfield_egl_egl_create_with_drm_fd_def egl_create_def sample_driver_def sample_exts load_def
        load_egl_proc_def Let_def zero_egl_def sys_malloc_def os_init_def create_with_gbm_def open_render_node_def egl_init_def
        egl_init_display_def egl_init_device_def load_display_procs_def init_dmabuf_formats_def get_egl_dmabuf_formats_def)
  have "gl_open sample_driver \<noteq> 9" by (simp add: sample_driver_def)
  from egl_new_descriptors [OF n(1) this] n show ?thesis by (simp add: gbm_fds_def open_fds_of_def)
qed

end
