(* ===== verification/WlOs.thy ===== *)
theory WlOs
  imports Prelude
begin

text \<open>
  The wrappers of wayland-os.c, which make every descriptor they return close-on-exec also on kernels
  that do not know the flag, and the anonymous file of westfield-fdutils.c.  The descriptors of the
  process are a map from numbers to what they are open on and whether they are close-on-exec;
  whether each call succeeds is read from a script (used up: it succeeds).
\<close>

section \<open>Descriptors\<close>

datatype open_file = SocketFile u32 u32 u32 | Accepted int | EpollFile | Received | Anonymous nat | Other nat

record proc =
  pr_open :: "int \<Rightarrow> (open_file \<times> bool) option"
  pr_next :: int
  pr_script :: "errno option list"
  pr_names :: "string set"

definition pr_outcome :: "proc \<Rightarrow> errno option \<times> proc" where
  "pr_outcome st = (case pr_script st of [] \<Rightarrow> (None, st) | r # rs \<Rightarrow> (r, st\<lparr>pr_script := rs\<rparr>))"

text \<open>A new descriptor has a number that is not in use, and not below \<open>least\<close>.\<close>

definition install :: "int \<Rightarrow> open_file \<Rightarrow> bool \<Rightarrow> proc \<Rightarrow> int \<times> proc" where
  "install least what cloexec st =
     (let fd = max least (pr_next st) in
      (fd, st\<lparr>pr_open := (pr_open st)(fd \<mapsto> (what, cloexec)), pr_next := fd + 1\<rparr>))"

definition pr_new :: "int \<Rightarrow> open_file \<Rightarrow> bool \<Rightarrow> proc \<Rightarrow> (errno + int) \<times> proc" where
  "pr_new least what cloexec st =
     (case pr_outcome st of
        (Some e, st1) \<Rightarrow> (Inl e, st1)
      | (None, st1) \<Rightarrow> (case install least what cloexec st1 of (fd, st2) \<Rightarrow> (Inr fd, st2)))"

definition pr_close :: "int \<Rightarrow> proc \<Rightarrow> proc" where
  "pr_close fd st = st\<lparr>pr_open := (pr_open st)(fd := None)\<rparr>"

definition FD_CLOEXEC :: u32 where "FD_CLOEXEC = 1"
definition SOCK_CLOEXEC :: u32 where "SOCK_CLOEXEC = 0x80000"
definition MSG_CMSG_CLOEXEC :: u32 where "MSG_CMSG_CLOEXEC = 0x40000000"

definition sys_getfd :: "int \<Rightarrow> proc \<Rightarrow> (errno + u32) \<times> proc" where
  "sys_getfd fd st =
     (case pr_outcome st of
        (Some e, st1) \<Rightarrow> (Inl e, st1)
      | (None, st1) \<Rightarrow>
          (case pr_open st1 fd of
             None \<Rightarrow> (Inl EBADF, st1)
           | Some (what, cloexec) \<Rightarrow> (Inr (if cloexec then FD_CLOEXEC else 0), st1)))"

definition sys_setfd :: "int \<Rightarrow> u32 \<Rightarrow> proc \<Rightarrow> (errno + unit) \<times> proc" where
  "sys_setfd fd flags st =
     (case pr_outcome st of
        (Some e, st1) \<Rightarrow> (Inl e, st1)
      | (None, st1) \<Rightarrow>
          (case pr_open st1 fd of
             None \<Rightarrow> (Inl EBADF, st1)
           | Some (what, _) \<Rightarrow> (Inr (), st1\<lparr>pr_open := (pr_open st1)(fd \<mapsto> (what, flags AND FD_CLOEXEC \<noteq> 0))\<rparr>)))"

definition sys_socket_call :: "u32 \<Rightarrow> u32 \<Rightarrow> u32 \<Rightarrow> proc \<Rightarrow> (errno + int) \<times> proc" where
  "sys_socket_call domain type protocol st =
     pr_new 0 (SocketFile domain (type AND NOT SOCK_CLOEXEC) protocol) (type AND SOCK_CLOEXEC \<noteq> 0) st"

definition sys_fcntl_dup :: "bool \<Rightarrow> int \<Rightarrow> int \<Rightarrow> proc \<Rightarrow> (errno + int) \<times> proc" where
  "sys_fcntl_dup cloexec fd minfd st =
     (case pr_open st fd of
        None \<Rightarrow> (Inl EBADF, snd (pr_outcome st))
      | Some (what, _) \<Rightarrow> pr_new minfd what cloexec st)"

text \<open>The descriptors of the received control messages get their numbers when the message is received.\<close>

fun install_all :: "bool \<Rightarrow> nat \<Rightarrow> proc \<Rightarrow> int list \<times> proc" where
  "install_all cloexec 0 st = ([], st)"
| "install_all cloexec (Suc n) st =
     (case install 0 Received cloexec st of (fd, st1) \<Rightarrow>
      case install_all cloexec n st1 of (fds, st2) \<Rightarrow> (fd # fds, st2))"

text \<open>A control message: whether it passes descriptors, and them; \<open>msg\<close> tells how many arrive in each.\<close>

fun install_cmsgs :: "bool \<Rightarrow> (bool \<times> nat) list \<Rightarrow> proc \<Rightarrow> (bool \<times> int list) list \<times> proc" where
  "install_cmsgs cloexec [] st = ([], st)"
| "install_cmsgs cloexec ((rights, n) # ms) st =
     (case install_all cloexec (if rights then n else 0) st of (fds, st1) \<Rightarrow>
      case install_cmsgs cloexec ms st1 of (cs, st2) \<Rightarrow> ((rights, fds) # cs, st2))"

definition sys_recvmsg_call ::
  "u32 \<Rightarrow> nat \<times> (bool \<times> nat) list \<Rightarrow> proc \<Rightarrow> (errno + nat \<times> (bool \<times> int list) list) \<times> proc" where
  "sys_recvmsg_call flags msg st =
     (case pr_outcome st of
        (Some e, st1) \<Rightarrow> (Inl e, st1)
      | (None, st1) \<Rightarrow>
          (case install_cmsgs (flags AND MSG_CMSG_CLOEXEC \<noteq> 0) (snd msg) st1 of (cs, st2) \<Rightarrow> (Inr (fst msg, cs), st2)))"

section \<open>The wrappers\<close>

text \<open>The results are the descriptor, or the error for -1.\<close>

definition set_cloexec_or_close :: "errno + int \<Rightarrow> proc \<Rightarrow> (errno + int) \<times> proc" where
  "set_cloexec_or_close r st =
     (case r of
        Inl e \<Rightarrow> (Inl e, st)
      | Inr fd \<Rightarrow>
          (case sys_getfd fd st of
             (Inl e, st1) \<Rightarrow> (Inl e, pr_close fd st1)
           | (Inr flags, st1) \<Rightarrow>
               (case sys_setfd fd (flags OR FD_CLOEXEC) st1 of
                  (Inl e, st2) \<Rightarrow> (Inl e, pr_close fd st2)
                | (Inr _, st2) \<Rightarrow> (Inr fd, st2))))"

definition wl_os_socket_cloexec :: "u32 \<Rightarrow> u32 \<Rightarrow> u32 \<Rightarrow> proc \<Rightarrow> (errno + int) \<times> proc" where
  "wl_os_socket_cloexec domain type protocol st =
     (case sys_socket_call domain (type OR SOCK_CLOEXEC) protocol st of
        (Inr fd, st1) \<Rightarrow> (Inr fd, st1)
      | (Inl e, st1) \<Rightarrow>
          if e \<noteq> EINVAL then (Inl e, st1)
          else (case sys_socket_call domain type protocol st1 of (r, st2) \<Rightarrow> set_cloexec_or_close r st2))"

definition wl_os_dupfd_cloexec :: "int \<Rightarrow> int \<Rightarrow> proc \<Rightarrow> (errno + int) \<times> proc" where
  "wl_os_dupfd_cloexec fd minfd st =
     (case sys_fcntl_dup True fd minfd st of
        (Inr newfd, st1) \<Rightarrow> (Inr newfd, st1)
      | (Inl e, st1) \<Rightarrow>
          if e \<noteq> EINVAL then (Inl e, st1)
          else (case sys_fcntl_dup False fd minfd st1 of (r, st2) \<Rightarrow> set_cloexec_or_close r st2))"

text \<open>The first argument tells whether \<open>EPOLL_CLOEXEC\<close> is defined.\<close>

definition wl_os_epoll_create_cloexec :: "bool \<Rightarrow> proc \<Rightarrow> (errno + int) \<times> proc" where
  "wl_os_epoll_create_cloexec epoll_cloexec st =
     (let old = (\<lambda>st. case pr_new 0 EpollFile False st of (r, st1) \<Rightarrow> set_cloexec_or_close r st1) in
      if \<not> epoll_cloexec then old st
      else (case pr_new 0 EpollFile True st of
          (Inr fd, st1) \<Rightarrow> (Inr fd, st1)
        | (Inl e, st1) \<Rightarrow> if e \<noteq> EINVAL then (Inl e, st1) else old st1))"

text \<open>The first argument tells whether \<open>HAVE_ACCEPT4\<close> is defined.\<close>

definition wl_os_accept_cloexec :: "bool \<Rightarrow> int \<Rightarrow> proc \<Rightarrow> (errno + int) \<times> proc" where
  "wl_os_accept_cloexec have_accept4 sockfd st =
     (let old = (\<lambda>st. case pr_new 0 (Accepted sockfd) False st of (r, st1) \<Rightarrow> set_cloexec_or_close r st1) in
      if \<not> have_accept4 then old st
      else (case pr_new 0 (Accepted sockfd) True st of
          (Inr fd, st1) \<Rightarrow> (Inr fd, st1)
        | (Inl e, st1) \<Rightarrow> if e \<noteq> ENOSYS then (Inl e, st1) else old st1))"

text \<open>What \<open>getsockopt\<close> reports, if it succeeds: the ids of the user, the group and the process.\<close>

definition wl_os_socket_peercred :: "errno + u32 \<times> u32 \<times> int \<Rightarrow> u32 \<times> u32 \<times> int \<Rightarrow> int \<times> u32 \<times> u32 \<times> int" where
  "wl_os_socket_peercred ucred creds = (case ucred of Inl _ \<Rightarrow> (- 1, creds) | Inr c \<Rightarrow> (0, c))"

section \<open>Receiving\<close>

definition int_of_result :: "errno + int \<Rightarrow> int" where
  "int_of_result r = (case r of Inl _ \<Rightarrow> - 1 | Inr fd \<Rightarrow> fd)"

fun cloexec_fds :: "int list \<Rightarrow> proc \<Rightarrow> int list \<times> proc" where
  "cloexec_fds [] st = ([], st)"
| "cloexec_fds (fd # fds) st =
     (case set_cloexec_or_close (Inr fd) st of (r, st1) \<Rightarrow>
      case cloexec_fds fds st1 of (fds', st2) \<Rightarrow> (int_of_result r # fds', st2))"

fun cloexec_cmsgs :: "(bool \<times> int list) list \<Rightarrow> proc \<Rightarrow> (bool \<times> int list) list \<times> proc" where
  "cloexec_cmsgs [] st = ([], st)"
| "cloexec_cmsgs ((rights, fds) # cs) st =
     (case (if rights then cloexec_fds fds st else (fds, st)) of (fds', st1) \<Rightarrow>
      case cloexec_cmsgs cs st1 of (cs', st2) \<Rightarrow> ((rights, fds') # cs', st2))"

definition recvmsg_cloexec_fallback ::
  "nat \<times> (bool \<times> nat) list \<Rightarrow> u32 \<Rightarrow> proc \<Rightarrow> (errno + nat \<times> (bool \<times> int list) list) \<times> proc" where
  "recvmsg_cloexec_fallback msg flags st =
     (case sys_recvmsg_call flags msg st of
        (Inl e, st1) \<Rightarrow> (Inl e, st1)
      | (Inr (len, cs), st1) \<Rightarrow> (case cloexec_cmsgs cs st1 of (cs', st2) \<Rightarrow> (Inr (len, cs'), st2)))"

text \<open>The first argument tells whether \<open>HAVE_BROKEN_MSG_CMSG_CLOEXEC\<close> is set.\<close>

definition wl_os_recvmsg_cloexec ::
  "bool \<Rightarrow> nat \<times> (bool \<times> nat) list \<Rightarrow> u32 \<Rightarrow> proc \<Rightarrow> (errno + nat \<times> (bool \<times> int list) list) \<times> proc" where
  "wl_os_recvmsg_cloexec broken msg flags st =
     (if broken then recvmsg_cloexec_fallback msg flags st
      else (case sys_recvmsg_call (flags OR MSG_CMSG_CLOEXEC) msg st of
          (Inr r, st1) \<Rightarrow> (Inr r, st1)
        | (Inl e, st1) \<Rightarrow> if e \<noteq> EINVAL then (Inl e, st1) else recvmsg_cloexec_fallback msg flags st1))"

section \<open>Moving a mapping\<close>

text \<open>
  The mappings are contents by address; \<open>res\<close> is the result of \<open>mmap\<close> (\<open>None\<close>: it failed), whose
  content is that of the file, \<open>unmap_ok\<close> the outcome of \<open>munmap\<close>.  The result is the new address and
  the old size, which becomes 0 when the old mapping is gone.
\<close>

definition wl_os_mremap_maymove ::
  "u64 option \<Rightarrow> u8 list \<Rightarrow> bool \<Rightarrow> u64 \<Rightarrow> nat \<Rightarrow> nat \<Rightarrow> bool \<Rightarrow> (u64 \<Rightarrow> u8 list option) \<Rightarrow>
   (u64 option \<times> nat \<times> (u64 \<Rightarrow> u8 list option)) option" where
  "wl_os_mremap_maymove res content unmap_ok old_data old_size new_size keep_mapping m =
     (case res of
        None \<Rightarrow> Some (None, old_size, m)
      | Some a \<Rightarrow>
          (case m old_data of
             None \<Rightarrow> None
           | Some old \<Rightarrow>
               if length old < old_size \<or> new_size < old_size then None
               else
                 let m1 = m(a \<mapsto> take old_size old @ drop old_size (take new_size content)) in
                 if \<not> keep_mapping \<and> unmap_ok then Some (Some a, 0, m1(old_data := None))
                 else Some (Some a, old_size, m1)))"

section \<open>Anonymous files\<close>

text \<open>\<open>mkostemp\<close> creates the file under the name it makes of the template; \<open>unlink\<close> may fail.\<close>

definition sys_mkostemp :: "string \<Rightarrow> proc \<Rightarrow> (errno + int) \<times> proc" where
  "sys_mkostemp tmpname st =
     (if tmpname \<in> pr_names st then (Inl EEXIST, snd (pr_outcome st))
      else (case pr_new 0 (Anonymous 0) True st of
          (Inl e, st1) \<Rightarrow> (Inl e, st1)
        | (Inr fd, st1) \<Rightarrow> (Inr fd, st1\<lparr>pr_names := insert tmpname (pr_names st1)\<rparr>)))"

definition sys_unlink_name :: "string \<Rightarrow> proc \<Rightarrow> proc" where
  "sys_unlink_name tmpname st =
     (case pr_outcome st of
        (Some _, st1) \<Rightarrow> st1
      | (None, st1) \<Rightarrow> st1\<lparr>pr_names := pr_names st1 - {tmpname}\<rparr>)"

definition sys_fallocate :: "int \<Rightarrow> nat \<Rightarrow> proc \<Rightarrow> errno option \<times> proc" where
  "sys_fallocate fd n st =
     (case pr_outcome st of
        (Some e, st1) \<Rightarrow> (Some e, st1)
      | (None, st1) \<Rightarrow>
          (case pr_open st1 fd of
             Some (Anonymous _, cloexec) \<Rightarrow> (None, st1\<lparr>pr_open := (pr_open st1)(fd \<mapsto> (Anonymous n, cloexec))\<rparr>)
           | _ \<Rightarrow> (Some EBADF, st1)))"

definition create_tmpfile_cloexec :: "string \<Rightarrow> proc \<Rightarrow> (errno + int) \<times> proc" where
  "create_tmpfile_cloexec tmpname st =
     (case sys_mkostemp tmpname st of
        (Inl e, st1) \<Rightarrow> (Inl e, st1)
      | (Inr fd, st1) \<Rightarrow> (Inr fd, sys_unlink_name tmpname st1))"

definition tmpfile_template :: string where "tmpfile_template = ''/wayland-shared-''"

text \<open>\<open>path\<close> is \<open>XDG_RUNTIME_DIR\<close>, \<open>mem\<close> the outcome of \<open>malloc\<close>, \<open>six\<close> what replaces the six X of the template.\<close>

definition westfield_os_create_anonymous_file ::
  "string option \<Rightarrow> bool \<Rightarrow> string \<Rightarrow> nat \<Rightarrow> proc \<Rightarrow> (errno + int) \<times> proc" where
  "westfield_os_create_anonymous_file path mem six n st =
     (case path of
        None \<Rightarrow> (Inl ENOENT, st)
      | Some p \<Rightarrow>
          if \<not> mem then (Inl ENOMEM, st)
          else (case create_tmpfile_cloexec (p @ tmpfile_template @ six) st of
            (Inl e, st1) \<Rightarrow> (Inl e, st1)
          | (Inr fd, st1) \<Rightarrow>
              (case sys_fallocate fd n st1 of
                 (Some e, st2) \<Rightarrow> (Inl e, pr_close fd st2)
               | (None, st2) \<Rightarrow> (Inr fd, st2))))"

section \<open>Close-on-exec\<close>

definition proc_ok :: "proc \<Rightarrow> bool" where
  "proc_ok st \<longleftrightarrow> 0 \<le> pr_next st \<and> (\<forall>fd \<ge> pr_next st. pr_open st fd = None)"

text \<open>The result is a descriptor that was not open, of the object and close-on-exec, or nothing is left open.\<close>

definition delivers :: "open_file \<Rightarrow> proc \<Rightarrow> errno + int \<Rightarrow> proc \<Rightarrow> bool" where
  "delivers what st r st' \<longleftrightarrow>
     (case r of
        Inl _ \<Rightarrow> pr_open st' = pr_open st
      | Inr fd \<Rightarrow> 0 \<le> fd \<and> pr_open st fd = None \<and> pr_open st' = (pr_open st)(fd \<mapsto> (what, True)))"

lemma outcome_frame:
  "pr_outcome st = (r, st1) \<Longrightarrow> pr_open st1 = pr_open st \<and> pr_next st1 = pr_next st \<and> pr_names st1 = pr_names st"
  by (auto simp: pr_outcome_def split: list.splits)

lemma pr_new_cases:
  assumes "proc_ok st" "pr_new least what cloexec st = (r, st')"
  shows "proc_ok st' \<and> pr_names st' = pr_names st \<and> (case r of
      Inl _ \<Rightarrow> pr_open st' = pr_open st
    | Inr fd \<Rightarrow> 0 \<le> fd \<and> least \<le> fd \<and> pr_open st fd = None \<and> pr_open st' = (pr_open st)(fd \<mapsto> (what, cloexec)))"
  using assms by (auto simp: pr_new_def install_def Let_def proc_ok_def split: prod.splits option.splits dest!: outcome_frame)

text \<open>Marking a descriptor that is open, or closing it again.\<close>

lemma set_cloexec_cases:
  assumes "proc_ok st" "pr_open st fd = Some (what, c)" "set_cloexec_or_close (Inr fd) st = (r, st')"
  shows "proc_ok st' \<and> pr_names st' = pr_names st \<and>
    (r = Inr fd \<and> pr_open st' = (pr_open st)(fd \<mapsto> (what, True)) \<or> (\<exists>e. r = Inl e) \<and> pr_open st' = (pr_open st)(fd := None))"
proof -
  have "(flags OR FD_CLOEXEC) AND FD_CLOEXEC = FD_CLOEXEC" for flags
    by (rule bit_eqI) (auto simp: bit_simps)
  then have "(flags OR FD_CLOEXEC) AND FD_CLOEXEC \<noteq> 0" for flags by (simp add: FD_CLOEXEC_def)
  then show ?thesis
    using assms
    by (auto simp: set_cloexec_or_close_def sys_getfd_def sys_setfd_def pr_close_def proc_ok_def
        split: prod.splits option.splits sum.splits dest!: outcome_frame)
qed

text \<open>What the wrappers have in common: the flag is asked for, and set afterwards if the kernel does not know it.\<close>

lemma new_then_set:
  assumes ok: "proc_ok st" and run: "(case pr_new least what c st of (r, st1) \<Rightarrow> set_cloexec_or_close r st1) = (r, st')"
  shows "proc_ok st' \<and> pr_names st' = pr_names st \<and> delivers what st r st'"
proof -
  obtain r0 st1 where n: "pr_new least what c st = (r0, st1)" by fastforce
  note p = pr_new_cases [OF ok n]
  show ?thesis
  proof (cases r0)
    case (Inl e)
    then show ?thesis using p n run by (auto simp: set_cloexec_or_close_def delivers_def)
  next
    case (Inr fd)
    then have o: "0 \<le> fd" "pr_open st fd = None" "pr_open st1 = (pr_open st)(fd \<mapsto> (what, c))" "proc_ok st1" "pr_names st1 = pr_names st"
      using p by auto
    then have "pr_open st1 fd = Some (what, c)" by simp
    from set_cloexec_cases [OF o(4) this, of r st'] Inr n run o show ?thesis
      by (auto simp: delivers_def fun_upd_idem)
  qed
qed

lemma ask_or_set:
  assumes ok: "proc_ok st"
    and run: "(case pr_new least what True st of
        (Inr fd, st1) \<Rightarrow> (Inr fd, st1)
      | (Inl e, st1) \<Rightarrow> if e \<noteq> x then (Inl e, st1)
          else (case pr_new least what c st1 of (r, st2) \<Rightarrow> set_cloexec_or_close r st2)) = (r, st')"
  shows "proc_ok st' \<and> pr_names st' = pr_names st \<and> delivers what st r st'"
proof -
  obtain r0 st1 where n: "pr_new least what True st = (r0, st1)" by fastforce
  note p = pr_new_cases [OF ok n]
  show ?thesis
  proof (cases "r0 = Inl x")
    case False
    then show ?thesis using p n run by (auto simp: delivers_def split: sum.splits)
  next
    case True
    then have "(case pr_new least what c st1 of (r, st2) \<Rightarrow> set_cloexec_or_close r st2) = (r, st')" using n run by simp
    from new_then_set [OF _ this] p True show ?thesis by (auto simp: delivers_def split: sum.splits)
  qed
qed

section \<open>Sources of descriptors\<close>

text \<open>Opening a number of descriptors from the same source; the failures are left out.\<close>

fun open_many :: "(proc \<Rightarrow> (errno + int) \<times> proc) \<Rightarrow> nat \<Rightarrow> proc \<Rightarrow> int list \<times> proc" where
  "open_many src 0 st = ([], st)"
| "open_many src (Suc n) st =
     (case src st of (r, st1) \<Rightarrow>
      case open_many src n st1 of (fds, st2) \<Rightarrow> ((case r of Inl _ \<Rightarrow> fds | Inr fd \<Rightarrow> fd # fds), st2))"

locale descriptor_source =
  fixes src :: "proc \<Rightarrow> (errno + int) \<times> proc" and what :: open_file
  assumes delivered: "proc_ok st \<Longrightarrow> src st = (r, st') \<Longrightarrow> proc_ok st' \<and> pr_names st' = pr_names st \<and> delivers what st r st'"
begin

lemma open_many:
  "proc_ok st \<Longrightarrow> open_many src n st = (fds, st') \<Longrightarrow> proc_ok st' \<and> distinct fds \<and> (\<forall>fd \<in> set fds. pr_open st fd = None) \<and>
     pr_open st' = (\<lambda>fd. if fd \<in> set fds then Some (what, True) else pr_open st fd)"
proof (induction n arbitrary: st fds)
  case (Suc n)
  obtain r st1 where r: "src st = (r, st1)" by fastforce
  obtain fds1 where m: "open_many src n st1 = (fds1, st')" using Suc.prems(2) r by (auto split: prod.splits)
  have d: "proc_ok st1" "delivers what st r st1" using delivered [OF Suc.prems(1) r] by auto
  note IH = Suc.IH [OF d(1) m]
  show ?case
  proof (cases r)
    case (Inl e)
    then show ?thesis using IH d(2) r m Suc.prems(2) by (auto simp: delivers_def fun_eq_iff)
  next
    case (Inr fd)
    then have o: "pr_open st fd = None" "pr_open st1 = (pr_open st)(fd \<mapsto> (what, True))" "fds = fd # fds1"
      using d(2) r m Suc.prems(2) by (auto simp: delivers_def)
    have "x \<noteq> fd \<and> pr_open st x = None" if "x \<in> set fds1" for x
    proof -
      have "pr_open st1 x = None" using IH that by blast
      then show ?thesis unfolding o(2) by (auto split: if_splits)
    qed
    then show ?thesis using IH o unfolding o(2,3) by auto
  qed
qed simp

end

lemma cloexec_bits:
  "(t OR SOCK_CLOEXEC) AND SOCK_CLOEXEC \<noteq> 0" "(t OR SOCK_CLOEXEC) AND NOT SOCK_CLOEXEC = t AND NOT SOCK_CLOEXEC"
  "(f OR MSG_CMSG_CLOEXEC) AND MSG_CMSG_CLOEXEC \<noteq> 0"
proof -
  have a: "(t OR m) AND m = m" "(t OR m) AND NOT m = t AND NOT m" for t m :: u32
    by (rule bit_eqI, auto simp: bit_simps)+
  show "(t OR SOCK_CLOEXEC) AND SOCK_CLOEXEC \<noteq> 0" "(t OR SOCK_CLOEXEC) AND NOT SOCK_CLOEXEC = t AND NOT SOCK_CLOEXEC"
    "(f OR MSG_CMSG_CLOEXEC) AND MSG_CMSG_CLOEXEC \<noteq> 0"
    by (simp_all only: a) (simp_all add: SOCK_CLOEXEC_def MSG_CMSG_CLOEXEC_def)
qed

lemma wrapper_shape:
  "wl_os_socket_cloexec domain type protocol st =
    (case pr_new 0 (SocketFile domain (type AND NOT SOCK_CLOEXEC) protocol) True st of
        (Inr fd, st1) \<Rightarrow> (Inr fd, st1)
      | (Inl e, st1) \<Rightarrow> if e \<noteq> EINVAL then (Inl e, st1)
          else (case pr_new 0 (SocketFile domain (type AND NOT SOCK_CLOEXEC) protocol) (type AND SOCK_CLOEXEC \<noteq> 0) st1 of
            (r, st2) \<Rightarrow> set_cloexec_or_close r st2))"
  unfolding wl_os_socket_cloexec_def sys_socket_call_def cloexec_bits(2) eqTrueI [OF cloexec_bits(1)] ..

interpretation sockets: descriptor_source "wl_os_socket_cloexec domain type protocol"
  "SocketFile domain (type AND NOT SOCK_CLOEXEC) protocol" for domain type protocol
  by (rule descriptor_source.intro) (unfold wrapper_shape, rule ask_or_set)

interpretation epolls: descriptor_source "wl_os_epoll_create_cloexec epoll_cloexec" EpollFile for epoll_cloexec
  by (rule descriptor_source.intro, cases epoll_cloexec)
    (simp_all only: wl_os_epoll_create_cloexec_def Let_def if_True if_False not_True_eq_False not_False_eq_True,
      (rule ask_or_set new_then_set, assumption+)+)

interpretation accepts: descriptor_source "wl_os_accept_cloexec have_accept4 sockfd" "Accepted sockfd" for have_accept4 sockfd
  by (rule descriptor_source.intro, cases have_accept4)
    (simp_all only: wl_os_accept_cloexec_def Let_def if_True if_False not_True_eq_False not_False_eq_True,
      (rule ask_or_set new_then_set, assumption+)+)

section \<open>Received descriptors\<close>

text \<open>The descriptors \<open>fds\<close> are new, and open on received files with the flag \<open>c\<close>; nothing else changed.\<close>

definition received_as :: "bool \<Rightarrow> int list \<Rightarrow> proc \<Rightarrow> proc \<Rightarrow> bool" where
  "received_as c fds st st' \<longleftrightarrow> proc_ok st' \<and> distinct fds \<and> (\<forall>fd \<in> set fds. 0 \<le> fd \<and> pr_open st fd = None) \<and>
     pr_open st' = (\<lambda>fd. if fd \<in> set fds then Some (Received, c) else pr_open st fd)"

lemma received_as_Nil: "received_as c [] st st' \<longleftrightarrow> proc_ok st' \<and> pr_open st' = pr_open st"
  by (auto simp: received_as_def)

lemma received_as_append:
  assumes "received_as c xs st st1" "received_as c ys st1 st2"
  shows "received_as c (xs @ ys) st st2"
proof -
  have "x \<notin> set xs \<and> pr_open st x = None" if "x \<in> set ys" for x
  proof -
    have "pr_open st1 x = None" "pr_open st1 = (\<lambda>fd. if fd \<in> set xs then Some (Received, c) else pr_open st fd)"
      using assms that by (auto simp: received_as_def)
    then show ?thesis by (auto split: if_splits)
  qed
  then show ?thesis using assms by (auto simp: received_as_def)
qed

lemma received_as_install:
  assumes "proc_ok st" "install 0 Received c st = (fd, st1)"
  shows "received_as c [fd] st st1"
  using assms by (auto simp: install_def Let_def received_as_def proc_ok_def)

lemma install_all_received:
  "proc_ok st \<Longrightarrow> install_all c n st = (fds, st') \<Longrightarrow> length fds = n \<and> received_as c fds st st'"
proof (induction n arbitrary: st fds)
  case (Suc n)
  obtain fd st1 where i: "install 0 Received c st = (fd, st1)" by fastforce
  obtain fds1 where m: "install_all c n st1 = (fds1, st')" using Suc.prems(2) i by (auto split: prod.splits)
  have a: "received_as c [fd] st st1" using received_as_install [OF Suc.prems(1) i] .
  then have "length fds1 = n \<and> received_as c fds1 st1 st'" using Suc.IH [OF _ m] by (simp add: received_as_def)
  then show ?case using received_as_append [OF a] Suc.prems(2) i m by auto
qed (simp add: received_as_Nil)

lemma install_cmsgs_received:
  "proc_ok st \<Longrightarrow> install_cmsgs c ms st = (cs, st') \<Longrightarrow>
   map fst cs = map fst ms \<and> map (\<lambda>c. length (snd c)) cs = map (\<lambda>(rights, n). if rights then n else 0) ms \<and>
   received_as c (concat (map snd cs)) st st'"
proof (induction ms arbitrary: st cs)
  case (Cons m ms)
  obtain rights n where m: "m = (rights, n)" by fastforce
  obtain fds st1 where i: "install_all c (if rights then n else 0) st = (fds, st1)" by fastforce
  obtain cs1 where r: "install_cmsgs c ms st1 = (cs1, st')" using Cons.prems(2) m i by (auto split: prod.splits)
  have a: "length fds = (if rights then n else 0)" "received_as c fds st st1" using install_all_received [OF Cons.prems(1) i] by auto
  then have "map fst cs1 = map fst ms \<and> map (\<lambda>c. length (snd c)) cs1 = map (\<lambda>(rights, n). if rights then n else 0) ms \<and>
      received_as c (concat (map snd cs1)) st1 st'"
    using Cons.IH [OF _ r] by (simp add: received_as_def)
  then show ?case using a received_as_append [OF a(2)] Cons.prems(2) m i r by auto
qed (auto simp: received_as_Nil)

text \<open>Of descriptors that are open, those that could not be marked are closed and become -1.\<close>

definition kept :: "int list \<Rightarrow> int list" where
  "kept fds = filter (\<lambda>fd. fd \<noteq> - 1) fds"

lemma kept_simps [simp]: "kept [] = []" "kept (xs @ ys) = kept xs @ kept ys"
  by (simp_all add: kept_def)

lemma cloexec_fds_kept:
  "proc_ok st \<Longrightarrow> distinct fds \<Longrightarrow> \<forall>fd \<in> set fds. 0 \<le> fd \<and> (\<exists>c. pr_open st fd = Some (Received, c)) \<Longrightarrow>
   cloexec_fds fds st = (fds', st') \<Longrightarrow>
   proc_ok st' \<and> length fds' = length fds \<and> distinct (kept fds') \<and> set (kept fds') \<subseteq> set fds \<and>
   pr_open st' = (\<lambda>fd. if fd \<in> set fds then (if fd \<in> set (kept fds') then Some (Received, True) else None) else pr_open st fd)"
proof (induction fds arbitrary: st fds')
  case (Cons fd fds)
  obtain r st1 where r: "set_cloexec_or_close (Inr fd) st = (r, st1)" by fastforce
  obtain fds1 where m: "cloexec_fds fds st1 = (fds1, st')" using Cons.prems(4) r by (auto split: prod.splits)
  have e: "fds' = int_of_result r # fds1" using Cons.prems(4) r m by simp
  obtain c where c: "pr_open st fd = Some (Received, c)" using Cons.prems(3) by auto
  have s: "proc_ok st1" "r = Inr fd \<and> pr_open st1 = (pr_open st)(fd \<mapsto> (Received, True)) \<or>
      (\<exists>e. r = Inl e) \<and> pr_open st1 = (pr_open st)(fd := None)"
    using set_cloexec_cases [OF Cons.prems(1) c r] by auto
  have "proc_ok st' \<and> length fds1 = length fds \<and> distinct (kept fds1) \<and> set (kept fds1) \<subseteq> set fds \<and>
     pr_open st' = (\<lambda>fd. if fd \<in> set fds then (if fd \<in> set (kept fds1) then Some (Received, True) else None) else pr_open st1 fd)"
    using s(2) Cons.prems(2,3) by (intro Cons.IH [OF s(1) _ _ m]) auto
  then show ?case using s(2) Cons.prems(2,3)
    by (auto simp: e kept_def int_of_result_def fun_eq_iff)
qed (simp add: kept_def)

lemma cloexec_cmsgs_kept:
  "proc_ok st \<Longrightarrow> distinct (concat (map snd cs)) \<Longrightarrow> \<forall>c \<in> set cs. \<not> fst c \<longrightarrow> snd c = [] \<Longrightarrow>
   \<forall>fd \<in> set (concat (map snd cs)). 0 \<le> fd \<and> (\<exists>c. pr_open st fd = Some (Received, c)) \<Longrightarrow>
   cloexec_cmsgs cs st = (cs', st') \<Longrightarrow>
   proc_ok st' \<and> map fst cs' = map fst cs \<and> map (\<lambda>c. length (snd c)) cs' = map (\<lambda>c. length (snd c)) cs \<and>
   distinct (kept (concat (map snd cs'))) \<and> set (kept (concat (map snd cs'))) \<subseteq> set (concat (map snd cs)) \<and>
   pr_open st' = (\<lambda>fd. if fd \<in> set (concat (map snd cs))
     then (if fd \<in> set (kept (concat (map snd cs'))) then Some (Received, True) else None) else pr_open st fd)"
proof (induction cs arbitrary: st cs')
  case (Cons c cs)
  obtain rights fds where c: "c = (rights, fds)" by fastforce
  let ?rest = "concat (map snd cs)"
  obtain fds1 st1 where f: "(if rights then cloexec_fds fds st else (fds, st)) = (fds1, st1)" by fastforce
  obtain cs1 where r: "cloexec_cmsgs cs st1 = (cs1, st')" using Cons.prems(5) c f by (auto split: prod.splits)
  have e: "cs' = (rights, fds1) # cs1" using Cons.prems(5) c f r by (simp split: if_splits)
  have "cloexec_fds fds st = (fds1, st1)" using f Cons.prems(3) c by (cases rights) auto
  then have k: "proc_ok st1" "length fds1 = length fds" "distinct (kept fds1)" "set (kept fds1) \<subseteq> set fds"
    "pr_open st1 = (\<lambda>fd. if fd \<in> set fds then (if fd \<in> set (kept fds1) then Some (Received, True) else None) else pr_open st fd)"
    using cloexec_fds_kept [OF Cons.prems(1), of fds fds1 st1] Cons.prems(2,4) c by auto
  have d: "set fds \<inter> set ?rest = {}" "distinct ?rest" using Cons.prems(2) c by auto
  have "\<forall>fd \<in> set ?rest. 0 \<le> fd \<and> (\<exists>c. pr_open st1 fd = Some (Received, c))"
    using Cons.prems(4) d(1) c unfolding k(5) by fastforce
  then have IH: "proc_ok st'" "map fst cs1 = map fst cs" "map (\<lambda>c. length (snd c)) cs1 = map (\<lambda>c. length (snd c)) cs"
    "distinct (kept (concat (map snd cs1)))" "set (kept (concat (map snd cs1))) \<subseteq> set ?rest"
    "pr_open st' = (\<lambda>fd. if fd \<in> set ?rest
       then (if fd \<in> set (kept (concat (map snd cs1))) then Some (Received, True) else None) else pr_open st1 fd)"
    using Cons.IH [OF k(1) d(2) _ _ r] Cons.prems(3) by auto
  have "set (kept fds1) \<inter> set (kept (concat (map snd cs1))) = {}" using k(4) IH(5) d(1) by blast
  moreover have "pr_open st' = (\<lambda>fd. if fd \<in> set fds \<union> set ?rest
     then (if fd \<in> set (kept fds1) \<union> set (kept (concat (map snd cs1))) then Some (Received, True) else None) else pr_open st fd)"
    unfolding IH(6) k(5) using k(4) IH(5) d(1) by (intro ext) auto
  moreover have "set (kept fds1) \<union> set (kept (concat (map snd cs1))) \<subseteq> set fds \<union> set ?rest" using k(4) IH(5) by blast
  moreover have "kept (concat (map snd cs')) = kept fds1 @ kept (concat (map snd cs1))"
    "concat (map snd (c # cs)) = fds @ ?rest" "map fst cs' = map fst (c # cs)"
    "map (\<lambda>c. length (snd c)) cs' = map (\<lambda>c. length (snd c)) (c # cs)"
    using e c k(2) IH(2,3) by simp_all
  ultimately show ?case using IH(1,4) k(3) by (simp only: set_append distinct_append)
qed simp

lemma recvmsg_call_received:
  assumes "proc_ok st" "sys_recvmsg_call flags msg st = (r, st')"
  shows "(\<exists>e. r = Inl e) \<and> proc_ok st' \<and> pr_open st' = pr_open st \<or>
    (\<exists>cs. r = Inr (fst msg, cs) \<and> map fst cs = map fst (snd msg) \<and>
       map (\<lambda>c. length (snd c)) cs = map (\<lambda>(rights, n). if rights then n else 0) (snd msg) \<and>
       received_as (flags AND MSG_CMSG_CLOEXEC \<noteq> 0) (concat (map snd cs)) st st')"
proof -
  obtain oc st1 where o: "pr_outcome st = (oc, st1)" by fastforce
  have st1: "proc_ok st1" "pr_open st1 = pr_open st" using outcome_frame [OF o] assms(1) by (auto simp: proc_ok_def)
  show ?thesis
  proof (cases oc)
    case (Some e)
    then show ?thesis using assms(2) o st1 by (auto simp: sys_recvmsg_call_def)
  next
    case None
    obtain cs where cs: "install_cmsgs (flags AND MSG_CMSG_CLOEXEC \<noteq> 0) (snd msg) st1 = (cs, st')" "r = Inr (fst msg, cs)"
      using assms(2) o None by (auto simp: sys_recvmsg_call_def split: prod.splits)
    then show ?thesis using install_cmsgs_received [OF st1(1) cs(1)] st1(2) by (auto simp: received_as_def)
  qed
qed

lemma fallback_received:
  assumes ok: "proc_ok st" and run: "recvmsg_cloexec_fallback msg flags st = (r, st')"
  shows "(\<exists>e. r = Inl e) \<and> pr_open st' = pr_open st \<or>
    (\<exists>cs. r = Inr (fst msg, cs) \<and> map fst cs = map fst (snd msg) \<and>
       map (\<lambda>c. length (snd c)) cs = map (\<lambda>(rights, n). if rights then n else 0) (snd msg) \<and>
       received_as True (kept (concat (map snd cs))) st st')"
proof -
  obtain r0 st1 where c: "sys_recvmsg_call flags msg st = (r0, st1)" by fastforce
  from recvmsg_call_received [OF ok c] show ?thesis
  proof (elim disjE exE conjE)
    fix e assume "r0 = Inl e" "pr_open st1 = pr_open st"
    then show ?thesis using run c by (auto simp: recvmsg_cloexec_fallback_def)
  next
    fix cs assume r0: "r0 = Inr (fst msg, cs)" and f: "map fst cs = map fst (snd msg)"
      and n: "map (\<lambda>c. length (snd c)) cs = map (\<lambda>(rights, n). if rights then n else 0) (snd msg)"
      and a: "received_as (flags AND MSG_CMSG_CLOEXEC \<noteq> 0) (concat (map snd cs)) st st1"
    obtain cs' where cs': "cloexec_cmsgs cs st1 = (cs', st')" "r = Inr (fst msg, cs')"
      using run c r0 by (auto simp: recvmsg_cloexec_fallback_def split: prod.splits)
    have "\<not> fst c \<longrightarrow> snd c = []" if "c \<in> set cs" for c
    proof -
      obtain i where i: "i < length cs" "cs ! i = c" using \<open>c \<in> set cs\<close> by (metis in_set_conv_nth)
      have l: "length cs = length (snd msg)" using f by (metis length_map)
      have "fst (cs ! i) = fst (snd msg ! i)" "length (snd (cs ! i)) = (case snd msg ! i of (rights, n) \<Rightarrow> if rights then n else 0)"
        using arg_cong [OF f, of "\<lambda>xs. xs ! i"] arg_cong [OF n, of "\<lambda>xs. xs ! i"] i(1) l by simp_all
      then show ?thesis using i(2) by (cases "snd msg ! i") auto
    qed
    moreover have "proc_ok st1" "distinct (concat (map snd cs))"
      "\<forall>fd \<in> set (concat (map snd cs)). 0 \<le> fd \<and> (\<exists>c. pr_open st1 fd = Some (Received, c))"
      using a by (auto simp: received_as_def)
    ultimately have k: "proc_ok st' \<and> map fst cs' = map fst cs \<and> map (\<lambda>c. length (snd c)) cs' = map (\<lambda>c. length (snd c)) cs \<and>
      distinct (kept (concat (map snd cs'))) \<and> set (kept (concat (map snd cs'))) \<subseteq> set (concat (map snd cs)) \<and>
      pr_open st' = (\<lambda>fd. if fd \<in> set (concat (map snd cs))
        then (if fd \<in> set (kept (concat (map snd cs'))) then Some (Received, True) else None) else pr_open st1 fd)"
      using cloexec_cmsgs_kept [OF _ _ _ _ cs'(1)] by blast
    have "\<forall>fd \<in> set (concat (map snd cs)). 0 \<le> fd \<and> pr_open st fd = None"
      "pr_open st1 = (\<lambda>fd. if fd \<in> set (concat (map snd cs)) then Some (Received, flags AND MSG_CMSG_CLOEXEC \<noteq> 0) else pr_open st fd)"
      using a by (auto simp only: received_as_def)
    then have "received_as True (kept (concat (map snd cs'))) st st'"
      using k by (auto simp: received_as_def fun_eq_iff)
    then show ?thesis using cs'(2) f n k by auto
  qed
qed

text \<open>C34: Receiving a message hands out the descriptors that came with it and leaks none: the result
  keeps the control messages and the number of descriptors in each, an entry is either -1, for a
  descriptor that had to be closed, or a new descriptor that is close-on-exec, and no other descriptor
  was opened, closed or changed; a failure changes none.  This holds with and without kernel support.\<close>

theorem recvmsg_no_descriptor_leak:
  assumes "proc_ok st" "wl_os_recvmsg_cloexec broken msg flags st = (r, st')"
  shows "case r of
      Inl _ \<Rightarrow> pr_open st' = pr_open st
    | Inr (len, cs) \<Rightarrow> len = fst msg \<and> map fst cs = map fst (snd msg) \<and>
        map (\<lambda>c. length (snd c)) cs = map (\<lambda>(rights, n). if rights then n else 0) (snd msg) \<and>
        distinct (kept (concat (map snd cs))) \<and>
        (\<forall>fd. if fd \<in> set (kept (concat (map snd cs))) then pr_open st fd = None \<and> pr_open st' fd = Some (Received, True)
           else pr_open st' fd = pr_open st fd)"
proof -
  let ?post = "\<lambda>st'. (\<exists>e. r = Inl e) \<and> pr_open st' = pr_open st \<or>
    (\<exists>cs. r = Inr (fst msg, cs) \<and> map fst cs = map fst (snd msg) \<and>
       map (\<lambda>c. length (snd c)) cs = map (\<lambda>(rights, n). if rights then n else 0) (snd msg) \<and>
       received_as True (kept (concat (map snd cs))) st st')"
  have "?post st'"
  proof (cases broken)
    case True
    then show ?thesis using fallback_received [OF assms(1)] assms(2) by (simp add: wl_os_recvmsg_cloexec_def)
  next
    case False
    obtain r0 st1 where c: "sys_recvmsg_call (flags OR MSG_CMSG_CLOEXEC) msg st = (r0, st1)" by fastforce
    from recvmsg_call_received [OF assms(1) c] show ?thesis
    proof (elim disjE exE conjE)
      fix e assume e: "r0 = Inl e" "proc_ok st1" "pr_open st1 = pr_open st"
      show ?thesis
      proof (cases "e = EINVAL")
        case True
        then have "recvmsg_cloexec_fallback msg flags st1 = (r, st')" using e c assms(2) False by (simp add: wl_os_recvmsg_cloexec_def)
        from fallback_received [OF e(2) this] show ?thesis using e(3) by (simp add: received_as_def cong: if_cong)
      next
        case ne: False
        then show ?thesis using e c assms(2) False by (auto simp: wl_os_recvmsg_cloexec_def)
      qed
    next
      fix cs assume cs: "r0 = Inr (fst msg, cs)" "map fst cs = map fst (snd msg)"
        "map (\<lambda>c. length (snd c)) cs = map (\<lambda>(rights, n). if rights then n else 0) (snd msg)"
        "received_as ((flags OR MSG_CMSG_CLOEXEC) AND MSG_CMSG_CLOEXEC \<noteq> 0) (concat (map snd cs)) st st1"
      have "kept (concat (map snd cs)) = concat (map snd cs)"
        using cs(4) unfolding kept_def received_as_def by (intro filter_True) force
      moreover have "received_as True (concat (map snd cs)) st st1" using cs(4) cloexec_bits(3) by simp
      ultimately show ?thesis using cs(1-3) c assms(2) False by (auto simp: wl_os_recvmsg_cloexec_def)
    qed
  qed
  then show ?thesis by (elim disjE exE conjE) (simp_all add: received_as_def)
qed

definition sample_proc :: "errno option list \<Rightarrow> proc" where
  "sample_proc rs = \<lparr>pr_open = Map.empty(3 \<mapsto> (EpollFile, True), 4 \<mapsto> (Other 1, False)), pr_next = 5, pr_script = rs, pr_names = {}\<rparr>"

lemma sample_proc_ok: "proc_ok (sample_proc rs)"
  by (simp add: proc_ok_def sample_proc_def)

text \<open>A kernel without the flag; the second of the two descriptors cannot be marked.\<close>

lemma recvmsg_no_descriptor_leak_witness:
  "\<exists>cs st'. wl_os_recvmsg_cloexec False (8, [(True, 2)]) 0 (sample_proc [Some EINVAL, None, None, None, Some EIO]) = (Inr (8, cs), st') \<and>
     cs = [(True, [5, - 1])] \<and> pr_open st' 5 = Some (Received, True) \<and> pr_open st' 6 = None"
proof -
  let ?st = "sample_proc [Some EINVAL, None, None, None, Some EIO]"
  obtain st' where r: "wl_os_recvmsg_cloexec False (8, [(True, 2)]) 0 ?st = (Inr (8, [(True, [5, - 1])]), st')"
    by (simp add: wl_os_recvmsg_cloexec_def sys_recvmsg_call_def pr_outcome_def sample_proc_def recvmsg_cloexec_fallback_def
        install_def Let_def eval_nat_numeral set_cloexec_or_close_def sys_getfd_def sys_setfd_def int_of_result_def)
  have "\<forall>fd. if fd \<in> set (kept (concat (map snd [(True, [5, - 1 :: int])])))
      then pr_open ?st fd = None \<and> pr_open st' fd = Some (Received, True) else pr_open st' fd = pr_open ?st fd"
    using recvmsg_no_descriptor_leak [OF sample_proc_ok r] by simp
  from spec [OF this, of 5] spec [OF this, of 6] r show ?thesis by (simp add: kept_def sample_proc_def)
qed

text \<open>C14: Whatever the kernel supports and whichever calls fail, a descriptor that the wrappers return
  was not in use, is open on what was asked for and close-on-exec, and on an error every descriptor
  is as it was: sockets, duplicates, epoll instances and accepted connections.\<close>

theorem os_descriptors_cloexec:
  assumes "proc_ok st"
  shows "delivers (SocketFile domain (type AND NOT SOCK_CLOEXEC) protocol) st
      (fst (wl_os_socket_cloexec domain type protocol st)) (snd (wl_os_socket_cloexec domain type protocol st)) \<and>
    (case pr_open st fd of
       None \<Rightarrow> (\<exists>e. fst (wl_os_dupfd_cloexec fd minfd st) = Inl e) \<and> pr_open (snd (wl_os_dupfd_cloexec fd minfd st)) = pr_open st
     | Some (what, _) \<Rightarrow> delivers what st (fst (wl_os_dupfd_cloexec fd minfd st)) (snd (wl_os_dupfd_cloexec fd minfd st))) \<and>
    delivers EpollFile st (fst (wl_os_epoll_create_cloexec b st)) (snd (wl_os_epoll_create_cloexec b st)) \<and>
    delivers (Accepted sockfd) st (fst (wl_os_accept_cloexec b sockfd st)) (snd (wl_os_accept_cloexec b sockfd st))"
proof -
  have dup: "delivers what st r st'" if "pr_open st fd = Some (what, c)" "wl_os_dupfd_cloexec fd minfd st = (r, st')" for what c r st'
  proof -
    have "wl_os_dupfd_cloexec fd minfd st = (case pr_new minfd what True st of
        (Inr fd, st1) \<Rightarrow> (Inr fd, st1)
      | (Inl e, st1) \<Rightarrow> if e \<noteq> EINVAL then (Inl e, st1)
          else (case pr_new minfd what False st1 of (r, st2) \<Rightarrow> set_cloexec_or_close r st2))"
    proof -
      obtain r0 st1 where n: "pr_new minfd what True st = (r0, st1)" by fastforce
      have "pr_open st1 fd = Some (what, c)" if "r0 = Inl e" for e using pr_new_cases [OF assms n] that \<open>pr_open st fd = _\<close> by simp
      then show ?thesis using n \<open>pr_open st fd = _\<close> by (cases r0) (simp_all add: wl_os_dupfd_cloexec_def sys_fcntl_dup_def)
    qed
    with that(2) have "(case pr_new minfd what True st of
        (Inr fd, st1) \<Rightarrow> (Inr fd, st1)
      | (Inl e, st1) \<Rightarrow> if e \<noteq> EINVAL then (Inl e, st1)
          else (case pr_new minfd what False st1 of (r, st2) \<Rightarrow> set_cloexec_or_close r st2)) = (r, st')" by simp
    from ask_or_set [OF assms this] show ?thesis by simp
  qed
  have none: "(\<exists>e. fst (wl_os_dupfd_cloexec fd minfd st) = Inl e) \<and> pr_open (snd (wl_os_dupfd_cloexec fd minfd st)) = pr_open st"
    if "pr_open st fd = None"
    using that outcome_frame [of st, OF prod.collapse [symmetric]] by (simp add: wl_os_dupfd_cloexec_def sys_fcntl_dup_def)
  show ?thesis
    using sockets.delivered [OF assms prod.collapse [symmetric]] epolls.delivered [OF assms prod.collapse [symmetric]]
      accepts.delivered [OF assms prod.collapse [symmetric]] dup [OF _ prod.collapse [symmetric]] none
    by (intro conjI) (blast | simp split: option.split)+
qed

lemma os_descriptors_cloexec_witness:
  "\<exists>st'. wl_os_socket_cloexec 1 1 0 (sample_proc [Some EINVAL]) = (Inr 5, st') \<and> pr_open st' 5 = Some (SocketFile 1 1 0, True)"
proof -
  obtain st' where r: "wl_os_socket_cloexec 1 1 0 (sample_proc [Some EINVAL]) = (Inr 5, st')"
    by (simp add: wl_os_socket_cloexec_def sys_socket_call_def pr_new_def pr_outcome_def sample_proc_def install_def Let_def
        set_cloexec_or_close_def sys_getfd_def sys_setfd_def)
  have "delivers (SocketFile 1 (1 AND NOT SOCK_CLOEXEC) 0) (sample_proc [Some EINVAL]) (Inr 5) st'"
    using os_descriptors_cloexec [OF sample_proc_ok, of 1 1 0 "[Some EINVAL]" 3 0 True 4] r by simp
  then show ?thesis using r by (simp add: delivers_def SOCK_CLOEXEC_def)
qed

section \<open>The other wrappers\<close>

text \<open>The file is close-on-exec, has its size and, unless the name could not be removed, no name.\<close>

lemma create_tmpfile_correct:
  assumes ok: "proc_ok st" and run: "create_tmpfile_cloexec tmpname st = (r, st')"
  shows "(case r of Inl _ \<Rightarrow> pr_open st' = pr_open st
      | Inr fd \<Rightarrow> pr_open st fd = None \<and> pr_open st' = (pr_open st)(fd \<mapsto> (Anonymous 0, True))) \<and>
    (pr_script st = [] \<and> tmpname \<notin> pr_names st \<longrightarrow> pr_names st' = pr_names st \<and> pr_script st' = [])"
proof (cases "tmpname \<in> pr_names st")
  case True
  then show ?thesis
    using run outcome_frame [of st, OF prod.collapse [symmetric]]
    by (auto simp: create_tmpfile_cloexec_def sys_mkostemp_def)
next
  case False
  obtain r0 st1 where n: "pr_new 0 (Anonymous 0) True st = (r0, st1)" by fastforce
  note p = pr_new_cases [OF ok n]
  have s1: "pr_script st1 = []" if "pr_script st = []"
    using n that by (auto simp: pr_new_def pr_outcome_def install_def Let_def split: list.splits)
  show ?thesis
  proof (cases r0)
    case (Inl e)
    then show ?thesis using run n p False s1 by (auto simp: create_tmpfile_cloexec_def sys_mkostemp_def)
  next
    case (Inr fd)
    define st2 where "st2 = st1\<lparr>pr_names := insert tmpname (pr_names st1)\<rparr>"
    have r: "r = Inr fd" "st' = sys_unlink_name tmpname st2"
      using run n Inr False by (simp_all add: create_tmpfile_cloexec_def sys_mkostemp_def st2_def)
    have "pr_open st' = pr_open st2"
      unfolding r(2) sys_unlink_name_def by (auto split: prod.split option.split dest!: outcome_frame)
    moreover have "pr_names st' = pr_names st \<and> pr_script st' = []" if "pr_script st = []"
      using p Inr s1 [OF that] False by (auto simp: r(2) st2_def sys_unlink_name_def pr_outcome_def)
    ultimately show ?thesis using p Inr r(1) by (simp add: st2_def)
  qed
qed

lemma create_anonymous_file_correct:
  assumes ok: "proc_ok st" and run: "westfield_os_create_anonymous_file (Some p) mem six n st = (r, st')"
  shows "(case r of Inl _ \<Rightarrow> pr_open st' = pr_open st
      | Inr fd \<Rightarrow> pr_open st fd = None \<and> pr_open st' = (pr_open st)(fd \<mapsto> (Anonymous n, True))) \<and>
    (pr_script st = [] \<and> p @ tmpfile_template @ six \<notin> pr_names st \<longrightarrow> pr_names st' = pr_names st)"
proof -
  define tmpname where "tmpname = p @ tmpfile_template @ six"
  obtain r0 st1 where t: "create_tmpfile_cloexec tmpname st = (r0, st1)" by fastforce
  note c = create_tmpfile_correct [OF ok t]
  show ?thesis unfolding tmpname_def [symmetric]
  proof (cases mem)
    case False
    then show "(case r of Inl _ \<Rightarrow> pr_open st' = pr_open st
      | Inr fd \<Rightarrow> pr_open st fd = None \<and> pr_open st' = (pr_open st)(fd \<mapsto> (Anonymous n, True))) \<and>
      (pr_script st = [] \<and> tmpname \<notin> pr_names st \<longrightarrow> pr_names st' = pr_names st)"
      using run by (auto simp: westfield_os_create_anonymous_file_def)
  next
    case True
    then have run1: "(case r0 of Inl e \<Rightarrow> (Inl e, st1) | Inr fd \<Rightarrow>
        (case sys_fallocate fd n st1 of (Some e, st2) \<Rightarrow> (Inl e, pr_close fd st2) | (None, st2) \<Rightarrow> (Inr fd, st2))) = (r, st')"
      using run t by (simp add: westfield_os_create_anonymous_file_def tmpname_def [symmetric] split: sum.splits)
    obtain oc st2 where o: "pr_outcome st1 = (oc, st2)" by fastforce
    show "(case r of Inl _ \<Rightarrow> pr_open st' = pr_open st
      | Inr fd \<Rightarrow> pr_open st fd = None \<and> pr_open st' = (pr_open st)(fd \<mapsto> (Anonymous n, True))) \<and>
      (pr_script st = [] \<and> tmpname \<notin> pr_names st \<longrightarrow> pr_names st' = pr_names st)"
    proof (cases r0)
      case (Inl e)
      then have "r = Inl e" "st' = st1" using run1 by simp_all
      then show ?thesis using c Inl by simp
    next
      case (Inr fd)
      show ?thesis
      proof (cases oc)
        case None
        then have "r = Inr fd" "st' = st2\<lparr>pr_open := (pr_open st2)(fd \<mapsto> (Anonymous n, True))\<rparr>"
          using run1 c Inr o outcome_frame [OF o] by (auto simp: sys_fallocate_def)
        then show ?thesis using c Inr None outcome_frame [OF o] o by (auto simp: pr_outcome_def)
      next
        case (Some e)
        then have "r = Inl e" "st' = pr_close fd st2" using run1 Inr o by (simp_all add: sys_fallocate_def)
        then show ?thesis using c Inr Some outcome_frame [OF o] o by (auto simp: pr_close_def fun_upd_idem pr_outcome_def)
      qed
    qed
  qed
qed

text \<open>The emulated \<open>mremap\<close>: the old bytes are at the start of the new mapping, and the old one is left as it was exactly if its size is reported.\<close>

lemma mremap_maymove_moves:
  assumes "wl_os_mremap_maymove (Some a) content ok old_data old_size new_size keep m = Some r"
    and "m old_data = Some old" "a \<noteq> old_data" "new_size \<le> length content" "0 < old_size"
  shows "\<exists>sz m' d. r = (Some a, sz, m') \<and> m' a = Some d \<and> length d = new_size \<and> take old_size d = take old_size old \<and>
    (if sz = 0 then \<not> keep \<and> m' old_data = None else sz = old_size \<and> m' old_data = Some old) \<and>
    (\<forall>b. b \<noteq> a \<and> b \<noteq> old_data \<longrightarrow> m' b = m b)"
proof -
  let ?d = "take old_size old @ drop old_size (take new_size content)"
  have b: "old_size \<le> length old" "old_size \<le> new_size" using assms(1,2) by (simp_all add: wl_os_mremap_maymove_def not_less split: if_splits)
  have d: "length ?d = new_size" "take old_size ?d = take old_size old" using b assms(4) by simp_all
  have "r = (if \<not> keep \<and> ok then (Some a, 0, m(a \<mapsto> ?d, old_data := None)) else (Some a, old_size, m(a \<mapsto> ?d)))"
    using assms(1,2) b by (auto simp: wl_os_mremap_maymove_def Let_def)
  then show ?thesis using d assms(2,3,5) by (cases "\<not> keep \<and> ok") simp_all
qed

end
