(* ===== verification/Xwayland.thy ===== *)
theory Xwayland
  imports Socket
begin

text \<open>
  The X display of the compositor, westfield-xwayland.c: taking the lock file of a free display number
  under /tmp, listening on its socket, and starting, ending and tearing down the X server.  The lock
  files are shared with other processes; whether a system call fails is read from a script (used up:
  it does not).  \<open>None\<close> is undefined behaviour - a second \<open>free\<close>, the use of a freed object, a display
  number beyond 32 bits - or a retry loop that never ends.
\<close>

section \<open>Files, processes and sockets\<close>

text \<open>\<open>x_alive\<close> tells whether \<open>kill\<close> with signal 0 finds a process.\<close>

record xsys =
  x_files :: "string \<Rightarrow> string option"
  x_bound :: "string \<Rightarrow> int option"
  x_alive :: "int \<Rightarrow> bool"
  x_pid :: int
  x_script :: "errno option list"
  x_open :: "int set"
  x_next :: int

definition x_outcome :: "xsys \<Rightarrow> errno option \<times> xsys" where
  "x_outcome y = (case x_script y of [] \<Rightarrow> (None, y) | r # rs \<Rightarrow> (r, y\<lparr>x_script := rs\<rparr>))"

definition x_new :: "xsys \<Rightarrow> (errno + int) \<times> xsys" where
  "x_new y =
     (case x_outcome y of
        (Some e, y1) \<Rightarrow> (Inl e, y1)
      | (None, y1) \<Rightarrow> (Inr (x_next y1), y1\<lparr>x_open := insert (x_next y1) (x_open y1), x_next := x_next y1 + 1\<rparr>))"

definition x_close :: "int \<Rightarrow> xsys \<Rightarrow> xsys" where
  "x_close fd y = y\<lparr>x_open := x_open y - {fd}\<rparr>"

text \<open>\<open>open\<close> with \<open>O_CREAT | O_EXCL\<close>, and for reading.\<close>

definition sys_open_excl :: "string \<Rightarrow> xsys \<Rightarrow> (errno + int) \<times> xsys" where
  "sys_open_excl path y =
     (case x_new y of
        (Inl e, y1) \<Rightarrow> (Inl e, y1)
      | (Inr fd, y1) \<Rightarrow>
          if x_files y path \<noteq> None then (Inl EEXIST, x_close fd y1)
          else (Inr fd, y1\<lparr>x_files := (x_files y1)(path \<mapsto> [])\<rparr>))"

definition sys_open_read :: "string \<Rightarrow> xsys \<Rightarrow> (errno + int) \<times> xsys" where
  "sys_open_read path y =
     (case x_new y of
        (Inl e, y1) \<Rightarrow> (Inl e, y1)
      | (Inr fd, y1) \<Rightarrow> if x_files y path = None then (Inl ENOENT, x_close fd y1) else (Inr fd, y1))"

definition sys_read_file :: "string \<Rightarrow> nat \<Rightarrow> xsys \<Rightarrow> (errno + string) \<times> xsys" where
  "sys_read_file path n y =
     (case x_outcome y of
        (Some e, y1) \<Rightarrow> (Inl e, y1)
      | (None, y1) \<Rightarrow> (Inr (take n (the (x_files y1 path))), y1))"

definition sys_unlink_file :: "string \<Rightarrow> xsys \<Rightarrow> errno option \<times> xsys" where
  "sys_unlink_file path y =
     (case x_outcome y of
        (Some e, y1) \<Rightarrow> (Some e, y1)
      | (None, y1) \<Rightarrow> (None, y1\<lparr>x_files := (x_files y1)(path := None), x_bound := (x_bound y1)(path := None)\<rparr>))"

definition sys_kill :: "int \<Rightarrow> xsys \<Rightarrow> errno option" where
  "sys_kill pid y = (if x_alive y pid then None else Some ESRCH)"

definition sys_write_file :: "string \<Rightarrow> string \<Rightarrow> xsys \<Rightarrow> (errno + nat) \<times> xsys" where
  "sys_write_file path s y =
     (case x_outcome y of
        (Some e, y1) \<Rightarrow> (Inl e, y1)
      | (None, y1) \<Rightarrow> (Inr (length s), y1\<lparr>x_files := (x_files y1)(path := map_option (\<lambda>c. c @ s) (x_files y1 path))\<rparr>))"

definition sys_bind_path :: "int \<Rightarrow> string \<Rightarrow> xsys \<Rightarrow> (errno + unit) \<times> xsys" where
  "sys_bind_path fd path y =
     (case x_outcome y of
        (Some e, y1) \<Rightarrow> (Inl e, y1)
      | (None, y1) \<Rightarrow>
          if x_bound y1 path \<noteq> None \<or> x_files y1 path \<noteq> None then (Inl EADDRINUSE, y1)
          else (Inr (), y1\<lparr>x_bound := (x_bound y1)(path \<mapsto> fd)\<rparr>))"

definition sys_listen_fd :: "int \<Rightarrow> xsys \<Rightarrow> (errno + unit) \<times> xsys" where
  "sys_listen_fd fd y = (case x_outcome y of (Some e, y1) \<Rightarrow> (Inl e, y1) | (None, y1) \<Rightarrow> (Inr (), y1))"

section \<open>Numbers\<close>

text \<open>\<open>strtol\<close> with base 10: the error, the value and the rest of the string, which is all of it when there is no number.\<close>

definition is_space :: "char \<Rightarrow> bool" where
  "is_space c \<longleftrightarrow> (of_char c :: nat) \<in> {9, 10, 11, 12, 13, 32}"

definition strtol :: "string \<Rightarrow> errno option \<times> int \<times> string" where
  "strtol s =
     (let s1 = dropWhile is_space s;
          neg = (s1 \<noteq> [] \<and> hd s1 = CHR ''-'');
          s2 = (if s1 \<noteq> [] \<and> (hd s1 = CHR ''-'' \<or> hd s1 = CHR ''+'') then tl s1 else s1);
          v = (if neg then - atoi_digits s2 else atoi_digits s2) in
      if takeWhile is_digit s2 = [] then (None, 0, s)
      else if v > 2 ^ 63 - 1 then (Some ERANGE, 2 ^ 63 - 1, dropWhile is_digit s2)
      else if v < - (2 ^ 63) then (Some ERANGE, - (2 ^ 63), dropWhile is_digit s2)
      else (None, v, dropWhile is_digit s2))"

definition safe_strtoint :: "string \<Rightarrow> errno + int" where
  "safe_strtoint s =
     (case strtol s of (err, ret, end_str) \<Rightarrow>
        if err \<noteq> None then Inl ERANGE
        else if end_str = s \<or> end_str \<noteq> [] then Inl EINVAL
        else if sint (of_int ret :: 32 word) \<noteq> ret then Inl ERANGE
        else Inr ret)"

section \<open>Lock files\<close>

definition lock_path :: "int \<Rightarrow> string" where
  "lock_path display = ''/tmp/.X'' @ dec_int display @ ''-lock''"

definition socket_path :: "int \<Rightarrow> string" where
  "socket_path display = ''/tmp/.X11-unix/X'' @ dec_int display"

text \<open>What \<open>printf\<close> makes of the conversion \<open>%10d\<close>.\<close>

definition pad10 :: "string \<Rightarrow> string" where
  "pad10 s = replicate (10 - length s) (CHR '' '') @ s"

definition pid_line :: "int \<Rightarrow> string" where
  "pid_line pid = pad10 (dec_int pid) @ ''\<newline>''"

text \<open>A C string ends before the first NUL.\<close>

definition c_string :: "string \<Rightarrow> string" where
  "c_string s = takeWhile (\<lambda>c. c \<noteq> char_of (0 :: nat)) s"

text \<open>The lock file is there: is the process that made it gone?  The result is the value of \<open>errno\<close>.\<close>

definition lock_exists :: "string \<Rightarrow> xsys \<Rightarrow> errno \<times> xsys" where
  "lock_exists path y =
     (case sys_open_read path y of
        (Inl _, y1) \<Rightarrow> (EEXIST, y1)
      | (Inr fd, y1) \<Rightarrow>
          (case sys_read_file path 11 y1 of
             (Inl _, y2) \<Rightarrow> (EEXIST, x_close fd y2)
           | (Inr pid, y2) \<Rightarrow>
               if length pid \<noteq> 11 then (EEXIST, x_close fd y2)
               else (case safe_strtoint (c_string (take 10 pid)) of
                   Inl _ \<Rightarrow> (EEXIST, x_close fd y2)
                 | Inr other \<Rightarrow>
                     if sys_kill other y2 = Some ESRCH then
                       (case sys_unlink_file path (x_close fd y2) of
                          (Some _, y3) \<Rightarrow> (EEXIST, y3)
                        | (None, y3) \<Rightarrow> (EAGAIN, y3))
                     else (EEXIST, x_close fd y2))))"

text \<open>
  The result \<open>Inl\<close> is -1 with that \<open>errno\<close>; a line of another length, which a 32-bit process id does not
  have, sets none, for which \<open>EIO\<close> stands.
\<close>

definition create_lockfile :: "int \<Rightarrow> xsys \<Rightarrow> (errno + unit) \<times> xsys" where
  "create_lockfile display y =
     (let lockfile = lock_path display in
      case sys_open_excl lockfile y of
        (Inl e, y1) \<Rightarrow>
          if e = EEXIST then (case lock_exists lockfile y1 of (e2, y2) \<Rightarrow> (Inl e2, y2))
          else (Inl e, y1)
      | (Inr fd, y1) \<Rightarrow>
          (case sys_write_file lockfile (pid_line (x_pid y1)) y1 of
             (Inl e, y2) \<Rightarrow> (Inl e, x_close fd (snd (sys_unlink_file lockfile y2)))
           | (Inr n, y2) \<Rightarrow>
               if n \<noteq> 11 then (Inl EIO, x_close fd (snd (sys_unlink_file lockfile y2)))
               else (Inr (), x_close fd y2)))"

definition bind_to_unix_socket :: "int \<Rightarrow> xsys \<Rightarrow> int \<times> xsys" where
  "bind_to_unix_socket display y =
     (case x_new y of
        (Inl e, y1) \<Rightarrow> (- 1, y1)
      | (Inr fd, y1) \<Rightarrow>
          (let path = socket_path display; y2 = snd (sys_unlink_file path y1) in
           case sys_bind_path fd path y2 of
             (Inl e, y3) \<Rightarrow> (- 1, x_close fd y3)
           | (Inr _, y3) \<Rightarrow>
               (case sys_listen_fd fd y3 of
                  (Inl e, y4) \<Rightarrow> (- 1, x_close fd (snd (sys_unlink_file path y4)))
                | (Inr _, y4) \<Rightarrow> (fd, y4))))"

section \<open>The X server\<close>

text \<open>
  Objects live at addresses; \<open>xw_live\<close> are those not freed.  \<open>wx_loop\<close> tells whether the pointer to the
  event loop is set; the callbacks \<open>wx_starting\<close> and \<open>wx_destroyed\<close> are addresses of functions.
\<close>

record westfield_xserver =
  wx_user_data :: u64
  wx_unix_source :: saddr
  wx_starting :: u64
  wx_destroyed :: u64
  wx_loop :: bool
  wx_unix_fd :: int
  wx_display :: int
  wx_pid :: int
  wx_xwayland :: u64

record westfield_xwayland =
  ww_xserver :: u64
  ww_wm_fd :: int
  ww_display_fd :: int
  ww_process_pid :: int

record xstate =
  xs_sys :: xsys
  xs_server :: server
  xs_xserver :: "u64 \<Rightarrow> westfield_xserver option"
  xs_xwayland :: "u64 \<Rightarrow> westfield_xwayland option"
  xs_children :: "u64 list"
  xs_env_display :: "string option"
  xs_destroyed_calls :: "(u64 \<times> u64) list"

definition xs_free_xserver :: "u64 \<Rightarrow> xstate \<Rightarrow> xstate option" where
  "xs_free_xserver a st =
     (if xs_xserver st a = None then None else Some (st\<lparr>xs_xserver := (xs_xserver st)(a := None)\<rparr>))"

definition xs_free_xwayland :: "u64 \<Rightarrow> xstate \<Rightarrow> xstate option" where
  "xs_free_xwayland a st =
     (if xs_xwayland st a = None then None else Some (st\<lparr>xs_xwayland := (xs_xwayland st)(a := None)\<rparr>))"

text \<open>\<open>sa\<close> is the address of the new event source, \<open>func\<close> that of \<open>westfield_xserver_handle_event\<close>.\<close>

definition xs_watch :: "u64 \<Rightarrow> nat \<Rightarrow> u64 \<Rightarrow> xstate \<Rightarrow> xstate option" where
  "xs_watch sa func a st = do {
     wxs \<leftarrow> xs_xserver st a;
     let (source, sv) = display_add_fd sa (of_int (wx_unix_fd wxs)) WL_EVENT_READABLE func (unat a) (xs_server st);
     Some (st\<lparr>xs_server := sv, xs_xserver := (xs_xserver st)(a \<mapsto> wxs\<lparr>wx_unix_source := source\<rparr>)\<rparr>) }"

definition xs_unwatch :: "westfield_xserver \<Rightarrow> xstate \<Rightarrow> xstate option" where
  "xs_unwatch wxs st = do {
     sv \<leftarrow> remove_source (of_nat (wx_unix_source wxs)) (xs_server st);
     Some (st\<lparr>xs_server := sv\<rparr>) }"

text \<open>The unix socket is a descriptor of the process; the callback is recorded.\<close>

definition call_destroyed :: "u64 \<Rightarrow> xstate \<Rightarrow> xstate option" where
  "call_destroyed a st = do {
     wxs \<leftarrow> xs_xserver st a;
     Some (st\<lparr>xs_destroyed_calls := (if wx_destroyed wxs \<noteq> 0 then xs_destroyed_calls st @ [(wx_destroyed wxs, wx_user_data wxs)]
         else xs_destroyed_calls st),
       xs_xserver := (xs_xserver st)(a \<mapsto> wxs\<lparr>wx_destroyed := 0\<rparr>)\<rparr>) }"

definition westfield_xserver_shutdown :: "u64 \<Rightarrow> xstate \<Rightarrow> xstate option" where
  "westfield_xserver_shutdown a st = do {
     wxs \<leftarrow> xs_xserver st a;
     let y1 = snd (sys_unlink_file (lock_path (wx_display wxs)) (xs_sys st));
     let y2 = snd (sys_unlink_file (socket_path (wx_display wxs)) y1);
     let st1 = st\<lparr>xs_sys := y2\<rparr>;
     st2 \<leftarrow> (if wx_pid wxs = 0 then xs_unwatch wxs st1 else Some st1);
     let st3 = st2\<lparr>xs_sys := x_close (wx_unix_fd wxs) (xs_sys st2)\<rparr>;
     st4 \<leftarrow> call_destroyed a st3;
     wxs4 \<leftarrow> xs_xserver st4 a;
     Some (st4\<lparr>xs_xserver := (xs_xserver st4)(a \<mapsto> wxs4\<lparr>wx_loop := False\<rparr>)\<rparr>) }"

definition westfield_xwayland_get_display :: "u64 \<Rightarrow> xstate \<Rightarrow> int option" where
  "westfield_xwayland_get_display w st = do {
     wxw \<leftarrow> xs_xwayland st w;
     wxs \<leftarrow> xs_xserver st (ww_xserver wxw);
     Some (wx_display wxs) }"

definition westfield_xwayland_teardown :: "u64 \<Rightarrow> xstate \<Rightarrow> xstate option" where
  "westfield_xwayland_teardown w st = do {
     wxw \<leftarrow> xs_xwayland st w;
     let a = ww_xserver wxw;
     if a = 0 then Some st
     else do {
       wxs \<leftarrow> xs_xserver st a;
       st1 \<leftarrow> (if wx_loop wxs then westfield_xserver_shutdown a st else Some st);
       st2 \<leftarrow> xs_free_xserver a st1;
       xs_free_xwayland w st2 } }"

text \<open>The loop at the label \<open>retry\<close>: the display number and whether the lock was taken, or another error.\<close>

partial_function (option) retry_loop :: "int \<Rightarrow> xsys \<Rightarrow> (int option \<times> int \<times> xsys) option" where
  "retry_loop display y =
     (case create_lockfile display y of
        (Inr _, y1) \<Rightarrow> Some (Some display, display, y1)
      | (Inl e, y1) \<Rightarrow>
          if e = EAGAIN then retry_loop display y1
          else if e = EEXIST then (if display = 2 ^ 31 - 1 then None else retry_loop (display + 1) y1)
          else Some (None, display, y1))"

definition westfield_xserver_listen :: "u64 \<Rightarrow> nat \<Rightarrow> u64 \<Rightarrow> xstate \<Rightarrow> (int \<times> xstate) option" where
  "westfield_xserver_listen sa func a st = do {
     wxs \<leftarrow> xs_xserver st a;
     (got, display, y1) \<leftarrow> retry_loop 1 (xs_sys st);
     let st1 = st\<lparr>xs_sys := y1, xs_xserver := (xs_xserver st)(a \<mapsto> wxs\<lparr>wx_display := display\<rparr>)\<rparr>;
     if got = None then do { st2 \<leftarrow> xs_free_xserver a st1; Some (- 1, st2) }
     else do {
       let (fd, y2) = bind_to_unix_socket display y1;
       if fd < 0 then do {
         st2 \<leftarrow> xs_free_xserver a (st1\<lparr>xs_sys := snd (sys_unlink_file (lock_path display) y2)\<rparr>);
         Some (- 1, st2) }
       else do {
         let st2 = st1\<lparr>xs_sys := y2, xs_env_display := Some (snprintf 8 (CHR '':'' # dec_int display)),
           xs_xserver := (xs_xserver st1)(a \<mapsto> wxs\<lparr>wx_display := display, wx_unix_fd := fd, wx_loop := True\<rparr>)\<rparr>;
         st3 \<leftarrow> xs_watch sa func a st2;
         Some (0, st3) } } }"

text \<open>\<open>a\<close> and \<open>w\<close> are the addresses \<open>calloc\<close> returns for the two objects.\<close>

definition westfield_xwayland_setup ::
  "u64 \<Rightarrow> nat \<Rightarrow> u64 \<Rightarrow> u64 \<Rightarrow> u64 \<Rightarrow> u64 \<Rightarrow> u64 \<Rightarrow> xstate \<Rightarrow> (u64 \<times> xstate) option" where
  "westfield_xwayland_setup sa func a w user_data starting destroyed st =
     (if a = 0 then Some (0, st)
      else
        let wxs = \<lparr>wx_user_data = user_data, wx_unix_source = 0, wx_starting = starting, wx_destroyed = destroyed,
              wx_loop = False, wx_unix_fd = 0, wx_display = 0, wx_pid = 0, wx_xwayland = 0\<rparr>;
            st1 = st\<lparr>xs_xserver := (xs_xserver st)(a \<mapsto> wxs)\<rparr> in
        if w = 0 then map_option (Pair 0) (xs_free_xserver a st1)
        else do {
          let st2 = st1\<lparr>xs_xserver := (xs_xserver st1)(a \<mapsto> wxs\<lparr>wx_xwayland := w\<rparr>),
            xs_xwayland := (xs_xwayland st1)(w \<mapsto> \<lparr>ww_xserver = a, ww_wm_fd = 0, ww_display_fd = 0, ww_process_pid = 0\<rparr>)\<rparr>;
          (r, st3) \<leftarrow> westfield_xserver_listen sa func a st2;
          if r < 0 then do {
            st4 \<leftarrow> xs_free_xserver a st3;
            st5 \<leftarrow> xs_free_xwayland w st4;
            Some (0, st5) }
          else Some (w, st3) })"

definition westfield_xwayland_init :: "xstate \<Rightarrow> xstate" where
  "westfield_xwayland_init st = st\<lparr>xs_children := []\<rparr>"

section \<open>Starting and ending the server\<close>

text \<open>
  The outcomes of the system calls of \<open>spawn_xserver\<close>: the two socket pairs and the pipe, if they can
  be made, whether the pipe can be marked, and the result of \<open>fork\<close> in the parent.
\<close>

record spawn_calls =
  sp_sv :: "(int \<times> int) option"
  sp_wm :: "(int \<times> int) option"
  sp_pipe :: "(int \<times> int) option"
  sp_cloexec :: bool
  sp_fork :: int

definition opened :: "int \<times> int \<Rightarrow> xstate \<Rightarrow> xstate" where
  "opened p st = st\<lparr>xs_sys := (xs_sys st)\<lparr>x_open := insert (fst p) (insert (snd p) (x_open (xs_sys st)))\<rparr>\<rparr>"

definition closed_in :: "int \<Rightarrow> xstate \<Rightarrow> xstate" where
  "closed_in fd st = st\<lparr>xs_sys := x_close fd (xs_sys st)\<rparr>"

definition westfield_watch_process :: "u64 \<Rightarrow> xstate \<Rightarrow> xstate" where
  "westfield_watch_process w st = st\<lparr>xs_children := w # xs_children st\<rparr>"

text \<open>
  The child: \<open>dup\<close> gives the descriptors that it passes on.  The result is the value of
  \<open>WAYLAND_SOCKET\<close> and the arguments of the program, or \<open>None\<close> when it exits instead.
\<close>

definition spawn_child :: "(int \<Rightarrow> int option) \<Rightarrow> string \<Rightarrow> int \<Rightarrow> int \<Rightarrow> int \<Rightarrow> int \<Rightarrow> (string \<times> string list) option" where
  "spawn_child dup display sv1 unix_fd wm1 display_fd1 = do {
     sv \<leftarrow> dup sv1;
     u \<leftarrow> dup unix_fd;
     wm \<leftarrow> dup wm1;
     Some (snprintf 12 (dec_int sv),
       [''Xwayland'', display, ''-ac'', ''-rootless'', ''-listen'', snprintf 12 (dec_int u), ''-displayfd'',
        snprintf 12 (dec_int display_fd1), ''-wm'', snprintf 12 (dec_int wm)]) }"

text \<open>
  The parent.  \<open>create\<close> is \<open>wl_client_create\<close> with its addresses, \<open>starting\<close> the callback, which is
  given its user data, the descriptor of the window manager, the client and the descriptor of the pipe.
\<close>

definition spawn_xserver ::
  "(fd \<Rightarrow> server \<Rightarrow> (u64 \<times> server) option) \<Rightarrow> (u64 \<Rightarrow> int \<Rightarrow> u64 \<Rightarrow> int \<Rightarrow> xstate \<Rightarrow> xstate) \<Rightarrow> spawn_calls \<Rightarrow> u64 \<Rightarrow> xstate \<Rightarrow>
   (int \<times> xstate) option" where
  "spawn_xserver create starting sp w st =
     (case sp_sv sp of
        None \<Rightarrow> Some (1, st)
      | Some sv \<Rightarrow>
          let st1 = opened sv st in
          (case sp_wm sp of
             None \<Rightarrow> Some (1, st1)
           | Some wm \<Rightarrow>
               let st2 = opened wm st1 in
               (case sp_pipe sp of
                  None \<Rightarrow> Some (1, st2)
                | Some display_fd \<Rightarrow>
                    let st3 = opened display_fd st2 in
                    if \<not> sp_cloexec sp then Some (1, st3)
                    else do {
                      wxw \<leftarrow> xs_xwayland st3 w;
                      (client, sv1) \<leftarrow> create (of_int (fst sv)) (xs_server st3);
                      let st4 = st3\<lparr>xs_server := sv1,
                        xs_xwayland := (xs_xwayland st3)(w \<mapsto> wxw\<lparr>ww_display_fd := fst display_fd, ww_wm_fd := fst wm\<rparr>)\<rparr>;
                      wxs \<leftarrow> xs_xserver st4 (ww_xserver wxw);
                      if wx_starting wxs = 0 then None
                      else do {
                        let st5 = starting (wx_user_data wxs) (fst wm) client (fst display_fd) st4;
                        if sp_fork sp = 0 then None
                        else if sp_fork sp = - 1 then Some (- 1, st5)
                        else do {
                          let st6 = closed_in (snd display_fd) (closed_in (snd wm) (closed_in (snd sv) st5));
                          wxw6 \<leftarrow> xs_xwayland st6 w;
                          Some (sp_fork sp, westfield_watch_process w
                            (st6\<lparr>xs_xwayland := (xs_xwayland st6)(w \<mapsto> wxw6\<lparr>ww_process_pid := sp_fork sp\<rparr>)\<rparr>)) } } })))"

definition westfield_xserver_handle_event ::
  "(fd \<Rightarrow> server \<Rightarrow> (u64 \<times> server) option) \<Rightarrow> (u64 \<Rightarrow> int \<Rightarrow> u64 \<Rightarrow> int \<Rightarrow> xstate \<Rightarrow> xstate) \<Rightarrow> spawn_calls \<Rightarrow> u64 \<Rightarrow> xstate \<Rightarrow>
   (int \<times> xstate) option" where
  "westfield_xserver_handle_event create starting sp a st = do {
     wxs \<leftarrow> xs_xserver st a;
     (pid, st1) \<leftarrow> spawn_xserver create starting sp (wx_xwayland wxs) st;
     wxs1 \<leftarrow> xs_xserver st1 a;
     let wxs2 = wxs1\<lparr>wx_pid := pid\<rparr>;
     let st2 = st1\<lparr>xs_xserver := (xs_xserver st1)(a \<mapsto> wxs2)\<rparr>;
     if pid = - 1 then Some (1, st2)
     else do { st3 \<leftarrow> xs_unwatch wxs2 st2; Some (1, st3) } }"

definition westfield_xserver_exited :: "u64 \<Rightarrow> nat \<Rightarrow> u64 \<Rightarrow> xstate \<Rightarrow> xstate option" where
  "westfield_xserver_exited sa func a st = do {
     wxs \<leftarrow> xs_xserver st a;
     if \<not> wx_loop wxs then None
     else do {
       st1 \<leftarrow> xs_watch sa func a (st\<lparr>xs_xserver := (xs_xserver st)(a \<mapsto> wxs\<lparr>wx_pid := 0\<rparr>)\<rparr>);
       if wx_starting wxs \<noteq> 0 then westfield_xserver_shutdown a st1
       else call_destroyed a st1 } }"

definition xserver_cleanup :: "u64 \<Rightarrow> nat \<Rightarrow> u64 \<Rightarrow> xstate \<Rightarrow> xstate option" where
  "xserver_cleanup sa func w st = do {
     wxw \<leftarrow> xs_xwayland st w;
     westfield_xserver_exited sa func (ww_xserver wxw) st }"

section \<open>Process ids in lock files\<close>

lemma dec_nat_digits: "c \<in> set (dec_nat n) \<Longrightarrow> is_digit c"
proof (induction n arbitrary: c rule: dec_nat.induct)
  case (1 n)
  have "is_digit (char_of (48 + n))" if "n < 10" for n :: nat using that by (simp add: is_digit_def)
  then show ?case using 1 by (subst (asm) (2) dec_nat.simps) (auto split: if_splits)
qed

lemma digit_val_char: "n < 10 \<Longrightarrow> digit_val (char_of (48 + n :: nat)) = int n"
proof -
  assume "n < 10"
  then have "(of_char (char_of (48 + n :: nat)) :: nat) = 48 + n" by simp
  then have "(of_char (char_of (48 + n :: nat)) :: int) = int (48 + n)" by (metis of_nat_of_char)
  then show ?thesis by (simp add: digit_val_def)
qed

lemma dec_nat_value: "fold (\<lambda>c n. 10 * n + digit_val c) (dec_nat n) 0 = int n"
proof (induction n rule: dec_nat.induct)
  case (1 n)
  show ?case
  proof (cases "n < 10")
    case True
    then show ?thesis by (subst dec_nat.simps) (simp add: digit_val_char)
  next
    case False
    have "fold (\<lambda>c n. 10 * n + digit_val c) (dec_nat n) 0 = 10 * int (n div 10) + int (n mod 10)"
      using 1 [OF False] False by (subst dec_nat.simps) (simp add: digit_val_char)
    also have "\<dots> = int (10 * (n div 10) + n mod 10)" by (simp only: of_nat_add of_nat_mult of_nat_numeral)
    finally show ?thesis by (simp only: mult_div_mod_eq)
  qed
qed

lemma dec_nat_length: "n < 10 ^ Suc k \<Longrightarrow> length (dec_nat n) \<le> Suc k"
proof (induction k arbitrary: n)
  case (Suc k)
  then have "n div 10 < 10 ^ Suc k" by (simp add: less_mult_imp_div_less mult.commute)
  with Suc.IH show ?case by (subst dec_nat.simps) auto
qed (subst dec_nat.simps, simp)

lemma dec_nat_not_Nil: "dec_nat n \<noteq> []"
  by (subst dec_nat.simps) auto

lemma atoi_digits_dec_nat: "atoi_digits (dec_nat n) = int n"
proof -
  have "takeWhile is_digit (dec_nat n) = dec_nat n" by (simp add: takeWhile_eq_all_conv dec_nat_digits)
  then show ?thesis unfolding atoi_digits_def by (simp only: dec_nat_value)
qed

text \<open>A process id that fits 32 bits is read back from the line as it was written.\<close>

lemma pid_line_read:
  assumes "0 \<le> pid" "pid < 2 ^ 31"
  shows "length (pid_line pid) = 11" "safe_strtoint (c_string (take 10 (pid_line pid))) = Inr pid"
proof -
  let ?ds = "dec_nat (nat pid)"
  have "length ?ds \<le> 10" using dec_nat_length [of "nat pid" 9] assms by simp
  then have l: "length (pad10 (dec_int pid)) = 10" using assms(1) by (simp add: pad10_def dec_int_def)
  then show "length (pid_line pid) = 11" by (simp add: pid_line_def)
  have sp: "pad10 (dec_int pid) = replicate (10 - length ?ds) (CHR '' '') @ ?ds" using assms(1) by (simp add: pad10_def dec_int_def)
  have dig: "takeWhile is_digit ?ds = ?ds" "dropWhile is_digit ?ds = []"
    by (simp_all add: takeWhile_eq_all_conv dropWhile_eq_Nil_conv dec_nat_digits)
  have hd: "is_digit (hd ?ds)" using dec_nat_digits [of "hd ?ds" "nat pid"] dec_nat_not_Nil by (metis hd_in_set)
  have "dropWhile is_space (replicate k (CHR '' '') @ ?ds) = ?ds" for k
  proof (induction k)
    case 0
    have "\<not> is_space (hd ?ds)" using hd by (auto simp: is_digit_def is_space_def)
    then show ?case using dec_nat_not_Nil [of "nat pid"] by (cases ?ds) auto
  qed (simp add: is_space_def)
  moreover have "hd ?ds \<noteq> CHR ''-''" "hd ?ds \<noteq> CHR ''+''" using hd by (auto simp: is_digit_def)
  ultimately have "strtol (pad10 (dec_int pid)) = (None, pid, [])"
    using assms dec_nat_not_Nil [of "nat pid"] unfolding strtol_def sp Let_def by (simp add: dig atoi_digits_dec_nat)
  moreover have "c_string (take 10 (pid_line pid)) = pad10 (dec_int pid)"
  proof -
    have "c \<noteq> char_of (0 :: nat)" if "c \<in> set (pad10 (dec_int pid))" for c
    proof -
      consider "c = CHR '' ''" | "is_digit c"
        using \<open>c \<in> set _\<close> dec_nat_digits [of c "nat pid"] unfolding sp by auto
      then show ?thesis by cases (auto simp: is_digit_def dest: arg_cong [where f = "of_char :: char \<Rightarrow> nat"])
    qed
    then show ?thesis using l by (simp add: pid_line_def c_string_def takeWhile_eq_all_conv)
  qed
  moreover have "pad10 (dec_int pid) \<noteq> []" using l by auto
  moreover have "sint (of_int pid :: 32 word) = pid" using assms by (simp add: sint_sbintrunc' signed_take_bit_int_eq_self)
  ultimately show "safe_strtoint (c_string (take 10 (pid_line pid))) = Inr pid" by (simp add: safe_strtoint_def)
qed

section \<open>Taking a lock\<close>

definition xsys_ok :: "xsys \<Rightarrow> bool" where
  "xsys_ok y \<longleftrightarrow> 0 \<le> x_next y \<and> (\<forall>fd \<in> x_open y. fd < x_next y)"

text \<open>What the operations on lock files leave alone.\<close>

definition same_process :: "xsys \<Rightarrow> xsys \<Rightarrow> bool" where
  "same_process y y' \<longleftrightarrow> xsys_ok y' \<and> x_open y' = x_open y \<and> x_alive y' = x_alive y \<and> x_pid y' = x_pid y \<and>
     (x_script y = [] \<longrightarrow> x_script y' = [])"

lemma same_process_refl: "xsys_ok y \<Longrightarrow> same_process y y"
  by (simp add: same_process_def)

lemma same_process_trans: "same_process y y1 \<Longrightarrow> same_process y1 y2 \<Longrightarrow> same_process y y2"
  by (simp add: same_process_def)

text \<open>The file is of a process that is gone, as far as the code can tell.\<close>

definition stale :: "xsys \<Rightarrow> string \<Rightarrow> bool" where
  "stale y c \<longleftrightarrow> 11 \<le> length c \<and>
     (case safe_strtoint (c_string (take 10 c)) of Inl _ \<Rightarrow> False | Inr other \<Rightarrow> \<not> x_alive y other)"

definition taken :: "xsys \<Rightarrow> int \<Rightarrow> bool" where
  "taken y display \<longleftrightarrow> (case x_files y (lock_path display) of None \<Rightarrow> False | Some c \<Rightarrow> \<not> stale y c)"

lemma stale_cong: "x_alive y' = x_alive y \<Longrightarrow> stale y' c = stale y c"
  by (auto simp: stale_def split: sum.splits)

lemma stale_script [simp]: "stale (y\<lparr>x_script := rs\<rparr>) c = stale y c"
  by (rule stale_cong) simp

lemma stale_pid_line: "0 \<le> pid \<Longrightarrow> pid < 2 ^ 31 \<Longrightarrow> stale y (pid_line pid) \<longleftrightarrow> \<not> x_alive y pid"
  using pid_line_read [of pid] by (simp add: stale_def)

lemma x_outcome_cases:
  obtains oc rs where "x_outcome y = (oc, y\<lparr>x_script := rs\<rparr>)" "x_script y = [] \<longrightarrow> oc = None \<and> rs = []"
proof (cases "x_script y")
  case Nil
  then have "x_outcome y = (None, y\<lparr>x_script := []\<rparr>)" by (cases y) (simp add: x_outcome_def)
  then show thesis by (rule that) simp
next
  case (Cons r rs)
  then have "x_outcome y = (r, y\<lparr>x_script := rs\<rparr>)" by (simp add: x_outcome_def)
  then show thesis by (rule that) (simp add: Cons)
qed

lemma x_new_cases:
  obtains (fail) e rs where "x_new y = (Inl e, y\<lparr>x_script := rs\<rparr>)" "x_script y \<noteq> []"
  | (fresh) rs where "x_new y = (Inr (x_next y), y\<lparr>x_script := rs, x_open := insert (x_next y) (x_open y), x_next := x_next y + 1\<rparr>)"
      "x_script y = [] \<longrightarrow> rs = []"
proof -
  obtain oc rs where o: "x_outcome y = (oc, y\<lparr>x_script := rs\<rparr>)" "x_script y = [] \<longrightarrow> oc = None \<and> rs = []"
    by (rule x_outcome_cases)
  then show thesis using fail fresh by (cases oc) (auto simp: x_new_def)
qed

lemma x_open_again: "xsys_ok y \<Longrightarrow> insert (x_next y) (x_open y) - {x_next y} = x_open y"
  by (auto simp: xsys_ok_def)

text \<open>The state between opening a descriptor and closing it again.\<close>

definition working :: "xsys \<Rightarrow> errno option list \<Rightarrow> xsys" where
  "working y rs = y\<lparr>x_script := rs, x_open := insert (x_next y) (x_open y), x_next := x_next y + 1\<rparr>"

lemma working_close:
  "xsys_ok y \<Longrightarrow> (x_script y = [] \<longrightarrow> rs = []) \<Longrightarrow>
   same_process y (x_close (x_next y) (working y rs)) \<and>
   same_process y ((x_close (x_next y) (working y rs))\<lparr>x_files := f, x_bound := b\<rparr>)"
  using x_open_again by (auto simp: working_def x_close_def same_process_def xsys_ok_def)

lemma working_simps [simp]:
  "x_files (working y rs) = x_files y" "x_bound (working y rs) = x_bound y" "x_alive (working y rs) = x_alive y"
  "x_pid (working y rs) = x_pid y" "(working y rs)\<lparr>x_script := rs'\<rparr> = working y rs'" "x_script (working y rs) = rs"
  by (simp_all add: working_def)

lemma x_close_simps [simp]:
  "x_files (x_close fd y) = x_files y" "x_bound (x_close fd y) = x_bound y" "x_alive (x_close fd y) = x_alive y"
  "x_script (x_close fd y) = x_script y" "(x_close fd y)\<lparr>x_script := rs\<rparr> = x_close fd (y\<lparr>x_script := rs\<rparr>)"
  by (simp_all add: x_close_def)

lemma outcome_working:
  obtains oc rs1 where "x_outcome (working y rs) = (oc, working y rs1)" "rs = [] \<longrightarrow> oc = None \<and> rs1 = []"
proof -
  obtain oc rs1 where "x_outcome (working y rs) = (oc, (working y rs)\<lparr>x_script := rs1\<rparr>)" "rs = [] \<longrightarrow> oc = None \<and> rs1 = []"
    by (rule x_outcome_cases [of "working y rs"]) simp
  then show thesis using that by simp
qed

lemma outcome_closed:
  obtains oc rs1 where "x_outcome (x_close fd (working y rs)) = (oc, x_close fd (working y rs1))" "rs = [] \<longrightarrow> oc = None \<and> rs1 = []"
proof -
  obtain oc rs1 where "x_outcome (x_close fd (working y rs)) = (oc, (x_close fd (working y rs))\<lparr>x_script := rs1\<rparr>)"
    "rs = [] \<longrightarrow> oc = None \<and> rs1 = []"
    by (rule x_outcome_cases [of "x_close fd (working y rs)"]) simp
  then show thesis using that by simp
qed

text \<open>Every result of \<open>lock_exists\<close>: the file is kept, or it was stale and is removed.\<close>

lemma lock_exists_cases:
  assumes run: "lock_exists path y = (e, y')" and f: "x_files y path = Some c" and ok: "xsys_ok y"
  shows "same_process y y' \<and> (x_script y = [] \<longrightarrow> (e = EAGAIN \<longleftrightarrow> stale y c)) \<and>
    (e = EEXIST \<and> x_files y' = x_files y \<and> x_bound y' = x_bound y \<or>
     e = EAGAIN \<and> stale y c \<and> x_files y' = (x_files y)(path := None) \<and> x_bound y' = (x_bound y)(path := None))"
proof (cases y rule: x_new_cases)
  case (fail e1 rs)
  then have "e = EEXIST" "y' = y\<lparr>x_script := rs\<rparr>" using run by (simp_all add: lock_exists_def sys_open_read_def)
  then show ?thesis using fail(2) ok by (auto simp: same_process_def xsys_ok_def)
next
  case (fresh rs)
  let ?fd = "x_next y"
  have o: "sys_open_read path y = (Inr ?fd, working y rs)" using fresh f by (simp add: sys_open_read_def working_def)
  obtain oc rs1 where r: "x_outcome (working y rs) = (oc, working y rs1)" "x_script y = [] \<longrightarrow> oc = None \<and> rs1 = []"
    using fresh(2) by (metis outcome_working)
  show ?thesis
  proof (cases "oc = None \<and> stale y c")
    case False
    then have "e = EEXIST \<and> y' = x_close ?fd (working y rs1)"
      using run o r f by (cases oc) (auto simp: lock_exists_def sys_read_file_def stale_def sys_kill_def min_def split: sum.splits if_splits)
    then show ?thesis using working_close [OF ok, of rs1] r(2) False by auto
  next
    case True
    obtain oc2 rs2 where u: "x_outcome (x_close ?fd (working y rs1)) = (oc2, x_close ?fd (working y rs2))"
      "x_script y = [] \<longrightarrow> oc2 = None \<and> rs2 = []"
      using r(2) by (metis outcome_closed)
    obtain other where other: "safe_strtoint (c_string (take 10 c)) = Inr other" "length (take 11 c) = 11"
      "sys_kill other (working y rs1) = Some ESRCH"
      using True by (auto simp: stale_def sys_kill_def split: sum.splits)
    then have "(case sys_unlink_file path (x_close ?fd (working y rs1)) of (Some _, y3) \<Rightarrow> (EEXIST, y3) | (None, y3) \<Rightarrow> (EAGAIN, y3)) = (e, y')"
      using run o r f True by (simp add: lock_exists_def sys_read_file_def cong: if_cong)
    then show ?thesis using u True working_close [OF ok, of rs2] by (cases oc2) (auto simp: sys_unlink_file_def)
  qed
qed

text \<open>Every result of \<open>create_lockfile\<close>.\<close>

lemma create_lockfile_cases:
  assumes run: "create_lockfile d y = (r, y')" and ok: "xsys_ok y" and pid: "0 \<le> x_pid y" "x_pid y < 2 ^ 31"
  shows "same_process y y' \<and>
    (r = Inr () \<and> x_files y (lock_path d) = None \<and> x_files y' = (x_files y)(lock_path d \<mapsto> pid_line (x_pid y)) \<and> x_bound y' = x_bound y \<or>
     r = Inl EAGAIN \<and> (\<exists>c. x_files y (lock_path d) = Some c \<and> stale y c) \<and>
       x_files y' = (x_files y)(lock_path d := None) \<and> x_bound y' = (x_bound y)(lock_path d := None) \<or>
     (\<exists>e. r = Inl e \<and> (e = EAGAIN \<longrightarrow> x_script y \<noteq> [])) \<and> x_files y (lock_path d) \<noteq> None \<and> x_files y' = x_files y \<and> x_bound y' = x_bound y \<or>
     (\<exists>e. r = Inl e) \<and> x_files y (lock_path d) = None \<and> (\<forall>p. p \<noteq> lock_path d \<longrightarrow> x_files y' p = x_files y p))"
    (is "same_process y y' \<and> ?cases r y'")
    and "x_script y = [] \<Longrightarrow> r =
      (case x_files y (lock_path d) of None \<Rightarrow> Inr () | Some c \<Rightarrow> Inl (if stale y c then EAGAIN else EEXIST))"
proof -
  let ?p = "lock_path d" and ?fd = "x_next y"
  have len: "length (pid_line (x_pid y)) = 11" using pid_line_read [OF pid] by simp
  have "same_process y y' \<and> ?cases r y' \<and> (x_script y = [] \<longrightarrow> r =
      (case x_files y ?p of None \<Rightarrow> Inr () | Some c \<Rightarrow> Inl (if stale y c then EAGAIN else EEXIST)))"
  proof (cases y rule: x_new_cases)
    case (fail e1 rs)
    let ?y1 = "y\<lparr>x_script := rs\<rparr>"
    have s1: "same_process y ?y1" "x_script y \<noteq> []" using fail(2) ok by (auto simp: same_process_def xsys_ok_def)
    show ?thesis
    proof (cases "e1 = EEXIST \<and> (\<exists>c. x_files y ?p = Some c)")
      case True
      then obtain c where c: "x_files y ?p = Some c" by blast
      obtain e2 y2 where e: "lock_exists ?p ?y1 = (e2, y2)" by fastforce
      have "r = Inl e2 \<and> y' = y2" using run fail(1) e True by (simp add: create_lockfile_def sys_open_excl_def)
      moreover have "xsys_ok ?y1" "stale ?y1 c = stale y c" using ok by (simp_all add: xsys_ok_def)
      ultimately show ?thesis using lock_exists_cases [OF e, of c] c s1 same_process_trans [OF s1(1), of y2] by auto
    next
      case False
      show ?thesis
      proof (cases "e1 = EEXIST")
        case eq: True
        then have n: "x_files y ?p = None" using False by auto
        obtain e2 y2 where e: "lock_exists ?p ?y1 = (e2, y2)" by fastforce
        have "e2 = EEXIST \<and> same_process ?y1 y2 \<and> x_files y2 = x_files y"
        proof (cases ?y1 rule: x_new_cases)
          case (fail e3 rs3)
          then show ?thesis using e ok by (auto simp: lock_exists_def sys_open_read_def same_process_def xsys_ok_def)
        next
          case (fresh rs3)
          then have "x_new ?y1 = (Inr (x_next ?y1), working ?y1 rs3)" by (simp add: working_def)
          then show ?thesis using e n ok fresh(2) working_close [of ?y1 rs3]
            by (auto simp: lock_exists_def sys_open_read_def xsys_ok_def)
        qed
        moreover have "r = Inl e2 \<and> y' = y2" using run fail(1) e eq by (simp add: create_lockfile_def sys_open_excl_def)
        ultimately show ?thesis using n s1 same_process_trans [OF s1(1), of y2] by auto
      next
        case ne: False
        then have "r = Inl e1 \<and> y' = ?y1" using run fail(1) by (auto simp: create_lockfile_def sys_open_excl_def)
        then show ?thesis using s1 by auto
      qed
    qed
  next
    case (fresh rs)
    then have new: "x_new y = (Inr ?fd, working y rs)" by (simp add: working_def)
    show ?thesis
    proof (cases "x_files y ?p")
      case (Some c)
      let ?y1 = "x_close ?fd (working y rs)"
      have s1: "same_process y ?y1" "x_script y = [] \<longrightarrow> x_script ?y1 = []" using working_close [OF ok fresh(2)] fresh(2) by auto
      obtain e2 y2 where e: "lock_exists ?p ?y1 = (e2, y2)" by fastforce
      have "r = Inl e2 \<and> y' = y2" using run new Some e by (simp add: create_lockfile_def sys_open_excl_def)
      moreover have "xsys_ok ?y1" using s1(1) by (simp add: same_process_def)
      moreover have "stale ?y1 c = stale y c" by (rule stale_cong) simp
      ultimately show ?thesis using lock_exists_cases [OF e, of c] Some s1 same_process_trans [OF s1(1), of y2] by auto
    next
      case None
      define y1 where "y1 = (working y rs)\<lparr>x_files := (x_files y)(?p \<mapsto> [])\<rparr>"
      have o: "sys_open_excl ?p y = (Inr ?fd, y1)" using new None by (simp add: sys_open_excl_def y1_def)
      obtain oc rs1 where w: "x_outcome y1 = (oc, y1\<lparr>x_script := rs1\<rparr>)" "x_script y1 = [] \<longrightarrow> oc = None \<and> rs1 = []"
        by (rule x_outcome_cases)
      have y1: "y1\<lparr>x_script := rs1\<rparr> = (working y rs1)\<lparr>x_files := (x_files y)(?p \<mapsto> [])\<rparr>" "x_pid y1 = x_pid y"
        by (simp_all add: y1_def working_def)
      show ?thesis
      proof (cases oc)
        case None': None
        have "r = Inr ()" "y' = x_close ?fd ((working y rs1)\<lparr>x_files := (x_files y)(?p \<mapsto> pid_line (x_pid y))\<rparr>)"
          using run o w(1) None' y1 len by (simp_all add: create_lockfile_def sys_write_file_def)
        moreover have "x_script y = [] \<longrightarrow> rs1 = []" using w(2) fresh(2) by (simp add: y1_def)
        moreover have "x_close ?fd ((working y rs1)\<lparr>x_files := f\<rparr>) = (x_close ?fd (working y rs1))\<lparr>x_files := f, x_bound := x_bound y\<rparr>" for f
          by (simp add: x_close_def working_def)
        ultimately show ?thesis using working_close [OF ok, where rs = rs1 and b = "x_bound y"] None by auto
      next
        case (Some e1)
        then have ne: "x_script y \<noteq> []" using w(2) fresh(2) by (auto simp: y1_def)
        define y2 where "y2 = y1\<lparr>x_script := rs1\<rparr>"
        obtain oc2 rs2 where u: "x_outcome y2 = (oc2, y2\<lparr>x_script := rs2\<rparr>)" by (rule x_outcome_cases)
        have y2: "y2\<lparr>x_script := rs2\<rparr> = (working y rs2)\<lparr>x_files := (x_files y)(?p \<mapsto> [])\<rparr>"
          by (simp add: y2_def y1_def working_def)
        have r: "r = Inl e1" "y' = x_close ?fd (snd (sys_unlink_file ?p y2))"
          using run o w(1) Some by (simp_all add: create_lockfile_def sys_write_file_def y2_def)
        have k: "y' = (x_close ?fd (working y rs2))\<lparr>x_files := x_files y', x_bound := x_bound y'\<rparr> \<and>
            (\<forall>q. q \<noteq> ?p \<longrightarrow> x_files y' q = x_files y q)"
          unfolding r(2) sys_unlink_file_def u y2 by (cases oc2) (auto simp: x_close_def working_def)
        have "same_process y ((x_close ?fd (working y rs2))\<lparr>x_files := x_files y', x_bound := x_bound y'\<rparr>)"
          using working_close [OF ok, of rs2] ne by blast
        with k have "same_process y y'" by metis
        then show ?thesis using k None r(1) ne by auto
      qed
    qed
  qed
  then show "same_process y y' \<and> ?cases r y'"
    "x_script y = [] \<Longrightarrow> r = (case x_files y ?p of None \<Rightarrow> Inr () | Some c \<Rightarrow> Inl (if stale y c then EAGAIN else EEXIST))"
    by blast+
qed

section \<open>Finding a display\<close>

lemma same_process_taken:
  assumes "same_process y y'" "x_files y' = x_files y"
  shows "taken y' d = taken y d"
proof -
  have "stale y' c = stale y c" for c using assms(1) by (intro stale_cong) (simp add: same_process_def)
  then show ?thesis using assms(2) by (simp add: taken_def cong: option.case_cong)
qed

text \<open>With no failing calls the loop ends at the least display whose lock is not taken.\<close>

lemma retry_loop_least:
  assumes "xsys_ok y" "x_script y = []" "0 \<le> x_pid y" "x_pid y < 2 ^ 31" "display \<le> d" "d < 2 ^ 31 - 1"
    "\<forall>k. display \<le> k \<longrightarrow> k < d \<longrightarrow> taken y k" "\<not> taken y d"
  shows "\<exists>y'. retry_loop display y = Some (Some d, d, y') \<and> same_process y y' \<and>
    x_files y' = (x_files y)(lock_path d \<mapsto> pid_line (x_pid y)) \<and>
    (\<forall>p. p \<noteq> lock_path d \<longrightarrow> x_bound y' p = x_bound y p)"
  using assms
proof (induction "nat (d - display)" arbitrary: display y)
  case 0
  then have d: "display = d" by simp
  obtain r y1 where c: "create_lockfile d y = (r, y1)" by fastforce
  note cs = create_lockfile_cases [OF c 0(2) 0(4,5)]
  show ?case
  proof (cases "x_files y (lock_path d)")
    case None
    then show ?thesis using cs c d 0(3) by (subst retry_loop.simps) auto
  next
    case (Some content)
    then have st: "stale y content" using 0(9) by (simp add: taken_def)
    then have r: "r = Inl EAGAIN" "same_process y y1" "x_files y1 = (x_files y)(lock_path d := None)"
      "x_bound y1 = (x_bound y)(lock_path d := None)"
      using cs 0(3) Some by auto
    obtain r2 y2 where c2: "create_lockfile d y1 = (r2, y2)" by fastforce
    have o1: "xsys_ok y1" "x_pid y1 = x_pid y" "x_script y1 = []" using r(2) 0(3) by (auto simp: same_process_def)
    have "r2 = Inr () \<and> same_process y1 y2 \<and> x_files y2 = (x_files y1)(lock_path d \<mapsto> pid_line (x_pid y)) \<and> x_bound y2 = x_bound y1"
      using create_lockfile_cases [OF c2 o1(1)] o1 0(4,5) r(3) by auto
    moreover have "retry_loop d y = retry_loop d y1" using c r(1) by (subst retry_loop.simps) simp
    moreover have "retry_loop d y1 = Some (Some d, d, y2)" using c2 calculation by (subst retry_loop.simps) simp
    ultimately show ?thesis using d r same_process_trans [OF r(2), of y2] by auto
  qed
next
  case (Suc n)
  then have lt: "display < d" by simp
  obtain r y1 where c: "create_lockfile display y = (r, y1)" by fastforce
  have t: "taken y display" using Suc.prems lt by simp
  then obtain content where f: "x_files y (lock_path display) = Some content" "\<not> stale y content"
    by (auto simp: taken_def split: option.splits)
  then have r: "r = Inl EEXIST" "same_process y y1" "x_files y1 = x_files y" "x_bound y1 = x_bound y"
    using create_lockfile_cases [OF c Suc.prems(1,3,4)] Suc.prems(2) by auto
  have o1: "xsys_ok y1" "x_pid y1 = x_pid y" "x_script y1 = []" using r(2) Suc.prems(2) by (auto simp: same_process_def)
  have "\<exists>y'. retry_loop (display + 1) y1 = Some (Some d, d, y') \<and> same_process y1 y' \<and>
    x_files y' = (x_files y1)(lock_path d \<mapsto> pid_line (x_pid y1)) \<and>
    (\<forall>p. p \<noteq> lock_path d \<longrightarrow> x_bound y' p = x_bound y1 p)"
    using Suc.hyps(2) Suc.prems lt same_process_taken [OF r(2,3)] o1 by (intro Suc.hyps(1)) auto
  moreover have "retry_loop display y = retry_loop (display + 1) y1" using c r(1) Suc.prems(6) lt by (subst retry_loop.simps) simp
  ultimately show ?case using r o1 same_process_trans [OF r(2)] by auto
qed

lemma slashes:
  "c \<in> set (dec_int i) \<Longrightarrow> c \<noteq> CHR ''/''"
proof -
  have "\<not> is_digit (CHR ''/'')" by (simp add: is_digit_def)
  then show "c \<in> set (dec_int i) \<Longrightarrow> c \<noteq> CHR ''/''"
    using dec_nat_digits by (auto simp: dec_int_def split: if_splits)
qed

lemma lock_not_socket: "lock_path d \<noteq> socket_path e"
proof
  assume eq: "lock_path d = socket_path e"
  have "filter (\<lambda>c. c = CHR ''/'') (dec_int i) = []" for i using slashes by (auto simp: filter_empty_conv)
  then have "length (filter (\<lambda>c. c = CHR ''/'') (lock_path d)) = 2" "length (filter (\<lambda>c. c = CHR ''/'') (socket_path e)) = 3"
    by (simp_all add: lock_path_def socket_path_def)
  with eq show False by simp
qed

lemma bind_fresh:
  assumes ok: "xsys_ok y" and s: "x_script y = []"
  shows "\<exists>y'. bind_to_unix_socket d y = (x_next y, y') \<and> x_files y' = (x_files y)(socket_path d := None) \<and>
    x_bound y' = (x_bound y)(socket_path d \<mapsto> x_next y) \<and> x_open y' = insert (x_next y) (x_open y) \<and> x_alive y' = x_alive y"
  using assms
  by (simp add: bind_to_unix_socket_def x_new_def x_outcome_def Let_def sys_unlink_file_def sys_bind_path_def sys_listen_fd_def)

lemma listen_least:
  assumes a: "xs_xserver st a = Some wxs" and ok: "xsys_ok (xs_sys st)" "x_script (xs_sys st) = []"
    and pid: "0 \<le> x_pid (xs_sys st)" "x_pid (xs_sys st) < 2 ^ 31" "x_alive (xs_sys st) (x_pid (xs_sys st))"
    and d: "1 \<le> d" "d < 2 ^ 31 - 1" "\<forall>k. 1 \<le> k \<longrightarrow> k < d \<longrightarrow> taken (xs_sys st) k" "\<not> taken (xs_sys st) d"
  shows "\<exists>st' wxs'. westfield_xserver_listen sa func a st = Some (0, st') \<and> xs_xserver st' a = Some wxs' \<and>
    wx_display wxs' = d \<and> wx_loop wxs' \<and> taken (xs_sys st') d \<and>
    x_files (xs_sys st') = (x_files (xs_sys st))(lock_path d \<mapsto> pid_line (x_pid (xs_sys st)), socket_path d := None) \<and>
    x_bound (xs_sys st') (socket_path d) = Some (wx_unix_fd wxs') \<and>
    x_open (xs_sys st') = insert (wx_unix_fd wxs') (x_open (xs_sys st))"
proof -
  obtain y1 where y1: "retry_loop 1 (xs_sys st) = Some (Some d, d, y1)" "same_process (xs_sys st) y1"
    "x_files y1 = (x_files (xs_sys st))(lock_path d \<mapsto> pid_line (x_pid (xs_sys st)))"
    using retry_loop_least [OF ok pid(1,2) d] by blast
  have o1: "xsys_ok y1" "x_script y1 = []" "x_open y1 = x_open (xs_sys st)" "x_alive y1 = x_alive (xs_sys st)"
    using y1(2) ok(2) by (auto simp: same_process_def)
  obtain y2 where y2: "bind_to_unix_socket d y1 = (x_next y1, y2)" "x_files y2 = (x_files y1)(socket_path d := None)"
    "x_bound y2 = (x_bound y1)(socket_path d \<mapsto> x_next y1)" "x_open y2 = insert (x_next y1) (x_open y1)" "x_alive y2 = x_alive y1"
    using bind_fresh [OF o1(1,2)] by blast
  have fd: "\<not> x_next y1 < 0" using o1(1) by (simp add: xsys_ok_def)
  define st2 where "st2 = st\<lparr>xs_sys := y2, xs_env_display := Some (snprintf 8 (CHR '':'' # dec_int d)),
    xs_xserver := (xs_xserver st)(a \<mapsto> wxs\<lparr>wx_display := d, wx_unix_fd := x_next y1, wx_loop := True\<rparr>)\<rparr>"
  obtain source sv where src: "display_add_fd sa (of_int (x_next y1)) WL_EVENT_READABLE func (unat a) (xs_server st) = (source, sv)" by fastforce
  let ?st' = "st2\<lparr>xs_server := sv, xs_xserver := (xs_xserver st2)(a \<mapsto> wxs\<lparr>wx_display := d, wx_unix_fd := x_next y1, wx_loop := True,
      wx_unix_source := source\<rparr>)\<rparr>"
  have w: "xs_watch sa func a st2 = Some ?st'"
    using src by (simp add: xs_watch_def st2_def)
  have "westfield_xserver_listen sa func a st = Some (0, ?st')"
    using a y1(1) y2(1) fd w by (simp add: westfield_xserver_listen_def st2_def Let_def)
  moreover have "taken y2 d"
    using y1(3) y2(2,5) o1(4) pid lock_not_socket [of d d] stale_pid_line [OF pid(1,2), of y2] by (simp add: taken_def)
  ultimately show ?thesis using y1(3) y2 o1(3) by (intro exI [of _ ?st']) (simp add: st2_def)
qed

text \<open>C36: When no call fails and the processes keep still, the X server gets the least display number whose
  lock is not taken - whose lock file does not exist, or is well-formed and of a process that is gone -
  the loop ends, the lock file names the compositor, so that the display is taken for all others while
  it lives, its socket is bound, and no file but these two has changed.\<close>

theorem xserver_listen_least_free:
  assumes a: "xs_xserver st a = Some wxs" and ok: "xsys_ok (xs_sys st)" "x_script (xs_sys st) = []"
    and pid: "0 \<le> x_pid (xs_sys st)" "x_pid (xs_sys st) < 2 ^ 31" "x_alive (xs_sys st) (x_pid (xs_sys st))"
    and d: "1 \<le> d" "d < 2 ^ 31 - 1" "\<forall>k. 1 \<le> k \<longrightarrow> k < d \<longrightarrow> taken (xs_sys st) k" "\<not> taken (xs_sys st) d"
  shows "\<exists>st' wxs'. westfield_xserver_listen sa func a st = Some (0, st') \<and> xs_xserver st' a = Some wxs' \<and>
    wx_display wxs' = d \<and> wx_loop wxs' \<and> taken (xs_sys st') d \<and>
    x_files (xs_sys st') = (x_files (xs_sys st))(lock_path d \<mapsto> pid_line (x_pid (xs_sys st)), socket_path d := None) \<and>
    x_bound (xs_sys st') (socket_path d) = Some (wx_unix_fd wxs') \<and>
    x_open (xs_sys st') = insert (wx_unix_fd wxs') (x_open (xs_sys st))"
  by (rule listen_least [OF assms])

definition sample_xsys :: "errno option list \<Rightarrow> xsys" where
  "sample_xsys rs = \<lparr>x_files = Map.empty(lock_path 1 \<mapsto> pid_line 77, lock_path 2 \<mapsto> pid_line 99), x_bound = Map.empty,
     x_alive = (\<lambda>p. p = 77 \<or> p = 500), x_pid = 500, x_script = rs, x_open = {}, x_next = 3\<rparr>"

definition sample_xstate :: "errno option list \<Rightarrow> xstate" where
  "sample_xstate rs = \<lparr>xs_sys = sample_xsys rs, xs_server = dp_server sample_display,
     xs_xserver = Map.empty(64 \<mapsto> \<lparr>wx_user_data = 0, wx_unix_source = 0, wx_starting = 8, wx_destroyed = 0, wx_loop = False,
       wx_unix_fd = 0, wx_display = 0, wx_pid = 0, wx_xwayland = 0\<rparr>),
     xs_xwayland = Map.empty, xs_children = [], xs_env_display = None, xs_destroyed_calls = []\<rparr>"

lemma sample_lock_paths: "lock_path 1 \<noteq> lock_path 2"
  by code_simp

text \<open>Display 1 is taken by process 77; the lock of display 2 is of process 99, which is gone.\<close>

lemma sample_taken: "taken (sample_xsys []) 1" "\<not> taken (sample_xsys []) 2"
  using stale_pid_line [of 77] stale_pid_line [of 99] by (simp_all add: taken_def sample_xsys_def sample_lock_paths)

lemma sample_facts:
  "\<exists>wxs. xs_xserver (sample_xstate []) 64 = Some wxs" "xsys_ok (xs_sys (sample_xstate []))" "x_script (xs_sys (sample_xstate [])) = []"
  "0 \<le> x_pid (xs_sys (sample_xstate []))" "x_pid (xs_sys (sample_xstate [])) < 2 ^ 31"
  "x_alive (xs_sys (sample_xstate [])) (x_pid (xs_sys (sample_xstate [])))"
  "\<forall>k. 1 \<le> k \<longrightarrow> k < 2 \<longrightarrow> taken (xs_sys (sample_xstate [])) k" "\<not> taken (xs_sys (sample_xstate [])) 2"
proof -
  show "\<forall>k. 1 \<le> k \<longrightarrow> k < 2 \<longrightarrow> taken (xs_sys (sample_xstate [])) k"
  proof (intro allI impI)
    fix k :: int assume "1 \<le> k" "k < 2"
    then have "k = 1" by simp
    then show "taken (xs_sys (sample_xstate [])) k" using sample_taken by (simp add: sample_xstate_def)
  qed
  show "\<not> taken (xs_sys (sample_xstate [])) 2" using sample_taken by (simp add: sample_xstate_def)
qed (simp_all add: sample_xstate_def sample_xsys_def xsys_ok_def)

lemma xserver_listen_least_free_witness:
  "\<exists>st' wxs'. westfield_xserver_listen 4096 500 64 (sample_xstate []) = Some (0, st') \<and> xs_xserver st' 64 = Some wxs' \<and> wx_display wxs' = 2"
proof -
  obtain wxs where "xs_xserver (sample_xstate []) 64 = Some wxs" using sample_facts(1) by blast
  from xserver_listen_least_free [OF this sample_facts(2-6) _ _ sample_facts(7,8), of 4096 500] show ?thesis by fastforce
qed

text \<open>C37: When the setup cannot listen - no lock file or no socket can be made - the X server object is
  freed by the function that failed and once more by its caller, so that the setup has no defined result.\<close>

theorem xwayland_listen_failure_double_free:
  assumes a: "a \<noteq> 0" "w \<noteq> 0"
    and fail: "retry_loop 1 (xs_sys st) = Some (got, display, y1)" "got = None \<or> fst (bind_to_unix_socket display y1) < 0"
  shows "westfield_xwayland_setup sa func a w user_data starting destroyed st = None"
proof -
  have l: "\<exists>st3. westfield_xserver_listen sa func a s = Some (- 1, st3) \<and> xs_xserver st3 a = None"
    if "xs_sys s = xs_sys st" "xs_xserver s a = Some wxs" for s wxs
    using that fail
    by (cases got) (auto simp: westfield_xserver_listen_def xs_free_xserver_def Let_def split: prod.splits)
  let ?wxs = "\<lparr>wx_user_data = user_data, wx_unix_source = 0, wx_starting = starting, wx_destroyed = destroyed,
              wx_loop = False, wx_unix_fd = 0, wx_display = 0, wx_pid = 0, wx_xwayland = w\<rparr>"
  let ?st2 = "st\<lparr>xs_xserver := (xs_xserver st)(a \<mapsto> ?wxs),
    xs_xwayland := (xs_xwayland st)(w \<mapsto> \<lparr>ww_xserver = a, ww_wm_fd = 0, ww_display_fd = 0, ww_process_pid = 0\<rparr>)\<rparr>"
  obtain st3 where "westfield_xserver_listen sa func a ?st2 = Some (- 1, st3)" "xs_xserver st3 a = None"
    using l [of ?st2 ?wxs] by auto
  then show ?thesis using a by (simp add: westfield_xwayland_setup_def Let_def xs_free_xserver_def)
qed

lemma xwayland_listen_failure_double_free_witness:
  "westfield_xwayland_setup 4096 500 64 128 0 8 0 (sample_xstate [Some EIO]) = None"
proof -
  have "create_lockfile 1 (sample_xsys [Some EIO]) = (Inl EIO, sample_xsys [])"
    by (simp add: create_lockfile_def sys_open_excl_def x_new_def x_outcome_def sample_xsys_def Let_def)
  then have "retry_loop 1 (xs_sys (sample_xstate [Some EIO])) = Some (None, 1, sample_xsys [])"
    by (subst retry_loop.simps) (simp add: sample_xstate_def)
  from xwayland_listen_failure_double_free [OF _ _ this, of 64 128 4096 500 0 8 0] show ?thesis by simp
qed

section \<open>One owner for each display\<close>

definition live_lock :: "xsys \<Rightarrow> string \<Rightarrow> int \<Rightarrow> bool" where
  "live_lock y path q \<longleftrightarrow> 0 \<le> q \<and> q < 2 ^ 31 \<and> x_alive y q \<and> x_files y path = Some (pid_line q)"

lemma live_lock_owner:
  assumes "live_lock y path p" "live_lock y path q"
  shows "p = q"
proof -
  have "safe_strtoint (c_string (take 10 (pid_line p))) = Inr p" "safe_strtoint (c_string (take 10 (pid_line q))) = Inr q"
    using assms unfolding live_lock_def by (blast intro: pid_line_read(2))+
  moreover have "pid_line p = pid_line q" using assms by (metis live_lock_def option.inject)
  ultimately show ?thesis by (metis sum.inject(2))
qed

lemma retry_loop_keeps:
  assumes "retry_loop display y = Some (got, d, y')" "xsys_ok y" "0 \<le> x_pid y" "x_pid y < 2 ^ 31"
  shows "same_process y y' \<and> (\<forall>path q. live_lock y path q \<longrightarrow> live_lock y' path q) \<and>
    (got \<noteq> None \<longrightarrow> got = Some d \<and> x_files y' (lock_path d) = Some (pid_line (x_pid y)))"
proof -
  define P where "P = (\<lambda>(display :: int) y r. case r of (got, d, y') \<Rightarrow>
    xsys_ok y \<and> 0 \<le> x_pid y \<and> x_pid y < 2 ^ 31 \<longrightarrow> same_process y y' \<and> (\<forall>path q. live_lock y path q \<longrightarrow> live_lock y' path q) \<and>
    (got \<noteq> None \<longrightarrow> got = Some d \<and> x_files y' (lock_path d) = Some (pid_line (x_pid y))))"
  have one: "same_process y y1 \<and> (\<forall>path q. live_lock y path q \<longrightarrow> live_lock y1 path q) \<and>
      (r = Inr () \<longrightarrow> x_files y1 (lock_path display) = Some (pid_line (x_pid y)))"
    if "create_lockfile display y = (r, y1)" "xsys_ok y" "0 \<le> x_pid y" "x_pid y < 2 ^ 31" for display y r y1
  proof -
    note c = create_lockfile_cases(1) [OF that]
    have "live_lock y1 path q" if l: "live_lock y path q" for path q
    proof -
      have "\<not> stale y (pid_line q)" using l by (simp add: live_lock_def stale_pid_line)
      moreover have "x_alive y1 = x_alive y" using c by (simp add: same_process_def)
      ultimately show ?thesis using c l by (cases "path = lock_path display") (auto simp: live_lock_def)
    qed
    moreover have "r = Inr () \<longrightarrow> x_files y1 (lock_path display) = Some (pid_line (x_pid y))"
      using c by (elim conjE disjE exE) simp_all
    ultimately show ?thesis using c by blast
  qed
  have "P display y (got, d, y')"
  proof (rule retry_loop.raw_induct [OF _ assms(1), where P = P])
    fix loop :: "int \<Rightarrow> xsys \<Rightarrow> (int option \<times> int \<times> xsys) option" and display y r
    assume IH: "\<And>display y r. loop display y = Some r \<Longrightarrow> P display y r"
      and step: "(case create_lockfile display y of (Inl e, y1) \<Rightarrow> if e = EAGAIN then loop display y1
          else if e = EEXIST then (if display = 2 ^ 31 - 1 then None else loop (display + 1) y1) else Some (None, display, y1)
        | (Inr _, y1) \<Rightarrow> Some (Some display, display, y1)) = Some r"
    obtain got d y' where r: "r = (got, d, y')" by (cases r)
    obtain r0 y1 where c: "create_lockfile display y = (r0, y1)" by fastforce
    show "P display y r"
    proof (cases "xsys_ok y \<and> 0 \<le> x_pid y \<and> x_pid y < 2 ^ 31")
      case True
      note o = one [OF c, of] True
      have o1: "xsys_ok y1" "x_pid y1 = x_pid y" using o by (auto simp: same_process_def)
      show ?thesis
      proof (cases r0)
        case (Inr u)
        then show ?thesis using o step c r by (auto simp: P_def)
      next
        case (Inl e)
        consider "loop display y1 = Some r" | "loop (display + 1) y1 = Some r" | "r = (None, display, y1)"
        proof -
          have "(if e = EAGAIN then loop display y1
              else if e = EEXIST then (if display = 2 ^ 31 - 1 then None else loop (display + 1) y1) else Some (None, display, y1)) = Some r"
            using step c Inl by simp
          then show thesis using that by (metis option.distinct(1) option.inject)
        qed
        then show ?thesis
        proof cases
          case 1
          from IH [OF this] show ?thesis using o o1 r same_process_trans [of y y1 y'] by (simp add: P_def)
        next
          case 2
          from IH [OF this] show ?thesis using o o1 r same_process_trans [of y y1 y'] by (simp add: P_def)
        next
          case 3
          then show ?thesis using o r by (simp add: P_def)
        qed
      qed
    qed (auto simp: P_def r)
  qed
  then show ?thesis using assms by (simp add: P_def)
qed

lemma bind_frame:
  assumes run: "bind_to_unix_socket d y = (fd, y')" and ok: "xsys_ok y"
  shows "xsys_ok y' \<and> x_alive y' = x_alive y \<and> (\<forall>p. p \<noteq> socket_path d \<longrightarrow> x_files y' p = x_files y p)"
proof -
  define K where "K = (\<lambda>z. xsys_ok z \<and> x_alive z = x_alive y \<and> (\<forall>p. p \<noteq> socket_path d \<longrightarrow> x_files z p = x_files y p))"
  have unlink: "K z \<Longrightarrow> K (snd (sys_unlink_file (socket_path d) z))" for z
    by (cases z rule: x_outcome_cases) (auto simp: sys_unlink_file_def K_def xsys_ok_def split: option.splits)
  have close: "K z \<Longrightarrow> K (x_close f z)" for z f by (auto simp: K_def xsys_ok_def x_close_def)
  have bnd: "K z \<Longrightarrow> K (snd (sys_bind_path f (socket_path d) z))" for z f
    by (cases z rule: x_outcome_cases) (auto simp: sys_bind_path_def K_def xsys_ok_def split: option.splits)
  have lst: "K z \<Longrightarrow> K (snd (sys_listen_fd f z))" for z f
    by (cases z rule: x_outcome_cases) (auto simp: sys_listen_fd_def K_def xsys_ok_def split: option.splits)
  have new: "K (snd (x_new y))"
    by (cases y rule: x_new_cases) (use ok in \<open>auto simp: K_def xsys_ok_def\<close>)
  obtain r1 y1 where n: "x_new y = (r1, y1)" by fastforce
  show ?thesis
  proof (cases r1)
    case (Inl e)
    then show ?thesis using run n new by (simp add: bind_to_unix_socket_def K_def)
  next
    case (Inr f)
    obtain r2 y2 where b: "sys_bind_path f (socket_path d) (snd (sys_unlink_file (socket_path d) y1)) = (r2, y2)" by fastforce
    have k2: "K y2" using bnd [OF unlink, of y1 f] new n b by simp
    obtain r3 y3 where l: "sys_listen_fd f y2 = (r3, y3)" by fastforce
    have k3: "K y3" using lst [OF k2, of f] l by simp
    have c: "K (x_close f y2)" "K (x_close f (snd (sys_unlink_file (socket_path d) y3)))"
      using close [OF k2] close [OF unlink [OF k3]] by blast+
    have "y' = (case r2 of Inl _ \<Rightarrow> x_close f y2 | Inr _ \<Rightarrow>
        (case r3 of Inl _ \<Rightarrow> x_close f (snd (sys_unlink_file (socket_path d) y3)) | Inr _ \<Rightarrow> y3))"
      using run n Inr b l by (cases r2; cases r3) (simp_all add: bind_to_unix_socket_def Let_def)
    then have "K y'" using c k3 by (cases r2; cases r3) simp_all
    then show ?thesis by (simp add: K_def)
  qed
qed

definition other_locks_kept :: "int \<Rightarrow> xsys \<Rightarrow> xsys \<Rightarrow> bool" where
  "other_locks_kept p y y' \<longleftrightarrow> (\<forall>e q. q \<noteq> p \<and> live_lock y (lock_path e) q \<longrightarrow> live_lock y' (lock_path e) q)"

lemma unlink_frame:
  assumes "xsys_ok y"
  shows "xsys_ok (snd (sys_unlink_file path y)) \<and> x_alive (snd (sys_unlink_file path y)) = x_alive y \<and>
    (\<forall>p. p \<noteq> path \<longrightarrow> x_files (snd (sys_unlink_file path y)) p = x_files y p)"
  using assms by (cases y rule: x_outcome_cases) (auto simp: sys_unlink_file_def xsys_ok_def split: option.splits)

lemma unlink_own_lock:
  assumes "live_lock y (lock_path d) p" "xsys_ok y"
  shows "other_locks_kept p y (snd (sys_unlink_file (lock_path d) y))"
  unfolding other_locks_kept_def
proof (intro allI impI)
  fix e q assume q: "q \<noteq> p \<and> live_lock y (lock_path e) q"
  then have "lock_path e \<noteq> lock_path d" using live_lock_owner [of y "lock_path e" q p] assms(1) by auto
  then show "live_lock (snd (sys_unlink_file (lock_path d) y)) (lock_path e) q"
    using unlink_frame [OF assms(2), of "lock_path d"] q by (simp add: live_lock_def)
qed

lemma frame_locks_kept:
  "x_alive y' = x_alive y \<Longrightarrow> \<forall>p. p \<noteq> socket_path d \<longrightarrow> x_files y' p = x_files y p \<Longrightarrow>
   live_lock y' (lock_path e) q = live_lock y (lock_path e) q"
  using lock_not_socket [of e d] by (simp add: live_lock_def)

lemma listen_keeps:
  assumes run: "westfield_xserver_listen sa func a st = Some (r, st')" and ok: "xsys_ok (xs_sys st)"
    and pid: "0 \<le> x_pid (xs_sys st)" "x_pid (xs_sys st) < 2 ^ 31" "x_alive (xs_sys st) (x_pid (xs_sys st))"
  shows "xsys_ok (xs_sys st') \<and> other_locks_kept (x_pid (xs_sys st)) (xs_sys st) (xs_sys st') \<and>
    (r = 0 \<longrightarrow> (\<exists>wxs. xs_xserver st' a = Some wxs \<and> live_lock (xs_sys st') (lock_path (wx_display wxs)) (x_pid (xs_sys st))))"
proof -
  let ?p = "x_pid (xs_sys st)"
  obtain wxs got d y1 where l: "xs_xserver st a = Some wxs" "retry_loop 1 (xs_sys st) = Some (got, d, y1)"
    using run by (auto simp: westfield_xserver_listen_def bind_eq_Some_conv)
  note k = retry_loop_keeps [OF l(2) ok pid(1,2)]
  have k1: "xsys_ok y1" "x_alive y1 = x_alive (xs_sys st)" "\<forall>path q. live_lock (xs_sys st) path q \<longrightarrow> live_lock y1 path q"
    using k by (auto simp: same_process_def)
  show ?thesis
  proof (cases got)
    case None
    then have "xs_sys st' = y1 \<and> r = - 1"
      using run l by (auto simp: westfield_xserver_listen_def xs_free_xserver_def Let_def)
    then show ?thesis using k1 by (auto simp: other_locks_kept_def)
  next
    case (Some g)
    then have own: "live_lock y1 (lock_path d) ?p" using k pid k1(2) by (simp add: live_lock_def)
    obtain fd y2 where b: "bind_to_unix_socket d y1 = (fd, y2)" by fastforce
    note f = bind_frame [OF b k1(1)]
    have ll: "live_lock y2 (lock_path e) q = live_lock y1 (lock_path e) q" for e q
      using frame_locks_kept [of y2 y1 d e q] f by blast
    show ?thesis
    proof (cases "fd < 0")
      case True
      let ?y3 = "snd (sys_unlink_file (lock_path d) y2)"
      have "xs_sys st' = ?y3 \<and> r = - 1"
        using run l Some b True by (auto simp: westfield_xserver_listen_def xs_free_xserver_def Let_def)
      moreover have "other_locks_kept ?p y2 ?y3" using unlink_own_lock [of y2 d ?p] own ll f by simp
      ultimately show ?thesis using unlink_frame [of y2 "lock_path d"] f k1(3) ll by (auto simp: other_locks_kept_def)
    next
      case False
      have "r = 0 \<and> xs_sys st' = y2 \<and> (\<exists>source. xs_xserver st' a = Some (wxs\<lparr>wx_display := d, wx_unix_fd := fd, wx_loop := True, wx_unix_source := source\<rparr>))"
        using run l Some b False by (auto simp: westfield_xserver_listen_def xs_watch_def Let_def split: prod.splits)
      then show ?thesis using f k1(3) own ll by (auto simp: other_locks_kept_def)
    qed
  qed
qed

lemma shutdown_sys:
  assumes "westfield_xserver_shutdown a st = Some st'" "xs_xserver st a = Some wxs"
  shows "\<exists>f. xs_sys st' = x_close f (snd (sys_unlink_file (socket_path (wx_display wxs))
    (snd (sys_unlink_file (lock_path (wx_display wxs)) (xs_sys st)))))"
  using assms
  by (auto simp: westfield_xserver_shutdown_def bind_eq_Some_conv Let_def call_destroyed_def xs_unwatch_def split: if_splits)

text \<open>
  Between finding that a lock is stale and removing it, the code does not look again.  A compositor
  \<open>p\<close> that is about to remove a stale lock removes instead the lock that another one, \<open>q\<close>, has
  made in the meantime, after removing the stale one itself; then both have the lock of the display.
\<close>

lemma stale_unlink_race:
  assumes ok: "xsys_ok y" "x_script y = []" and q: "0 \<le> q" "q < 2 ^ 31" and p: "0 \<le> p" "p < 2 ^ 31"
    and stale: "x_files y (lock_path d) = Some c" "stale y c"
  shows "\<exists>y1 y2 y3 y4. create_lockfile d (y\<lparr>x_pid := q\<rparr>) = (Inl EAGAIN, y1) \<and> create_lockfile d y1 = (Inr (), y2) \<and>
    sys_unlink_file (lock_path d) (y2\<lparr>x_pid := p\<rparr>) = (None, y3) \<and> create_lockfile d y3 = (Inr (), y4) \<and>
    x_files y2 (lock_path d) = Some (pid_line q) \<and> x_files y4 (lock_path d) = Some (pid_line p)"
proof -
  let ?y0 = "y\<lparr>x_pid := q\<rparr>"
  have o0: "xsys_ok ?y0" "0 \<le> x_pid ?y0" "x_pid ?y0 < 2 ^ 31" "x_script ?y0 = []" "stale ?y0 c"
    using ok q stale(2) stale_cong [of ?y0 y c] by (simp_all add: xsys_ok_def)
  obtain r1 y1 where c1: "create_lockfile d ?y0 = (r1, y1)" by fastforce
  have r1: "r1 = Inl EAGAIN" using create_lockfile_cases(2) [OF c1 o0(1-4)] stale(1) o0(5) by simp
  have y1: "same_process ?y0 y1" "x_files y1 (lock_path d) = None"
    using create_lockfile_cases(1) [OF c1 o0(1-3)] r1 o0(4) stale(1) by auto
  have o1: "xsys_ok y1" "0 \<le> x_pid y1" "x_pid y1 < 2 ^ 31" "x_script y1 = []" "x_pid y1 = q"
    using y1(1) o0 by (auto simp: same_process_def)
  obtain r2 y2 where c2: "create_lockfile d y1 = (r2, y2)" by fastforce
  have r2: "r2 = Inr ()" using create_lockfile_cases(2) [OF c2 o1(1-4)] y1(2) by simp
  have y2: "same_process y1 y2" "x_files y2 (lock_path d) = Some (pid_line q)"
    using create_lockfile_cases(1) [OF c2 o1(1-3)] r2 y1(2) o1(5) by auto
  let ?y2 = "y2\<lparr>x_pid := p\<rparr>"
  have o2: "xsys_ok ?y2" "x_script ?y2 = []" using y2(1) o1 by (auto simp: same_process_def xsys_ok_def)
  let ?y3 = "?y2\<lparr>x_files := (x_files ?y2)(lock_path d := None), x_bound := (x_bound ?y2)(lock_path d := None)\<rparr>"
  have u: "sys_unlink_file (lock_path d) ?y2 = (None, ?y3)"
    using o2(2) by (simp add: sys_unlink_file_def x_outcome_def)
  have o3: "xsys_ok ?y3" "0 \<le> x_pid ?y3" "x_pid ?y3 < 2 ^ 31" "x_script ?y3 = []" "x_files ?y3 (lock_path d) = None"
    using o2 p by (simp_all add: xsys_ok_def)
  obtain r4 y4 where c4: "create_lockfile d ?y3 = (r4, y4)" by fastforce
  have r4: "r4 = Inr ()" using create_lockfile_cases(2) [OF c4 o3(1-4)] by simp
  have "x_files y4 (lock_path d) = Some (pid_line p)"
    using create_lockfile_cases(1) [OF c4 o3(1-3)] r4 by auto
  with c1 r1 c2 r2 u c4 r4 y2(2) show ?thesis by blast
qed

text \<open>
  Compositors on one machine: processes that start and end at any time, take a display and shut their
  server down, with any failures.  Each call of \<open>westfield_xserver_listen\<close> and of the shutdown is one
  step, so two of them do not overlap in time (\<open>stale_unlink_race\<close> shows what can happen when they
  do).  \<open>D\<close> maps a process to its display.
\<close>

inductive xdisplays :: "xsys \<Rightarrow> (int \<Rightarrow> int option) \<Rightarrow> bool" where
  boot: "xsys_ok y \<Longrightarrow> xdisplays y Map.empty"
| start: "xdisplays y D \<Longrightarrow> xdisplays (y\<lparr>x_alive := (x_alive y)(p := True)\<rparr>) D"
| exit: "xdisplays y D \<Longrightarrow> xdisplays (y\<lparr>x_alive := (x_alive y)(p := False)\<rparr>) (D(p := None))"
| listen: "xdisplays y D \<Longrightarrow> x_alive y p \<Longrightarrow> 0 \<le> p \<Longrightarrow> p < 2 ^ 31 \<Longrightarrow> D p = None \<Longrightarrow>
    xs_sys st = y\<lparr>x_pid := p, x_script := rs\<rparr> \<Longrightarrow> westfield_xserver_listen sa func a st = Some (r, st') \<Longrightarrow>
    xdisplays (xs_sys st') (if r = 0 then D(p := map_option wx_display (xs_xserver st' a)) else D)"
| shutdown: "xdisplays y D \<Longrightarrow> D p = Some (wx_display wxs) \<Longrightarrow> xs_sys st = y\<lparr>x_pid := p, x_script := rs\<rparr> \<Longrightarrow>
    xs_xserver st a = Some wxs \<Longrightarrow> westfield_xserver_shutdown a st = Some st' \<Longrightarrow> xdisplays (xs_sys st') (D(p := None))"

lemma live_lock_fields:
  "live_lock (y\<lparr>x_pid := p, x_script := rs\<rparr>) path q = live_lock y path q" "xsys_ok (y\<lparr>x_pid := p, x_script := rs\<rparr>) = xsys_ok y"
  "live_lock (x_close f y) path q = live_lock y path q" "xsys_ok y \<Longrightarrow> xsys_ok (x_close f y)"
  by (simp_all add: live_lock_def xsys_ok_def x_close_def)

lemma xdisplays_inv:
  "xdisplays y D \<Longrightarrow> xsys_ok y \<and> (\<forall>p d. D p = Some d \<longrightarrow> live_lock y (lock_path d) p)"
proof (induction rule: xdisplays.induct)
  case (boot y)
  then show ?case by simp
next
  case (start y D p)
  then show ?case by (auto simp: live_lock_def xsys_ok_def)
next
  case (exit y D p)
  then show ?case by (auto simp: live_lock_def xsys_ok_def)
next
  case (listen y D p st rs sa func a r st')
  have ok: "xsys_ok (xs_sys st)" "x_pid (xs_sys st) = p" "x_alive (xs_sys st) p"
    using listen by (simp_all add: live_lock_fields)
  note k = listen_keeps [OF listen(7) ok(1)]
  have "live_lock (xs_sys st') (lock_path d) q" if "D q = Some d" for q d
  proof -
    have "q \<noteq> p" using that listen(5) by auto
    moreover have "live_lock (xs_sys st) (lock_path d) q" using listen that by (simp add: live_lock_fields)
    ultimately show ?thesis using k listen ok by (auto simp: other_locks_kept_def)
  qed
  then show ?case using k listen ok by auto
next
  case (shutdown y D p wxs st rs a st')
  let ?y = "xs_sys st" and ?d = "wx_display wxs"
  obtain f where f: "xs_sys st' = x_close f (snd (sys_unlink_file (socket_path ?d) (snd (sys_unlink_file (lock_path ?d) ?y))))"
    using shutdown_sys shutdown by blast
  have y: "xsys_ok ?y" "live_lock ?y (lock_path ?d) p" using shutdown by (simp_all add: live_lock_fields)
  let ?y1 = "snd (sys_unlink_file (lock_path ?d) ?y)"
  have y1: "xsys_ok ?y1" "other_locks_kept p ?y ?y1" using unlink_frame [OF y(1)] unlink_own_lock [OF y(2,1)] by auto
  have "live_lock (xs_sys st') (lock_path e) q" if "D q = Some e" "q \<noteq> p" for q e
  proof -
    have "live_lock ?y (lock_path e) q" using shutdown that(1) by (simp add: live_lock_fields)
    then have "live_lock ?y1 (lock_path e) q" using y1(2) that(2) by (simp add: other_locks_kept_def)
    then show ?thesis
      unfolding f live_lock_fields using frame_locks_kept [of "snd (sys_unlink_file (socket_path ?d) ?y1)" ?y1 ?d e q]
        unlink_frame [OF y1(1), of "socket_path ?d"] by blast
  qed
  then show ?case using f unlink_frame [OF y1(1)] by (auto simp: live_lock_fields)
qed

text \<open>C12: As long as no two compositors are looking for a display at the same time, whatever they do -
  start, take displays with any calls failing, shut down, or end without cleaning up - two that run
  never have the same X display, and the lock file of the display of a running compositor names it.
  Searches that overlap are not covered: the check of a stale lock and its removal are separate
  calls, and lemma \<open>stale_unlink_race\<close> shows two compositors with one lock.\<close>

theorem xdisplay_exclusive:
  assumes "xdisplays y D" "D p = Some d" "D q = Some d"
  shows "p = q \<and> x_alive y p \<and> x_files y (lock_path d) = Some (pid_line p)"
proof -
  have "live_lock y (lock_path d) p" "live_lock y (lock_path d) q" using xdisplays_inv [OF assms(1)] assms(2,3) by auto
  then show ?thesis using live_lock_owner [of y "lock_path d" p q] by (simp add: live_lock_def)
qed

lemma xdisplay_exclusive_witness:
  "\<exists>y D. xdisplays y D \<and> D 500 = Some 2 \<and> x_files y (lock_path 2) = Some (pid_line 500)"
proof -
  obtain wxs where "xs_xserver (sample_xstate []) 64 = Some wxs" using sample_facts(1) by blast
  from listen_least [OF this sample_facts(2-6) _ _ sample_facts(7,8), of 4096 500]
  obtain st' wxs' where l: "westfield_xserver_listen 4096 500 64 (sample_xstate []) = Some (0, st')" "xs_xserver st' 64 = Some wxs'" "wx_display wxs' = 2"
    by fastforce
  have "xdisplays (sample_xsys []) Map.empty" using sample_facts(2) by (intro boot) (simp add: sample_xstate_def)
  then have "xdisplays (xs_sys st') (if (0 :: int) = 0 then Map.empty((500 :: int) := map_option wx_display (xs_xserver st' 64)) else Map.empty)"
    by (rule listen [where rs = "[]", OF _ _ _ _ _ _ l(1)]) (simp_all add: sample_xsys_def sample_xstate_def)
  then have x: "xdisplays (xs_sys st') (Map.empty(500 \<mapsto> 2))" using l(2,3) by simp
  from xdisplay_exclusive [OF x, of 500 2 500] x show ?thesis by fastforce
qed

end
