(* ===== verification/Addon.thy ===== *)
theory Addon
  imports Client
begin

text \<open>
  The binding of the library to JavaScript, node-addon/westfield-addon.c: the callbacks through which a
  client's messages, descriptors and objects reach JavaScript, the references that keep them, sending
  events, and making messages, interfaces and resources out of JavaScript values.  N-API is used for
  what its documentation says: values, references to them that live until they are deleted, and
  calls; the JavaScript functions are a parameter.  Calls of N-API succeed; \<open>None\<close> is undefined
  behaviour or a value of the wrong type.
\<close>

section \<open>Values and state\<close>

datatype js = External u64 | Uint u32 | Text string | Bytes "u8 list" | Fds "fd list" | Null | Undefined | Func nat

text \<open>References are numbers and pointers addresses, 0 is \<open>NULL\<close>.\<close>

record client_destruction_listener =
  cd_js_object :: nat
  cd_destroy_cb_ref :: nat
  cd_wire_message_cb_ref :: nat
  cd_wire_message_end_cb_ref :: nat
  cd_registry_created_cb_ref :: nat
  cd_buffer_created_cb_ref :: nat
  cd_sync_done_cb_ref :: nat

record display_destruction_listener =
  dd_client_creation_cb_ref :: nat
  dd_global_created_cb_ref :: nat
  dd_global_destroyed_cb_ref :: nat

text \<open>
  \<open>ad_display\<close> is the destroy listener of the display, \<open>None\<close> when the display no longer has it, and
  \<open>ad_client\<close> the one of each client; \<open>ad_next\<close> is the next reference.
\<close>

record addon =
  ad_server :: server
  ad_display :: "display_destruction_listener option"
  ad_client :: "u64 \<Rightarrow> client_destruction_listener option"
  ad_ref :: "nat \<Rightarrow> js option"
  ad_next :: nat
  ad_message :: "u64 \<Rightarrow> wl_message option"
  ad_interface :: "u64 \<Rightarrow> wl_interface option"

text \<open>The JavaScript functions: the function, its arguments, and the result.\<close>

type_synonym javascript = "js \<Rightarrow> js list \<Rightarrow> addon \<Rightarrow> js \<times> addon"

definition napi_create_reference :: "js \<Rightarrow> addon \<Rightarrow> nat \<times> addon" where
  "napi_create_reference v st = (ad_next st, st\<lparr>ad_ref := (ad_ref st)(ad_next st := Some v), ad_next := ad_next st + 1\<rparr>)"

definition napi_delete_reference :: "nat \<Rightarrow> addon \<Rightarrow> addon option" where
  "napi_delete_reference r st = (if ad_ref st r = None then None else Some (st\<lparr>ad_ref := (ad_ref st)(r := None)\<rparr>))"

definition call_ref :: "javascript \<Rightarrow> nat \<Rightarrow> js list \<Rightarrow> addon \<Rightarrow> (js \<times> addon) option" where
  "call_ref f r args st = map_option (\<lambda>cb. f cb args st) (ad_ref st r)"

definition upd_listener :: "u64 \<Rightarrow> (client_destruction_listener \<Rightarrow> client_destruction_listener) \<Rightarrow> addon \<Rightarrow> addon" where
  "upd_listener c g st = st\<lparr>ad_client := (ad_client st)(c := map_option g (ad_client st c))\<rparr>"

definition with_os :: "(os \<Rightarrow> os) \<Rightarrow> addon \<Rightarrow> addon" where
  "with_os g st = st\<lparr>ad_server := (ad_server st)\<lparr>s_os := g (s_os (ad_server st))\<rparr>\<rparr>"

section \<open>Callbacks\<close>

definition on_display_destroyed :: "addon \<Rightarrow> addon option" where
  "on_display_destroyed st = do {
     d \<leftarrow> ad_display st;
     st1 \<leftarrow> napi_delete_reference (dd_client_creation_cb_ref d) st;
     st2 \<leftarrow> napi_delete_reference (dd_global_created_cb_ref d) st1;
     st3 \<leftarrow> napi_delete_reference (dd_global_destroyed_cb_ref d) st2;
     Some (st3\<lparr>ad_display := None\<rparr>) }"

text \<open>A reference that is \<open>NULL\<close> is left alone.\<close>

definition delete_if_set :: "nat \<Rightarrow> addon \<Rightarrow> addon option" where
  "delete_if_set r st = (if r \<noteq> 0 then napi_delete_reference r st else Some st)"

definition delete_client_refs :: "client_destruction_listener \<Rightarrow> addon \<Rightarrow> addon option" where
  "delete_client_refs l st = do {
     st1 \<leftarrow> napi_delete_reference (cd_js_object l) st;
     st2 \<leftarrow> delete_if_set (cd_destroy_cb_ref l) st1;
     st3 \<leftarrow> delete_if_set (cd_wire_message_cb_ref l) st2;
     st4 \<leftarrow> delete_if_set (cd_wire_message_end_cb_ref l) st3;
     st5 \<leftarrow> delete_if_set (cd_registry_created_cb_ref l) st4;
     st6 \<leftarrow> delete_if_set (cd_sync_done_cb_ref l) st5;
     delete_if_set (cd_buffer_created_cb_ref l) st6 }"

definition on_client_destroyed :: "javascript \<Rightarrow> u64 \<Rightarrow> addon \<Rightarrow> addon option" where
  "on_client_destroyed f c st = do {
     l \<leftarrow> ad_client st c;
     if cd_destroy_cb_ref l = 0 then Some st
     else do {
       _ \<leftarrow> ad_display st;
       v \<leftarrow> ad_ref st (cd_js_object l);
       (_, st1) \<leftarrow> call_ref f (cd_destroy_cb_ref l) [v] st;
       l1 \<leftarrow> ad_client st1 c;
       delete_client_refs l1 st1 } }"

text \<open>The result of JavaScript must be a number, else the variable it is read into stays uninitialised.\<close>

definition on_wire_message :: "javascript \<Rightarrow> u64 \<Rightarrow> u8 list \<Rightarrow> u32 \<Rightarrow> u32 \<Rightarrow> addon \<Rightarrow> (int \<times> addon) option" where
  "on_wire_message f c message object opcode st = do {
     l \<leftarrow> ad_client st c;
     if cd_wire_message_cb_ref l = 0 then Some (0, st)
     else do {
       _ \<leftarrow> ad_display st;
       v \<leftarrow> ad_ref st (cd_js_object l);
       (r, st1) \<leftarrow> call_ref f (cd_wire_message_cb_ref l) [v, Bytes message, Uint object, Uint opcode] st;
       (case r of Uint n \<Rightarrow> Some (sint n, st1) | _ \<Rightarrow> None) } }"

definition on_wire_message_end :: "javascript \<Rightarrow> u64 \<Rightarrow> addon \<Rightarrow> addon option" where
  "on_wire_message_end f c st = do {
     l \<leftarrow> ad_client st c;
     if cd_wire_message_end_cb_ref l = 0 then Some st
     else do {
       cl \<leftarrow> s_client (ad_server st) c;
       let n = wl_connection_fds_in_size (c_connection cl);
       let (mem, w) = sys_malloc (s_os (ad_server st));
       if \<not> mem \<and> n \<noteq> 0 then None
       else do {
         let (fds, conn) = wl_connection_copy_fds_in (c_connection cl) n;
         let st1 = st\<lparr>ad_server := (upd_client c (\<lambda>cl. cl\<lparr>c_connection := conn\<rparr>) (ad_server st))\<lparr>s_os := w\<rparr>\<rparr>;
         _ \<leftarrow> ad_display st1;
         v \<leftarrow> ad_ref st1 (cd_js_object l);
         (_, st2) \<leftarrow> call_ref f (cd_wire_message_end_cb_ref l) [v, if n \<noteq> 0 then Fds fds else Null] st1;
         Some st2 } } }"

definition on_registry_created :: "javascript \<Rightarrow> u64 \<Rightarrow> u64 \<Rightarrow> u32 \<Rightarrow> addon \<Rightarrow> addon option" where
  "on_registry_created f c registry i st = do {
     l \<leftarrow> ad_client st c;
     if cd_registry_created_cb_ref l = 0 then Some st
     else do {
       _ \<leftarrow> ad_display st;
       map_option snd (call_ref f (cd_registry_created_cb_ref l) [External registry, Uint i] st) } }"

definition on_sync_done :: "javascript \<Rightarrow> u64 \<Rightarrow> u32 \<Rightarrow> addon \<Rightarrow> addon option" where
  "on_sync_done f c i st = do {
     l \<leftarrow> ad_client st c;
     if cd_sync_done_cb_ref l = 0 then Some st
     else do {
       _ \<leftarrow> ad_display st;
       map_option snd (call_ref f (cd_sync_done_cb_ref l) [Uint i] st) } }"

definition on_resource_created :: "env \<Rightarrow> javascript \<Rightarrow> u64 \<Rightarrow> addon \<Rightarrow> addon option" where
  "on_resource_created env f r st = do {
     res \<leftarrow> s_res (ad_server st) r;
     name \<leftarrow> wl_resource_get_class env r (ad_server st);
     if name \<noteq> ''wl_buffer'' then Some st
     else do {
       l \<leftarrow> ad_client st (r_client res);
       if cd_buffer_created_cb_ref l = 0 then Some st
       else do {
         _ \<leftarrow> ad_display st;
         i \<leftarrow> wl_resource_get_id r (ad_server st);
         map_option snd (call_ref f (cd_buffer_created_cb_ref l) [Uint i] st) } } }"

definition on_global_created :: "javascript \<Rightarrow> u32 \<Rightarrow> addon \<Rightarrow> addon option" where
  "on_global_created f name st = do {
     d \<leftarrow> ad_display st;
     map_option snd (call_ref f (dd_global_created_cb_ref d) [Uint name] st) }"

definition on_global_destroyed :: "javascript \<Rightarrow> u32 \<Rightarrow> addon \<Rightarrow> addon option" where
  "on_global_destroyed f name st =
     (case ad_display st of
        None \<Rightarrow> Some st
      | Some d \<Rightarrow> map_option snd (call_ref f (dd_global_destroyed_cb_ref d) [Uint name] st))"

text \<open>
  The functions that are installed are named by their addresses.  \<open>junk\<close> is what \<open>malloc\<close> leaves in the
  field for the callback of sync requests, which is the only one that is not set.
\<close>

record addon_code =
  ac_wire_message :: u64
  ac_wire_message_end :: u64
  ac_registry_created :: u64
  ac_sync_done :: u64

definition install_callbacks :: "addon_code \<Rightarrow> u64 \<Rightarrow> server \<Rightarrow> server" where
  "install_callbacks k c s =
     wl_client_set_sync_done_cb c (ac_sync_done k) (wl_client_set_registry_created_cb c (ac_registry_created k)
       (wl_client_set_wire_message_end_cb c (ac_wire_message_end k) (wl_client_set_wire_message_cb c (ac_wire_message k) s)))"

definition on_client_created :: "javascript \<Rightarrow> addon_code \<Rightarrow> nat \<Rightarrow> u64 \<Rightarrow> addon \<Rightarrow> addon option" where
  "on_client_created f k junk c st = do {
     d \<leftarrow> ad_display st;
     let (mem1, w1) = sys_malloc (s_os (ad_server st));
     if \<not> mem1 then None
     else do {
       _ \<leftarrow> s_client (ad_server st) c;
       let s1 = install_callbacks k c ((ad_server st)\<lparr>s_os := w1\<rparr>);
       let (mem2, w2) = sys_malloc (s_os s1);
       if \<not> mem2 then None
       else do {
         let (r, st1) = napi_create_reference (External c) (st\<lparr>ad_server := s1\<lparr>s_os := w2\<rparr>\<rparr>);
         let l = \<lparr>cd_js_object = r, cd_destroy_cb_ref = 0, cd_wire_message_cb_ref = 0, cd_wire_message_end_cb_ref = 0,
                  cd_registry_created_cb_ref = 0, cd_buffer_created_cb_ref = 0, cd_sync_done_cb_ref = junk\<rparr>;
         map_option snd (call_ref f (dd_client_creation_cb_ref d) [External c] (st1\<lparr>ad_client := (ad_client st1)(c := Some l)\<rparr>)) } } }"

text \<open>Each setter makes a reference to its function and stores it in the listener of the client.\<close>

definition set_callback ::
  "(nat \<Rightarrow> client_destruction_listener \<Rightarrow> client_destruction_listener) \<Rightarrow> u64 \<Rightarrow> js \<Rightarrow> addon \<Rightarrow> addon option" where
  "set_callback upd c cb st =
     (case napi_create_reference cb st of (r, st1) \<Rightarrow>
        if ad_client st1 c = None then None else Some (upd_listener c (upd r) st1))"

definition setClientDestroyedCallback :: "u64 \<Rightarrow> js \<Rightarrow> addon \<Rightarrow> addon option" where
  "setClientDestroyedCallback = set_callback (\<lambda>r l. l\<lparr>cd_destroy_cb_ref := r\<rparr>)"

definition setWireMessageCallback :: "u64 \<Rightarrow> js \<Rightarrow> addon \<Rightarrow> addon option" where
  "setWireMessageCallback = set_callback (\<lambda>r l. l\<lparr>cd_wire_message_cb_ref := r\<rparr>)"

definition setWireMessageEndCallback :: "u64 \<Rightarrow> js \<Rightarrow> addon \<Rightarrow> addon option" where
  "setWireMessageEndCallback = set_callback (\<lambda>r l. l\<lparr>cd_wire_message_end_cb_ref := r\<rparr>)"

definition setSyncDoneCallback :: "u64 \<Rightarrow> js \<Rightarrow> addon \<Rightarrow> addon option" where
  "setSyncDoneCallback = set_callback (\<lambda>r l. l\<lparr>cd_sync_done_cb_ref := r\<rparr>)"

definition setRegistryCreatedCallback :: "u64 \<Rightarrow> js \<Rightarrow> addon \<Rightarrow> addon option" where
  "setRegistryCreatedCallback = set_callback (\<lambda>r l. l\<lparr>cd_registry_created_cb_ref := r\<rparr>)"

definition setBufferCreatedCallback :: "u64 \<Rightarrow> js \<Rightarrow> addon \<Rightarrow> addon option" where
  "setBufferCreatedCallback = set_callback (\<lambda>r l. l\<lparr>cd_buffer_created_cb_ref := r\<rparr>)"

section \<open>Exported functions\<close>

text \<open>The results of the connection are not looked at.\<close>

fun put_fds :: "fd list \<Rightarrow> wl_connection \<Rightarrow> os \<Rightarrow> wl_connection \<times> os" where
  "put_fds [] conn w = (conn, w)"
| "put_fds (fd # fds) conn w = (case wl_connection_put_fd conn fd w of (_, conn1, w1) \<Rightarrow> put_fds fds conn1 w1)"

definition sendEvents :: "u64 \<Rightarrow> u32 list \<Rightarrow> fd list \<Rightarrow> server \<Rightarrow> server option" where
  "sendEvents c messages fds s = do {
     cl \<leftarrow> s_client s c;
     let (conn1, w1) = put_fds fds (c_connection cl) (s_os s);
     let (_, conn2, w2) = wl_connection_write conn1 (bytes_of messages) w1;
     Some ((upd_client c (\<lambda>cl. cl\<lparr>c_connection := conn2\<rparr>) s)\<lparr>s_os := w2\<rparr>) }"

definition flush :: "u64 \<Rightarrow> server \<Rightarrow> server option" where
  "flush c s = do {
     cl \<leftarrow> s_client s c;
     let (_, conn, w) = wl_connection_flush (c_connection cl) (s_os s);
     Some ((upd_client c (\<lambda>cl. cl\<lparr>c_connection := conn\<rparr>) s)\<lparr>s_os := w\<rparr>) }"

definition destroyClient :: "env \<Rightarrow> u64 \<Rightarrow> addon \<Rightarrow> addon option" where
  "destroyClient env c st = do {
     _ \<leftarrow> s_client (ad_server st) c;
     _ \<leftarrow> ad_display st;
     s \<leftarrow> wl_client_destroy env c (ad_server st);
     Some (st\<lparr>ad_server := s\<rparr>) }"

definition emitGlobals :: "env \<Rightarrow> u64 \<Rightarrow> server \<Rightarrow> server option" where
  "emitGlobals env registry s = wl_registry_emit_globals env registry s"

text \<open>Reading a text into an array keeps what fits before the terminating zero; \<open>calloc\<close> cleared the array.\<close>

definition read_text :: "nat \<Rightarrow> string \<Rightarrow> string" where
  "read_text n s = takeWhile (\<lambda>c. c \<noteq> CHR 0x00) (take (n - 1) s)"

fun read_types :: "js list \<Rightarrow> u64 list option" where
  "read_types [] = Some []"
| "read_types (Null # vs) = map_option (Cons 0) (read_types vs)"
| "read_types (External a # vs) = map_option (Cons a) (read_types vs)"
| "read_types (_ # vs) = None"

definition createWlMessage :: "u64 \<Rightarrow> string \<Rightarrow> string \<Rightarrow> js list \<Rightarrow> addon \<Rightarrow> (js \<times> addon) option" where
  "createWlMessage a name sig types_value st = do {
     ts \<leftarrow> read_types types_value;
     let m = \<lparr>msg_name = read_text 64 name, signature = read_text 16 sig, types = ts\<rparr>;
     Some (External a, st\<lparr>ad_message := (ad_message st)(a := Some m)\<rparr>) }"

definition createWlInterface :: "u64 \<Rightarrow> wl_interface \<Rightarrow> addon \<Rightarrow> js \<times> addon" where
  "createWlInterface a junk st = (External a, st\<lparr>ad_interface := (ad_interface st)(a := Some junk)\<rparr>)"

fun read_messages :: "js list \<Rightarrow> addon \<Rightarrow> wl_message list option" where
  "read_messages [] st = Some []"
| "read_messages (External a # vs) st = do {
     m \<leftarrow> ad_message st a;
     ms \<leftarrow> read_messages vs st;
     Some (m # ms) }"
| "read_messages (_ # vs) st = None"

definition initWlInterface :: "u64 \<Rightarrow> string \<Rightarrow> int \<Rightarrow> js list \<Rightarrow> js list \<Rightarrow> addon \<Rightarrow> addon option" where
  "initWlInterface a name version requests evs st = do {
     ms \<leftarrow> read_messages requests st;
     es \<leftarrow> read_messages evs st;
     _ \<leftarrow> ad_interface st a;
     let i = \<lparr>iface_name = read_text 64 name, iface_version = version, methods = ms, events = es\<rparr>;
     Some (st\<lparr>ad_interface := (ad_interface st)(a := Some i)\<rparr>) }"

definition createWlResource :: "env \<Rightarrow> u64 \<Rightarrow> u64 \<Rightarrow> int \<Rightarrow> int \<Rightarrow> u64 \<Rightarrow> server \<Rightarrow> (js \<times> server) option" where
  "createWlResource env a c i version iface s = do {
     (r, s1) \<leftarrow> wl_resource_create env a c iface version (of_int i) s;
     Some (External r, s1) }"

definition destroyWlResourceSilently :: "env \<Rightarrow> u64 \<Rightarrow> u32 \<Rightarrow> server \<Rightarrow> server option" where
  "destroyWlResourceSilently env c i s = do {
     r \<leftarrow> wl_client_get_object c i s;
     wl_resource_destroy_silently env r s }"

text \<open>The array of ids is filled up to its length; a failed insertion leaves the all-ones id.\<close>

definition getServerObjectIdsBatch :: "u64 \<Rightarrow> bool list \<Rightarrow> server \<Rightarrow> ((errno + u32) list \<times> server) option" where
  "getServerObjectIdsBatch c mems s = do {
     cl \<leftarrow> s_client s c;
     let (ids, m) = wl_get_server_object_ids_batch (c_objects cl) mems;
     Some (ids, upd_client c (\<lambda>cl. cl\<lparr>c_objects := m\<rparr>) s) }"

text \<open>Process, user and group, unless the array is not one of three 32-bit numbers.\<close>

definition getCredentials :: "u64 \<Rightarrow> bool \<Rightarrow> u32 list \<Rightarrow> server \<Rightarrow> u32 list option" where
  "getCredentials c is_u32 arr s =
     (if length arr \<noteq> 3 \<or> \<not> is_u32 then Some arr
      else map_option (\<lambda>(pid, uid, gid). [pid, uid, gid]) (wl_client_get_credentials c s))"

definition equalValueExternal :: "u64 \<Rightarrow> u64 \<Rightarrow> bool" where
  "equalValueExternal a b = (a = b)"

section \<open>Sending events\<close>

lemma put_fds_spec:
  assumes "conn_ok conn" "rb_count (fds_out conn) + 4 * length fds \<le> 4096" "put_fds fds conn w = (conn', w')"
  shows "conn_ok conn' \<and> conn_fd conn' = conn_fd conn \<and> out_stream conn' w' = out_stream conn w \<and>
    in_buf conn' = in_buf conn \<and> fds_in conn' = fds_in conn \<and>
    (\<exists>acc. subseq acc fds \<and> fd_stream conn' w' = fd_stream conn w @ acc)"
  using assms
proof (induction fds arbitrary: conn w)
  case (Cons fd fds)
  obtain r conn1 w1 where p: "wl_connection_put_fd conn fd w = (r, conn1, w1)" by (metis surj_pair)
  have room: "rb_count (fds_out conn) < 4096" using Cons.prems(2) by simp
  note s = wl_connection_put_fd_spec [OF Cons.prems(1) room p]
  have "rb_count (fds_out conn1) + 4 * length fds \<le> 4096"
    using wl_connection_put_fd_count [OF Cons.prems(1) room p] Cons.prems(2) by simp
  then obtain acc where a: "conn_ok conn'" "conn_fd conn' = conn_fd conn1" "out_stream conn' w' = out_stream conn1 w1"
      "in_buf conn' = in_buf conn1" "fds_in conn' = fds_in conn1" "subseq acc fds" "fd_stream conn' w' = fd_stream conn1 w1 @ acc"
    using Cons.IH [of conn1 w1] s Cons.prems(3) p by auto
  show ?case
  proof (cases r)
    case (Inl e)
    then show ?thesis using s a by (auto intro: subseq_Cons')
  next
    case (Inr u)
    then have "subseq (fd # acc) (fd # fds) \<and> fd_stream conn' w' = fd_stream conn w @ fd # acc" using s a by simp
    then show ?thesis using s a by auto
  qed
qed simp

lemma put_fds_room:
  assumes "conn_ok conn" "rb_count (fds_out conn) + 4 * length fds \<le> 4 * MAX_FDS_OUT" "put_fds fds conn w = (conn', w')"
  shows "out_buf conn' = out_buf conn \<and> w' = w \<and> fd_stream conn' w' = fd_stream conn w @ fds"
  using assms
proof (induction fds arbitrary: conn w)
  case (Cons fd fds)
  obtain r conn1 w1 where p: "wl_connection_put_fd conn fd w = (r, conn1, w1)" by (metis surj_pair)
  have room: "rb_count (fds_out conn) < 4096" "rb_count (fds_out conn) \<noteq> 4 * MAX_FDS_OUT"
    using Cons.prems(2) by (simp_all add: MAX_FDS_OUT_def)
  note s = wl_connection_put_fd_spec [OF Cons.prems(1) room(1) p]
  have "rb_ok (fds_out conn)" using Cons.prems(1) by (simp add: conn_ok_def fds_ok_def)
  then have "out_buf conn1 = out_buf conn \<and> w1 = w"
    using p room(2) by (auto simp: wl_connection_put_fd_def unat_ring_buffer_size split: sum.splits)
  moreover have "rb_count (fds_out conn1) + 4 * length fds \<le> 4 * MAX_FDS_OUT"
    using wl_connection_put_fd_count [OF Cons.prems(1) room(1) p] Cons.prems(2) by simp
  ultimately show ?case using Cons.IH [of conn1 w1] Cons.prems(3) s p room(2) by (cases r) auto
qed simp

lemma length_bytes_4: "length (bytes_of ws) = 4 * length ws"
  by simp

text \<open>C9: Sending events of the compositor to a native client never splits or reorders them: what the client
  is sent is what it was sent before, followed by all the words of the events or by none, and by some
  of the descriptors in their order; nothing that was received changes.  When the connection has room
  for 28 descriptors and for the words, all are sent; otherwise the failure is not reported, so
  descriptors can be missing from the ones before and after.\<close>

theorem send_events_stream:
  assumes "s_client s c = Some cl" "conn_ok (c_connection cl)" "rb_count (fds_out (c_connection cl)) + 4 * length fds \<le> 4096"
  shows "\<exists>s' conn' ms acc. sendEvents c messages fds s = Some s' \<and> s_client s' c = Some (cl\<lparr>c_connection := conn'\<rparr>) \<and> conn_ok conn' \<and>
    out_stream conn' (s_os s') = out_stream (c_connection cl) (s_os s) @ ms \<and> ms \<in> {[], bytes_of messages} \<and>
    fd_stream conn' (s_os s') = fd_stream (c_connection cl) (s_os s) @ acc \<and> subseq acc fds \<and>
    in_buf conn' = in_buf (c_connection cl) \<and> fds_in conn' = fds_in (c_connection cl) \<and>
    (rb_count (fds_out (c_connection cl)) + 4 * length fds \<le> 4 * MAX_FDS_OUT \<and>
     rb_count (out_buf (c_connection cl)) + 4 * length messages \<le> 4096 \<longrightarrow> ms = bytes_of messages \<and> acc = fds)"
proof -
  let ?conn = "c_connection cl" and ?w = "s_os s"
  obtain conn1 w1 where p: "put_fds fds ?conn ?w = (conn1, w1)" by fastforce
  obtain r conn2 w2 where wr: "wl_connection_write conn1 (bytes_of messages) w1 = (r, conn2, w2)" by (metis surj_pair)
  obtain acc where a: "conn_ok conn1" "out_stream conn1 w1 = out_stream ?conn ?w" "in_buf conn1 = in_buf ?conn" "fds_in conn1 = fds_in ?conn"
      "subseq acc fds" "fd_stream conn1 w1 = fd_stream ?conn ?w @ acc"
    using put_fds_spec [OF assms(2,3) p] by blast
  note ws = wl_connection_write_spec [OF a(1) wr]
  define ms where "ms = (case r of Inl _ \<Rightarrow> [] | Inr _ \<Rightarrow> bytes_of messages)"
  have o: "out_stream conn2 w2 = out_stream ?conn ?w @ ms" "ms \<in> {[], bytes_of messages}"
    using ws a(2) by (auto simp: ms_def split: sum.splits)
  have full: "ms = bytes_of messages \<and> acc = fds"
    if "rb_count (fds_out ?conn) + 4 * length fds \<le> 4 * MAX_FDS_OUT" "rb_count (out_buf ?conn) + 4 * length messages \<le> 4096"
    using put_fds_room [OF assms(2) that(1) p] that(2) ws a(6) by (auto simp: ms_def split: sum.splits)
  have e: "sendEvents c messages fds s = Some ((upd_client c (\<lambda>cl. cl\<lparr>c_connection := conn2\<rparr>) s)\<lparr>s_os := w2\<rparr>)"
    using assms(1) p wr by (simp add: sendEvents_def)
  show ?thesis
    by (rule exI, rule exI [of _ conn2], rule exI [of _ ms], rule exI [of _ acc], intro conjI impI, rule e)
      (use assms(1) ws a o full in \<open>auto simp: upd_client_def\<close>)
qed

lemma send_events_stream_witness:
  "\<exists>s' cl'. sendEvents 4096 [1, 0x80000] [5] sample_server = Some s' \<and> s_client s' 4096 = Some cl' \<and>
     out_stream (c_connection cl') (s_os s') = out_stream sample_conn os_init @ bytes_of [1, 0x80000] \<and>
     fd_stream (c_connection cl') (s_os s') = fd_stream sample_conn os_init @ [5]"
proof -
  have c: "s_client sample_server 4096 = Some (sample_client 16 32)" "s_os sample_server = os_init"
    by (simp_all add: sample_server_simps sample_server_def)
  have conn: "c_connection (sample_client 16 32) = sample_conn" by (simp add: sample_client_def)
  have n: "rb_count (fds_out sample_conn) = 0" "rb_count (out_buf sample_conn) = 0"
    by (simp_all add: sample_conn_def rb_count_init)
  from send_events_stream [OF c(1), unfolded conn, OF sample_conn_ok, of "[5]" "[1, 0x80000]"] c(2) n
  show ?thesis by (fastforce simp: MAX_FDS_OUT_def)
qed

section \<open>Descriptors of received messages\<close>

text \<open>At the end of a read the descriptors that came with the messages are handed over, each once.\<close>

lemma wire_message_end_hands_over:
  assumes "ad_client st c = Some l" "cd_wire_message_end_cb_ref l \<noteq> 0" "s_client (ad_server st) c = Some cl"
    and "conn_ok (c_connection cl)" "alloc_script (s_os (ad_server st)) = []" "ad_display st \<noteq> None"
    and "ad_ref st (cd_js_object l) = Some v" "ad_ref st (cd_wire_message_end_cb_ref l) = Some cb"
    and n: "rb_count (fds_in (c_connection cl)) \<noteq> 0"
  shows "\<exists>st1 conn. on_wire_message_end f c st = Some (snd (f cb [v, Fds (fds_list (fds_in (c_connection cl)))] st1)) \<and>
    s_client (ad_server st1) c = Some (cl\<lparr>c_connection := conn\<rparr>) \<and> conn_ok conn \<and> fds_list (fds_in conn) = [] \<and>
    in_buf conn = in_buf (c_connection cl) \<and> out_buf conn = out_buf (c_connection cl) \<and> fds_out conn = fds_out (c_connection cl)"
proof -
  let ?b = "fds_in (c_connection cl)"
  let ?conn = "(c_connection cl)\<lparr>fds_in := ring_buffer_consume ?b (rb_count ?b)\<rparr>"
  have ok: "rb_ok ?b" "4 dvd rb_count ?b" using assms(4) by (simp_all add: conn_ok_def fds_ok_def)
  have sz: "wl_connection_fds_in_size (c_connection cl) = rb_count ?b"
    using ok by (simp add: wl_connection_fds_in_size_def unat_ring_buffer_size)
  have full: "ring_buffer_copy ?b (rb_count ?b) = rb_content ?b"
    using ring_buffer_copy_content [OF ok(1), of "rb_count ?b"] by (simp add: length_rb_content)
  have copy: "wl_connection_copy_fds_in (c_connection cl) (rb_count ?b) = (fds_list ?b, ?conn)"
    using n by (simp add: wl_connection_copy_fds_in_def fds_list_def full)
  have k: "rb_ok (ring_buffer_consume ?b (rb_count ?b))" "rb_count (ring_buffer_consume ?b (rb_count ?b)) = 0"
    using rb_ok_consume [OF ok(1), of "rb_count ?b"] rb_count_consume [where b = ?b and n = "rb_count ?b"] ok by (simp_all add: rb_ok_def)
  have c: "conn_ok ?conn" using assms(4) k by (simp add: conn_ok_def fds_ok_def)
  have "rb_content (fds_in ?conn) = []" using k(2) by (simp flip: length_0_conv)
  then have e: "fds_list (fds_in ?conn) = []" by (simp add: fds_list_def)
  let ?st1 = "st\<lparr>ad_server := (upd_client c (\<lambda>cl. cl\<lparr>c_connection := ?conn\<rparr>) (ad_server st))\<lparr>s_os := s_os (ad_server st)\<rparr>\<rparr>"
  obtain d where "ad_display st = Some d" using assms(6) by blast
  then have r: "on_wire_message_end f c st = Some (snd (f cb [v, Fds (fds_list ?b)] ?st1))"
    using assms(1-3,5,7,8) n by (simp add: on_wire_message_end_def sz copy sys_malloc_def call_ref_def split_beta)
  show ?thesis
    by (rule exI [of _ ?st1], rule exI [of _ ?conn], intro conjI, rule r) (use assms(3) c e in \<open>simp_all add: upd_client_def\<close>)
qed

section \<open>References\<close>

definition refs_of :: "client_destruction_listener \<Rightarrow> nat list" where
  "refs_of l = [cd_js_object l, cd_destroy_cb_ref l, cd_wire_message_cb_ref l, cd_wire_message_end_cb_ref l,
     cd_registry_created_cb_ref l, cd_sync_done_cb_ref l, cd_buffer_created_cb_ref l]"

fun delete_all :: "nat list \<Rightarrow> addon \<Rightarrow> addon option" where
  "delete_all [] st = Some st"
| "delete_all (r # rs) st = do { st1 \<leftarrow> delete_if_set r st; delete_all rs st1 }"

lemma delete_all_bind: "delete_all (r # rs) = (\<lambda>st. delete_if_set r st \<bind> delete_all rs)" "delete_all [] = Some"
  by (simp_all add: fun_eq_iff)

lemma delete_client_refs_eq:
  "cd_js_object l \<noteq> 0 \<Longrightarrow> delete_client_refs l st = delete_all (refs_of l) st"
  by (simp add: delete_client_refs_def refs_of_def delete_if_set_def delete_all_bind del: delete_all.simps)

lemma delete_all_Some:
  "distinct (filter (\<lambda>r. r \<noteq> 0) rs) \<Longrightarrow> \<forall>r \<in> set rs. r \<noteq> 0 \<longrightarrow> ad_ref st r \<noteq> None \<Longrightarrow>
   delete_all rs st = Some (st\<lparr>ad_ref := \<lambda>r. if r \<noteq> 0 \<and> r \<in> set rs then None else ad_ref st r\<rparr>)"
proof (induction rs arbitrary: st)
  case (Cons r rs)
  let ?st1 = "st\<lparr>ad_ref := (ad_ref st)(r := None)\<rparr>"
  show ?case
  proof (cases "r = 0")
    case True
    have "(\<lambda>x. if x \<noteq> 0 \<and> x \<in> set (0 # rs) then None else ad_ref st x) = (\<lambda>x. if x \<noteq> 0 \<and> x \<in> set rs then None else ad_ref st x)"
      by auto
    then show ?thesis using Cons.IH [of st] Cons.prems True by (simp add: delete_if_set_def)
  next
    case False
    have "delete_all rs ?st1 = Some (?st1\<lparr>ad_ref := \<lambda>x. if x \<noteq> 0 \<and> x \<in> set rs then None else ad_ref ?st1 x\<rparr>)"
      using Cons.prems False by (intro Cons.IH) auto
    moreover have "(\<lambda>x. if x \<noteq> 0 \<and> x \<in> set rs then None else ad_ref ?st1 x) =
        (\<lambda>x. if x \<noteq> 0 \<and> x \<in> set (r # rs) then None else ad_ref st x)" using False by auto
    ultimately show ?thesis using Cons.prems(2) False by (simp add: delete_if_set_def napi_delete_reference_def)
  qed
qed simp

lemma delete_all_None:
  "r \<in> set rs \<Longrightarrow> r \<noteq> 0 \<Longrightarrow> ad_ref st r = None \<Longrightarrow> delete_all rs st = None"
proof (induction rs arbitrary: st)
  case (Cons x rs)
  show ?case
  proof (cases "x = r")
    case True
    then show ?thesis using Cons by (simp add: delete_if_set_def napi_delete_reference_def)
  next
    case False
    then show ?thesis using Cons by (auto simp: delete_if_set_def napi_delete_reference_def bind_eq_None_conv)
  qed
qed simp

text \<open>The six callbacks of a client, their setters and the fields that keep them.\<close>

datatype cb_kind = Destroyed | WireMessage | WireMessageEnd | RegistryCreated | SyncDone | BufferCreated

fun set_cb :: "cb_kind \<Rightarrow> u64 \<Rightarrow> js \<Rightarrow> addon \<Rightarrow> addon option" where
  "set_cb Destroyed = setClientDestroyedCallback"
| "set_cb WireMessage = setWireMessageCallback"
| "set_cb WireMessageEnd = setWireMessageEndCallback"
| "set_cb RegistryCreated = setRegistryCreatedCallback"
| "set_cb SyncDone = setSyncDoneCallback"
| "set_cb BufferCreated = setBufferCreatedCallback"

fun cb_field :: "cb_kind \<Rightarrow> client_destruction_listener \<Rightarrow> nat" where
  "cb_field Destroyed = cd_destroy_cb_ref"
| "cb_field WireMessage = cd_wire_message_cb_ref"
| "cb_field WireMessageEnd = cd_wire_message_end_cb_ref"
| "cb_field RegistryCreated = cd_registry_created_cb_ref"
| "cb_field SyncDone = cd_sync_done_cb_ref"
| "cb_field BufferCreated = cd_buffer_created_cb_ref"

definition cb_kinds :: "cb_kind list" where
  "cb_kinds = [Destroyed, WireMessage, WireMessageEnd, RegistryCreated, SyncDone, BufferCreated]"

lemma cb_kinds: "\<kappa> \<in> set cb_kinds" "distinct cb_kinds"
  by (cases \<kappa>) (simp_all add: cb_kinds_def)

lemma refs_of_fields: "refs_of l = cd_js_object l # map (\<lambda>\<kappa>. cb_field \<kappa> l) cb_kinds"
  by (simp add: refs_of_def cb_kinds_def)

text \<open>
  What JavaScript can do about a client, any number of times: call a setter, which is recorded with
  the reference it makes, or anything that leaves the listener of the client, the references in
  it and the listener of the display alone.  References are numbered upwards.
\<close>

definition other_js :: "u64 \<Rightarrow> addon \<Rightarrow> addon \<Rightarrow> bool" where
  "other_js c st st' \<longleftrightarrow> ad_client st' c = ad_client st c \<and> ad_display st' = ad_display st \<and> ad_next st \<le> ad_next st' \<and>
     (\<forall>r. ad_next st' \<le> r \<longrightarrow> ad_ref st' r = None) \<and>
     (\<forall>l r. ad_client st c = Some l \<longrightarrow> r \<in> set (refs_of l) \<longrightarrow> ad_ref st r \<noteq> None \<longrightarrow> ad_ref st' r = ad_ref st r)"

inductive js_acts :: "u64 \<Rightarrow> (cb_kind \<times> nat) list \<Rightarrow> addon \<Rightarrow> addon \<Rightarrow> bool" for c where
  nothing: "js_acts c [] st st"
| setter: "js_acts c h st st1 \<Longrightarrow> set_cb \<kappa> c cb st1 = Some st2 \<Longrightarrow> js_acts c (h @ [(\<kappa>, ad_next st1)]) st st2"
| other: "js_acts c h st st1 \<Longrightarrow> other_js c st1 st2 \<Longrightarrow> js_acts c h st st2"

text \<open>
  The life of a client: it is created, which calls JavaScript in the state \<open>st1\<close>, and JavaScript acts;
  \<open>h\<close> are the setters that were called.
\<close>

inductive client_life :: "javascript \<Rightarrow> addon_code \<Rightarrow> nat \<Rightarrow> u64 \<Rightarrow> (cb_kind \<times> nat) list \<Rightarrow> addon \<Rightarrow> bool"
  for f :: javascript and k :: addon_code and junk :: nat and c :: u64 where
  created: "0 < ad_next st \<Longrightarrow> (\<forall>r. ad_next st \<le> r \<longrightarrow> ad_ref st r = None) \<Longrightarrow>
    on_client_created (\<lambda>_ _ s. (Undefined, s)) k junk c st = Some st1 \<Longrightarrow>
    on_client_created f k junk c st = Some st2 \<Longrightarrow> js_acts c h st1 st2 \<Longrightarrow> client_life f k junk c h st2"
| acts: "client_life f k junk c h st \<Longrightarrow> js_acts c h' st st' \<Longrightarrow> client_life f k junk c (h @ h') st'"

text \<open>Each field holds the reference of the last call of its setter; the one for sync requests holds
  \<open>junk\<close> before that.  All references made for the client are different.\<close>

definition cb_held :: "nat \<Rightarrow> (cb_kind \<times> nat) list \<Rightarrow> cb_kind \<Rightarrow> nat" where
  "cb_held junk h \<kappa> = (case map_of (rev h) \<kappa> of Some r \<Rightarrow> r | None \<Rightarrow> if \<kappa> = SyncDone then junk else 0)"

definition held_refs :: "client_destruction_listener \<Rightarrow> (cb_kind \<times> nat) list \<Rightarrow> nat set" where
  "held_refs l h = insert (cd_js_object l) (ran (map_of (rev h)))"

definition listener_ok :: "nat \<Rightarrow> u64 \<Rightarrow> (cb_kind \<times> nat) list \<Rightarrow> client_destruction_listener \<Rightarrow> addon \<Rightarrow> bool" where
  "listener_ok junk c h l st \<longleftrightarrow> ad_client st c = Some l \<and> ad_display st \<noteq> None \<and> 0 < ad_next st \<and>
     (\<forall>r. ad_next st \<le> r \<longrightarrow> ad_ref st r = None) \<and> (\<forall>\<kappa>. cb_field \<kappa> l = cb_held junk h \<kappa>) \<and>
     distinct (cd_js_object l # map snd h) \<and> (\<forall>r \<in> set (cd_js_object l # map snd h). 0 < r \<and> r < ad_next st) \<and>
     ad_ref st (cd_js_object l) = Some (External c) \<and> (\<forall>r \<in> held_refs l h. ad_ref st r \<noteq> None)"

lemma held_sub: "held_refs l h \<subseteq> set (cd_js_object l # map snd h)"
  by (auto simp: held_refs_def ran_def dest!: map_of_SomeD intro: rev_image_eqI)

lemma held_in_refs:
  assumes "\<forall>\<kappa>. cb_field \<kappa> l = cb_held junk h \<kappa>"
  shows "held_refs l h \<subseteq> set (refs_of l)"
proof -
  have "r \<in> set (refs_of l)" if "map_of (rev h) \<kappa> = Some r" for \<kappa> r
  proof -
    have "cb_field \<kappa> l = r" using assms that by (simp add: cb_held_def)
    then show ?thesis using cb_kinds(1) [of \<kappa>] by (force simp: refs_of_fields)
  qed
  then show ?thesis by (auto simp: held_refs_def ran_def refs_of_fields)
qed

lemma set_cb_eq:
  assumes "set_cb \<kappa> c cb st = Some st'" "ad_client st c = Some l"
  obtains l' where "cd_js_object l' = cd_js_object l" "\<forall>\<kappa>'. cb_field \<kappa>' l' = (if \<kappa>' = \<kappa> then ad_next st else cb_field \<kappa>' l)"
    "st' = st\<lparr>ad_ref := (ad_ref st)(ad_next st := Some cb), ad_next := ad_next st + 1, ad_client := (ad_client st)(c \<mapsto> l')\<rparr>"
proof -
  have e: "set_callback upd c cb st = Some (st\<lparr>ad_ref := (ad_ref st)(ad_next st := Some cb), ad_next := ad_next st + 1,
      ad_client := (ad_client st)(c \<mapsto> upd (ad_next st) l)\<rparr>)" for upd
    using assms(2) by (simp add: set_callback_def napi_create_reference_def upd_listener_def)
  have "\<exists>l'. cd_js_object l' = cd_js_object l \<and> (\<forall>\<kappa>'. cb_field \<kappa>' l' = (if \<kappa>' = \<kappa> then ad_next st else cb_field \<kappa>' l)) \<and>
    st' = st\<lparr>ad_ref := (ad_ref st)(ad_next st := Some cb), ad_next := ad_next st + 1, ad_client := (ad_client st)(c \<mapsto> l')\<rparr>"
  proof (cases \<kappa>)
    case Destroyed
    have "cb_field \<kappa>' (l\<lparr>cd_destroy_cb_ref := r\<rparr>) = (if \<kappa>' = \<kappa> then r else cb_field \<kappa>' l)" for \<kappa>' r
      unfolding Destroyed by (cases \<kappa>') simp_all
    then show ?thesis using assms(1) unfolding Destroyed set_cb.simps setClientDestroyedCallback_def e
      by (intro exI [of _ "l\<lparr>cd_destroy_cb_ref := ad_next st\<rparr>"]) simp
  next
    case WireMessage
    have "cb_field \<kappa>' (l\<lparr>cd_wire_message_cb_ref := r\<rparr>) = (if \<kappa>' = \<kappa> then r else cb_field \<kappa>' l)" for \<kappa>' r
      unfolding WireMessage by (cases \<kappa>') simp_all
    then show ?thesis using assms(1) unfolding WireMessage set_cb.simps setWireMessageCallback_def e
      by (intro exI [of _ "l\<lparr>cd_wire_message_cb_ref := ad_next st\<rparr>"]) simp
  next
    case WireMessageEnd
    have "cb_field \<kappa>' (l\<lparr>cd_wire_message_end_cb_ref := r\<rparr>) = (if \<kappa>' = \<kappa> then r else cb_field \<kappa>' l)" for \<kappa>' r
      unfolding WireMessageEnd by (cases \<kappa>') simp_all
    then show ?thesis using assms(1) unfolding WireMessageEnd set_cb.simps setWireMessageEndCallback_def e
      by (intro exI [of _ "l\<lparr>cd_wire_message_end_cb_ref := ad_next st\<rparr>"]) simp
  next
    case RegistryCreated
    have "cb_field \<kappa>' (l\<lparr>cd_registry_created_cb_ref := r\<rparr>) = (if \<kappa>' = \<kappa> then r else cb_field \<kappa>' l)" for \<kappa>' r
      unfolding RegistryCreated by (cases \<kappa>') simp_all
    then show ?thesis using assms(1) unfolding RegistryCreated set_cb.simps setRegistryCreatedCallback_def e
      by (intro exI [of _ "l\<lparr>cd_registry_created_cb_ref := ad_next st\<rparr>"]) simp
  next
    case SyncDone
    have "cb_field \<kappa>' (l\<lparr>cd_sync_done_cb_ref := r\<rparr>) = (if \<kappa>' = \<kappa> then r else cb_field \<kappa>' l)" for \<kappa>' r
      unfolding SyncDone by (cases \<kappa>') simp_all
    then show ?thesis using assms(1) unfolding SyncDone set_cb.simps setSyncDoneCallback_def e
      by (intro exI [of _ "l\<lparr>cd_sync_done_cb_ref := ad_next st\<rparr>"]) simp
  next
    case BufferCreated
    have "cb_field \<kappa>' (l\<lparr>cd_buffer_created_cb_ref := r\<rparr>) = (if \<kappa>' = \<kappa> then r else cb_field \<kappa>' l)" for \<kappa>' r
      unfolding BufferCreated by (cases \<kappa>') simp_all
    then show ?thesis using assms(1) unfolding BufferCreated set_cb.simps setBufferCreatedCallback_def e
      by (intro exI [of _ "l\<lparr>cd_buffer_created_cb_ref := ad_next st\<rparr>"]) simp
  qed
  then show thesis using that by blast
qed

lemma listener_ok_set:
  assumes ok: "listener_ok junk c h l st" and run: "set_cb \<kappa> c cb st = Some st'"
  obtains l' where "listener_ok junk c (h @ [(\<kappa>, ad_next st)]) l' st'" "cd_js_object l' = cd_js_object l"
proof -
  note ok' = ok [unfolded listener_ok_def]
  have cl: "ad_client st c = Some l" using ok' by simp
  obtain l' where l': "cd_js_object l' = cd_js_object l" "\<forall>\<kappa>'. cb_field \<kappa>' l' = (if \<kappa>' = \<kappa> then ad_next st else cb_field \<kappa>' l)"
    "st' = st\<lparr>ad_ref := (ad_ref st)(ad_next st := Some cb), ad_next := ad_next st + 1, ad_client := (ad_client st)(c \<mapsto> l')\<rparr>"
    using set_cb_eq [OF run cl] .
  let ?h = "h @ [(\<kappa>, ad_next st)]"
  have fields: "\<forall>\<kappa>'. cb_field \<kappa>' l' = cb_held junk ?h \<kappa>'" using ok' l'(2) by (simp add: cb_held_def)
  have "held_refs l' ?h \<subseteq> insert (ad_next st) (held_refs l h)"
    by (auto simp: held_refs_def ran_def l'(1) split: if_splits)
  then have alive: "\<forall>r \<in> held_refs l' ?h. ad_ref st' r \<noteq> None" using ok' by (auto simp: l'(3))
  have "ad_next st \<notin> set (cd_js_object l # map snd h)" using ok' by blast
  then have "listener_ok junk c ?h l' st'"
    using ok' fields alive l'(1) by (auto simp: listener_ok_def l'(3) less_SucI)
  then show thesis using l'(1) by (rule that)
qed

lemma listener_ok_other:
  assumes ok: "listener_ok junk c h l st" and o: "other_js c st st'"
  shows "listener_ok junk c h l st'"
proof -
  note ok' = ok [unfolded listener_ok_def]
  have "held_refs l h \<subseteq> set (refs_of l)" using held_in_refs ok' by blast
  then have keep: "ad_ref st' r = ad_ref st r" if "r \<in> held_refs l h" for r
    using that o ok' unfolding other_js_def by blast
  have "ad_ref st' (cd_js_object l) = ad_ref st (cd_js_object l)" by (rule keep) (simp add: held_refs_def)
  then show ?thesis using ok' o keep by (auto simp: listener_ok_def other_js_def intro: less_le_trans)
qed

lemma listener_ok_acts:
  "js_acts c h' st st' \<Longrightarrow> listener_ok junk c h l st \<Longrightarrow>
   \<exists>l'. listener_ok junk c (h @ h') l' st' \<and> cd_js_object l' = cd_js_object l"
proof (induction rule: js_acts.induct)
  case (nothing st)
  then show ?case by auto
next
  case (setter h' st st1 \<kappa> cb st2)
  then obtain l1 where l1: "listener_ok junk c (h @ h') l1 st1" "cd_js_object l1 = cd_js_object l" by blast
  obtain l2 where "listener_ok junk c ((h @ h') @ [(\<kappa>, ad_next st1)]) l2 st2" "cd_js_object l2 = cd_js_object l1"
    using listener_ok_set [OF l1(1) setter.hyps(2)] .
  then show ?case using l1(2) by auto
next
  case (other h' st st1 st2)
  then obtain l1 where l1: "listener_ok junk c (h @ h') l1 st1" "cd_js_object l1 = cd_js_object l" by blast
  show ?case using listener_ok_other [OF l1(1) other.hyps(2)] l1(2) by blast
qed

lemma listener_created_ok:
  assumes "0 < ad_next st" "\<forall>r. ad_next st \<le> r \<longrightarrow> ad_ref st r = None"
    "on_client_created (\<lambda>_ _ s. (Undefined, s)) k junk c st = Some st1"
  shows "\<exists>l. listener_ok junk c [] l st1"
proof -
  let ?l = "\<lparr>cd_js_object = ad_next st, cd_destroy_cb_ref = 0, cd_wire_message_cb_ref = 0,
        cd_wire_message_end_cb_ref = 0, cd_registry_created_cb_ref = 0, cd_buffer_created_cb_ref = 0, cd_sync_done_cb_ref = junk\<rparr>"
  have s: "ad_client st1 c = Some ?l" "ad_display st1 \<noteq> None" "ad_next st1 = ad_next st + 1"
    "ad_ref st1 = (ad_ref st)(ad_next st := Some (External c))"
    using assms(3)
    by (auto simp: on_client_created_def napi_create_reference_def call_ref_def bind_eq_Some_conv Let_def split_beta
        split: if_splits)
  have "cb_field \<kappa> ?l = cb_held junk [] \<kappa>" for \<kappa> by (cases \<kappa>) (simp_all add: cb_held_def)
  then have "listener_ok junk c [] ?l st1" using s assms(1,2) by (simp add: listener_ok_def held_refs_def)
  then show ?thesis by blast
qed

lemma client_life_ok: "client_life f k junk c h st \<Longrightarrow> \<exists>l. listener_ok junk c h l st"
proof (induction rule: client_life.induct)
  case (created st st1 st2 h)
  obtain l where "listener_ok junk c [] l st1" using listener_created_ok [OF created(1,2,3)] by blast
  from listener_ok_acts [OF created(5) this] show ?case by auto
next
  case (acts h st h' st')
  then show ?case using listener_ok_acts by blast
qed

lemma held_inj:
  assumes "distinct (map snd h)" "map_of (rev h) \<kappa> = Some r" "map_of (rev h) \<kappa>' = Some r"
  shows "\<kappa> = \<kappa>'"
proof -
  have "(\<kappa>, r) \<in> set h" "(\<kappa>', r) \<in> set h" using assms(2,3) by (auto dest!: map_of_SomeD)
  then have "(\<kappa>, r) = (\<kappa>', r)" using assms(1) by (intro inj_onD [of snd "set h"]) (simp_all add: distinct_map)
  then show ?thesis by simp
qed

lemma listener_deletes:
  assumes ok: "listener_ok junk c h l st" and junk: "ad_ref st junk = None"
  shows "delete_client_refs l st =
    (if SyncDone \<in> fst ` set h \<or> junk = 0
     then Some (st\<lparr>ad_ref := \<lambda>r. if r \<in> held_refs l h then None else ad_ref st r\<rparr>) else None)"
proof -
  note ok' = ok [unfolded listener_ok_def]
  have js: "cd_js_object l \<noteq> 0" using ok' by auto
  have field: "cb_field \<kappa> l = cb_held junk h \<kappa>" for \<kappa> using ok' by blast
  have sync: "map_of (rev h) SyncDone = None \<longleftrightarrow> SyncDone \<notin> fst ` set h" by (simp add: map_of_eq_None_iff)
  show ?thesis
  proof (cases "SyncDone \<in> fst ` set h \<or> junk = 0")
    case True
    have held: "map_of (rev h) \<kappa> = Some (cb_field \<kappa> l)" if "cb_field \<kappa> l \<noteq> 0" for \<kappa>
      using that True sync by (auto simp: field cb_held_def split: option.splits if_splits)
    have pos: "0 \<notin> held_refs l h" using held_sub [of l h] ok' by blast
    have "r \<noteq> 0 \<and> r \<in> set (refs_of l) \<longleftrightarrow> r \<in> held_refs l h" for r
    proof
      assume r: "r \<noteq> 0 \<and> r \<in> set (refs_of l)"
      then consider "r = cd_js_object l" | \<kappa> where "r = cb_field \<kappa> l" by (auto simp: refs_of_fields)
      then show "r \<in> held_refs l h"
      proof cases
        case (2 \<kappa>)
        then have "map_of (rev h) \<kappa> = Some r" using held r by simp
        then show ?thesis by (auto simp: held_refs_def ran_def)
      qed (simp add: held_refs_def)
    next
      assume "r \<in> held_refs l h"
      moreover from this pos have "r \<noteq> 0" by metis
      ultimately show "r \<noteq> 0 \<and> r \<in> set (refs_of l)" using held_in_refs [of l junk h] field by blast
    qed
    note refs = this
    let ?ks = "filter (\<lambda>\<kappa>. cb_field \<kappa> l \<noteq> 0) cb_kinds"
    have dist: "distinct (map snd h)" "cd_js_object l \<notin> snd ` set h" using ok' by auto
    have "inj_on (\<lambda>\<kappa>. cb_field \<kappa> l) (set ?ks)"
    proof (rule inj_onI)
      fix \<kappa> \<kappa>' assume "\<kappa> \<in> set ?ks" "\<kappa>' \<in> set ?ks" "cb_field \<kappa> l = cb_field \<kappa>' l"
      then show "\<kappa> = \<kappa>'" using held_inj [OF dist(1)] held by (metis (mono_tags, lifting) mem_Collect_eq set_filter)
    qed
    then have d: "distinct (map (\<lambda>\<kappa>. cb_field \<kappa> l) ?ks)" using cb_kinds(2) by (simp add: distinct_map)
    have "cd_js_object l \<noteq> cb_field \<kappa> l" if "cb_field \<kappa> l \<noteq> 0" for \<kappa>
    proof -
      have "(\<kappa>, cb_field \<kappa> l) \<in> set h" using held [OF that] by (auto dest!: map_of_SomeD)
      then show ?thesis using dist(2) by force
    qed
    then have "cd_js_object l \<notin> set (map (\<lambda>\<kappa>. cb_field \<kappa> l) ?ks)" by auto
    moreover have "filter (\<lambda>r. r \<noteq> 0) (refs_of l) = cd_js_object l # map (\<lambda>\<kappa>. cb_field \<kappa> l) ?ks"
      using js by (simp add: refs_of_fields filter_map comp_def)
    ultimately have "distinct (filter (\<lambda>r. r \<noteq> 0) (refs_of l))" using d by simp
    moreover have "\<forall>r \<in> set (refs_of l). r \<noteq> 0 \<longrightarrow> ad_ref st r \<noteq> None" using refs ok' by blast
    ultimately have "delete_all (refs_of l) st = Some (st\<lparr>ad_ref := \<lambda>r. if r \<noteq> 0 \<and> r \<in> set (refs_of l) then None else ad_ref st r\<rparr>)"
      by (rule delete_all_Some)
    then show ?thesis using True unfolding refs by (simp add: delete_client_refs_eq [OF js])
  next
    case False
    then have "cb_field SyncDone l = junk" using sync by (simp add: field cb_held_def del: cb_field.simps)
    then have "junk \<in> set (refs_of l)" using cb_kinds(1) [of SyncDone] by (force simp: refs_of_fields simp del: cb_field.simps)
    then show ?thesis
      using delete_all_None [of junk "refs_of l" st] False junk delete_client_refs_eq [OF js] by simp
  qed
qed

text \<open>C40: When a client goes for whose destruction a callback is set, JavaScript is called with the
  client, and then exactly these references are deleted, each once: the one to the client and, for
  each callback, the one of the last call of its setter; so when no setter was called twice none of
  the references made for the client stays, and those of earlier calls of the same setter do stay.
  This holds whatever setters JavaScript calls, from the creation of the client to the call that
  tells of its end, and whatever else it does, as long as it leaves the references of the listener
  and the display alone; and it needs a callback for sync requests: the field for it is not
  initialised, and when it was never set and the memory happened not to be zero, a reference that
  does not exist is deleted.  Without a callback for the destruction nothing is deleted at all.\<close>

theorem client_references_released:
  assumes "client_life f k junk c h st" "ad_client st c = Some l"
    and "snd (f cb [External c] st) = st1" "js_acts c h' st st1" "ad_ref st1 junk = None"
    and "cd_destroy_cb_ref l \<noteq> 0 \<Longrightarrow> ad_ref st (cd_destroy_cb_ref l) = Some cb"
  shows "on_client_destroyed f c st =
    (if cd_destroy_cb_ref l = 0 then Some st
     else if SyncDone \<in> fst ` set (h @ h') \<or> junk = 0
     then Some (st1\<lparr>ad_ref := \<lambda>r. if r = cd_js_object l \<or> (\<exists>\<kappa>. map_of (rev (h @ h')) \<kappa> = Some r) then None else ad_ref st1 r\<rparr>)
     else None)"
proof (cases "cd_destroy_cb_ref l = 0")
  case True
  then show ?thesis using assms(2) by (simp add: on_client_destroyed_def)
next
  case False
  have ok: "listener_ok junk c h l st"
    using client_life_ok [OF assms(1)] assms(2) by (auto simp: listener_ok_def)
  obtain l1 where l1: "listener_ok junk c (h @ h') l1 st1" "cd_js_object l1 = cd_js_object l"
    using listener_ok_acts [OF assms(4) ok] by blast
  have "r \<in> held_refs l1 (h @ h') \<longleftrightarrow> r = cd_js_object l \<or> (\<exists>\<kappa>. map_of (rev (h @ h')) \<kappa> = Some r)" for r
    by (auto simp: held_refs_def ran_def l1(2))
  note del = listener_deletes [OF l1(1) assms(5), unfolded this]
  obtain d where "ad_display st = Some d" using ok by (auto simp: listener_ok_def)
  then have "on_client_destroyed f c st = delete_client_refs l1 st1"
    using assms(2,3,6) False ok l1(1) by (simp add: on_client_destroyed_def call_ref_def listener_ok_def split_beta)
  then show ?thesis using False del by simp
qed

definition sample_addon :: addon where
  "sample_addon = \<lparr>ad_server = sample_server, ad_display = Some \<lparr>dd_client_creation_cb_ref = 1, dd_global_created_cb_ref = 2,
       dd_global_destroyed_cb_ref = 3\<rparr>, ad_client = Map.empty, ad_ref = [1 \<mapsto> Func 1, 2 \<mapsto> Func 2, 3 \<mapsto> Func 3], ad_next = 4,
     ad_message = Map.empty, ad_interface = Map.empty\<rparr>"

definition sample_code :: addon_code where
  "sample_code = \<lparr>ac_wire_message = 11, ac_wire_message_end = 12, ac_registry_created = 13, ac_sync_done = 14\<rparr>"

lemma sample_life:
  obtains st where "client_life (\<lambda>_ _ st. (Undefined, st)) sample_code 999 4096 [] st" "ad_next st = 5"
    "ad_client st 4096 = Some \<lparr>cd_js_object = 4, cd_destroy_cb_ref = 0, cd_wire_message_cb_ref = 0,
       cd_wire_message_end_cb_ref = 0, cd_registry_created_cb_ref = 0, cd_buffer_created_cb_ref = 0, cd_sync_done_cb_ref = 999\<rparr>"
    "ad_ref st = [1 \<mapsto> Func 1, 2 \<mapsto> Func 2, 3 \<mapsto> Func 3, 4 \<mapsto> External 4096]"
proof -
  let ?f = "\<lambda>_ _ st. (Undefined, st)"
  obtain st where st: "on_client_created ?f sample_code 999 4096 sample_addon = Some st" "ad_next st = 5"
    "ad_client st 4096 = Some \<lparr>cd_js_object = 4, cd_destroy_cb_ref = 0, cd_wire_message_cb_ref = 0,
       cd_wire_message_end_cb_ref = 0, cd_registry_created_cb_ref = 0, cd_buffer_created_cb_ref = 0, cd_sync_done_cb_ref = 999\<rparr>"
    "ad_ref st = [1 \<mapsto> Func 1, 2 \<mapsto> Func 2, 3 \<mapsto> Func 3, 4 \<mapsto> External 4096]"
    by (simp add: on_client_created_def sample_addon_def sample_server_def sys_malloc_def os_init_def install_callbacks_def
        wl_client_set_sync_done_cb_def wl_client_set_registry_created_cb_def wl_client_set_wire_message_end_cb_def
        wl_client_set_wire_message_cb_def upd_client_def napi_create_reference_def call_ref_def Let_def)
  have "client_life ?f sample_code 999 4096 [] st"
    by (rule client_life.created [OF _ _ st(1) st(1) js_acts.nothing]) (simp_all add: sample_addon_def)
  then show thesis using st(2-4) by (rule that)
qed

text \<open>
  The uninitialised field holds 999.  A client for which the callback of sync requests was set twice and
  the one for the destruction once gives back all but the first of these references; one with
  only the callback for the destruction fails.
\<close>

lemma client_references_released_witness:
  "(\<exists>st st'. client_life (\<lambda>_ _ st. (Undefined, st)) sample_code 999 4096 [(SyncDone, 5), (Destroyed, 6), (SyncDone, 7)] st \<and>
     on_client_destroyed (\<lambda>_ _ st. (Undefined, st)) 4096 st = Some st' \<and> ad_ref st' 5 = Some (Func 8) \<and>
     ad_ref st' 4 = None \<and> ad_ref st' 6 = None \<and> ad_ref st' 7 = None \<and> ad_ref st' 3 = Some (Func 3)) \<and>
   (\<exists>st. client_life (\<lambda>_ _ st. (Undefined, st)) sample_code 999 4096 [(Destroyed, 5)] st \<and>
     on_client_destroyed (\<lambda>_ _ st. (Undefined, st)) 4096 st = None)"
proof
  let ?f = "\<lambda>_ _ st. (Undefined, st)"
  obtain st where st: "client_life ?f sample_code 999 4096 [] st" "ad_next st = 5"
    "ad_client st 4096 = Some \<lparr>cd_js_object = 4, cd_destroy_cb_ref = 0, cd_wire_message_cb_ref = 0,
       cd_wire_message_end_cb_ref = 0, cd_registry_created_cb_ref = 0, cd_buffer_created_cb_ref = 0, cd_sync_done_cb_ref = 999\<rparr>"
    "ad_ref st = [1 \<mapsto> Func 1, 2 \<mapsto> Func 2, 3 \<mapsto> Func 3, 4 \<mapsto> External 4096]"
    using sample_life .
  note defs = setSyncDoneCallback_def setClientDestroyedCallback_def set_callback_def napi_create_reference_def upd_listener_def
  obtain s1 where s1: "set_cb SyncDone 4096 (Func 8) st = Some s1" "ad_next s1 = 6"
    "ad_client s1 4096 = Some \<lparr>cd_js_object = 4, cd_destroy_cb_ref = 0, cd_wire_message_cb_ref = 0,
       cd_wire_message_end_cb_ref = 0, cd_registry_created_cb_ref = 0, cd_buffer_created_cb_ref = 0, cd_sync_done_cb_ref = 5\<rparr>"
    "ad_ref s1 = (ad_ref st)(5 \<mapsto> Func 8)"
    using st by (simp add: defs)
  obtain s2 where s2: "set_cb Destroyed 4096 (Func 9) s1 = Some s2" "ad_next s2 = 7"
    "ad_client s2 4096 = Some \<lparr>cd_js_object = 4, cd_destroy_cb_ref = 6, cd_wire_message_cb_ref = 0,
       cd_wire_message_end_cb_ref = 0, cd_registry_created_cb_ref = 0, cd_buffer_created_cb_ref = 0, cd_sync_done_cb_ref = 5\<rparr>"
    "ad_ref s2 = (ad_ref s1)(6 \<mapsto> Func 9)"
    using s1 by (simp add: defs)
  obtain s3 where s3: "set_cb SyncDone 4096 (Func 10) s2 = Some s3"
    "ad_client s3 4096 = Some \<lparr>cd_js_object = 4, cd_destroy_cb_ref = 6, cd_wire_message_cb_ref = 0,
       cd_wire_message_end_cb_ref = 0, cd_registry_created_cb_ref = 0, cd_buffer_created_cb_ref = 0, cd_sync_done_cb_ref = 7\<rparr>"
    "ad_ref s3 = (ad_ref s2)(7 \<mapsto> Func 10)"
    using s2 by (simp add: defs)
  have a: "js_acts 4096 ((([] @ [(SyncDone, ad_next st)]) @ [(Destroyed, ad_next s1)]) @ [(SyncDone, ad_next s2)]) st s3"
    using js_acts.nothing s1(1) s2(1) s3(1) by (intro js_acts.setter)
  have life: "client_life ?f sample_code 999 4096 [(SyncDone, 5), (Destroyed, 6), (SyncDone, 7)] s3"
    using client_life.acts [OF st(1) a] st(2) s1(2) s2(2) by simp
  have "on_client_destroyed ?f 4096 s3 = Some (s3\<lparr>ad_ref := \<lambda>r. if r = 4 \<or>
      (\<exists>\<kappa>. map_of (rev [(SyncDone, 5), (Destroyed, 6), (SyncDone, 7)]) \<kappa> = Some r) then None else ad_ref s3 r\<rparr>)"
    using client_references_released [OF life s3(2), where cb = "Func 9" and ?st1.0 = s3 and h' = "[]"] js_acts.nothing [of 4096 s3] s3 s2(4) s1(4) st(4) by simp
  moreover have "(\<exists>\<kappa>. map_of (rev [(SyncDone, 5), (Destroyed, 6), (SyncDone, 7)]) \<kappa> = Some r) \<longleftrightarrow> r = 6 \<or> r = 7" for r :: nat
    by (auto intro: exI [of _ SyncDone] exI [of _ Destroyed])
  ultimately show "\<exists>st st'. client_life ?f sample_code 999 4096 [(SyncDone, 5), (Destroyed, 6), (SyncDone, 7)] st \<and>
     on_client_destroyed ?f 4096 st = Some st' \<and> ad_ref st' 5 = Some (Func 8) \<and>
     ad_ref st' 4 = None \<and> ad_ref st' 6 = None \<and> ad_ref st' 7 = None \<and> ad_ref st' 3 = Some (Func 3)"
    using life s3(3) s2(4) s1(4) st(4) by - (rule exI [of _ s3], simp)
next
  let ?f = "\<lambda>_ _ st. (Undefined, st)"
  obtain st where st: "client_life ?f sample_code 999 4096 [] st" "ad_next st = 5"
    "ad_client st 4096 = Some \<lparr>cd_js_object = 4, cd_destroy_cb_ref = 0, cd_wire_message_cb_ref = 0,
       cd_wire_message_end_cb_ref = 0, cd_registry_created_cb_ref = 0, cd_buffer_created_cb_ref = 0, cd_sync_done_cb_ref = 999\<rparr>"
    "ad_ref st = [1 \<mapsto> Func 1, 2 \<mapsto> Func 2, 3 \<mapsto> Func 3, 4 \<mapsto> External 4096]"
    using sample_life .
  note defs = setClientDestroyedCallback_def set_callback_def napi_create_reference_def upd_listener_def
  obtain s1 where s1: "set_cb Destroyed 4096 (Func 9) st = Some s1"
    "ad_client s1 4096 = Some \<lparr>cd_js_object = 4, cd_destroy_cb_ref = 5, cd_wire_message_cb_ref = 0,
       cd_wire_message_end_cb_ref = 0, cd_registry_created_cb_ref = 0, cd_buffer_created_cb_ref = 0, cd_sync_done_cb_ref = 999\<rparr>"
    "ad_ref s1 = (ad_ref st)(5 \<mapsto> Func 9)"
    using st by (simp add: defs)
  have "js_acts 4096 ([] @ [(Destroyed, ad_next st)]) st s1"
    using js_acts.nothing s1(1) by (intro js_acts.setter)
  then have life: "client_life ?f sample_code 999 4096 [(Destroyed, 5)] s1"
    using client_life.acts [OF st(1)] st(2) by fastforce
  then show "\<exists>st. client_life ?f sample_code 999 4096 [(Destroyed, 5)] st \<and> on_client_destroyed ?f 4096 st = None"
    using client_references_released [OF life s1(2), where cb = "Func 9" and ?st1.0 = s1 and h' = "[]"] js_acts.nothing [of 4096 s1] s1 st(4)
    by (intro exI [of _ s1]) simp
qed

section \<open>Messages and interfaces\<close>

text \<open>A message keeps 63 characters of its name and 15 of its signature; longer ones are cut without notice.\<close>

lemma create_message_exact:
  assumes "CHR 0x00 \<notin> set name" "CHR 0x00 \<notin> set sig" "read_types vs = Some ts"
  shows "\<exists>st'. createWlMessage a name sig vs st = Some (External a, st') \<and>
    ad_message st' a = Some \<lparr>msg_name = take 63 name, signature = take 15 sig, types = ts\<rparr>"
proof -
  have "takeWhile (\<lambda>c. c \<noteq> CHR 0x00) (take n s) = take n s" if "CHR 0x00 \<notin> set s" for n and s :: string
    using that by (auto simp: takeWhile_eq_all_conv dest: in_set_takeD)
  then show ?thesis using assms by (simp add: createWlMessage_def read_text_def)
qed

end
