(* ===== verification/Spec2Isabelle.thy ===== *)
theory Spec2Isabelle
  imports WlArray WlSignal Framing Shm Socket Drm Egl WlOs Xwayland Addon
begin

text \<open>
  The native core of westfield: the C library under src/server/node/proxy/native/src, with which a
  Node.js compositor serves native Wayland clients.  It is a fork of libwayland-server
  (wayland-server/), buffers made of GPU memory (wlr_linux_dmabuf_v1.c, wlr_drm.c, westfield-egl.c and
  their helpers) and the X server for legacy clients (westfield-xwayland.c).  File names below are
  relative to that directory.

  How the parts interact.  A display (\<open>Socket\<close>, \<open>Globals\<close>) owns an event loop (\<open>EventLoop\<close>, with
  the timers of \<open>TimerHeap\<close>), listening sockets, globals and clients.  A client (\<open>Client\<close>) has a
  connection (\<open>Connection\<close>: four ring buffers, \<open>RingBuffer\<close>) and an id map (\<open>WlMap\<close>) from object
  ids to resources (\<open>Server\<close>).  Bytes that arrive are cut into messages (\<open>Framing\<close>), which the wire
  function of the compositor takes, or which are demarshalled into closures (\<open>Demarshal\<close>), whose
  objects are looked up and whose implementation is called (\<open>Invoke\<close>).  Events are marshalled into
  closures and serialised into the connection (\<open>Marshal\<close>), by the signatures of their messages
  (\<open>Signature\<close>).  Destruction runs over signals (\<open>WlSignal\<close>) of intrusive lists (\<open>WlList\<close>).
  Buffers of clients are shared memory (\<open>Shm\<close>) or DMA-BUFs (\<open>Dmabuf\<close>, \<open>Drm\<close>), whose formats are
  sets (\<open>DrmFormat\<close>) that the renderer finds (\<open>Egl\<close>) and clients are told about (\<open>Feedback\<close>).

  The theories, the code they model and what their lemmas show:

  \<^item> \<open>Prelude\<close>: word types, \<open>errno\<close>, raw memory as bytes with \<open>memcpy\<close> (\<open>mem_write\<close>), 32-bit loads and
    stores.  \<open>Os\<close>: the scripted system calls of the wire code.
  \<^item> \<open>RingBuffer\<close>, \<open>Connection\<close> (connection.c): the ring buffers refine byte queues across the
    wrap-around of their counters; through partial sends and errors the byte stream consists of the
    messages accepted, in order; every descriptor handed over is closed once.
  \<^item> \<open>WlMap\<close>, \<open>WlArray\<close>, \<open>WlList\<close>, \<open>WlSignal\<close> (wayland-util.c, wayland-server-core.h,
    wayland-server.c): the free list threaded through the entries of the id map, growing arrays, lists
    over a store of \<open>next\<close> and \<open>prev\<close> pointers that refine sequences, and emissions during which
    listeners unlink themselves and others.
  \<^item> \<open>Signature\<close>, \<open>Marshal\<close>, \<open>Demarshal\<close>, \<open>Invoke\<close> (connection.c): sizes and bounds of serialisation,
    safety of demarshalling arbitrary bytes (a read outside the message is the result \<open>UB\<close>, which is
    proved not to occur), the round trip from sending to demarshalling, and the types of the
    arguments handed to libffi.  \<open>serialize_closure\<close> returns a C \<open>int\<close>, so its sizes end at \<open>2 ^ 31\<close> bytes.
  \<^item> \<open>HeapOrder\<close>, \<open>TimerHeap\<close>, \<open>EventLoop\<close> (event-loop.c): the binary heap of timers with its back
    pointers, its order, the timer file descriptor, dispatching in order of deadlines; event sources,
    which are freed only after the events that were fetched, whatever sources the functions of the client
    add, update or remove in between (\<open>client_acts\<close>); idle sources, which run in order.
  \<^item> \<open>Server\<close>, \<open>Globals\<close>, \<open>Client\<close>, \<open>Framing\<close> (wayland-server.c): resources and ids, isolation
    of clients in events, registries and versions, the destruction of a client with all it owns, and
    the framing of requests.
  \<^item> \<open>Socket\<close> (wayland-server.c): sockets and lock files of several compositors in one file system,
    each of whose operations runs without those of others in between; lemma \<open>socket_lock_race\<close> runs
    three that do not.
  \<^item> \<open>Shm\<close> (wayland-shm.c): pools, their mappings, and their reference counts against the references the
    compositor really holds; bounds of buffers in the states reached without a failed \<open>mremap\<close> of a
    referenced pool, and what such a failure does; accesses guarded against SIGBUS, where a load
    (\<open>shm_load\<close>) is repeated after each fault until the memory behind it is there.
  \<^item> \<open>Dmabuf\<close>, \<open>Feedback\<close> (wlr_linux_dmabuf_v1.c, westfield-dmabuf.c, westfield-buffer.c, addon.c),
    \<open>DrmFormat\<close> (drm_format_set.c), \<open>Drm\<close> (wlr_drm.c), \<open>Egl\<close> (westfield-egl.c): the checks on
    planes, the table of formats and its indices, exact set operations, lifetimes of buffers, the
    search for extensions and devices, and the balance of descriptors on error paths.
  \<^item> \<open>WlOs\<close> (wayland-os.c, westfield-fdutils.c): close-on-exec on every path of the wrappers.
  \<^item> \<open>Xwayland\<close> (westfield-xwayland.c): display numbers and lock files of X servers.  The searches for a
    display in \<open>xdisplays\<close> do not overlap; lemma \<open>stale_unlink_race\<close> shows what happens when they do.
  \<^item> \<open>Addon\<close> (node-addon/westfield-addon.c): what crosses the border to JavaScript - messages, descriptors,
    references, events - and when references are given back, whatever setters JavaScript calls, as
    long as it leaves the references of the library alone (\<open>js_acts\<close>).
  \<^item> This theory follows the formats across \<open>Egl\<close>, \<open>DrmFormat\<close> and \<open>Drm\<close>, from the driver to the clients.

  How the state is modelled.  Structures are records with the fields of the code; objects on the heap are
  maps from 64-bit addresses, so that the use of a freed object is visible, and intrusive lists are
  lists of addresses except in \<open>WlList\<close> and \<open>WlSignal\<close>, where the pointers themselves are modelled.
  Machine integers are words of their width and wrap; C \<open>int\<close>s that are only compared or passed on
  are \<open>int\<close>.  Errors are values: \<open>errno + 'a\<close> where the code sets \<open>errno\<close> (\<open>UNSET\<close> where it fails without
  doing so, \<open>UB\<close> and \<open>ABORT\<close> where it has no result), \<open>option\<close> where \<open>None\<close> stands for undefined behaviour, a failed assertion, an abort, or a loop that does not return.  The
  results of system calls come from scripts in the state or from arguments; memory that the code
  leaves uninitialised is an argument too.

  Bounds and loops.  The constants are those of the code (4096-byte rings, 28 descriptors a message, 20
  arguments, ids below 0xff000000 for clients, 4 planes, 50 attributes).  No loop runs on fuel: loops
  over data are structural or have a measure; loops whose end depends on callbacks, on the system or
  on wrap-around are partial functions into \<open>option\<close>, and that they return is part of what is proved
  (\<open>dispatch_idle_fifo\<close>, \<open>wire_messages_framed\<close>, \<open>xserver_listen_least_free\<close> and the lemmas on the timer
  heap), or that they do not (\<open>wl_array_add_no_return\<close>, \<open>zero_size_message_hangs\<close>).

  The interfaces are locales, interpreted on the definitions of the code: \<open>ordered_writer\<close> and
  \<open>ordered_writer_with_fds\<close> (what a connection promises to those who write messages: \<open>wl_connection_write\<close> and
  \<open>wl_connection_queue\<close>), \<open>connection_sink\<close> (what sending a closure needs of it), \<open>id_allocator\<close> (the id
  map), \<open>collection\<close> (sets of formats and of modifiers), \<open>min_queue\<close> (the timer heap as a queue of
  deadlines), \<open>listeners\<close> and its extensions (what an emission needs of the listeners), and
  \<open>descriptor_source\<close> (the wrappers that make descriptors).

  Not modelled, and why.
  \<^item> The functions of node-addon/westfield-addon.c that only convert JavaScript values and call one function
    modelled here (creating and destroying the display, its sockets, shm, EGL, Xwayland), and its helpers
    that make files and pipes.  N-API itself is not part of the sources.
  \<^item> wayland-protocol.c, wayland-server-protocol.h, linux-dmabuf-unstable-v1-protocol.c and .h,
    drm-protocol.c and .h are written by a generator: tables of messages and inline functions that post
    one event.  The opcodes that the modelled code posts are definitions; the tables are arguments.
  \<^item> Logging and protocol loggers, except that a logged message does not change the state; getters that
    return a field; the accessors of lists that the library itself does not use.
  \<^item> The TypeScript parts of the repository: the client, the server and the generators of protocol
    bindings.
\<close>

section \<open>Formats, from the driver to the clients\<close>

lemma copy_loop_all:
  "\<forall>f \<in> set fs. format_ok f \<Longrightarrow> length (fs_formats out) + length fs \<le> fs_capacity out \<Longrightarrow> alloc_script w = [] \<Longrightarrow>
   copy_loop fs out w = Some (True, out\<lparr>fs_formats := fs_formats out @ fs\<rparr>, w)"
  by (induction fs arbitrary: out) (simp_all add: drm_format_dup_def format_ok_def sys_malloc_def push_format_def)

lemma set_copy_all:
  "set_ok src \<Longrightarrow> alloc_script w = [] \<Longrightarrow>
   drm_format_set_copy dst src w = Some (True, \<lparr>fs_capacity = length (fs_formats src), fs_formats = fs_formats src\<rparr>, w)"
  by (simp add: drm_format_set_copy_def sys_malloc_def copy_loop_all set_ok_def)

lemma set_has_format:
  "set_ok st \<Longrightarrow> drm_format_set_has st x m \<longleftrightarrow> (\<exists>f \<in> set (fs_formats st). f_format f = x \<and> drm_format_has f m)"
  by (auto simp: set_has_pairs pairs_of_def drm_format_has_def)

text \<open>The formats of a set that are announced: those with an implicit modifier.\<close>

definition announced :: "drm_format_set \<Rightarrow> u32 list" where
  "announced st = map f_format (filter (\<lambda>f. drm_format_has f DRM_FORMAT_MOD_INVALID) (fs_formats st))"

lemma announced_set: "set_ok st \<Longrightarrow> set (announced st) = {x. drm_format_set_has st x DRM_FORMAT_MOD_INVALID} \<and> distinct (announced st)"
  by (auto simp: announced_def set_has_format) (auto simp: set_ok_def intro: distinct_map_filter)

lemma send_announced:
  "send_drm_formats env r (fs_formats st) s = fold (\<lambda>x so. so \<bind> wl_resource_post_event env r WL_DRM_FORMAT [W x]) (announced st) (Some s)"
  by (simp add: send_drm_formats_filter announced_def fold_map o_def)

lemma drm_create_formats:
  assumes "wlr_drm_create env q drm_fd nodes dup_ok d (Some fs) ga st = Some (d, st')" "d \<noteq> 0" "set_ok fs"
    and "alloc_script (s_os (dr_server st)) = []"
  shows "\<exists>drm. dr_drm st' d = Some drm \<and> fs_formats (dg_formats drm) = fs_formats fs"
  using assms(1,2) set_copy_all [OF assms(3,4), of empty_set]
  by (auto simp: wlr_drm_create_def Let_def bind_eq_Some_conv split: if_splits option.splits prod.splits)

lemma drm_create_some:
  assumes "0 \<le> drm_fd" "d \<noteq> 0" "set_ok fs" "alloc_script (s_os (dr_server st)) = []"
    and "wl_global_create env ga (q_drm_interface q) WLR_DRM_VERSION d (q_bind q) (dr_server st) = Some (g, s)" "g \<noteq> 0"
  shows "\<exists>st'. wlr_drm_create env q drm_fd (Some (Some name, primary)) True d (Some fs) ga st = Some (d, st')"
proof -
  have "dr_os (\<lambda>_. s_os (dr_server st)) st = st" by (simp add: dr_os_def)
  then show ?thesis using assms set_copy_all [OF assms(3,4), of empty_set] by (simp add: wlr_drm_create_def Let_def)
qed

text \<open>C13: A client that binds wl_drm is told, each once, exactly the formats of the driver whose modifiers could be
  queried: the formats that the renderer takes over from the driver are copied into the global, and
  from there all that have the implicit modifier are sent.\<close>

theorem driver_formats_announced:
  assumes "alloc_script w = []" "we_texture_formats we = empty_set" "we_render_formats we = empty_set"
    and "get_egl_dmabuf_formats dr we w = Some (Some xs, w)"
    and "\<forall>x \<in> set xs. get_egl_dmabuf_modifiers dr we x w = Some (mods x, w)"
    and "init_dmabuf_formats dr we w = Some (we', w)"
    and "wlr_drm_create env q drm_fd nodes dup_ok d (Some (westfield_egl_get_dmabuf_texture_formats we')) ga st = Some (d, st')"
    and "d \<noteq> 0" "alloc_script (s_os (dr_server st)) = []"
  shows "\<exists>drm fs. dr_drm st' d = Some drm \<and> distinct fs \<and> set fs = {x \<in> set xs. mods x \<noteq> None} \<and>
    (\<forall>r s. send_drm_formats env r (fs_formats (dg_formats drm)) s =
       fold (\<lambda>x so. so \<bind> wl_resource_post_event env r WL_DRM_FORMAT [W x]) fs (Some s))"
proof -
  let ?tex = "we_texture_formats we'"
  have e: "set_ok (we_texture_formats we)" "set_ok (we_render_formats we)" "\<not> drm_format_set_has (we_texture_formats we) x m" for x m
    using empty_set_ok assms(2,3) by simp_all
  have ok: "set_ok ?tex" using init_formats_ok [OF assms(1) e(1,2) assms(4,5,6)] .
  have "drm_format_set_has ?tex x DRM_FORMAT_MOD_INVALID \<longleftrightarrow> x \<in> set xs \<and> mods x \<noteq> None" for x
    using init_formats_spec [OF assms(1) e(1,2) assms(4,5)] assms(6) e(3) by auto
  then have "set (announced ?tex) = {x \<in> set xs. mods x \<noteq> None}" "distinct (announced ?tex)"
    using announced_set [OF ok] by auto
  moreover obtain drm where "dr_drm st' d = Some drm" "fs_formats (dg_formats drm) = fs_formats ?tex"
    using drm_create_formats [OF assms(7,8) _ assms(9)] ok by (auto simp: westfield_egl_get_dmabuf_texture_formats_def)
  ultimately show ?thesis using send_announced by (intro exI [of _ drm] exI [of _ "announced ?tex"]) simp
qed

lemma driver_formats_announced_witness:
  "\<exists>we' st' drm fs. init_dmabuf_formats sample_driver sample_egl os_init = Some (we', os_init) \<and>
    wlr_drm_create sample_env drm_sample_env 9 (Some (Some ''/dev/dri/renderD128'', None)) True 700
      (Some (westfield_egl_get_dmabuf_texture_formats we')) 704 \<lparr>dr_server = dm_server 0, dr_buffer = (\<lambda>_. None), dr_drm = (\<lambda>_. None)\<rparr> =
      Some (700, st') \<and> dr_drm st' 700 = Some drm \<and> distinct fs \<and> set fs = {17, 34 :: u32}"
proof -
  have f: "get_egl_dmabuf_formats sample_driver sample_egl os_init = Some (Some [17, 34], os_init)"
    by (simp add: get_egl_dmabuf_formats_def sample_driver_def sample_egl_def zero_egl_def sys_malloc_def os_init_def)
  have q: "\<forall>x \<in> set [17, 34]. get_egl_dmabuf_modifiers sample_driver sample_egl x os_init =
      Some ((\<lambda>x. Some (if x = 17 then [(5, False)] else [])) x, os_init)"
    by (simp add: get_egl_dmabuf_modifiers_def sample_driver_def sample_egl_def zero_egl_def sys_malloc_def os_init_def)
  have a: "alloc_script os_init = []" "we_texture_formats sample_egl = empty_set" "we_render_formats sample_egl = empty_set"
    by (simp_all add: os_init_def sample_egl_def zero_egl_def)
  obtain we' where i: "init_dmabuf_formats sample_driver sample_egl os_init = Some (we', os_init)"
    using init_formats_spec [OF a(1) _ _ f q] a(2,3) empty_set_ok(1) by auto
  have ok: "set_ok (we_texture_formats we')"
    using init_formats_ok [OF a(1) _ _ f q i] a(2,3) empty_set_ok(1) by simp
  let ?st = "\<lparr>dr_server = dm_server 0, dr_buffer = (\<lambda>_. None), dr_drm = (\<lambda>_. None)\<rparr>"
  have m: "alloc_script (s_os (dr_server ?st)) = []" using dm_server_simps by simp
  have "d_registries (dm_server 0) = []" "d_global_created_cb (dm_server 0) = 0" "iface_version (e_ifaces sample_env 7) = 4"
    by (simp_all add: dm_server_def sample_server_def sample_env_def output_iface_def)
  then have g: "\<exists>s. wl_global_create sample_env 704 7 WLR_DRM_VERSION 700 83 (dm_server 0) = Some (704, s)"
    by (simp add: wl_global_create_def WLR_DRM_VERSION_def Let_def)
  then obtain s where "wl_global_create sample_env 704 7 WLR_DRM_VERSION 700 83 (dm_server 0) = Some (704, s)" by blast
  then have "wl_global_create sample_env 704 (q_drm_interface drm_sample_env) WLR_DRM_VERSION 700 (q_bind drm_sample_env) (dr_server ?st) = Some (704, s)"
    by (simp add: drm_sample_env_def)
  note g = this
  have "(0 :: int) \<le> 9" "(700 :: u64) \<noteq> 0" "(704 :: u64) \<noteq> 0" by simp_all
  from drm_create_some [OF this(1,2) ok m g this(3), of "''/dev/dri/renderD128''" None]
  obtain st' where "wlr_drm_create sample_env drm_sample_env 9 (Some (Some ''/dev/dri/renderD128'', None)) True 700
      (Some (we_texture_formats we')) 704 ?st = Some (700, st')" by blast
  note c = this [folded westfield_egl_get_dmabuf_texture_formats_def]
  obtain drm fs where d: "dr_drm st' 700 = Some drm" "distinct fs"
      "set fs = {x \<in> set [17, 34]. (\<lambda>x :: u32. Some (if x = 17 then [(5 :: u64, False)] else [])) x \<noteq> None}"
    using driver_formats_announced [OF a f q i c \<open>(700 :: u64) \<noteq> 0\<close> m] by blast
  have "set fs = {17, 34}" unfolding d(3) by auto
  with i c d(1,2) show ?thesis by blast
qed

end
